(* ===== verification/Ficus_Base.thy ===== *)
theory Ficus_Base
  imports Main "HOL-Library.Word"
begin

text \<open>
  The prelude of the development: the byte-addressed memory that the C code of
  the C library and of the kernel reads and writes, the NUL-terminated strings
  in it, little-endian word access, and the generic lemmas on them that the
  component theories share.

  An address is a natural number and a memory is a total function from
  addresses to bytes; an object never wraps around the end of the address
  space, so pointer arithmetic is plain arithmetic.  A \<open>long\<close> is 64 bits wide
  and little-endian, as on the x86-64 target of the repository.
\<close>

unbundle bit_operations_syntax

named_theorems cstr_simps "unfolding rules for NUL-terminated strings in memory"
named_theorems mem_simps "reading back what was written to memory"

section \<open>Memory and strings\<close>

type_synonym byte = "8 word"
type_synonym addr = nat
type_synonym mem = "addr \<Rightarrow> byte"

text \<open>A NUL-terminated string \<open>xs\<close> (its bytes without the terminator) at \<open>p\<close>.\<close>

primrec cstr :: "mem \<Rightarrow> addr \<Rightarrow> byte list \<Rightarrow> bool" where
  "cstr m p [] = (m p = 0)"
| "cstr m p (x # xs) = (m p = x \<and> x \<noteq> 0 \<and> cstr m (Suc p) xs)"

text \<open>The \<open>n\<close> bytes from \<open>p\<close>, and writing a block of bytes at \<open>p\<close>.\<close>

definition bytes_of :: "mem \<Rightarrow> addr \<Rightarrow> nat \<Rightarrow> byte list" where
  "bytes_of m p n = map m [p..<p + n]"

primrec wr :: "mem \<Rightarrow> addr \<Rightarrow> byte list \<Rightarrow> mem" where
  "wr m p [] = m"
| "wr m p (x # xs) = wr (m(p := x)) (Suc p) xs"

text \<open>A memory that holds only a string, at address \<open>p\<close>.\<close>

definition text_mem :: "addr \<Rightarrow> byte list \<Rightarrow> mem" where
  "text_mem p xs = wr (\<lambda>a. 0) p (xs @ [0])"

section \<open>Little-endian words\<close>

primrec le_val :: "byte list \<Rightarrow> nat" where
  "le_val [] = 0"
| "le_val (b # bs) = unat b + 256 * le_val bs"

primrec le_bytes :: "nat \<Rightarrow> nat \<Rightarrow> byte list" where
  "le_bytes 0 v = []"
| "le_bytes (Suc n) v = word_of_nat v # le_bytes n (v div 256)"

definition load64 :: "mem \<Rightarrow> addr \<Rightarrow> 64 word" where
  "load64 m p = word_of_nat (le_val (bytes_of m p 8))"

definition store64 :: "mem \<Rightarrow> addr \<Rightarrow> 64 word \<Rightarrow> mem" where
  "store64 m p v = wr m p (le_bytes 8 (unat v))"

section \<open>Lemmas on lists\<close>

lemma takeWhile_notin [simp]: "c \<notin> set xs \<Longrightarrow> takeWhile (\<lambda>b. b \<noteq> c) xs = xs"
  by (induction xs) auto

lemma takeWhile_notin_append [simp]:
  "c \<notin> set ys \<Longrightarrow> takeWhile (\<lambda>b. b \<noteq> c) (ys @ c # zs) = ys"
  by (induction ys) auto

lemma length_takeWhile_in: "c \<in> set xs \<Longrightarrow> length (takeWhile (\<lambda>b. b \<noteq> c) xs) < length xs"
  by (induction xs) auto

section \<open>Lemmas on strings\<close>

lemma cstr_iff_nth:
  "cstr m p xs \<longleftrightarrow> (\<forall>i<length xs. m (p + i) = xs ! i \<and> xs ! i \<noteq> 0) \<and> m (p + length xs) = 0"
proof (induction xs arbitrary: p)
  case Nil
  then show ?case by simp
next
  case (Cons x xs)
  show ?case
    by (auto simp: Cons.IH nth_Cons less_Suc_eq_0_disj split: nat.splits)
qed

lemma cstr_drop: "cstr m p xs \<Longrightarrow> k \<le> length xs \<Longrightarrow> cstr m (p + k) (drop k xs)"
  by (auto simp: cstr_iff_nth add.assoc)

lemma cstr_nonzero: "cstr m p xs \<Longrightarrow> i < length xs \<Longrightarrow> m (p + i) \<noteq> 0"
  by (simp add: cstr_iff_nth)

lemma cstr_end: "cstr m p xs \<Longrightarrow> m (p + length xs) = 0"
  by (simp add: cstr_iff_nth)

lemma cstr_zero_past: "cstr m p xs \<Longrightarrow> m (p + i) = 0 \<Longrightarrow> length xs \<le> i"
  by (meson cstr_nonzero leI)

lemma cstr_unique: "cstr m p xs \<Longrightarrow> cstr m p ys \<Longrightarrow> xs = ys"
proof (induction xs arbitrary: p ys)
  case Nil
  then show ?case by (cases ys) auto
next
  case (Cons x xs)
  then show ?case by (cases ys) auto
qed

lemma cstr_set: "cstr m p xs \<Longrightarrow> 0 \<notin> set xs"
  by (induction xs arbitrary: p) auto

lemma cstr_cong:
  assumes "\<And>i. i \<le> length xs \<Longrightarrow> m' (p + i) = m (p + i)"
  shows "cstr m' p xs = cstr m p xs"
  using assms by (auto simp: cstr_iff_nth)

section \<open>Lemmas on blocks of bytes\<close>

lemma length_bytes_of [simp]: "length (bytes_of m p n) = n"
  by (simp add: bytes_of_def)

lemma nth_bytes_of [simp]: "i < n \<Longrightarrow> bytes_of m p n ! i = m (p + i)"
  by (simp add: bytes_of_def)

lemma bytes_of_0 [simp]: "bytes_of m p 0 = []"
  by (simp add: bytes_of_def)

lemma bytes_of_Suc: "bytes_of m p (Suc n) = m p # bytes_of m (Suc p) n"
  by (simp add: bytes_of_def upt_conv_Cons del: upt_Suc)

lemma bytes_of_add: "bytes_of m p (n + k) = bytes_of m p n @ bytes_of m (p + n) k"
  using upt_add_eq_append [of p "p + n" k] by (simp add: bytes_of_def add.assoc)

lemma bytes_of_snoc: "bytes_of m p (Suc n) = bytes_of m p n @ [m (p + n)]"
  by (simp add: bytes_of_def)

lemma wr_out: "q < p \<or> p + length xs \<le> q \<Longrightarrow> wr m p xs q = m q"
  by (induction xs arbitrary: m p) auto

lemma wr_in: "i < length xs \<Longrightarrow> wr m p xs (p + i) = xs ! i"
proof (induction xs arbitrary: m p i)
  case Nil
  then show ?case by simp
next
  case (Cons x xs)
  show ?case
  proof (cases i)
    case 0
    then show ?thesis by (simp add: wr_out)
  next
    case (Suc j)
    then show ?thesis using Cons.IH [of j "m(p := x)" "Suc p"] Cons.prems by (simp del: fun_upd_apply)
  qed
qed

lemma wr_eq: "wr m p xs q = (if p \<le> q \<and> q < p + length xs then xs ! (q - p) else m q)"
  using wr_in [of "q - p" xs m p] by (auto simp: wr_out)

lemma wr_append: "wr m p (xs @ ys) = wr (wr m p xs) (p + length xs) ys"
  by (induction xs arbitrary: m p) auto

lemma wr_snoc: "wr m p (xs @ [x]) = (wr m p xs)(p + length xs := x)"
  by (simp add: wr_append)

lemma bytes_of_wr_out:
  "q + n \<le> p \<or> p + length xs \<le> q \<Longrightarrow> bytes_of (wr m p xs) q n = bytes_of m q n"
  by (auto simp: list_eq_iff_nth_eq wr_eq)

lemma bytes_of_wr_same: "bytes_of (wr m p xs) p (length xs) = xs"
  by (auto simp: list_eq_iff_nth_eq wr_eq)

lemma cstr_bytes_of: "cstr m p xs \<Longrightarrow> bytes_of m p (length xs) = xs"
  by (auto simp: list_eq_iff_nth_eq cstr_iff_nth)

lemma cstr_wr: "0 \<notin> set xs \<Longrightarrow> cstr (wr m p (xs @ [0])) p xs"
  by (auto simp: cstr_iff_nth wr_eq nth_append in_set_conv_nth)

lemmas wr_simps [mem_simps] = wr_eq bytes_of_wr_out bytes_of_wr_same

section \<open>Lemmas on little-endian words\<close>

lemma unat_byte_less: "unat (b :: byte) < 256"
  using unsigned_less [of b] by simp

lemma le_val_less: "le_val bs < 256 ^ length bs"
proof (induction bs)
  case Nil
  then show ?case by simp
next
  case (Cons b bs)
  have "unat b < 256" by (rule unat_byte_less)
  with Cons show ?case by simp
qed

lemma le_bytes_le_val: "le_bytes (length bs) (le_val bs) = bs"
proof (induction bs)
  case Nil
  then show ?case by simp
next
  case (Cons b bs)
  have b: "unat b < 256" by (rule unat_byte_less)
  have "(word_of_nat (unat b + 256 * le_val bs) :: byte) = b"
  proof -
    have "(256 :: byte) = 0" by simp
    then show ?thesis by (simp only: of_nat_add of_nat_mult of_nat_numeral mult_zero_left) simp
  qed
  moreover have "(unat b + 256 * le_val bs) div 256 = le_val bs"
    using b by simp
  ultimately show ?case using Cons by simp
qed

lemma length_le_bytes [simp]: "length (le_bytes n v) = n"
  by (induction n arbitrary: v) auto

lemma le_val_inject: "length xs = length ys \<Longrightarrow> le_val xs = le_val ys \<Longrightarrow> xs = ys"
  by (metis le_bytes_le_val)

lemma unat_load64: "unat (load64 m p) = le_val (bytes_of m p 8)"
  using le_val_less [of "bytes_of m p 8"]
  by (simp add: load64_def unsigned_of_nat take_bit_eq_mod)

lemma store64_load64: "store64 m' d (load64 m s) = wr m' d (bytes_of m s 8)"
  using le_bytes_le_val [of "bytes_of m s 8"] by (simp add: store64_def unat_load64)

lemma load64_eq_iff: "load64 m p = load64 m' q \<longleftrightarrow> bytes_of m p 8 = bytes_of m' q 8"
  by (metis length_bytes_of le_val_inject load64_def unat_load64)

section \<open>Bytes of a word, bit by bit\<close>

lemma bit_byte_cat_int:
  fixes a x :: int
  assumes "0 \<le> a" "a < 256"
  shows "bit (a + 256 * x) n = (if n < 8 then bit a n else bit x (n - 8))"
proof (cases "n < 8")
  case True
  then obtain k where k: "8 = n + Suc k" by (metis add_Suc_right less_iff_Suc_add)
  have "(256::int) = 2 ^ (n + Suc k)" by (subst k [symmetric]) simp
  then have "(256::int) = 2 ^ n * (2 * 2 ^ k)" by (simp add: power_add)
  then have "a + 256 * x = a + (2 * (2 ^ k * x)) * 2 ^ n"
    by (simp only: ac_simps)
  then have "(a + 256 * x) div 2 ^ n = 2 * (2 ^ k * x) + a div 2 ^ n"
    by (simp only: div_mult_self1 [of "2 ^ n" a "2 * (2 ^ k * x)"] power_not_zero) simp
  with True show ?thesis by (simp add: bit_iff_odd)
next
  case False
  have "(2::int) ^ n = 2 ^ (8 + (n - 8))" using False by simp
  then have p: "(2::int) ^ n = 256 * 2 ^ (n - 8)" by (simp add: power_add)
  have "(a + 256 * x) div 2 ^ n = (a + 256 * x) div 256 div 2 ^ (n - 8)"
    by (simp only: p) (simp add: zdiv_zmult2_eq)
  also have "(a + 256 * x) div 256 = x" using assms by simp
  finally show ?thesis using False by (simp add: bit_iff_odd)
qed

lemma bit_byte_cat:
  fixes a x :: nat
  assumes "a < 256"
  shows "bit (a + 256 * x) n = (if n < 8 then bit a n else bit x (n - 8))"
proof -
  have "bit (int a + 256 * int x) n = (if n < 8 then bit (int a) n else bit (int x) (n - 8))"
    by (rule bit_byte_cat_int) (use assms in auto)
  moreover have "int a + 256 * int x = int (a + 256 * x)" by simp
  ultimately show ?thesis by (simp only: bit_of_nat_iff_bit)
qed

lemma bit7_int: "0 \<le> a \<Longrightarrow> a < 256 \<Longrightarrow> bit (a::int) 7 \<longleftrightarrow> 128 \<le> a"
  by (simp add: bit_iff_odd) presburger

lemma le_val_xor:
  "length xs = length ys \<Longrightarrow> le_val xs XOR le_val ys = le_val (map2 (XOR) xs ys)"
proof (induction xs ys rule: list_induct2)
  case Nil
  then show ?case by simp
next
  case (Cons x xs y ys)
  have "(unat x + 256 * le_val xs) XOR (unat y + 256 * le_val ys)
      = unat (x XOR y) + 256 * (le_val xs XOR le_val ys)"
    by (rule bit_eqI)
      (simp only: bit_xor_iff bit_byte_cat unat_byte_less, simp add: unsigned_xor_eq bit_xor_iff)
  with Cons show ?case by simp
qed

lemma bit_le_val:
  "n < 8 * length bs \<Longrightarrow> bit (le_val bs) n = bit (bs ! (n div 8)) (n mod 8)"
proof (induction bs arbitrary: n)
  case Nil
  then show ?case by simp
next
  case (Cons b bs)
  show ?case
  proof (cases "n < 8")
    case True
    then show ?thesis
      by (simp add: bit_byte_cat [OF unat_byte_less] bit_unsigned_iff)
  next
    case False
    then have "n div 8 = Suc ((n - 8) div 8)" "n mod 8 = (n - 8) mod 8"
      by (simp_all add: le_div_geq le_mod_geq)
    then show ?thesis using False Cons by (simp add: bit_byte_cat [OF unat_byte_less])
  qed
qed

lemma bit_word_le_val:
  assumes "length bs = 8"
  shows "bit (word_of_nat (le_val bs) :: 64 word) n \<longleftrightarrow> n < 64 \<and> bit (bs ! (n div 8)) (n mod 8)"
proof -
  have "(word_of_nat (le_val bs) :: 64 word) = word_of_int (int (le_val bs))" by simp
  then have "bit (word_of_nat (le_val bs) :: 64 word) n \<longleftrightarrow> n < 64 \<and> bit (le_val bs) n"
    by (simp only: bit_word_of_int_iff) (simp add: bit_of_nat_iff)
  then show ?thesis using bit_le_val [of n bs] assms by auto
qed

lemma replicate_8: "replicate 8 x = [x, x, x, x, x, x, x, x]"
  by (simp add: numeral_eq_Suc)

lemma set_bytes_of: "(\<exists>b\<in>set (bytes_of m p n). P b) \<longleftrightarrow> (\<exists>i<n. P (m (p + i)))"
  by (auto simp: in_set_conv_nth Bex_def)

lemma xor_byte_eq_0: "x XOR d = 0 \<longleftrightarrow> x = (d :: byte)"
  by (metis bit.xor_left_self xor.right_neutral)

section \<open>The last occurrence in a list\<close>

definition last_index :: "'a \<Rightarrow> 'a list \<Rightarrow> nat" where
  "last_index c xs = length xs - 1 - length (takeWhile (\<lambda>b. b \<noteq> c) (rev xs))"

lemma last_index_append:
  "last_index c (ys @ c # zs) = (if c \<in> set zs then Suc (length ys + last_index c zs) else length ys)"
proof (cases "c \<in> set zs")
  case True
  then have tw: "takeWhile (\<lambda>b. b \<noteq> c) (rev zs @ ws) = takeWhile (\<lambda>b. b \<noteq> c) (rev zs)" for ws
    by (intro takeWhile_append1) auto
  have "length (takeWhile (\<lambda>b. b \<noteq> c) (rev zs)) < length zs"
    using True length_takeWhile_in [of c "rev zs"] by simp
  with True show ?thesis by (simp add: last_index_def tw)
next
  case False
  then have "takeWhile (\<lambda>b. b \<noteq> c) (rev zs @ c # rev ys) = rev zs"
    using takeWhile_notin_append [of c "rev zs" "rev ys"] by simp
  with False show ?thesis by (simp add: last_index_def)
qed

lemma last_index_snoc: "last_index c (xs @ [x]) =
   (if x = c then length xs else if xs = [] then 0 else last_index c xs)"
  by (cases xs rule: rev_cases) (auto simp: last_index_def)

end
