(* ===== verification/Newlib_Memsearch.thy ===== *)
theory Newlib_Memsearch
  imports Ficus_Base
begin

text \<open>
  The byte-searching functions of the C library's \<open>libc/string\<close>: \<open>strlen\<close>,
  \<open>strnlen\<close>, \<open>strchr\<close>, \<open>strchrnul\<close>, \<open>strrchr\<close>, \<open>index\<close>, \<open>rindex\<close>, \<open>memchr\<close>,
  \<open>rawmemchr\<close> and \<open>memrchr\<close>, in the variants built for speed on a 64-bit
  \<open>long\<close>: they align the pointer, search eight bytes at a time with the
  \<open>DETECTNULL\<close> bit trick and finish bytewise.

  A loop that runs until it meets a byte is a \<open>partial_function (option)\<close>, so
  \<open>None\<close> is "does not return"; a loop over a length is a total function.
  A pointer result is an address and \<open>NULL\<close> is the address 0.
\<close>

section \<open>The macros\<close>

definition DETECTNULL :: "64 word \<Rightarrow> 64 word" where
  "DETECTNULL x = (x - 0x0101010101010101) AND NOT x AND 0x8080808080808080"

definition DETECTCHAR :: "64 word \<Rightarrow> 64 word \<Rightarrow> 64 word" where
  "DETECTCHAR x msk = DETECTNULL (x XOR msk)"

definition UNALIGNED :: "addr \<Rightarrow> bool" where
  "UNALIGNED p \<longleftrightarrow> p mod 8 \<noteq> 0"

definition TOO_SMALL :: "nat \<Rightarrow> bool" where
  "TOO_SMALL len \<longleftrightarrow> len < 8"

text \<open>
  The word with every byte equal to \<open>d\<close>, as \<open>memchr\<close>, \<open>memrchr\<close>, \<open>rawmemchr\<close> and
  \<open>memset\<close> build it, and as the loop over \<open>j\<close> in \<open>strchr\<close> builds it.
\<close>

definition fill_mask :: "byte \<Rightarrow> 64 word" where
  "fill_mask d =
     (let d = (ucast d :: 64 word);
          msk = push_bit 8 d OR d;
          msk = push_bit 16 msk OR msk
      in push_bit 32 msk OR msk)"

definition strchr_mask :: "byte \<Rightarrow> 64 word" where
  "strchr_mask c = fold (\<lambda>j msk. push_bit j msk OR msk) [8, 16, 32] (ucast c)"

section \<open>The loops\<close>

text \<open>\<open>while (!stop) s++;\<close> over bytes and over aligned words.\<close>

partial_function (option) scan_bytes :: "(byte \<Rightarrow> bool) \<Rightarrow> mem \<Rightarrow> addr \<Rightarrow> addr option" where
  "scan_bytes stop m s = (if stop (m s) then Some s else scan_bytes stop m (s + 1))"

partial_function (option) scan_words :: "(64 word \<Rightarrow> bool) \<Rightarrow> mem \<Rightarrow> addr \<Rightarrow> addr option" where
  "scan_words det m a = (if det (load64 m a) then Some a else scan_words det m (a + 8))"

text \<open>
  The loop that aligns the pointer: \<open>Inl\<close> of the address where it left the
  function, or \<open>Inr\<close> of the aligned pointer.
\<close>

function align_scan :: "(byte \<Rightarrow> bool) \<Rightarrow> mem \<Rightarrow> addr \<Rightarrow> addr + addr" where
  "align_scan stop m s =
     (if UNALIGNED s then if stop (m s) then Inl s else align_scan stop m (s + 1) else Inr s)"
  by pat_completeness auto
termination
  by (relation "measure (\<lambda>(stop, m, s). (8 - s mod 8) mod 8)")
    (auto simp: UNALIGNED_def mod_Suc)

section \<open>The functions\<close>

definition strlen :: "mem \<Rightarrow> addr \<Rightarrow> nat option" where
  "strlen m str =
     (let start = str in
      case align_scan (\<lambda>b. b = 0) m str of
        Inl str \<Rightarrow> Some (str - start)
      | Inr str \<Rightarrow>
          (case scan_words (\<lambda>x. DETECTNULL x \<noteq> 0) m str of
             None \<Rightarrow> None
           | Some str \<Rightarrow>
               map_option (\<lambda>str. str - start) (scan_bytes (\<lambda>b. b = 0) m str)))"

definition strchr :: "mem \<Rightarrow> addr \<Rightarrow> byte \<Rightarrow> addr option" where
  "strchr m s c =
     (if c = 0 then
        (case align_scan (\<lambda>b. b = 0) m s of
           Inl s \<Rightarrow> Some s
         | Inr s \<Rightarrow>
             (case scan_words (\<lambda>x. DETECTNULL x \<noteq> 0) m s of
                None \<Rightarrow> None
              | Some s \<Rightarrow> scan_bytes (\<lambda>b. b = 0) m s))
      else
        (case align_scan (\<lambda>b. b = 0 \<or> b = c) m s of
           Inl s \<Rightarrow> Some (if m s = 0 then 0 else s)
         | Inr s \<Rightarrow>
             (let msk = strchr_mask c in
              case scan_words (\<lambda>x. DETECTNULL x \<noteq> 0 \<or> DETECTCHAR x msk \<noteq> 0) m s of
                None \<Rightarrow> None
              | Some s \<Rightarrow>
                  map_option (\<lambda>s. if m s = c then s else 0)
                    (scan_bytes (\<lambda>b. b = 0 \<or> b = c) m s))))"

definition index :: "mem \<Rightarrow> addr \<Rightarrow> byte \<Rightarrow> addr option" where
  "index m s c = strchr m s c"

definition strchrnul :: "mem \<Rightarrow> addr \<Rightarrow> byte \<Rightarrow> addr option" where
  "strchrnul m s1 i =
     (case strchr m s1 i of
        None \<Rightarrow> None
      | Some s \<Rightarrow> if s \<noteq> 0 then Some s else map_option (\<lambda>n. s1 + n) (strlen m s1))"

partial_function (option) strrchr_loop :: "mem \<Rightarrow> addr \<Rightarrow> byte \<Rightarrow> addr \<Rightarrow> addr option" where
  "strrchr_loop m s c lst =
     (case strchr m s c of
        None \<Rightarrow> None
      | Some s \<Rightarrow> if s \<noteq> 0 then strrchr_loop m (s + 1) c s else Some lst)"

definition strrchr :: "mem \<Rightarrow> addr \<Rightarrow> byte \<Rightarrow> addr option" where
  "strrchr m s c = (if c \<noteq> 0 then strrchr_loop m s c 0 else strchr m s c)"

definition rindex :: "mem \<Rightarrow> addr \<Rightarrow> byte \<Rightarrow> addr option" where
  "rindex m s c = strrchr m s c"

fun strnlen_loop :: "mem \<Rightarrow> addr \<Rightarrow> nat \<Rightarrow> addr" where
  "strnlen_loop m str 0 = str"
| "strnlen_loop m str (Suc n) = (if m str \<noteq> 0 then strnlen_loop m (str + 1) n else str)"

definition strnlen :: "mem \<Rightarrow> addr \<Rightarrow> nat \<Rightarrow> nat" where
  "strnlen m str n = strnlen_loop m str n - str"

definition rawmemchr :: "mem \<Rightarrow> addr \<Rightarrow> byte \<Rightarrow> addr option" where
  "rawmemchr m src d =
     (case align_scan (\<lambda>b. b = d) m src of
        Inl src \<Rightarrow> Some src
      | Inr src \<Rightarrow>
          (case scan_words (\<lambda>x. DETECTCHAR x (fill_mask d) \<noteq> 0) m src of
             None \<Rightarrow> None
           | Some src \<Rightarrow> scan_bytes (\<lambda>b. b = d) m src))"

text \<open>
  \<open>memchr\<close>: the aligning loop gives back \<open>Inl\<close> of its return value, or \<open>Inr\<close> of
  the pointer and the length left.
\<close>

function memchr_align :: "mem \<Rightarrow> addr \<Rightarrow> byte \<Rightarrow> nat \<Rightarrow> addr + addr \<times> nat" where
  "memchr_align m src d len =
     (if UNALIGNED src then
        if len = 0 then Inl 0
        else if m src = d then Inl src
        else memchr_align m (src + 1) d (len - 1)
      else Inr (src, len))"
  by pat_completeness auto
termination
  by (relation "measure (\<lambda>(m, src, d, len). len)") auto

fun memchr_words :: "mem \<Rightarrow> addr \<Rightarrow> 64 word \<Rightarrow> nat \<Rightarrow> addr \<times> nat" where
  "memchr_words m asrc msk len =
     (if len \<ge> 8 then
        if DETECTCHAR (load64 m asrc) msk \<noteq> 0 then (asrc, len)
        else memchr_words m (asrc + 8) msk (len - 8)
      else (asrc, len))"

fun memchr_bytes :: "mem \<Rightarrow> addr \<Rightarrow> byte \<Rightarrow> nat \<Rightarrow> addr" where
  "memchr_bytes m src d 0 = 0"
| "memchr_bytes m src d (Suc len) =
     (if m src = d then src else memchr_bytes m (src + 1) d len)"

definition memchr :: "mem \<Rightarrow> addr \<Rightarrow> byte \<Rightarrow> nat \<Rightarrow> addr" where
  "memchr m src d len =
     (case memchr_align m src d len of
        Inl r \<Rightarrow> r
      | Inr (src, len) \<Rightarrow>
          (let (src, len) =
             (if \<not> TOO_SMALL len then memchr_words m src (fill_mask d) len
              else (src, len))
           in memchr_bytes m src d len))"

text \<open>
  \<open>memrchr\<close> walks down from the last byte.  A pointer that has walked below the
  block is one less than its first byte; the model keeps \<open>e\<close>, the pointer plus
  one, so that it stays a natural number: C's \<open>src\<close> is \<open>e - 1\<close>.
\<close>

function memrchr_align :: "mem \<Rightarrow> addr \<Rightarrow> byte \<Rightarrow> nat \<Rightarrow> addr + addr \<times> nat" where
  "memrchr_align m e d len =
     (if (e + 7) mod 8 \<noteq> 0 then
        if len = 0 then Inl 0
        else if m (e - 1) = d then Inl (e - 1)
        else memrchr_align m (e - 1) d (len - 1)
      else Inr (e, len))"
  by pat_completeness auto
termination
  by (relation "measure (\<lambda>(m, src, d, len). len)") auto

fun memrchr_words :: "mem \<Rightarrow> addr \<Rightarrow> 64 word \<Rightarrow> nat \<Rightarrow> addr \<times> nat" where
  "memrchr_words m e msk len =
     (if len \<ge> 8 then
        if DETECTCHAR (load64 m (e - 8)) msk \<noteq> 0 then (e, len)
        else memrchr_words m (e - 8) msk (len - 8)
      else (e, len))"

fun memrchr_bytes :: "mem \<Rightarrow> addr \<Rightarrow> byte \<Rightarrow> nat \<Rightarrow> addr" where
  "memrchr_bytes m e d 0 = 0"
| "memrchr_bytes m e d (Suc len) =
     (if m (e - 1) = d then e - 1 else memrchr_bytes m (e - 1) d len)"

definition memrchr :: "mem \<Rightarrow> addr \<Rightarrow> byte \<Rightarrow> nat \<Rightarrow> addr" where
  "memrchr m src d len =
     (case memrchr_align m (src + len) d len of
        Inl r \<Rightarrow> r
      | Inr (e, len) \<Rightarrow>
          (let (e, len) =
             (if \<not> TOO_SMALL len then memrchr_words m e (fill_mask d) len
              else (e, len))
           in memrchr_bytes m e d len))"

section \<open>Specification\<close>

text \<open>
  \<open>first_at stop m p q\<close>: the first byte from \<open>p\<close> on that satisfies \<open>stop\<close> is at \<open>q\<close>;
  \<open>ones n\<close> is the number with \<open>n\<close> bytes 1, the constant of \<open>DETECTNULL\<close>.
\<close>

definition first_at :: "(byte \<Rightarrow> bool) \<Rightarrow> mem \<Rightarrow> addr \<Rightarrow> addr \<Rightarrow> bool" where
  "first_at stop m p q \<longleftrightarrow> p \<le> q \<and> stop (m q) \<and> (\<forall>r. p \<le> r \<and> r < q \<longrightarrow> \<not> stop (m r))"

primrec ones :: "nat \<Rightarrow> int" where
  "ones 0 = 0"
| "ones (Suc n) = 1 + 256 * ones n"

declare align_scan.simps [simp del] memchr_align.simps [simp del] memrchr_align.simps [simp del]
  memchr_words.simps [simp del] memrchr_words.simps [simp del]

section \<open>The bit trick finds a zero byte\<close>

lemma detect_int:
  "(\<exists>k<length bs. bit (int (le_val bs) - ones (length bs)) (8 * k + 7)
      \<and> \<not> bit (int (le_val bs)) (8 * k + 7)) \<longleftrightarrow> 0 \<in> set bs"
proof (induction bs)
  case Nil
  then show ?case by simp
next
  case (Cons b bs)
  let ?v = "int (le_val bs)" and ?o = "ones (length bs)"
  have b: "0 \<le> int (unat b)" "int (unat b) < 256" using unat_byte_less [of b] by linarith+
  have split: "(\<exists>k<Suc n. P k) \<longleftrightarrow> P 0 \<or> (\<exists>k<n. P (Suc k))" for n and P :: "nat \<Rightarrow> bool"
    using less_Suc_eq_0_disj by auto
  have hi: "bit (int (unat b) + 256 * ?v) (8 * Suc k + 7) = bit ?v (8 * k + 7)" for k
    using b by (simp add: bit_byte_cat_int add.commute)
  have lo: "bit (int (unat b) + 256 * ?v) 7 \<longleftrightarrow> 128 \<le> int (unat b)"
    using b bit7_int [of "int (unat b)"] by (simp add: bit_byte_cat_int)
  show ?case
  proof (cases "b = 0")
    case True
    have e: "int (unat b) + 256 * ?v - (1 + 256 * ?o) = 255 + 256 * (?v - ?o - 1)"
      using True by simp
    have "bit (int (unat b) + 256 * ?v - (1 + 256 * ?o)) 7"
      unfolding e using bit_byte_cat_int [of 255 "?v - ?o - 1" 7] bit7_int [of 255] by simp
    moreover have "\<not> bit (int (unat b) + 256 * ?v) 7" using lo True by simp
    ultimately show ?thesis using True by (auto simp: split)
  next
    case False
    then have "unat b \<noteq> 0" by (simp add: unat_eq_0)
    then have c: "0 \<le> int (unat b) - 1" "int (unat b) - 1 < 256" using b by linarith+
    have e: "int (unat b) + 256 * ?v - (1 + 256 * ?o) = (int (unat b) - 1) + 256 * (?v - ?o)"
      by simp
    have hi': "bit (int (unat b) + 256 * ?v - (1 + 256 * ?o)) (8 * Suc k + 7)
        = bit (?v - ?o) (8 * k + 7)" for k
      using c unfolding e by (simp only: bit_byte_cat_int) (simp add: add.commute)
    have lo': "bit (int (unat b) + 256 * ?v - (1 + 256 * ?o)) 7 \<longleftrightarrow> 128 \<le> int (unat b) - 1"
      using c unfolding e by (simp only: bit_byte_cat_int bit7_int) simp
    have "(\<exists>k<length (b # bs). bit (int (le_val (b # bs)) - ones (length (b # bs))) (8 * k + 7)
      \<and> \<not> bit (int (le_val (b # bs))) (8 * k + 7)) \<longleftrightarrow>
      (\<exists>k<length bs. bit (?v - ?o) (8 * k + 7) \<and> \<not> bit ?v (8 * k + 7))"
      using lo lo' hi hi' by (auto simp: split)
    with False Cons.IH show ?thesis by auto
  qed
qed

lemma ones_8: "ones 8 = 0x0101010101010101"
  by (simp add: numeral_eq_Suc)

lemma high_bits: "(0x8080808080808080 :: 64 word) = word_of_nat (le_val (replicate 8 0x80))"
  by (simp add: replicate_8)

lemma bit_0x80: "bit (0x80 :: byte) j \<longleftrightarrow> j = 7"
proof -
  have "(0x80 :: byte) = push_bit 7 1" by simp
  then show ?thesis by (simp only: bit_push_bit_iff bit_1_iff) auto
qed

lemma bit_high_bits: "bit (0x8080808080808080 :: 64 word) n \<longleftrightarrow> (\<exists>k<8. n = 8 * k + 7)"
proof -
  have "bit (0x8080808080808080 :: 64 word) n \<longleftrightarrow>
      n < 64 \<and> bit (replicate 8 (0x80 :: byte) ! (n div 8)) (n mod 8)"
    unfolding high_bits by (rule bit_word_le_val) simp
  also have "\<dots> \<longleftrightarrow> n < 64 \<and> n mod 8 = 7"
  proof (cases "n < 64")
    case True
    then have "replicate 8 (0x80 :: byte) ! (n div 8) = 0x80" by (simp add: div_less_iff_less_mult)
    then show ?thesis by (simp only: bit_0x80)
  qed simp
  also have "\<dots> \<longleftrightarrow> (\<exists>k<8. n = 8 * k + 7)" by presburger
  finally show ?thesis .
qed

lemma DETECTNULL_bit:
  "bit (DETECTNULL x) n \<longleftrightarrow>
     (\<exists>k<8. n = 8 * k + 7 \<and> bit (x - 0x0101010101010101) n \<and> \<not> bit x n)"
  unfolding DETECTNULL_def bit_and_iff bit_not_iff bit_high_bits
  by (auto dest: bit_imp_le_length)

lemma DETECTNULL_le_val:
  assumes "length bs = 8"
  shows "DETECTNULL (word_of_nat (le_val bs)) \<noteq> 0 \<longleftrightarrow> 0 \<in> set bs"
proof -
  let ?x = "word_of_nat (le_val bs) :: 64 word"
  have x: "?x = word_of_int (int (le_val bs))" by simp
  have d: "?x - 0x0101010101010101 = word_of_int (int (le_val bs) - ones (length bs))"
    by (simp add: assms ones_8)
  have "DETECTNULL ?x \<noteq> 0 \<longleftrightarrow> (\<exists>n. bit (DETECTNULL ?x) n)"
    by (metis bit_0_eq bot_apply bot_bool_def bit_eqI)
  also have "\<dots> \<longleftrightarrow> (\<exists>k<8. bit (?x - 0x0101010101010101) (8 * k + 7) \<and> \<not> bit ?x (8 * k + 7))"
    by (auto simp: DETECTNULL_bit)
  also have "\<dots> \<longleftrightarrow> (\<exists>k<length bs. bit (int (le_val bs) - ones (length bs)) (8 * k + 7)
      \<and> \<not> bit (int (le_val bs)) (8 * k + 7))"
    unfolding d unfolding x bit_word_of_int_iff by (auto simp: assms)
  also have "\<dots> \<longleftrightarrow> 0 \<in> set bs" by (rule detect_int)
  finally show ?thesis .
qed

lemma DETECTNULL_load64: "DETECTNULL (load64 m p) \<noteq> 0 \<longleftrightarrow> (\<exists>i<8. m (p + i) = 0)"
  using set_bytes_of [of m p 8 "\<lambda>b. b = 0"]
  by (simp add: load64_def DETECTNULL_le_val)

lemma bit_double_mask:
  fixes w :: "64 word"
  assumes "\<And>n. bit w n \<longleftrightarrow> n < 8 * k \<and> bit (d :: byte) (n mod 8)" and "16 * k \<le> 64"
  shows "bit (push_bit (8 * k) w OR w) n \<longleftrightarrow> n < 16 * k \<and> bit d (n mod 8)"
proof (cases "8 * k \<le> n")
  case True
  then obtain j where "n = 8 * k + j" using le_Suc_ex by blast
  then show ?thesis using assms(2) by (auto simp: bit_or_iff bit_push_bit_iff assms(1))
next
  case False
  then show ?thesis using assms(2) by (auto simp: bit_or_iff bit_push_bit_iff assms(1))
qed

lemma bit_fill_mask: "bit (fill_mask d) n \<longleftrightarrow> n < 64 \<and> bit d (n mod 8)"
proof -
  let ?m0 = "ucast d :: 64 word"
  let ?m1 = "push_bit 8 ?m0 OR ?m0"
  let ?m2 = "push_bit 16 ?m1 OR ?m1"
  have 0: "bit ?m0 n \<longleftrightarrow> n < 8 * 1 \<and> bit d (n mod 8)" for n
    by (cases "n < 8") (auto simp: bit_unsigned_iff dest: bit_imp_le_length)
  have 1: "bit ?m1 n \<longleftrightarrow> n < 8 * 2 \<and> bit d (n mod 8)" for n
    using bit_double_mask [OF 0, of n] by simp
  have 2: "bit ?m2 n \<longleftrightarrow> n < 8 * 4 \<and> bit d (n mod 8)" for n
    using bit_double_mask [OF 1, of n] by simp
  show ?thesis
    using bit_double_mask [OF 2, of n] by (simp add: fill_mask_def Let_def)
qed

lemma fill_mask_eq: "fill_mask d = word_of_nat (le_val (replicate 8 d))"
  by (rule bit_eqI) (auto simp: bit_fill_mask bit_word_le_val)

lemma strchr_mask_eq: "strchr_mask d = fill_mask d"
  by (simp add: strchr_mask_def fill_mask_def Let_def)

lemma DETECTCHAR_load64: "DETECTCHAR (load64 m p) (fill_mask d) \<noteq> 0 \<longleftrightarrow> (\<exists>i<8. m (p + i) = d)"
proof -
  let ?bs = "bytes_of m p 8"
  have "load64 m p XOR fill_mask d = word_of_nat (le_val ?bs XOR le_val (replicate 8 d))"
    by (simp add: load64_def fill_mask_eq of_nat_xor_eq)
  also have "le_val ?bs XOR le_val (replicate 8 d) = le_val (map2 (XOR) ?bs (replicate 8 d))"
    by (rule le_val_xor) simp
  finally have "DETECTCHAR (load64 m p) (fill_mask d) \<noteq> 0 \<longleftrightarrow> 0 \<in> set (map2 (XOR) ?bs (replicate 8 d))"
    by (simp add: DETECTCHAR_def DETECTNULL_le_val)
  also have "\<dots> \<longleftrightarrow> (\<exists>i<8. m (p + i) XOR d = 0)"
    unfolding in_set_conv_nth by (simp cong: conj_cong)
  finally show ?thesis by (simp add: xor_byte_eq_0)
qed

section \<open>Searching word by word\<close>

lemma first_at_next: "first_at stop m p q \<Longrightarrow> \<not> stop (m p) \<Longrightarrow> first_at stop m (Suc p) q"
  by (auto simp: first_at_def Suc_le_eq)

lemma scan_bytes_first: "first_at stop m p q \<Longrightarrow> scan_bytes stop m p = Some q"
proof (induction "q - p" arbitrary: p)
  case 0
  then have "p = q" "stop (m q)" by (auto simp: first_at_def)
  then show ?case by (simp add: scan_bytes.simps [of stop m q])
next
  case (Suc k)
  then have "\<not> stop (m p)" by (auto simp: first_at_def)
  with Suc show ?case
    by (auto simp: scan_bytes.simps [of stop m p] dest: first_at_next)
qed

lemma align_scan_first:
  "first_at stop m p q \<Longrightarrow>
     align_scan stop m p = Inl q \<or>
     (\<exists>r. align_scan stop m p = Inr r \<and> first_at stop m r q)"
proof (induction stop m p rule: align_scan.induct)
  case (1 stop m p)
  show ?case
  proof (cases "UNALIGNED p \<and> \<not> stop (m p)")
    case True
    with "1.prems" have "first_at stop m (p + 1) q" by (auto dest: first_at_next)
    with True "1.IH" show ?thesis by (simp add: align_scan.simps [of stop m p])
  next
    case False
    then show ?thesis using "1.prems"
      by (auto simp: align_scan.simps [of stop m p] first_at_def le_less)
  qed
qed

locale word_detector =
  fixes det :: "64 word \<Rightarrow> bool" and stop :: "byte \<Rightarrow> bool"
  assumes det_load64: "det (load64 m p) \<longleftrightarrow> (\<exists>i<8. stop (m (p + i)))"
begin

lemma scan_words_first:
  "first_at stop m p q \<Longrightarrow> \<exists>r. scan_words det m p = Some r \<and> first_at stop m r q"
proof (induction "q - p" arbitrary: p rule: less_induct)
  case less
  show ?case
  proof (cases "det (load64 m p)")
    case True
    then show ?thesis using less.prems by (auto simp: scan_words.simps [of det m p])
  next
    case False
    then have none: "\<And>i. i < 8 \<Longrightarrow> \<not> stop (m (p + i))" by (simp add: det_load64)
    have "p + 8 \<le> q"
    proof (rule ccontr)
      assume "\<not> p + 8 \<le> q"
      with less.prems have "q - p < 8" "stop (m (p + (q - p)))" by (auto simp: first_at_def)
      with none show False by blast
    qed
    with less.prems have "first_at stop m (p + 8) q" by (auto simp: first_at_def)
    moreover have "q - (p + 8) < q - p" using \<open>p + 8 \<le> q\<close> by simp
    ultimately show ?thesis
      using less.hyps [of "p + 8"] False by (simp add: scan_words.simps [of det m p])
  qed
qed

lemma search_first:
  assumes "first_at stop m p q"
  shows "(case align_scan stop m p of
            Inl s \<Rightarrow> Some (f s)
          | Inr s \<Rightarrow> (case scan_words det m s of
                None \<Rightarrow> None
              | Some s \<Rightarrow> map_option f (scan_bytes stop m s))) = Some (f q)"
  using align_scan_first [OF assms]
proof
  assume "align_scan stop m p = Inl q"
  then show ?thesis by simp
next
  assume "\<exists>r. align_scan stop m p = Inr r \<and> first_at stop m r q"
  then obtain r where r: "align_scan stop m p = Inr r" "first_at stop m r q" by blast
  then obtain t where "scan_words det m r = Some t" "first_at stop m t q"
    using scan_words_first by blast
  with r show ?thesis by (simp add: scan_bytes_first)
qed

lemma search_first_id:
  assumes "first_at stop m p q"
  shows "(case align_scan stop m p of
            Inl s \<Rightarrow> Some s
          | Inr s \<Rightarrow> (case scan_words det m s of
                None \<Rightarrow> None
              | Some s \<Rightarrow> scan_bytes stop m s)) = Some q"
  using search_first [OF assms, of id]
  by (auto simp: option.map_id split: sum.splits option.splits)

end

interpretation null_det: word_detector "\<lambda>x. DETECTNULL x \<noteq> 0" "\<lambda>b. b = 0"
  by unfold_locales (rule DETECTNULL_load64)

interpretation char_det: word_detector "\<lambda>x. DETECTCHAR x (fill_mask d) \<noteq> 0" "\<lambda>b. b = d" for d
  by unfold_locales (rule DETECTCHAR_load64)

interpretation null_or_char_det:
  word_detector "\<lambda>x. DETECTNULL x \<noteq> 0 \<or> DETECTCHAR x (strchr_mask d) \<noteq> 0" "\<lambda>b. b = 0 \<or> b = d" for d
  by unfold_locales (simp only: strchr_mask_eq DETECTNULL_load64 DETECTCHAR_load64, blast)

lemma first_at_cstr: "cstr m p xs \<Longrightarrow> first_at (\<lambda>b. b = 0) m p (p + length xs)"
  unfolding first_at_def using cstr_nonzero [of m p xs] cstr_end [of m p xs]
  by (auto simp: le_iff_add)

lemma strlen_cstr: "cstr m p xs \<Longrightarrow> strlen m p = Some (length xs)"
  using null_det.search_first [OF first_at_cstr, of m p xs "\<lambda>s. s - p"]
  by (simp add: strlen_def)

lemma first_at_cstr_char:
  assumes "cstr m p xs"
  shows "first_at (\<lambda>b. b = 0 \<or> b = c) m p (p + length (takeWhile (\<lambda>b. b \<noteq> c) xs))"
proof -
  let ?k = "length (takeWhile (\<lambda>b. b \<noteq> c) xs)"
  have k: "?k \<le> length xs" by (rule length_takeWhile_le)
  have "m (p + ?k) = 0 \<or> m (p + ?k) = c"
  proof (cases "?k < length xs")
    case True
    then show ?thesis
      using nth_length_takeWhile [of "\<lambda>b. b \<noteq> c" xs] assms by (simp add: cstr_iff_nth)
  next
    case False
    with k have "?k = length xs" by simp
    with cstr_end [OF assms] show ?thesis by simp
  qed
  moreover have "m (p + i) \<noteq> 0 \<and> m (p + i) \<noteq> c" if "i < ?k" for i
  proof -
    have "xs ! i \<in> set (takeWhile (\<lambda>b. b \<noteq> c) xs)"
      using that takeWhile_nth [OF that] nth_mem [OF that] by simp
    then have "xs ! i \<noteq> c" by (auto dest: set_takeWhileD)
    then show ?thesis using assms that k by (simp add: cstr_iff_nth)
  qed
  ultimately show ?thesis unfolding first_at_def
    by (metis add_less_cancel_left le_add1 le_add_diff_inverse)
qed

lemma takeWhile_at:
  "cstr m p xs \<Longrightarrow> c \<noteq> 0 \<Longrightarrow>
     m (p + length (takeWhile (\<lambda>b. b \<noteq> c) xs)) = c \<longleftrightarrow> c \<in> set xs"
proof (induction xs arbitrary: p)
  case (Cons x xs)
  then show ?case using Cons.IH [of "Suc p"] by auto
qed simp

lemma align_scan_stop: "align_scan stop m p = Inl s \<Longrightarrow> stop (m s)"
  by (induction stop m p rule: align_scan.induct)
    (auto simp: align_scan.simps split: if_splits)

lemma strchr_cstr:
  assumes "cstr m p xs"
  shows "strchr m p c =
     Some (if c = 0 \<or> c \<in> set xs then p + length (takeWhile (\<lambda>b. b \<noteq> c) xs) else 0)"
proof (cases "c = 0")
  case True
  have "takeWhile (\<lambda>b. b \<noteq> 0) xs = xs"
    using cstr_set [OF assms] by simp
  then show ?thesis using True null_det.search_first_id [OF first_at_cstr [OF assms]]
    by (simp only: strchr_def) simp
next
  case False
  let ?q = "p + length (takeWhile (\<lambda>b. b \<noteq> c) xs)"
  note search = null_or_char_det.search_first [where d = c,
      OF first_at_cstr_char [OF assms], of "\<lambda>s. if m s = c then s else 0"]
  have "strchr m p c = Some (if m ?q = c then ?q else 0)"
  proof (cases "align_scan (\<lambda>b. b = 0 \<or> b = c) m p")
    case (Inl s)
    then have "m s = 0 \<or> m s = c" by (rule align_scan_stop)
    then show ?thesis using search Inl False by (auto simp: strchr_def)
  next
    case (Inr s)
    show ?thesis using search
      by (simp only: strchr_def False if_False Inr sum.case Let_def)
  qed
  then show ?thesis using takeWhile_at [OF assms False] False by simp
qed

lemma strchrnul_cstr:
  assumes "cstr m p xs" and "0 < p"
  shows "strchrnul m p c = Some (p + length (takeWhile (\<lambda>b. b \<noteq> c) xs))"
  using assms by (auto simp: strchrnul_def strchr_cstr strlen_cstr)

lemma strnlen_loop_cstr: "cstr m p xs \<Longrightarrow> strnlen_loop m p n = p + min n (length xs)"
proof (induction n arbitrary: p xs)
  case (Suc n)
  then show ?case by (cases xs) auto
qed simp

lemma strnlen_cstr: "cstr m p xs \<Longrightarrow> strnlen m p n = min n (length xs)"
  by (simp add: strnlen_def strnlen_loop_cstr)

lemma rawmemchr_first: "first_at (\<lambda>b. b = d) m p q \<Longrightarrow> rawmemchr m p d = Some q"
  by (simp add: rawmemchr_def char_det.search_first_id)

lemma strrchr_loop_cstr:
  assumes "cstr m p xs" and "0 < p" and "c \<noteq> 0"
  shows "strrchr_loop m p c lst = Some (if c \<in> set xs then p + last_index c xs else lst)"
  using assms(1,2)
proof (induction "length xs" arbitrary: p xs lst rule: less_induct)
  case less
  note sc = strchr_cstr [OF less.prems(1), of c]
  show ?case
  proof (cases "c \<in> set xs")
    case False
    with sc assms(3) show ?thesis by (simp add: strrchr_loop.simps [of m p c lst])
  next
    case True
    then obtain ys zs where xs: "xs = ys @ c # zs" "c \<notin> set ys" by (auto dest: split_list_first)
    then have "takeWhile (\<lambda>b. b \<noteq> c) xs = ys" by simp
    with sc True have 1: "strchr m p c = Some (p + length ys)" by simp
    have 2: "cstr m (p + length ys + 1) zs"
      using cstr_drop [OF less.prems(1), of "length ys + 1"] xs by simp
    have "strrchr_loop m (p + length ys + 1) c (p + length ys) =
        Some (if c \<in> set zs then (p + length ys + 1) + last_index c zs else p + length ys)"
      by (rule less.hyps [OF _ 2]) (auto simp: xs)
    then show ?thesis using less.prems(2) True
      by (simp add: strrchr_loop.simps [of m p c lst] 1 xs last_index_append)
  qed
qed

lemma strrchr_cstr:
  assumes "cstr m p xs" and "0 < p"
  shows "strrchr m p c =
     Some (if c = 0 then p + length xs else if c \<in> set xs then p + last_index c xs else 0)"
  using assms strchr_cstr [OF assms(1), of 0] cstr_set [OF assms(1)]
  by (auto simp: strrchr_def strrchr_loop_cstr)

subsection \<open>Bounded searches\<close>

lemma memchr_bytes_skip:
  "k \<le> n \<Longrightarrow> (\<And>i. i < k \<Longrightarrow> m (p + i) \<noteq> d) \<Longrightarrow> memchr_bytes m p d n = memchr_bytes m (p + k) d (n - k)"
proof (induction k arbitrary: p n)
  case (Suc k)
  then obtain n' where n': "n = Suc n'" by (cases n) auto
  have "m p \<noteq> d" using Suc.prems(2) [of 0] by simp
  moreover have "memchr_bytes m (Suc p) d n' = memchr_bytes m (Suc p + k) d (n' - k)"
    using Suc.prems(2) [of "Suc _"] by (intro Suc.IH) (use Suc.prems(1) n' in auto)
  ultimately show ?case by (simp add: n')
qed simp

lemma memchr_words_bytes:
  "memchr_words m p (fill_mask d) n = (p', n') \<Longrightarrow> memchr_bytes m p' d n' = memchr_bytes m p d n"
proof (induction m p "fill_mask d" n rule: memchr_words.induct)
  case (1 m p n)
  show ?case
  proof (cases "8 \<le> n \<and> DETECTCHAR (load64 m p) (fill_mask d) = 0")
    case True
    then have "memchr_bytes m p d n = memchr_bytes m (p + 8) d (n - 8)"
      using DETECTCHAR_load64 [of m p d] by (intro memchr_bytes_skip) auto
    with True 1 show ?thesis by (simp add: memchr_words.simps [of m p])
  next
    case False
    with 1 show ?thesis by (auto simp: memchr_words.simps [of m p] split: if_splits)
  qed
qed

lemma memchr_align_bytes:
  "(case memchr_align m p d n of Inl r \<Rightarrow> r | Inr (p', n') \<Rightarrow> memchr_bytes m p' d n') = memchr_bytes m p d n"
proof (induction m p d n rule: memchr_align.induct)
  case (1 m p d n)
  then show ?case by (cases n) (auto simp: memchr_align.simps [of m p d])
qed

lemma memchr_eq_bytes: "memchr m p d n = memchr_bytes m p d n"
proof -
  have "memchr m p d n = (case memchr_align m p d n of Inl r \<Rightarrow> r | Inr (p', n') \<Rightarrow> memchr_bytes m p' d n')"
    by (auto simp: memchr_def memchr_words_bytes split: sum.splits prod.splits if_splits)
  then show ?thesis by (simp add: memchr_align_bytes)
qed

lemma memchr_find:
  "memchr m p d n =
     (if d \<in> set (bytes_of m p n) then p + length (takeWhile (\<lambda>b. b \<noteq> d) (bytes_of m p n)) else 0)"
proof -
  have "memchr_bytes m p d n =
     (if d \<in> set (bytes_of m p n) then p + length (takeWhile (\<lambda>b. b \<noteq> d) (bytes_of m p n)) else 0)"
    by (induction n arbitrary: p) (auto simp: bytes_of_Suc)
  then show ?thesis by (simp add: memchr_eq_bytes)
qed

lemma memrchr_bytes_skip:
  "k \<le> n \<Longrightarrow> n \<le> e \<Longrightarrow> (\<And>i. i < k \<Longrightarrow> m (e - k + i) \<noteq> d) \<Longrightarrow>
     memrchr_bytes m e d n = memrchr_bytes m (e - k) d (n - k)"
proof (induction k arbitrary: e n)
  case (Suc k)
  then obtain n' where n': "n = Suc n'" by (cases n) auto
  have "m (e - 1) \<noteq> d" using Suc.prems(3) [of k] Suc.prems(1,2) by simp
  moreover have "memrchr_bytes m (e - 1) d n' = memrchr_bytes m (e - 1 - k) d (n' - k)"
    by (rule Suc.IH) (use Suc.prems n' in auto)
  ultimately show ?case by (simp add: n')
qed simp

lemma memrchr_words_bytes:
  "memrchr_words m e (fill_mask d) n = (e', n') \<Longrightarrow> n \<le> e \<Longrightarrow>
     memrchr_bytes m e' d n' = memrchr_bytes m e d n"
proof (induction m e "fill_mask d" n rule: memrchr_words.induct)
  case (1 m e n)
  show ?case
  proof (cases "8 \<le> n \<and> DETECTCHAR (load64 m (e - 8)) (fill_mask d) = 0")
    case True
    then have "memrchr_bytes m e d n = memrchr_bytes m (e - 8) d (n - 8)"
      using DETECTCHAR_load64 [of m "e - 8" d] "1.prems" by (intro memrchr_bytes_skip) auto
    with True 1 show ?thesis by (simp add: memrchr_words.simps [of m e])
  next
    case False
    with 1 show ?thesis by (auto simp: memrchr_words.simps [of m e] split: if_splits)
  qed
qed

lemma memrchr_align_bytes:
  "n \<le> e \<Longrightarrow> (case memrchr_align m e d n of
     Inl r \<Rightarrow> r = memrchr_bytes m e d n
   | Inr (e', n') \<Rightarrow> n' \<le> e' \<and> memrchr_bytes m e' d n' = memrchr_bytes m e d n)"
proof (induction m e d n rule: memrchr_align.induct)
  case (1 m e d n)
  then show ?case
    by (cases n) (auto simp: memrchr_align.simps [of m e d] split: sum.splits)
qed

lemma memrchr_eq_bytes: "memrchr m p d n = memrchr_bytes m (p + n) d n"
  using memrchr_align_bytes [of n "p + n" m d]
  by (auto simp: memrchr_def memrchr_words_bytes split: sum.splits prod.splits if_splits)

lemma memrchr_find:
  "memrchr m p d n =
     (if d \<in> set (bytes_of m p n) then p + last_index d (bytes_of m p n) else 0)"
proof -
  have "memrchr_bytes m (p + n) d n =
     (if d \<in> set (bytes_of m p n) then p + last_index d (bytes_of m p n) else 0)"
    by (induction n) (auto simp: bytes_of_snoc last_index_snoc)
  then show ?thesis by (simp add: memrchr_eq_bytes)
qed

section \<open>Properties\<close>

text \<open>
  C20: \<open>strlen\<close> returns on every NUL-terminated string, at every alignment, and
  returns its length: the word-at-a-time scan with \<open>DETECTNULL\<close> stops in the
  right word and the byte scan after it at the right byte.
\<close>

theorem strlen_correct:
  assumes "cstr m p xs"
  shows "strlen m p = Some (length xs)"
  using assms by (rule strlen_cstr)

theorem strlen_correct_witness:
  "strlen (text_mem 3 [104, 101, 108, 108, 111, 32, 119, 111, 114, 108, 100]) 3 = Some 11"
  using strlen_correct [of "text_mem 3 [104, 101, 108, 108, 111, 32, 119, 111, 114, 108, 100]" 3
      "[104, 101, 108, 108, 111, 32, 119, 111, 114, 108, 100]"]
  by (simp add: text_mem_def)

text \<open>
  \<open>strchr\<close> returns the address of the first occurrence of the character, of
  the terminator when the character is NUL, and NULL when there is none;
  \<open>strrchr\<close> returns the last occurrence in the same way.
\<close>

theorem strchr_strrchr_correct:
  assumes "cstr m p xs" and "0 < p"
  shows "strchr m p c =
      Some (if c = 0 \<or> c \<in> set xs then p + length (takeWhile (\<lambda>b. b \<noteq> c) xs) else 0) \<and>
    strrchr m p c =
      Some (if c = 0 then p + length xs else if c \<in> set xs then p + last_index c xs else 0)"
  using strchr_cstr [OF assms(1)] strrchr_cstr [OF assms] by blast

theorem strchr_strrchr_correct_witness:
  "strchr (text_mem 5 [1, 2, 3, 2, 1]) 5 2 = Some 6 \<and> strrchr (text_mem 5 [1, 2, 3, 2, 1]) 5 2 = Some 8"
  using strchr_strrchr_correct [of "text_mem 5 [1, 2, 3, 2, 1]" 5 "[1, 2, 3, 2, 1]" 2]
  by (simp add: text_mem_def last_index_def)

text \<open>
  \<open>memchr\<close> and \<open>memrchr\<close> return the first and the last occurrence of a byte
  among \<open>n\<close> bytes of memory, whatever the memory holds and however the block
  is aligned, and NULL when the byte does not occur.
\<close>

theorem memchr_memrchr_correct:
  "memchr m p d n =
     (if d \<in> set (bytes_of m p n) then p + length (takeWhile (\<lambda>b. b \<noteq> d) (bytes_of m p n)) else 0) \<and>
   memrchr m p d n =
     (if d \<in> set (bytes_of m p n) then p + last_index d (bytes_of m p n) else 0)"
  using memchr_find memrchr_find by blast

end
