(* ===== verification/Newlib_Memcopy.thy ===== *)
theory Newlib_Memcopy
  imports Newlib_Memsearch
begin

text \<open>
  The copying and filling functions of \<open>libc/string\<close>: \<open>memcpy\<close>, \<open>mempcpy\<close>,
  \<open>memmove\<close>, \<open>memset\<close>, \<open>memccpy\<close>, \<open>strcpy\<close>, \<open>stpcpy\<close>, \<open>strncpy\<close>, \<open>stpncpy\<close>,
  \<open>strcat\<close>, \<open>strncat\<close>, \<open>strlcpy\<close>, \<open>strlcat\<close>, \<open>swab\<close> and the BSD names for
  them.  Each definition takes the memory and gives back the new memory and the
  value of the C function; the loops hand on the memory, the moving pointers
  and the count, as the C variables do.
\<close>

unbundle bit_operations_syntax

section \<open>Block copies\<close>

definition UNALIGNED2 :: "addr \<Rightarrow> addr \<Rightarrow> bool" where
  "UNALIGNED2 x y \<longleftrightarrow> x mod 8 \<noteq> 0 \<or> y mod 8 \<noteq> 0"

fun copy_bytes :: "mem \<Rightarrow> addr \<Rightarrow> addr \<Rightarrow> nat \<Rightarrow> mem \<times> addr" where
  "copy_bytes m dst src 0 = (m, dst)"
| "copy_bytes m dst src (Suc len0) = copy_bytes (m(dst := m src)) (dst + 1) (src + 1) len0"

fun copy_big :: "mem \<Rightarrow> addr \<Rightarrow> addr \<Rightarrow> nat \<Rightarrow> mem \<times> addr \<times> addr \<times> nat" where
  "copy_big m adst asrc len0 =
     (if len0 \<ge> 32 then
        (let m = store64 m adst (load64 m asrc);
             m = store64 m (adst + 8) (load64 m (asrc + 8));
             m = store64 m (adst + 16) (load64 m (asrc + 16));
             m = store64 m (adst + 24) (load64 m (asrc + 24))
         in copy_big m (adst + 32) (asrc + 32) (len0 - 32))
      else (m, adst, asrc, len0))"

fun copy_little :: "mem \<Rightarrow> addr \<Rightarrow> addr \<Rightarrow> nat \<Rightarrow> mem \<times> addr \<times> addr \<times> nat" where
  "copy_little m adst asrc len0 =
     (if len0 \<ge> 8 then
        copy_little (store64 m adst (load64 m asrc)) (adst + 8) (asrc + 8) (len0 - 8)
      else (m, adst, asrc, len0))"

definition copy_forward :: "mem \<Rightarrow> addr \<Rightarrow> addr \<Rightarrow> nat \<Rightarrow> mem \<times> addr" where
  "copy_forward m dst src len0 =
     (let (m, dst, src, len0) =
        (if \<not> len0 < 32 \<and> \<not> UNALIGNED2 src dst then
           (let (m, adst, asrc, len0) = copy_big m dst src len0
            in copy_little m adst asrc len0)
         else (m, dst, src, len0))
      in copy_bytes m dst src len0)"

definition memcpy :: "mem \<Rightarrow> addr \<Rightarrow> addr \<Rightarrow> nat \<Rightarrow> mem \<times> addr" where
  "memcpy m dst0 src0 len0 = (let (m, dst) = copy_forward m dst0 src0 len0 in (m, dst0))"

definition mempcpy :: "mem \<Rightarrow> addr \<Rightarrow> addr \<Rightarrow> nat \<Rightarrow> mem \<times> addr" where
  "mempcpy m dst0 src0 len0 = copy_forward m dst0 src0 len0"

fun copy_back :: "mem \<Rightarrow> addr \<Rightarrow> addr \<Rightarrow> nat \<Rightarrow> mem" where
  "copy_back m dst src 0 = m"
| "copy_back m dst src (Suc len0) = copy_back (m(dst - 1 := m (src - 1))) (dst - 1) (src - 1) len0"

definition memmove :: "mem \<Rightarrow> addr \<Rightarrow> addr \<Rightarrow> nat \<Rightarrow> mem \<times> addr" where
  "memmove m dst src len0 =
     (if src < dst \<and> dst < src + len0 then (copy_back m (dst + len0) (src + len0) len0, dst)
      else (let (m, _) = copy_forward m dst src len0 in (m, dst)))"

definition bcopy :: "mem \<Rightarrow> addr \<Rightarrow> addr \<Rightarrow> nat \<Rightarrow> mem" where
  "bcopy m b1 b2 len0 = fst (memmove m b2 b1 len0)"

section \<open>Filling\<close>

function memset_align :: "mem \<Rightarrow> addr \<Rightarrow> byte \<Rightarrow> nat \<Rightarrow> mem \<times> (addr \<times> nat) option" where
  "memset_align m s c n =
     (if UNALIGNED s then
        if n \<noteq> 0 then memset_align (m(s := c)) (s + 1) c (n - 1) else (m, None)
      else (m, Some (s, n)))"
  by pat_completeness auto
termination
  by (relation "measure (\<lambda>(m, s, c, n). n)") auto

fun memset_big :: "mem \<Rightarrow> addr \<Rightarrow> 64 word \<Rightarrow> nat \<Rightarrow> mem \<times> addr \<times> nat" where
  "memset_big m a buffer n =
     (if n \<ge> 32 then
        memset_big (store64 (store64 (store64 (store64 m a buffer) (a + 8) buffer)
          (a + 16) buffer) (a + 24) buffer) (a + 32) buffer (n - 32)
      else (m, a, n))"

fun memset_little :: "mem \<Rightarrow> addr \<Rightarrow> 64 word \<Rightarrow> nat \<Rightarrow> mem \<times> addr \<times> nat" where
  "memset_little m a buffer n =
     (if n \<ge> 8 then memset_little (store64 m a buffer) (a + 8) buffer (n - 8) else (m, a, n))"

fun memset_bytes :: "mem \<Rightarrow> addr \<Rightarrow> byte \<Rightarrow> nat \<Rightarrow> mem" where
  "memset_bytes m s c 0 = m"
| "memset_bytes m s c (Suc n) = memset_bytes (m(s := c)) (s + 1) c n"

definition memset :: "mem \<Rightarrow> addr \<Rightarrow> byte \<Rightarrow> nat \<Rightarrow> mem \<times> addr" where
  "memset m0 p c n =
     (case memset_align m0 p c n of
        (m, None) \<Rightarrow> (m, p)
      | (m, Some (s, n)) \<Rightarrow>
          (let (m, s, n) =
             (if \<not> TOO_SMALL n then
                (let (m, a, n) = memset_big m s (fill_mask c) n
                 in memset_little m a (fill_mask c) n)
              else (m, s, n))
           in (memset_bytes m s c n, p)))"

definition bzero :: "mem \<Rightarrow> addr \<Rightarrow> nat \<Rightarrow> mem" where
  "bzero m b len0 = fst (memset m b 0 len0)"

definition explicit_bzero :: "mem \<Rightarrow> addr \<Rightarrow> nat \<Rightarrow> mem" where
  "explicit_bzero m p n = bzero m p n"

section \<open>Copying up to a byte\<close>

definition memccpy_mask :: "byte \<Rightarrow> 64 word" where
  "memccpy_mask endchar = fold (\<lambda>i msk. push_bit 8 msk + ucast endchar) [0..<8] 0"

fun memccpy_words :: "mem \<Rightarrow> addr \<Rightarrow> addr \<Rightarrow> 64 word \<Rightarrow> nat \<Rightarrow> mem \<times> addr \<times> addr \<times> nat" where
  "memccpy_words m adst asrc msk len0 =
     (if len0 \<ge> 8 then
        if DETECTNULL (load64 m asrc XOR msk) \<noteq> 0 then (m, adst, asrc, len0)
        else memccpy_words (store64 m adst (load64 m asrc)) (adst + 8) (asrc + 8) msk (len0 - 8)
      else (m, adst, asrc, len0))"

fun memccpy_bytes :: "mem \<Rightarrow> addr \<Rightarrow> addr \<Rightarrow> byte \<Rightarrow> nat \<Rightarrow> mem \<times> addr" where
  "memccpy_bytes m dst src endchar 0 = (m, 0)"
| "memccpy_bytes m dst src endchar (Suc len0) =
     (let b = m src; m = m(dst := b) in
      if b = endchar then (m, dst + 1) else memccpy_bytes m (dst + 1) (src + 1) endchar len0)"

definition memccpy :: "mem \<Rightarrow> addr \<Rightarrow> addr \<Rightarrow> byte \<Rightarrow> nat \<Rightarrow> mem \<times> addr" where
  "memccpy m dst0 src0 endchar len0 =
     (let (m, dst, src, len0) =
        (if \<not> TOO_SMALL len0 \<and> \<not> UNALIGNED2 src0 dst0
         then memccpy_words m dst0 src0 (memccpy_mask endchar) len0
         else (m, dst0, src0, len0))
      in memccpy_bytes m dst src endchar len0)"

section \<open>Copying strings\<close>

partial_function (option) strcpy_words ::
  "mem \<Rightarrow> addr \<Rightarrow> addr \<Rightarrow> (mem \<times> addr \<times> addr) option" where
  "strcpy_words m adst asrc =
     (if DETECTNULL (load64 m asrc) = 0
      then strcpy_words (store64 m adst (load64 m asrc)) (adst + 8) (asrc + 8)
      else Some (m, adst, asrc))"

partial_function (option) strcpy_bytes :: "mem \<Rightarrow> addr \<Rightarrow> addr \<Rightarrow> (mem \<times> addr) option" where
  "strcpy_bytes m dst src =
     (if m src \<noteq> 0 then strcpy_bytes (m(dst := m src)) (dst + 1) (src + 1)
      else Some (m(dst := m src), dst + 1))"

definition stpcpy :: "mem \<Rightarrow> addr \<Rightarrow> addr \<Rightarrow> (mem \<times> addr) option" where
  "stpcpy m dst src =
     (case (if \<not> UNALIGNED2 src dst then strcpy_words m dst src else Some (m, dst, src)) of
        None \<Rightarrow> None
      | Some (m, dst, src) \<Rightarrow> map_option (\<lambda>(m, dst). (m, dst - 1)) (strcpy_bytes m dst src))"

definition strcpy :: "mem \<Rightarrow> addr \<Rightarrow> addr \<Rightarrow> (mem \<times> addr) option" where
  "strcpy m dst0 src0 =
     (case (if \<not> UNALIGNED2 src0 dst0 then strcpy_words m dst0 src0 else Some (m, dst0, src0)) of
        None \<Rightarrow> None
      | Some (m, dst, src) \<Rightarrow> map_option (\<lambda>(m, dst). (m, dst0)) (strcpy_bytes m dst src))"

fun strncpy_words :: "mem \<Rightarrow> addr \<Rightarrow> addr \<Rightarrow> nat \<Rightarrow> mem \<times> addr \<times> addr \<times> nat" where
  "strncpy_words m adst asrc count =
     (if count \<ge> 8 \<and> DETECTNULL (load64 m asrc) = 0
      then strncpy_words (store64 m adst (load64 m asrc)) (adst + 8) (asrc + 8) (count - 8)
      else (m, adst, asrc, count))"

text \<open>The bytewise loop of \<open>strncpy\<close> and \<open>stpncpy\<close>: the last component is the
  address of the NUL it copied, 0 if it copied none.\<close>

fun strncpy_bytes :: "mem \<Rightarrow> addr \<Rightarrow> addr \<Rightarrow> nat \<Rightarrow> mem \<times> addr \<times> nat \<times> addr" where
  "strncpy_bytes m dst src 0 = (m, dst, 0, 0)"
| "strncpy_bytes m dst src (Suc count) =
     (let b = m src; m = m(dst := b) in
      if b = 0 then (m, dst + 1, count, dst) else strncpy_bytes m (dst + 1) (src + 1) count)"

definition strncpy :: "mem \<Rightarrow> addr \<Rightarrow> addr \<Rightarrow> nat \<Rightarrow> mem \<times> addr" where
  "strncpy m dst0 src0 count =
     (let (m, dst, src, count) =
        (if \<not> UNALIGNED2 src0 dst0 \<and> \<not> TOO_SMALL count then strncpy_words m dst0 src0 count
         else (m, dst0, src0, count));
          (m, dst, count, _) = strncpy_bytes m dst src count
      in (memset_bytes m dst 0 count, dst0))"

definition stpncpy :: "mem \<Rightarrow> addr \<Rightarrow> addr \<Rightarrow> nat \<Rightarrow> mem \<times> addr" where
  "stpncpy m dst0 src0 count =
     (let (m, dst, src, count) =
        (if \<not> UNALIGNED2 src0 dst0 \<and> \<not> TOO_SMALL count then strncpy_words m dst0 src0 count
         else (m, dst0, src0, count));
          (m, dst, count, ret) = strncpy_bytes m dst src count
      in (memset_bytes m dst 0 count, if ret \<noteq> 0 then ret else dst + count))"

section \<open>Appending strings\<close>

text \<open>\<open>strcat\<close> and \<open>strncat\<close> first run to the end of the string.\<close>

definition str_end :: "mem \<Rightarrow> addr \<Rightarrow> addr option" where
  "str_end m s1 =
     (case (if \<not> UNALIGNED s1 then scan_words (\<lambda>x. DETECTNULL x \<noteq> 0) m s1 else Some s1) of
        None \<Rightarrow> None
      | Some s1 \<Rightarrow> scan_bytes (\<lambda>b. b = 0) m s1)"

definition strcat :: "mem \<Rightarrow> addr \<Rightarrow> addr \<Rightarrow> (mem \<times> addr) option" where
  "strcat m s1 s2 =
     (case str_end m s1 of
        None \<Rightarrow> None
      | Some e \<Rightarrow> map_option (\<lambda>(m, _). (m, s1)) (strcpy m e s2))"

fun strncat_loop :: "mem \<Rightarrow> addr \<Rightarrow> addr \<Rightarrow> nat \<Rightarrow> mem" where
  "strncat_loop m s1 s2 0 = m"
| "strncat_loop m s1 s2 (Suc n) =
     (let b = m s2; m = m(s1 := b) in
      if b = 0 then m
      else strncat_loop (if n = 0 then m(s1 + 1 := 0) else m) (s1 + 1) (s2 + 1) n)"

definition strncat :: "mem \<Rightarrow> addr \<Rightarrow> addr \<Rightarrow> nat \<Rightarrow> (mem \<times> addr) option" where
  "strncat m s1 s2 n =
     map_option (\<lambda>e. (strncat_loop m e s2 n, s1)) (str_end m s1)"

text \<open>
  \<open>strlcpy\<close>: the loop runs while \<open>--nleft\<close> is not 0, so it is entered with
  \<open>dsize - 1\<close>.
\<close>

fun strlcpy_loop :: "mem \<Rightarrow> addr \<Rightarrow> addr \<Rightarrow> nat \<Rightarrow> mem \<times> addr \<times> addr \<times> nat" where
  "strlcpy_loop m dst src 0 = (m, dst, src, 0)"
| "strlcpy_loop m dst src (Suc nleft) =
     (let b = m src; m = m(dst := b) in
      if b = 0 then (m, dst + 1, src + 1, Suc nleft)
      else strlcpy_loop m (dst + 1) (src + 1) nleft)"

definition strlcpy :: "mem \<Rightarrow> addr \<Rightarrow> addr \<Rightarrow> nat \<Rightarrow> (mem \<times> nat) option" where
  "strlcpy m dst osrc dsize =
     (let (m, dst, src, nleft) =
        (if dsize \<noteq> 0 then strlcpy_loop m dst osrc (dsize - 1) else (m, dst, osrc, 0))
      in if nleft = 0 then
           (let m = (if dsize \<noteq> 0 then m(dst := 0) else m)
            in map_option (\<lambda>src. (m, (src + 1) - osrc - 1)) (scan_bytes (\<lambda>b. b = 0) m src))
         else Some (m, src - osrc - 1))"

partial_function (option) strlcat_loop ::
  "mem \<Rightarrow> addr \<Rightarrow> addr \<Rightarrow> nat \<Rightarrow> (mem \<times> addr \<times> addr) option" where
  "strlcat_loop m dst src n =
     (if m src \<noteq> 0 then
        (if n \<noteq> 0 then strlcat_loop (m(dst := m src)) (dst + 1) (src + 1) (n - 1)
         else strlcat_loop m dst (src + 1) n)
      else Some (m, dst, src))"

definition strlcat :: "mem \<Rightarrow> addr \<Rightarrow> addr \<Rightarrow> nat \<Rightarrow> (mem \<times> nat) option" where
  "strlcat m odst osrc dsize =
     (let dst = strnlen_loop m odst dsize; dlen = dst - odst; n = dsize - dlen in
      if n = 0 then map_option (\<lambda>k. (m, dlen + k)) (strlen m osrc)
      else map_option (\<lambda>(m, dst, src). (m(dst := 0), dlen + (src - osrc)))
             (strlcat_loop m dst osrc (n - 1)))"

text \<open>\<open>swab\<close>: \<open>i\<close> is the C variable \<open>ptr\<close>, which runs over the odd numbers.\<close>

function swab_loop :: "mem \<Rightarrow> addr \<Rightarrow> addr \<Rightarrow> int \<Rightarrow> int \<Rightarrow> mem \<times> int" where
  "swab_loop m from to len0 i =
     (if i < len0 then
        (let p = m (from + nat i); q = m (from + nat (i - 1));
             m = m(to + nat (i - 1) := p);
             m = m(to + nat i := q)
         in swab_loop m from to len0 (i + 2))
      else (m, i))"
  by pat_completeness auto
termination
  by (relation "measure (\<lambda>(m, from, to, len0, i). nat (len0 - i))") auto

definition swab :: "mem \<Rightarrow> addr \<Rightarrow> addr \<Rightarrow> int \<Rightarrow> mem" where
  "swab m from to len0 =
     (let (m, i) = swab_loop m from to len0 1
      in if i = len0 then m(to + nat (i - 1) := 0) else m)"

declare copy_big.simps [simp del] copy_little.simps [simp del] memset_align.simps [simp del]
  memset_big.simps [simp del] memset_little.simps [simp del] memccpy_words.simps [simp del]
  strncpy_words.simps [simp del] swab_loop.simps [simp del]

section \<open>The ideal block copy\<close>

definition blk :: "mem \<Rightarrow> addr \<Rightarrow> addr \<Rightarrow> nat \<Rightarrow> mem" where
  "blk m d s n = wr m d (bytes_of m s n)"

definition fwd_safe :: "addr \<Rightarrow> addr \<Rightarrow> nat \<Rightarrow> bool" where
  "fwd_safe d s n \<longleftrightarrow> d \<le> s \<or> s + n \<le> d"

lemma blk_0 [simp]: "blk m d s 0 = m"
  by (simp add: blk_def)

lemma blk_apply: "blk m d s n q = (if d \<le> q \<and> q < d + n then m (s + (q - d)) else m q)"
  by (auto simp: blk_def wr_eq)

lemma blk_split:
  assumes "fwd_safe d s (k + n)"
  shows "blk (blk m d s k) (d + k) (s + k) n = blk m d s (k + n)"
proof
  fix q
  show "blk (blk m d s k) (d + k) (s + k) n q = blk m d s (k + n) q"
    using assms by (auto simp: blk_apply fwd_safe_def)
qed

lemma fwd_safe_step: "fwd_safe d s (k + n) \<Longrightarrow> fwd_safe (d + k) (s + k) n"
  by (auto simp: fwd_safe_def)

lemma fwd_safe_mono: "fwd_safe d s n \<Longrightarrow> k \<le> n \<Longrightarrow> fwd_safe d s k"
  by (auto simp: fwd_safe_def)

lemma store64_blk: "store64 m d (load64 m s) = blk m d s 8"
  by (simp add: store64_load64 blk_def)

lemma blk_step1: "m(d := m s) = blk m d s 1"
  by (simp add: blk_def bytes_of_Suc)

lemma copy_bytes_blk: "fwd_safe d s n \<Longrightarrow> copy_bytes m d s n = (blk m d s n, d + n)"
proof (induction n arbitrary: m d s)
  case (Suc n)
  have safe: "fwd_safe (d + 1) (s + 1) n" using fwd_safe_step [of d s 1 n] Suc.prems by simp
  have "blk (blk m d s 1) (d + 1) (s + 1) n = blk m d s (Suc n)"
    using blk_split [of d s 1 n m] Suc.prems by simp
  then show ?case using Suc.IH [OF safe] by (simp add: blk_step1 del: One_nat_def)
qed simp

lemma copy_little_blk:
  "fwd_safe d s n \<Longrightarrow> \<exists>k\<le>n. copy_little m d s n = (blk m d s k, d + k, s + k, n - k)"
proof (induction m d s n rule: copy_little.induct)
  case (1 m d s n)
  show ?case
  proof (cases "8 \<le> n")
    case False
    then show ?thesis by (intro exI [of _ 0]) (simp add: copy_little.simps [of m d])
  next
    case True
    then have n: "n = 8 + (n - 8)" by simp
    have safe: "fwd_safe (d + 8) (s + 8) (n - 8)" using fwd_safe_step [of d s 8 "n - 8"] "1.prems" n by simp
    obtain k where k: "k \<le> n - 8" and
      eq: "copy_little (blk m d s 8) (d + 8) (s + 8) (n - 8) =
         (blk (blk m d s 8) (d + 8) (s + 8) k, d + 8 + k, s + 8 + k, n - 8 - k)"
      using "1.IH" [OF True] safe by (auto simp: store64_blk)
    have "blk (blk m d s 8) (d + 8) (s + 8) k = blk m d s (8 + k)"
      by (rule blk_split) (use "1.prems" k True in \<open>auto simp: fwd_safe_def\<close>)
    then show ?thesis using True k eq
      by (intro exI [of _ "8 + k"]) (simp add: copy_little.simps [of m d] store64_blk)
  qed
qed

lemma store64_4:
  assumes "fwd_safe d s 32"
  shows "(let m = store64 m d (load64 m s);
             m = store64 m (d + 8) (load64 m (s + 8));
             m = store64 m (d + 16) (load64 m (s + 16));
             m = store64 m (d + 24) (load64 m (s + 24)) in m) = blk m d s 32"
proof -
  have a: "fwd_safe d s (8 + 8)" "fwd_safe d s (16 + 8)" "fwd_safe d s (24 + 8)"
    using assms by (auto simp: fwd_safe_def)
  have "blk (blk m d s 8) (d + 8) (s + 8) 8 = blk m d s 16"
    using blk_split [OF a(1), of m] by simp
  moreover have "blk (blk m d s 16) (d + 16) (s + 16) 8 = blk m d s 24"
    using blk_split [OF a(2), of m] by simp
  moreover have "blk (blk m d s 24) (d + 24) (s + 24) 8 = blk m d s 32"
    using blk_split [OF a(3), of m] by simp
  ultimately show ?thesis by (simp add: Let_def store64_blk)
qed

lemma copy_big_blk:
  "fwd_safe d s n \<Longrightarrow> \<exists>k\<le>n. copy_big m d s n = (blk m d s k, d + k, s + k, n - k)"
proof (induction n arbitrary: m d s rule: less_induct)
  case (less n)
  show ?case
  proof (cases "32 \<le> n")
    case False
    then show ?thesis by (intro exI [of _ 0]) (simp add: copy_big.simps [of m d])
  next
    case True
    then have n: "n = 32 + (n - 32)" by simp
    have safe: "fwd_safe (d + 32) (s + 32) (n - 32)"
      using fwd_safe_step [of d s 32 "n - 32"] less.prems n by simp
    have "fwd_safe d s 32" using less.prems True by (auto simp: fwd_safe_def)
    note b = store64_4 [OF this, of m]
    have step: "copy_big m d s n = copy_big (blk m d s 32) (d + 32) (s + 32) (n - 32)"
      using True b by (simp add: copy_big.simps [of m d] Let_def)
    obtain k where k: "k \<le> n - 32" and
      eq: "copy_big (blk m d s 32) (d + 32) (s + 32) (n - 32) =
         (blk (blk m d s 32) (d + 32) (s + 32) k, d + 32 + k, s + 32 + k, n - 32 - k)"
      using less.IH [OF _ safe] True by fastforce
    have "blk (blk m d s 32) (d + 32) (s + 32) k = blk m d s (32 + k)"
      by (rule blk_split) (use less.prems k True in \<open>auto simp: fwd_safe_def\<close>)
    then show ?thesis using True k eq step by (intro exI [of _ "32 + k"]) simp
  qed
qed

lemma copy_forward_blk:
  assumes "fwd_safe d s n"
  shows "copy_forward m d s n = (blk m d s n, d + n)"
proof -
  obtain k where k: "k \<le> n" "copy_big m d s n = (blk m d s k, d + k, s + k, n - k)"
    using copy_big_blk [OF assms] by blast
  have s1: "fwd_safe (d + k) (s + k) (n - k)" using fwd_safe_step [of d s k "n - k"] assms k by simp
  obtain j where j: "j \<le> n - k" "copy_little (blk m d s k) (d + k) (s + k) (n - k) =
      (blk (blk m d s k) (d + k) (s + k) j, d + k + j, s + k + j, n - k - j)"
    using copy_little_blk [OF s1] by blast
  have e: "blk (blk m d s k) (d + k) (s + k) j = blk m d s (k + j)"
    by (rule blk_split) (use assms k j in \<open>auto simp: fwd_safe_def\<close>)
  have s2: "fwd_safe (d + (k + j)) (s + (k + j)) (n - (k + j))"
    using fwd_safe_step [of d s "k + j" "n - (k + j)"] assms k j by simp
  have "blk (blk m d s (k + j)) (d + (k + j)) (s + (k + j)) (n - (k + j)) = blk m d s n"
    using blk_split [of d s "k + j" "n - (k + j)" m] assms k j by simp
  then show ?thesis
    using k j copy_bytes_blk [OF s2, of "blk m d s (k + j)"] copy_bytes_blk [OF assms, of m]
    by (simp add: copy_forward_def e add.assoc)
qed

lemma memcpy_blk: "fwd_safe d s n \<Longrightarrow> memcpy m d s n = (blk m d s n, d)"
  by (simp add: memcpy_def copy_forward_blk)

lemma mempcpy_blk: "fwd_safe d s n \<Longrightarrow> mempcpy m d s n = (blk m d s n, d + n)"
  by (simp add: mempcpy_def copy_forward_blk)

lemma copy_back_blk: "s \<le> d \<Longrightarrow> copy_back m (d + n) (s + n) n = blk m d s n"
proof (induction n arbitrary: m)
  case (Suc n)
  have "copy_back m (d + Suc n) (s + Suc n) (Suc n) = blk (m(d + n := m (s + n))) d s n"
    using Suc by simp
  also have "\<dots> = blk m d s (Suc n)"
    using Suc.prems by (auto simp: fun_eq_iff blk_apply less_Suc_eq)
  finally show ?case .
qed simp

lemma memmove_blk: "memmove m d s n = (blk m d s n, d)"
proof (cases "s < d \<and> d < s + n")
  case True
  then show ?thesis by (simp add: memmove_def copy_back_blk)
next
  case False
  then have "fwd_safe d s n" by (auto simp: fwd_safe_def)
  with False show ?thesis by (auto simp: memmove_def copy_forward_blk)
qed

section \<open>Filling\<close>

lemma store64_fill: "store64 m a (fill_mask c) = wr m a (replicate 8 c)"
proof -
  have "unat (fill_mask c) = le_val (replicate 8 c)"
    using le_val_less [of "replicate 8 c"]
    by (simp add: fill_mask_eq unsigned_of_nat take_bit_eq_mod)
  then show ?thesis using le_bytes_le_val [of "replicate 8 c"] by (simp add: store64_def)
qed

lemma wr_replicate_add: "wr (wr m p (replicate k c)) (p + k) (replicate n c) = wr m p (replicate (k + n) c)"
  using wr_append [of m p "replicate k c" "replicate n c"] by (simp add: replicate_add)

lemma memset_bytes_wr: "memset_bytes m p c n = wr m p (replicate n c)"
  by (induction n arbitrary: m p) auto

lemma memset_little_wr:
  "\<exists>k\<le>n. memset_little m p (fill_mask c) n = (wr m p (replicate k c), p + k, n - k)"
proof (induction n arbitrary: m p rule: less_induct)
  case (less n)
  show ?case
  proof (cases "8 \<le> n")
    case False
    then show ?thesis by (intro exI [of _ 0]) (simp add: memset_little.simps [of m p])
  next
    case True
    then obtain k where "k \<le> n - 8" "memset_little (wr m p (replicate 8 c)) (p + 8) (fill_mask c) (n - 8) =
        (wr (wr m p (replicate 8 c)) (p + 8) (replicate k c), p + 8 + k, n - 8 - k)"
      using less [of "n - 8" "wr m p (replicate 8 c)" "p + 8"] by auto
    then show ?thesis using True wr_replicate_add [of m p 8 c k]
      by (intro exI [of _ "8 + k"]) (simp add: memset_little.simps [of m p] store64_fill)
  qed
qed

lemma memset_big_wr:
  "\<exists>k\<le>n. memset_big m p (fill_mask c) n = (wr m p (replicate k c), p + k, n - k)"
proof (induction n arbitrary: m p rule: less_induct)
  case (less n)
  have four: "store64 (store64 (store64 (store64 m p (fill_mask c)) (p + 8) (fill_mask c))
      (p + 16) (fill_mask c)) (p + 24) (fill_mask c) = wr m p (replicate 32 c)"
    using wr_replicate_add [of m p 8 c 8] wr_replicate_add [of m p 16 c 8]
      wr_replicate_add [of m p 24 c 8] by (simp add: store64_fill)
  show ?case
  proof (cases "32 \<le> n")
    case False
    then show ?thesis by (intro exI [of _ 0]) (simp add: memset_big.simps [of m p])
  next
    case True
    then obtain k where "k \<le> n - 32" "memset_big (wr m p (replicate 32 c)) (p + 32) (fill_mask c) (n - 32) =
        (wr (wr m p (replicate 32 c)) (p + 32) (replicate k c), p + 32 + k, n - 32 - k)"
      using less [of "n - 32" "wr m p (replicate 32 c)" "p + 32"] by auto
    then show ?thesis using True wr_replicate_add [of m p 32 c k] four
      by (intro exI [of _ "32 + k"]) (simp add: memset_big.simps [of m p])
  qed
qed

lemma memset_align_wr:
  "(case memset_align m p c n of
      (m', None) \<Rightarrow> m' = wr m p (replicate n c)
    | (m', Some (s, n')) \<Rightarrow> n' \<le> n \<and> m' = wr m p (replicate (n - n') c) \<and> s = p + (n - n'))"
proof (induction m p c n rule: memset_align.induct)
  case (1 m p c n)
  show ?case
  proof (cases "UNALIGNED p \<and> n \<noteq> 0")
    case False
    then show ?thesis by (auto simp: memset_align.simps [of m p])
  next
    case True
    then obtain n0 where n0: "n = Suc n0" by (cases n) auto
    have step: "memset_align m p c n = memset_align (m(p := c)) (p + 1) c n0"
      using True n0 by (simp add: memset_align.simps [of m p] del: fun_upd_apply)
    show ?thesis using "1.IH" True n0 unfolding step
      by (auto simp: Suc_diff_le split: option.splits prod.splits simp del: fun_upd_apply)
  qed
qed

lemma memset_wr: "memset m p c n = (wr m p (replicate n c), p)"
proof (cases "memset_align m p c n")
  case (Pair m1 o1)
  show ?thesis
  proof (cases o1)
    case None
    then show ?thesis using memset_align_wr [where m = m and p = p and c = c and n = n] Pair by (simp add: memset_def)
  next
    case (Some a)
    obtain s n1 where a: "a = (s, n1)" by (cases a)
    have A: "n1 \<le> n" "m1 = wr m p (replicate (n - n1) c)" "s = p + (n - n1)"
      using memset_align_wr [where m = m and p = p and c = c and n = n] Pair Some a by auto
    obtain k where k: "k \<le> n1" "memset_big m1 s (fill_mask c) n1 = (wr m1 s (replicate k c), s + k, n1 - k)"
      using memset_big_wr by blast
    obtain j where j: "j \<le> n1 - k" "memset_little (wr m1 s (replicate k c)) (s + k) (fill_mask c) (n1 - k) =
        (wr (wr m1 s (replicate k c)) (s + k) (replicate j c), s + k + j, n1 - k - j)"
      using memset_little_wr by blast
    have "wr (wr (wr m1 s (replicate k c)) (s + k) (replicate j c)) (s + k + j) (replicate (n1 - k - j) c)
        = wr m1 s (replicate n1 c)"
      using k(1) j(1) wr_replicate_add [of m1 s k c j] wr_replicate_add [of m1 s "k + j" c "n1 - k - j"]
      by (simp add: add.assoc)
    moreover have "wr m1 s (replicate n1 c) = wr m p (replicate n c)"
      using A wr_replicate_add [of m p "n - n1" c n1] by simp
    ultimately show ?thesis using Pair Some a k(2) j(2)
      by (simp add: memset_def memset_bytes_wr)
  qed
qed


section \<open>Copying up to a byte\<close>

lemma bytes_of_blk: "fwd_safe d s (k + n) \<Longrightarrow> bytes_of (blk m d s k) (s + k) n = bytes_of m (s + k) n"
  by (auto simp: list_eq_iff_nth_eq blk_apply fwd_safe_def)

lemma memccpy_mask_eq: "memccpy_mask e = fill_mask e"
proof -
  have "(ucast e :: 64 word) = word_of_nat (unat e)" by simp
  then show ?thesis
    by (simp add: memccpy_mask_def fill_mask_eq replicate_8 push_bit_eq_mult upt_rec algebra_simps)
qed

lemma memccpy_bytes_blk:
  "fwd_safe d s n \<Longrightarrow> memccpy_bytes m d s e n =
     (if e \<in> set (bytes_of m s n)
      then (let k = length (takeWhile (\<lambda>b. b \<noteq> e) (bytes_of m s n)) in (blk m d s (k + 1), d + k + 1))
      else (blk m d s n, 0))"
proof (induction n arbitrary: m d s)
  case (Suc n)
  have safe: "fwd_safe (d + 1) (s + 1) n" using fwd_safe_step [of d s 1 n] Suc.prems by simp
  have b: "bytes_of (blk m d s 1) (s + 1) n = bytes_of m (s + 1) n"
    by (rule bytes_of_blk) (use Suc.prems in simp)
  have sp: "j \<le> n \<Longrightarrow> blk (blk m d s 1) (d + 1) (s + 1) j = blk m d s (1 + j)" for j
    by (rule blk_split) (use Suc.prems in \<open>auto simp: fwd_safe_def\<close>)
  have lt: "e \<in> set (bytes_of m (s + 1) n) \<Longrightarrow>
      Suc (length (takeWhile (\<lambda>b. b \<noteq> e) (bytes_of m (s + 1) n))) \<le> n"
    using length_takeWhile_in [of e "bytes_of m (s + 1) n"] by simp
  have hit: "m s = e \<Longrightarrow> m(d := e) = blk m d s 1" using blk_step1 [of m d s] by simp
  show ?case
    using Suc.IH [OF safe, of "blk m d s 1"] b sp lt hit
    by (simp add: Let_def bytes_of_Suc blk_step1 del: One_nat_def) simp
qed simp

lemma memccpy_words_blk:
  "fwd_safe d s n \<Longrightarrow>
    \<exists>k\<le>n. memccpy_words m d s (fill_mask e) n = (blk m d s k, d + k, s + k, n - k)
        \<and> e \<notin> set (bytes_of m s k)"
proof (induction n arbitrary: m d s rule: less_induct)
  case (less n)
  show ?case
  proof (cases "8 \<le> n \<and> DETECTCHAR (load64 m s) (fill_mask e) = 0")
    case False
    then show ?thesis
      by (intro exI [of _ 0]) (auto simp: memccpy_words.simps [of m d] DETECTCHAR_def)
  next
    case True
    then have n: "n = 8 + (n - 8)" by simp
    have safe: "fwd_safe (d + 8) (s + 8) (n - 8)"
      using fwd_safe_step [of d s 8 "n - 8"] less.prems n by simp
    obtain k where k: "k \<le> n - 8" "e \<notin> set (bytes_of (blk m d s 8) (s + 8) k)" and
      eq: "memccpy_words (blk m d s 8) (d + 8) (s + 8) (fill_mask e) (n - 8) =
         (blk (blk m d s 8) (d + 8) (s + 8) k, d + 8 + k, s + 8 + k, n - 8 - k)"
      using less.IH [OF _ safe] True by fastforce
    have "fwd_safe d s (8 + k)" using less.prems k True by (auto simp: fwd_safe_def)
    note this' = blk_split [OF this, of m] bytes_of_blk [OF this, of m]
    have "e \<notin> set (bytes_of m s 8)"
      using True DETECTCHAR_load64 [of m s e] by (auto simp: in_set_conv_nth)
    then have "e \<notin> set (bytes_of m s (8 + k))" using this' k by (simp add: bytes_of_add)
    moreover have "memccpy_words m d s (fill_mask e) n =
        memccpy_words (blk m d s 8) (d + 8) (s + 8) (fill_mask e) (n - 8)"
      using True by (simp add: memccpy_words.simps [of m d] DETECTCHAR_def store64_blk)
    moreover have "8 + k \<le> n" using conjunct1 [OF True] k(1) by linarith
    ultimately show ?thesis using eq this' by (intro exI [of _ "8 + k"]) simp
  qed
qed

lemma memccpy_blk:
  assumes "fwd_safe d s n"
  shows "memccpy m d s e n =
     (if e \<in> set (bytes_of m s n)
      then (let k = length (takeWhile (\<lambda>b. b \<noteq> e) (bytes_of m s n)) in (blk m d s (k + 1), d + k + 1))
      else (blk m d s n, 0))"
proof -
  obtain k where k: "k \<le> n" "e \<notin> set (bytes_of m s k)"
    and w: "memccpy_words m d s (fill_mask e) n = (blk m d s k, d + k, s + k, n - k)"
    using memccpy_words_blk [OF assms] by blast
  have n: "k + (n - k) = n" using k by simp
  have safe: "fwd_safe (d + k) (s + k) (n - k)" using fwd_safe_step [of d s k "n - k"] assms k by simp
  have bs: "bytes_of m s n = bytes_of m s k @ bytes_of m (s + k) (n - k)"
    using bytes_of_add [of m s k "n - k"] n by simp
  have b: "bytes_of (blk m d s k) (s + k) (n - k) = bytes_of m (s + k) (n - k)"
    by (rule bytes_of_blk) (simp add: n assms)
  have tw: "takeWhile (\<lambda>b. b \<noteq> e) (bytes_of m s k @ ys) = bytes_of m s k @ takeWhile (\<lambda>b. b \<noteq> e) ys" for ys
    using k(2) by (intro takeWhile_append2) auto
  have sp: "j \<le> n - k \<Longrightarrow> blk (blk m d s k) (d + k) (s + k) j = blk m d s (k + j)" for j
    by (rule blk_split) (use assms k in \<open>auto simp: fwd_safe_def\<close>)
  have lt: "e \<in> set (bytes_of m (s + k) (n - k)) \<Longrightarrow>
      Suc (length (takeWhile (\<lambda>b. b \<noteq> e) (bytes_of m (s + k) (n - k)))) \<le> n - k"
    using length_takeWhile_in [of e "bytes_of m (s + k) (n - k)"] by simp
  have main: "memccpy_bytes (blk m d s k) (d + k) (s + k) e (n - k) =
     (if e \<in> set (bytes_of m s n)
      then (let k = length (takeWhile (\<lambda>b. b \<noteq> e) (bytes_of m s n)) in (blk m d s (k + 1), d + k + 1))
      else (blk m d s n, 0))"
    using memccpy_bytes_blk [OF safe, of "blk m d s k" e] k sp lt n
    by (simp add: b bs tw Let_def)
  show ?thesis
    using main w memccpy_bytes_blk [OF assms, of m e] by (simp add: memccpy_def memccpy_mask_eq)
qed

section \<open>Copying strings\<close>

lemma cstr_bytes_of_Suc: "cstr m s xs \<Longrightarrow> bytes_of m s (length xs + 1) = xs @ [0]"
  by (simp add: bytes_of_snoc cstr_bytes_of cstr_end)

lemma cstr_blk:
  "cstr m s xs \<Longrightarrow> fwd_safe d s (length xs + 1) \<Longrightarrow> k \<le> length xs \<Longrightarrow> cstr (blk m d s k) (s + k) (drop k xs)"
  using cstr_drop [of m s xs k] 
  by (subst cstr_cong [where m = m]) (auto simp: blk_apply fwd_safe_def)

lemma strcpy_bytes_blk:
  "cstr m s xs \<Longrightarrow> fwd_safe d s (length xs + 1) \<Longrightarrow>
     strcpy_bytes m d s = Some (blk m d s (length xs + 1), d + length xs + 1)"
proof (induction xs arbitrary: m d s)
  case Nil
  then show ?case using blk_step1 [of m d s] by (simp add: strcpy_bytes.simps [of m d])
next
  case (Cons x xs)
  have c: "cstr (blk m d s 1) (s + 1) xs" using cstr_blk [OF Cons.prems, of 1] by simp
  have safe: "fwd_safe (d + 1) (s + 1) (length xs + 1)"
    using fwd_safe_step [of d s 1 "length xs + 1"] Cons.prems by simp
  have "blk (blk m d s 1) (d + 1) (s + 1) (length xs + 1) = blk m d s (length (x # xs) + 1)"
    using blk_split [of d s 1 "length xs + 1" m] Cons.prems by simp
  moreover have "strcpy_bytes m d s = strcpy_bytes (blk m d s 1) (d + 1) (s + 1)"
    using Cons.prems blk_step1 [of m d s] by (subst strcpy_bytes.simps) auto
  ultimately show ?case using Cons.IH [OF c safe] by simp
qed

lemma no_null_block:
  assumes "cstr m s xs" and "DETECTNULL (load64 m s) = 0"
  shows "8 \<le> length xs"
proof (rule ccontr)
  assume "\<not> 8 \<le> length xs"
  then have "\<exists>i<8. m (s + i) = 0" using cstr_end [OF assms(1)] by (intro exI [of _ "length xs"]) simp
  then show False using DETECTNULL_load64 [of m s] assms(2) by simp
qed

lemma strcpy_words_blk:
  "cstr m s xs \<Longrightarrow> fwd_safe d s (length xs + 1) \<Longrightarrow>
     \<exists>k\<le>length xs. strcpy_words m d s = Some (blk m d s k, d + k, s + k)"
proof (induction "length xs" arbitrary: m d s xs rule: less_induct)
  case less
  show ?case
  proof (cases "DETECTNULL (load64 m s) = 0")
    case False
    then show ?thesis by (intro exI [of _ 0]) (simp add: strcpy_words.simps [of m d])
  next
    case True
    have l: "8 \<le> length xs" by (rule no_null_block [OF less.prems(1) True])
    have c: "cstr (blk m d s 8) (s + 8) (drop 8 xs)" using cstr_blk [OF less.prems l] .
    have safe: "fwd_safe (d + 8) (s + 8) (length (drop 8 xs) + 1)"
      using fwd_safe_step [of d s 8 "length (drop 8 xs) + 1"] less.prems l by simp
    obtain k where k: "k \<le> length (drop 8 xs)" and
      eq: "strcpy_words (blk m d s 8) (d + 8) (s + 8) =
         Some (blk (blk m d s 8) (d + 8) (s + 8) k, d + 8 + k, s + 8 + k)"
      using less.hyps [OF _ c safe] l by fastforce
    have "blk (blk m d s 8) (d + 8) (s + 8) k = blk m d s (8 + k)"
      by (rule blk_split) (use less.prems k l in \<open>auto simp: fwd_safe_def\<close>)
    moreover have "strcpy_words m d s = strcpy_words (blk m d s 8) (d + 8) (s + 8)"
      using True by (simp add: strcpy_words.simps [of m d] store64_blk)
    moreover have "8 + k \<le> length xs" using k l by simp
    ultimately show ?thesis using eq by (intro exI [of _ "8 + k"]) simp
  qed
qed

lemma strcpy_blk_tail:
  assumes "cstr m s xs" and "fwd_safe d s (length xs + 1)"
  obtains k where "k \<le> length xs"
    "(if \<not> UNALIGNED2 s d then strcpy_words m d s else Some (m, d, s)) = Some (blk m d s k, d + k, s + k)"
    "strcpy_bytes (blk m d s k) (d + k) (s + k) = Some (blk m d s (length xs + 1), d + length xs + 1)"
proof -
  obtain k0 where k0: "k0 \<le> length xs" "strcpy_words m d s = Some (blk m d s k0, d + k0, s + k0)"
    using strcpy_words_blk [OF assms] by blast
  define k where "k = (if UNALIGNED2 s d then 0 else k0)"
  have k: "k \<le> length xs" using k0 by (simp add: k_def)
  have c: "cstr (blk m d s k) (s + k) (drop k xs)" by (rule cstr_blk [OF assms k])
  have e: "k + (length (drop k xs) + 1) = length xs + 1" using k by simp
  have safe: "fwd_safe (d + k) (s + k) (length (drop k xs) + 1)"
    by (rule fwd_safe_step) (use assms e in simp)
  have "blk (blk m d s k) (d + k) (s + k) (length (drop k xs) + 1) = blk m d s (length xs + 1)"
    using blk_split [of d s k "length (drop k xs) + 1" m] assms(2) e by simp
  then have "strcpy_bytes (blk m d s k) (d + k) (s + k) = Some (blk m d s (length xs + 1), d + length xs + 1)"
    using strcpy_bytes_blk [OF c safe] k by simp
  then show ?thesis using that [OF k] k0 by (simp add: k_def)
qed

lemma stpcpy_cstr:
  assumes "cstr m s xs" and "fwd_safe d s (length xs + 1)"
  shows "stpcpy m d s = Some (wr m d (xs @ [0]), d + length xs)"
proof -
  have "blk m d s (length xs + 1) = wr m d (xs @ [0])"
    using cstr_bytes_of_Suc [OF assms(1)] by (simp add: blk_def)
  then show ?thesis by (rule_tac strcpy_blk_tail [OF assms]) (simp add: stpcpy_def)
qed

lemma strcpy_cstr:
  assumes "cstr m s xs" and "fwd_safe d s (length xs + 1)"
  shows "strcpy m d s = Some (wr m d (xs @ [0]), d)"
proof -
  have "blk m d s (length xs + 1) = wr m d (xs @ [0])"
    using cstr_bytes_of_Suc [OF assms(1)] by (simp add: blk_def)
  then show ?thesis by (rule_tac strcpy_blk_tail [OF assms]) (simp add: strcpy_def)
qed

lemma strncpy_words_blk:
  "cstr m s xs \<Longrightarrow> fwd_safe d s (length xs + 1) \<Longrightarrow>
     \<exists>k\<le>min n (length xs). strncpy_words m d s n = (blk m d s k, d + k, s + k, n - k)"
proof (induction "length xs" arbitrary: m d s xs n rule: less_induct)
  case less
  show ?case
  proof (cases "8 \<le> n \<and> DETECTNULL (load64 m s) = 0")
    case False
    then show ?thesis by (intro exI [of _ 0]) (auto simp: strncpy_words.simps [of m d])
  next
    case True
    have l: "8 \<le> length xs" using no_null_block [OF less.prems(1)] True by blast
    have c: "cstr (blk m d s 8) (s + 8) (drop 8 xs)" using cstr_blk [OF less.prems l] .
    have safe: "fwd_safe (d + 8) (s + 8) (length (drop 8 xs) + 1)"
      using fwd_safe_step [of d s 8 "length (drop 8 xs) + 1"] less.prems l by simp
    obtain k where k: "k \<le> min (n - 8) (length (drop 8 xs))" and
      eq: "strncpy_words (blk m d s 8) (d + 8) (s + 8) (n - 8) =
         (blk (blk m d s 8) (d + 8) (s + 8) k, d + 8 + k, s + 8 + k, n - 8 - k)"
      using less.hyps [OF _ c safe] l by fastforce
    have "blk (blk m d s 8) (d + 8) (s + 8) k = blk m d s (8 + k)"
      by (rule blk_split) (use less.prems k l in \<open>auto simp: fwd_safe_def\<close>)
    moreover have "strncpy_words m d s n = strncpy_words (blk m d s 8) (d + 8) (s + 8) (n - 8)"
      using True by (simp add: strncpy_words.simps [of m d] store64_blk)
    moreover have "8 + k \<le> min n (length xs)" using k l True by auto
    ultimately show ?thesis using eq by (intro exI [of _ "8 + k"]) simp
  qed
qed

lemma strncpy_bytes_blk:
  "cstr m s xs \<Longrightarrow> fwd_safe d s (length xs + 1) \<Longrightarrow>
     strncpy_bytes m d s n =
       (if n \<le> length xs then (blk m d s n, d + n, 0, 0)
        else (blk m d s (length xs + 1), d + length xs + 1, n - length xs - 1, d + length xs))"
proof (induction n arbitrary: m d s xs)
  case (Suc n)
  have one: "m(d := m s) = blk m d s 1" by (rule blk_step1)
  show ?case
  proof (cases xs)
    case Nil
    then show ?thesis using Suc.prems one by (simp add: Let_def)
  next
    case (Cons x ys)
    have c: "cstr (blk m d s 1) (s + 1) ys" using cstr_blk [OF Suc.prems, of 1] Cons by simp
    have safe: "fwd_safe (d + 1) (s + 1) (length ys + 1)"
      using fwd_safe_step [of d s 1 "length ys + 1"] Suc.prems Cons by simp
    have sp: "j \<le> length ys + 1 \<Longrightarrow> blk (blk m d s 1) (d + 1) (s + 1) j = blk m d s (1 + j)" for j
      by (rule blk_split) (use Suc.prems Cons in \<open>auto simp: fwd_safe_def\<close>)
    have "m s \<noteq> 0" using Suc.prems Cons by simp
    then have "strncpy_bytes m d s (Suc n) = strncpy_bytes (blk m d s 1) (d + 1) (s + 1) n"
      using one by (simp add: Let_def)
    also have "\<dots> = (if n \<le> length ys then (blk m d s (1 + n), d + 1 + n, 0, 0)
        else (blk m d s (1 + (length ys + 1)), d + 1 + length ys + 1, n - length ys - 1, d + 1 + length ys))"
      using Suc.IH [OF c safe] sp [of n] sp [of "length ys + 1"] by simp
    finally show ?thesis using Cons by simp
  qed
qed simp

lemma strncpy_parts:
  assumes "cstr m s xs" and "fwd_safe d s (length xs + 1)"
  shows "(let (m, d', s', n') =
        (if \<not> UNALIGNED2 s d \<and> \<not> TOO_SMALL n then strncpy_words m d s n else (m, d, s, n))
      in strncpy_bytes m d' s' n') = strncpy_bytes m d s n"
proof -
  obtain k where k: "k \<le> min n (length xs)"
    and w: "strncpy_words m d s n = (blk m d s k, d + k, s + k, n - k)"
    using strncpy_words_blk [OF assms] by blast
  have c: "cstr (blk m d s k) (s + k) (drop k xs)" by (rule cstr_blk [OF assms]) (use k in simp)
  have safe: "fwd_safe (d + k) (s + k) (length (drop k xs) + 1)"
    by (rule fwd_safe_step) (use assms k in simp)
  have sp: "j \<le> length xs + 1 - k \<Longrightarrow> blk (blk m d s k) (d + k) (s + k) j = blk m d s (k + j)" for j
    by (rule blk_split) (use assms k in \<open>auto simp: fwd_safe_def\<close>)
  have "strncpy_bytes (blk m d s k) (d + k) (s + k) (n - k) = strncpy_bytes m d s n"
    using strncpy_bytes_blk [OF c safe, of "n - k"] strncpy_bytes_blk [OF assms, of n] k
      sp [of "n - k"] sp [of "length xs + 1 - k"] by (auto simp: Suc_diff_le)
  then show ?thesis using w by simp
qed

lemma blk_pad:
  assumes "cstr m s xs"
  shows "n \<le> length xs \<Longrightarrow> blk m d s n = wr m d (take n (xs @ replicate n 0))"
    and "length xs < n \<Longrightarrow> wr (blk m d s (length xs + 1)) (d + length xs + 1) (replicate (n - length xs - 1) 0)
       = wr m d (take n (xs @ replicate n 0))"
proof -
  show "blk m d s n = wr m d (take n (xs @ replicate n 0))" if "n \<le> length xs"
  proof -
    have "bytes_of m s n = take n xs"
      using assms that by (auto simp: list_eq_iff_nth_eq cstr_iff_nth)
    with that show ?thesis by (simp add: blk_def)
  qed
  show "wr (blk m d s (length xs + 1)) (d + length xs + 1) (replicate (n - length xs - 1) 0)
       = wr m d (take n (xs @ replicate n 0))" if "length xs < n"
  proof -
    have "wr (blk m d s (length xs + 1)) (d + length xs + 1) (replicate (n - length xs - 1) 0)
       = wr m d ((xs @ [0]) @ replicate (n - length xs - 1) 0)"
      using cstr_bytes_of_Suc [OF assms] by (simp only: blk_def wr_append) simp
    also have "(xs @ [0]) @ replicate (n - length xs - 1) 0 = take n (xs @ replicate n 0)"
      using that by (simp add: min_def replicate_append_same flip: replicate_Suc)
    finally show ?thesis .
  qed
qed

lemma strncpy_cstr:
  assumes "cstr m s xs" and "fwd_safe d s (length xs + 1)"
  shows "strncpy m d s n = (wr m d (take n (xs @ replicate n 0)), d)"
  using strncpy_parts [OF assms, of n] strncpy_bytes_blk [OF assms, of n] blk_pad [OF assms(1), of n d]
  by (auto simp: strncpy_def Let_def memset_bytes_wr split: prod.splits if_splits)

lemma stpncpy_cstr:
  assumes "cstr m s xs" and "fwd_safe d s (length xs + 1)" and "0 < d"
  shows "stpncpy m d s n = (wr m d (take n (xs @ replicate n 0)), d + min n (length xs))"
  using strncpy_parts [OF assms(1,2), of n] strncpy_bytes_blk [OF assms(1,2), of n]
    blk_pad [OF assms(1), of n d] assms(3)
  by (auto simp: stpncpy_def Let_def memset_bytes_wr split: prod.splits if_splits)

lemma str_end_cstr: "cstr m p xs \<Longrightarrow> str_end m p = Some (p + length xs)"
  using null_det.scan_words_first [OF first_at_cstr, of m p xs] scan_bytes_first
    scan_bytes_first [OF first_at_cstr, of m p xs]
  by (auto simp: str_end_def)

lemma strcat_cstr:
  assumes "cstr m p xs" and "cstr m q ys" and "fwd_safe (p + length xs) q (length ys + 1)"
  shows "strcat m p q = Some (wr m (p + length xs) (ys @ [0]), p)"
  using assms by (simp add: strcat_def str_end_cstr strcpy_cstr)

lemma strncat_loop_wr:
  "cstr m s ys \<Longrightarrow> fwd_safe e s (length ys + 1) \<Longrightarrow> (n = 0 \<longrightarrow> m e = 0) \<Longrightarrow>
     strncat_loop m e s n = wr m e (take n ys @ [0])"
proof (induction n arbitrary: m e s ys)
  case 0
  then show ?case by (simp add: fun_upd_idem)
next
  case (Suc n)
  show ?case
  proof (cases ys)
    case Nil
    then show ?thesis using Suc.prems by (simp add: Let_def)
  next
    case (Cons y zs)
    have y: "m s = y" "y \<noteq> 0" using Suc.prems Cons by auto
    show ?thesis
    proof (cases n)
      case 0
      then show ?thesis using y Cons by (simp add: Let_def)
    next
      case (Suc k)
      have c: "cstr (m(e := y)) (s + 1) zs"
        using cstr_blk [OF Suc.prems(1,2), of 1] Cons y blk_step1 [of m e s] by simp
      have safe: "fwd_safe (e + 1) (s + 1) (length zs + 1)"
        using fwd_safe_step [of e s 1 "length zs + 1"] Suc.prems Cons by simp
      have "strncat_loop (m(e := y)) (e + 1) (s + 1) n = wr (m(e := y)) (e + 1) (take n zs @ [0])"
        using Suc by (intro Suc.IH [OF c safe]) simp
      then show ?thesis using y Suc Cons by (simp add: Let_def)
    qed
  qed
qed

lemma strncat_cstr:
  assumes "cstr m p xs" and "cstr m q ys" and "fwd_safe (p + length xs) q (length ys + 1)"
  shows "strncat m p q n = Some (wr m (p + length xs) (take n ys @ [0]), p)"
  using strncat_loop_wr [OF assms(2,3), of n] cstr_end [OF assms(1)]
  by (simp add: strncat_def str_end_cstr [OF assms(1)])

lemma strlcpy_loop_blk:
  "cstr m s xs \<Longrightarrow> fwd_safe d s (length xs + 1) \<Longrightarrow>
     strlcpy_loop m d s n =
       (if n \<le> length xs then (blk m d s n, d + n, s + n, 0)
        else (blk m d s (length xs + 1), d + length xs + 1, s + length xs + 1, n - length xs))"
proof (induction n arbitrary: m d s xs)
  case (Suc n)
  have one: "m(d := m s) = blk m d s 1" by (rule blk_step1)
  show ?case
  proof (cases xs)
    case Nil
    then show ?thesis using Suc.prems one by (simp add: Let_def)
  next
    case (Cons x ys)
    have c: "cstr (blk m d s 1) (s + 1) ys" using cstr_blk [OF Suc.prems, of 1] Cons by simp
    have safe: "fwd_safe (d + 1) (s + 1) (length ys + 1)"
      using fwd_safe_step [of d s 1 "length ys + 1"] Suc.prems Cons by simp
    have sp: "j \<le> length ys + 1 \<Longrightarrow> blk (blk m d s 1) (d + 1) (s + 1) j = blk m d s (1 + j)" for j
      by (rule blk_split) (use Suc.prems Cons in \<open>auto simp: fwd_safe_def\<close>)
    have "m s \<noteq> 0" using Suc.prems Cons by simp
    then have "strlcpy_loop m d s (Suc n) = strlcpy_loop (blk m d s 1) (d + 1) (s + 1) n"
      using one by (simp add: Let_def)
    also have "\<dots> = (if n \<le> length ys then (blk m d s (1 + n), d + 1 + n, s + 1 + n, 0)
        else (blk m d s (1 + (length ys + 1)), d + 1 + length ys + 1, s + 1 + length ys + 1, n - length ys))"
      using Suc.IH [OF c safe] sp [of n] sp [of "length ys + 1"] by simp
    finally show ?thesis using Cons by simp
  qed
qed simp

lemma strlcpy_cstr:
  assumes "cstr m s xs" and "d + n \<le> s \<or> s + length xs < d"
  shows "strlcpy m d s n =
     Some (if n = 0 then m else wr m d (take (n - 1) xs @ [0]), length xs)"
proof -
  have safe: "fwd_safe d s (length xs + 1)" using assms(2) by (auto simp: fwd_safe_def)
  show ?thesis
  proof (cases "n = 0")
    case True
    then show ?thesis
      using scan_bytes_first [OF first_at_cstr [OF assms(1)]] by (simp add: strlcpy_def)
  next
    case False
    note loop = strlcpy_loop_blk [OF assms(1) safe, of "n - 1"]
    show ?thesis
    proof (cases "n - 1 \<le> length xs")
      case True
      have b: "bytes_of m s (n - 1) = take (n - 1) xs"
        using assms(1) True by (auto simp: list_eq_iff_nth_eq cstr_iff_nth)
      let ?m = "wr m d (take (n - 1) xs @ [0])"
      have m: "(blk m d s (n - 1))(d + (n - 1) := 0) = ?m"
        using True by (simp add: blk_def b wr_snoc del: One_nat_def)
      have "cstr ?m s xs"
        by (subst cstr_cong [where m = m])
          (use assms True False in \<open>auto simp: wr_eq\<close>)
      then have "cstr ?m (s + (n - 1)) (drop (n - 1) xs)" using True by (rule cstr_drop)
      from scan_bytes_first [OF first_at_cstr [OF this]]
      have "scan_bytes (\<lambda>b. b = 0) ?m (s + (n - 1)) = Some (s + length xs)" using True by simp
      then show ?thesis using True False loop m by (simp add: strlcpy_def)
    next
      case F: False
      then have "blk m d s (length xs + 1) = wr m d (take (n - 1) xs @ [0])"
        using cstr_bytes_of_Suc [OF assms(1)] by (simp add: blk_def)
      moreover have "\<not> n \<le> Suc (length xs)" using F by linarith
      ultimately show ?thesis using F False loop by (simp add: strlcpy_def)
    qed
  qed
qed

lemma strlcat_loop_wr:
  "cstr m s ys \<Longrightarrow> d + n < s \<or> s + length ys < d \<Longrightarrow>
     strlcat_loop m d s n = Some (wr m d (take n ys), d + min n (length ys), s + length ys)"
proof (induction ys arbitrary: m d s n)
  case Nil
  then show ?case by (simp add: strlcat_loop.simps [of m d])
next
  case (Cons y ys)
  have y: "m s = y" "y \<noteq> 0" "cstr m (s + 1) ys" using Cons.prems by auto
  show ?case
  proof (cases n)
    case 0
    then show ?thesis
      using y Cons.IH [OF y(3), of d 0] Cons.prems by (auto simp: strlcat_loop.simps [of m d s 0])
  next
    case (Suc k)
    have "cstr (m(d := y)) (s + 1) ys"
      by (subst cstr_cong [where m = m]) (use y Cons.prems Suc in auto)
    then show ?thesis
      using y Suc Cons.IH [of "m(d := y)" "s + 1" "d + 1" k] Cons.prems
      by (auto simp: strlcat_loop.simps [of m d s "Suc k"] simp del: fun_upd_apply)
  qed
qed

lemma strlcat_cstr:
  assumes "cstr m d xs" and "cstr m s ys" and "d + n \<le> s \<or> s + length ys < d"
  shows "strlcat m d s n =
     Some (if n \<le> length xs then m else wr m (d + length xs) (take (n - length xs - 1) ys @ [0]),
           min n (length xs) + length ys)"
proof -
  have l: "strnlen_loop m d n = d + min n (length xs)"
    by (rule strnlen_loop_cstr [OF assms(1)])
  show ?thesis
  proof (cases "n \<le> length xs")
    case True
    then show ?thesis using l strlen_cstr [OF assms(2)] by (simp add: strlcat_def)
  next
    case False
    let ?k = "n - length xs - 1"
    have "strlcat_loop m (d + length xs) s ?k =
        Some (wr m (d + length xs) (take ?k ys), d + length xs + min ?k (length ys), s + length ys)"
      by (rule strlcat_loop_wr [OF assms(2)]) (use assms(3) False in auto)
    then show ?thesis using False l by (simp add: strlcat_def wr_snoc min_def Let_def)
  qed
qed

fun swap_pairs :: "byte list \<Rightarrow> byte list" where
  "swap_pairs [] = []"
| "swap_pairs [x] = [0]"
| "swap_pairs (x # y # r) = y # x # swap_pairs r"


lemma length_swap_pairs [simp]: "length (swap_pairs xs) = length xs"
  by (induction xs rule: swap_pairs.induct) auto

lemma swap_pairs_append: "even (length xs) \<Longrightarrow> swap_pairs (xs @ ys) = swap_pairs xs @ swap_pairs ys"
  by (induction xs rule: swap_pairs.induct) auto

lemma swab_loop_wr:
  assumes "f + n \<le> t \<or> t + n \<le> f"
  shows "2 * k \<le> n \<Longrightarrow>
    swab_loop (wr m t (swap_pairs (bytes_of m f (2 * k)))) f t (int n) (int (2 * k) + 1) =
      (wr m t (swap_pairs (bytes_of m f (2 * (n div 2)))), int (2 * (n div 2)) + 1)"
proof (induction "n div 2 - k" arbitrary: k)
  case 0
  then have "k = n div 2" by linarith
  moreover have "\<not> int (2 * (n div 2)) + 1 < int n" by linarith
  ultimately show ?case by (subst swab_loop.simps) simp
next
  case (Suc j)
  then have lt: "2 * k + 1 < n" by linarith
  let ?w = "wr m t (swap_pairs (bytes_of m f (2 * k)))"
  have r: "?w (f + (2 * k + 1)) = m (f + (2 * k + 1))" "?w (f + 2 * k) = m (f + 2 * k)"
    using assms lt by (auto simp: wr_eq)
  have bs: "bytes_of m f (2 * Suc k) = bytes_of m f (2 * k) @ [m (f + 2 * k), m (f + (2 * k + 1))]"
    by (simp add: bytes_of_snoc)
  have w: "wr m t (swap_pairs (bytes_of m f (2 * Suc k))) =
      ?w(t + 2 * k := m (f + (2 * k + 1)), t + (2 * k + 1) := m (f + 2 * k))"
    unfolding bs by (simp add: swap_pairs_append wr_append)
  have n1: "nat (2 * int k) = 2 * k" "nat (1 + 2 * int k) = Suc (2 * k)" by auto
  have "swab_loop ?w f t (int n) (int (2 * k) + 1) =
      swab_loop (?w(t + 2 * k := m (f + (2 * k + 1)), t + (2 * k + 1) := m (f + 2 * k)))
        f t (int n) (int (2 * Suc k) + 1)"
    using lt r by (subst swab_loop.simps) (simp add: Let_def n1 add.commute del: fun_upd_apply)
  also have "\<dots> = swab_loop (wr m t (swap_pairs (bytes_of m f (2 * Suc k)))) f t (int n) (int (2 * Suc k) + 1)"
    by (simp only: w)
  finally show ?case using Suc.hyps(1) [of "Suc k"] Suc.hyps(2) lt by simp
qed

lemma swab_wr:
  assumes "f + n \<le> t \<or> t + n \<le> f"
  shows "swab m f t (int n) = wr m t (swap_pairs (bytes_of m f n))"
proof -
  have l: "swab_loop m f t (int n) 1 =
      (wr m t (swap_pairs (bytes_of m f (2 * (n div 2)))), int (2 * (n div 2)) + 1)"
    using swab_loop_wr [OF assms, of 0 m] by simp
  show ?thesis
  proof (cases "even n")
    case True
    then have "2 * (n div 2) = n" by simp
    with l show ?thesis by (simp add: swab_def)
  next
    case False
    then obtain h where h: "n = Suc (2 * h)" by (metis odd_Suc_div_two odd_two_times_div_two_succ Suc_eq_plus1)
    then have "n div 2 = h" by simp
    moreover have "swap_pairs (bytes_of m f n) = swap_pairs (bytes_of m f (2 * h)) @ [0]"
      unfolding h bytes_of_snoc by (simp add: swap_pairs_append)
    ultimately show ?thesis using l h by (simp add: swab_def wr_snoc nat_mult_distrib nat_add_distrib)
  qed
qed

section \<open>Properties\<close>

text \<open>
  C12: \<open>memmove\<close> writes to the destination the bytes the source held before the
  call, for every size, alignment and overlap of the two blocks, and changes
  nothing else.
\<close>

theorem memmove_correct:
  "memmove m d s n = (wr m d (bytes_of m s n), d)"
  unfolding memmove_blk blk_def ..

text \<open>
  \<open>memcpy\<close> copies the block like \<open>memmove\<close> when the blocks do not overlap,
  and also when the destination starts at or below the source.
\<close>

theorem memcpy_correct:
  assumes "d \<le> s \<or> s + n \<le> d"
  shows "memcpy m d s n = memmove m d s n"
  using assms by (simp add: memcpy_blk memmove_blk fwd_safe_def)

theorem memcpy_correct_witness:
  "memcpy (\<lambda>a. word_of_nat a) 3 7 40 = memmove (\<lambda>a. word_of_nat a) 3 7 40"
  by (rule memcpy_correct) simp

text \<open>
  \<open>memset\<close> fills exactly \<open>n\<close> bytes with the value, and \<open>bzero\<close> with zeros.
\<close>

theorem memset_correct:
  "memset m p c n = (wr m p (replicate n c), p) \<and> bzero m p n = wr m p (replicate n 0)"
  by (simp add: memset_wr bzero_def)

text \<open>
  \<open>strcpy\<close> and \<open>stpcpy\<close> return and write the string with its terminator;
  the word-at-a-time copy does not write past the terminator.
\<close>

theorem strcpy_correct:
  assumes "cstr m s xs" and "d \<le> s \<or> s + length xs < d"
  shows "strcpy m d s = Some (wr m d (xs @ [0]), d) \<and>
    stpcpy m d s = Some (wr m d (xs @ [0]), d + length xs)"
proof -
  have "fwd_safe d s (length xs + 1)" using assms(2) by (auto simp: fwd_safe_def)
  then show ?thesis using strcpy_cstr [OF assms(1)] stpcpy_cstr [OF assms(1)] by blast
qed

theorem strcpy_correct_witness:
  "stpcpy (text_mem 8 [1, 2, 3, 4, 5, 6, 7, 8, 9]) 24 8 =
     Some (wr (text_mem 8 [1, 2, 3, 4, 5, 6, 7, 8, 9]) 24 [1, 2, 3, 4, 5, 6, 7, 8, 9, 0], 33)"
  using strcpy_correct [of "text_mem 8 [1, 2, 3, 4, 5, 6, 7, 8, 9]" 8 "[1, 2, 3, 4, 5, 6, 7, 8, 9]" 24]
  by (simp add: text_mem_def)

text \<open>
  \<open>strncpy\<close> writes exactly \<open>n\<close> bytes: the string, cut at \<open>n\<close> bytes, padded
  with zeros.
\<close>

theorem strncpy_correct:
  assumes "cstr m s xs" and "d \<le> s \<or> s + length xs < d"
  shows "strncpy m d s n = (wr m d (take n (xs @ replicate n 0)), d)"
proof (rule strncpy_cstr [OF assms(1)])
  show "fwd_safe d s (length xs + 1)" using assms(2) by (auto simp: fwd_safe_def)
qed

theorem strncpy_correct_witness:
  "strncpy (text_mem 8 [1, 2, 3]) 24 8 5 = (wr (text_mem 8 [1, 2, 3]) 24 [1, 2, 3, 0, 0], 24)"
proof -
  have "take 5 ([1, 2, 3] @ replicate 5 (0 :: byte)) = [1, 2, 3, 0, 0]"
    by (simp add: eval_nat_numeral)
  moreover have "cstr (text_mem 8 [1, 2, 3]) 8 [1, 2, 3]" by (simp add: text_mem_def)
  ultimately show ?thesis using strncpy_correct [of "text_mem 8 [1, 2, 3]" 8 "[1, 2, 3]" 24 5] by simp
qed

text \<open>
  after \<open>strlcpy\<close> with a nonzero size the destination holds a terminated
  string, the longest prefix of the source that fits; nothing outside the
  \<open>n\<close> bytes of the destination changes; the result is the length of the source,
  so truncation happened exactly when it is at least \<open>n\<close>.
\<close>

theorem strlcpy_correct:
  assumes "cstr m s xs" and "d + n \<le> s \<or> s + length xs < d" and "0 < n"
  shows "\<exists>m'. strlcpy m d s n = Some (m', length xs) \<and> cstr m' d (take (n - 1) xs) \<and>
    (\<forall>a. a < d \<or> d + n \<le> a \<longrightarrow> m' a = m a)"
proof -
  have z: "0 \<notin> set (take (n - 1) xs)" using cstr_set [OF assms(1)] by (auto dest: in_set_takeD)
  show ?thesis using assms strlcpy_cstr [OF assms(1,2)] cstr_wr [OF z, of m d] by (auto simp: wr_eq)
qed

theorem strlcpy_correct_witness:
  "\<exists>m'. strlcpy (text_mem 8 [1, 2, 3]) 24 8 3 = Some (m', 3) \<and> cstr m' 24 [1, 2]"
  using strlcpy_correct [of "text_mem 8 [1, 2, 3]" 8 "[1, 2, 3]" 24 3]
  by (auto simp: text_mem_def)

text \<open>
  \<open>strlcat\<close> on a destination that holds a string of fewer than \<open>n\<close> bytes leaves a
  terminated string there, the concatenation cut to \<open>n - 1\<close> bytes, and returns
  the length of the whole concatenation.
\<close>

theorem strlcat_correct:
  assumes "cstr m d xs" and "cstr m s ys" and "d + n \<le> s \<or> s + length ys < d" and "length xs < n"
  shows "\<exists>m'. strlcat m d s n = Some (m', length xs + length ys) \<and> cstr m' d (take (n - 1) (xs @ ys))"
proof -
  let ?z = "take (n - length xs - 1) ys"
  have z: "0 \<notin> set ?z" using cstr_set [OF assms(2)] by (auto dest: in_set_takeD)
  have "cstr (wr m (d + length xs) (?z @ [0])) d (xs @ ?z)"
    using assms(1) z by (auto simp: cstr_iff_nth wr_eq nth_append in_set_conv_nth)
  moreover have "take (n - 1) (xs @ ys) = xs @ ?z" using assms(4) by simp
  ultimately show ?thesis using strlcat_cstr [OF assms(1-3)] assms(4) by simp
qed

theorem strlcat_correct_witness:
  "\<exists>m'. strlcat (wr (text_mem 8 [1, 2, 3]) 24 [7, 0]) 24 8 3 = Some (m', 4) \<and> cstr m' 24 [7, 1]"
proof -
  define M where "M = wr (text_mem 8 [1, 2, 3]) 24 [7, 0]"
  have c: "cstr M 24 [7]" "cstr M 8 [1, 2, 3]" by (simp_all add: M_def text_mem_def)
  have "length [7 :: byte] + length [1, 2, 3 :: byte] = 4" "take (3 - 1) ([7] @ [1, 2, 3]) = [7, 1 :: byte]"
    by simp_all
  then show ?thesis
    using strlcat_correct [OF c, of 3] unfolding M_def [symmetric] by (simp only:) simp
qed

end
