(* ===== verification/Newlib_Strcmp.thy ===== *)
theory Newlib_Strcmp
  imports Newlib_Memcopy
begin

text \<open>
  The comparing and tokenising functions of \<open>libc/string\<close>: \<open>memcmp\<close>, \<open>bcmp\<close>,
  \<open>strcmp\<close>, \<open>strncmp\<close> (all three compare word by word when both pointers are
  aligned), the constant-time \<open>timingsafe_bcmp\<close> and \<open>timingsafe_memcmp\<close>,
  \<open>strspn\<close>, \<open>strcspn\<close>, \<open>strpbrk\<close>, \<open>strtok_r\<close>, \<open>strsep\<close> and the GNU \<open>basename\<close>.
\<close>

unbundle bit_operations_syntax

section \<open>Comparing\<close>

fun memcmp_words :: "mem \<Rightarrow> addr \<Rightarrow> addr \<Rightarrow> nat \<Rightarrow> addr \<times> addr \<times> nat" where
  "memcmp_words m a1 a2 n =
     (if n \<ge> 8 then
        if load64 m a1 \<noteq> load64 m a2 then (a1, a2, n)
        else memcmp_words m (a1 + 8) (a2 + 8) (n - 8)
      else (a1, a2, n))"

fun memcmp_bytes :: "mem \<Rightarrow> addr \<Rightarrow> addr \<Rightarrow> nat \<Rightarrow> int" where
  "memcmp_bytes m s1 s2 0 = 0"
| "memcmp_bytes m s1 s2 (Suc n) =
     (if m s1 \<noteq> m s2 then uint (m s1) - uint (m s2) else memcmp_bytes m (s1 + 1) (s2 + 1) n)"

definition memcmp :: "mem \<Rightarrow> addr \<Rightarrow> addr \<Rightarrow> nat \<Rightarrow> int" where
  "memcmp m s1 s2 n =
     (let (s1, s2, n) =
        (if \<not> TOO_SMALL n \<and> \<not> UNALIGNED2 s1 s2 then memcmp_words m s1 s2 n else (s1, s2, n))
      in memcmp_bytes m s1 s2 n)"

definition bcmp :: "mem \<Rightarrow> addr \<Rightarrow> addr \<Rightarrow> nat \<Rightarrow> int" where
  "bcmp m m1 m2 n = memcmp m m1 m2 n"

text \<open>The word loop of \<open>strcmp\<close>: \<open>Inl\<close> of the value it returns, or \<open>Inr\<close> of the pointers.\<close>

partial_function (option) strcmp_words :: "mem \<Rightarrow> addr \<Rightarrow> addr \<Rightarrow> (int + addr \<times> addr) option" where
  "strcmp_words m a1 a2 =
     (if load64 m a1 = load64 m a2 then
        if DETECTNULL (load64 m a1) \<noteq> 0 then Some (Inl 0)
        else strcmp_words m (a1 + 8) (a2 + 8)
      else Some (Inr (a1, a2)))"

partial_function (option) strcmp_bytes :: "mem \<Rightarrow> addr \<Rightarrow> addr \<Rightarrow> int option" where
  "strcmp_bytes m s1 s2 =
     (if m s1 \<noteq> 0 \<and> m s1 = m s2 then strcmp_bytes m (s1 + 1) (s2 + 1)
      else Some (uint (m s1) - uint (m s2)))"

definition strcmp :: "mem \<Rightarrow> addr \<Rightarrow> addr \<Rightarrow> int option" where
  "strcmp m s1 s2 =
     (case (if \<not> UNALIGNED2 s1 s2 then strcmp_words m s1 s2 else Some (Inr (s1, s2))) of
        None \<Rightarrow> None
      | Some (Inl r) \<Rightarrow> Some r
      | Some (Inr (s1, s2)) \<Rightarrow> strcmp_bytes m s1 s2)"

fun strncmp_words :: "mem \<Rightarrow> addr \<Rightarrow> addr \<Rightarrow> nat \<Rightarrow> int + addr \<times> addr \<times> nat" where
  "strncmp_words m a1 a2 n =
     (if n \<ge> 8 \<and> load64 m a1 = load64 m a2 then
        if n - 8 = 0 \<or> DETECTNULL (load64 m a1) \<noteq> 0 then Inl 0
        else strncmp_words m (a1 + 8) (a2 + 8) (n - 8)
      else Inr (a1, a2, n))"

fun strncmp_bytes :: "mem \<Rightarrow> addr \<Rightarrow> addr \<Rightarrow> nat \<Rightarrow> int" where
  "strncmp_bytes m s1 s2 0 = uint (m s1) - uint (m s2)"
| "strncmp_bytes m s1 s2 (Suc n) =
     (if m s1 = m s2 then
        if n = 0 \<or> m s1 = 0 then 0 else strncmp_bytes m (s1 + 1) (s2 + 1) n
      else uint (m s1) - uint (m s2))"

definition strncmp :: "mem \<Rightarrow> addr \<Rightarrow> addr \<Rightarrow> nat \<Rightarrow> int" where
  "strncmp m s1 s2 n =
     (if n = 0 then 0
      else case (if \<not> UNALIGNED2 s1 s2 then strncmp_words m s1 s2 n else Inr (s1, s2, n)) of
        Inl r \<Rightarrow> r
      | Inr (s1, s2, n) \<Rightarrow> strncmp_bytes m s1 s2 n)"

text \<open>
  The constant-time comparisons.  C's \<open>int\<close> arithmetic stays within 9 bits here,
  so the \<open>int\<close> variables are integers, with \<open>>>\<close> the arithmetic shift.
\<close>

fun timingsafe_bcmp_loop :: "mem \<Rightarrow> addr \<Rightarrow> addr \<Rightarrow> nat \<Rightarrow> int \<Rightarrow> int" where
  "timingsafe_bcmp_loop m p1 p2 0 ret = ret"
| "timingsafe_bcmp_loop m p1 p2 (Suc n) ret =
     timingsafe_bcmp_loop m (p1 + 1) (p2 + 1) n (ret OR (uint (m p1) XOR uint (m p2)))"

definition timingsafe_bcmp :: "mem \<Rightarrow> addr \<Rightarrow> addr \<Rightarrow> nat \<Rightarrow> int" where
  "timingsafe_bcmp m b1 b2 n = (if timingsafe_bcmp_loop m b1 b2 n 0 \<noteq> 0 then 1 else 0)"

fun timingsafe_memcmp_loop :: "mem \<Rightarrow> addr \<Rightarrow> addr \<Rightarrow> nat \<Rightarrow> int \<Rightarrow> int \<Rightarrow> int" where
  "timingsafe_memcmp_loop m p1 p2 0 res done' = res"
| "timingsafe_memcmp_loop m p1 p2 (Suc n) res done' =
     (let lt = drop_bit 8 (uint (m p1) - uint (m p2));
          gt = drop_bit 8 (uint (m p2) - uint (m p1));
          cmp = lt - gt
      in timingsafe_memcmp_loop m (p1 + 1) (p2 + 1) n (res OR (cmp AND NOT done')) (done' OR (lt OR gt)))"

definition timingsafe_memcmp :: "mem \<Rightarrow> addr \<Rightarrow> addr \<Rightarrow> nat \<Rightarrow> int" where
  "timingsafe_memcmp m b1 b2 len0 = timingsafe_memcmp_loop m b1 b2 len0 0 0"

section \<open>Sets of bytes\<close>

text \<open>\<open>for (c = s2; *c; c++) if (x == *c) break;\<close>: the address where the loop stops.\<close>

partial_function (option) span_scan :: "mem \<Rightarrow> byte \<Rightarrow> addr \<Rightarrow> addr option" where
  "span_scan m x c = (if m c \<noteq> 0 then if x = m c then Some c else span_scan m x (c + 1) else Some c)"

partial_function (option) strspn_loop :: "mem \<Rightarrow> addr \<Rightarrow> addr \<Rightarrow> addr option" where
  "strspn_loop m s1 s2 =
     (if m s1 \<noteq> 0 then
        (case span_scan m (m s1) s2 of
           None \<Rightarrow> None
         | Some c \<Rightarrow> if m c = 0 then Some s1 else strspn_loop m (s1 + 1) s2)
      else Some s1)"

definition strspn :: "mem \<Rightarrow> addr \<Rightarrow> addr \<Rightarrow> nat option" where
  "strspn m s1 s2 = map_option (\<lambda>e. e - s1) (strspn_loop m s1 s2)"

partial_function (option) strcspn_loop :: "mem \<Rightarrow> addr \<Rightarrow> addr \<Rightarrow> addr option" where
  "strcspn_loop m s1 s2 =
     (if m s1 \<noteq> 0 then
        (case span_scan m (m s1) s2 of
           None \<Rightarrow> None
         | Some c \<Rightarrow> if m c \<noteq> 0 then Some s1 else strcspn_loop m (s1 + 1) s2)
      else Some s1)"

definition strcspn :: "mem \<Rightarrow> addr \<Rightarrow> addr \<Rightarrow> nat option" where
  "strcspn m s1 s2 = map_option (\<lambda>e. e - s1) (strcspn_loop m s1 s2)"

definition strpbrk :: "mem \<Rightarrow> addr \<Rightarrow> addr \<Rightarrow> addr option" where
  "strpbrk m s1 s2 = map_option (\<lambda>e. if m e \<noteq> 0 then e else 0) (strcspn_loop m s1 s2)"

section \<open>Tokens\<close>

text \<open>
  \<open>__strtok_r\<close> keeps its place in the pointer \<open>*lasts\<close>.  The model takes \<open>*lasts\<close>
  and gives back the memory, the new \<open>*lasts\<close> and the token.  The first loop
  runs over leading delimiters: \<open>Inl\<close> when the function returns from it, \<open>Inr\<close>
  of the character and the pointer after it otherwise.
\<close>

partial_function (option) strtok_skip ::
  "mem \<Rightarrow> addr \<Rightarrow> addr \<Rightarrow> bool \<Rightarrow> ((mem \<times> addr \<times> addr) + byte \<times> addr) option" where
  "strtok_skip m s delim skip =
     (let c = m s; s = s + 1 in
      case span_scan m c delim of
        None \<Rightarrow> None
      | Some sp \<Rightarrow>
          if m sp \<noteq> 0 then
            if skip then strtok_skip m s delim skip
            else Some (Inl (m(s - 1 := 0), s, s - 1))
          else Some (Inr (c, s)))"

text \<open>\<open>do { if ((sc = *spanp++) == c) ... } while (sc != 0);\<close>: is \<open>c\<close> a delimiter or NUL?\<close>

partial_function (option) strtok_span :: "mem \<Rightarrow> byte \<Rightarrow> addr \<Rightarrow> bool option" where
  "strtok_span m c spanp =
     (let sc = m spanp in
      if sc = c then Some True else if sc \<noteq> 0 then strtok_span m c (spanp + 1) else Some False)"

partial_function (option) strtok_scan ::
  "mem \<Rightarrow> addr \<Rightarrow> addr \<Rightarrow> addr \<Rightarrow> (mem \<times> addr \<times> addr) option" where
  "strtok_scan m s delim tok =
     (let c = m s; s = s + 1 in
      case strtok_span m c delim of
        None \<Rightarrow> None
      | Some hit \<Rightarrow>
          if hit then (if c = 0 then Some (m, 0, tok) else Some (m(s - 1 := 0), s, tok))
          else strtok_scan m s delim tok)"

definition strtok_r_gen ::
  "mem \<Rightarrow> addr \<Rightarrow> addr \<Rightarrow> addr \<Rightarrow> bool \<Rightarrow> (mem \<times> addr \<times> addr) option" where
  "strtok_r_gen m s delim lasts skip =
     (let s = (if s = 0 then lasts else s) in
      if s = 0 then Some (m, lasts, 0)
      else case strtok_skip m s delim skip of
        None \<Rightarrow> None
      | Some (Inl r) \<Rightarrow> Some r
      | Some (Inr (c, s)) \<Rightarrow>
          if c = 0 then Some (m, 0, 0) else strtok_scan m s delim (s - 1))"

definition strtok_r :: "mem \<Rightarrow> addr \<Rightarrow> addr \<Rightarrow> addr \<Rightarrow> (mem \<times> addr \<times> addr) option" where
  "strtok_r m s delim lasts = strtok_r_gen m s delim lasts True"

definition strsep :: "mem \<Rightarrow> addr \<Rightarrow> addr \<Rightarrow> (mem \<times> addr \<times> addr) option" where
  "strsep m source_ptr delim = strtok_r_gen m source_ptr delim source_ptr False"

definition gnu_basename :: "mem \<Rightarrow> addr \<Rightarrow> addr option" where
  "gnu_basename m path = map_option (\<lambda>p. if p \<noteq> 0 then p + 1 else path) (strrchr m path 47)"

declare memcmp_words.simps [simp del] strncmp_words.simps [simp del]

section \<open>Comparison as a specification\<close>

text \<open>The difference of the first bytes where two strings differ, with NUL after the end.\<close>

fun str_diff :: "byte list \<Rightarrow> byte list \<Rightarrow> int" where
  "str_diff [] [] = 0"
| "str_diff (x # xs) [] = uint x"
| "str_diff [] (y # ys) = - uint y"
| "str_diff (x # xs) (y # ys) = (if x = y then str_diff xs ys else uint x - uint y)"

lemma uint_pos_iff: "0 < uint (x :: byte) \<longleftrightarrow> x \<noteq> 0"
  by (simp add: word_neq_0_conv word_less_def)

lemma str_diff_0: "0 \<notin> set xs \<Longrightarrow> 0 \<notin> set ys \<Longrightarrow> str_diff xs ys = 0 \<longleftrightarrow> xs = ys"
  by (induction xs ys rule: str_diff.induct) (auto simp: word_uint_eq_iff)

lemma str_diff_less: "0 \<notin> set xs \<Longrightarrow> 0 \<notin> set ys \<Longrightarrow> str_diff xs ys < 0 \<longleftrightarrow> ord_class.lexordp xs ys"
  by (induction xs ys rule: str_diff.induct) (auto simp: word_less_def uint_pos_iff word_uint_eq_iff)

lemma str_diff_swap: "str_diff ys xs = - str_diff xs ys"
  by (induction xs ys rule: str_diff.induct) auto

lemma str_diff_append: "str_diff (xs @ ys) (xs @ zs) = str_diff ys zs"
  by (induction xs) auto

section \<open>The comparing functions\<close>

lemma memcmp_bytes_skip:
  "k \<le> n \<Longrightarrow> bytes_of m p k = bytes_of m q k \<Longrightarrow> memcmp_bytes m p q n = memcmp_bytes m (p + k) (q + k) (n - k)"
proof (induction k arbitrary: p q n)
  case (Suc k)
  then obtain n' where "n = Suc n'" by (cases n) auto
  with Suc show ?case by (simp add: bytes_of_Suc)
qed simp

lemma memcmp_words_bytes:
  "memcmp_words m p q n = (p', q', n') \<Longrightarrow> memcmp_bytes m p' q' n' = memcmp_bytes m p q n"
proof (induction m p q n rule: memcmp_words.induct)
  case (1 m p q n)
  show ?case
  proof (cases "8 \<le> n \<and> load64 m p = load64 m q")
    case True
    then have "memcmp_bytes m p q n = memcmp_bytes m (p + 8) (q + 8) (n - 8)"
      by (intro memcmp_bytes_skip) (auto simp: load64_eq_iff)
    with True 1 show ?thesis by (simp add: memcmp_words.simps [of m p])
  next
    case False
    with 1 show ?thesis by (auto simp: memcmp_words.simps [of m p] split: if_splits)
  qed
qed

lemma memcmp_eq_bytes: "memcmp m p q n = memcmp_bytes m p q n"
  by (auto simp: memcmp_def memcmp_words_bytes split: prod.splits)

lemma memcmp_diff: "memcmp m p q n = str_diff (bytes_of m p n) (bytes_of m q n)"
proof -
  have "memcmp_bytes m p q n = str_diff (bytes_of m p n) (bytes_of m q n)"
    by (induction n arbitrary: p q) (auto simp: bytes_of_Suc)
  then show ?thesis by (simp add: memcmp_eq_bytes)
qed

lemma str_diff_0_eq_length: "length xs = length ys \<Longrightarrow> str_diff xs ys = 0 \<longleftrightarrow> xs = ys"
  by (induction xs ys rule: list_induct2) (auto simp: word_uint_eq_iff)

lemma strcmp_bytes_diff:
  "cstr m p xs \<Longrightarrow> cstr m q ys \<Longrightarrow> strcmp_bytes m p q = Some (str_diff xs ys)"
proof (induction xs ys arbitrary: p q rule: str_diff.induct)
  case (4 x xs y ys)
  then show ?case by (auto simp: strcmp_bytes.simps [of m p q])
qed (auto simp: strcmp_bytes.simps)

lemma cstr_8_eq:
  assumes "cstr m p xs" "cstr m q ys" "load64 m p = load64 m q" "DETECTNULL (load64 m p) = 0"
  shows "8 \<le> length xs" "8 \<le> length ys" "take 8 xs = take 8 ys"
proof -
  show l: "8 \<le> length xs" by (rule no_null_block [OF assms(1,4)])
  show l': "8 \<le> length ys" by (rule no_null_block [OF assms(2)]) (use assms in simp)
  have "bytes_of m p 8 = take 8 xs" "bytes_of m q 8 = take 8 ys"
    using assms(1,2) l l' by (auto simp: list_eq_iff_nth_eq cstr_iff_nth)
  then show "take 8 xs = take 8 ys" using assms(3) by (simp add: load64_eq_iff)
qed

lemma cstr_null_eq:
  assumes "cstr m p xs" "cstr m q ys" "load64 m p = load64 m q" "DETECTNULL (load64 m p) \<noteq> 0"
  shows "xs = ys"
proof -
  obtain i where i: "i < 8" "m (p + i) = 0" using assms(4) DETECTNULL_load64 by blast
  have l: "length xs \<le> i" by (rule cstr_zero_past [OF assms(1) i(2)])
  have eq: "j < 8 \<Longrightarrow> m (p + j) = m (q + j)" for j
    using assms(3) by (auto simp: load64_eq_iff list_eq_iff_nth_eq)
  have "cstr m q xs" unfolding cstr_iff_nth
  proof (intro conjI allI impI)
    show "m (q + length xs) = 0" using cstr_end [OF assms(1)] eq [of "length xs"] l i by simp
    fix j assume "j < length xs"
    then show "m (q + j) = xs ! j" "xs ! j \<noteq> 0"
      using assms(1) eq [of j] l i by (auto simp: cstr_iff_nth)
  qed
  then show ?thesis by (rule cstr_unique [OF _ assms(2)])
qed

lemma strcmp_words_diff:
  "cstr m p xs \<Longrightarrow> cstr m q ys \<Longrightarrow>
    strcmp_words m p q = Some (Inl 0) \<and> xs = ys \<or>
    (\<exists>k\<le>length xs. k \<le> length ys \<and> take k xs = take k ys \<and> strcmp_words m p q = Some (Inr (p + k, q + k)))"
proof (induction "length xs" arbitrary: p q xs ys rule: less_induct)
  case less
  consider (diff) "load64 m p \<noteq> load64 m q" | (null) "load64 m p = load64 m q" "DETECTNULL (load64 m p) \<noteq> 0"
    | (eq) "load64 m p = load64 m q" "DETECTNULL (load64 m p) = 0" by blast
  then show ?case
  proof cases
    case diff
    then show ?thesis by (auto simp: strcmp_words.simps [of m p q] intro!: exI [of _ 0])
  next
    case null
    then show ?thesis using cstr_null_eq [OF less.prems] by (simp add: strcmp_words.simps [of m p q])
  next
    case eq
    note l = cstr_8_eq [OF less.prems eq]
    have step: "strcmp_words m p q = strcmp_words m (p + 8) (q + 8)"
      using eq by (simp add: strcmp_words.simps [of m p q])
    have c: "cstr m (p + 8) (drop 8 xs)" "cstr m (q + 8) (drop 8 ys)"
      using cstr_drop less.prems l by blast+
    have cat: "xs = take 8 xs @ drop 8 xs" "ys = take 8 xs @ drop 8 ys" using l(3) by (metis append_take_drop_id)+
    have "length (drop 8 xs) < length xs" using l by simp
    from less.hyps [OF this c] show ?thesis
    proof
      assume "strcmp_words m (p + 8) (q + 8) = Some (Inl 0) \<and> drop 8 xs = drop 8 ys"
      with cat step show ?thesis by auto
    next
      assume "\<exists>k\<le>length (drop 8 xs). k \<le> length (drop 8 ys) \<and> take k (drop 8 xs) = take k (drop 8 ys)
          \<and> strcmp_words m (p + 8) (q + 8) = Some (Inr (p + 8 + k, q + 8 + k))"
      then obtain k where k: "k \<le> length (drop 8 xs)" "k \<le> length (drop 8 ys)"
          "take k (drop 8 xs) = take k (drop 8 ys)"
          "strcmp_words m (p + 8) (q + 8) = Some (Inr (p + 8 + k, q + 8 + k))" by blast
      have "take (8 + k) xs = take (8 + k) ys" using k l by (simp add: take_add)
      then show ?thesis using k l step
        by (intro disjI2 exI [of _ "8 + k"]) (auto simp: add.assoc)
    qed
  qed
qed

lemma str_diff_drop: "take k xs = take k ys \<Longrightarrow> str_diff (drop k xs) (drop k ys) = str_diff xs ys"
  using str_diff_append [of "take k xs" "drop k xs" "drop k ys"] by (metis append_take_drop_id)

lemma strcmp_diff:
  assumes "cstr m p xs" and "cstr m q ys"
  shows "strcmp m p q = Some (str_diff xs ys)"
  using strcmp_words_diff [OF assms]
proof
  assume "strcmp_words m p q = Some (Inl 0) \<and> xs = ys"
  moreover have "str_diff xs xs = 0" by (induction xs) auto
  ultimately show ?thesis using strcmp_bytes_diff [OF assms] by (simp add: strcmp_def)
next
  assume "\<exists>k\<le>length xs. k \<le> length ys \<and> take k xs = take k ys \<and> strcmp_words m p q = Some (Inr (p + k, q + k))"
  then obtain k where k: "k \<le> length xs" "k \<le> length ys" "take k xs = take k ys"
    "strcmp_words m p q = Some (Inr (p + k, q + k))" by blast
  have "strcmp_bytes m (p + k) (q + k) = Some (str_diff xs ys)"
    using strcmp_bytes_diff [OF cstr_drop [OF assms(1) k(1)] cstr_drop [OF assms(2) k(2)]]
      str_diff_drop [OF k(3)] by simp
  then show ?thesis using k(4) strcmp_bytes_diff [OF assms] by (simp add: strcmp_def)
qed

lemma strncmp_bytes_diff:
  "cstr m p xs \<Longrightarrow> cstr m q ys \<Longrightarrow> 0 < n \<Longrightarrow> strncmp_bytes m p q n = str_diff (take n xs) (take n ys)"
proof (induction n arbitrary: p q xs ys)
  case (Suc n)
  show ?case
  proof (cases xs; cases ys)
    fix x xs' y ys' assume xs: "xs = x # xs'" and ys: "ys = y # ys'"
    then have "n \<noteq> 0 \<Longrightarrow> strncmp_bytes m (p + 1) (q + 1) n = str_diff (take n xs') (take n ys')"
      using Suc by (intro Suc.IH) auto
    then show ?thesis using Suc.prems xs ys by auto
  qed (use Suc.prems in auto)
qed simp

lemma strncmp_words_diff:
  "cstr m p xs \<Longrightarrow> cstr m q ys \<Longrightarrow> 0 < n \<Longrightarrow>
    (case strncmp_words m p q n of
       Inl r \<Rightarrow> r = 0 \<and> take n xs = take n ys
     | Inr (p', q', n') \<Rightarrow> \<exists>k\<le>length xs. k \<le> length ys \<and> k < n \<and> take k xs = take k ys \<and>
         p' = p + k \<and> q' = q + k \<and> n' = n - k)"
proof (induction n arbitrary: p q xs ys rule: less_induct)
  case (less n)
  consider (diff) "\<not> (8 \<le> n \<and> load64 m p = load64 m q)"
    | (null) "8 \<le> n" "load64 m p = load64 m q" "DETECTNULL (load64 m p) \<noteq> 0"
    | (last8) "n = 8" "load64 m p = load64 m q" "DETECTNULL (load64 m p) = 0"
    | (eq) "8 < n" "load64 m p = load64 m q" "DETECTNULL (load64 m p) = 0" by linarith
  then show ?case
  proof cases
    case diff
    then have "strncmp_words m p q n = Inr (p, q, n)" by (auto simp: strncmp_words.simps [of m p q n])
    then show ?thesis using less.prems by (auto intro!: exI [of _ 0])
  next
    case null
    then show ?thesis using cstr_null_eq [OF less.prems(1,2)] by (simp add: strncmp_words.simps [of m p q])
  next
    case last8
    then show ?thesis using cstr_8_eq [OF less.prems(1,2)] by (simp add: strncmp_words.simps [of m p q])
  next
    case eq
    note l = cstr_8_eq [OF less.prems(1,2) eq(2,3)]
    have step: "strncmp_words m p q n = strncmp_words m (p + 8) (q + 8) (n - 8)"
      using eq by (simp add: strncmp_words.simps [of m p q])
    have c: "cstr m (p + 8) (drop 8 xs)" "cstr m (q + 8) (drop 8 ys)"
      using cstr_drop less.prems l by blast+
    have IH: "case strncmp_words m (p + 8) (q + 8) (n - 8) of
       Inl r \<Rightarrow> r = 0 \<and> take (n - 8) (drop 8 xs) = take (n - 8) (drop 8 ys)
     | Inr (p', q', n') \<Rightarrow> \<exists>k\<le>length (drop 8 xs). k \<le> length (drop 8 ys) \<and> k < n - 8 \<and>
         take k (drop 8 xs) = take k (drop 8 ys) \<and> p' = p + 8 + k \<and> q' = q + 8 + k \<and> n' = n - 8 - k"
      by (rule less.IH [OF _ c]) (use eq in auto)
    have tk: "take k (drop 8 xs) = take k (drop 8 ys) \<Longrightarrow> take (8 + k) xs = take (8 + k) ys" for k
      using l by (simp add: take_add)
    show ?thesis
    proof (cases "strncmp_words m (p + 8) (q + 8) (n - 8)")
      case (Inl r)
      then show ?thesis using IH tk [of "n - 8"] step eq by simp
    next
      case (Inr t)
      obtain p' q' n' where t: "t = (p', q', n')" by (cases t)
      then obtain k where "k\<le>length (drop 8 xs)" "k \<le> length (drop 8 ys)" "k < n - 8"
         "take k (drop 8 xs) = take k (drop 8 ys)" "p' = p + 8 + k" "q' = q + 8 + k" "n' = n - 8 - k"
        using IH Inr by auto
      then show ?thesis using step Inr t tk [of k] l eq by (auto intro!: exI [of _ "8 + k"])
    qed
  qed
qed

lemma strncmp_diff:
  assumes "cstr m p xs" and "cstr m q ys"
  shows "strncmp m p q n = str_diff (take n xs) (take n ys)"
proof (cases "n = 0")
  case False
  then have n: "0 < n" by simp
  have d0: "str_diff zs zs = 0" for zs by (induction zs) auto
  show ?thesis
  proof (cases "strncmp_words m p q n")
    case (Inl r)
    then show ?thesis
      using strncmp_words_diff [OF assms n] strncmp_bytes_diff [OF assms n] False d0
      by (auto simp: strncmp_def)
  next
    case (Inr t)
    obtain p' q' n' where t: "t = (p', q', n')" by (cases t)
    obtain k where k: "k\<le>length xs" "k \<le> length ys" "k < n"
         "take k xs = take k ys" "p' = p + k" "q' = q + k" "n' = n - k"
      using strncmp_words_diff [OF assms n] Inr t by auto
    have "strncmp_bytes m (p + k) (q + k) (n - k) = str_diff (take (n - k) (drop k xs)) (take (n - k) (drop k ys))"
      by (rule strncmp_bytes_diff [OF cstr_drop [OF assms(1) k(1)] cstr_drop [OF assms(2) k(2)]]) (use k in simp)
    also have "\<dots> = str_diff (drop k (take n xs)) (drop k (take n ys))" by (simp add: drop_take)
    also have "\<dots> = str_diff (take n xs) (take n ys)"
      by (rule str_diff_drop) (use k in \<open>simp add: min_def\<close>)
    finally show ?thesis using Inr t k False strncmp_bytes_diff [OF assms n] by (auto simp: strncmp_def)
  qed
qed (simp add: strncmp_def)


section \<open>Constant-time comparisons\<close>

lemma timingsafe_bcmp_loop_0:
  "timingsafe_bcmp_loop m p q n r = 0 \<longleftrightarrow> r = 0 \<and> bytes_of m p n = bytes_of m q n"
proof (induction n arbitrary: p q r)
  case (Suc n)
  have "uint x XOR uint y = 0 \<longleftrightarrow> x = y" for x y :: byte
    using xor_byte_eq_0 [of x y] by (simp add: unsigned_xor_eq [symmetric] word_uint_eq_iff)
  then show ?case using Suc by (auto simp: bytes_of_Suc or_eq_0_iff)
qed simp

lemma timingsafe_bcmp_eq:
  "timingsafe_bcmp m p q n = (if bytes_of m p n = bytes_of m q n then 0 else 1)"
  by (simp add: timingsafe_bcmp_def timingsafe_bcmp_loop_0)

lemma drop_bit_8_diff:
  assumes "0 \<le> a" "a < 256" "0 \<le> b" "b < (256 :: int)"
  shows "drop_bit 8 (a - b) = (if a < b then -1 else 0)"
  using assms by (auto simp: drop_bit_eq_div)

lemma uint_byte_less: "uint (x :: byte) < 256"
  using uint_lt2p [of x] by simp

lemma timingsafe_memcmp_loop_done: "timingsafe_memcmp_loop m p q n res (-1) = res"
proof (induction n arbitrary: p q)
  case (Suc n)
  then show ?case by (simp add: Let_def)
qed simp

lemma timingsafe_memcmp_loop_sgn:
  "timingsafe_memcmp_loop m p q n 0 0 = sgn (str_diff (bytes_of m p n) (bytes_of m q n))"
proof (induction n arbitrary: p q)
  case (Suc n)
  note d = drop_bit_8_diff [OF uint_ge_0 uint_byte_less uint_ge_0 uint_byte_less]
  consider "m p = m q" | "uint (m p) < uint (m q)" | "uint (m q) < uint (m p)"
    by (metis linorder_less_linear word_uint_eq_iff)
  then show ?case
    by cases (use Suc in \<open>auto simp: Let_def d bytes_of_Suc timingsafe_memcmp_loop_done\<close>)
qed simp

section \<open>Sets of bytes\<close>

lemma span_scan_cstr:
  "cstr m c ds \<Longrightarrow> x \<noteq> 0 \<Longrightarrow> \<exists>e. span_scan m x c = Some e \<and> (m e \<noteq> 0 \<longleftrightarrow> x \<in> set ds)"
proof (induction ds arbitrary: c)
  case Nil
  then show ?case by (simp add: span_scan.simps [of m x c])
next
  case (Cons d ds)
  then show ?case using Cons.IH [of "Suc c"] by (auto simp: span_scan.simps [of m x c])
qed

lemma strspn_loop_cstr:
  "cstr m p xs \<Longrightarrow> cstr m q ds \<Longrightarrow> strspn_loop m p q = Some (p + length (takeWhile (\<lambda>x. x \<in> set ds) xs))"
proof (induction xs arbitrary: p)
  case Nil
  then show ?case by (simp add: strspn_loop.simps [of m p q])
next
  case (Cons x xs)
  obtain e where "span_scan m x q = Some e" "m e \<noteq> 0 \<longleftrightarrow> x \<in> set ds"
    using span_scan_cstr [of m q ds x] Cons.prems by auto
  then show ?case using Cons by (auto simp: strspn_loop.simps [of m p q])
qed

lemma strspn_cstr:
  "cstr m p xs \<Longrightarrow> cstr m q ds \<Longrightarrow> strspn m p q = Some (length (takeWhile (\<lambda>x. x \<in> set ds) xs))"
  by (simp add: strspn_def strspn_loop_cstr)

lemma strcspn_loop_cstr:
  "cstr m p xs \<Longrightarrow> cstr m q ds \<Longrightarrow> strcspn_loop m p q = Some (p + length (takeWhile (\<lambda>x. x \<notin> set ds) xs))"
proof (induction xs arbitrary: p)
  case Nil
  then show ?case by (simp add: strcspn_loop.simps [of m p q])
next
  case (Cons x xs)
  obtain e where "span_scan m x q = Some e" "m e \<noteq> 0 \<longleftrightarrow> x \<in> set ds"
    using span_scan_cstr [of m q ds x] Cons.prems by auto
  then show ?case using Cons by (auto simp: strcspn_loop.simps [of m p q])
qed

lemma strcspn_cstr:
  "cstr m p xs \<Longrightarrow> cstr m q ds \<Longrightarrow> strcspn m p q = Some (length (takeWhile (\<lambda>x. x \<notin> set ds) xs))"
  by (simp add: strcspn_def strcspn_loop_cstr)

lemma takeWhile_hit:
  "cstr m p xs \<Longrightarrow> m (p + length (takeWhile P xs)) \<noteq> 0 \<longleftrightarrow> (\<exists>x\<in>set xs. \<not> P x)"
proof (induction xs arbitrary: p)
  case (Cons x xs)
  then show ?case using Cons.IH [of "Suc p"] by auto
qed simp

lemma strpbrk_cstr:
  assumes "cstr m p xs" "cstr m q ds"
  shows "strpbrk m p q = Some (if set xs \<inter> set ds = {} then 0
      else p + length (takeWhile (\<lambda>x. x \<notin> set ds) xs))"
  using takeWhile_hit [OF assms(1), of "\<lambda>x. x \<notin> set ds"]
  by (auto simp: strpbrk_def strcspn_loop_cstr [OF assms])

section \<open>Tokens\<close>

lemma strtok_span_cstr: "cstr m q ds \<Longrightarrow> strtok_span m c q = Some (c = 0 \<or> c \<in> set ds)"
proof (induction ds arbitrary: q)
  case Nil
  then show ?case by (auto simp: strtok_span.simps [of m c q])
next
  case (Cons d ds)
  then show ?case using Cons.IH [of "Suc q"] by (auto simp: strtok_span.simps [of m c q])
qed

lemma span_scan_0: "cstr m c ds \<Longrightarrow> \<exists>e. span_scan m 0 c = Some e \<and> m e = 0"
proof (induction ds arbitrary: c)
  case Nil
  then show ?case by (simp add: span_scan.simps [of m 0 c])
next
  case (Cons d ds)
  then show ?case using Cons.IH [of "Suc c"] by (auto simp: span_scan.simps [of m 0 c])
qed

lemma strtok_skip_cstr:
  "cstr m s xs \<Longrightarrow> cstr m q ds \<Longrightarrow>
    strtok_skip m s q True =
      (let k = length (takeWhile (\<lambda>x. x \<in> set ds) xs) in Some (Inr (m (s + k), s + k + 1)))"
proof (induction xs arbitrary: s)
  case Nil
  then show ?case using span_scan_0 [of m q ds] by (auto simp: strtok_skip.simps [of m s q True])
next
  case (Cons x xs)
  obtain e where "span_scan m x q = Some e" "m e \<noteq> 0 \<longleftrightarrow> x \<in> set ds"
    using span_scan_cstr [of m q ds x] Cons.prems by auto
  then show ?case using Cons.prems Cons.IH [of "Suc s"]
    by (auto simp: strtok_skip.simps [of m s q True] Let_def)
qed

lemma strtok_scan_cstr:
  "cstr m s xs \<Longrightarrow> cstr m q ds \<Longrightarrow>
    strtok_scan m s q tok =
      (let k = length (takeWhile (\<lambda>x. x \<notin> set ds) xs)
       in Some (if k = length xs then (m, 0, tok) else (m(s + k := 0), s + k + 1, tok)))"
proof (induction xs arbitrary: s)
  case Nil
  then show ?case using strtok_span_cstr [of m q ds 0] by (simp add: strtok_scan.simps [of m s q tok])
next
  case (Cons x xs)
  then have c: "cstr m (s + 1) xs" by simp
  from Cons show ?case using strtok_span_cstr [OF Cons.prems(2), of x] Cons.IH [OF c Cons.prems(2)]
    by (auto simp: strtok_scan.simps [of m s q tok] Let_def)
qed

lemma strtok_r_cstr:
  assumes "cstr m s xs" and "cstr m q ds" and "0 < s"
  shows "strtok_r m s q lasts =
     (let k = length (takeWhile (\<lambda>x. x \<in> set ds) xs);
          rest = drop k xs;
          n = length (takeWhile (\<lambda>x. x \<notin> set ds) rest)
      in Some (if rest = [] then (m, 0, 0)
               else if n = length rest then (m, 0, s + k)
               else (m(s + k + n := 0), s + k + n + 1, s + k)))"
proof -
  let ?k = "length (takeWhile (\<lambda>x. x \<in> set ds) xs)"
  have k: "?k \<le> length xs" by (rule length_takeWhile_le)
  note skip = strtok_skip_cstr [OF assms(1,2)]
  show ?thesis
  proof (cases "drop ?k xs")
    case Nil
    then have "?k = length xs" using k by simp
    then show ?thesis using skip cstr_end [OF assms(1)] assms(3)
      by (simp add: strtok_r_def strtok_r_gen_def Let_def)
  next
    case (Cons x ys)
    have c: "cstr m (s + ?k) (x # ys)" using cstr_drop [OF assms(1) k] Cons by simp
    have x: "x \<notin> set ds"
      using Cons by (metis dropWhile_eq_drop hd_dropWhile list.distinct(1) list.sel(1))
    note scan = strtok_scan_cstr [of m "s + ?k + 1" ys q ds "s + ?k"]
    have "\<not> length xs \<le> ?k" using Cons by (metis drop_eq_Nil list.distinct(1))
    then show ?thesis using skip c scan assms x Cons
      by (simp add: strtok_r_def strtok_r_gen_def Let_def)
  qed
qed

section \<open>Properties\<close>

text \<open>
  C21: \<open>strcmp\<close> returns on every pair of strings; the sign of its result is the
  lexicographic order of the strings as unsigned bytes, and it is 0 exactly
  for equal strings.
\<close>

theorem strcmp_lexicographic:
  assumes "cstr m p xs" and "cstr m q ys"
  shows "\<exists>r. strcmp m p q = Some r \<and> (r = 0 \<longleftrightarrow> xs = ys) \<and>
    (r < 0 \<longleftrightarrow> ord_class.lexordp xs ys) \<and> (0 < r \<longleftrightarrow> ord_class.lexordp ys xs)"
proof -
  have z: "0 \<notin> set xs" "0 \<notin> set ys" using cstr_set assms by auto
  show ?thesis
    using strcmp_diff [OF assms] str_diff_0 z str_diff_less [OF z] str_diff_less [OF z(2,1)]
      str_diff_swap [of ys xs] by auto
qed

theorem strcmp_lexicographic_witness:
  "\<exists>r. strcmp (wr (text_mem 8 [1, 2, 3]) 24 [1, 200, 0]) 8 24 = Some r \<and> r < 0"
  using strcmp_lexicographic [of "wr (text_mem 8 [1, 2, 3]) 24 [1, 200, 0]" 8 "[1, 2, 3]" 24 "[1, 200]"]
  by (auto simp: text_mem_def)

text \<open>
  \<open>strncmp\<close> compares the first \<open>n\<close> bytes as \<open>strcmp\<close> compares strings, and \<open>memcmp\<close>
  is 0 exactly for equal blocks; \<open>timingsafe_bcmp\<close> agrees with it.
\<close>

theorem strncmp_memcmp_correct:
  assumes "cstr m p xs" and "cstr m q ys"
  shows "(strncmp m p q n = 0 \<longleftrightarrow> take n xs = take n ys) \<and>
    (strncmp m p q n < 0 \<longleftrightarrow> ord_class.lexordp (take n xs) (take n ys)) \<and>
    (memcmp m p q n = 0 \<longleftrightarrow> bytes_of m p n = bytes_of m q n) \<and>
    (timingsafe_bcmp m p q n = 0 \<longleftrightarrow> memcmp m p q n = 0)"
proof -
  have z: "0 \<notin> set (take n xs)" "0 \<notin> set (take n ys)"
    using cstr_set assms by (auto dest: in_set_takeD)
  show ?thesis
    using strncmp_diff [OF assms] str_diff_0 [OF z] str_diff_less [OF z] str_diff_0_eq_length
    by (auto simp: memcmp_diff timingsafe_bcmp_eq)
qed

theorem strncmp_memcmp_correct_witness:
  "strncmp (wr (text_mem 8 [1, 2, 3]) 24 [1, 2, 0]) 8 24 2 = 0"
proof -
  let ?m = "wr (text_mem 8 [1, 2, 3]) 24 [1, 2, 0]"
  have "cstr ?m 8 [1, 2, 3]" and "cstr ?m 24 [1, 2]" by (simp_all add: text_mem_def)
  then show ?thesis using strncmp_memcmp_correct [of ?m 8 "[1, 2, 3]" 24 "[1, 2]" 2]
    by (simp del: wr.simps)
qed

text \<open>
  \<open>strspn\<close> and \<open>strcspn\<close> return the length of the longest prefix of characters in,
  and not in, the set; \<open>strpbrk\<close> returns the first character in the set.
\<close>

theorem strspn_family_correct:
  assumes "cstr m p xs" and "cstr m q ds"
  shows "strspn m p q = Some (length (takeWhile (\<lambda>x. x \<in> set ds) xs)) \<and>
    strcspn m p q = Some (length (takeWhile (\<lambda>x. x \<notin> set ds) xs)) \<and>
    strpbrk m p q = Some (if set xs \<inter> set ds = {} then 0
      else p + length (takeWhile (\<lambda>x. x \<notin> set ds) xs))"
  using strspn_cstr [OF assms] strcspn_cstr [OF assms] strpbrk_cstr [OF assms] by simp

theorem strspn_family_correct_witness:
  "strspn (wr (text_mem 8 [1, 2, 3]) 24 [2, 1, 0]) 8 24 = Some 2 \<and>
   strcspn (wr (text_mem 8 [1, 2, 3]) 24 [2, 1, 0]) 8 24 = Some 0"
  using strspn_family_correct [of "wr (text_mem 8 [1, 2, 3]) 24 [2, 1, 0]" 8 "[1, 2, 3]" 24 "[2, 1]"]
  by (simp add: text_mem_def)

text \<open>
  \<open>strtok_r\<close> on a fresh string returns the first token: the delimiters
  before it are skipped, the delimiter after it is overwritten with NUL and the
  saved position is the character after that delimiter; when the token ends
  the string the saved position is NULL, and when there is no token so is the
  result.
\<close>

theorem strtok_r_first_token:
  assumes "cstr m s xs" and "cstr m q ds" and "0 < s"
    and "xs = pre @ tok @ post" and "set pre \<subseteq> set ds" and "set tok \<inter> set ds = {}" and "tok \<noteq> []"
    and "post = [] \<or> hd post \<in> set ds"
  defines "t \<equiv> s + length pre"
  shows "strtok_r m s q lasts =
    Some (if post = [] then (m, 0, t) else (m(t + length tok := 0), t + length tok + 1, t))"
proof -
  have k: "takeWhile (\<lambda>x. x \<in> set ds) xs = pre"
    using assms(4-7) by (cases tok) (auto simp: takeWhile_append2 takeWhile_tail)
  have "takeWhile (\<lambda>x. x \<notin> set ds) (tok @ post) = tok"
    using assms(6,8) by (cases post) (auto simp: takeWhile_append2 disjoint_iff)
  then show ?thesis using strtok_r_cstr [OF assms(1-3), of lasts] assms(7) unfolding k
    by (auto simp: assms(4) t_def Let_def)
qed

theorem strtok_r_first_token_witness:
  "strtok_r (wr (text_mem 8 [44, 97, 98, 44, 99]) 24 [44, 0]) 8 24 0 =
     Some ((wr (text_mem 8 [44, 97, 98, 44, 99]) 24 [44, 0])(11 := 0), 12, 9)"
proof -
  define M where "M = wr (text_mem 8 [44, 97, 98, 44, 99]) 24 [44, 0]"
  have c: "cstr M 8 [44, 97, 98, 44, 99]" "cstr M 24 [44]" by (simp_all add: M_def text_mem_def)
  show ?thesis
    using strtok_r_first_token [OF c, of "[44]" "[97, 98]" "[44, 99]" 0]
    unfolding M_def [symmetric] by simp
qed

end
