(* ===== verification/Newlib_Ctype.thy ===== *)
theory Newlib_Ctype
  imports Ficus_Base
begin

text \<open>
  Character classification (\<open>libc/ctype\<close>): the table of class flags of
  \<open>ctype_.c\<close> and the functions that look a character up in it.  The table has
  one entry for \<open>EOF\<close> (-1) and one for each \<open>unsigned char\<close>; the C standard
  leaves every other argument undefined (it reads outside the table), which is
  the value \<open>None\<close> here.
\<close>

unbundle bit_operations_syntax

section \<open>The table\<close>

definition CT_U :: byte where "CT_U = 0x01"
definition CT_L :: byte where "CT_L = 0x02"
definition CT_N :: byte where "CT_N = 0x04"
definition CT_S :: byte where "CT_S = 0x08"
definition CT_P :: byte where "CT_P = 0x10"
definition CT_C :: byte where "CT_C = 0x20"
definition CT_X :: byte where "CT_X = 0x40"
definition CT_B :: byte where "CT_B = 0x80"

definition CTYPE_DATA_0_127 :: "byte list" where
  "CTYPE_DATA_0_127 =
    [CT_C, CT_C, CT_C, CT_C, CT_C, CT_C, CT_C, CT_C,
     CT_C, CT_C OR CT_S, CT_C OR CT_S, CT_C OR CT_S, CT_C OR CT_S, CT_C OR CT_S, CT_C, CT_C,
     CT_C, CT_C, CT_C, CT_C, CT_C, CT_C, CT_C, CT_C,
     CT_C, CT_C, CT_C, CT_C, CT_C, CT_C, CT_C, CT_C,
     CT_S OR CT_B, CT_P, CT_P, CT_P, CT_P, CT_P, CT_P, CT_P,
     CT_P, CT_P, CT_P, CT_P, CT_P, CT_P, CT_P, CT_P,
     CT_N, CT_N, CT_N, CT_N, CT_N, CT_N, CT_N, CT_N,
     CT_N, CT_N, CT_P, CT_P, CT_P, CT_P, CT_P, CT_P,
     CT_P, CT_U OR CT_X, CT_U OR CT_X, CT_U OR CT_X, CT_U OR CT_X, CT_U OR CT_X, CT_U OR CT_X, CT_U,
     CT_U, CT_U, CT_U, CT_U, CT_U, CT_U, CT_U, CT_U,
     CT_U, CT_U, CT_U, CT_U, CT_U, CT_U, CT_U, CT_U,
     CT_U, CT_U, CT_U, CT_P, CT_P, CT_P, CT_P, CT_P,
     CT_P, CT_L OR CT_X, CT_L OR CT_X, CT_L OR CT_X, CT_L OR CT_X, CT_L OR CT_X, CT_L OR CT_X, CT_L,
     CT_L, CT_L, CT_L, CT_L, CT_L, CT_L, CT_L, CT_L,
     CT_L, CT_L, CT_L, CT_L, CT_L, CT_L, CT_L, CT_L,
     CT_L, CT_L, CT_L, CT_P, CT_P, CT_P, CT_P, CT_C]"

definition CTYPE_DATA_128_255 :: "byte list" where
  "CTYPE_DATA_128_255 = replicate 128 0"

definition ctype_tab :: "byte list" where
  "ctype_tab = 0 # CTYPE_DATA_0_127 @ CTYPE_DATA_128_255"

definition ctype_lookup :: "int \<Rightarrow> byte option" where
  "ctype_lookup c = (if -1 \<le> c \<and> c \<le> 255 then Some (ctype_tab ! nat (c + 1)) else None)"

section \<open>The functions\<close>

definition isalnum :: "int \<Rightarrow> byte option" where
  "isalnum c = map_option (\<lambda>f. f AND (CT_U OR CT_L OR CT_N)) (ctype_lookup c)"

definition isalpha :: "int \<Rightarrow> byte option" where
  "isalpha c = map_option (\<lambda>f. f AND (CT_U OR CT_L)) (ctype_lookup c)"

definition isblank :: "int \<Rightarrow> byte option" where
  "isblank c = map_option (\<lambda>f. if f AND CT_B \<noteq> 0 \<or> c = 9 then 1 else 0) (ctype_lookup c)"

definition iscntrl :: "int \<Rightarrow> byte option" where
  "iscntrl c = map_option (\<lambda>f. f AND CT_C) (ctype_lookup c)"

definition isdigit :: "int \<Rightarrow> byte option" where
  "isdigit c = map_option (\<lambda>f. f AND CT_N) (ctype_lookup c)"

definition isgraph :: "int \<Rightarrow> byte option" where
  "isgraph c = map_option (\<lambda>f. f AND (CT_P OR CT_U OR CT_L OR CT_N)) (ctype_lookup c)"

definition islower :: "int \<Rightarrow> byte option" where
  "islower c = map_option (\<lambda>f. if f AND (CT_U OR CT_L) = CT_L then 1 else 0) (ctype_lookup c)"

definition isprint :: "int \<Rightarrow> byte option" where
  "isprint c = map_option (\<lambda>f. f AND (CT_P OR CT_U OR CT_L OR CT_N OR CT_B)) (ctype_lookup c)"

definition ispunct :: "int \<Rightarrow> byte option" where
  "ispunct c = map_option (\<lambda>f. f AND CT_P) (ctype_lookup c)"

definition isspace :: "int \<Rightarrow> byte option" where
  "isspace c = map_option (\<lambda>f. f AND CT_S) (ctype_lookup c)"

definition isupper :: "int \<Rightarrow> byte option" where
  "isupper c = map_option (\<lambda>f. if f AND (CT_U OR CT_L) = CT_U then 1 else 0) (ctype_lookup c)"

definition isxdigit :: "int \<Rightarrow> byte option" where
  "isxdigit c = map_option (\<lambda>f. f AND (CT_X OR CT_N)) (ctype_lookup c)"

definition isascii :: "int \<Rightarrow> bool" where
  "isascii c \<longleftrightarrow> 0 \<le> c \<and> c < 128"

definition toascii :: "int \<Rightarrow> int" where
  "toascii c = c AND 127"

definition tolower :: "int \<Rightarrow> int option" where
  "tolower c = map_option (\<lambda>u. if u \<noteq> 0 then c - 65 + 97 else c) (isupper c)"

definition toupper :: "int \<Rightarrow> int option" where
  "toupper c = map_option (\<lambda>l. if l \<noteq> 0 then c - 97 + 65 else c) (islower c)"

lemmas ctype_defs = isalnum_def isalpha_def isblank_def iscntrl_def isdigit_def isgraph_def
  islower_def isprint_def ispunct_def isspace_def isupper_def isxdigit_def

section \<open>The classes\<close>

text \<open>
  The classes as ranges of ASCII codes.  The table is checked entry by entry
  against them, once for all the functions.
\<close>

definition spec_upper :: "int \<Rightarrow> bool" where "spec_upper c \<longleftrightarrow> 65 \<le> c \<and> c \<le> 90"
definition spec_lower :: "int \<Rightarrow> bool" where "spec_lower c \<longleftrightarrow> 97 \<le> c \<and> c \<le> 122"
definition spec_digit :: "int \<Rightarrow> bool" where "spec_digit c \<longleftrightarrow> 48 \<le> c \<and> c \<le> 57"
definition spec_space :: "int \<Rightarrow> bool" where "spec_space c \<longleftrightarrow> 9 \<le> c \<and> c \<le> 13 \<or> c = 32"
definition spec_cntrl :: "int \<Rightarrow> bool" where "spec_cntrl c \<longleftrightarrow> 0 \<le> c \<and> c \<le> 31 \<or> c = 127"
definition spec_hex :: "int \<Rightarrow> bool" where
  "spec_hex c \<longleftrightarrow> 65 \<le> c \<and> c \<le> 70 \<or> 97 \<le> c \<and> c \<le> 102"
definition spec_punct :: "int \<Rightarrow> bool" where
  "spec_punct c \<longleftrightarrow> 33 \<le> c \<and> c \<le> 126 \<and> \<not> spec_upper c \<and> \<not> spec_lower c \<and> \<not> spec_digit c"

lemmas spec_defs = spec_upper_def spec_lower_def spec_digit_def spec_space_def spec_cntrl_def
  spec_hex_def spec_punct_def

definition entry_ok :: "int \<Rightarrow> byte \<Rightarrow> bool" where
  "entry_ok c f \<longleftrightarrow>
     (bit f 0 \<longleftrightarrow> spec_upper c) \<and> (bit f 1 \<longleftrightarrow> spec_lower c) \<and> (bit f 2 \<longleftrightarrow> spec_digit c) \<and>
     (bit f 3 \<longleftrightarrow> spec_space c) \<and> (bit f 4 \<longleftrightarrow> spec_punct c) \<and> (bit f 5 \<longleftrightarrow> spec_cntrl c) \<and>
     (bit f 6 \<longleftrightarrow> spec_hex c) \<and> (bit f 7 \<longleftrightarrow> c = 32)"

fun table_ok :: "int \<Rightarrow> byte list \<Rightarrow> bool" where
  "table_ok c [] = True"
| "table_ok c (f # fs) = (entry_ok c f \<and> table_ok (c + 1) fs)"

lemma table_ok_append: "table_ok c (xs @ ys) = (table_ok c xs \<and> table_ok (c + int (length xs)) ys)"
  by (induction xs arbitrary: c) (auto simp: algebra_simps)

lemma table_ok_nth: "table_ok c fs \<Longrightarrow> i < length fs \<Longrightarrow> entry_ok (c + int i) (fs ! i)"
proof (induction fs arbitrary: c i)
  case (Cons f fs)
  then show ?case by (cases i) (auto simp: add.assoc dest: Cons.IH)
qed simp

lemma table_ok_zeros: "128 \<le> c \<Longrightarrow> table_ok c (replicate n 0)"
  by (induction n arbitrary: c) (auto simp: entry_ok_def spec_defs)

lemmas CT_defs = CT_U_def CT_L_def CT_N_def CT_S_def CT_P_def CT_C_def CT_X_def CT_B_def

lemma table_ok_low: "table_ok 0 CTYPE_DATA_0_127"
  by (simp add: CTYPE_DATA_0_127_def CT_defs entry_ok_def spec_defs)

lemma length_low: "length CTYPE_DATA_0_127 = 128"
  by (simp add: CTYPE_DATA_0_127_def)

lemma table_ok_tab: "table_ok (-1) ctype_tab"
  by (simp add: ctype_tab_def CTYPE_DATA_128_255_def table_ok_append table_ok_low table_ok_zeros
      length_low entry_ok_def spec_defs)

lemma length_tab: "length ctype_tab = 257"
  by (simp add: ctype_tab_def CTYPE_DATA_128_255_def length_low)

lemma ctype_lookup_ok:
  assumes "ctype_lookup c = Some f"
  shows "entry_ok c f"
  using table_ok_nth [OF table_ok_tab, of "nat (c + 1)"] assms
  by (auto simp: ctype_lookup_def length_tab split: if_splits)

lemma CT_exp:
  "CT_U = 2 ^ 0" "CT_L = 2 ^ 1" "CT_N = 2 ^ 2" "CT_S = 2 ^ 3"
  "CT_P = 2 ^ 4" "CT_C = 2 ^ 5" "CT_X = 2 ^ 6" "CT_B = 2 ^ 7"
  by (simp_all add: CT_defs)

lemma and_or_eq_0: "f AND (a OR b) = 0 \<longleftrightarrow> f AND a = 0 \<and> f AND (b :: byte) = 0"
  by (simp add: bit.conj_disj_distrib or_eq_0_iff)

lemma and_exp_byte: "f AND 2 ^ k = (if bit f k then 2 ^ k else (0 :: byte))"
  by (rule bit_eqI) (auto simp only: bit_and_iff bit_exp_iff bit_0_eq bot_apply bot_bool_def split: if_splits)

lemma flag_lower: "f AND (CT_U OR CT_L) = CT_L \<longleftrightarrow> bit f 1 \<and> \<not> bit f 0"
  unfolding bit.conj_disj_distrib CT_exp and_exp_byte by simp

lemma flag_upper: "f AND (CT_U OR CT_L) = CT_U \<longleftrightarrow> bit f 0 \<and> \<not> bit f 1"
  unfolding bit.conj_disj_distrib CT_exp and_exp_byte by simp

lemma flag_bits:
  "f AND CT_U = 0 \<longleftrightarrow> \<not> bit f 0" "f AND CT_L = 0 \<longleftrightarrow> \<not> bit f 1" "f AND CT_N = 0 \<longleftrightarrow> \<not> bit f 2"
  "f AND CT_S = 0 \<longleftrightarrow> \<not> bit f 3" "f AND CT_P = 0 \<longleftrightarrow> \<not> bit f 4" "f AND CT_C = 0 \<longleftrightarrow> \<not> bit f 5"
  "f AND CT_X = 0 \<longleftrightarrow> \<not> bit f 6" "f AND CT_B = 0 \<longleftrightarrow> \<not> bit f 7"
  unfolding CT_exp and_exp_eq_0_iff_not_bit by auto

lemmas flag_simps = and_or_eq_0 flag_bits flag_upper flag_lower

definition in_class :: "(int \<Rightarrow> byte option) \<Rightarrow> int \<Rightarrow> bool" where
  "in_class is c \<longleftrightarrow> (\<exists>v. is c = Some v \<and> v \<noteq> 0)"

lemma ctype_range:
  assumes "-1 \<le> c" "c \<le> 255"
  obtains f where "ctype_lookup c = Some f" "entry_ok c f"
  using assms ctype_lookup_ok [of c] by (auto simp: ctype_lookup_def)

lemma ctype_classes_all:
  assumes "-1 \<le> c" "c \<le> 255"
  shows "in_class isupper c \<longleftrightarrow> spec_upper c"
    and "in_class islower c \<longleftrightarrow> spec_lower c"
    and "in_class isalpha c \<longleftrightarrow> spec_upper c \<or> spec_lower c"
    and "in_class isdigit c \<longleftrightarrow> spec_digit c"
    and "in_class isxdigit c \<longleftrightarrow> spec_digit c \<or> spec_hex c"
    and "in_class isalnum c \<longleftrightarrow> spec_upper c \<or> spec_lower c \<or> spec_digit c"
    and "in_class isspace c \<longleftrightarrow> spec_space c"
    and "in_class isblank c \<longleftrightarrow> c = 32 \<or> c = 9"
    and "in_class iscntrl c \<longleftrightarrow> spec_cntrl c"
    and "in_class ispunct c \<longleftrightarrow> spec_punct c"
    and "in_class isgraph c \<longleftrightarrow> 33 \<le> c \<and> c \<le> 126"
    and "in_class isprint c \<longleftrightarrow> 32 \<le> c \<and> c \<le> 126"
proof -
  obtain f where f: "ctype_lookup c = Some f" "entry_ok c f" by (rule ctype_range [OF assms])
  note e = f(2) [unfolded entry_ok_def]
  show "in_class isupper c \<longleftrightarrow> spec_upper c" "in_class islower c \<longleftrightarrow> spec_lower c"
    using e by (auto simp: in_class_def isupper_def islower_def f flag_simps spec_defs)
  show "in_class isalpha c \<longleftrightarrow> spec_upper c \<or> spec_lower c"
    using e by (auto simp: in_class_def isalpha_def f flag_simps)
  show "in_class isdigit c \<longleftrightarrow> spec_digit c"
    using e by (auto simp: in_class_def isdigit_def f flag_simps)
  show "in_class isxdigit c \<longleftrightarrow> spec_digit c \<or> spec_hex c"
    using e by (auto simp: in_class_def isxdigit_def f flag_simps)
  show "in_class isalnum c \<longleftrightarrow> spec_upper c \<or> spec_lower c \<or> spec_digit c"
    using e by (auto simp: in_class_def isalnum_def f flag_simps)
  show "in_class isspace c \<longleftrightarrow> spec_space c"
    using e by (auto simp: in_class_def isspace_def f flag_simps)
  show "in_class isblank c \<longleftrightarrow> c = 32 \<or> c = 9"
    using e by (auto simp: in_class_def isblank_def f flag_simps)
  show "in_class iscntrl c \<longleftrightarrow> spec_cntrl c"
    using e by (auto simp: in_class_def iscntrl_def f flag_simps)
  show "in_class ispunct c \<longleftrightarrow> spec_punct c"
    using e by (auto simp: in_class_def ispunct_def f flag_simps)
  have g: "spec_punct c \<or> spec_upper c \<or> spec_lower c \<or> spec_digit c \<longleftrightarrow> 33 \<le> c \<and> c \<le> 126"
    by (auto simp: spec_defs)
  have "in_class isgraph c \<longleftrightarrow> spec_punct c \<or> spec_upper c \<or> spec_lower c \<or> spec_digit c"
    using e by (auto simp: in_class_def isgraph_def f flag_simps)
  then show "in_class isgraph c \<longleftrightarrow> 33 \<le> c \<and> c \<le> 126" using g by blast
  have "in_class isprint c \<longleftrightarrow> (spec_punct c \<or> spec_upper c \<or> spec_lower c \<or> spec_digit c) \<or> c = 32"
    using e by (auto simp: in_class_def isprint_def f flag_simps)
  then show "in_class isprint c \<longleftrightarrow> 32 \<le> c \<and> c \<le> 126" unfolding g by auto
qed

lemma tolower_eq:
  assumes "-1 \<le> c" "c \<le> 255"
  shows "tolower c = Some (if spec_upper c then c + 32 else c)"
  by (rule ctype_range [OF assms])
    (auto simp: tolower_def isupper_def flag_upper entry_ok_def spec_defs)

lemma toupper_eq:
  assumes "-1 \<le> c" "c \<le> 255"
  shows "toupper c = Some (if spec_lower c then c - 32 else c)"
  by (rule ctype_range [OF assms])
    (auto simp: toupper_def islower_def flag_lower entry_ok_def spec_defs)

section \<open>Properties\<close>

text \<open>
  C22: for \<open>EOF\<close> and every \<open>unsigned char\<close> the twelve classes are exactly the sets of codes of the C
  locale, and \<open>tolower\<close> and \<open>toupper\<close> map \<open>A\<close> to \<open>Z\<close> and \<open>a\<close> to \<open>z\<close> onto each other and leave all other
  arguments as they are.
\<close>

theorem ctype_correct:
  assumes "-1 \<le> c" and "c \<le> 255"
  shows "(in_class isupper c \<longleftrightarrow> 65 \<le> c \<and> c \<le> 90) \<and>
    (in_class islower c \<longleftrightarrow> 97 \<le> c \<and> c \<le> 122) \<and>
    (in_class isalpha c \<longleftrightarrow> 65 \<le> c \<and> c \<le> 90 \<or> 97 \<le> c \<and> c \<le> 122) \<and>
    (in_class isdigit c \<longleftrightarrow> 48 \<le> c \<and> c \<le> 57) \<and>
    (in_class isxdigit c \<longleftrightarrow> 48 \<le> c \<and> c \<le> 57 \<or> 65 \<le> c \<and> c \<le> 70 \<or> 97 \<le> c \<and> c \<le> 102) \<and>
    (in_class isalnum c \<longleftrightarrow> 48 \<le> c \<and> c \<le> 57 \<or> 65 \<le> c \<and> c \<le> 90 \<or> 97 \<le> c \<and> c \<le> 122) \<and>
    (in_class isspace c \<longleftrightarrow> 9 \<le> c \<and> c \<le> 13 \<or> c = 32) \<and>
    (in_class isblank c \<longleftrightarrow> c = 9 \<or> c = 32) \<and>
    (in_class iscntrl c \<longleftrightarrow> 0 \<le> c \<and> c \<le> 31 \<or> c = 127) \<and>
    (in_class ispunct c \<longleftrightarrow> 33 \<le> c \<and> c \<le> 47 \<or> 58 \<le> c \<and> c \<le> 64 \<or> 91 \<le> c \<and> c \<le> 96 \<or> 123 \<le> c \<and> c \<le> 126) \<and>
    (in_class isgraph c \<longleftrightarrow> 33 \<le> c \<and> c \<le> 126) \<and>
    (in_class isprint c \<longleftrightarrow> 32 \<le> c \<and> c \<le> 126) \<and>
    tolower c = Some (if 65 \<le> c \<and> c \<le> 90 then c + 32 else c) \<and>
    toupper c = Some (if 97 \<le> c \<and> c \<le> 122 then c - 32 else c)"
  unfolding ctype_classes_all [OF assms] tolower_eq [OF assms] toupper_eq [OF assms] spec_defs
  by (intro conjI) arith+

theorem ctype_correct_witness:
  "in_class islower 97 \<and> \<not> in_class isupper 97 \<and> \<not> in_class ispunct 56 \<and> tolower 97 = Some 97 \<and> toupper 97 = Some 65"
  using ctype_correct [of 97] ctype_correct [of 56] by simp

end
