(* ===== verification/Newlib_Strto.thy ===== *)
theory Newlib_Strto
  imports Newlib_Ctype "HOL-Library.Monad_Syntax"
begin

text \<open>
  Conversion between strings and integers: the \<open>strtol\<close> family of
  \<open>libc/stdlib\<close> (twelve functions that share one algorithm and differ in the
  character type, the signedness of the result and the handling of a bad
  base), the \<open>ato*\<close> functions on top of it, and \<open>utoa\<close>/\<open>itoa\<close>, its inverse.

  \<open>long\<close>, \<open>long long\<close> and \<open>intmax_t\<close> are 64 bits, \<open>int\<close> and \<open>wchar_t\<close> 32
  bits and plain \<open>char\<close> is signed.  The library is configured without
  \<open>_MB_CAPABLE\<close> and runs in the C locale.  The loops that scan a string have
  no bound of their own and are partial functions into \<open>option\<close>.
\<close>

unbundle bit_operations_syntax

section \<open>The reentrancy structure and the character types\<close>

text \<open>The part of \<open>struct _reent\<close> that is written (\<open>errno\<close>), with the memory.\<close>

record reent =
  rmem :: mem
  rerrno :: int

definition EINVAL :: int where "EINVAL = 22"
definition ERANGE :: int where "ERANGE = 34"

definition LONG_MAX :: "64 word" where "LONG_MAX = 0x7FFFFFFFFFFFFFFF"
definition LONG_MIN :: "64 word" where "LONG_MIN = 0x8000000000000000"
definition ULONG_MAX :: "64 word" where "ULONG_MAX = 0xFFFFFFFFFFFFFFFF"

text \<open>
  Reading a character of each type, as the \<open>int\<close> value \<open>c\<close> of the code: an
  \<open>unsigned char\<close>, a plain \<open>char\<close> and a \<open>wchar_t\<close>.
\<close>

definition load32 :: "mem \<Rightarrow> addr \<Rightarrow> 32 word" where
  "load32 m p = word_of_nat (le_val (bytes_of m p 4))"

definition rd_uchar :: "mem \<Rightarrow> addr \<Rightarrow> int" where "rd_uchar m p = uint (m p)"
definition rd_char :: "mem \<Rightarrow> addr \<Rightarrow> int" where "rd_char m p = sint (m p)"
definition rd_wchar :: "mem \<Rightarrow> addr \<Rightarrow> int" where "rd_wchar m p = sint (load32 m p)"

definition iswspace :: "int \<Rightarrow> byte option" where
  "iswspace c = (let u = uint (word_of_int c :: 32 word) in if u < 0x100 then isspace u else Some 0)"

section \<open>The shared algorithm\<close>

text \<open>
  \<open>sp\<close> is the white-space test, \<open>rd\<close> reads a character and \<open>w\<close> is the size of
  one: \<open>c = *s++\<close> is \<open>c = rd s\<close> followed by \<open>s := s + w\<close>.
\<close>

partial_function (option) skip_space ::
  "(int \<Rightarrow> byte option) \<Rightarrow> (addr \<Rightarrow> int) \<Rightarrow> nat \<Rightarrow> addr \<Rightarrow> (int \<times> addr) option" where
  "skip_space sp rd w s =
     Option.bind (sp (rd s)) (\<lambda>f. if f \<noteq> 0 then skip_space sp rd w (s + w) else Some (rd s, s + w))"

definition pick_sign :: "(addr \<Rightarrow> int) \<Rightarrow> nat \<Rightarrow> int \<times> addr \<Rightarrow> bool \<times> int \<times> addr" where
  "pick_sign rd w = (\<lambda>(c, s).
     if c = 45 then (True, rd s, s + w)
     else if c = 43 then (False, rd s, s + w)
     else (False, c, s))"

definition pick_base :: "(addr \<Rightarrow> int) \<Rightarrow> nat \<Rightarrow> int \<Rightarrow> int \<times> addr \<Rightarrow> int \<times> int \<times> addr" where
  "pick_base rd w base = (\<lambda>(c, s).
     let (base, c, s) =
       (if (base = 0 \<or> base = 16) \<and> c = 48 \<and> (rd s = 120 \<or> rd s = 88)
        then (16, rd (s + w), s + 2 * w) else (base, c, s))
     in (if base = 0 then (if c = 48 then 8 else 10) else base, c, s))"

definition strto_start ::
  "(int \<Rightarrow> byte option) \<Rightarrow> (addr \<Rightarrow> int) \<Rightarrow> nat \<Rightarrow> addr \<Rightarrow> int \<Rightarrow> (bool \<times> int \<times> int \<times> addr) option" where
  "strto_start sp rd w nptr base = do {
     cs \<leftarrow> skip_space sp rd w nptr;
     let (neg, cs) = pick_sign rd w cs;
     Some (neg, pick_base rd w base cs)
   }"

definition digit_of :: "int \<Rightarrow> int option" where
  "digit_of c =
     (if 48 \<le> c \<and> c \<le> 57 then Some (c - 48)
      else if 65 \<le> c \<and> c \<le> 90 then Some (c - (65 - 10))
      else if 97 \<le> c \<and> c \<le> 122 then Some (c - (97 - 10))
      else None)"

text \<open>The largest legal magnitude, split into \<open>cutoff\<close> and \<open>cutlim\<close> (an \<open>int\<close>).\<close>

definition cut :: "64 word \<Rightarrow> int \<Rightarrow> 64 word \<times> int" where
  "cut lim base = (lim div word_of_int base, sint (ucast (lim mod word_of_int base) :: 32 word))"

partial_function (option) conv_loop ::
  "(addr \<Rightarrow> int) \<Rightarrow> nat \<Rightarrow> int \<Rightarrow> 64 word \<times> int \<Rightarrow> int \<Rightarrow> addr \<Rightarrow> 64 word \<Rightarrow> int \<Rightarrow> (64 word \<times> int \<times> addr) option" where
  "conv_loop rd w base cutp c s acc any =
     (case digit_of c of
        None \<Rightarrow> Some (acc, any, s)
      | Some d \<Rightarrow>
          if d \<ge> base then Some (acc, any, s)
          else if any < 0 \<or> fst cutp < acc \<or> acc = fst cutp \<and> snd cutp < d
          then conv_loop rd w base cutp (rd s) (s + w) acc (-1)
          else conv_loop rd w base cutp (rd s) (s + w) (acc * word_of_int base + word_of_int d) 1)"

text \<open>\<open>if (endptr != 0) *endptr = any ? s - 1 : nptr\<close>\<close>

definition set_endptr :: "nat \<Rightarrow> addr \<Rightarrow> addr \<Rightarrow> int \<Rightarrow> addr \<Rightarrow> reent \<Rightarrow> reent" where
  "set_endptr w nptr endptr any s R =
     (if endptr \<noteq> 0
      then R\<lparr>rmem := store64 (rmem R) endptr (word_of_nat (if any \<noteq> 0 then s - w else nptr))\<rparr>
      else R)"

text \<open>
  The two endings: the range error replaces the value by \<open>over\<close>; the
  \<open>*max\<close> functions also report \<open>EINVAL\<close> when no digit was read.
\<close>

definition strto_finish ::
  "bool \<Rightarrow> 64 word \<Rightarrow> nat \<Rightarrow> addr \<Rightarrow> addr \<Rightarrow> reent \<Rightarrow> bool \<Rightarrow> 64 word \<times> int \<times> addr \<Rightarrow> reent \<times> 64 word" where
  "strto_finish noconv over w nptr endptr R neg = (\<lambda>(acc, any, s).
     let (R, acc) =
       (if any < 0 then (R\<lparr>rerrno := ERANGE\<rparr>, over)
        else if noconv \<and> any = 0 then (R\<lparr>rerrno := EINVAL\<rparr>, acc)
        else if neg then (R, - acc)
        else (R, acc))
     in (set_endptr w nptr endptr any s R, acc))"

section \<open>The narrow functions\<close>

definition strtol_l :: "reent \<Rightarrow> addr \<Rightarrow> addr \<Rightarrow> int \<Rightarrow> (reent \<times> 64 word) option" where
  "strtol_l R nptr endptr base =
     (if base < 0 \<or> base = 1 \<or> base > 36 then Some (R\<lparr>rerrno := EINVAL\<rparr>, 0)
      else do {
        (neg, base, c, s) \<leftarrow> strto_start isspace (rd_uchar (rmem R)) 1 nptr base;
        r \<leftarrow> conv_loop (rd_uchar (rmem R)) 1 base (cut (if neg then - LONG_MIN else LONG_MAX) base) c s 0 0;
        Some (strto_finish False (if neg then LONG_MIN else LONG_MAX) 1 nptr endptr R neg r)
      })"

definition strtoul_l :: "reent \<Rightarrow> addr \<Rightarrow> addr \<Rightarrow> int \<Rightarrow> (reent \<times> 64 word) option" where
  "strtoul_l R nptr endptr base = do {
     (neg, base, c, s) \<leftarrow> strto_start isspace (rd_uchar (rmem R)) 1 nptr base;
     r \<leftarrow> conv_loop (rd_uchar (rmem R)) 1 base (cut ULONG_MAX base) c s 0 0;
     Some (strto_finish False ULONG_MAX 1 nptr endptr R neg r)
   }"

definition strtoll_l :: "reent \<Rightarrow> addr \<Rightarrow> addr \<Rightarrow> int \<Rightarrow> (reent \<times> 64 word) option" where
  "strtoll_l R nptr endptr base = do {
     (neg, base, c, s) \<leftarrow> strto_start isspace (rd_uchar (rmem R)) 1 nptr base;
     r \<leftarrow> conv_loop (rd_uchar (rmem R)) 1 base (cut (if neg then - LONG_MIN else LONG_MAX) base) c s 0 0;
     Some (strto_finish False (if neg then LONG_MIN else LONG_MAX) 1 nptr endptr R neg r)
   }"

definition strtoull_l :: "reent \<Rightarrow> addr \<Rightarrow> addr \<Rightarrow> int \<Rightarrow> (reent \<times> 64 word) option" where
  "strtoull_l R nptr endptr base = do {
     (neg, base, c, s) \<leftarrow> strto_start isspace (rd_uchar (rmem R)) 1 nptr base;
     r \<leftarrow> conv_loop (rd_uchar (rmem R)) 1 base (cut ULONG_MAX base) c s 0 0;
     Some (strto_finish False ULONG_MAX 1 nptr endptr R neg r)
   }"

text \<open>The \<open>*max\<close> functions jump to \<open>noconv\<close> with \<open>acc = any = 0\<close> for a bad base.\<close>

definition strtoimax_l :: "reent \<Rightarrow> addr \<Rightarrow> addr \<Rightarrow> int \<Rightarrow> (reent \<times> 64 word) option" where
  "strtoimax_l R nptr endptr base = do {
     (neg, base, c, s) \<leftarrow> strto_start isspace (rd_char (rmem R)) 1 nptr base;
     if base < 2 \<or> base > 36
     then Some (set_endptr 1 nptr endptr 0 s (R\<lparr>rerrno := EINVAL\<rparr>), 0)
     else do {
       r \<leftarrow> conv_loop (rd_char (rmem R)) 1 base (cut (if neg then - LONG_MIN else LONG_MAX) base) c s 0 0;
       Some (strto_finish True (if neg then LONG_MIN else LONG_MAX) 1 nptr endptr R neg r)
     }
   }"

definition strtoumax_l :: "reent \<Rightarrow> addr \<Rightarrow> addr \<Rightarrow> int \<Rightarrow> (reent \<times> 64 word) option" where
  "strtoumax_l R nptr endptr base = do {
     (neg, base, c, s) \<leftarrow> strto_start isspace (rd_char (rmem R)) 1 nptr base;
     if base < 2 \<or> base > 36
     then Some (set_endptr 1 nptr endptr 0 s (R\<lparr>rerrno := EINVAL\<rparr>), 0)
     else do {
       r \<leftarrow> conv_loop (rd_char (rmem R)) 1 base (cut ULONG_MAX base) c s 0 0;
       Some (strto_finish True ULONG_MAX 1 nptr endptr R neg r)
     }
   }"

section \<open>The wide functions\<close>

definition wcstol_l :: "reent \<Rightarrow> addr \<Rightarrow> addr \<Rightarrow> int \<Rightarrow> (reent \<times> 64 word) option" where
  "wcstol_l R nptr endptr base = do {
     (neg, base, c, s) \<leftarrow> strto_start iswspace (rd_wchar (rmem R)) 4 nptr base;
     r \<leftarrow> conv_loop (rd_wchar (rmem R)) 4 base (cut (if neg then - LONG_MIN else LONG_MAX) base) c s 0 0;
     Some (strto_finish False (if neg then LONG_MIN else LONG_MAX) 4 nptr endptr R neg r)
   }"

definition wcstoul_l :: "reent \<Rightarrow> addr \<Rightarrow> addr \<Rightarrow> int \<Rightarrow> (reent \<times> 64 word) option" where
  "wcstoul_l R nptr endptr base = do {
     (neg, base, c, s) \<leftarrow> strto_start iswspace (rd_wchar (rmem R)) 4 nptr base;
     r \<leftarrow> conv_loop (rd_wchar (rmem R)) 4 base (cut ULONG_MAX base) c s 0 0;
     Some (strto_finish False ULONG_MAX 4 nptr endptr R neg r)
   }"

definition wcstoll_l :: "reent \<Rightarrow> addr \<Rightarrow> addr \<Rightarrow> int \<Rightarrow> (reent \<times> 64 word) option" where
  "wcstoll_l R nptr endptr base = do {
     (neg, base, c, s) \<leftarrow> strto_start iswspace (rd_wchar (rmem R)) 4 nptr base;
     r \<leftarrow> conv_loop (rd_wchar (rmem R)) 4 base (cut (if neg then - LONG_MIN else LONG_MAX) base) c s 0 0;
     Some (strto_finish False (if neg then LONG_MIN else LONG_MAX) 4 nptr endptr R neg r)
   }"

definition wcstoull_l :: "reent \<Rightarrow> addr \<Rightarrow> addr \<Rightarrow> int \<Rightarrow> (reent \<times> 64 word) option" where
  "wcstoull_l R nptr endptr base =
     (if base < 0 \<or> base = 1 \<or> base > 36 then Some (R\<lparr>rerrno := EINVAL\<rparr>, 0)
      else do {
        (neg, base, c, s) \<leftarrow> strto_start iswspace (rd_wchar (rmem R)) 4 nptr base;
        r \<leftarrow> conv_loop (rd_wchar (rmem R)) 4 base (cut ULONG_MAX base) c s 0 0;
        Some (strto_finish False ULONG_MAX 4 nptr endptr R neg r)
      })"

definition wcstoimax_l :: "reent \<Rightarrow> addr \<Rightarrow> addr \<Rightarrow> int \<Rightarrow> (reent \<times> 64 word) option" where
  "wcstoimax_l R nptr endptr base = do {
     (neg, base, c, s) \<leftarrow> strto_start iswspace (rd_wchar (rmem R)) 4 nptr base;
     if base < 2 \<or> base > 36
     then Some (set_endptr 4 nptr endptr 0 s (R\<lparr>rerrno := EINVAL\<rparr>), 0)
     else do {
       r \<leftarrow> conv_loop (rd_wchar (rmem R)) 4 base (cut (if neg then - LONG_MIN else LONG_MAX) base) c s 0 0;
       Some (strto_finish True (if neg then LONG_MIN else LONG_MAX) 4 nptr endptr R neg r)
     }
   }"

definition wcstoumax_l :: "reent \<Rightarrow> addr \<Rightarrow> addr \<Rightarrow> int \<Rightarrow> (reent \<times> 64 word) option" where
  "wcstoumax_l R nptr endptr base = do {
     (neg, base, c, s) \<leftarrow> strto_start iswspace (rd_wchar (rmem R)) 4 nptr base;
     if base < 2 \<or> base > 36
     then Some (set_endptr 4 nptr endptr 0 s (R\<lparr>rerrno := EINVAL\<rparr>), 0)
     else do {
       r \<leftarrow> conv_loop (rd_wchar (rmem R)) 4 base (cut ULONG_MAX base) c s 0 0;
       Some (strto_finish True ULONG_MAX 4 nptr endptr R neg r)
     }
   }"

section \<open>The functions on top\<close>

definition strtol :: "reent \<Rightarrow> addr \<Rightarrow> addr \<Rightarrow> int \<Rightarrow> (reent \<times> 64 word) option" where
  "strtol R s ptr base = strtol_l R s ptr base"

definition atoi :: "reent \<Rightarrow> addr \<Rightarrow> (reent \<times> 32 word) option" where
  "atoi R s = map_option (\<lambda>(R, v). (R, ucast v)) (strtol R s 0 10)"

definition atol :: "reent \<Rightarrow> addr \<Rightarrow> (reent \<times> 64 word) option" where
  "atol R s = strtol R s 0 10"

definition atoll :: "reent \<Rightarrow> addr \<Rightarrow> (reent \<times> 64 word) option" where
  "atoll R s = strtoll_l R s 0 10"

section \<open>Printing\<close>

text \<open>The digits \<open>"0123456789abcdefghijklmnopqrstuvwxyz"\<close>.\<close>

definition utoa_digits :: "byte list" where
  "utoa_digits =
     [48, 49, 50, 51, 52, 53, 54, 55, 56, 57, 97, 98, 99, 100, 101, 102, 103, 104,
      105, 106, 107, 108, 109, 110, 111, 112, 113, 114, 115, 116, 117, 118, 119, 120,
      121, 122]"

text \<open>The digits in reverse order; \<open>value / base\<close> is smaller than \<open>value\<close> for a base of at least 2.\<close>

function utoa_loop :: "mem \<Rightarrow> addr \<Rightarrow> 32 word \<Rightarrow> int \<Rightarrow> nat \<Rightarrow> mem \<times> nat" where
  "utoa_loop m str v base i =
     (let m = m(str + i := utoa_digits ! unat (v mod word_of_int base));
          v' = v div word_of_int base
      in if v' \<noteq> 0 \<and> unat v' < unat v then utoa_loop m str v' base (i + 1) else (m, i + 1))"
  by pat_completeness auto
termination by (relation "measure (\<lambda>(m, str, v, base, i). unat v)") auto

function utoa_reverse :: "mem \<Rightarrow> addr \<Rightarrow> nat \<Rightarrow> nat \<Rightarrow> mem" where
  "utoa_reverse m str j i =
     (if j < i then utoa_reverse (m(str + j := m (str + i), str + i := m (str + j))) str (j + 1) (i - 1)
      else m)"
  by pat_completeness auto
termination by (relation "measure (\<lambda>(m, str, j, i). i - j)") auto

definition utoa :: "mem \<Rightarrow> 32 word \<Rightarrow> addr \<Rightarrow> int \<Rightarrow> mem \<times> addr" where
  "utoa m v str base =
     (if base < 2 \<or> base > 36 then (m(str := 0), 0)
      else let (m, i) = utoa_loop m str v base 0;
               m = m(str + i := 0)
           in (utoa_reverse m str 0 (i - 1), str))"

text \<open>\<open>-value\<close> is computed as an \<open>int\<close>: undefined for the most negative one.\<close>

definition itoa :: "mem \<Rightarrow> 32 word \<Rightarrow> addr \<Rightarrow> int \<Rightarrow> (mem \<times> addr) option" where
  "itoa m v str base =
     (if base < 2 \<or> base > 36 then Some (m(str := 0), 0)
      else if base = 10 \<and> sint v < 0
      then (if sint v = - (2 ^ 31) then None else Some (fst (utoa (m(str := 45)) (word_of_int (- sint v)) (str + 1) base), str))
      else Some (fst (utoa m v str base), str))"

declare utoa_loop.simps [simp del] utoa_reverse.simps [simp del]

section \<open>What a conversion means\<close>

text \<open>A string of characters in memory, read with \<open>rd\<close>, without its terminator.\<close>

primrec rstr :: "(addr \<Rightarrow> int) \<Rightarrow> nat \<Rightarrow> addr \<Rightarrow> int list \<Rightarrow> bool" where
  "rstr rd w p [] \<longleftrightarrow> rd p = 0"
| "rstr rd w p (x # xs) \<longleftrightarrow> rd p = x \<and> x \<noteq> 0 \<and> rstr rd w (p + w) xs"

text \<open>
  The digits at the front of a string and their value; the subject sequence
  of a string, as the documentation defines it: its sign, its base, its digits and the offset of its end.
  A leading \<open>0x\<close> belongs to it when a hexadecimal digit follows.
\<close>

definition valid_digit :: "int \<Rightarrow> int \<Rightarrow> bool" where
  "valid_digit b c \<longleftrightarrow> (case digit_of c of None \<Rightarrow> False | Some d \<Rightarrow> d < b)"

definition digits :: "int \<Rightarrow> int list \<Rightarrow> nat list" where
  "digits b xs = map (\<lambda>c. nat (the (digit_of c))) (takeWhile (valid_digit b) xs)"

definition horner :: "nat \<Rightarrow> nat \<Rightarrow> nat list \<Rightarrow> nat" where
  "horner b a ds = foldl (\<lambda>a d. a * b + d) a ds"

fun sign_of :: "int list \<Rightarrow> bool \<times> int list" where
  "sign_of (c # cs) = (if c = 45 then (True, cs) else if c = 43 then (False, cs) else (False, c # cs))"
| "sign_of [] = (False, [])"



text \<open>
  The code skips \<open>0x\<close> also when no hexadecimal digit follows, where the subject sequence is only the \<open>0\<close>: what it
  scans, and the strings where this differs.
\<close>

definition scan_base :: "int \<Rightarrow> int list \<Rightarrow> int \<times> int list" where
  "scan_base base xs =
     (if (base = 0 \<or> base = 16) \<and> (take 2 xs = [48, 120] \<or> take 2 xs = [48, 88]) then (16, drop 2 xs)
      else if base = 0 then (if take 1 xs = [48] then 8 else 10, xs)
      else (base, xs))"

definition scan_subject :: "int \<Rightarrow> int list \<Rightarrow> bool \<times> int \<times> nat list \<times> nat" where
  "scan_subject base xs =
     (let (neg, ys) = sign_of (dropWhile spec_space xs);
          (b, zs) = scan_base base ys;
          ds = digits b zs
      in (neg, b, ds, length xs - length zs + length ds))"


text \<open>The value of the subject sequence, and the state after a conversion.\<close>

definition subject_value :: "bool \<Rightarrow> int \<Rightarrow> nat list \<Rightarrow> int" where
  "subject_value neg b ds = (if neg then - int (horner (nat b) 0 ds) else int (horner (nat b) 0 ds))"

definition put_end :: "addr \<Rightarrow> addr \<Rightarrow> reent \<Rightarrow> reent" where
  "put_end endptr p R =
     (if endptr \<noteq> 0 then R\<lparr>rmem := store64 (rmem R) endptr (word_of_nat p)\<rparr> else R)"

definition set_errno :: "bool \<Rightarrow> bool \<Rightarrow> reent \<Rightarrow> reent" where
  "set_errno over noconv R =
     (if over then R\<lparr>rerrno := ERANGE\<rparr> else if noconv then R\<lparr>rerrno := EINVAL\<rparr> else R)"

definition clamp64 :: "int \<Rightarrow> int" where
  "clamp64 v = max (- (2 ^ 63)) (min (2 ^ 63 - 1) v)"

section \<open>Lemmas on the specification\<close>

lemma horner_Nil [simp]: "horner b a [] = a"
  and horner_Cons [simp]: "horner b a (d # ds) = horner b (a * b + d) ds"
  by (simp_all add: horner_def)

lemma horner_mono: "0 < b \<Longrightarrow> a \<le> horner b a ds"
proof (induction ds arbitrary: a)
  case (Cons d ds)
  have "a \<le> a * b + d" using Cons.prems by (cases b) auto
  then show ?case unfolding horner_Cons using Cons.IH [OF Cons.prems] by (rule order_trans)
qed simp

lemma horner_snoc [simp]: "horner b a (ds @ [d]) = horner b a ds * b + d"
  by (simp add: horner_def)

lemma digit_of_bounds: "digit_of c = Some d \<Longrightarrow> 0 \<le> d \<and> d < 36"
  by (auto simp: digit_of_def split: if_splits)

lemma digits_Nil [simp]: "digits b [] = []"
  by (simp add: digits_def)

lemma digits_Cons:
  "digits b (c # cs) = (case digit_of c of None \<Rightarrow> []
     | Some d \<Rightarrow> if d < b then nat d # digits b cs else [])"
  by (auto simp: digits_def valid_digit_def split: option.splits)

lemma digits_less: "d \<in> set (digits b xs) \<Longrightarrow> int d < b"
proof -
  assume "d \<in> set (digits b xs)"
  then obtain c where "valid_digit b c" and "d = nat (the (digit_of c))"
    unfolding digits_def by (auto dest: set_takeWhileD)
  then show ?thesis
    by (auto simp: valid_digit_def split: option.splits dest: digit_of_bounds)
qed

lemma digit_of_0 [simp]: "digit_of 0 = None"
  by (simp add: digit_of_def)

lemma length_sign_of: "length (snd (sign_of xs)) \<le> length xs"
  by (cases xs) auto

lemma length_scan_base: "length (snd (scan_base base xs)) \<le> length xs"
  by (auto simp: scan_base_def)



text \<open>The comparison with \<open>cutoff\<close> and \<open>cutlim\<close> decides whether the next digit fits.\<close>

lemma cutoff_exact:
  fixes a b d L :: nat
  assumes "d < b"
  shows "L div b < a \<or> a = L div b \<and> L mod b < d \<longleftrightarrow> L < a * b + d"
proof -
  have L: "L = L div b * b + L mod b" by simp
  consider "a < L div b" | "a = L div b" | "L div b < a" by linarith
  then show ?thesis
  proof cases
    case 1
    then have "(a + 1) * b \<le> L div b * b" by (intro mult_le_mono1) simp
    then have "a * b + d < L div b * b" using assms by (simp add: add_mult_distrib)
    then show ?thesis using 1 L by linarith
  next
    case 2
    then show ?thesis using L by (metis add_less_cancel_left nat_neq_iff)
  next
    case 3
    then have "(L div b + 1) * b \<le> a * b" by (intro mult_le_mono1) simp
    then have "L div b * b + b \<le> a * b" by (simp add: add_mult_distrib)
    moreover have "L mod b < b" using assms by simp
    ultimately have "L < a * b + d" using L by linarith
    then show ?thesis using 3 by simp
  qed
qed

lemma uint_ucast_small: "uint (x :: 64 word) < 36 \<Longrightarrow> uint (ucast x :: 32 word) = uint x"
  by (simp add: unsigned_ucast_eq take_bit_int_eq_self)

lemma sint_eq_uint_small: "uint (x :: 32 word) < 36 \<Longrightarrow> sint x = uint x"
  by (simp add: sint_uint signed_take_bit_int_eq_self_iff order_trans [OF _ uint_ge_0])

lemma unat_word_of_nat64: "n < 2 ^ 64 \<Longrightarrow> unat (word_of_nat n :: 64 word) = n"
  by (simp add: unat_of_nat)

lemma cut_unat:
  assumes "2 \<le> b" and "b \<le> 36"
  shows "unat (fst (cut lim b)) = unat lim div nat b" and "snd (cut lim b) = int (unat lim mod nat b)"
proof -
  have b: "unat (word_of_int b :: 64 word) = nat b"
    using assms by (simp add: unat_eq_nat_uint uint_word_of_int)
  show "unat (fst (cut lim b)) = unat lim div nat b"
    unfolding cut_def fst_conv unat_div b ..
  define x where "x = lim mod word_of_int b"
  have x: "unat x = unat lim mod nat b" unfolding x_def unat_mod b ..
  moreover have "unat lim mod nat b < nat b" using assms by (intro mod_less_divisor) simp
  ultimately have "unat x < 36" using assms by linarith
  then have u: "uint x < 36" using uint_nat [of x] by linarith
  then have "uint (ucast x :: 32 word) = uint x" by (rule uint_ucast_small)
  then have "sint (ucast x :: 32 word) = uint x" using u by (simp add: sint_eq_uint_small)
  then have "snd (cut lim b) = int (unat x)" by (simp add: cut_def x_def [symmetric])
  then show "snd (cut lim b) = int (unat lim mod nat b)" unfolding x .
qed


section \<open>The engine against the specification\<close>

text \<open>
  What the functions of the family share is stated once, over a character
  type: its size, how a character is read, the white-space test, and for which
  characters the test is defined.
\<close>

locale char_type =
  fixes sp :: "int \<Rightarrow> byte option" and w :: nat and ok :: "int \<Rightarrow> bool"
  assumes w_pos: "0 < w"
    and ok_0: "ok 0"
    and sp_ok: "ok c \<Longrightarrow> \<exists>f. sp c = Some f \<and> (f \<noteq> 0 \<longleftrightarrow> spec_space c)"
begin

lemma rstr_split: "rstr rd w p (xs @ ys) \<Longrightarrow> rstr rd w (p + w * length xs) ys"
proof (induction xs arbitrary: p)
  case (Cons x xs)
  then have "rstr rd w (p + w + w * length xs) ys" by simp
  then show ?case by (simp add: algebra_simps)
qed simp

lemma step_offset:
  assumes "q + w * n = p + w * l" and "n \<le> l"
  shows "q + w * k = p + w * (l - n + k)"
proof -
  obtain e where "l = n + e" using assms(2) le_Suc_ex by blast
  then show ?thesis using assms(1) by (simp add: algebra_simps)
qed

lemma rstr_rd: "rstr rd w p xs \<Longrightarrow> rd p = (if xs = [] then 0 else hd xs)"
  by (cases xs) auto

lemma skip_space_rstr:
  assumes "rstr rd w p xs" and "\<forall>c \<in> set xs. ok c"
  shows "skip_space sp rd w p =
    (let q = p + w * length (takeWhile spec_space xs) in Some (rd q, q + w))"
  using assms
proof (induction xs arbitrary: p)
  case Nil
  obtain f where "sp 0 = Some f" "f \<noteq> 0 \<longleftrightarrow> spec_space 0" using sp_ok [OF ok_0] by blast
  then have "sp 0 = Some 0" by (simp add: spec_space_def)
  then show ?case using Nil by (simp add: skip_space.simps [of sp rd w p])
next
  case (Cons x xs)
  obtain f where "sp x = Some f" "f \<noteq> 0 \<longleftrightarrow> spec_space x" using sp_ok Cons.prems by force
  then show ?case using Cons
    by (auto simp: skip_space.simps [of sp rd w p] Let_def algebra_simps)
qed

lemma sign_rstr:
  assumes "rstr rd w p xs"
  shows "\<exists>q. pick_sign rd w (rd p, p + w) = (fst (sign_of xs), rd q, q + w) \<and> rstr rd w q (snd (sign_of xs))
     \<and> q + w * length (snd (sign_of xs)) = p + w * length xs"
proof (cases xs)
  case Nil
  then show ?thesis using assms by (auto simp: pick_sign_def)
next
  case (Cons x ys)
  then show ?thesis using assms
    by (auto simp: pick_sign_def intro!: exI [of _ "p + w"] split: if_splits)
qed

lemma base_rstr:
  assumes "rstr rd w p xs"
  shows "\<exists>q. pick_base rd w base (rd p, p + w) = (fst (scan_base base xs), rd q, q + w) \<and>
     rstr rd w q (snd (scan_base base xs)) \<and> q + w * length (snd (scan_base base xs)) = p + w * length xs"
proof (cases "(base = 0 \<or> base = 16) \<and> (take 2 xs = [48, 120] \<or> take 2 xs = [48, 88])")
  case True
  then obtain x ys where xs: "xs = 48 # x # ys" "x = 120 \<or> x = 88"
    by (cases xs; cases "tl xs") auto
  then have "rstr rd w (p + 2 * w) ys" using assms by (auto simp: add.assoc mult_2)
  then show ?thesis using assms True xs
    by (intro exI [of _ "p + 2 * w"]) (auto simp: pick_base_def scan_base_def mult_2 add.assoc)
next
  case False
  have "\<not> ((base = 0 \<or> base = 16) \<and> rd p = 48 \<and> (rd (p + w) = 120 \<or> rd (p + w) = 88))"
    using False assms by (cases xs; cases "tl xs") (auto split: if_splits)
  moreover have "rd p = 48 \<longleftrightarrow> take 1 xs = [48]" using assms by (cases xs) auto
  ultimately show ?thesis using False assms
    by (intro exI [of _ p]) (auto simp: pick_base_def scan_base_def)
qed

lemma strto_start_rstr:
  assumes "rstr rd w p xs" and "\<forall>c \<in> set xs. ok c"
  shows "\<exists>q zs. strto_start sp rd w p base =
        Some (fst (scan_subject base xs), fst (snd (scan_subject base xs)), rd q, q + w) \<and> rstr rd w q zs \<and>
      fst (snd (snd (scan_subject base xs))) = digits (fst (snd (scan_subject base xs))) zs \<and>
      q + w * length (fst (snd (snd (scan_subject base xs)))) = p + w * snd (snd (snd (scan_subject base xs)))"
proof -
  define ys where "ys = dropWhile spec_space xs"
  define q0 where "q0 = p + w * length (takeWhile spec_space xs)"
  have l: "length xs = length (takeWhile spec_space xs) + length ys"
    unfolding ys_def by (metis length_append takeWhile_dropWhile_id)
  have y: "rstr rd w q0 ys" unfolding q0_def ys_def
    using rstr_split [of rd p "takeWhile spec_space xs" "dropWhile spec_space xs"] assms by simp
  obtain q1 where q1: "pick_sign rd w (rd q0, q0 + w) = (fst (sign_of ys), rd q1, q1 + w)"
    and r1: "rstr rd w q1 (snd (sign_of ys))"
    and e1: "q1 + w * length (snd (sign_of ys)) = q0 + w * length ys"
    using sign_rstr [OF y] by blast
  obtain q2 where q2: "pick_base rd w base (rd q1, q1 + w) =
        (fst (scan_base base (snd (sign_of ys))), rd q2, q2 + w)"
    and r2: "rstr rd w q2 (snd (scan_base base (snd (sign_of ys))))"
    and e2: "q2 + w * length (snd (scan_base base (snd (sign_of ys)))) = q1 + w * length (snd (sign_of ys))"
    using base_rstr [OF r1] by blast
  let ?zs = "snd (scan_base base (snd (sign_of ys)))"
  have len: "length ?zs \<le> length xs" and q2e: "q2 + w * length ?zs = p + w * length xs"
    using e1 e2 l length_scan_base [of base "snd (sign_of ys)"] length_sign_of [of ys]
    by (auto simp: q0_def algebra_simps)
  show ?thesis
    using skip_space_rstr [OF assms] q1 q2 r2 step_offset [OF q2e len]
    by (intro exI [of _ q2] exI [of _ ?zs])
      (auto simp: strto_start_def scan_subject_def q0_def ys_def Let_def simp del: diff_add_assoc2 split: prod.splits)
qed

lemma conv_loop_over:
  assumes "rstr rd w p xs"
  shows "conv_loop rd w b cutp (rd p) (p + w) acc (-1) =
     Some (acc, -1, p + w * length (digits b xs) + w)"
  using assms
proof (induction xs arbitrary: p)
  case Nil
  then show ?case by (simp add: conv_loop.simps [of rd w b cutp 0])
next
  case (Cons x xs)
  from Cons.prems have IH: "conv_loop rd w b cutp (rd (p + w)) (p + w + w) acc (-1) =
     Some (acc, -1, p + w + w * length (digits b xs) + w)" by (intro Cons.IH) simp
  show ?case using Cons.prems IH
    by (auto simp: conv_loop.simps [of rd w b cutp x] digits_Cons algebra_simps split: option.splits)
qed

text \<open>
  From a value that fits, the loop computes the value of the digits when it is
  at most the limit and reports the overflow when it is not.
\<close>

lemma conv_loop_rstr:
  assumes "rstr rd w p xs" and "2 \<le> b" and "b \<le> 36" and "unat acc \<le> unat lim" and "0 \<le> any"
  shows "\<exists>a. conv_loop rd w b (cut lim b) (rd p) (p + w) acc any =
     Some (if horner (nat b) (unat acc) (digits b xs) \<le> unat lim
           then (word_of_nat (horner (nat b) (unat acc) (digits b xs)),
                 if digits b xs = [] then any else 1, p + w * length (digits b xs) + w)
           else (a, -1, p + w * length (digits b xs) + w))"
  using assms
proof (induction xs arbitrary: p acc any)
  case Nil
  then show ?case by (simp add: conv_loop.simps [of rd w b _ 0])
next
  case (Cons x xs)
  show ?case
  proof (cases "digits b (x # xs)")
    case Nil
    then show ?thesis using Cons.prems
      by (auto simp: conv_loop.simps [of rd w b _ x] digits_Cons split: option.splits if_splits)
  next
    case (Cons d ds)
    then obtain e where e: "digit_of x = Some e" "e < b" "d = nat e" "ds = digits b xs"
      by (auto simp: digits_Cons split: option.splits if_splits)
    have d: "0 \<le> e" "d < nat b" "e = int d" using e digit_of_bounds [OF e(1)] by auto
    have r: "rstr rd w (p + w) xs" and x: "rd p = x" using Cons.prems by auto
    have "fst (cut lim b) < acc \<or> acc = fst (cut lim b) \<and> snd (cut lim b) < e \<longleftrightarrow>
        unat lim div nat b < unat acc \<or> unat acc = unat lim div nat b \<and> unat lim mod nat b < d"
      using cut_unat [OF Cons.prems(2,3), of lim] d
      by (auto simp: word_less_nat_alt word_unat_eq_iff)
    then have test: "fst (cut lim b) < acc \<or> acc = fst (cut lim b) \<and> snd (cut lim b) < e \<longleftrightarrow>
        unat lim < unat acc * nat b + d" using cutoff_exact [OF d(2)] by simp
    show ?thesis
    proof (cases "unat lim < unat acc * nat b + d")
      case True
      have "unat acc * nat b + d \<le> horner (nat b) (unat acc) (digits b (x # xs))"
        unfolding Cons horner_Cons using Cons.prems(2) by (intro horner_mono) simp
      then have "\<not> horner (nat b) (unat acc) (digits b (x # xs)) \<le> unat lim" using True by linarith
      moreover have "conv_loop rd w b (cut lim b) (rd p) (p + w) acc any =
          conv_loop rd w b (cut lim b) (rd (p + w)) (p + w + w) acc (-1)"
        using e True test x by (auto simp: conv_loop.simps [of rd w b _ x])
      ultimately show ?thesis using conv_loop_over [OF r] Cons e(4)
        by (auto simp: algebra_simps)
    next
      case False
      let ?acc = "acc * word_of_int b + word_of_int e :: 64 word"
      have "unat lim < 2 ^ 64" using unsigned_less [of lim] by simp
      then have "unat acc * nat b + d < 2 ^ 64" using False by linarith
      moreover have "?acc = word_of_nat (unat acc * nat b + d)"
        using Cons.prems(2) d by simp
      ultimately have a: "unat ?acc = unat acc * nat b + d" by (metis unat_word_of_nat64)
      have "conv_loop rd w b (cut lim b) (rd p) (p + w) acc any =
          conv_loop rd w b (cut lim b) (rd (p + w)) (p + w + w) ?acc 1"
        using e False test x Cons.prems(5) by (auto simp: conv_loop.simps [of rd w b _ x])
      moreover have "unat ?acc \<le> unat lim" using a False by simp
      ultimately show ?thesis
        using Cons.IH [OF r Cons.prems(2,3), of ?acc 1] Cons e(4) unfolding a
        by (auto simp: algebra_simps)
    qed
  qed
qed

text \<open>
  A whole conversion, for a limit and an overflow value that depend on the sign
  and with or without the \<open>EINVAL\<close> of the \<open>*max\<close> functions.
\<close>

lemma strto_body:
  assumes "rstr rd w nptr xs" and "\<forall>c \<in> set xs. ok c"
    and sub: "scan_subject base xs = (neg, b, ds, n)" and b: "2 \<le> b" "b \<le> 36"
  shows "\<exists>q. strto_start sp rd w nptr base = Some (neg, b, rd q, q + w) \<and>
    map_option (strto_finish nc over w nptr endptr R neg) (conv_loop rd w b (cut lim b) (rd q) (q + w) 0 0) =
    Some (let v = horner (nat b) 0 ds; fits = (v \<le> unat lim) in
      (put_end endptr (if ds = [] then nptr else nptr + w * n) (set_errno (\<not> fits) (nc \<and> ds = []) R),
       if \<not> fits then over else if neg then - word_of_nat v else word_of_nat v))"
proof -
  obtain q zs where q: "strto_start sp rd w nptr base = Some (neg, b, rd q, q + w)"
      "rstr rd w q zs" "ds = digits b zs" "q + w * length ds = nptr + w * n"
    using strto_start_rstr [OF assms(1,2), of base] sub by auto
  obtain a where c: "conv_loop rd w b (cut lim b) (rd q) (q + w) 0 0 =
     Some (if horner (nat b) 0 ds \<le> unat lim
           then (word_of_nat (horner (nat b) 0 ds), if ds = [] then 0 else 1, q + w * length ds + w)
           else (a, -1, q + w * length ds + w))"
    using conv_loop_rstr [OF q(2) b, of 0 lim 0] q(3) by (auto simp only: unsigned_0 order.refl le0)
  have "ds = [] \<Longrightarrow> horner (nat b) 0 ds \<le> unat lim" by simp
  then show ?thesis using q(1,4) c
    by (intro exI [of _ q])
      (auto simp: strto_finish_def set_endptr_def put_end_def set_errno_def Let_def)
qed

end

text \<open>The three character types of the family.\<close>

lemma isspace_ok: "- 1 \<le> c \<Longrightarrow> c \<le> 255 \<Longrightarrow> \<exists>f. isspace c = Some f \<and> (f \<noteq> 0 \<longleftrightarrow> spec_space c)"
  using ctype_classes_all(7) [of c] ctype_range [of c] unfolding in_class_def
  by (metis isspace_def option.inject option.simps(9))

interpretation uchar: char_type isspace 1 "\<lambda>c. 0 \<le> c \<and> c \<le> 255"
  by unfold_locales (auto intro: isspace_ok)

interpretation schar: char_type isspace 1 "\<lambda>c. - 1 \<le> c \<and> c \<le> 127"
  by unfold_locales (auto intro: isspace_ok)

interpretation wide: char_type iswspace 4 "\<lambda>c. - (2 ^ 31) \<le> c \<and> c < 2 ^ 31"
proof
  fix c :: int
  assume c: "- (2 ^ 31) \<le> c \<and> c < 2 ^ 31"
  define u where "u = uint (word_of_int c :: 32 word)"
  have u: "u = (if 0 \<le> c then c else c + 2 ^ 32)"
  proof (cases "0 \<le> c")
    case True
    then show ?thesis using c by (simp add: u_def uint_word_of_int)
  next
    case False
    have "(c + 2 ^ 32) mod 2 ^ 32 = c + 2 ^ 32" using c False by (intro mod_pos_pos_trivial) auto
    then show ?thesis using False by (simp add: u_def uint_word_of_int)
  qed
  show "\<exists>f. iswspace c = Some f \<and> (f \<noteq> 0) = spec_space c"
  proof (cases "u < 256")
    case True
    then show ?thesis using isspace_ok [of u] u c by (auto simp: iswspace_def u_def [symmetric] split: if_splits)
  next
    case False
    then show ?thesis using u c
      by (auto simp: iswspace_def u_def [symmetric] spec_space_def split: if_splits)
  qed
qed auto

section \<open>The functions against the specification\<close>

lemma cstr_rstr: "cstr m p xs \<Longrightarrow> rstr (rd_uchar m) 1 p (map uint xs)"
  by (induction xs arbitrary: p) (auto simp: rd_uchar_def unsigned_eq_0_iff)

lemma cstr_rstr_signed: "cstr m p xs \<Longrightarrow> rstr (rd_char m) 1 p (map sint xs)"
  by (induction xs arbitrary: p) (auto simp: rd_char_def signed_eq_0_iff)

lemma uint_byte_le: "uint (x :: byte) \<le> 255"
  using uint_lt2p [of x] by simp

lemma uint_chars_ok: "\<forall>c \<in> set (map uint (xs :: byte list)). 0 \<le> c \<and> c \<le> 255"
  using uint_byte_le by auto

lemma sint_byte_le: "sint (x :: byte) \<le> 127"
  using sint_less [of x] by simp

lemma wchars_ok: "rstr (rd_wchar m) w p xs \<Longrightarrow> \<forall>c \<in> set xs. - (2 ^ 31) \<le> c \<and> c < 2 ^ 31"
proof (induction xs arbitrary: p)
  case (Cons x xs)
  then show ?case using sint_ge [of "load32 m p"] sint_less [of "load32 m p"]
    by (auto simp: rd_wchar_def)
qed simp

lemma limits:
  "unat (- LONG_MIN) = 2 ^ 63" "unat LONG_MAX = 2 ^ 63 - 1" "unat ULONG_MAX = 2 ^ 64 - 1"
  "LONG_MIN = word_of_int (- (2 ^ 63))" "LONG_MAX = word_of_int (2 ^ 63 - 1)"
  by (simp_all add: LONG_MIN_def LONG_MAX_def ULONG_MAX_def)

lemma scan_base_range:
  assumes "base = 0 \<or> 2 \<le> base \<and> base \<le> 36" and "scan_subject base xs = (neg, b, ds, n)"
  shows "2 \<le> b" and "b \<le> 36"
  using assms by (auto simp: scan_subject_def scan_base_def Let_def split: prod.splits if_splits)

definition signed_result ::
  "nat \<Rightarrow> bool \<Rightarrow> addr \<Rightarrow> addr \<Rightarrow> reent \<Rightarrow> bool \<times> int \<times> nat list \<times> nat \<Rightarrow> reent \<times> 64 word" where
  "signed_result w nc nptr endptr R = (\<lambda>(neg, b, ds, n).
     let v = subject_value neg b ds in
       (put_end endptr (if ds = [] then nptr else nptr + w * n)
          (set_errno (v \<noteq> clamp64 v) (nc \<and> ds = []) R),
        word_of_int (clamp64 v)))"

definition unsigned_result ::
  "nat \<Rightarrow> bool \<Rightarrow> addr \<Rightarrow> addr \<Rightarrow> reent \<Rightarrow> bool \<times> int \<times> nat list \<times> nat \<Rightarrow> reent \<times> 64 word" where
  "unsigned_result w nc nptr endptr R = (\<lambda>(neg, b, ds, n).
     let v = subject_value neg b ds in
       (put_end endptr (if ds = [] then nptr else nptr + w * n)
          (set_errno (2 ^ 64 \<le> \<bar>v\<bar>) (nc \<and> ds = []) R),
        if 2 ^ 64 \<le> \<bar>v\<bar> then ULONG_MAX else word_of_int v))"

lemma fits_signed:
  fixes v :: nat and neg :: bool
  defines "lim \<equiv> unat (if neg then - LONG_MIN else LONG_MAX)"
    and "x \<equiv> (if neg then - int v else int v)"
  shows "\<not> v \<le> lim \<longleftrightarrow> x \<noteq> clamp64 x"
    and "(if x \<noteq> clamp64 x then if neg then LONG_MIN else LONG_MAX
          else if neg then - word_of_nat v else word_of_nat v) = (word_of_int (clamp64 x) :: 64 word)"
  by (auto simp: assms clamp64_def limits max_def min_def)


lemma fits_unsigned:
  fixes v :: nat and neg :: bool
  defines "x \<equiv> (if neg then - int v else int v)"
  shows "\<not> v \<le> unat ULONG_MAX \<longleftrightarrow> 2 ^ 64 \<le> \<bar>x\<bar>"
    and "(if 2 ^ 64 \<le> \<bar>x\<bar> then ULONG_MAX
          else if neg then - word_of_nat v else word_of_nat v) =
         (if 2 ^ 64 \<le> \<bar>x\<bar> then ULONG_MAX else word_of_int x)"
  by (auto simp: assms limits)

context char_type
begin

lemma signed_conversion:
  assumes "rstr rd w nptr xs" and "\<forall>c \<in> set xs. ok c"
    and "scan_subject base xs = (neg, b, ds, n)" and "2 \<le> b" "b \<le> 36"
  shows "\<exists>c s. strto_start sp rd w nptr base = Some (neg, b, c, s) \<and>
    map_option (strto_finish nc (if neg then LONG_MIN else LONG_MAX) w nptr endptr R neg)
      (conv_loop rd w b (cut (if neg then - LONG_MIN else LONG_MAX) b) c s 0 0) =
    Some (signed_result w nc nptr endptr R (neg, b, ds, n))"
  using strto_body [OF assms, of nc "if neg then LONG_MIN else LONG_MAX" endptr R
      "if neg then - LONG_MIN else LONG_MAX"]
  unfolding signed_result_def subject_value_def Let_def fits_signed case_prod_conv
  by blast

lemma unsigned_conversion:
  assumes "rstr rd w nptr xs" and "\<forall>c \<in> set xs. ok c"
    and "scan_subject base xs = (neg, b, ds, n)" and "2 \<le> b" "b \<le> 36"
  shows "\<exists>c s. strto_start sp rd w nptr base = Some (neg, b, c, s) \<and>
    map_option (strto_finish nc ULONG_MAX w nptr endptr R neg)
      (conv_loop rd w b (cut ULONG_MAX b) c s 0 0) =
    Some (unsigned_result w nc nptr endptr R (neg, b, ds, n))"
  using strto_body [OF assms, of nc ULONG_MAX endptr R ULONG_MAX]
  unfolding unsigned_result_def subject_value_def Let_def case_prod_conv fits_unsigned [where neg = neg]
  by blast

end

lemma bind_finish: "(do { r \<leftarrow> x; Some (f r) }) = map_option f x"
  by (cases x) auto

lemmas strto_defs = strtol_l_def strtoul_l_def strtoll_l_def strtoull_l_def strtoimax_l_def
  strtoumax_l_def wcstol_l_def wcstoul_l_def wcstoll_l_def wcstoull_l_def wcstoimax_l_def wcstoumax_l_def

lemma narrow_eq:
  assumes "cstr (rmem R) nptr xs" and b: "base = 0 \<or> 2 \<le> base \<and> base \<le> 36"
  shows "strtol_l R nptr endptr base =
      Some (signed_result 1 False nptr endptr R (scan_subject base (map uint xs)))"
    and "strtoll_l R nptr endptr base =
      Some (signed_result 1 False nptr endptr R (scan_subject base (map uint xs)))"
    and "strtoul_l R nptr endptr base =
      Some (unsigned_result 1 False nptr endptr R (scan_subject base (map uint xs)))"
    and "strtoull_l R nptr endptr base =
      Some (unsigned_result 1 False nptr endptr R (scan_subject base (map uint xs)))"
proof -
  obtain neg b ds n where s: "scan_subject base (map uint xs) = (neg, b, ds, n)"
    by (metis prod_cases4)
  note r = cstr_rstr [OF assms(1)] uint_chars_ok s scan_base_range [OF b s]
  show "strtol_l R nptr endptr base =
      Some (signed_result 1 False nptr endptr R (scan_subject base (map uint xs)))"
    and "strtoll_l R nptr endptr base =
      Some (signed_result 1 False nptr endptr R (scan_subject base (map uint xs)))"
    using uchar.signed_conversion [OF r, of False endptr R] b by (auto simp: strto_defs bind_finish s)
  show "strtoul_l R nptr endptr base =
      Some (unsigned_result 1 False nptr endptr R (scan_subject base (map uint xs)))"
    and "strtoull_l R nptr endptr base =
      Some (unsigned_result 1 False nptr endptr R (scan_subject base (map uint xs)))"
    using uchar.unsigned_conversion [OF r, of False endptr R] by (auto simp: strto_defs bind_finish s)
qed

text \<open>The \<open>*max\<close> functions read plain \<open>char\<close>s, so their strings are 7-bit.\<close>

lemma max_eq:
  assumes "cstr (rmem R) nptr xs" and a: "\<forall>x \<in> set xs. sint x \<ge> 0"
    and b: "base = 0 \<or> 2 \<le> base \<and> base \<le> 36"
  shows "strtoimax_l R nptr endptr base =
      Some (signed_result 1 True nptr endptr R (scan_subject base (map sint xs)))"
    and "strtoumax_l R nptr endptr base =
      Some (unsigned_result 1 True nptr endptr R (scan_subject base (map sint xs)))"
proof -
  obtain neg b ds n where s: "scan_subject base (map sint xs) = (neg, b, ds, n)"
    by (metis prod_cases4)
  have c: "\<forall>c \<in> set (map sint xs). - 1 \<le> c \<and> c \<le> 127"
    using a sint_byte_le by force
  note r = cstr_rstr_signed [OF assms(1)] c s scan_base_range [OF b s]
  show "strtoimax_l R nptr endptr base =
      Some (signed_result 1 True nptr endptr R (scan_subject base (map sint xs)))"
    using schar.signed_conversion [OF r, of True endptr R] scan_base_range [OF b s]
    by (auto simp: strto_defs bind_finish s)
  show "strtoumax_l R nptr endptr base =
      Some (unsigned_result 1 True nptr endptr R (scan_subject base (map sint xs)))"
    using schar.unsigned_conversion [OF r, of True endptr R] scan_base_range [OF b s]
    by (auto simp: strto_defs bind_finish s)
qed

lemma wide_eq:
  assumes "rstr (rd_wchar (rmem R)) 4 nptr xs" and b: "base = 0 \<or> 2 \<le> base \<and> base \<le> 36"
  shows "wcstol_l R nptr endptr base = Some (signed_result 4 False nptr endptr R (scan_subject base xs))"
    and "wcstoll_l R nptr endptr base = Some (signed_result 4 False nptr endptr R (scan_subject base xs))"
    and "wcstoimax_l R nptr endptr base = Some (signed_result 4 True nptr endptr R (scan_subject base xs))"
    and "wcstoul_l R nptr endptr base = Some (unsigned_result 4 False nptr endptr R (scan_subject base xs))"
    and "wcstoull_l R nptr endptr base = Some (unsigned_result 4 False nptr endptr R (scan_subject base xs))"
    and "wcstoumax_l R nptr endptr base = Some (unsigned_result 4 True nptr endptr R (scan_subject base xs))"
proof -
  obtain neg b ds n where s: "scan_subject base xs = (neg, b, ds, n)"
    by (metis prod_cases4)
  note r = assms(1) wchars_ok [OF assms(1)] s scan_base_range [OF b s]
  note b' = scan_base_range [OF b s]
  show "wcstol_l R nptr endptr base = Some (signed_result 4 False nptr endptr R (scan_subject base xs))"
    and "wcstoll_l R nptr endptr base = Some (signed_result 4 False nptr endptr R (scan_subject base xs))"
    using wide.signed_conversion [OF r, of False endptr R] by (auto simp: strto_defs bind_finish s)
  show "wcstoul_l R nptr endptr base = Some (unsigned_result 4 False nptr endptr R (scan_subject base xs))"
    and "wcstoull_l R nptr endptr base = Some (unsigned_result 4 False nptr endptr R (scan_subject base xs))"
    using wide.unsigned_conversion [OF r, of False endptr R] b by (auto simp: strto_defs bind_finish s)
  show "wcstoimax_l R nptr endptr base = Some (signed_result 4 True nptr endptr R (scan_subject base xs))"
    using wide.signed_conversion [OF r, of True endptr R] b' by (auto simp: strto_defs bind_finish s)
  show "wcstoumax_l R nptr endptr base = Some (unsigned_result 4 True nptr endptr R (scan_subject base xs))"
    using wide.unsigned_conversion [OF r, of True endptr R] b' by (auto simp: strto_defs bind_finish s)
qed

section \<open>Printing and reading back\<close>

text \<open>The digits of a number, least significant first, and the text of a number.\<close>

function rdigits :: "nat \<Rightarrow> nat \<Rightarrow> nat list" where
  "rdigits b v = v mod b # (if v div b = 0 \<or> b < 2 then [] else rdigits b (v div b))"
  by pat_completeness auto
termination
proof (relation "measure snd")
  fix b v :: nat
  assume "\<not> (v div b = 0 \<or> b < 2)"
  then show "((b, v div b), b, v) \<in> measure snd" using div_less_dividend [of b v] by (cases v) auto
qed simp

declare rdigits.simps [simp del]

definition unumeral :: "nat \<Rightarrow> nat \<Rightarrow> byte list" where
  "unumeral b v = map (\<lambda>d. utoa_digits ! d) (rev (rdigits b v))"

lemma rdigits_less: "2 \<le> b \<Longrightarrow> d \<in> set (rdigits b v) \<Longrightarrow> d < b"
proof (induction b v rule: rdigits.induct)
  case (1 b v)
  then show ?case by (subst (asm) (2) rdigits.simps) (auto split: if_splits)
qed

lemma rdigits_not_Nil [simp]: "rdigits b v \<noteq> []"
  by (simp add: rdigits.simps [of b v])

lemma horner_rdigits: "2 \<le> b \<Longrightarrow> horner b 0 (rev (rdigits b v)) = v"
proof (induction b v rule: rdigits.induct)
  case (1 b v)
  show ?case
  proof (cases "v div b = 0")
    case True
    then show ?thesis using 1(2) by (auto simp: rdigits.simps [of b v] div_eq_0_iff)
  next
    case False
    then show ?thesis using 1 by (simp add: rdigits.simps [of b v])
  qed
qed

lemma unat_base32:
  assumes "2 \<le> b" "b \<le> 36" shows "unat (word_of_int b :: 32 word) = nat b"
  using assms by (simp add: unat_eq_nat_uint uint_word_of_int)

text \<open>For a supported base the printing loop stops exactly when the quotient is 0.\<close>

lemma utoa_loop_wr:
  assumes "2 \<le> b" "b \<le> 36"
  shows "utoa_loop m str v b i =
    (wr m (str + i) (map (\<lambda>d. utoa_digits ! d) (rdigits (nat b) (unat v))), i + length (rdigits (nat b) (unat v)))"
  using assms
proof (induction m str v b i rule: utoa_loop.induct)
  case (1 m str v b i)
  let ?b = "word_of_int b :: 32 word"
  have b: "unat ?b = nat b" by (rule unat_base32 [OF 1(2,3)])
  have d: "unat (v div ?b) = unat v div nat b" and r: "unat (v mod ?b) = unat v mod nat b"
    by (simp_all only: unat_div unat_mod b)
  have lt: "unat v div nat b \<noteq> 0 \<Longrightarrow> unat v div nat b < unat v"
    using 1(2) by (intro div_less_dividend) (auto intro: gr0I)
  have z: "v div ?b = 0 \<longleftrightarrow> unat v div nat b = 0" by (metis d unsigned_eq_0_iff)
  show ?case
  proof (cases "v div ?b = 0")
    case True
    then show ?thesis using z r by (simp add: utoa_loop.simps [of m str v b i] rdigits.simps [of "nat b" "unat v"] del: fun_upd_apply)
  next
    case False
    then show ?thesis using 1 z r d lt
      by (simp add: utoa_loop.simps [of m str v b i] rdigits.simps [of "nat b" "unat v"] del: fun_upd_apply)
  qed
qed

lemma utoa_reverse_eq:
  "utoa_reverse m str j i = (\<lambda>a. if str + j \<le> a \<and> a \<le> str + i then m (str + j + (str + i) - a) else m a)"
proof (induction m str j i rule: utoa_reverse.induct)
  case (1 m str j i)
  show ?case
  proof (cases "j < i")
    case True
    show ?thesis
      unfolding utoa_reverse.simps [of m str j i] if_P [OF True] 1 [OF True]
    proof (rule ext)
      fix a
      let ?m' = "m(str + j := m (str + i), str + i := m (str + j))"
      consider "a < str + j \<or> str + i < a" | "a = str + j" | "a = str + i" | "str + j < a" "a < str + i" by linarith
      then show "(if str + (j + 1) \<le> a \<and> a \<le> str + (i - 1) then ?m' (str + (j + 1) + (str + (i - 1)) - a) else ?m' a) =
          (if str + j \<le> a \<and> a \<le> str + i then m (str + j + (str + i) - a) else m a)"
        using True by cases auto
    qed
  next
    case False
    have "str + j \<le> a \<Longrightarrow> a \<le> str + i \<Longrightarrow> str + j + (str + i) - a = a" for a using False by simp
    then show ?thesis unfolding utoa_reverse.simps [of m str j i] if_not_P [OF False] by auto
  qed
qed

lemma utoa_reverse_wr:
  assumes "xs \<noteq> []"
  shows "utoa_reverse (wr m str xs) str 0 (length xs - 1) = wr m str (rev xs)"
proof
  fix a
  have n: "0 < length xs" using assms by simp
  show "utoa_reverse (wr m str xs) str 0 (length xs - 1) a = wr m str (rev xs) a"
  proof (cases "str \<le> a \<and> a < str + length xs")
    case True
    define k where "k = a - str"
    have k: "a = str + k" "k < length xs" using True by (auto simp: k_def)
    have e: "str + 0 + (str + (length xs - 1)) - a = str + (length xs - Suc k)" using k by linarith
    have "str + 0 \<le> a \<and> a \<le> str + (length xs - 1)" using k by linarith
    then have "utoa_reverse (wr m str xs) str 0 (length xs - 1) a = wr m str xs (str + (length xs - Suc k))"
      unfolding utoa_reverse_eq e by simp
    also have "\<dots> = wr m str (rev xs) a" using k by (simp only: wr_in rev_nth length_rev)
    finally show ?thesis .
  next
    case False
    then have "\<not> (str + 0 \<le> a \<and> a \<le> str + (length xs - 1))" using n by linarith
    then show ?thesis using False unfolding utoa_reverse_eq if_not_P [OF \<open>\<not> (str + 0 \<le> a \<and> a \<le> str + (length xs - 1))\<close>]
      by (auto simp: wr_out not_le)
  qed
qed


lemma utoa_text:
  assumes "2 \<le> b" "b \<le> 36"
  shows "utoa m v str b = (wr m str (unumeral (nat b) (unat v) @ [0]), str)"
proof -
  let ?ds = "map (\<lambda>d. utoa_digits ! d) (rdigits (nat b) (unat v))"
  let ?n = "length ?ds"
  have n: "?ds \<noteq> []" by simp
  have swap: "(wr m str ?ds)(str + ?n := 0) = wr (m(str + ?n := 0)) str ?ds"
    by (auto simp: wr_eq)
  have "utoa m v str b = (utoa_reverse ((wr m str ?ds)(str + ?n := 0)) str 0 (?n - 1), str)"
    using assms by (simp add: utoa_def utoa_loop_wr [OF assms])
  also have "\<dots> = (wr (m(str + ?n := 0)) str (rev ?ds), str)"
    unfolding swap using utoa_reverse_wr [OF n] by simp
  also have "\<dots> = (wr m str (unumeral (nat b) (unat v) @ [0]), str)"
    by (auto simp: fun_eq_iff wr_eq unumeral_def rev_map nth_append)
  finally show ?thesis .
qed

lemma utoa_digit_ok:
  assumes "d < 36"
  shows "digit_of (uint (utoa_digits ! d)) = Some (int d) \<and> utoa_digits ! d \<noteq> 0 \<and>
    \<not> spec_space (uint (utoa_digits ! d)) \<and> uint (utoa_digits ! d) \<noteq> 43 \<and> uint (utoa_digits ! d) \<noteq> 45"
proof -
  have "\<forall>d \<in> set [0..<36]. digit_of (uint (utoa_digits ! d)) = Some (int d) \<and> utoa_digits ! d \<noteq> 0 \<and>
    \<not> spec_space (uint (utoa_digits ! d)) \<and> uint (utoa_digits ! d) \<noteq> 43 \<and> uint (utoa_digits ! d) \<noteq> 45"
    by (simp add: utoa_digits_def digit_of_def spec_space_def upt_rec)
  then show ?thesis using assms by auto
qed

lemma digits_text:
  assumes "\<forall>d \<in> set ds. int d < b" and "b \<le> 36"
  shows "digits b (map (\<lambda>d. uint (utoa_digits ! d)) ds) = ds"
  using assms
proof (induction ds)
  case (Cons d ds)
  then show ?case using utoa_digit_ok [of d] by (simp add: digits_Cons)
qed simp

lemma subject_text:
  assumes "2 \<le> b" "b \<le> 36"
  shows "scan_subject b (map uint (unumeral (nat b) v)) = (False, b, rev (rdigits (nat b) v), length (rdigits (nat b) v))"
proof -
  let ?ds = "rev (rdigits (nat b) v)"
  have lt: "\<forall>d \<in> set ?ds. int d < b" using assms rdigits_less [of "nat b"] by force
  have t: "map uint (unumeral (nat b) v) = map (\<lambda>d. uint (utoa_digits ! d)) ?ds"
    by (simp add: unumeral_def)
  obtain d ds where ds: "?ds = d # ds" by (cases ?ds) auto
  have d: "d < 36" using ds lt assms by simp
  have s: "sign_of (dropWhile spec_space (map (\<lambda>d. uint (utoa_digits ! d)) ?ds)) =
      (False, map (\<lambda>d. uint (utoa_digits ! d)) ?ds)"
    using utoa_digit_ok [OF d] by (simp add: ds)
  have x: "take 2 (map (\<lambda>d. uint (utoa_digits ! d)) ?ds) \<noteq> [48, c]"
    if "b = 16" "c = 120 \<or> c = 88" for c
  proof
    assume "take 2 (map (\<lambda>d. uint (utoa_digits ! d)) ?ds) = [48, c]"
    then obtain e es where "ds = e # es" "uint (utoa_digits ! e) = c" using ds by (cases ds) auto
    moreover then have "e < 16" using lt ds \<open>b = 16\<close> by simp
    ultimately show False using utoa_digit_ok [of e] that by (auto simp: digit_of_def)
  qed
  then have "scan_base b (map (\<lambda>d. uint (utoa_digits ! d)) ?ds) = (b, map (\<lambda>d. uint (utoa_digits ! d)) ?ds)"
    using assms by (auto simp: scan_base_def)
  then show ?thesis using digits_text [OF lt assms(2)] s by (simp add: scan_subject_def t)
qed


lemma unumeral_nonzero: "2 \<le> b \<Longrightarrow> b \<le> 36 \<Longrightarrow> 0 \<notin> set (unumeral b v)"
  using utoa_digit_ok rdigits_less [of b] by (force simp: unumeral_def)

lemma cstr_utoa:
  assumes "2 \<le> b" "b \<le> 36"
  shows "cstr (fst (utoa m v str b)) str (unumeral (nat b) (unat v))"
  using assms unumeral_nonzero [of "nat b"] by (simp add: utoa_text cstr_wr)


lemma itoa_text:
  "itoa m v str 10 =
     (if sint v = - (2 ^ 31) then None
      else Some (wr m str ((if sint v < 0 then [45] else []) @ unumeral 10 (unat (if sint v < 0 then - v else v)) @ [0]), str))"
  by (simp add: itoa_def utoa_text)

lemma subject_minus:
  assumes "scan_subject b xs = (False, b, ds, n)" and "xs = [] \<or> \<not> spec_space (hd xs) \<and> hd xs \<noteq> 43 \<and> hd xs \<noteq> 45"
  shows "scan_subject b (45 # xs) = (True, b, ds, Suc n)"
proof -
  have s: "sign_of (dropWhile spec_space xs) = (False, xs)" using assms(2) by (cases xs) auto
  have m: "sign_of (dropWhile spec_space (45 # xs)) = (True, xs)" by (simp add: spec_space_def)
  have "length (snd (scan_base b xs)) \<le> length xs" by (rule length_scan_base)
  then show ?thesis using assms(1) unfolding scan_subject_def s m by (auto simp: Let_def split: prod.splits)
qed

lemma unumeral_hd:
  assumes "2 \<le> b" "b \<le> 36"
  shows "\<not> spec_space (hd (map uint (unumeral b v)))" "hd (map uint (unumeral b v)) \<noteq> 43"
    "hd (map uint (unumeral b v)) \<noteq> 45"
proof -
  obtain d ds where ds: "rev (rdigits b v) = d # ds" by (cases "rev (rdigits b v)") auto
  then have "d \<in> set (rdigits b v)" by (metis list.set_intros(1) set_rev)
  then have "d < 36" using rdigits_less [OF assms(1)] assms(2) by (meson less_le_trans)
  then show "\<not> spec_space (hd (map uint (unumeral b v)))" "hd (map uint (unumeral b v)) \<noteq> 43"
      "hd (map uint (unumeral b v)) \<noteq> 45"
    using utoa_digit_ok [of d] by (simp_all add: unumeral_def ds)
qed

lemma subject_itoa:
  "scan_subject 10 (map uint ((if neg then [45] else []) @ unumeral 10 v)) =
     (neg, 10, rev (rdigits 10 v), length (rdigits 10 v) + (if neg then 1 else 0))"
  using subject_text [of 10 v] subject_minus [of 10 "map uint (unumeral 10 v)"] unumeral_hd [of 10 v]
  by simp

lemma sint_uint32: "sint (v :: 32 word) = (if uint v < 2 ^ 31 then uint v else uint v - 2 ^ 32)"
proof -
  have "sint v = (uint v + 2 ^ 31) mod 2 ^ 32 - 2 ^ 31"
    by (simp add: sint_uint signed_take_bit_eq_take_bit_shift take_bit_eq_mod)
  moreover have "(uint v + 2 ^ 31) mod 2 ^ 32 =
      (if uint v < 2 ^ 31 then uint v + 2 ^ 31 else uint v + 2 ^ 31 - 2 ^ 32)"
  proof (cases "uint v < 2 ^ 31")
    case False
    have "(uint v + 2 ^ 31) mod 2 ^ 32 = (uint v + 2 ^ 31 - 2 ^ 32) mod 2 ^ 32"
      using mod_add_self2 [of "uint v + 2 ^ 31 - 2 ^ 32" "2 ^ 32"] by (simp add: add.commute)
    also have "\<dots> = uint v + 2 ^ 31 - 2 ^ 32"
      using False uint_lt2p [of v] by (intro mod_pos_pos_trivial) auto
    finally show ?thesis using False by simp
  qed (simp add: mod_pos_pos_trivial)
  ultimately show ?thesis by simp
qed

lemma abs_int32:
  "(if sint v < 0 then - int (unat (- v)) else int (unat v)) = sint (v :: 32 word)"
proof (cases "sint v < 0")
  case True
  then have "2 ^ 31 \<le> uint v" using sint_uint32 [of v] uint_ge_0 [of v] by (auto split: if_splits)
  then have "uint (- v) = 2 ^ 32 - uint v"
    using uint_lt2p [of v] by (simp add: uint_word_ariths(4) zmod_zminus1_eq_if)
  then show ?thesis using True \<open>2 ^ 31 \<le> uint v\<close> by (simp add: sint_uint32)
next
  case False
  then show ?thesis using uint_lt2p [of v] by (auto simp: sint_uint32 split: if_splits)
qed

section \<open>Properties\<close>



text \<open>
  \<open>strtol\<close> rejects an unsupported base with \<open>EINVAL\<close>, without reading the
  string or touching \<open>endptr\<close>, and returns 0; \<open>strtoimax\<close> and \<open>strtoumax\<close> read the white space and the sign
  first, set \<open>EINVAL\<close> and store the start of the string through \<open>endptr\<close>.
\<close>

theorem strto_bad_base:
  assumes "base = 1 \<or> base < 0 \<or> 36 < base"
    and "cstr (rmem R) nptr xs" and "\<forall>x \<in> set xs. 0 \<le> sint x"
  shows "strtol R p endptr base = Some (R\<lparr>rerrno := EINVAL\<rparr>, 0) \<and>
    strtoimax_l R nptr endptr base = Some (put_end endptr nptr (R\<lparr>rerrno := EINVAL\<rparr>), 0) \<and>
    strtoumax_l R nptr endptr base = Some (put_end endptr nptr (R\<lparr>rerrno := EINVAL\<rparr>), 0)"
proof -
  have c: "\<forall>c \<in> set (map sint xs). - 1 \<le> c \<and> c \<le> 127"
    using assms(3) sint_byte_le by force
  obtain neg b ds n where s: "scan_subject base (map sint xs) = (neg, b, ds, n)" by (metis prod_cases4)
  obtain q where q: "strto_start isspace (rd_char (rmem R)) 1 nptr base = Some (neg, b, rd_char (rmem R) q, q + 1)"
    using schar.strto_start_rstr [OF cstr_rstr_signed [OF assms(2)] c, of base] s by auto
  have "b < 2 \<or> 36 < b"
    using s assms(1) by (auto simp: scan_subject_def scan_base_def Let_def split: prod.splits if_splits)
  then show ?thesis using q assms(1)
    by (auto simp: strtol_def strto_defs put_end_def set_endptr_def)
qed

theorem strto_bad_base_witness:
  "strtol \<lparr>rmem = text_mem 1 [49], rerrno = 0\<rparr> 1 0 37 = Some (\<lparr>rmem = text_mem 1 [49], rerrno = EINVAL\<rparr>, 0) \<and>
   strtoimax_l \<lparr>rmem = text_mem 1 [49], rerrno = 0\<rparr> 1 0 37 = Some (\<lparr>rmem = text_mem 1 [49], rerrno = EINVAL\<rparr>, 0)"
  using strto_bad_base [of 37 "\<lparr>rmem = text_mem 1 [49], rerrno = 0\<rparr>" 1 "[49]" 1 0]
  by (simp add: text_mem_def put_end_def)

text \<open>
  C23: \<open>itoa\<close> in base 10 prints every \<open>int\<close> but the most negative one, where the negation overflows, and reading back
  what it prints gives the number.
\<close>

theorem strtol_itoa:
  "if sint v = - (2 ^ 31) then itoa (rmem R) v str 10 = None
   else \<exists>m. itoa (rmem R) v str 10 = Some (m, str) \<and> strtol (R\<lparr>rmem := m\<rparr>) str 0 10 = Some (R\<lparr>rmem := m\<rparr>, scast v)"
proof (cases "sint v = - (2 ^ 31)")
  case True
  then show ?thesis by (simp add: itoa_text)
next
  case False
  let ?n = "sint v < 0" and ?u = "unat (if sint v < 0 then - v else v)"
  let ?xs = "(if ?n then [45] else []) @ unumeral 10 ?u :: byte list"
  let ?m = "wr (rmem R) str (?xs @ [0])"
  have i: "itoa (rmem R) v str 10 = Some (?m, str)" using False by (simp add: itoa_text)
  have "cstr ?m str ?xs"
    using unumeral_nonzero [of 10 ?u] cstr_wr [of ?xs "rmem R" str] by simp
  then have c: "cstr (rmem (R\<lparr>rmem := ?m\<rparr>)) str ?xs" by simp
  have ten: "(10 :: int) = 0 \<or> 2 \<le> (10 :: int) \<and> (10 :: int) \<le> 36" by simp
  have "subject_value ?n 10 (rev (rdigits 10 ?u)) = sint v"
    using abs_int32 [of v] by (cases ?n) (simp_all add: subject_value_def horner_rdigits)
  moreover have "- (2 ^ 31) \<le> sint v" "sint v < 2 ^ 31" using sint_ge [of v] sint_less [of v] by auto
  ultimately have "strtol (R\<lparr>rmem := ?m\<rparr>) str 0 10 = Some (R\<lparr>rmem := ?m\<rparr>, scast v)"
    unfolding strtol_def narrow_eq(1) [OF c ten] subject_itoa
    by (simp add: signed_result_def set_errno_def put_end_def clamp64_def)
  then show ?thesis using False i by auto
qed

text \<open>
  reading back what \<open>utoa\<close> prints gives the number, in every base.
\<close>

theorem strtoul_utoa:
  assumes "2 \<le> b" and "b \<le> 36"
  shows "strtoul_l (R\<lparr>rmem := fst (utoa (rmem R) v str b)\<rparr>) str 0 b =
     Some (R\<lparr>rmem := fst (utoa (rmem R) v str b)\<rparr>, ucast v)"
proof -
  let ?m = "fst (utoa (rmem R) v str b)"
  have c: "cstr (rmem (R\<lparr>rmem := ?m\<rparr>)) str (unumeral (nat b) (unat v))"
    using cstr_utoa [OF assms] by simp
  have "subject_value False b (rev (rdigits (nat b) (unat v))) = uint v"
    using assms by (simp add: subject_value_def horner_rdigits)
  moreover have "uint v < 2 ^ 32" using uint_lt2p [of v] by simp
  ultimately show ?thesis
    using narrow_eq(3) [OF c, of b 0] assms subject_text [OF assms]
    by (simp add: unsigned_result_def set_errno_def put_end_def)
qed

theorem strtoul_utoa_witness:
  "strtoul_l \<lparr>rmem = fst (utoa (\<lambda>a. 7) 255 100 16), rerrno = 0\<rparr> 100 0 16 =
     Some (\<lparr>rmem = fst (utoa (\<lambda>a. 7) 255 100 16), rerrno = 0\<rparr>, 255)"
  using strtoul_utoa [of 16 "\<lparr>rmem = \<lambda>a. 7, rerrno = 0\<rparr>" 255 100] by simp

end
