(* ===== verification/Newlib_Mprec.thy ===== *)
theory Newlib_Mprec
  imports Ficus_Base "HOL-Library.Monad_Syntax"
begin

text \<open>
  The multiple-precision integers of \<open>libc/stdlib/mprec.c\<close>, on which \<open>dtoa\<close>
  and \<open>strtod\<close> rest: numbers of 32-bit words (\<open>Pack_32\<close>), least significant
  first, multiplied half-word by half-word in 32-bit arithmetic.

  A \<open>_Bigint\<close> is a record with its whole word array; the functions take and
  return the numbers by value.  The reentrancy structure holds the free lists
  by size and the cached powers of 5; \<open>mp_calloc k\<close> says whether \<open>_calloc_r\<close>
  satisfies a request for a number of size \<open>k\<close>.  \<open>eBalloc\<close> asserts that the
  allocation succeeded, so \<open>None\<close> is the failed assertion.
\<close>

unbundle bit_operations_syntax

section \<open>Numbers and their allocation\<close>

record bigint =
  b_k :: nat
  b_maxwds :: nat
  b_sign :: int
  b_wds :: nat
  b_x :: "32 word list"

record mp_reent =
  mp_freelist :: "(nat \<Rightarrow> bigint list) option"
  mp_p5s :: "bigint list"
  mp_calloc :: "nat \<Rightarrow> bool"

definition Kmax :: nat where "Kmax = 64"

text \<open>The array of free lists has \<open>Kmax + 1\<close> entries; a larger index is outside it.\<close>

definition Balloc :: "mp_reent \<Rightarrow> nat \<Rightarrow> (bigint \<times> mp_reent) option" where
  "Balloc R k =
     (if k > Kmax then None
      else do {
        fl \<leftarrow> (case mp_freelist R of
                 None \<Rightarrow> if mp_calloc R 0 then Some (\<lambda>k. []) else None
               | Some fl \<Rightarrow> Some fl);
        let R = R\<lparr>mp_freelist := Some fl\<rparr>;
        (rv, R) \<leftarrow> (case fl k of
            rv # rest \<Rightarrow> Some (rv, R\<lparr>mp_freelist := Some (fl(k := rest))\<rparr>)
          | [] \<Rightarrow>
              if mp_calloc R k
              then Some (\<lparr>b_k = k, b_maxwds = 2 ^ k, b_sign = 0, b_wds = 0, b_x = replicate (2 ^ k) 0\<rparr>, R)
              else None);
        Some (rv\<lparr>b_sign := 0, b_wds := 0\<rparr>, R)
      })"

definition Bfree :: "mp_reent \<Rightarrow> bigint \<Rightarrow> mp_reent" where
  "Bfree R v =
     (case mp_freelist R of
        None \<Rightarrow> R
      | Some fl \<Rightarrow> R\<lparr>mp_freelist := Some (fl(b_k v := v # fl (b_k v)))\<rparr>)"

text \<open>\<open>Bcopy\<close> copies the sign, the length and the words in use.\<close>

definition Bcopy :: "bigint \<Rightarrow> bigint \<Rightarrow> bigint" where
  "Bcopy x y = x\<lparr>b_sign := b_sign y, b_wds := b_wds y,
     b_x := take (b_wds y) (b_x y) @ drop (b_wds y) (b_x x)\<rparr>"

section \<open>Multiplication by a small number\<close>

fun multadd_loop :: "32 word list \<Rightarrow> 32 word \<Rightarrow> 32 word \<Rightarrow> 32 word list \<times> 32 word" where
  "multadd_loop [] m a = ([], a)"
| "multadd_loop (xi # xs) m a =
     (let y = (xi AND 0xffff) * m + a;
          z = drop_bit 16 xi * m + drop_bit 16 y;
          (ws, a') = multadd_loop xs m (drop_bit 16 z)
      in ((push_bit 16 z + (y AND 0xffff)) # ws, a'))"

definition multadd :: "mp_reent \<Rightarrow> bigint \<Rightarrow> 32 word \<Rightarrow> 32 word \<Rightarrow> (bigint \<times> mp_reent) option" where
  "multadd R b m a =
     (let wds = b_wds b; n = max 1 wds;
          (ws, a) = multadd_loop (take n (b_x b)) m a;
          b = b\<lparr>b_x := ws @ drop n (b_x b)\<rparr>
      in if a \<noteq> 0 then do {
           (b, R) \<leftarrow> (if wds \<ge> b_maxwds b
                      then do {
                        (b1, R) \<leftarrow> Balloc R (b_k b + 1);
                        Some (Bcopy b1 b, Bfree R b)
                      }
                      else Some (b, R));
           Some (b\<lparr>b_x := (b_x b)[wds := a], b_wds := wds + 1\<rparr>, R)
         }
         else Some (b, R))"

function s2b_size :: "nat \<Rightarrow> nat \<Rightarrow> nat \<Rightarrow> nat" where
  "s2b_size x y k = (if x > y \<and> y > 0 then s2b_size x (2 * y) (k + 1) else k)"
  by pat_completeness auto
termination by (relation "measure (\<lambda>(x, y, k). x - y)") auto

text \<open>The loops \<open>b = multadd (ptr, b, 10, *s++ - '0')\<close> over a run of digits.\<close>

fun s2b_digits :: "mp_reent \<Rightarrow> bigint \<Rightarrow> byte list \<Rightarrow> (bigint \<times> mp_reent) option" where
  "s2b_digits R b [] = Some (b, R)"
| "s2b_digits R b (c # cs) = do {
     (b, R) \<leftarrow> multadd R b 10 (word_of_int (sint c - 48));
     s2b_digits R b cs
   }"

definition s2b :: "mp_reent \<Rightarrow> mem \<Rightarrow> addr \<Rightarrow> nat \<Rightarrow> nat \<Rightarrow> 32 word \<Rightarrow> (bigint \<times> mp_reent) option" where
  "s2b R m s nd0 nd y9 = do {
     let k = s2b_size ((nd + 8) div 9) 1 0;
     (b, R) \<leftarrow> Balloc R k;
     let b = b\<lparr>b_x := (b_x b)[0 := y9], b_wds := 1\<rparr>;
     if 9 < nd0 then do {
       (b, R) \<leftarrow> s2b_digits R b (bytes_of m (s + 9) (nd0 - 9));
       s2b_digits R b (bytes_of m (s + nd0 + 1) (nd - nd0))
     }
     else s2b_digits R b (bytes_of m (s + 10) (nd - 9))
   }"

section \<open>Bit counts\<close>

definition hi0bits :: "32 word \<Rightarrow> int" where
  "hi0bits x =
     (let k = 0;
          (k, x) = (if x AND 0xffff0000 = 0 then (16, push_bit 16 x) else (k, x));
          (k, x) = (if x AND 0xff000000 = 0 then (k + 8, push_bit 8 x) else (k, x));
          (k, x) = (if x AND 0xf0000000 = 0 then (k + 4, push_bit 4 x) else (k, x));
          (k, x) = (if x AND 0xc0000000 = 0 then (k + 2, push_bit 2 x) else (k, x))
      in if x AND 0x80000000 = 0
         then if x AND 0x40000000 = 0 then 32 else k + 1
         else k)"

text \<open>The result and the shifted number that \<open>lo0bits\<close> stores through \<open>y\<close>.\<close>

definition lo0bits :: "32 word \<Rightarrow> int \<times> 32 word" where
  "lo0bits y =
     (let x = y in
      if x AND 7 \<noteq> 0 then
        if x AND 1 \<noteq> 0 then (0, y)
        else if x AND 2 \<noteq> 0 then (1, drop_bit 1 x)
        else (2, drop_bit 2 x)
      else
        let k = 0;
            (k, x) = (if x AND 0xffff = 0 then (16, drop_bit 16 x) else (k, x));
            (k, x) = (if x AND 0xff = 0 then (k + 8, drop_bit 8 x) else (k, x));
            (k, x) = (if x AND 0xf = 0 then (k + 4, drop_bit 4 x) else (k, x));
            (k, x) = (if x AND 0x3 = 0 then (k + 2, drop_bit 2 x) else (k, x))
        in if x AND 1 = 0
           then let k = k + 1; x = drop_bit 1 x in if x = 0 then (32, y) else (k, x)
           else (k, x))"

definition i2b :: "mp_reent \<Rightarrow> 32 word \<Rightarrow> (bigint \<times> mp_reent) option" where
  "i2b R i = do {
     (b, R) \<leftarrow> Balloc R 1;
     Some (b\<lparr>b_x := (b_x b)[0 := i], b_wds := 1\<rparr>, R)
   }"

section \<open>Multiplication\<close>

definition Storeinc :: "32 word \<Rightarrow> 32 word \<Rightarrow> 32 word" where
  "Storeinc b c = push_bit 16 b OR (c AND 0xffff)"

text \<open>
  One row of the product for the low and the high half-word \<open>y\<close> of a word of
  \<open>b\<close>: the words of \<open>a\<close>, the words of \<open>c\<close> from \<open>xc0\<close>; the words from the end of
  the row on are left alone.
\<close>

fun mult_lo :: "32 word list \<Rightarrow> 32 word \<Rightarrow> 32 word list \<Rightarrow> 32 word \<Rightarrow> 32 word list" where
  "mult_lo (x # xs) y (c # cs) carry =
     (let z = (x AND 0xffff) * y + (c AND 0xffff) + carry;
          carry = drop_bit 16 z;
          z2 = drop_bit 16 x * y + drop_bit 16 c + carry;
          carry = drop_bit 16 z2
      in Storeinc z2 z # mult_lo xs y cs carry)"
| "mult_lo [] y (c # cs) carry = carry # cs"
| "mult_lo xs y [] carry = []"

fun mult_hi :: "32 word list \<Rightarrow> 32 word \<Rightarrow> 32 word list \<Rightarrow> 32 word \<Rightarrow> 32 word \<Rightarrow> 32 word list" where
  "mult_hi (x # xs) y (c # c' # cs) z2 carry =
     (let z = (x AND 0xffff) * y + drop_bit 16 c + carry;
          carry = drop_bit 16 z;
          w = Storeinc z z2;
          z2 = drop_bit 16 x * y + (c' AND 0xffff) + carry;
          carry = drop_bit 16 z2
      in w # mult_hi xs y (c' # cs) z2 carry)"
| "mult_hi [] y (c # cs) z2 carry = z2 # cs"
| "mult_hi xs y cs z2 carry = cs"

definition mult_row :: "32 word list \<Rightarrow> 32 word \<Rightarrow> 32 word list \<Rightarrow> 32 word list" where
  "mult_row xa b c =
     (let y = b AND 0xffff;
          c = (if y \<noteq> 0 then mult_lo xa y c 0 else c);
          y = drop_bit 16 b
      in if y \<noteq> 0 then mult_hi xa y c (hd c) 0 else c)"

fun mult_rows :: "32 word list \<Rightarrow> 32 word list \<Rightarrow> 32 word list \<Rightarrow> 32 word list" where
  "mult_rows xa [] c = c"
| "mult_rows xa (b # bs) c = (let c = mult_row xa b c in hd c # mult_rows xa bs (tl c))"

text \<open>\<open>for (...; wc > 0 && !*--xc; --wc);\<close>\<close>

fun strip0 :: "32 word list \<Rightarrow> nat \<Rightarrow> nat" where
  "strip0 xs 0 = 0"
| "strip0 xs (Suc wc) = (if xs ! wc = 0 then strip0 xs wc else Suc wc)"

definition mult :: "mp_reent \<Rightarrow> bigint \<Rightarrow> bigint \<Rightarrow> (bigint \<times> mp_reent) option" where
  "mult R a b =
     (let (a, b) = (if b_wds a < b_wds b then (b, a) else (a, b));
          wa = b_wds a; wb = b_wds b; wc = wa + wb;
          k = (if wc > b_maxwds a then b_k a + 1 else b_k a)
      in do {
        (c, R) \<leftarrow> Balloc R k;
        let xs = mult_rows (take wa (b_x a)) (take wb (b_x b)) (replicate wc 0 @ drop wc (b_x c));
        Some (c\<lparr>b_x := xs, b_wds := strip0 xs wc\<rparr>, R)
      })"

section \<open>Powers of 5\<close>

text \<open>
  \<open>p5\<close> walks the list \<open>mp_p5s\<close> of the powers \<open>5^4, 5^8, 5^16, ...\<close>, which grows by
  squaring its last element; \<open>i\<close> is the position of \<open>p5\<close> in it.
\<close>

function pow5_loop :: "mp_reent \<Rightarrow> bigint \<Rightarrow> nat \<Rightarrow> nat \<Rightarrow> (bigint \<times> mp_reent) option" where
  "pow5_loop R b k i = do {
     (b, R) \<leftarrow> (if odd k then do {
                   (b1, R) \<leftarrow> mult R b (mp_p5s R ! i);
                   Some (b1, Bfree R b)
                 }
                 else Some (b, R));
     if k div 2 = 0 then Some (b, R)
     else do {
       R \<leftarrow> (if i + 1 < length (mp_p5s R) then Some R
              else do {
                (p51, R) \<leftarrow> mult R (mp_p5s R ! i) (mp_p5s R ! i);
                Some (R\<lparr>mp_p5s := mp_p5s R @ [p51]\<rparr>)
              });
       pow5_loop R b (k div 2) (i + 1)
     }
   }"
  by pat_completeness auto
termination by (relation "measure (\<lambda>(R, b, k, i). k)") auto

definition p05 :: "32 word list" where "p05 = [5, 25, 125]"

definition pow5mult :: "mp_reent \<Rightarrow> bigint \<Rightarrow> nat \<Rightarrow> (bigint \<times> mp_reent) option" where
  "pow5mult R b k = do {
     let i = k mod 4;
     (b, R) \<leftarrow> (if i \<noteq> 0 then multadd R b (p05 ! (i - 1)) 0 else Some (b, R));
     let k = k div 4;
     if k = 0 then Some (b, R)
     else do {
       R \<leftarrow> (if mp_p5s R = [] then do {
                (p5, R) \<leftarrow> i2b R 625;
                Some (R\<lparr>mp_p5s := [p5]\<rparr>)
              }
              else Some R);
       pow5_loop R b k 0
     }
   }"

section \<open>Shift, comparison and difference\<close>

function lshift_size :: "nat \<Rightarrow> nat \<Rightarrow> nat \<Rightarrow> nat" where
  "lshift_size n1 i k1 = (if n1 > i \<and> i > 0 then lshift_size n1 (2 * i) (k1 + 1) else k1)"
  by pat_completeness auto
termination by (relation "measure (\<lambda>(n1, i, k1). n1 - i)") auto

fun lshift_loop :: "32 word list \<Rightarrow> nat \<Rightarrow> 32 word \<Rightarrow> 32 word list \<times> 32 word" where
  "lshift_loop [] k z = ([], z)"
| "lshift_loop (x # xs) k z =
     (let (ws, z') = lshift_loop xs k (drop_bit (32 - k) x) in ((push_bit k x OR z) # ws, z'))"

definition lshift :: "mp_reent \<Rightarrow> bigint \<Rightarrow> nat \<Rightarrow> (bigint \<times> mp_reent) option" where
  "lshift R b k =
     (let n = k div 32;
          n1 = n + b_wds b + 1;
          k1 = lshift_size n1 (b_maxwds b) (b_k b);
          xs = take (max 1 (b_wds b)) (b_x b);
          k = k mod 32
      in do {
        (b1, R) \<leftarrow> Balloc R k1;
        let (ws, n1) =
          (if k \<noteq> 0
           then let (ws, z) = lshift_loop xs k 0 in (ws @ [z], if z \<noteq> 0 then n1 + 1 else n1)
           else (xs, n1));
        let x1 = replicate n 0 @ ws;
        Some (b1\<lparr>b_x := x1 @ drop (length x1) (b_x b1), b_wds := n1 - 1\<rparr>, Bfree R b)
      })"

fun cmp_loop :: "32 word list \<Rightarrow> 32 word list \<Rightarrow> nat \<Rightarrow> int" where
  "cmp_loop xa xb 0 = 0"
| "cmp_loop xa xb (Suc j) =
     (if xa ! j \<noteq> xb ! j then if xa ! j < xb ! j then -1 else 1 else cmp_loop xa xb j)"

definition cmp :: "bigint \<Rightarrow> bigint \<Rightarrow> int" where
  "cmp a b =
     (let i = int (b_wds a) - int (b_wds b)
      in if i \<noteq> 0 then i else cmp_loop (b_x a) (b_x b) (max 1 (b_wds b)))"

text \<open>
  \<open>borrow\<close> and the differences are signed; \<open>>> 16\<close> on them is the arithmetic
  shift, and \<open>Sign_Extend\<close> does nothing.
\<close>

fun diff_loop :: "32 word list \<Rightarrow> 32 word list \<Rightarrow> 32 word \<Rightarrow> 32 word list" where
  "diff_loop (xa # as) (xb # bs) borrow =
     (let y = (xa AND 0xffff) - (xb AND 0xffff) + borrow;
          borrow = signed_drop_bit 16 y;
          z = drop_bit 16 xa - drop_bit 16 xb + borrow;
          borrow = signed_drop_bit 16 z
      in Storeinc z y # diff_loop as bs borrow)"
| "diff_loop (xa # as) [] borrow =
     (let y = (xa AND 0xffff) + borrow;
          borrow = signed_drop_bit 16 y;
          z = drop_bit 16 xa + borrow;
          borrow = signed_drop_bit 16 z
      in Storeinc z y # diff_loop as [] borrow)"
| "diff_loop [] bs borrow = []"

definition diff :: "mp_reent \<Rightarrow> bigint \<Rightarrow> bigint \<Rightarrow> (bigint \<times> mp_reent) option" where
  "diff R a b =
     (let i = cmp a b
      in if i = 0 then do {
           (c, R) \<leftarrow> Balloc R 0;
           Some (c\<lparr>b_wds := 1, b_x := (b_x c)[0 := 0]\<rparr>, R)
         }
         else
           let (a, b, s) = (if i < 0 then (b, a, 1) else (a, b, 0))
           in do {
             (c, R) \<leftarrow> Balloc R (b_k a);
             let xs = diff_loop (take (b_wds a) (b_x a)) (take (b_wds b) (b_x b)) 0;
             Some (c\<lparr>b_sign := s, b_x := xs @ drop (length xs) (b_x c), b_wds := strip0 xs (b_wds a)\<rparr>, R)
           })"

section \<open>Bit fields\<close>

definition copybits :: "nat \<Rightarrow> bigint \<Rightarrow> 32 word list" where
  "copybits n b =
     (let ce = (n - 1) div 32 + 1; xs = take (b_wds b) (b_x b)
      in xs @ replicate (ce - length xs) 0)"

definition any_on :: "bigint \<Rightarrow> nat \<Rightarrow> bool" where
  "any_on b k =
     (let nwds = b_wds b; n = k div 32
      in if n > nwds then \<exists>w \<in> set (take nwds (b_x b)). w \<noteq> 0
         else if n < nwds \<and> k mod 32 \<noteq> 0 \<and>
                 push_bit (k mod 32) (drop_bit (k mod 32) (b_x b ! n)) \<noteq> b_x b ! n
         then True
         else \<exists>w \<in> set (take n (b_x b)). w \<noteq> 0)"

declare s2b_size.simps [simp del] lshift_size.simps [simp del] pow5_loop.simps [simp del]

section \<open>The value of a number\<close>

primrec wval :: "32 word list \<Rightarrow> nat" where
  "wval [] = 0"
| "wval (x # xs) = unat x + 2 ^ 32 * wval xs"

definition bval :: "bigint \<Rightarrow> nat" where
  "bval b = wval (take (b_wds b) (b_x b))"

text \<open>
  A well-formed number: the array has \<open>2 ^ k\<close> words of which at least one is in
  use.  It is normal when its top word is not 0, unless it has only one.
\<close>

definition bigint_ok :: "bigint \<Rightarrow> bool" where
  "bigint_ok b \<longleftrightarrow> b_maxwds b = 2 ^ b_k b \<and> length (b_x b) = b_maxwds b \<and>
     1 \<le> b_wds b \<and> b_wds b \<le> b_maxwds b"

definition bigint_normal :: "bigint \<Rightarrow> bool" where
  "bigint_normal b \<longleftrightarrow> bigint_ok b \<and> (b_wds b = 1 \<or> b_x b ! (b_wds b - 1) \<noteq> 0)"

section \<open>Half-words\<close>

lemma unat_word32_less: "unat (x :: 32 word) < 2 ^ 32"
  using unsigned_less [of x] by simp

lemma unat_lo: "unat (x AND 0xffff :: 32 word) = unat x mod 2 ^ 16"
proof -
  have "x AND 0xffff = x mod 2 ^ 16"
    unfolding take_bit_eq_mod [symmetric] take_bit_eq_mask by (simp add: mask_eq_exp_minus_1)
  then show ?thesis by (simp add: unat_mod)
qed

lemma unat_hi: "unat (drop_bit 16 x :: 32 word) = unat x div 2 ^ 16"
  by (simp add: drop_bit_eq_div unat_div)

lemma unat_plus_small: "unat x + unat y < 2 ^ 32 \<Longrightarrow> unat (x + y :: 32 word) = unat x + unat y"
  by (simp add: unat_word_ariths)

lemma unat_times_small: "unat x * unat y < 2 ^ 32 \<Longrightarrow> unat (x * y :: 32 word) = unat x * unat y"
  by (simp add: unat_word_ariths)

lemma unat_push16: "unat (push_bit 16 z :: 32 word) = (unat z mod 2 ^ 16) * 2 ^ 16"
proof -
  have "unat (push_bit 16 z) = (unat z * 2 ^ 16) mod (2 ^ 16 * 2 ^ 16)"
    by (simp add: push_bit_eq_mult unat_word_ariths)
  then show ?thesis by (simp only: mult_mod_left)
qed

lemma unat_Storeinc: "unat (Storeinc b c) = (unat b mod 2 ^ 16) * 2 ^ 16 + unat c mod 2 ^ 16"
proof -
  have "push_bit 16 b AND (c AND 0xffff) = 0"
  proof (rule bit_word_eqI)
    fix n :: nat
    have "(0xffff :: 32 word) = mask 16" by (simp add: mask_eq_exp_minus_1)
    then show "bit (push_bit 16 b AND (c AND 0xffff)) n \<longleftrightarrow> bit (0 :: 32 word) n"
      by (simp only: bit_simps) auto
  qed
  then have "Storeinc b c = push_bit 16 b + (c AND 0xffff)"
    unfolding Storeinc_def by (metis disjunctive_add_eq_or)
  moreover have "unat (push_bit 16 b) + unat (c AND 0xffff) < 2 ^ 32"
    using mod_less_divisor [of "2 ^ 16" "unat b"] mod_less_divisor [of "2 ^ 16" "unat c"]
    unfolding unat_push16 unat_lo by simp
  ultimately show ?thesis by (simp only: unat_plus_small unat_push16 unat_lo)
qed

lemma half_mult_bound: "a < 2 ^ 16 \<Longrightarrow> b < 2 ^ 16 \<Longrightarrow> c < 2 ^ 16 \<Longrightarrow> d < 2 ^ 16 \<Longrightarrow> a * b + c + d < (2 ^ 32 :: nat)"
proof -
  assume *: "a < 2 ^ 16" "b < 2 ^ 16" "c < 2 ^ 16" "d < 2 ^ 16"
  then have "a * b \<le> (2 ^ 16 - 1) * (2 ^ 16 - 1)" by (intro mult_le_mono) simp_all
  then show ?thesis using * by simp
qed

text \<open>\<open>a * b + c + d\<close> of half-words does not wrap around in 32 bits.\<close>

lemma unat_half_mac:
  fixes a b c d :: "32 word"
  assumes "unat a < 2 ^ 16" "unat b < 2 ^ 16" "unat c < 2 ^ 16" "unat d < 2 ^ 16"
  shows "unat (a * b + c + d) = unat a * unat b + unat c + unat d"
proof -
  note bound = half_mult_bound [OF assms]
  have 1: "unat (a * b) = unat a * unat b" using bound by (intro unat_times_small) simp
  have 2: "unat (a * b + c) = unat a * unat b + unat c" using bound 1 by (subst unat_plus_small) simp_all
  show ?thesis using bound 2 by (subst unat_plus_small) simp_all
qed

lemma halves_less: "unat (x AND 0xffff :: 32 word) < 2 ^ 16" "unat (drop_bit 16 x :: 32 word) < 2 ^ 16"
  using unat_word32_less [of x] by (simp_all only: unat_lo unat_hi) (simp_all add: div_less_iff_less_mult)

lemma halves: "unat (x :: 32 word) = unat (drop_bit 16 x) * 2 ^ 16 + unat (x AND 0xffff)"
  by (simp only: unat_lo unat_hi div_mult_mod_eq)

lemma rejoin_aux: "r * 2 ^ 16 + y + 2 ^ 32 * q = 2 ^ 16 * (2 ^ 16 * q + r) + (y :: nat)"
  by simp

lemma rejoin: "(z mod 2 ^ 16) * 2 ^ 16 + y + 2 ^ 32 * (z div 2 ^ 16) = 2 ^ 16 * z + (y :: nat)"
  using rejoin_aux [of "z mod 2 ^ 16" y "z div 2 ^ 16"] by (simp only: mult_div_mod_eq)

lemma unat_half_mac2:
  fixes a b c :: "32 word"
  assumes "unat a < 2 ^ 16" "unat b < 2 ^ 16" "unat c < 2 ^ 16"
  shows "unat (a * b + c) = unat a * unat b + unat c"
  using unat_half_mac [OF assms, of 0] by simp

lemma multadd_step:
  fixes x m a :: "32 word"
  assumes "unat m < 2 ^ 16" "unat a < 2 ^ 16"
  defines "y \<equiv> (x AND 0xffff) * m + a"
  defines "z \<equiv> drop_bit 16 x * m + drop_bit 16 y"
  shows "unat (push_bit 16 z + (y AND 0xffff)) + 2 ^ 32 * unat (drop_bit 16 z) = unat x * unat m + unat a"
proof -
  have y: "unat y = unat (x AND 0xffff) * unat m + unat a"
    unfolding y_def by (rule unat_half_mac2 [OF halves_less(1) assms(1,2)])
  have z: "unat z = unat (drop_bit 16 x) * unat m + unat y div 2 ^ 16"
    unfolding z_def using unat_half_mac2 [OF halves_less(2) assms(1) halves_less(2)] by (simp only: unat_hi)
  have "unat (push_bit 16 z) + unat (y AND 0xffff) < 2 ^ 32"
    using mod_less_divisor [of "2 ^ 16" "unat z"] mod_less_divisor [of "2 ^ 16" "unat y"]
    unfolding unat_push16 unat_lo by simp
  then have w: "unat (push_bit 16 z + (y AND 0xffff)) = (unat z mod 2 ^ 16) * 2 ^ 16 + unat y mod 2 ^ 16"
    by (simp only: unat_plus_small unat_push16 unat_lo)
  have "unat (push_bit 16 z + (y AND 0xffff)) + 2 ^ 32 * unat (drop_bit 16 z) = 2 ^ 16 * unat z + unat y mod 2 ^ 16"
    unfolding w unat_hi rejoin ..
  also have "\<dots> = 2 ^ 16 * unat (drop_bit 16 x) * unat m + unat y"
    unfolding z by (simp only: distrib_left mult.assoc add.assoc mult_div_mod_eq)
  also have "\<dots> = unat x * unat m + unat a"
    unfolding y halves [of x] by (simp only: algebra_simps)
  finally show ?thesis .
qed

lemma multadd_loop_val:
  assumes "unat m < 2 ^ 16" "unat a < 2 ^ 16" "multadd_loop xs m a = (ws, a')"
  shows "wval ws + 2 ^ (32 * length xs) * unat a' = wval xs * unat m + unat a \<and>
    length ws = length xs \<and> unat a' < 2 ^ 16"
  using assms(2,3)
proof (induction xs arbitrary: a ws)
  case (Cons x xs)
  define y where "y = (x AND 0xffff) * m + a"
  define z where "z = drop_bit 16 x * m + drop_bit 16 y"
  obtain vs where v: "multadd_loop xs m (drop_bit 16 z) = (vs, a')"
    and ws: "ws = (push_bit 16 z + (y AND 0xffff)) # vs"
    using Cons.prems(2) by (auto simp: y_def z_def Let_def split: prod.splits)
  note IH = Cons.IH [OF halves_less(2) v]
  have step: "unat (push_bit 16 z + (y AND 0xffff)) + 2 ^ 32 * unat (drop_bit 16 z) = unat x * unat m + unat a"
    unfolding y_def z_def by (rule multadd_step [OF assms(1) Cons.prems(1)])
  have "2 ^ 32 * (wval vs + 2 ^ (32 * length xs) * unat a') = 2 ^ 32 * (wval xs * unat m + unat (drop_bit 16 z))"
    using IH by simp
  then have "wval ws + 2 ^ (32 * length (x # xs)) * unat a' = wval (x # xs) * unat m + unat a"
    using step unfolding ws by (simp add: power_add algebra_simps)
  then show ?case using IH ws by simp
qed simp

section \<open>Products\<close>

lemma mult_lo_step:
  fixes x y c carry :: "32 word"
  assumes "unat y < 2 ^ 16" "unat carry < 2 ^ 16"
  defines "z \<equiv> (x AND 0xffff) * y + (c AND 0xffff) + carry"
  defines "z2 \<equiv> drop_bit 16 x * y + drop_bit 16 c + drop_bit 16 z"
  shows "unat (Storeinc z2 z) + 2 ^ 32 * unat (drop_bit 16 z2) = unat x * unat y + unat c + unat carry"
proof -
  have z: "unat z = unat (x AND 0xffff) * unat y + unat (c AND 0xffff) + unat carry"
    unfolding z_def by (rule unat_half_mac [OF halves_less(1) assms(1) halves_less(1) assms(2)])
  have z2: "unat z2 = unat (drop_bit 16 x) * unat y + unat (drop_bit 16 c) + unat z div 2 ^ 16"
    unfolding z2_def using unat_half_mac [OF halves_less(2) assms(1) halves_less(2) halves_less(2)]
    by (simp only: unat_hi)
  have "unat (Storeinc z2 z) + 2 ^ 32 * unat (drop_bit 16 z2) = 2 ^ 16 * unat z2 + unat z mod 2 ^ 16"
    unfolding unat_Storeinc unat_hi rejoin ..
  also have "\<dots> = 2 ^ 16 * (unat (drop_bit 16 x) * unat y + unat (drop_bit 16 c)) + unat z"
    unfolding z2 by (simp only: distrib_left add.assoc mult_div_mod_eq)
  also have "\<dots> = unat x * unat y + unat c + unat carry"
    unfolding z halves [of x] halves [of c] by (simp only: algebra_simps)
  finally show ?thesis .
qed

lemma mult_lo_val:
  assumes "unat y < 2 ^ 16" "unat carry < 2 ^ 16" "length cs = length xs"
  shows "\<exists>ws c'. mult_lo xs y (cs @ c # rest) carry = ws @ c' # rest \<and> length ws = length xs \<and>
    wval (ws @ [c']) = wval xs * unat y + wval cs + unat carry \<and> unat c' < 2 ^ 16"
  using assms(2,3)
proof (induction xs arbitrary: cs carry)
  case Nil
  then show ?case by (intro exI [of _ "[]"] exI [of _ carry]) simp
next
  case (Cons x xs)
  obtain d ds where cs: "cs = d # ds" "length ds = length xs" using Cons.prems(2) by (cases cs) auto
  define z where "z = (x AND 0xffff) * y + (d AND 0xffff) + carry"
  define z2 where "z2 = drop_bit 16 x * y + drop_bit 16 d + drop_bit 16 z"
  obtain ws c' where IH: "mult_lo xs y (ds @ c # rest) (drop_bit 16 z2) = ws @ c' # rest" "length ws = length xs"
      "wval (ws @ [c']) = wval xs * unat y + wval ds + unat (drop_bit 16 z2)" "unat c' < 2 ^ 16"
    using Cons.IH [OF halves_less(2) cs(2)] by blast
  have "mult_lo (x # xs) y (cs @ c # rest) carry = (Storeinc z2 z # ws) @ c' # rest"
    using IH(1) by (simp add: cs z_def z2_def Let_def)
  moreover have "wval ((Storeinc z2 z # ws) @ [c']) = wval (x # xs) * unat y + wval cs + unat carry"
    using mult_lo_step [OF assms(1) Cons.prems(1), of x d, folded z_def, folded z2_def] IH(3)
    unfolding cs(1) by (simp add: algebra_simps)
  ultimately show ?case using IH by (intro exI [of _ "Storeinc z2 z # ws"] exI [of _ c']) simp
qed

lemma mult_hi_step:
  fixes x y c c' carry z2 :: "32 word"
  assumes "unat y < 2 ^ 16" "unat carry < 2 ^ 16"
  defines "z \<equiv> (x AND 0xffff) * y + drop_bit 16 c + carry"
  defines "z2' \<equiv> drop_bit 16 x * y + (c' AND 0xffff) + drop_bit 16 z"
  shows "unat (Storeinc z z2) + 2 ^ 32 * unat z2' =
    unat z2 mod 2 ^ 16 + 2 ^ 16 * (unat carry + unat c div 2 ^ 16 + unat x * unat y) + 2 ^ 32 * (unat c' mod 2 ^ 16)"
proof -
  have z: "unat z = unat (x AND 0xffff) * unat y + unat c div 2 ^ 16 + unat carry"
    unfolding z_def using unat_half_mac [OF halves_less(1) assms(1) halves_less(2) assms(2)]
    by (simp only: unat_hi)
  have z2': "unat z2' = unat (drop_bit 16 x) * unat y + unat c' mod 2 ^ 16 + unat z div 2 ^ 16"
    unfolding z2'_def using unat_half_mac [OF halves_less(2) assms(1) halves_less(1) halves_less(2)]
    by (simp only: unat_hi unat_lo)
  have "unat (Storeinc z z2) + 2 ^ 32 * unat z2' =
      2 ^ 16 * unat z + unat z2 mod 2 ^ 16 + 2 ^ 32 * (unat (drop_bit 16 x) * unat y + unat c' mod 2 ^ 16)"
    using rejoin [of "unat z" "unat z2 mod 2 ^ 16"] unfolding unat_Storeinc z2' by (simp add: algebra_simps)
  also have "\<dots> = unat z2 mod 2 ^ 16 + 2 ^ 16 * (unat carry + unat c div 2 ^ 16 + unat x * unat y) +
      2 ^ 32 * (unat c' mod 2 ^ 16)"
    unfolding z halves [of x] by (simp add: algebra_simps)
  finally show ?thesis .
qed

lemma mult_hi_arith:
  fixes w :: nat
  assumes "w + cm = v + 2 ^ 16 * x + (c' + 2 ^ 32 * d)"
    and "s + 2 ^ 32 * v = z + 2 ^ 16 * (a + cd + p) + 2 ^ 32 * cm" and "c = 2 ^ 16 * cd + cr"
  shows "s + 2 ^ 32 * w + cr = z + 2 ^ 16 * a + 2 ^ 16 * (p + 2 ^ 32 * x) + (c + 2 ^ 32 * (c' + 2 ^ 32 * d))"
  using assms by simp

lemma mult_hi_val:
  assumes "unat y < 2 ^ 16" "unat carry < 2 ^ 16" "length cs = length xs" "xs \<noteq> []" "unat (last cs) < 2 ^ 16"
  shows "\<exists>ws. mult_hi xs y (c # cs @ rest) z2 carry = ws @ rest \<and> length ws = length xs + 1 \<and>
    wval ws + unat c mod 2 ^ 16 =
      unat z2 mod 2 ^ 16 + 2 ^ 16 * unat carry + 2 ^ 16 * (wval xs * unat y) + wval (c # cs)"
  using assms(2-)
proof (induction xs arbitrary: c cs z2 carry)
  case (Cons x xs)
  obtain c' ds where cs: "cs = c' # ds" "length ds = length xs" using Cons.prems(2) by (cases cs) auto
  define z where "z = (x AND 0xffff) * y + drop_bit 16 c + carry"
  define v where "v = drop_bit 16 x * y + (c' AND 0xffff) + drop_bit 16 z"
  have m: "mult_hi (x # xs) y (c # cs @ rest) z2 carry =
      Storeinc z z2 # mult_hi xs y (c' # ds @ rest) v (drop_bit 16 v)"
    by (simp add: cs z_def v_def Let_def)
  note step = mult_hi_step [OF assms(1) Cons.prems(1), where x = x and c = c and c' = c' and ?z2.0 = z2, folded z_def, folded v_def]
  have c: "unat c = 2 ^ 16 * (unat c div 2 ^ 16) + unat c mod 2 ^ 16" by (simp only: mult_div_mod_eq)
  have v: "unat v mod 2 ^ 16 + 2 ^ 16 * unat (drop_bit 16 v) = unat v"
    unfolding unat_hi by (simp only: mod_mult_div_eq)
  show ?case
  proof (cases "xs = []")
    case True
    then have d: "unat c' mod 2 ^ 16 = unat c'" "ds = []" using Cons.prems(4) cs by auto
    have "wval [Storeinc z z2, v] + unat c mod 2 ^ 16 =
        unat z2 mod 2 ^ 16 + 2 ^ 16 * unat carry + 2 ^ 16 * (wval [x] * unat y) + wval [c, c']"
      using step [unfolded d(1)] c unfolding wval.simps mult_0_right add_0_right distrib_left by linarith
    then show ?thesis using m True d(2) cs(1)
      by (intro exI [of _ "[Storeinc z z2, v]"]) (simp only: mult_hi.simps append_Cons append_Nil list.size simp_thms cs)
  next
    case False
    have "unat (last ds) < 2 ^ 16" using Cons.prems(4) cs False by (cases ds) auto
    then obtain ws where IH: "mult_hi xs y (c' # ds @ rest) v (drop_bit 16 v) = ws @ rest"
        "length ws = length xs + 1"
        "wval ws + unat c' mod 2 ^ 16 = unat v + 2 ^ 16 * (wval xs * unat y) + wval (c' # ds)"
      using Cons.IH [OF halves_less(2) cs(2) False] v by metis
    have "wval (Storeinc z z2 # ws) + unat c mod 2 ^ 16 =
        unat z2 mod 2 ^ 16 + 2 ^ 16 * unat carry + 2 ^ 16 * (unat x * unat y + 2 ^ 32 * (wval xs * unat y)) + wval (c # cs)"
      unfolding cs(1) wval.simps by (rule mult_hi_arith [OF IH(3) [unfolded wval.simps] step c])
    then have "wval (Storeinc z z2 # ws) + unat c mod 2 ^ 16 =
        unat z2 mod 2 ^ 16 + 2 ^ 16 * unat carry + 2 ^ 16 * (wval (x # xs) * unat y) + wval (c # cs)"
      by (simp only: wval.simps distrib_right mult.assoc)
    then show ?thesis using IH m by (intro exI [of _ "Storeinc z z2 # ws"]) simp
  qed
qed simp

lemma wval_append: "wval (xs @ ys) = wval xs + 2 ^ (32 * length xs) * wval ys"
  by (induction xs) (auto simp: power_add algebra_simps)

lemma wval_replicate0 [simp]: "wval (replicate n 0) = 0"
  by (induction n) auto

text \<open>
  One row: over the words of \<open>c\<close> at the row, of which the one past the end of \<open>a\<close>
  is still 0.
\<close>

lemma mult_row_val:
  assumes "xa \<noteq> []" "length cs = length xa"
  shows "\<exists>ws. mult_row xa b (cs @ 0 # rest) = ws @ rest \<and> length ws = length xa + 1 \<and>
    wval ws = wval xa * unat b + wval cs"
proof -
  have b0: "unat (b AND 0xffff) = 0 \<longleftrightarrow> b AND 0xffff = 0" and b1: "unat (drop_bit 16 b) = 0 \<longleftrightarrow> drop_bit 16 b = 0"
    by (simp_all add: unsigned_eq_0_iff)
  obtain ws c' where lo: "(if b AND 0xffff \<noteq> 0 then mult_lo xa (b AND 0xffff) (cs @ 0 # rest) 0 else cs @ 0 # rest)
        = ws @ c' # rest" "length ws = length xa" "unat c' < 2 ^ 16"
      "wval (ws @ [c']) = wval xa * unat (b AND 0xffff) + wval cs"
  proof (cases "b AND 0xffff = 0")
    case True
    then show ?thesis using that [of cs 0] assms by (simp add: wval_append)
  next
    case False
    then show ?thesis using that mult_lo_val [OF halves_less(1) _ assms(2), of 0 b 0 rest] by auto
  qed
  obtain w ws' where w: "ws = w # ws'" using lo(2) assms(1) by (cases ws) auto
  have b: "unat b = 2 ^ 16 * unat (drop_bit 16 b) + unat (b AND 0xffff)" using halves [of b] by simp
  show ?thesis
  proof (cases "drop_bit 16 b = 0")
    case True
    then have "mult_row xa b (cs @ 0 # rest) = (ws @ [c']) @ rest" using lo(1) by (simp add: mult_row_def Let_def)
    moreover have "unat b = unat (b AND 0xffff)" using b True by simp
    ultimately show ?thesis using lo by (intro exI [of _ "ws @ [c']"]) simp
  next
    case False
    obtain vs where vs: "mult_hi xa (drop_bit 16 b) (w # (ws' @ [c']) @ rest) w 0 = vs @ rest"
        "length vs = length xa + 1"
        "wval vs + unat w mod 2 ^ 16 =
          unat w mod 2 ^ 16 + 2 ^ 16 * unat (0 :: 32 word) + 2 ^ 16 * (wval xa * unat (drop_bit 16 b)) + wval (w # ws' @ [c'])"
      using mult_hi_val [OF halves_less(2) _ _ assms(1), of 0 "ws' @ [c']" b w rest w] lo(2,3) w by auto
    have "mult_row xa b (cs @ 0 # rest) = vs @ rest"
      using lo(1) vs(1) False w by (simp add: mult_row_def Let_def)
    moreover have "wval vs = wval xa * unat b + wval cs"
      using vs(3) lo(4) unfolding w b by (simp add: algebra_simps)
    ultimately show ?thesis using vs(2) by blast
  qed
qed

lemma mult_rows_val:
  assumes "xa \<noteq> []" "length cs = length xa"
  shows "\<exists>ws. mult_rows xa bs (cs @ replicate (length bs) 0 @ rest) = ws @ rest \<and>
    length ws = length xa + length bs \<and> wval ws = wval xa * wval bs + wval cs"
  using assms(2)
proof (induction bs arbitrary: cs)
  case Nil
  then show ?case by (intro exI [of _ cs]) simp
next
  case (Cons b bs)
  obtain vs where vs: "mult_row xa b (cs @ 0 # replicate (length bs) 0 @ rest) = vs @ replicate (length bs) 0 @ rest"
      "length vs = length xa + 1" "wval vs = wval xa * unat b + wval cs"
    using mult_row_val [OF assms(1) Cons.prems] by blast
  obtain v vs' where v: "vs = v # vs'" "length vs' = length xa" using vs(2) by (cases vs) auto
  obtain ws where ws: "mult_rows xa bs (vs' @ replicate (length bs) 0 @ rest) = ws @ rest"
      "length ws = length xa + length bs" "wval ws = wval xa * wval bs + wval vs'"
    using Cons.IH [OF v(2)] by blast
  have "mult_rows xa (b # bs) (cs @ replicate (length (b # bs)) 0 @ rest) = (v # ws) @ rest"
    using vs(1) ws(1) v(1) by (simp add: Let_def)
  moreover have "wval (v # ws) = wval xa * wval (b # bs) + wval cs"
    using vs(3) ws(3) v(1) by (simp add: algebra_simps)
  ultimately show ?case using ws(2) by (intro exI [of _ "v # ws"]) simp
qed

lemma strip0_le: "strip0 xs n \<le> n"
  by (induction n) auto

lemma strip0_val: "n \<le> length xs \<Longrightarrow> wval (take (strip0 xs n) xs) = wval (take n xs)"
proof (induction n)
  case (Suc n)
  then have "take (Suc n) xs = take n xs @ [xs ! n]" by (simp add: take_Suc_conv_app_nth)
  then show ?case using Suc by (simp add: wval_append)
qed simp

lemma strip0_normal: "0 < strip0 xs n \<Longrightarrow> xs ! (strip0 xs n - 1) \<noteq> 0"
  by (induction n) (auto split: if_splits)

section \<open>Allocation\<close>

text \<open>
  The reentrancy structure is well-formed when every free number is of the size
  of its list and the allocator does not fail.
\<close>

definition free_ok :: "nat \<Rightarrow> bigint \<Rightarrow> bool" where
  "free_ok k b \<longleftrightarrow> b_k b = k \<and> b_maxwds b = 2 ^ k \<and> length (b_x b) = 2 ^ k"

definition mp_ok :: "mp_reent \<Rightarrow> bool" where
  "mp_ok R \<longleftrightarrow> (\<forall>k \<le> Kmax. mp_calloc R k) \<and>
     (\<forall>fl k b. mp_freelist R = Some fl \<longrightarrow> b \<in> set (fl k) \<longrightarrow> free_ok k b)"

lemma Balloc_ok:
  assumes "mp_ok R" "k \<le> Kmax"
  shows "\<exists>b R'. Balloc R k = Some (b, R') \<and> free_ok k b \<and> b_wds b = 0 \<and> b_sign b = 0 \<and>
    mp_ok R' \<and> mp_p5s R' = mp_p5s R \<and> mp_freelist R' \<noteq> None"
proof -
  define fl where "fl = (case mp_freelist R of None \<Rightarrow> \<lambda>k. [] | Some fl \<Rightarrow> fl)"
  have fl: "b \<in> set (fl j) \<Longrightarrow> free_ok j b" for b j
    using assms(1) by (auto simp: mp_ok_def fl_def split: option.splits)
  have c: "mp_calloc R j" if "j \<le> Kmax" for j using assms(1) that by (simp add: mp_ok_def)
  have "(case mp_freelist R of None \<Rightarrow> if mp_calloc R 0 then Some (\<lambda>k. []) else None
      | Some fl \<Rightarrow> Some fl) = Some fl"
    using c [of 0] by (simp add: fl_def split: option.splits)
  then show ?thesis using assms(2) fl c
    by (cases "fl k") (auto simp: Balloc_def free_ok_def mp_ok_def split: if_splits)
qed

lemma Bfree_ok:
  assumes "mp_ok R" "bigint_ok b"
  shows "mp_ok (Bfree R b)" "mp_p5s (Bfree R b) = mp_p5s R"
  using assms by (auto simp: Bfree_def mp_ok_def free_ok_def bigint_ok_def split: option.splits)

section \<open>The operations on values\<close>

lemma mult_correct_aux:
  assumes "mp_ok R" "bigint_ok a" "bigint_ok b" "b_wds b \<le> b_wds a" "b_k a < Kmax"
  shows "\<exists>c R'. mult R a b = Some (c, R') \<and> bval c = bval a * bval b \<and> mp_ok R' \<and> mp_p5s R' = mp_p5s R \<and>
    (0 < bval a * bval b \<longrightarrow> bigint_normal c) \<and> b_sign c = 0 \<and> b_k c \<le> b_k a + 1"
proof -
  let ?wc = "b_wds a + b_wds b"
  let ?k = "if ?wc > b_maxwds a then b_k a + 1 else b_k a"
  have ka: "b_maxwds a = 2 ^ b_k a" "length (b_x a) = 2 ^ b_k a" "1 \<le> b_wds a" "b_wds a \<le> 2 ^ b_k a"
    and kb: "b_wds b \<le> length (b_x b)" using assms(2,3) by (auto simp: bigint_ok_def)
  have wc: "?wc \<le> 2 ^ ?k" using ka assms(4) by auto
  have "?k \<le> Kmax" using assms(5) by simp
  from Balloc_ok [OF assms(1) this]
  obtain c R' where c: "Balloc R ?k = Some (c, R')" "free_ok ?k c" "b_sign c = 0" "mp_ok R'" "mp_p5s R' = mp_p5s R"
    by blast
  have xa: "take (b_wds a) (b_x a) \<noteq> []" using ka by (cases "b_x a") auto
  have z: "replicate ?wc (0 :: 32 word) = replicate (b_wds a) 0 @ replicate (b_wds b) 0" by (simp add: replicate_add)
  obtain ws where ws: "mult_rows (take (b_wds a) (b_x a)) (take (b_wds b) (b_x b)) (replicate ?wc 0 @ drop ?wc (b_x c))
        = ws @ drop ?wc (b_x c)" "length ws = ?wc" "wval ws = bval a * bval b"
    using mult_rows_val [OF xa, of "replicate (b_wds a) 0" "take (b_wds b) (b_x b)" "drop ?wc (b_x c)"] ka kb
    by (auto simp: z bval_def)
  let ?xs = "ws @ drop ?wc (b_x c)"
  let ?c = "c\<lparr>b_x := ?xs, b_wds := strip0 ?xs ?wc\<rparr>"
  have "mult R a b = Some (?c, R')"
    using assms(4) c(1) ws(1) by (simp add: mult_def Let_def)
  moreover have v: "bval ?c = bval a * bval b"
    using strip0_val [of ?wc ?xs] ws(2,3) by (simp add: bval_def)
  moreover have "bigint_normal ?c" if "0 < bval a * bval b"
  proof -
    have "strip0 ?xs ?wc \<noteq> 0"
    proof
      assume "strip0 ?xs ?wc = 0"
      then have "bval ?c = 0" by (simp add: bval_def)
      then show False using v that by simp
    qed
    then show ?thesis
      using c(2) wc ws(2) strip0_le [of ?xs ?wc] strip0_normal [of ?xs ?wc]
      by (auto simp: bigint_normal_def bigint_ok_def free_ok_def)
  qed
  ultimately show ?thesis using c by (auto simp: free_ok_def)
qed

lemma mult_val:
  assumes "mp_ok R" "bigint_ok a" "bigint_ok b" "b_k a < Kmax" "b_k b < Kmax"
  shows "\<exists>c R'. mult R a b = Some (c, R') \<and> bval c = bval a * bval b \<and> mp_ok R' \<and> mp_p5s R' = mp_p5s R \<and>
    (0 < bval a * bval b \<longrightarrow> bigint_normal c) \<and> b_sign c = 0 \<and> b_k c \<le> max (b_k a) (b_k b) + 1"
proof (cases "b_wds a < b_wds b")
  case True
  then have "mult R a b = mult R b a" by (simp add: mult_def)
  moreover obtain c R' where "mult R b a = Some (c, R')" "bval c = bval b * bval a" "mp_ok R'" "mp_p5s R' = mp_p5s R"
      "0 < bval b * bval a \<longrightarrow> bigint_normal c" "b_sign c = 0" "b_k c \<le> b_k b + 1"
    using mult_correct_aux [OF assms(1,3,2) _ assms(5)] True by auto
  ultimately show ?thesis by (auto simp: mult.commute)
next
  case False
  then obtain c R' where "mult R a b = Some (c, R')" "bval c = bval a * bval b" "mp_ok R'" "mp_p5s R' = mp_p5s R"
      "0 < bval a * bval b \<longrightarrow> bigint_normal c" "b_sign c = 0" "b_k c \<le> b_k a + 1"
    using mult_correct_aux [OF assms(1-3) _ assms(4)] by auto
  then show ?thesis by auto
qed

lemma multadd_val:
  assumes "mp_ok R" "bigint_ok b" "b_k b < Kmax" "unat m < 2 ^ 16" "unat a < 2 ^ 16"
  shows "\<exists>c R'. multadd R b m a = Some (c, R') \<and> bval c = bval b * unat m + unat a \<and> bigint_ok c \<and>
    mp_ok R' \<and> mp_p5s R' = mp_p5s R \<and> b_k c \<le> b_k b + 1"
proof -
  have b: "b_maxwds b = 2 ^ b_k b" "length (b_x b) = 2 ^ b_k b" "1 \<le> b_wds b" "b_wds b \<le> 2 ^ b_k b"
    using assms(2) by (auto simp: bigint_ok_def)
  have n: "max 1 (b_wds b) = b_wds b" using b by simp
  obtain ws a' where l: "multadd_loop (take (b_wds b) (b_x b)) m a = (ws, a')" by fastforce
  have v: "wval ws + 2 ^ (32 * b_wds b) * unat a' = bval b * unat m + unat a" "length ws = b_wds b"
    using multadd_loop_val [OF assms(4,5) l] b by (auto simp: bval_def)
  let ?b = "b\<lparr>b_x := ws @ drop (b_wds b) (b_x b)\<rparr>"
  have ok: "bigint_ok ?b" using b v(2) by (simp add: bigint_ok_def)
  have val: "bval ?b = wval ws" using v(2) by (simp add: bval_def)
  show ?thesis
  proof (cases "a' = 0")
    case True
    then have "multadd R b m a = Some (?b, R)" using l n by (simp add: multadd_def)
    then show ?thesis using v(1) True val ok assms(1) by auto
  next
    case nz: False
    have top: "wval (take (Suc (b_wds b)) (xs[b_wds b := a'])) = bval b * unat m + unat a"
      if "take (b_wds b) xs = ws" "b_wds b < length xs" for xs
    proof -
      have "take (Suc (b_wds b)) (xs[b_wds b := a']) = ws @ [a']"
        using that by (simp add: take_Suc_conv_app_nth)
      then show ?thesis using v by (simp add: wval_append)
    qed
    show ?thesis
    proof (cases "b_wds b \<ge> b_maxwds b")
      case True
      have "b_k b + 1 \<le> Kmax" using assms(3) by simp
      from Balloc_ok [OF assms(1) this]
      obtain b1 R1 where b1: "Balloc R (b_k b + 1) = Some (b1, R1)" "free_ok (b_k b + 1) b1" "mp_ok R1"
          "mp_p5s R1 = mp_p5s R" by blast
      have w: "b_wds b = 2 ^ b_k b" using True b by simp
      let ?c = "Bcopy b1 ?b"
      have "multadd R b m a = Some (?c\<lparr>b_x := (b_x ?c)[b_wds b := a'], b_wds := b_wds b + 1\<rparr>, Bfree R1 ?b)"
        using l n nz True b1(1) by (simp add: multadd_def Bcopy_def Let_def)
      moreover have "bval (?c\<lparr>b_x := (b_x ?c)[b_wds b := a'], b_wds := b_wds b + 1\<rparr>) = bval b * unat m + unat a"
        using top [of "b_x ?c"] b1(2) v(2) w by (simp add: bval_def Bcopy_def free_ok_def)
      moreover have "bigint_ok (?c\<lparr>b_x := (b_x ?c)[b_wds b := a'], b_wds := b_wds b + 1\<rparr>)"
        using b1(2) v(2) w by (simp add: bigint_ok_def Bcopy_def free_ok_def)
      moreover have "mp_ok (Bfree R1 ?b)" "mp_p5s (Bfree R1 ?b) = mp_p5s R"
        using Bfree_ok [OF b1(3) ok] b1(4) by auto
      ultimately show ?thesis using b1(2) by (auto simp: Bcopy_def free_ok_def)
    next
      case False
      then have "multadd R b m a = Some (?b\<lparr>b_x := (b_x ?b)[b_wds b := a'], b_wds := b_wds b + 1\<rparr>, R)"
        using l n nz by (simp add: multadd_def Let_def)
      moreover have "bval (?b\<lparr>b_x := (b_x ?b)[b_wds b := a'], b_wds := b_wds b + 1\<rparr>) = bval b * unat m + unat a"
        using top [of "b_x ?b"] v(2) b False by (simp add: bval_def)
      moreover have "bigint_ok (?b\<lparr>b_x := (b_x ?b)[b_wds b := a'], b_wds := b_wds b + 1\<rparr>)"
        using b v(2) False by (simp add: bigint_ok_def)
      ultimately show ?thesis using assms(1) by auto
    qed
  qed
qed

lemma i2b_val:
  assumes "mp_ok R"
  shows "\<exists>b R'. i2b R i = Some (b, R') \<and> bval b = unat i \<and> bigint_ok b \<and> mp_ok R' \<and> mp_p5s R' = mp_p5s R \<and> b_k b = 1"
proof -
  have "(1 :: nat) \<le> Kmax" by (simp add: Kmax_def)
  from Balloc_ok [OF assms this]
  obtain b R' where b: "Balloc R 1 = Some (b, R')" "free_ok 1 b" "mp_ok R'" "mp_p5s R' = mp_p5s R" by blast
  then obtain x y where "b_x b = [x, y]" by (auto simp: free_ok_def length_Suc_conv eval_nat_numeral)
  then show ?thesis using b by (auto simp: i2b_def bval_def bigint_ok_def free_ok_def)
qed

text \<open>The cached powers: \<open>5^4, 5^8, 5^16, ...\<close>, of growing size.\<close>

definition p5s_ok :: "bigint list \<Rightarrow> bool" where
  "p5s_ok ps \<longleftrightarrow> (\<forall>i < length ps. bigint_ok (ps ! i) \<and> bval (ps ! i) = 5 ^ (4 * 2 ^ i) \<and> b_k (ps ! i) \<le> i + 1)"

lemma p5s_extend:
  assumes "mp_ok R" "p5s_ok (mp_p5s R)" "i < length (mp_p5s R)" "i + 1 < Kmax"
  shows "\<exists>R'. (if i + 1 < length (mp_p5s R) then Some R
      else do { (p51, R) \<leftarrow> mult R (mp_p5s R ! i) (mp_p5s R ! i); Some (R\<lparr>mp_p5s := mp_p5s R @ [p51]\<rparr>) }) = Some R' \<and>
    mp_ok R' \<and> p5s_ok (mp_p5s R') \<and> i + 1 < length (mp_p5s R')"
proof (cases "i + 1 < length (mp_p5s R)")
  case False
  then have len: "length (mp_p5s R) = i + 1" using assms(3) by simp
  let ?p = "mp_p5s R ! i"
  have p: "bigint_ok ?p" "bval ?p = 5 ^ (4 * 2 ^ i)" "b_k ?p \<le> i + 1" using assms(2,3) by (auto simp: p5s_ok_def)
  then obtain c R' where c: "mult R ?p ?p = Some (c, R')" "bval c = bval ?p * bval ?p" "mp_ok R'"
      "mp_p5s R' = mp_p5s R" "0 < bval ?p * bval ?p \<longrightarrow> bigint_normal c" "b_k c \<le> max (b_k ?p) (b_k ?p) + 1"
    using mult_val [OF assms(1) p(1) p(1)] assms(4) by force
  have "bval c = 5 ^ (4 * 2 ^ (i + 1))" using c(2) p(2) by (simp add: power_add [symmetric])
  moreover have "bigint_ok c" using c(5) p(2) by (simp add: bigint_normal_def)
  ultimately have "p5s_ok (mp_p5s R @ [c])"
    using assms(2) len c(6) p(3) by (auto simp: p5s_ok_def nth_append less_Suc_eq)
  then show ?thesis using False c len by (auto simp: mp_ok_def)
qed (use assms in auto)

lemma pow5_loop_val:
  assumes "mp_ok R" "p5s_ok (mp_p5s R)" "i < length (mp_p5s R)" "bigint_ok b" "0 < bval b" "b_k b \<le> c + i" "1 \<le> c"
    "k < 2 ^ j" "c + i + j \<le> Kmax" "0 < k"
  shows "\<exists>d R'. pow5_loop R b k i = Some (d, R') \<and> bval d = bval b * 5 ^ (4 * 2 ^ i * k) \<and>
    bigint_ok d \<and> mp_ok R' \<and> p5s_ok (mp_p5s R')"
  using assms
proof (induction j arbitrary: R b k i)
  case (Suc j)
  let ?p = "mp_p5s R ! i"
  have p: "bigint_ok ?p" "bval ?p = 5 ^ (4 * 2 ^ i)" "b_k ?p \<le> i + 1"
    using Suc.prems(2,3) by (auto simp: p5s_ok_def)
  obtain b1 R1 where 1: "(if odd k then do { (b1, R) \<leftarrow> mult R b ?p; Some (b1, Bfree R b) } else Some (b, R)) = Some (b1, R1)"
      "bval b1 = bval b * 5 ^ (4 * 2 ^ i * (k mod 2))" "bigint_ok b1" "b_k b1 \<le> c + (i + 1)" "mp_ok R1" "mp_p5s R1 = mp_p5s R"
  proof (cases "odd k")
    case True
    have kk: "b_k b < Kmax" "b_k ?p < Kmax" using Suc.prems p by auto
    obtain d R' where "mult R b ?p = Some (d, R')" "bval d = bval b * bval ?p" "mp_ok R'" "mp_p5s R' = mp_p5s R"
        "0 < bval b * bval ?p \<longrightarrow> bigint_normal d" "b_k d \<le> max (b_k b) (b_k ?p) + 1"
      using mult_val [OF Suc.prems(1,4) p(1) kk] by metis
    then show ?thesis using that [of d "Bfree R' b"] True Suc.prems p Bfree_ok [of R' b]
      by (auto simp: bigint_normal_def odd_iff_mod_2_eq_one)
  next
    case False
    then show ?thesis using that [of b R] Suc.prems by auto
  qed
  show ?case
  proof (cases "k div 2 = 0")
    case True
    then have "k = 1" using Suc.prems(10) by presburger
    moreover have "pow5_loop R b k i = Some (b1, R1)" using 1(1) True by (subst pow5_loop.simps) simp
    ultimately show ?thesis using 1 Suc.prems(2) by auto
  next
    case False
    have "i < length (mp_p5s R1)" "p5s_ok (mp_p5s R1)" "i + 1 < Kmax" using Suc.prems 1 by auto
    then obtain R2 where 2: "(if i + 1 < length (mp_p5s R1) then Some R1
      else do { (p51, R) \<leftarrow> mult R1 (mp_p5s R1 ! i) (mp_p5s R1 ! i); Some (R\<lparr>mp_p5s := mp_p5s R @ [p51]\<rparr>) }) = Some R2"
      "mp_ok R2" "p5s_ok (mp_p5s R2)" "i + 1 < length (mp_p5s R2)"
      using p5s_extend [OF 1(5)] by blast
    have pos: "0 < bval b1" using 1(2) Suc.prems(5) by simp
    have "k div 2 < 2 ^ j" "c + (i + 1) + j \<le> Kmax" "0 < k div 2" using Suc.prems(8,9) False by auto
    then obtain d R' where d: "pow5_loop R2 b1 (k div 2) (i + 1) = Some (d, R')"
        "bval d = bval b1 * 5 ^ (4 * 2 ^ (i + 1) * (k div 2))" "bigint_ok d" "mp_ok R'" "p5s_ok (mp_p5s R')"
      using Suc.IH [OF 2(2,3,4) 1(3) pos 1(4) Suc.prems(7)] by blast
    have "pow5_loop R b k i = Some (d, R')"
      using 1(1) 2(1) d(1) False by (subst pow5_loop.simps) (simp split: if_splits)
    moreover have "4 * 2 ^ i * (k mod 2) + 4 * 2 ^ (i + 1) * (k div 2) = 4 * 2 ^ i * k"
    proof -
      have "4 * 2 ^ i * (k mod 2) + 4 * 2 ^ (i + 1) * (k div 2) = 4 * 2 ^ i * (k mod 2 + 2 * (k div 2))"
        by (simp only: power_add power_one_right distrib_left mult.assoc)
      then show ?thesis by (simp only: mod_mult_div_eq)
    qed
    ultimately show ?thesis using d 1(2) by (simp add: power_add [symmetric] mult.assoc)
  qed
qed simp

lemma pow5mult_val:
  assumes "mp_ok R" "p5s_ok (mp_p5s R)" "bigint_ok b" "0 < bval b" "b_k b \<le> 32" "k < 2 ^ 31"
  shows "\<exists>d R'. pow5mult R b k = Some (d, R') \<and> bval d = bval b * 5 ^ k \<and> bigint_ok d \<and>
    mp_ok R' \<and> p5s_ok (mp_p5s R')"
proof -
  let ?i = "k mod 4"
  have p: "unat (p05 ! (?i - 1)) = 5 ^ ?i" if "?i \<noteq> 0"
  proof -
    have "?i = 1 \<or> ?i = 2 \<or> ?i = 3" using that by presburger
    then show ?thesis by (auto simp: p05_def)
  qed
  obtain b1 R1 where 1: "(if ?i \<noteq> 0 then multadd R b (p05 ! (?i - 1)) 0 else Some (b, R)) = Some (b1, R1)"
      "bval b1 = bval b * 5 ^ ?i" "bigint_ok b1" "mp_ok R1" "mp_p5s R1 = mp_p5s R" "b_k b1 \<le> b_k b + 1"
  proof (cases "?i = 0")
    case False
    have "?i \<le> 3" by presburger
    then have "(5 :: nat) ^ ?i \<le> 5 ^ 3" by (intro power_increasing) auto
    then have s: "unat (p05 ! (?i - 1)) < 2 ^ 16" using p [OF False] by simp
    have "b_k b < Kmax" using assms(5) by (simp add: Kmax_def)
    then show ?thesis using multadd_val [OF assms(1,3) _ s, of 0] that p [OF False] False by auto
  qed (use assms that in auto)
  show ?thesis
  proof (cases "k div 4 = 0")
    case True
    then have "?i = k" by simp
    moreover have "pow5mult R b k = Some (b1, R1)" using 1(1) True unfolding pow5mult_def Let_def by simp
    ultimately show ?thesis using 1 assms(2) by auto
  next
    case False
    obtain R2 where 2: "(if mp_p5s R1 = [] then do { (p5, R) \<leftarrow> i2b R1 625; Some (R\<lparr>mp_p5s := [p5]\<rparr>) } else Some R1) = Some R2"
        "mp_ok R2" "p5s_ok (mp_p5s R2)" "0 < length (mp_p5s R2)"
    proof (cases "mp_p5s R1 = []")
      case True
      obtain p R' where "i2b R1 625 = Some (p, R')" "bval p = unat (625 :: 32 word)" "bigint_ok p" "mp_ok R'" "b_k p = 1"
        using i2b_val [OF 1(4)] by blast
      then show ?thesis using that [of "R'\<lparr>mp_p5s := [p]\<rparr>"] True by (simp add: p5s_ok_def mp_ok_def)
    qed (use that assms(2) 1 in auto)
    have k: "k div 4 < 2 ^ 29" "0 + 0 + 29 \<le> Kmax" using assms(6) by (auto simp: Kmax_def)
    have "0 < bval b1" using 1(2) assms(4) by simp
    then obtain d R' where d: "pow5_loop R2 b1 (k div 4) 0 = Some (d, R')"
        "bval d = bval b1 * 5 ^ (4 * 2 ^ 0 * (k div 4))" "bigint_ok d" "mp_ok R'" "p5s_ok (mp_p5s R')"
      using pow5_loop_val [OF 2(2-4) 1(3), of 33 "k div 4" 29] 1(6) assms(5) k False by (auto simp: Kmax_def)
    have "?i + 4 * (k div 4) = k" by simp
    then have "bval d = bval b * 5 ^ k" using d(2) 1(2) by (simp add: power_add [symmetric])
    moreover have "pow5mult R b k = Some (d, R')"
      using 1(1) 2(1) d(1) False unfolding pow5mult_def Let_def by simp
    ultimately show ?thesis using d by blast
  qed
qed

section \<open>Comparison\<close>

lemma wval_less: "wval xs < 2 ^ (32 * length xs)"
proof (induction xs)
  case (Cons x xs)
  have "unat x + 2 ^ 32 * wval xs < 2 ^ 32 * (wval xs + 1)" using unat_word32_less [of x] by simp
  also have "\<dots> \<le> 2 ^ 32 * 2 ^ (32 * length xs)" using Cons by (intro mult_le_mono2) simp
  finally show ?case by (simp add: power_add)
qed simp

lemma wval_take_Suc: "n < length xs \<Longrightarrow> wval (take (Suc n) xs) = wval (take n xs) + 2 ^ (32 * n) * unat (xs ! n)"
  by (simp add: take_Suc_conv_app_nth wval_append)

lemma digit_dominates:
  fixes a b x y m :: nat
  assumes "a < m" "x < y" shows "a + m * x < b + m * y"
proof -
  have "m * (x + 1) \<le> m * y" using assms(2) by (intro mult_le_mono2) simp
  then show ?thesis using assms(1) by simp
qed

lemma cmp_loop_val:
  assumes "n \<le> length xa" "n \<le> length xb"
  shows "cmp_loop xa xb n = (if wval (take n xa) < wval (take n xb) then -1
    else if wval (take n xb) < wval (take n xa) then 1 else 0)"
  using assms
proof (induction n)
  case (Suc n)
  have la: "wval (take n xa) < 2 ^ (32 * n)" and lb: "wval (take n xb) < 2 ^ (32 * n)"
    using wval_less [of "take n xa"] wval_less [of "take n xb"] Suc.prems by (simp_all add: min_def)
  have ta: "wval (take (Suc n) xa) = wval (take n xa) + 2 ^ (32 * n) * unat (xa ! n)"
    and tb: "wval (take (Suc n) xb) = wval (take n xb) + 2 ^ (32 * n) * unat (xb ! n)"
    using Suc.prems by (simp_all add: wval_take_Suc)
  consider "unat (xa ! n) < unat (xb ! n)" | "unat (xb ! n) < unat (xa ! n)" | "xa ! n = xb ! n"
    by (metis linorder_cases word_unat_eq_iff)
  then show ?case
  proof cases
    case 1
    then have "wval (take (Suc n) xa) < wval (take (Suc n) xb)" unfolding ta tb by (intro digit_dominates la)
    then show ?thesis using 1 by (auto simp: word_less_nat_alt)
  next
    case 2
    then have "wval (take (Suc n) xb) < wval (take (Suc n) xa)" unfolding ta tb by (intro digit_dominates lb)
    then show ?thesis using 2 by (auto simp: word_less_nat_alt)
  next
    case 3
    then show ?thesis using Suc ta tb by simp
  qed
qed simp

lemma normal_size:
  assumes "bigint_normal a" "bigint_normal b" "b_wds a < b_wds b"
  shows "bval a < bval b"
proof -
  obtain n where n: "b_wds b = Suc n" "b_wds a \<le> n" using assms(3) by (cases "b_wds b") auto
  have b: "n < length (b_x b)" "unat (b_x b ! n) \<noteq> 0"
    using assms n by (auto simp: bigint_normal_def bigint_ok_def unsigned_eq_0_iff)
  have "bval a < 2 ^ (32 * b_wds a)"
    using wval_less [of "take (b_wds a) (b_x a)"] assms(1)
    by (simp add: bval_def bigint_normal_def bigint_ok_def min_absorb2)
  also have "\<dots> \<le> 2 ^ (32 * n) * 1" using n by (auto intro: power_increasing)
  also have "\<dots> \<le> 2 ^ (32 * n) * unat (b_x b ! n)" using b(2) by (intro mult_le_mono2) simp
  also have "\<dots> \<le> bval b" using b(1) n by (simp add: bval_def wval_take_Suc)
  finally show ?thesis .
qed

lemma cmp_val:
  assumes "bigint_normal a" "bigint_normal b"
  shows "sgn (cmp a b) = sgn (int (bval a) - int (bval b))"
proof -
  consider "b_wds a < b_wds b" | "b_wds b < b_wds a" | "b_wds a = b_wds b" by linarith
  then show ?thesis
  proof cases
    case 3
    moreover have "max 1 (b_wds b) = b_wds b" "b_wds b \<le> length (b_x a)" "b_wds b \<le> length (b_x b)"
      using assms 3 by (auto simp: bigint_normal_def bigint_ok_def)
    ultimately show ?thesis by (auto simp: cmp_def bval_def cmp_loop_val)
  qed (use normal_size [OF assms] normal_size [OF assms(2,1)] in \<open>auto simp: cmp_def\<close>)
qed

section \<open>Shift\<close>

lemma unat_exp32: "k < 32 \<Longrightarrow> unat (2 ^ k :: 32 word) = 2 ^ k"
proof -
  assume "k < 32"
  then have "(2 :: nat) ^ k < 2 ^ 32" by (intro power_strict_increasing) auto
  moreover have "unat (word_of_nat (2 ^ k) :: 32 word) = 2 ^ k mod 2 ^ 32" unfolding unat_of_nat by simp
  ultimately show ?thesis by (metis mod_less of_nat_numeral of_nat_power)
qed

lemma unat_shl_or:
  fixes x z :: "32 word"
  assumes "0 < k" "k < 32" "unat z < 2 ^ k"
  shows "unat (push_bit k x OR z) + 2 ^ 32 * unat (drop_bit (32 - k) x) = unat x * 2 ^ k + unat z"
    and "unat (drop_bit (32 - k) x) < 2 ^ k"
proof -
  have pw: "(2 :: nat) ^ 32 = 2 ^ (32 - k) * 2 ^ k" using assms by (simp add: power_add [symmetric])
  have tz: "take_bit k z = z" unfolding word_unat_eq_iff unsigned_take_bit_eq by (rule take_bit_nat_eq_self [OF assms(3)])
  have "push_bit k x AND z = 0"
  proof (rule bit_word_eqI)
    fix n :: nat
    assume "n < LENGTH(32)"
    have "bit z n \<longleftrightarrow> bit (take_bit k z) n" using tz by simp
    then show "bit (push_bit k x AND z) n \<longleftrightarrow> bit (0 :: 32 word) n" by (auto simp: bit_simps)
  qed
  then have or: "push_bit k x OR z = push_bit k x + z" by (metis disjunctive_add_eq_or)
  have p: "unat (push_bit k x) = (unat x * 2 ^ k) mod 2 ^ 32"
    using assms(2) by (simp add: push_bit_eq_mult unat_word_ariths unat_exp32)
  have d: "unat (drop_bit (32 - k) x) = (unat x * 2 ^ k) div 2 ^ 32"
    unfolding pw using assms by (simp add: drop_bit_eq_div unat_div unat_exp32)
  show "unat (drop_bit (32 - k) x) < 2 ^ k"
    unfolding d using unat_word32_less [of x] by (simp add: div_less_iff_less_mult)
  have "(unat x * 2 ^ k) mod 2 ^ 32 = (unat x mod 2 ^ (32 - k)) * 2 ^ k"
    unfolding pw by (rule mult_mod_left [symmetric])
  moreover have "(unat x mod 2 ^ (32 - k)) * 2 ^ k + 2 ^ k \<le> 2 ^ (32 - k) * 2 ^ k"
  proof -
    have "(unat x mod 2 ^ (32 - k) + 1) * 2 ^ k \<le> 2 ^ (32 - k) * 2 ^ k"
      by (intro mult_le_mono1) (simp add: Suc_le_eq)
    then show ?thesis by (simp add: add_mult_distrib)
  qed
  ultimately have "unat (push_bit k x) + unat z < 2 ^ 32" unfolding p pw using assms(3) by linarith
  then have "unat (push_bit k x OR z) = (unat x * 2 ^ k) mod 2 ^ 32 + unat z"
    unfolding or by (simp only: unat_plus_small p)
  then show "unat (push_bit k x OR z) + 2 ^ 32 * unat (drop_bit (32 - k) x) = unat x * 2 ^ k + unat z"
    unfolding d using mult_div_mod_eq [of "2 ^ 32" "unat x * 2 ^ k"] by linarith
qed

lemma lshift_loop_val:
  assumes "0 < k" "k < 32" "unat z < 2 ^ k" "lshift_loop xs k z = (ws, z')"
  shows "wval ws + 2 ^ (32 * length xs) * unat z' = wval xs * 2 ^ k + unat z \<and> length ws = length xs"
  using assms(3,4)
proof (induction xs arbitrary: z ws)
  case (Cons x xs)
  obtain vs where v: "lshift_loop xs k (drop_bit (32 - k) x) = (vs, z')" and ws: "ws = (push_bit k x OR z) # vs"
    using Cons.prems(2) by (auto split: prod.splits)
  note step = unat_shl_or [OF assms(1,2) Cons.prems(1), of x]
  note IH = Cons.IH [OF step(2) v]
  have "2 ^ 32 * (wval vs + 2 ^ (32 * length xs) * unat z') = 2 ^ 32 * (wval xs * 2 ^ k + unat (drop_bit (32 - k) x))"
    using IH by simp
  then have "wval ws + 2 ^ (32 * length (x # xs)) * unat z' = wval (x # xs) * 2 ^ k + unat z"
    using step(1) unfolding ws by (simp add: power_add algebra_simps)
  then show ?case using IH ws by simp
qed simp

lemma lshift_size_ok:
  assumes "i = 2 ^ k1"
  shows "n1 \<le> 2 ^ lshift_size n1 i k1 \<and> k1 \<le> lshift_size n1 i k1 \<and> (k1 \<le> K \<longrightarrow> n1 \<le> 2 ^ K \<longrightarrow> lshift_size n1 i k1 \<le> K)"
  using assms
proof (induction n1 i k1 rule: lshift_size.induct)
  case (1 n1 i k1)
  show ?case
  proof (cases "n1 > i")
    case True
    have "k1 + 1 \<le> K" if "k1 \<le> K" "n1 \<le> 2 ^ K"
    proof (rule ccontr)
      assume "\<not> k1 + 1 \<le> K"
      then have "K = k1" using that by simp
      then show False using True that 1(2) by simp
    qed
    moreover have "lshift_size n1 i k1 = lshift_size n1 (2 * i) (k1 + 1)"
      using True 1(2) by (subst lshift_size.simps) simp
    ultimately show ?thesis using 1 True by auto
  next
    case False
    then have "lshift_size n1 i k1 = k1" by (subst lshift_size.simps) simp
    then show ?thesis using 1(2) False by simp
  qed
qed


lemma lshift_val:
  assumes "mp_ok R" "bigint_ok b" "b_k b \<le> Kmax" "k div 32 + b_wds b + 1 \<le> 2 ^ Kmax"
  shows "\<exists>c R'. lshift R b k = Some (c, R') \<and> bval c = bval b * 2 ^ k \<and> bigint_ok c \<and> mp_ok R' \<and> mp_p5s R' = mp_p5s R"
proof -
  have b: "b_maxwds b = 2 ^ b_k b" "length (b_x b) = 2 ^ b_k b" "1 \<le> b_wds b" "b_wds b \<le> 2 ^ b_k b"
    using assms(2) by (auto simp: bigint_ok_def)
  let ?n = "k div 32" and ?r = "k mod 32" and ?xs = "take (b_wds b) (b_x b)"
  let ?k1 = "lshift_size (?n + b_wds b + 1) (b_maxwds b) (b_k b)"
  have n: "max 1 (b_wds b) = b_wds b" and l: "length ?xs = b_wds b" using b by auto
  have k1: "?n + b_wds b + 1 \<le> 2 ^ ?k1" "?k1 \<le> Kmax"
    using lshift_size_ok [OF b(1), of "?n + b_wds b + 1" Kmax] assms(3,4) by auto
  from Balloc_ok [OF assms(1) k1(2)]
  obtain b1 R1 where b1: "Balloc R ?k1 = Some (b1, R1)" "free_ok ?k1 b1" "mp_ok R1" "mp_p5s R1 = mp_p5s R" by blast
  have fr: "mp_ok (Bfree R1 b)" "mp_p5s (Bfree R1 b) = mp_p5s R" using Bfree_ok [OF b1(3) assms(2)] b1(4) by auto
  have kk: "(2 :: nat) ^ k = 2 ^ (32 * ?n) * 2 ^ ?r" by (simp add: power_add [symmetric])
  have fin: ?thesis if "lshift R b k = Some (b1\<lparr>b_x := x1 @ drop (length x1) (b_x b1), b_wds := w\<rparr>, Bfree R1 b)"
    "wval (take w x1) = bval b * 2 ^ k" "1 \<le> w" "w \<le> length x1" "length x1 \<le> 2 ^ ?k1" for x1 w
  proof -
    have "bval (b1\<lparr>b_x := x1 @ drop (length x1) (b_x b1), b_wds := w\<rparr>) = bval b * 2 ^ k"
      using that(2,4) by (simp add: bval_def)
    moreover have "bigint_ok (b1\<lparr>b_x := x1 @ drop (length x1) (b_x b1), b_wds := w\<rparr>)"
      using that b1(2) by (simp add: bigint_ok_def free_ok_def)
    ultimately show ?thesis using that(1) fr by blast
  qed
  show ?thesis
  proof (cases "?r = 0")
    case True
    show ?thesis
    proof (rule fin [where ?x1.0 = "replicate ?n 0 @ ?xs" and w = "?n + b_wds b"])
      show "lshift R b k = Some (b1\<lparr>b_x := (replicate ?n 0 @ ?xs) @ drop (length (replicate ?n 0 @ ?xs)) (b_x b1),
          b_wds := ?n + b_wds b\<rparr>, Bfree R1 b)" using True b1(1) n l by (simp add: lshift_def Let_def)
      show "wval (take (?n + b_wds b) (replicate ?n 0 @ ?xs)) = bval b * 2 ^ k"
        using True kk l by (simp add: wval_append bval_def)
    qed (use b l k1 in auto)
  next
    case False
    obtain ws z where wz: "lshift_loop ?xs ?r 0 = (ws, z)" by fastforce
    have v: "wval ws + 2 ^ (32 * b_wds b) * unat z = wval ?xs * 2 ^ ?r" "length ws = b_wds b"
      using lshift_loop_val [OF _ _ _ wz] False l by auto
    let ?w = "if z \<noteq> 0 then ?n + b_wds b + 1 else ?n + b_wds b"
    let ?x1 = "replicate ?n 0 @ ws @ [z]"
    show ?thesis
    proof (rule fin [where ?x1.0 = ?x1 and w = ?w])
      show "lshift R b k = Some (b1\<lparr>b_x := ?x1 @ drop (length ?x1) (b_x b1), b_wds := ?w\<rparr>, Bfree R1 b)"
        using False b1(1) n wz by (simp add: lshift_def Let_def)
      have "wval (take ?w ?x1) = 2 ^ (32 * ?n) * (wval ws + 2 ^ (32 * b_wds b) * unat z)"
        using v(2) by (auto simp: wval_append)
      then show "wval (take ?w ?x1) = bval b * 2 ^ k" unfolding v(1) kk by (simp add: bval_def)
    qed (use b v k1 in auto)
  qed
qed

section \<open>Difference\<close>

lemma word_of_int_sint_eq: "word_of_int (sint w) = (w :: 32 word)"
  by simp

text \<open>The words \<open>y\<close>, \<open>z\<close> and \<open>borrow\<close> of the loops as the integers they stand for.\<close>

lemma signed_half:
  fixes t :: int
  assumes "- (2 ^ 16) \<le> t" "t < 2 ^ 16"
  shows "signed_drop_bit 16 (word_of_int t :: 32 word) = word_of_int (t div 2 ^ 16)"
    and "int (unat (word_of_int t :: 32 word) mod 2 ^ 16) = t mod 2 ^ 16"
proof -
  have "sint (word_of_int t :: 32 word) = signed_take_bit 31 t" by (simp add: signed_of_int)
  also have "\<dots> = t" using assms by (intro signed_take_bit_int_eq_self) auto
  finally have s: "sint (word_of_int t :: 32 word) = t" .
  have "sint (signed_drop_bit 16 (word_of_int t :: 32 word)) = t div 2 ^ 16"
    by (simp add: sint_signed_drop_bit_eq s drop_bit_eq_div)
  then show "signed_drop_bit 16 (word_of_int t :: 32 word) = word_of_int (t div 2 ^ 16)"
    by (metis word_of_int_sint_eq)
  have "int (unat (word_of_int t :: 32 word) mod 2 ^ 16) = (t mod 2 ^ 32) mod 2 ^ 16"
    by (simp add: zmod_int uint_word_of_int)
  also have "\<dots> = t mod 2 ^ 16" by (rule mod_mod_cancel) simp
  finally show "int (unat (word_of_int t :: 32 word) mod 2 ^ 16) = t mod 2 ^ 16" .
qed

lemma word_half_diff:
  fixes a b :: "32 word" and s :: int
  assumes "unat a < 2 ^ 16" "unat b < 2 ^ 16" "s = 0 \<or> s = -1"
  defines "t \<equiv> int (unat a) - int (unat b) + s"
  shows "a - b + word_of_int s = word_of_int t" "- (2 ^ 16) \<le> t" "t < 2 ^ 16" "t div 2 ^ 16 = 0 \<or> t div 2 ^ 16 = -1"
proof -
  show "a - b + word_of_int s = word_of_int t" by (simp add: t_def)
  have "int (unat a) < 2 ^ 16" "int (unat b) < 2 ^ 16" using assms(1,2) by (metis of_nat_less_iff of_nat_numeral of_nat_power)+
  then show t: "- (2 ^ 16) \<le> t" "t < 2 ^ 16" using assms(3) unfolding t_def by linarith+
  have "t div 2 ^ 16 = -1" if "t < 0" using t that by (intro int_div_pos_eq [where r = "t + 2 ^ 16"]) auto
  moreover have "t div 2 ^ 16 = 0" if "0 \<le> t" using t that by simp
  ultimately show "t div 2 ^ 16 = 0 \<or> t div 2 ^ 16 = -1" by linarith
qed

lemma rejoin_int: "r * 2 ^ 16 + 2 ^ 32 * q = 2 ^ 16 * (2 ^ 16 * q + (r :: int))"
  by simp

lemma diff_step:
  fixes xa xb :: "32 word" and s :: int
  assumes "s = 0 \<or> s = -1"
  defines "y \<equiv> (xa AND 0xffff) - (xb AND 0xffff) + word_of_int s"
  defines "z \<equiv> drop_bit 16 xa - drop_bit 16 xb + signed_drop_bit 16 y"
  shows "\<exists>s'. signed_drop_bit 16 z = word_of_int s' \<and> (s' = 0 \<or> s' = -1) \<and>
    int (unat (Storeinc z y)) + 2 ^ 32 * s' = int (unat xa) - int (unat xb) + s"
proof -
  define t where "t = int (unat (xa AND 0xffff)) - int (unat (xb AND 0xffff)) + s"
  note ty = word_half_diff [OF halves_less(1) halves_less(1) assms(1), of xa xb, folded t_def]
  have y: "y = word_of_int t" unfolding y_def by (rule ty(1))
  note sy = signed_half [OF ty(2,3)]
  define u where "u = int (unat (drop_bit 16 xa)) - int (unat (drop_bit 16 xb)) + t div 2 ^ 16"
  note tz = word_half_diff [OF halves_less(2) halves_less(2) ty(4), of xa xb, folded u_def]
  have z: "z = word_of_int u" unfolding z_def y sy(1) by (rule tz(1))
  note sz = signed_half [OF tz(2,3)]
  have "int (unat (Storeinc z y)) = (u mod 2 ^ 16) * 2 ^ 16 + t mod 2 ^ 16"
    using sy(2) sz(2) unfolding unat_Storeinc y z by simp
  moreover have "(u mod 2 ^ 16) * 2 ^ 16 + 2 ^ 32 * (u div 2 ^ 16) = 2 ^ 16 * u"
    using rejoin_int [of "u mod 2 ^ 16" "u div 2 ^ 16"] by (simp only: mult_div_mod_eq)
  moreover have "2 ^ 16 * u + t mod 2 ^ 16 = int (unat xa) - int (unat xb) + s"
  proof -
    have "2 ^ 16 * u + t mod 2 ^ 16 =
        2 ^ 16 * (int (unat (drop_bit 16 xa)) - int (unat (drop_bit 16 xb))) + t"
      unfolding u_def using mult_div_mod_eq [of "2 ^ 16" t] by (simp add: algebra_simps)
    then show ?thesis unfolding t_def halves [of xa] halves [of xb] by (simp add: algebra_simps)
  qed
  ultimately show ?thesis using sz(1) tz(4) z by (intro exI [of _ "u div 2 ^ 16"]) simp
qed

lemma diff_loop_val:
  assumes "length bs \<le> length as" "s = 0 \<or> s = -1"
  shows "\<exists>s'. (s' = 0 \<or> s' = -1) \<and> length (diff_loop as bs (word_of_int s)) = length as \<and>
    int (wval (diff_loop as bs (word_of_int s))) + 2 ^ (32 * length as) * s' = int (wval as) - int (wval bs) + s"
  using assms
proof (induction as arbitrary: bs s)
  case Nil
  then show ?case by auto
next
  case (Cons xa as)
  define xb where "xb = (case bs of [] \<Rightarrow> 0 | b # _ \<Rightarrow> b)"
  define y where "y = (xa AND 0xffff) - (xb AND 0xffff) + word_of_int s"
  define z where "z = drop_bit 16 xa - drop_bit 16 xb + signed_drop_bit 16 y"
  have d: "diff_loop (xa # as) bs (word_of_int s) = Storeinc z y # diff_loop as (tl bs) (signed_drop_bit 16 z)"
    by (cases bs) (simp_all add: xb_def y_def z_def Let_def)
  have bs: "wval bs = unat xb + 2 ^ 32 * wval (tl bs)" by (cases bs) (simp_all add: xb_def)
  obtain s1 where s1: "signed_drop_bit 16 z = word_of_int s1" "s1 = 0 \<or> s1 = -1"
      "int (unat (Storeinc z y)) + 2 ^ 32 * s1 = int (unat xa) - int (unat xb) + s"
    using diff_step [OF Cons.prems(2), of xa xb] unfolding y_def [symmetric] z_def [symmetric] by blast
  have "length (tl bs) \<le> length as" using Cons.prems(1) by (cases bs) auto
  then obtain s' where IH: "s' = 0 \<or> s' = -1" "length (diff_loop as (tl bs) (word_of_int s1)) = length as"
      "int (wval (diff_loop as (tl bs) (word_of_int s1))) + 2 ^ (32 * length as) * s' = int (wval as) - int (wval (tl bs)) + s1"
    using Cons.IH [OF _ s1(2)] by blast
  have "int (wval (diff_loop (xa # as) bs (word_of_int s))) + 2 ^ (32 * length (xa # as)) * s' =
      int (unat (Storeinc z y)) + 2 ^ 32 * (int (wval as) - int (wval (tl bs)) + s1)"
    unfolding IH(3) [symmetric] d s1(1) by (simp add: power_add algebra_simps)
  also have "\<dots> = int (wval (xa # as)) - int (wval bs) + s"
    using s1(3) unfolding bs by (simp add: algebra_simps)
  finally show ?case using IH(1,2) d s1(1) by (intro exI [of _ s']) simp
qed

lemma diff_loop_exact:
  assumes "length bs \<le> length as" "wval bs \<le> wval as"
  shows "wval (diff_loop as bs 0) = wval as - wval bs" "length (diff_loop as bs 0) = length as"
proof -
  obtain s' where s: "s' = 0 \<or> s' = -1" "length (diff_loop as bs 0) = length as"
      "int (wval (diff_loop as bs 0)) + 2 ^ (32 * length as) * s' = int (wval as) - int (wval bs)"
    using diff_loop_val [OF assms(1), of 0] by auto
  have "int (wval (diff_loop as bs 0)) < 2 ^ (32 * length as)"
    using wval_less [of "diff_loop as bs 0"] s(2) by (metis of_nat_less_iff of_nat_numeral of_nat_power)
  then have "s' \<noteq> -1" using s(3) assms(2) by (auto simp only: mult_minus1_right)
  then have "s' = 0" using s(1) by simp
  then show "wval (diff_loop as bs 0) = wval as - wval bs" using s(3) assms(2) by auto
  show "length (diff_loop as bs 0) = length as" by (rule s(2))
qed


lemma diff_val:
  assumes "mp_ok R" "bigint_normal a" "bigint_normal b" "b_k a \<le> Kmax" "b_k b \<le> Kmax"
  shows "\<exists>c R'. diff R a b = Some (c, R') \<and>
    (if b_sign c = 0 then int (bval c) else - int (bval c)) = int (bval a) - int (bval b) \<and> bigint_normal c \<and> mp_ok R'"
proof (cases "bval a = bval b")
  case True
  then have "cmp a b = 0" using cmp_val [OF assms(2,3)] by (simp add: sgn_0_0)
  moreover obtain c R' where c: "Balloc R 0 = Some (c, R')" "free_ok 0 c" "b_sign c = 0" "mp_ok R'"
    using Balloc_ok [OF assms(1), of 0] by auto
  moreover obtain x where "b_x c = [x]" using c(2) by (auto simp: free_ok_def length_Suc_conv)
  ultimately show ?thesis using True
    by (auto simp: diff_def bval_def bigint_normal_def bigint_ok_def free_ok_def)
next
  case ne: False
  have sub: "\<exists>c R'. (do { (c, R) \<leftarrow> Balloc R (b_k a);
        let xs = diff_loop (take (b_wds a) (b_x a)) (take (b_wds b) (b_x b)) 0;
        Some (c\<lparr>b_sign := s, b_x := xs @ drop (length xs) (b_x c), b_wds := strip0 xs (b_wds a)\<rparr>, R) }) = Some (c, R') \<and>
      b_sign c = s \<and> bval c = bval a - bval b \<and> bigint_normal c \<and> mp_ok R'"
    if n: "bigint_normal a" "bigint_normal b" "bval b < bval a" "b_k a \<le> Kmax" for a b and s :: int
  proof -
    have w: "b_wds b \<le> b_wds a" using normal_size [OF n(1,2)] n(3) by (metis leI less_asym)
    have ka: "length (b_x a) = 2 ^ b_k a" "b_wds a \<le> 2 ^ b_k a" "b_wds b \<le> length (b_x b)" "1 \<le> b_wds a"
      using n(1,2) by (auto simp: bigint_normal_def bigint_ok_def)
    let ?xs = "diff_loop (take (b_wds a) (b_x a)) (take (b_wds b) (b_x b)) 0"
    have xs: "wval ?xs = bval a - bval b" "length ?xs = b_wds a"
      using diff_loop_exact [of "take (b_wds b) (b_x b)" "take (b_wds a) (b_x a)"] w ka n(3) by (auto simp: bval_def)
    obtain c R' where c: "Balloc R (b_k a) = Some (c, R')" "free_ok (b_k a) c" "mp_ok R'"
      using Balloc_ok [OF assms(1) n(4)] by blast
    let ?c = "c\<lparr>b_sign := s, b_x := ?xs @ drop (length ?xs) (b_x c), b_wds := strip0 ?xs (b_wds a)\<rparr>"
    have v: "bval ?c = bval a - bval b"
      using strip0_val [of "b_wds a" ?xs] strip0_le [of ?xs "b_wds a"] xs by (simp add: bval_def)
    have "strip0 ?xs (b_wds a) \<noteq> 0"
    proof
      assume "strip0 ?xs (b_wds a) = 0"
      then have "bval ?c = 0" by (simp add: bval_def)
      then show False using v n(3) by simp
    qed
    then have "bigint_normal ?c"
      using c(2) ka xs(2) strip0_le [of ?xs "b_wds a"] strip0_normal [of ?xs "b_wds a"]
      by (auto simp: bigint_normal_def bigint_ok_def free_ok_def nth_append)
    then show ?thesis using c v by (auto simp: Let_def)
  qed
  have sg: "sgn (cmp a b) = sgn (int (bval a) - int (bval b))" by (rule cmp_val [OF assms(2,3)])
  show ?thesis
  proof (cases "bval a < bval b")
    case True
    then have "cmp a b < 0" using sg by (metis diff_less_0_iff_less of_nat_less_iff sgn_less)
    moreover obtain c R' where "(do { (c, R) \<leftarrow> Balloc R (b_k b);
        let xs = diff_loop (take (b_wds b) (b_x b)) (take (b_wds a) (b_x a)) 0;
        Some (c\<lparr>b_sign := 1, b_x := xs @ drop (length xs) (b_x c), b_wds := strip0 xs (b_wds b)\<rparr>, R) }) = Some (c, R')"
      "b_sign c = 1" "bval c = bval b - bval a" "bigint_normal c" "mp_ok R'"
      using sub [OF assms(3,2) True assms(5), of 1] by blast
    ultimately show ?thesis using True by (intro exI [of _ c] exI [of _ R']) (simp add: diff_def)
  next
    case False
    then have lt: "bval b < bval a" using ne by simp
    then have "0 < cmp a b" using sg by (metis diff_gt_0_iff_gt of_nat_less_iff sgn_greater)
    moreover obtain c R' where "(do { (c, R) \<leftarrow> Balloc R (b_k a);
        let xs = diff_loop (take (b_wds a) (b_x a)) (take (b_wds b) (b_x b)) 0;
        Some (c\<lparr>b_sign := 0, b_x := xs @ drop (length xs) (b_x c), b_wds := strip0 xs (b_wds a)\<rparr>, R) }) = Some (c, R')"
      "b_sign c = 0" "bval c = bval a - bval b" "bigint_normal c" "mp_ok R'"
      using sub [OF assms(2,3) lt assms(4), of 0] by blast
    ultimately show ?thesis using lt by (intro exI [of _ c] exI [of _ R']) (simp add: diff_def)
  qed
qed

section \<open>Bit counts\<close>

lemma and_high_mask:
  fixes x :: "32 word"
  assumes "k < 32"
  shows "x AND NOT (mask k) = 0 \<longleftrightarrow> unat x < 2 ^ k"
proof -
  have "x AND NOT (mask k) = 0 \<longleftrightarrow> take_bit k x = x"
  proof
    assume *: "x AND NOT (mask k) = 0"
    have "x = (x AND mask k) OR (x AND NOT (mask k))" by (simp add: bit.conj_disj_distrib [symmetric])
    then show "take_bit k x = x" using * by (simp add: take_bit_eq_mask)
  next
    assume *: "take_bit k x = x"
    show "x AND NOT (mask k) = 0"
    proof (rule bit_word_eqI)
      fix n :: nat
      assume "n < LENGTH(32)"
      have "bit x n \<longleftrightarrow> bit (take_bit k x) n" using * by simp
      then show "bit (x AND NOT (mask k)) n \<longleftrightarrow> bit (0 :: 32 word) n" by (auto simp: bit_simps)
    qed
  qed
  also have "\<dots> \<longleftrightarrow> take_bit k (unat x) = unat x" by (simp only: word_unat_eq_iff unsigned_take_bit_eq)
  also have "\<dots> \<longleftrightarrow> unat x < 2 ^ k" by (rule take_bit_nat_eq_self_iff)
  finally show ?thesis .
qed

lemma hi_masks:
  "(0xffff0000 :: 32 word) = NOT (mask 16)" "(0xff000000 :: 32 word) = NOT (mask 24)"
  "(0xf0000000 :: 32 word) = NOT (mask 28)" "(0xc0000000 :: 32 word) = NOT (mask 30)"
  "(0x80000000 :: 32 word) = NOT (mask 31)"
  by (simp_all add: mask_eq_exp_minus_1)

lemma unat_push_small: "unat x * 2 ^ k < 2 ^ 32 \<Longrightarrow> k < 32 \<Longrightarrow> unat (push_bit k x :: 32 word) = unat x * 2 ^ k"
  by (simp add: push_bit_eq_mult unat_word_ariths unat_exp32)

text \<open>
  One step of \<open>hi0bits\<close>: when the top \<open>d\<close> bits are 0 the number is shifted left
  by \<open>d\<close>; then one of its top \<open>d\<close> bits is set.
\<close>

lemma hi0_step:
  fixes x :: "32 word" and k :: int
  assumes "0 < d" "d \<le> 16" "2 ^ (32 - 2 * d) \<le> unat x"
  shows "\<exists>j y. (if x AND NOT (mask (32 - d)) = 0 then (k + int d, push_bit d x) else (k, x)) = (k + int j, y) \<and>
    unat y = unat x * 2 ^ j \<and> 2 ^ (32 - d) \<le> unat y"
proof (cases "unat x < 2 ^ (32 - d)")
  case True
  have p: "(2 :: nat) ^ (32 - d) * 2 ^ d = 2 ^ 32" "(2 :: nat) ^ (32 - 2 * d) * 2 ^ d = 2 ^ (32 - d)"
    using assms by (simp_all add: power_add [symmetric])
  have "unat x * 2 ^ d < 2 ^ (32 - d) * 2 ^ d" using True by (intro mult_strict_right_mono) auto
  then have "unat (push_bit d x) = unat x * 2 ^ d" using assms unfolding p by (intro unat_push_small) auto
  moreover have "2 ^ (32 - 2 * d) * 2 ^ d \<le> unat x * 2 ^ d" using assms(3) by (rule mult_le_mono1)
  moreover have "x AND NOT (mask (32 - d)) = 0" using True assms and_high_mask [of "32 - d" x] by simp
  ultimately show ?thesis unfolding p by (intro exI [of _ d] exI [of _ "push_bit d x"]) simp
next
  case False
  then have "x AND NOT (mask (32 - d)) \<noteq> 0" using assms and_high_mask [of "32 - d" x] by simp
  then show ?thesis using False by (intro exI [of _ 0] exI [of _ x]) simp
qed

lemma hi0bits_val:
  fixes x :: "32 word"
  assumes "x \<noteq> 0"
  shows "\<exists>j. hi0bits x = int j \<and> 2 ^ 31 \<le> unat x * 2 ^ j \<and> unat x * 2 ^ j < 2 ^ 32"
proof -
  have x: "2 ^ (32 - 2 * 16) \<le> unat x" using assms by (simp add: Suc_le_eq unat_gt_0)
  obtain j1 x1 where 1: "(if x AND 0xffff0000 = 0 then (16, push_bit 16 x) else (0, x)) = (int j1, x1)"
      "unat x1 = unat x * 2 ^ j1" "2 ^ (32 - 2 * 8) \<le> unat x1"
    using hi0_step [OF _ _ x, of 0] unfolding hi_masks by (auto split: if_splits)
  obtain j2 x2 where 2: "(if x1 AND 0xff000000 = 0 then (int j1 + 8, push_bit 8 x1) else (int j1, x1)) = (int j1 + int j2, x2)"
      "unat x2 = unat x1 * 2 ^ j2" "2 ^ (32 - 2 * 4) \<le> unat x2"
    using hi0_step [OF _ _ 1(3), of "int j1"] unfolding hi_masks by (auto split: if_splits)
  obtain j3 x3 where 3: "(if x2 AND 0xf0000000 = 0 then (int j1 + int j2 + 4, push_bit 4 x2) else (int j1 + int j2, x2))
        = (int j1 + int j2 + int j3, x3)"
      "unat x3 = unat x2 * 2 ^ j3" "2 ^ (32 - 2 * 2) \<le> unat x3"
    using hi0_step [OF _ _ 2(3), of "int j1 + int j2"] unfolding hi_masks by (auto split: if_splits)
  obtain j4 x4 where 4: "(if x3 AND 0xc0000000 = 0 then (int j1 + int j2 + int j3 + 2, push_bit 2 x3)
        else (int j1 + int j2 + int j3, x3)) = (int j1 + int j2 + int j3 + int j4, x4)"
      "unat x4 = unat x3 * 2 ^ j4" "2 ^ (32 - 2) \<le> unat x4"
    using hi0_step [OF _ _ 3(3), of "int j1 + int j2 + int j3"] unfolding hi_masks by (auto split: if_splits)
  let ?j = "j1 + j2 + j3 + j4"
  have v: "unat x4 = unat x * 2 ^ ?j" using 1(2) 2(2) 3(2) 4(2) by (simp add: power_add)
  have b: "x4 AND 0x80000000 = 0 \<longleftrightarrow> unat x4 < 2 ^ 31" unfolding hi_masks using and_high_mask [of 31 x4] by simp
  have c: "x4 AND 0x40000000 \<noteq> 0" if "unat x4 < 2 ^ 31"
  proof
    assume z: "x4 AND 0x40000000 = 0"
    have "x4 AND 0xc0000000 = 0"
    proof -
      have "(0xc0000000 :: 32 word) = 0x80000000 OR 0x40000000" by simp
      then show ?thesis using z that b by (simp only: bit.conj_disj_distrib) simp
    qed
    then have "unat x4 < 2 ^ 30" unfolding hi_masks using and_high_mask [of 30 x4] by simp
    then show False using 4(3) by simp
  qed
  have h: "hi0bits x = (if x4 AND 0x80000000 = 0 then if x4 AND 0x40000000 = 0 then 32 else int ?j + 1 else int ?j)"
    unfolding hi0bits_def Let_def 1(1) prod.case 2(1) 3(1) 4(1) by simp
  show ?thesis
  proof (cases "unat x4 < 2 ^ 31")
    case True
    then have "hi0bits x = int (?j + 1)" using h b c by simp
    moreover have "unat x * 2 ^ (?j + 1) = 2 * unat x4" using v by (simp add: power_add)
    ultimately show ?thesis using True 4(3) by (intro exI [of _ "?j + 1"]) simp
  next
    case False
    then have "hi0bits x = int ?j" using h b by simp
    then show ?thesis using False v unat_word32_less [of x4] by (intro exI [of _ ?j]) simp
  qed
qed

lemma and_mask_dvd: "(x :: 32 word) AND mask k = 0 \<longleftrightarrow> 2 ^ k dvd unat x"
proof -
  have "x AND mask k = 0 \<longleftrightarrow> unat (take_bit k x) = 0" by (simp add: take_bit_eq_mask unsigned_eq_0_iff)
  also have "\<dots> \<longleftrightarrow> take_bit k (unat x) = 0" by (simp only: unsigned_take_bit_eq)
  also have "\<dots> \<longleftrightarrow> 2 ^ k dvd unat x" by (simp add: take_bit_eq_mod mod_eq_0_iff_dvd)
  finally show ?thesis .
qed

text \<open>
  One step of \<open>lo0bits\<close>: when the low \<open>d\<close> bits are 0 the number is shifted right
  by \<open>d\<close>; then it is not a multiple of \<open>2 ^ d\<close>.
\<close>

lemma lo0_step:
  fixes x :: "32 word" and k :: int
  assumes "0 < d" "d \<le> 16" "\<not> 2 ^ (2 * d) dvd unat x"
  shows "\<exists>j y. (if x AND mask d = 0 then (k + int d, drop_bit d x) else (k, x)) = (k + int j, y) \<and>
    unat x = unat y * 2 ^ j \<and> \<not> 2 ^ d dvd unat y"
proof -
  note e = and_mask_dvd [of x d]
  have u: "unat (drop_bit d x) = unat x div 2 ^ d" using assms by (simp add: drop_bit_eq_div unat_div unat_exp32)
  show ?thesis
  proof (cases "2 ^ d dvd unat x")
    case True
    then have x: "unat x = unat (drop_bit d x) * 2 ^ d" using u by simp
    have "\<not> 2 ^ d dvd unat (drop_bit d x)"
    proof
      assume "2 ^ d dvd unat (drop_bit d x)"
      then have "2 ^ d * 2 ^ d dvd unat x" unfolding x by (rule mult_dvd_mono) simp
      then show False using assms(3) by (simp add: mult_2 power_add)
    qed
    then show ?thesis using True e x by (intro exI [of _ d] exI [of _ "drop_bit d x"]) simp
  next
    case False
    then show ?thesis using e by (intro exI [of _ 0] exI [of _ x]) simp
  qed
qed

lemma lo_masks:
  "(0xffff :: 32 word) = mask 16" "(0xff :: 32 word) = mask 8" "(0xf :: 32 word) = mask 4"
  "(0x3 :: 32 word) = mask 2" "(7 :: 32 word) = mask 3" "(1 :: 32 word) = mask 1"
  by (simp_all add: mask_eq_exp_minus_1)

lemma lo0bits_low:
  fixes x :: "32 word"
  assumes "x AND 7 \<noteq> 0"
  shows "\<exists>j y. lo0bits x = (int j, y) \<and> unat x = unat y * 2 ^ j \<and> odd (unat y)"
proof -
  have m: "\<not> 8 dvd unat x" using assms and_mask_dvd [of x 3] unfolding lo_masks by simp
  have 1: "x AND 1 = 0 \<longleftrightarrow> even (unat x)" using and_mask_dvd [of x 1] unfolding lo_masks by simp
  have 2: "x AND 2 = 0 \<longleftrightarrow> 4 dvd unat x" if "x AND 1 = 0"
  proof -
    have "(3 :: 32 word) = 2 OR 1" by simp
    then have "x AND 3 = (x AND 2) OR (x AND 1)" by (simp only: bit.conj_disj_distrib)
    then show ?thesis using that and_mask_dvd [of x 2] unfolding lo_masks by simp
  qed
  have d: "unat (drop_bit 1 x) = unat x div 2" "unat (drop_bit 2 x) = unat x div 4"
    using unat_exp32 [of 1] unat_exp32 [of 2] by (simp_all add: drop_bit_eq_div unat_div)
  consider "odd (unat x)" | "even (unat x)" "\<not> 4 dvd unat x" | "4 dvd unat x" by blast
  then show ?thesis
  proof cases
    case 1
    then show ?thesis using assms \<open>x AND 1 = 0 \<longleftrightarrow> even (unat x)\<close>
      by (intro exI [of _ 0] exI [of _ x]) (simp add: lo0bits_def)
  next
    case 2
    then have "odd (unat x div 2)" by presburger
    then show ?thesis using assms 2 \<open>x AND 1 = 0 \<longleftrightarrow> even (unat x)\<close> \<open>x AND 1 = 0 \<Longrightarrow> (x AND 2 = 0) = (4 dvd unat x)\<close> d
      by (intro exI [of _ 1] exI [of _ "drop_bit 1 x"]) (simp add: lo0bits_def)
  next
    case 3
    then have "even (unat x)" "odd (unat x div 4)" using m by presburger+
    then show ?thesis using assms 3 \<open>x AND 1 = 0 \<longleftrightarrow> even (unat x)\<close> \<open>x AND 1 = 0 \<Longrightarrow> (x AND 2 = 0) = (4 dvd unat x)\<close> d
      by (intro exI [of _ 2] exI [of _ "drop_bit 2 x"]) (simp add: lo0bits_def)
  qed
qed

lemma lo0bits_val:
  fixes x :: "32 word"
  assumes "x \<noteq> 0"
  shows "\<exists>j y. lo0bits x = (int j, y) \<and> unat x = unat y * 2 ^ j \<and> odd (unat y)"
proof (cases "x AND 7 = 0")
  case False
  then show ?thesis by (rule lo0bits_low)
next
  case True
  have "unat x \<noteq> 0" using assms by (simp add: unsigned_eq_0_iff)
  then have x: "\<not> 2 ^ (2 * 16) dvd unat x" using unat_word32_less [of x] by (auto dest: dvd_imp_le)
  obtain j1 x1 where 1: "(if x AND 0xffff = 0 then (16, drop_bit 16 x) else (0, x)) = (int j1, x1)"
      "unat x = unat x1 * 2 ^ j1" "\<not> 2 ^ (2 * 8) dvd unat x1"
    using lo0_step [OF _ _ x, of 0] unfolding lo_masks by (auto split: if_splits)
  obtain j2 x2 where 2: "(if x1 AND 0xff = 0 then (int j1 + 8, drop_bit 8 x1) else (int j1, x1)) = (int j1 + int j2, x2)"
      "unat x1 = unat x2 * 2 ^ j2" "\<not> 2 ^ (2 * 4) dvd unat x2"
    using lo0_step [OF _ _ 1(3), of "int j1"] unfolding lo_masks by (auto split: if_splits)
  obtain j3 x3 where 3: "(if x2 AND 0xf = 0 then (int j1 + int j2 + 4, drop_bit 4 x2) else (int j1 + int j2, x2))
        = (int j1 + int j2 + int j3, x3)"
      "unat x2 = unat x3 * 2 ^ j3" "\<not> 2 ^ (2 * 2) dvd unat x3"
    using lo0_step [OF _ _ 2(3), of "int j1 + int j2"] unfolding lo_masks by (auto split: if_splits)
  obtain j4 x4 where 4: "(if x3 AND 0x3 = 0 then (int j1 + int j2 + int j3 + 2, drop_bit 2 x3)
        else (int j1 + int j2 + int j3, x3)) = (int j1 + int j2 + int j3 + int j4, x4)"
      "unat x3 = unat x4 * 2 ^ j4" "\<not> 2 ^ 2 dvd unat x4"
    using lo0_step [OF _ _ 3(3), of "int j1 + int j2 + int j3"] unfolding lo_masks by (auto split: if_splits)
  let ?j = "j1 + j2 + j3 + j4"
  have v: "unat x = unat x4 * 2 ^ ?j" using 1(2) 2(2) 3(2) 4(2) by (simp add: power_add)
  have e: "x4 AND 1 = 0 \<longleftrightarrow> even (unat x4)" using and_mask_dvd [of x4 1] unfolding lo_masks by simp
  have h: "lo0bits x = (if x4 AND 1 = 0 then if drop_bit 1 x4 = 0 then (32, x) else (int ?j + 1, drop_bit 1 x4) else (int ?j, x4))"
    unfolding lo0bits_def Let_def 1(1) prod.case 2(1) 3(1) 4(1) using True by simp
  show ?thesis
  proof (cases "even (unat x4)")
    case True
    have u: "unat (drop_bit 1 x4) = unat x4 div 2" using unat_exp32 [of 1] by (simp add: drop_bit_eq_div unat_div)
    have o: "odd (unat x4 div 2)" using True 4(3) by (simp add: dvd_def) presburger
    then have "drop_bit 1 x4 \<noteq> 0" using u by (metis even_zero unsigned_0)
    then have "lo0bits x = (int (?j + 1), drop_bit 1 x4)" using h e True by simp
    moreover have "unat x = unat (drop_bit 1 x4) * 2 ^ (?j + 1)" using v u True by simp
    ultimately show ?thesis using o u by metis
  next
    case False
    then show ?thesis using h e v by (intro exI [of _ ?j] exI [of _ x4]) simp
  qed
qed

section \<open>Properties\<close>


definition big :: "32 word \<Rightarrow> bigint" where
  "big w = \<lparr>b_k = 0, b_maxwds = 1, b_sign = 0, b_wds = 1, b_x = [w]\<rparr>"

definition mp0 :: mp_reent where
  "mp0 = \<lparr>mp_freelist = None, mp_p5s = [], mp_calloc = (\<lambda>k. True)\<rparr>"

lemma big_simps: "mp_ok mp0" "p5s_ok (mp_p5s mp0)" "bigint_ok (big w)" "bigint_normal (big w)" "bval (big w) = unat w"
    "b_k (big w) = 0" "b_wds (big w) = 1"
  by (simp_all add: mp_ok_def mp0_def big_def bigint_ok_def bigint_normal_def bval_def p5s_ok_def)


text \<open>
  multiplying by a power of 5 gives the exact product, whether the cached
  powers are there or have to be computed, and keeps the cache correct.
\<close>

theorem pow5mult_correct:
  assumes "mp_ok R" and "p5s_ok (mp_p5s R)" and "bigint_ok b" and "0 < bval b" and "b_k b \<le> 32" and "k < 2 ^ 31"
  shows "\<exists>d R'. pow5mult R b k = Some (d, R') \<and> bval d = bval b * 5 ^ k \<and> bigint_ok d \<and>
    mp_ok R' \<and> p5s_ok (mp_p5s R')"
  using pow5mult_val [OF assms] .

theorem pow5mult_correct_witness:
  "\<exists>d R'. pow5mult mp0 (big 3) 40 = Some (d, R') \<and> bval d = 3 * 5 ^ 40"
  using pow5mult_correct [of mp0 "big 3" 40]
  by (auto simp: big_simps)

text \<open>
  \<open>lshift\<close> multiplies the value by a power of 2 and returns a well-formed
  number.
\<close>

theorem lshift_correct:
  assumes "mp_ok R" and "bigint_ok b" and "b_k b \<le> Kmax" and "k div 32 + b_wds b + 1 \<le> 2 ^ Kmax"
  shows "\<exists>c R'. lshift R b k = Some (c, R') \<and> bval c = bval b * 2 ^ k \<and> bigint_ok c \<and> mp_ok R'"
  using lshift_val [OF assms] by metis

theorem lshift_correct_witness:
  "\<exists>c R'. lshift mp0 (big 0x80000001) 33 = Some (c, R') \<and> bval c = 0x80000001 * 2 ^ 33"
  using lshift_correct [of mp0 "big 0x80000001" 33]
  by (auto simp: big_simps Kmax_def)

text \<open>
  on normal numbers \<open>cmp\<close> has the sign of the difference of the values, and
  \<open>diff\<close> returns a normal number whose signed value is the difference.
\<close>

theorem diff_correct:
  assumes "mp_ok R" and "bigint_normal a" and "bigint_normal b" and "b_k a \<le> Kmax" and "b_k b \<le> Kmax"
  shows "sgn (cmp a b) = sgn (int (bval a) - int (bval b)) \<and>
    (\<exists>c R'. diff R a b = Some (c, R') \<and>
      (if b_sign c = 0 then int (bval c) else - int (bval c)) = int (bval a) - int (bval b) \<and> bigint_normal c \<and> mp_ok R')"
  using cmp_val [OF assms(2,3)] diff_val [OF assms] by blast

theorem diff_correct_witness:
  "sgn (cmp (big 3) (big 5)) = -1 \<and>
   (\<exists>c R'. diff mp0 (big 3) (big 5) = Some (c, R') \<and> (if b_sign c = 0 then int (bval c) else - int (bval c)) = -2)"
proof -
  have "int (bval (big 3)) - int (bval (big 5)) = -2" by (simp add: big_simps)
  moreover have "b_k (big 3) \<le> Kmax" "b_k (big 5) \<le> Kmax" by (simp_all add: big_simps)
  moreover have "sgn (-2 :: int) = -1" by simp
  ultimately show ?thesis
    using diff_correct [OF big_simps(1) big_simps(4) [of 3] big_simps(4) [of 5]] by metis
qed

text \<open>
  \<open>hi0bits\<close> counts the leading zeros of a nonzero word, and \<open>lo0bits\<close> the
  trailing zeros, which it shifts out.
\<close>

theorem bit_counts_correct:
  assumes "x \<noteq> 0"
  shows "(\<exists>j. hi0bits x = int j \<and> 2 ^ 31 \<le> unat x * 2 ^ j \<and> unat x * 2 ^ j < 2 ^ 32) \<and>
    (\<exists>j y. lo0bits x = (int j, y) \<and> unat x = unat y * 2 ^ j \<and> odd (unat y))"
  using hi0bits_val [OF assms] lo0bits_val [OF assms] by blast

theorem bit_counts_correct_witness:
  "\<exists>j y. lo0bits 40 = (int j, y) \<and> 40 = unat y * 2 ^ j \<and> odd (unat y)"
  using bit_counts_correct [of 40] by simp

end
