(* ===== verification/Sort_Algorithm.thy ===== *)
theory Sort_Algorithm
  imports Main "HOL-Library.Multiset"
begin

text \<open>
  The algorithms of \<open>libc/search\<close> on lists: the quicksort with insertion sort, three-way partition and
  a bounded stack of ranges that \<open>qsort.c\<close> implements, and the binary search of \<open>bsearch.c\<close>, on a list of
  elements and with indices for pointers.  They are the reference that the code on memory (theory
  \<open>Newlib_Sort\<close>) is shown to refine; that they sort and find is proved here.
\<close>

section \<open>Exchanging elements\<close>

definition list_swap :: "nat \<Rightarrow> nat \<Rightarrow> 'a list \<Rightarrow> 'a list" where
  "list_swap i j xs = xs[i := xs ! j, j := xs ! i]"

fun list_swaps :: "nat \<Rightarrow> nat \<Rightarrow> nat \<Rightarrow> 'a list \<Rightarrow> 'a list" where
  "list_swaps i pi pj xs =
     (let xs = list_swap pi pj xs in if i - 1 > 0 then list_swaps (i - 1) (pi + 1) (pj + 1) xs else xs)"

definition list_vecswap :: "nat \<Rightarrow> nat \<Rightarrow> nat \<Rightarrow> 'a list \<Rightarrow> 'a list" where
  "list_vecswap a b n xs = (if n > 0 then list_swaps n a b xs else xs)"

declare list_swaps.simps [simp del]

section \<open>Insertion sort\<close>

type_synonym 'a cmp = "'a \<Rightarrow> 'a \<Rightarrow> int"

function list_ins_down :: "'a cmp \<Rightarrow> nat \<Rightarrow> nat \<Rightarrow> 'a list \<Rightarrow> 'a list" where
  "list_ins_down cmp a pl xs =
     (if pl > a \<and> cmp (xs ! (pl - 1)) (xs ! pl) > 0 then list_ins_down cmp a (pl - 1) (list_swap pl (pl - 1) xs) else xs)"
  by pat_completeness auto
termination by (relation "measure (\<lambda>(cmp, a, pl, xs). pl)") auto

function list_ins_sort :: "'a cmp \<Rightarrow> nat \<Rightarrow> nat \<Rightarrow> nat \<Rightarrow> 'a list \<Rightarrow> 'a list" where
  "list_ins_sort cmp a n pm xs =
     (if pm < a + n then list_ins_sort cmp a n (pm + 1) (list_ins_down cmp a pm xs) else xs)"
  by pat_completeness auto
termination by (relation "measure (\<lambda>(cmp, a, n, pm, xs). a + n - pm)") auto

section \<open>The partition\<close>

definition list_med3 :: "'a cmp \<Rightarrow> 'a list \<Rightarrow> nat \<Rightarrow> nat \<Rightarrow> nat \<Rightarrow> nat" where
  "list_med3 cmp xs a b c =
     (if cmp (xs ! a) (xs ! b) < 0
      then (if cmp (xs ! b) (xs ! c) < 0 then b else if cmp (xs ! a) (xs ! c) < 0 then c else a)
      else (if cmp (xs ! b) (xs ! c) > 0 then b else if cmp (xs ! a) (xs ! c) < 0 then a else c))"

definition list_pivot :: "'a cmp \<Rightarrow> nat \<Rightarrow> nat \<Rightarrow> 'a list \<Rightarrow> nat" where
  "list_pivot cmp a n xs =
     (let pm = a + n div 2
      in if n > 7 then
           let pl = a; pn = a + (n - 1);
               (pl, pm, pn) =
                 (if n > 40 then
                    let d = n div 8
                    in (list_med3 cmp xs pl (pl + d) (pl + 2 * d), list_med3 cmp xs (pm - d) pm (pm + d),
                        list_med3 cmp xs (pn - 2 * d) (pn - d) pn)
                  else (pl, pm, pn))
           in list_med3 cmp xs pl pm pn
         else pm)"

record 'a list_part =
  l_arr :: "'a list"
  l_pa :: nat
  l_pb :: nat
  l_pc :: nat
  l_pd :: nat
  l_swap :: bool

text \<open>The bodies of the two scans, \<open>r\<close> being \<open>cmp_result\<close>.\<close>

definition list_move_up :: "int \<Rightarrow> 'a list_part \<Rightarrow> 'a list_part" where
  "list_move_up r s =
     (let s = (if r = 0 then s\<lparr>l_swap := True, l_arr := list_swap (l_pa s) (l_pb s) (l_arr s), l_pa := l_pa s + 1\<rparr> else s)
      in s\<lparr>l_pb := l_pb s + 1\<rparr>)"

definition list_move_down :: "int \<Rightarrow> 'a list_part \<Rightarrow> 'a list_part" where
  "list_move_down r s =
     (let s = (if r = 0 then s\<lparr>l_swap := True, l_arr := list_swap (l_pc s) (l_pd s) (l_arr s), l_pd := l_pd s - 1\<rparr> else s)
      in s\<lparr>l_pc := l_pc s - 1\<rparr>)"

lemma move_simps [simp]:
  "l_pb (list_move_up r s) = l_pb s + 1" "l_pc (list_move_up r s) = l_pc s" "l_pd (list_move_up r s) = l_pd s"
  "l_pc (list_move_down r s) = l_pc s - 1" "l_pb (list_move_down r s) = l_pb s" "l_pa (list_move_down r s) = l_pa s"
  by (simp_all add: list_move_up_def list_move_down_def Let_def)

function list_scan_up :: "'a cmp \<Rightarrow> nat \<Rightarrow> 'a list_part \<Rightarrow> 'a list_part" where
  "list_scan_up cmp a s =
     (let r = cmp (l_arr s ! l_pb s) (l_arr s ! a)
      in if l_pb s \<le> l_pc s \<and> r \<le> 0 then list_scan_up cmp a (list_move_up r s) else s)"
  by pat_completeness auto
termination by (relation "measure (\<lambda>(cmp, a, s). l_pc s + 1 - l_pb s)") auto

text \<open>
  \<open>pb\<close> starts right of the list_pivot and only grows: the test \<open>0 < pb\<close> always holds.
  It makes the two recursions total on all states.
\<close>

function list_scan_down :: "'a cmp \<Rightarrow> nat \<Rightarrow> 'a list_part \<Rightarrow> 'a list_part" where
  "list_scan_down cmp a s =
     (let r = cmp (l_arr s ! l_pc s) (l_arr s ! a)
      in if 0 < l_pb s \<and> l_pb s \<le> l_pc s \<and> r \<ge> 0 then list_scan_down cmp a (list_move_down r s) else s)"
  by pat_completeness auto
termination by (relation "measure (\<lambda>(cmp, a, s). l_pc s + 1 - l_pb s)") auto

declare list_ins_down.simps [simp del] list_ins_sort.simps [simp del] list_scan_up.simps [simp del] list_scan_down.simps [simp del]

text \<open>What every round of a scan keeps holds after it.\<close>

lemma scan_up_keeps:
  assumes "P s"
    and step: "\<And>s. P s \<Longrightarrow> l_pb s \<le> l_pc s \<Longrightarrow> cmp (l_arr s ! l_pb s) (l_arr s ! a) \<le> 0 \<Longrightarrow>
      P (list_move_up (cmp (l_arr s ! l_pb s) (l_arr s ! a)) s)"
  shows "P (list_scan_up cmp a s)"
  using assms(1)
proof (induction "l_pc s + 1 - l_pb s" arbitrary: s rule: less_induct)
  case less
  let ?s = "list_move_up (cmp (l_arr s ! l_pb s) (l_arr s ! a)) s"
  show ?case using less.hyps [of ?s] less.prems step [of s] by (subst list_scan_up.simps) (auto simp: Let_def)
qed

lemma scan_down_keeps:
  assumes "P s"
    and step: "\<And>s. P s \<Longrightarrow> 0 < l_pb s \<Longrightarrow> l_pb s \<le> l_pc s \<Longrightarrow> cmp (l_arr s ! l_pc s) (l_arr s ! a) \<ge> 0 \<Longrightarrow>
      P (list_move_down (cmp (l_arr s ! l_pc s) (l_arr s ! a)) s)"
  shows "P (list_scan_down cmp a s)"
  using assms(1)
proof (induction "l_pc s + 1 - l_pb s" arbitrary: s rule: less_induct)
  case less
  let ?s = "list_move_down (cmp (l_arr s ! l_pc s) (l_arr s ! a)) s"
  show ?case using less.hyps [of ?s] less.prems step [of s] by (subst list_scan_down.simps) (auto simp: Let_def)
qed

lemma scan_up_gap: "l_pc (list_scan_up cmp a s) + 1 - l_pb (list_scan_up cmp a s) \<le> l_pc s + 1 - l_pb s"
  by (rule scan_up_keeps) auto

lemma scan_down_gap: "l_pc (list_scan_down cmp a s) + 1 - l_pb (list_scan_down cmp a s) \<le> l_pc s + 1 - l_pb s"
  by (rule scan_down_keeps) auto

lemma scan_up_stops:
  "l_pb (list_scan_up cmp a s) \<le> l_pc (list_scan_up cmp a s) \<Longrightarrow>
   cmp (l_arr (list_scan_up cmp a s) ! l_pb (list_scan_up cmp a s)) (l_arr (list_scan_up cmp a s) ! a) > 0"
proof (induction "l_pc s + 1 - l_pb s" arbitrary: s rule: less_induct)
  case less
  show ?case
  proof (cases "l_pb s \<le> l_pc s \<and> cmp (l_arr s ! l_pb s) (l_arr s ! a) \<le> 0")
    case True
    then have "list_scan_up cmp a s = list_scan_up cmp a (list_move_up (cmp (l_arr s ! l_pb s) (l_arr s ! a)) s)"
      by (subst list_scan_up.simps) (simp add: Let_def)
    then show ?thesis using less.hyps [of "list_move_up (cmp (l_arr s ! l_pb s) (l_arr s ! a)) s"] less.prems True by (simp add: Suc_diff_le)
  next
    case False
    then have "list_scan_up cmp a s = s" by (subst list_scan_up.simps) (auto simp: Let_def)
    then show ?thesis using less.prems False by simp
  qed
qed

lemma scan_down_stops:
  "0 < l_pb s \<Longrightarrow> l_pb (list_scan_down cmp a s) \<le> l_pc (list_scan_down cmp a s) \<Longrightarrow>
   cmp (l_arr (list_scan_down cmp a s) ! l_pc (list_scan_down cmp a s)) (l_arr (list_scan_down cmp a s) ! a) < 0"
proof (induction "l_pc s + 1 - l_pb s" arbitrary: s rule: less_induct)
  case less
  show ?case
  proof (cases "l_pb s \<le> l_pc s \<and> cmp (l_arr s ! l_pc s) (l_arr s ! a) \<ge> 0")
    case True
    then have "list_scan_down cmp a s = list_scan_down cmp a (list_move_down (cmp (l_arr s ! l_pc s) (l_arr s ! a)) s)"
      using less.prems(1) by (subst list_scan_down.simps) (simp add: Let_def)
    then show ?thesis using less.hyps [of "list_move_down (cmp (l_arr s ! l_pc s) (l_arr s ! a)) s"] less.prems True by (simp add: Suc_diff_le)
  next
    case False
    then have "list_scan_down cmp a s = s" by (subst list_scan_down.simps) (auto simp: Let_def)
    then show ?thesis using less.prems False by simp
  qed
qed

function list_part_loop :: "'a cmp \<Rightarrow> nat \<Rightarrow> 'a list_part \<Rightarrow> 'a list_part" where
  "list_part_loop cmp a s =
     (let s' = list_scan_down cmp a (list_scan_up cmp a s)
      in if l_pb s' > l_pc s' then s'
         else list_part_loop cmp a
           (s'\<lparr>l_arr := list_swap (l_pb s') (l_pc s') (l_arr s'), l_swap := True, l_pb := l_pb s' + 1, l_pc := l_pc s' - 1\<rparr>))"
  by pat_completeness auto
termination
proof (relation "measure (\<lambda>(cmp, a, s). l_pc s + 1 - l_pb s)", simp)
  fix cmp :: "'a cmp" and a s s'
  assume "s' = list_scan_down cmp a (list_scan_up cmp a s)" "\<not> l_pc s' < l_pb s'"
  then show "((cmp, a, s'\<lparr>l_arr := list_swap (l_pb s') (l_pc s') (l_arr s'), l_swap := True, l_pb := l_pb s' + 1, l_pc := l_pc s' - 1\<rparr>), cmp, a, s)
    \<in> measure (\<lambda>(cmp, a, s). l_pc s + 1 - l_pb s)"
    using scan_up_gap [of cmp a s] scan_down_gap [of cmp a "list_scan_up cmp a s"] by auto
qed

declare list_part_loop.simps [simp del]

text \<open>
  One round on the \<open>n\<close> elements at \<open>a\<close>: the array, and \<open>None\<close> when the range is
  sorted, or else the smaller part (base and size) and the larger one.
\<close>

definition list_qs_step :: "'a cmp \<Rightarrow> nat \<Rightarrow> nat \<Rightarrow> 'a list \<Rightarrow> 'a list \<times> ((nat \<times> nat) \<times> nat \<times> nat) option" where
  "list_qs_step cmp a n xs =
     (if n < 7 then (list_ins_sort cmp a n (a + 1) xs, None)
      else
        let xs = list_swap a (list_pivot cmp a n xs) xs;
            s = list_part_loop cmp a \<lparr>l_arr = xs, l_pa = a + 1, l_pb = a + 1, l_pc = a + (n - 1), l_pd = a + (n - 1), l_swap = False\<rparr>
        in if \<not> l_swap s then (list_ins_sort cmp a n (a + 1) (l_arr s), None)
           else
             let pn = a + n;
                 r = min (l_pa s - a) (l_pb s - l_pa s);
                 xs = list_vecswap a (l_pb s - r) r (l_arr s);
                 r = min (l_pd s - l_pc s) (pn - l_pd s - 1);
                 xs = list_vecswap (l_pb s) (pn - r) r xs;
                 d = l_pb s - l_pa s;
                 r = l_pd s - l_pc s;
                 pn = pn - r
             in if r > d then (xs, Some ((a, d), pn, r)) else (xs, Some ((pn, r), a, d)))"

text \<open>The two parts leave out the list_pivot, whatever the comparison does.\<close>

definition part_idx :: "nat \<Rightarrow> nat \<Rightarrow> 'a list_part \<Rightarrow> bool" where
  "part_idx a n s \<longleftrightarrow> a < l_pa s \<and> l_pa s \<le> l_pb s \<and> l_pb s \<le> l_pc s + 1 \<and> l_pc s \<le> l_pd s \<and> l_pd s < a + n"

lemma nth_swap_other: "k \<noteq> i \<Longrightarrow> k \<noteq> j \<Longrightarrow> list_swap i j xs ! k = xs ! k"
  by (simp add: list_swap_def)

text \<open>The scan from the right does not move the element at which the one from the left stopped.\<close>

lemma scan_down_left:
  fixes cmp :: "'a cmp"
  assumes "part_idx a n u"
  defines "t \<equiv> list_scan_down cmp a u"
  shows "part_idx a n t \<and> l_pb t = l_pb u \<and>
    (l_pb t \<le> l_pc t \<longrightarrow> l_arr t ! l_pb t = l_arr u ! l_pb u \<and> l_arr t ! a = l_arr u ! a)"
  unfolding t_def
proof (rule scan_down_keeps)
  fix s assume s: "part_idx a n s \<and> l_pb s = l_pb u \<and>
      (l_pb s \<le> l_pc s \<longrightarrow> l_arr s ! l_pb s = l_arr u ! l_pb u \<and> l_arr s ! a = l_arr u ! a)"
    and le: "0 < l_pb s" "l_pb s \<le> l_pc s" "0 \<le> cmp (l_arr s ! l_pc s) (l_arr s ! a)"
  let ?s = "list_move_down (cmp (l_arr s ! l_pc s) (l_arr s ! a)) s"
  have idx: "a < l_pa s" "l_pa s \<le> l_pb s" "l_pc s \<le> l_pd s" "l_pd s < a + n" using s by (auto simp: part_idx_def)
  have "l_arr ?s ! l_pb s = l_arr u ! l_pb u \<and> l_arr ?s ! a = l_arr u ! a" if "l_pb s \<le> l_pc s - 1"
    using s le that idx by (auto simp: list_move_down_def Let_def nth_swap_other)
  moreover have "part_idx a n ?s" using s le idx by (auto simp: part_idx_def list_move_down_def Let_def)
  ultimately show "part_idx a n ?s \<and> l_pb ?s = l_pb u \<and>
      (l_pb ?s \<le> l_pc ?s \<longrightarrow> l_arr ?s ! l_pb ?s = l_arr u ! l_pb u \<and> l_arr ?s ! a = l_arr u ! a)"
    using s by simp
qed (use assms in simp)

lemma scans_stop:
  fixes cmp :: "'a cmp"
  assumes "part_idx a n s"
  defines "t \<equiv> list_scan_down cmp a (list_scan_up cmp a s)"
  shows "part_idx a n t" "l_pb t \<le> l_pc t \<Longrightarrow>
    cmp (l_arr t ! l_pb t) (l_arr t ! a) > 0 \<and> cmp (l_arr t ! l_pc t) (l_arr t ! a) < 0 \<and> l_pb t < l_pc t"
proof -
  define u where "u = list_scan_up cmp a s"
  have u: "part_idx a n u" unfolding u_def
    using assms(1) by (rule scan_up_keeps) (auto simp: part_idx_def list_move_up_def Let_def)
  have t: "t = list_scan_down cmp a u" by (simp add: t_def u_def)
  show "part_idx a n t" using scan_down_left [OF u, of cmp] t by simp
  assume le: "l_pb t \<le> l_pc t"
  have eq: "l_pb t = l_pb u" "l_arr t ! l_pb t = l_arr u ! l_pb u" "l_arr t ! a = l_arr u ! a"
    using scan_down_left [OF u, of cmp] le unfolding t by auto
  have "l_pc t \<le> l_pc u" unfolding t by (rule scan_down_keeps) auto
  then have gt: "cmp (l_arr t ! l_pb t) (l_arr t ! a) > 0"
    using scan_up_stops [of cmp a s] le eq unfolding u_def by auto
  have "0 < l_pb u" using u by (auto simp: part_idx_def)
  then have lt: "cmp (l_arr t ! l_pc t) (l_arr t ! a) < 0" using scan_down_stops [of u cmp a] le unfolding t by blast
  have "l_pb t \<noteq> l_pc t" using gt lt by auto
  then show "cmp (l_arr t ! l_pb t) (l_arr t ! a) > 0 \<and> cmp (l_arr t ! l_pc t) (l_arr t ! a) < 0 \<and> l_pb t < l_pc t"
    using gt lt le by simp
qed

lemma part_idx_loop: "part_idx a n s \<Longrightarrow> part_idx a n (list_part_loop cmp a s)"
proof (induction "l_pc s + 1 - l_pb s" arbitrary: s rule: less_induct)
  case less
  define t where "t = list_scan_down cmp a (list_scan_up cmp a s)"
  note st = scans_stop [OF less.prems, of cmp, folded t_def]
  show ?case
  proof (cases "l_pb t > l_pc t")
    case True
    then show ?thesis using st(1) by (subst list_part_loop.simps) (simp add: Let_def t_def)
  next
    case False
    let ?v = "t\<lparr>l_arr := list_swap (l_pb t) (l_pc t) (l_arr t), l_swap := True, l_pb := l_pb t + 1, l_pc := l_pc t - 1\<rparr>"
    have "part_idx a n ?v" using st False by (auto simp: part_idx_def)
    moreover have "l_pc ?v + 1 - l_pb ?v < l_pc s + 1 - l_pb s"
      using False st scan_up_gap [of cmp a s] scan_down_gap [of cmp a "list_scan_up cmp a s"]
      by (auto simp: part_idx_def t_def)
    ultimately show ?thesis using less.hyps [of ?v] False by (subst list_part_loop.simps) (simp add: Let_def t_def)
  qed
qed

lemma qs_step_size:
  assumes "list_qs_step cmp a n xs = (ys, Some ((pa, r), a', n'))"
  shows "r + n' < n"
proof -
  define s where "s = list_part_loop cmp a \<lparr>l_arr = list_swap a (list_pivot cmp a n xs) xs, l_pa = a + 1, l_pb = a + 1,
    l_pc = a + (n - 1), l_pd = a + (n - 1), l_swap = False\<rparr>"
  have n: "\<not> n < 7" "l_swap s" using assms by (auto simp: list_qs_step_def s_def Let_def split: if_splits)
  have "part_idx a n s" unfolding s_def using n(1) by (intro part_idx_loop) (auto simp: part_idx_def)
  then have "(l_pb s - l_pa s) + (l_pd s - l_pc s) < n" by (auto simp: part_idx_def)
  then show ?thesis using n assms [unfolded list_qs_step_def Let_def, folded s_def] by (auto split: if_splits)
qed

lemma qs_step_size_split:
  "(ys, res) = list_qs_step cmp a n xs \<Longrightarrow> res = Some parts \<Longrightarrow> (sm, la) = parts \<Longrightarrow> (pa, r) = sm \<Longrightarrow> (a', n') = la \<Longrightarrow>
   r + n' < n"
  by (rule qs_step_size [of cmp a n xs ys pa r a' n']) (hypsubst, rule sym, assumption)

section \<open>The loop\<close>

text \<open>
  The parameter stack holds the ranges put off; when its 8 places are taken, the
  smaller part is sorted by a call, with a stack of its own.  An empty stack at
  \<open>pop\<close> ends the function.
\<close>

definition PARAMETER_STACK_LEVELS :: nat where "PARAMETER_STACK_LEVELS = 8"

function list_qsort_loop :: "'a cmp \<Rightarrow> (nat \<times> nat) list \<Rightarrow> nat \<Rightarrow> nat \<Rightarrow> 'a list \<Rightarrow> 'a list" where
  "list_qsort_loop cmp st a n xs =
     (case list_qs_step cmp a n xs of
        (xs, None) \<Rightarrow> (case st of [] \<Rightarrow> xs | (b, k) # st' \<Rightarrow> list_qsort_loop cmp st' b k xs)
      | (xs, Some ((pa, r), a', n')) \<Rightarrow>
          if r > 1 \<and> length st < PARAMETER_STACK_LEVELS then list_qsort_loop cmp ((a', n') # st) pa r xs
          else
            let xs = (if r > 1 then list_qsort_loop cmp [] pa r xs else xs)
            in if n' > 1 then list_qsort_loop cmp st a' n' xs
               else (case st of [] \<Rightarrow> xs | (b, k) # st' \<Rightarrow> list_qsort_loop cmp st' b k xs))"
  by pat_completeness auto
termination
  apply (relation "measure (\<lambda>(cmp, st, a, n, xs). 2 * n + 1 + (\<Sum>(b, k) \<leftarrow> st. 2 * k + 1))")
  subgoal by simp
  subgoal by (auto split: prod.splits)
  subgoal by (drule (4) qs_step_size_split) (hypsubst, simp)
  subgoal by (drule (4) qs_step_size_split) simp
  subgoal by (drule (4) qs_step_size_split) simp
  subgoal by (auto split: prod.splits)
  done

declare list_qsort_loop.simps [simp del]

definition list_qsort :: "'a cmp \<Rightarrow> nat \<Rightarrow> nat \<Rightarrow> 'a list \<Rightarrow> 'a list" where
  "list_qsort cmp a n xs = list_qsort_loop cmp [] a n xs"

section \<open>Binary search\<close>

text \<open>The index of an element that matches; \<open>None\<close> is \<open>NULL\<close>.\<close>

function list_bsearch_loop :: "('k \<Rightarrow> 'a \<Rightarrow> int) \<Rightarrow> 'k \<Rightarrow> 'a list \<Rightarrow> nat \<Rightarrow> nat \<Rightarrow> nat option" where
  "list_bsearch_loop compar key xs lower upper =
     (if lower < upper then
        let index = (lower + upper) div 2; result = compar key (xs ! index)
        in if result < 0 then list_bsearch_loop compar key xs lower index
           else if result > 0 then list_bsearch_loop compar key xs (index + 1) upper
           else Some index
      else None)"
  by pat_completeness auto
termination by (relation "measure (\<lambda>(compar, key, xs, lower, upper). upper - lower)") auto

declare list_bsearch_loop.simps [simp del]

definition list_bsearch :: "('k \<Rightarrow> 'a \<Rightarrow> int) \<Rightarrow> 'k \<Rightarrow> 'a list \<Rightarrow> nat option" where
  "list_bsearch compar key xs = (if length xs = 0 then None else list_bsearch_loop compar key xs 0 (length xs))"

section \<open>Rearrangements of a range\<close>

text \<open>\<open>ys\<close> is \<open>xs\<close> with the elements from \<open>lo\<close> up to \<open>hi\<close> in another order.\<close>

definition rearr :: "nat \<Rightarrow> nat \<Rightarrow> 'a list \<Rightarrow> 'a list \<Rightarrow> bool" where
  "rearr lo hi xs ys \<longleftrightarrow> length ys = length xs \<and> mset ys = mset xs \<and>
     (\<forall>i < length xs. i < lo \<or> hi \<le> i \<longrightarrow> ys ! i = xs ! i)"

lemma rearr_refl [simp]: "rearr lo hi xs xs"
  by (simp add: rearr_def)

lemma rearr_trans: "rearr lo hi xs ys \<Longrightarrow> rearr lo hi ys zs \<Longrightarrow> rearr lo hi xs zs"
  by (simp add: rearr_def)

lemma length_swap [simp]: "length (list_swap i j xs) = length xs"
  by (simp add: list_swap_def)

lemma nth_swap: "i < length xs \<Longrightarrow> j < length xs \<Longrightarrow>
  list_swap i j xs ! k = (if k = j then xs ! i else if k = i then xs ! j else xs ! k)"
  by (simp add: list_swap_def nth_list_update)

lemma rearr_swap: "lo \<le> i \<Longrightarrow> i < hi \<Longrightarrow> lo \<le> j \<Longrightarrow> j < hi \<Longrightarrow> hi \<le> length xs \<Longrightarrow> rearr lo hi xs (list_swap i j xs)"
  using mset_swap [of j xs i] by (auto simp: rearr_def nth_swap) (simp add: list_swap_def)

lemma rearr_length: "rearr lo hi xs ys \<Longrightarrow> length ys = length xs"
  by (simp add: rearr_def)

definition slice :: "nat \<Rightarrow> nat \<Rightarrow> 'a list \<Rightarrow> 'a list" where
  "slice b k xs = take k (drop b xs)"

lemma length_slice [simp]: "b + k \<le> length xs \<Longrightarrow> length (slice b k xs) = k"
  by (simp add: slice_def)

lemma nth_slice: "b + k \<le> length xs \<Longrightarrow> i < k \<Longrightarrow> slice b k xs ! i = xs ! (b + i)"
  by (simp add: slice_def)

lemma slice_eqI: "length ys = length xs \<Longrightarrow> b + k \<le> length xs \<Longrightarrow>
  (\<And>i. b \<le> i \<Longrightarrow> i < b + k \<Longrightarrow> ys ! i = xs ! i) \<Longrightarrow> slice b k ys = slice b k xs"
  by (rule nth_equalityI) (auto simp: nth_slice)

lemma rearr_slice:
  assumes "rearr b (b + k) xs ys" "b + k \<le> length xs"
  shows "mset (slice b k ys) = mset (slice b k xs)"
proof -
  have split: "mset zs = mset (take b zs) + mset (slice b k zs) + mset (drop (b + k) zs)" for zs :: "'a list"
    unfolding slice_def by (metis add.commute append_take_drop_id drop_drop mset_append add.assoc)
  have "take b ys = take b xs" "drop (b + k) ys = drop (b + k) xs"
    using assms by (auto simp: rearr_def intro!: nth_equalityI)
  then show ?thesis using split [of xs] split [of ys] assms(1) by (simp add: rearr_def)
qed

text \<open>An element of a slice comes from the slice.\<close>

lemma mset_slice_from:
  assumes "mset (slice b k ys) = mset (slice b k xs)" "length ys = length xs" "b + k \<le> length xs" "b \<le> i" "i < b + k"
  obtains j where "b \<le> j" "j < b + k" "ys ! i = xs ! j"
proof -
  have "ys ! i \<in> set (slice b k ys)"
    using assms(2-) nth_mem [of "i - b" "slice b k ys"] nth_slice [of b k ys "i - b"] by simp
  then have "ys ! i \<in> set (slice b k xs)" using assms(1) by (metis set_mset_mset)
  then obtain j where "j < k" "slice b k xs ! j = ys ! i" using assms(3) by (metis in_set_conv_nth length_slice)
  then show ?thesis using that [of "b + j"] assms(3) by (simp add: nth_slice)
qed

section \<open>Order\<close>

text \<open>What a comparison function must be: a total preorder.\<close>

definition cmp_ok :: "'a cmp \<Rightarrow> bool" where
  "cmp_ok cmp \<longleftrightarrow> (\<forall>x y. cmp x y < 0 \<longleftrightarrow> cmp y x > 0) \<and> (\<forall>x y z. cmp x y \<le> 0 \<longrightarrow> cmp y z \<le> 0 \<longrightarrow> cmp x z \<le> 0)"

lemma cmp_ok_refl: "cmp_ok cmp \<Longrightarrow> cmp x x = 0"
  unfolding cmp_ok_def by (metis linorder_neqE_linordered_idom order_less_asym)

lemma cmp_ok_flip: "cmp_ok cmp \<Longrightarrow> cmp x y > 0 \<Longrightarrow> cmp y x < 0"
  unfolding cmp_ok_def by blast

lemma cmp_ok_flip': "cmp_ok cmp \<Longrightarrow> cmp x y < 0 \<Longrightarrow> cmp y x > 0"
  unfolding cmp_ok_def by blast

lemma cmp_ok_flip0: "cmp_ok cmp \<Longrightarrow> cmp x y = 0 \<Longrightarrow> cmp y x = 0"
  unfolding cmp_ok_def by (metis linorder_neqE_linordered_idom order_less_irrefl)

lemma cmp_ok_trans: "cmp_ok cmp \<Longrightarrow> cmp x y \<le> 0 \<Longrightarrow> cmp y z \<le> 0 \<Longrightarrow> cmp x z \<le> 0"
  unfolding cmp_ok_def by blast

definition ordered :: "'a cmp \<Rightarrow> nat \<Rightarrow> nat \<Rightarrow> 'a list \<Rightarrow> bool" where
  "ordered cmp b k xs \<longleftrightarrow> (\<forall>i j. b \<le> i \<longrightarrow> i < j \<longrightarrow> j < b + k \<longrightarrow> cmp (xs ! i) (xs ! j) \<le> 0)"

section \<open>Insertion sort is correct\<close>

text \<open>The element at \<open>pl\<close> is on its way down: the others are in order, and those above it are not smaller.\<close>

definition hole :: "'a cmp \<Rightarrow> nat \<Rightarrow> nat \<Rightarrow> nat \<Rightarrow> 'a list \<Rightarrow> bool" where
  "hole cmp a pl pm xs \<longleftrightarrow>
     (\<forall>i j. a \<le> i \<longrightarrow> i < j \<longrightarrow> j \<le> pm \<longrightarrow> i \<noteq> pl \<longrightarrow> j \<noteq> pl \<longrightarrow> cmp (xs ! i) (xs ! j) \<le> 0) \<and>
     (\<forall>j. pl < j \<longrightarrow> j \<le> pm \<longrightarrow> cmp (xs ! pl) (xs ! j) \<le> 0)"

lemma hole_swap:
  assumes "cmp_ok cmp" "hole cmp a pl pm xs" "a < pl" "pl \<le> pm" "pm < length xs" "cmp (xs ! (pl - 1)) (xs ! pl) > 0"
  shows "hole cmp a (pl - 1) pm (list_swap pl (pl - 1) xs)"
proof -
  have fl: "cmp (xs ! pl) (xs ! (pl - 1)) \<le> 0" using cmp_ok_flip [OF assms(1,6)] by simp
  have sw: "list_swap pl (pl - 1) xs ! k = (if k = pl - 1 then xs ! pl else if k = pl then xs ! (pl - 1) else xs ! k)" for k
    using assms(3-5) by (intro nth_swap) auto
  have o: "cmp (xs ! i) (xs ! j) \<le> 0" if "a \<le> i" "i < j" "j \<le> pm" "i \<noteq> pl" "j \<noteq> pl" for i j
    using assms(2) that unfolding hole_def by blast
  have h: "cmp (xs ! pl) (xs ! j) \<le> 0" if "pl < j" "j \<le> pm" for j using assms(2) that unfolding hole_def by blast
  show ?thesis unfolding hole_def
  proof (intro conjI allI impI)
    fix i j assume ij: "a \<le> i" "i < j" "j \<le> pm" "i \<noteq> pl - 1" "j \<noteq> pl - 1"
    show "cmp (list_swap pl (pl - 1) xs ! i) (list_swap pl (pl - 1) xs ! j) \<le> 0"
      unfolding sw using ij assms(3) o [of i j] o [of "pl - 1" j] o [of i "pl - 1"] by (auto split: if_splits)
  next
    fix j assume "pl - 1 < j" "j \<le> pm"
    then show "cmp (list_swap pl (pl - 1) xs ! (pl - 1)) (list_swap pl (pl - 1) xs ! j) \<le> 0"
      unfolding sw using fl h [of j] by auto
  qed
qed

lemma hole_filled:
  assumes "cmp_ok cmp" "hole cmp a pl pm xs" "a \<le> pl" "pl \<le> pm" "pl = a \<or> cmp (xs ! (pl - 1)) (xs ! pl) \<le> 0"
  shows "ordered cmp a (pm + 1 - a) xs"
  unfolding ordered_def
proof (intro allI impI)
  fix i j assume ij: "a \<le> i" "i < j" "j < a + (pm + 1 - a)"
  have o: "cmp (xs ! i) (xs ! j) \<le> 0" if "a \<le> i" "i < j" "j \<le> pm" "i \<noteq> pl" "j \<noteq> pl" for i j
    using assms(2) that unfolding hole_def by blast
  show "cmp (xs ! i) (xs ! j) \<le> 0"
  proof (cases "j = pl")
    case True
    then have "cmp (xs ! (pl - 1)) (xs ! pl) \<le> 0" using assms(5) ij by auto
    moreover have "cmp (xs ! i) (xs ! (pl - 1)) \<le> 0"
      using o [of i "pl - 1"] ij True assms(1,4) cmp_ok_refl [of cmp] by (cases "i = pl - 1") auto
    ultimately show ?thesis using cmp_ok_trans [OF assms(1)] True by blast
  next
    case False
    then show ?thesis using o [of i j] ij assms(2,4) unfolding hole_def by (cases "i = pl") auto
  qed
qed

lemma ins_down_ok:
  assumes "cmp_ok cmp" "a \<le> pl" "pl \<le> pm" "pm < length xs" "hole cmp a pl pm xs"
  shows "rearr a (pm + 1) xs (list_ins_down cmp a pl xs) \<and> ordered cmp a (pm + 1 - a) (list_ins_down cmp a pl xs)"
  using assms(2-)
proof (induction pl arbitrary: xs rule: less_induct)
  case (less pl)
  show ?case
  proof (cases "pl > a \<and> cmp (xs ! (pl - 1)) (xs ! pl) > 0")
    case True
    let ?ys = "list_swap pl (pl - 1) xs"
    have step: "list_ins_down cmp a pl xs = list_ins_down cmp a (pl - 1) ?ys" using True by (subst list_ins_down.simps) simp
    have "hole cmp a (pl - 1) pm ?ys" using hole_swap [OF assms(1) less.prems(4)] True less.prems by simp
    then have ih: "rearr a (pm + 1) ?ys (list_ins_down cmp a (pl - 1) ?ys) \<and> ordered cmp a (pm + 1 - a) (list_ins_down cmp a (pl - 1) ?ys)"
      using less.IH [of "pl - 1" ?ys] True less.prems by (auto simp: Suc_le_eq)
    have "rearr a (pm + 1) xs ?ys" using True less.prems by (intro rearr_swap) auto
    then show ?thesis using ih step rearr_trans by metis
  next
    case False
    have "list_ins_down cmp a pl xs = xs" using False by (subst list_ins_down.simps) auto
    then show ?thesis using hole_filled [OF assms(1) less.prems(4,1,2)] False less.prems by (simp, linarith)
  qed
qed

lemma ins_sort_ok:
  assumes "cmp_ok cmp" "a + n \<le> length xs" "a \<le> pm" "ordered cmp a (pm - a) xs"
  shows "rearr a (a + n) xs (list_ins_sort cmp a n pm xs) \<and> ordered cmp a n (list_ins_sort cmp a n pm xs)"
  using assms(2-)
proof (induction "a + n - pm" arbitrary: pm xs)
  case 0
  then have "list_ins_sort cmp a n pm xs = xs" by (subst list_ins_sort.simps) simp
  then show ?case using 0 by (simp add: ordered_def)
next
  case (Suc k)
  let ?ys = "list_ins_down cmp a pm xs"
  have step: "list_ins_sort cmp a n pm xs = list_ins_sort cmp a n (pm + 1) ?ys" using Suc.hyps(2) by (subst list_ins_sort.simps) auto
  have "hole cmp a pm pm xs" using Suc.prems(3) by (auto simp: hole_def ordered_def)
  then have d: "rearr a (pm + 1) xs ?ys" "ordered cmp a (pm + 1 - a) ?ys"
    using ins_down_ok [OF assms(1), of a pm pm xs] Suc by auto
  have "rearr a (a + n) xs ?ys" using d(1) Suc.hyps(2) by (auto simp: rearr_def)
  moreover have "rearr a (a + n) ?ys (list_ins_sort cmp a n (pm + 1) ?ys) \<and> ordered cmp a n (list_ins_sort cmp a n (pm + 1) ?ys)"
    using Suc.hyps(1) [of "pm + 1" ?ys] Suc.hyps(2) Suc.prems d rearr_length [OF d(1)] by simp
  ultimately show ?case using step rearr_trans by metis
qed

section \<open>The partition is correct\<close>

definition part_inv :: "'a cmp \<Rightarrow> nat \<Rightarrow> nat \<Rightarrow> 'a list \<Rightarrow> 'a \<Rightarrow> 'a list_part \<Rightarrow> bool" where
  "part_inv cmp a n xs0 p s \<longleftrightarrow>
     a < l_pa s \<and> l_pa s \<le> l_pb s \<and> l_pb s \<le> l_pc s + 1 \<and> l_pc s \<le> l_pd s \<and> l_pd s < a + n \<and>
     a + n \<le> length xs0 \<and> rearr a (a + n) xs0 (l_arr s) \<and> l_arr s ! a = p \<and>
     (\<forall>i. a \<le> i \<longrightarrow> i < l_pa s \<longrightarrow> cmp (l_arr s ! i) p = 0) \<and>
     (\<forall>i. l_pa s \<le> i \<longrightarrow> i < l_pb s \<longrightarrow> cmp (l_arr s ! i) p < 0) \<and>
     (\<forall>i. l_pc s < i \<longrightarrow> i \<le> l_pd s \<longrightarrow> cmp (l_arr s ! i) p > 0) \<and>
     (\<forall>i. l_pd s < i \<longrightarrow> i < a + n \<longrightarrow> cmp (l_arr s ! i) p = 0)"

lemma part_inv_swap:
  assumes "part_inv cmp a n xs0 p s" "a < i" "i < a + n" "a < j" "j < a + n"
  shows "rearr a (a + n) xs0 (list_swap i j (l_arr s))" "list_swap i j (l_arr s) ! a = p"
    "list_swap i j (l_arr s) ! k = (if k = j then l_arr s ! i else if k = i then l_arr s ! j else l_arr s ! k)"
proof -
  have len: "length (l_arr s) = length xs0" "a + n \<le> length xs0" using assms(1) by (auto simp: part_inv_def rearr_length)
  show "rearr a (a + n) xs0 (list_swap i j (l_arr s))"
    using assms len by (intro rearr_trans [OF _ rearr_swap]) (auto simp: part_inv_def)
  show nth: "list_swap i j (l_arr s) ! k = (if k = j then l_arr s ! i else if k = i then l_arr s ! j else l_arr s ! k)" for k
    using assms len by (intro nth_swap) auto
  show "list_swap i j (l_arr s) ! a = p" unfolding nth using assms by (auto simp: part_inv_def)
qed

lemma part_inv_up:
  assumes inv: "part_inv cmp a n xs0 p s" and le: "l_pb s \<le> l_pc s" "cmp (l_arr s ! l_pb s) (l_arr s ! a) \<le> 0"
  shows "part_inv cmp a n xs0 p (list_move_up (cmp (l_arr s ! l_pb s) (l_arr s ! a)) s)"
proof -
  have p: "l_arr s ! a = p" using inv by (simp add: part_inv_def)
  show ?thesis
  proof (cases "cmp (l_arr s ! l_pb s) p = 0")
    case False
    then show ?thesis using inv le by (auto simp: part_inv_def list_move_up_def p less_Suc_eq)
  next
    case True
    have b: "a < l_pa s" "l_pa s < a + n" "a < l_pb s" "l_pb s < a + n" using inv le by (auto simp: part_inv_def)
    note sw = part_inv_swap [OF inv b]
    show ?thesis using inv le True sw(1,2) unfolding part_inv_def list_move_up_def p Let_def
      by (auto simp: sw(3) less_Suc_eq)
  qed
qed

lemma part_inv_down:
  assumes inv: "part_inv cmp a n xs0 p s" and le: "l_pb s \<le> l_pc s" "cmp (l_arr s ! l_pc s) (l_arr s ! a) \<ge> 0"
  shows "part_inv cmp a n xs0 p (list_move_down (cmp (l_arr s ! l_pc s) (l_arr s ! a)) s)"
proof -
  have p: "l_arr s ! a = p" using inv by (simp add: part_inv_def)
  have pc: "i = l_pc s \<or> l_pc s < i" if "l_pc s - 1 < i" for i using that by arith
  have pd: "i = l_pd s \<or> l_pd s < i" if "l_pd s - 1 < i" for i using that by arith
  show ?thesis
  proof (cases "cmp (l_arr s ! l_pc s) p = 0")
    case False
    then show ?thesis using inv le by (auto simp: part_inv_def list_move_down_def p dest!: pc [simplified])
  next
    case True
    have b: "a < l_pc s" "l_pc s < a + n" "a < l_pd s" "l_pd s < a + n" using inv le by (auto simp: part_inv_def)
    note sw = part_inv_swap [OF inv b]
    show ?thesis using inv le True b sw(1,2) unfolding part_inv_def list_move_down_def p Let_def
      by (auto simp: sw(3) dest!: pc [simplified] pd [simplified])
  qed
qed

lemma part_inv_idx: "part_inv cmp a n xs0 p s \<Longrightarrow> part_idx a n s"
  by (simp add: part_inv_def part_idx_def)

lemma part_loop_ok:
  assumes "part_inv cmp a n xs0 p s"
  shows "part_inv cmp a n xs0 p (list_part_loop cmp a s) \<and> l_pb (list_part_loop cmp a s) = l_pc (list_part_loop cmp a s) + 1"
  using assms
proof (induction "l_pc s + 1 - l_pb s" arbitrary: s rule: less_induct)
  case less
  define u where "u = list_scan_up cmp a s"
  define t where "t = list_scan_down cmp a u"
  have iu: "part_inv cmp a n xs0 p u" unfolding u_def using less.prems by (rule scan_up_keeps) (rule part_inv_up)
  have it: "part_inv cmp a n xs0 p t" unfolding t_def using iu by (rule scan_down_keeps) (rule part_inv_down)
  have pt: "l_arr t ! a = p" "l_arr u ! a = p" using it iu by (simp_all add: part_inv_def)
  show ?case
  proof (cases "l_pb t > l_pc t")
    case True
    then have "list_part_loop cmp a s = t" by (subst list_part_loop.simps) (simp add: u_def t_def Let_def)
    then show ?thesis using it True by (simp add: part_inv_def)
  next
    case False
    define v where "v = t\<lparr>l_arr := list_swap (l_pb t) (l_pc t) (l_arr t), l_swap := True, l_pb := l_pb t + 1, l_pc := l_pc t - 1\<rparr>"
    have step: "list_part_loop cmp a s = list_part_loop cmp a v"
      using False by (subst list_part_loop.simps) (simp add: u_def t_def v_def Let_def)
    have gap: "l_pc v + 1 - l_pb v < l_pc s + 1 - l_pb s"
      using False scan_up_gap [of cmp a s] scan_down_gap [of cmp a u] it unfolding u_def t_def v_def
      by (auto simp: part_inv_def)
    have gt: "cmp (l_arr t ! l_pb t) p > 0" and lt: "cmp (l_arr t ! l_pc t) p < 0" and ne: "l_pb t < l_pc t"
      using scans_stop(2) [OF part_inv_idx [OF less.prems], of cmp] False pt unfolding t_def u_def by auto
    have b: "a < l_pb t" "l_pb t < a + n" "a < l_pc t" "l_pc t < a + n" using it False by (auto simp: part_inv_def)
    note sw = part_inv_swap [OF it b]
    have pc: "i = l_pc t \<or> l_pc t < i" if "l_pc t - Suc 0 < i" for i using that by arith
    have "part_inv cmp a n xs0 p v"
      using it ne gt lt sw(1,2) unfolding part_inv_def v_def by (auto simp: sw(3) less_Suc_eq dest!: pc)
    then show ?thesis using less.hyps [OF gap] step by simp
  qed
qed

section \<open>Bringing the equal elements to the middle\<close>

lemma swapcode_nth:
  assumes "0 < k" "pi + k \<le> pj" "pj + k \<le> length xs"
  shows "length (list_swaps k pi pj xs) = length xs \<and> mset (list_swaps k pi pj xs) = mset xs \<and>
    (\<forall>i. list_swaps k pi pj xs ! i =
      (if pi \<le> i \<and> i < pi + k then xs ! (i - pi + pj) else if pj \<le> i \<and> i < pj + k then xs ! (i - pj + pi) else xs ! i))"
  using assms
proof (induction k arbitrary: pi pj xs)
  case (Suc k)
  let ?ys = "list_swap pi pj xs"
  have sw: "?ys ! i = (if i = pj then xs ! pi else if i = pi then xs ! pj else xs ! i)" for i
    using Suc.prems by (intro nth_swap) auto
  have ms: "mset ?ys = mset xs" using Suc.prems mset_swap [of pj xs pi] by (simp add: list_swap_def)
  show ?case
  proof (cases "k = 0")
    case True
    then have "list_swaps (Suc k) pi pj xs = ?ys" by (subst list_swaps.simps) simp
    moreover have "i = p" if "p \<le> i" "i < p + Suc k" for i p using that True by simp
    ultimately show ?thesis using Suc.prems ms by (auto simp: sw)
  next
    case False
    then have step: "list_swaps (Suc k) pi pj xs = list_swaps k (pi + 1) (pj + 1) ?ys" by (subst list_swaps.simps) simp
    have ih: "length (list_swaps k (pi + 1) (pj + 1) ?ys) = length xs \<and> mset (list_swaps k (pi + 1) (pj + 1) ?ys) = mset xs \<and>
      (\<forall>i. list_swaps k (pi + 1) (pj + 1) ?ys ! i = (if pi + 1 \<le> i \<and> i < pi + 1 + k then ?ys ! (i - (pi + 1) + (pj + 1))
        else if pj + 1 \<le> i \<and> i < pj + 1 + k then ?ys ! (i - (pj + 1) + (pi + 1)) else ?ys ! i))"
      using Suc.IH [of "pi + 1" "pj + 1" ?ys] False Suc.prems ms by simp
    have f: "p < i \<Longrightarrow> Suc (i + q - Suc p) = i + q - p" for p q i :: nat by (simp add: Suc_diff_Suc)
    have "list_swaps k (pi + 1) (pj + 1) ?ys ! i = (if pi \<le> i \<and> i < pi + Suc k then xs ! (i - pi + pj)
      else if pj \<le> i \<and> i < pj + Suc k then xs ! (i - pj + pi) else xs ! i)" for i
    proof -
      consider "i < pi" | "i = pi" | "pi < i" "i < pi + Suc k" | "pi + Suc k \<le> i" "i < pj" | "i = pj"
        | "pj < i" "i < pj + Suc k" | "pj + Suc k \<le> i" by linarith
      then show ?thesis using ih [THEN conjunct2, THEN conjunct2, rule_format, of i] Suc.prems
        by cases (auto simp: sw f)
    qed
    then show ?thesis unfolding step using ih by simp
  qed
qed simp

lemma vecswap_nth:
  assumes "pi + k \<le> pj" "pj + k \<le> length xs"
  shows "length (list_vecswap pi pj k xs) = length xs" "mset (list_vecswap pi pj k xs) = mset xs"
    "list_vecswap pi pj k xs ! i =
      (if pi \<le> i \<and> i < pi + k then xs ! (i - pi + pj) else if pj \<le> i \<and> i < pj + k then xs ! (i - pj + pi) else xs ! i)"
  using swapcode_nth [of k pi pj xs] assms by (auto simp: list_vecswap_def)

text \<open>The exchange at the left end: \<open>equal, less\<close> becomes \<open>less, equal\<close>.  \<open>k\<close> is the smaller size.\<close>

lemma vecswap_left:
  assumes "a \<le> pa" "pa \<le> pb" "pb \<le> length xs" "k = min (pa - a) (pb - pa)"
    "\<And>i. a \<le> i \<Longrightarrow> i < pa \<Longrightarrow> E (xs ! i)" "\<And>i. pa \<le> i \<Longrightarrow> i < pb \<Longrightarrow> L (xs ! i)"
  defines "ys \<equiv> list_vecswap a (pb - k) k xs"
  shows "a \<le> i \<Longrightarrow> i < a + (pb - pa) \<Longrightarrow> L (ys ! i)" "a + (pb - pa) \<le> i \<Longrightarrow> i < pb \<Longrightarrow> E (ys ! i)"
    "i < a \<or> pb \<le> i \<Longrightarrow> ys ! i = xs ! i" "length ys = length xs" "mset ys = mset xs"
proof -
  have k: "a + k \<le> pb - k" "pb - k + k \<le> length xs" using assms(1-4) by (simp_all add: min_def split: if_splits)
  note v = vecswap_nth [OF k, folded ys_def]
  show "length ys = length xs" "mset ys = mset xs" by (rule v)+
  have c: "k = pa - a \<and> pa - a \<le> pb - pa \<or> k = pb - pa \<and> pb - pa \<le> pa - a" using assms(4) by (simp add: min_def)
  show "L (ys ! i)" if i: "a \<le> i" "i < a + (pb - pa)"
  proof (cases "i < a + k")
    case True
    have "pa \<le> i - a + (pb - k)" "i - a + (pb - k) < pb" using c True i assms(1,2) by linarith+
    then show ?thesis using assms(6) True i by (simp add: v(3))
  next
    case False
    then have "pa \<le> i" "\<not> pb - k \<le> i" "i < pb" using c i assms(1,2) by linarith+
    then show ?thesis using assms(6) False by (simp add: v(3))
  qed
  show "E (ys ! i)" if i: "a + (pb - pa) \<le> i" "i < pb"
  proof (cases "pb - k \<le> i")
    case True
    have "a \<le> i - (pb - k) + a" "i - (pb - k) + a < pa" "\<not> i < a + k" using c True i k assms(1,2) by linarith+
    then show ?thesis using assms(5) True i k by (simp add: v(3))
  next
    case False
    then have "i < pa" "\<not> i < a + k" using c i assms(1,2) by linarith+
    then show ?thesis using assms(5) False i by (simp add: v(3))
  qed
  show "i < a \<or> pb \<le> i \<Longrightarrow> ys ! i = xs ! i" unfolding v(3) using k by auto
qed

lemma med3_in: "list_med3 cmp xs a b c \<in> {a, b, c}"
  by (auto simp: list_med3_def)

lemma pivot_in: "7 \<le> n \<Longrightarrow> a \<le> list_pivot cmp a n xs \<and> list_pivot cmp a n xs < a + n"
proof -
  assume n: "7 \<le> n"
  define d where "d = n div 8"
  have d: "2 * d < n" "d \<le> n div 2" "n div 2 + d < n" "2 * d \<le> n - 1" using n by (auto simp: d_def)
  have half: "n div 2 < n" using n by simp
  let ?R = "\<lambda>x. a \<le> x \<and> x < a + n"
  have r: "?R x \<Longrightarrow> ?R y \<Longrightarrow> ?R z \<Longrightarrow> ?R (list_med3 cmp xs x y z)" for x y z
    using med3_in [of cmp xs x y z] by auto
  have in3: "?R (list_med3 cmp xs a (a + d) (a + 2 * d))"
    "?R (list_med3 cmp xs (a + n div 2 - d) (a + n div 2) (a + n div 2 + d))"
    "?R (list_med3 cmp xs (a + (n - 1) - 2 * d) (a + (n - 1) - d) (a + (n - 1)))"
    by ((rule r; use d n half in auto))+
  have ends: "?R a" "?R (a + n div 2)" "?R (a + (n - 1))" using n by auto
  consider "n > 40" | "7 < n" "\<not> n > 40" | "n = 7" using n by linarith
  then show ?thesis
  proof cases
    case 1
    then have "list_pivot cmp a n xs = list_med3 cmp xs (list_med3 cmp xs a (a + d) (a + 2 * d))
      (list_med3 cmp xs (a + n div 2 - d) (a + n div 2) (a + n div 2 + d)) (list_med3 cmp xs (a + (n - 1) - 2 * d) (a + (n - 1) - d) (a + (n - 1)))"
      by (simp add: list_pivot_def Let_def d_def)
    then show ?thesis using r [OF in3] by (simp only:)
  next
    case 2
    then have "list_pivot cmp a n xs = list_med3 cmp xs a (a + n div 2) (a + (n - 1))" by (simp add: list_pivot_def Let_def)
    then show ?thesis using r [OF ends] by (simp only:)
  next
    case 3
    then show ?thesis by (simp add: list_pivot_def Let_def)
  qed
qed

section \<open>The rounds are correct\<close>

text \<open>A range in three parts: \<open>d\<close> elements below \<open>p\<close>, those equal to it, and \<open>r\<close> elements above.\<close>

definition three_parts :: "'a cmp \<Rightarrow> nat \<Rightarrow> nat \<Rightarrow> nat \<Rightarrow> nat \<Rightarrow> 'a \<Rightarrow> 'a list \<Rightarrow> bool" where
  "three_parts cmp a n d r p ys \<longleftrightarrow> d + r < n \<and>
     (\<forall>i. a \<le> i \<longrightarrow> i < a + d \<longrightarrow> cmp (ys ! i) p < 0) \<and>
     (\<forall>i. a + d \<le> i \<longrightarrow> i < a + n - r \<longrightarrow> cmp (ys ! i) p = 0) \<and>
     (\<forall>i. a + n - r \<le> i \<longrightarrow> i < a + n \<longrightarrow> cmp (ys ! i) p > 0)"

lemma fat_partition:
  assumes inv: "part_inv cmp a n xs p s" and pb: "l_pb s = l_pc s + 1"
  defines "k1 \<equiv> min (l_pa s - a) (l_pb s - l_pa s)" and "k2 \<equiv> min (l_pd s - l_pc s) (a + n - l_pd s - 1)"
  defines "ys \<equiv> list_vecswap (l_pb s) (a + n - k2) k2 (list_vecswap a (l_pb s - k1) k1 (l_arr s))"
  shows "rearr a (a + n) xs ys \<and> three_parts cmp a n (l_pb s - l_pa s) (l_pd s - l_pc s) p ys"
proof -
  define zs where "zs = list_vecswap a (l_pb s - k1) k1 (l_arr s)"
  have idx: "a < l_pa s" "l_pa s \<le> l_pb s" "l_pc s \<le> l_pd s" "l_pd s < a + n" "a + n \<le> length xs"
    and re: "rearr a (a + n) xs (l_arr s)"
    and o: "\<And>i. a \<le> i \<Longrightarrow> i < l_pa s \<Longrightarrow> cmp (l_arr s ! i) p = 0" "\<And>i. l_pa s \<le> i \<Longrightarrow> i < l_pb s \<Longrightarrow> cmp (l_arr s ! i) p < 0"
      "\<And>i. l_pc s < i \<Longrightarrow> i \<le> l_pd s \<Longrightarrow> cmp (l_arr s ! i) p > 0" "\<And>i. l_pd s < i \<Longrightarrow> i < a + n \<Longrightarrow> cmp (l_arr s ! i) p = 0"
    using inv by (auto simp: part_inv_def)
  have len: "length (l_arr s) = length xs" using re by (rule rearr_length)
  note l = vecswap_left [of a "l_pa s" "l_pb s" "l_arr s" k1 "\<lambda>x. cmp x p = 0" "\<lambda>x. cmp x p < 0", folded zs_def]
  have l1: "cmp (zs ! i) p < 0" if "a \<le> i" "i < a + (l_pb s - l_pa s)" for i
    using l(1) that idx pb len o k1_def by simp
  have l2: "cmp (zs ! i) p = 0" if "a + (l_pb s - l_pa s) \<le> i" "i < l_pb s" for i
    using l(2) that idx pb len o k1_def by simp
  have l3: "zs ! i = l_arr s ! i" if "i < a \<or> l_pb s \<le> i" for i using l(3) that idx pb len o k1_def by simp
  have l4: "length zs = length xs" "mset zs = mset (l_arr s)" using l(4,5) idx pb len o k1_def by simp_all
  have k2: "k2 = min (l_pd s + 1 - l_pb s) (a + n - (l_pd s + 1))" by (simp add: k2_def pb)
  have r0: "cmp (zs ! i) p > 0" if "l_pb s \<le> i" "i < l_pd s + 1" for i using l3 [of i] o(3) that pb by simp
  have r00: "cmp (zs ! i) p = 0" if "l_pd s + 1 \<le> i" "i < a + n" for i using l3 [of i] o(4) that pb idx by simp
  note r = vecswap_left [of "l_pb s" "l_pd s + 1" "a + n" zs k2 "\<lambda>x. cmp x p > 0" "\<lambda>x. cmp x p = 0", unfolded zs_def, folded ys_def, folded zs_def]
  have r1: "cmp (ys ! i) p = 0" if "l_pb s \<le> i" "i < l_pb s + (a + n - (l_pd s + 1))" for i
    using r(1) that idx pb l4 r0 r00 k2 by simp
  have r2: "cmp (ys ! i) p > 0" if "l_pb s + (a + n - (l_pd s + 1)) \<le> i" "i < a + n" for i
    using r(2) that idx pb l4 r0 r00 k2 by simp
  have r3: "ys ! i = zs ! i" if "i < l_pb s \<or> a + n \<le> i" for i using r(3) that idx pb l4 r0 r00 k2 by simp
  have r4: "length ys = length xs" "mset ys = mset (l_arr s)" using r(4,5) idx pb l4 r0 r00 k2 by simp_all
  have "rearr a (a + n) (l_arr s) ys" using r3 r4 l3 idx pb len by (auto simp: rearr_def)
  moreover have "cmp (ys ! i) p < 0" if "a \<le> i" "i < a + (l_pb s - l_pa s)" for i
  proof -
    have "i < l_pb s" using that idx by linarith
    then show ?thesis using l1 [OF that] r3 [of i] by simp
  qed
  moreover have "cmp (ys ! i) p = 0" if "a + (l_pb s - l_pa s) \<le> i" "i < a + n - (l_pd s - l_pc s)" for i
    using l2 [OF that(1)] r3 [of i] r1 [of i] that idx pb by (cases "i < l_pb s") auto
  moreover have "cmp (ys ! i) p > 0" if "a + n - (l_pd s - l_pc s) \<le> i" "i < a + n" for i
    using r2 [of i] that idx pb by simp
  moreover have "l_pb s - l_pa s + (l_pd s - l_pc s) < n" using idx pb by linarith
  ultimately show ?thesis using rearr_trans [OF re] unfolding three_parts_def by blast
qed

lemma qs_step_ok:
  assumes ok: "cmp_ok cmp" and len: "a + n \<le> length xs" and eq: "list_qs_step cmp a n xs = (ys, res)"
  shows "rearr a (a + n) xs ys" "res = None \<Longrightarrow> ordered cmp a n ys"
    "res = Some (sm, la) \<Longrightarrow> \<exists>d r p. three_parts cmp a n d r p ys \<and> {sm, la} = {(a, d), (a + n - r, r)}"
proof -
  define x1 where "x1 = list_swap a (list_pivot cmp a n xs) xs"
  define s where "s = list_part_loop cmp a \<lparr>l_arr = x1, l_pa = a + 1, l_pb = a + 1, l_pc = a + (n - 1), l_pd = a + (n - 1), l_swap = False\<rparr>"
  note eq' = eq [unfolded list_qs_step_def Let_def, folded x1_def, folded s_def]
  have "rearr a (a + n) xs ys \<and> (res = None \<longrightarrow> ordered cmp a n ys) \<and>
    (res = Some (sm, la) \<longrightarrow> (\<exists>d r p. three_parts cmp a n d r p ys \<and> {sm, la} = {(a, d), (a + n - r, r)}))"
  proof (cases "n < 7")
    case True
    then show ?thesis using eq' ins_sort_ok [OF ok len, of "a + 1"] by (auto simp: ordered_def)
  next
    case False
    have re1: "rearr a (a + n) xs x1" unfolding x1_def using pivot_in [of n a cmp xs] False len by (intro rearr_swap) auto
    have "part_inv cmp a n xs (x1 ! a) \<lparr>l_arr = x1, l_pa = a + 1, l_pb = a + 1, l_pc = a + (n - 1), l_pd = a + (n - 1), l_swap = False\<rparr>"
      using False re1 len cmp_ok_refl [OF ok] by (auto simp: part_inv_def less_Suc_eq)
    from part_loop_ok [OF this, folded s_def]
    have inv: "part_inv cmp a n xs (x1 ! a) s" "l_pb s = l_pc s + 1" by blast+
    show ?thesis
    proof (cases "l_swap s")
      case True
      let ?d = "l_pb s - l_pa s" and ?r = "l_pd s - l_pc s"
      have "res = Some ((a, ?d), a + n - ?r, ?r) \<or> res = Some ((a + n - ?r, ?r), a, ?d)"
        using eq' False True by (auto split: if_splits)
      then have "res = Some (sm, la) \<Longrightarrow> {sm, la} = {(a, ?d), (a + n - ?r, ?r)}" "res \<noteq> None"
        by (elim disjE; simp add: insert_commute)+
      moreover have "rearr a (a + n) xs ys" "three_parts cmp a n ?d ?r (x1 ! a) ys"
        using fat_partition [OF inv] eq' False True by (auto split: if_splits)
      ultimately show ?thesis by blast
    next
      case sw: False
      have re: "rearr a (a + n) xs (l_arr s)" using inv by (simp add: part_inv_def)
      have ys: "ys = list_ins_sort cmp a n (a + 1) (l_arr s)" "res = None" using eq' False sw by simp_all
      have "rearr a (a + n) (l_arr s) ys \<and> ordered cmp a n ys"
        unfolding ys(1) using len rearr_length [OF re] by (intro ins_sort_ok [OF ok]) (auto simp: ordered_def)
      then show ?thesis using rearr_trans [OF re] ys(2) by simp
    qed
  qed
  then show "rearr a (a + n) xs ys" "res = None \<Longrightarrow> ordered cmp a n ys"
    "res = Some (sm, la) \<Longrightarrow> \<exists>d r p. three_parts cmp a n d r p ys \<and> {sm, la} = {(a, d), (a + n - r, r)}" by blast+
qed

section \<open>The loop sorts\<close>

text \<open>
  \<open>sorts cmp R xs ys\<close>: in \<open>ys\<close> every range of \<open>R\<close> (base and size) is sorted and holds
  the elements it held in \<open>xs\<close>; nothing outside the ranges has changed.
\<close>

definition sorts :: "'a cmp \<Rightarrow> (nat \<times> nat) set \<Rightarrow> 'a list \<Rightarrow> 'a list \<Rightarrow> bool" where
  "sorts cmp R xs ys \<longleftrightarrow> length ys = length xs \<and>
     (\<forall>(b, k) \<in> R. mset (slice b k ys) = mset (slice b k xs) \<and> ordered cmp b k ys) \<and>
     (\<forall>i < length xs. (\<forall>(b, k) \<in> R. \<not> (b \<le> i \<and> i < b + k)) \<longrightarrow> ys ! i = xs ! i)"

definition apart :: "nat \<times> nat \<Rightarrow> nat \<times> nat \<Rightarrow> bool" where
  "apart x y \<longleftrightarrow> fst x + snd x \<le> fst y \<or> fst y + snd y \<le> fst x"

lemma apart_sym: "apart x y \<longleftrightarrow> apart y x"
  by (auto simp: apart_def)

lemma sorts_unchanged:
  assumes "sorts cmp R xs ys" "i < length xs" "\<And>b k. (b, k) \<in> R \<Longrightarrow> i < b \<or> b + k \<le> i"
  shows "ys ! i = xs ! i"
proof -
  have "\<forall>(b, k) \<in> R. \<not> (b \<le> i \<and> i < b + k)" using assms(3) by (auto simp: not_le not_less)
  then show ?thesis using assms(1,2) by (simp add: sorts_def)
qed

lemma sorts_slice_other:
  assumes "sorts cmp R xs ys" "\<forall>x \<in> R. apart x (b, k)" "b + k \<le> length xs"
  shows "slice b k ys = slice b k xs" "ordered cmp b k ys = ordered cmp b k xs"
proof -
  have eq: "ys ! i = xs ! i" if "b \<le> i" "i < b + k" for i
    using assms(2,3) that by (intro sorts_unchanged [OF assms(1)]) (force simp: apart_def)+
  show "slice b k ys = slice b k xs" using assms eq by (intro slice_eqI) (auto simp: sorts_def)
  show "ordered cmp b k ys = ordered cmp b k xs" using eq by (simp add: ordered_def)
qed

lemma sorts_seq:
  assumes "sorts cmp R1 xs ys" "sorts cmp R2 ys zs" "\<forall>x \<in> R1. \<forall>y \<in> R2. apart x y"
    "\<forall>(b, k) \<in> R1 \<union> R2. b + k \<le> length xs"
  shows "sorts cmp (R1 \<union> R2) xs zs"
proof -
  have len: "length ys = length xs" "length zs = length xs" using assms(1,2) by (auto simp: sorts_def)
  have "mset (slice b k zs) = mset (slice b k xs) \<and> ordered cmp b k zs" if "(b, k) \<in> R1 \<union> R2" for b k
  proof (cases "(b, k) \<in> R1")
    case True
    have bk: "b + k \<le> length ys" using assms(4) that len by auto
    have "\<forall>y \<in> R2. apart y (b, k)" using assms(3) True apart_sym by blast
    note so = sorts_slice_other [OF assms(2) this bk]
    show ?thesis using assms(1) True so by (auto simp: sorts_def)
  next
    case False
    then have in2: "(b, k) \<in> R2" using that by simp
    then have "slice b k ys = slice b k xs"
      using sorts_slice_other(1) [OF assms(1)] assms(3,4) that by fastforce
    then show ?thesis using assms(2) in2 by (auto simp: sorts_def)
  qed
  moreover have "zs ! i = xs ! i" if "i < length xs" "\<forall>(b, k) \<in> R1 \<union> R2. \<not> (b \<le> i \<and> i < b + k)" for i
    using assms(1,2) that len by (auto simp: sorts_def)
  ultimately show ?thesis using len by (auto simp: sorts_def)
qed

lemma sorts_short: "k \<le> 1 \<Longrightarrow> sorts cmp {(b, k)} xs xs"
  by (auto simp: sorts_def ordered_def)

lemma sorts_empty [simp]: "sorts cmp {} xs xs"
  by (simp add: sorts_def)

lemma sorts_rearr: "rearr b (b + k) xs ys \<Longrightarrow> b + k \<le> length xs \<Longrightarrow> ordered cmp b k ys \<Longrightarrow> sorts cmp {(b, k)} xs ys"
  unfolding sorts_def using rearr_slice [of b k xs ys] by (simp add: rearr_def not_le)

text \<open>Sorting the two outer parts sorts the range.\<close>

lemma ordered_three_parts:
  assumes ok: "cmp_ok cmp" and tp: "three_parts cmp a n d r p xs" and len: "a + n \<le> length xs" "length ys = length xs"
    and l: "mset (slice a d ys) = mset (slice a d xs)" "ordered cmp a d ys"
    and r: "mset (slice (a + n - r) r ys) = mset (slice (a + n - r) r xs)" "ordered cmp (a + n - r) r ys"
    and mid: "\<And>i. a + d \<le> i \<Longrightarrow> i < a + n - r \<Longrightarrow> ys ! i = xs ! i"
  shows "ordered cmp a n ys"
proof -
  have dr: "d + r < n" using tp by (simp add: three_parts_def)
  have lt: "cmp (ys ! i) p < 0" if i: "a \<le> i" "i < a + d" for i
  proof -
    obtain j where "a \<le> j" "j < a + d" "ys ! i = xs ! j" using mset_slice_from [OF l(1) len(2) _ i] dr len(1) by auto
    then show ?thesis using tp by (simp add: three_parts_def)
  qed
  have eq: "cmp (ys ! i) p = 0" if "a + d \<le> i" "i < a + n - r" for i using mid that tp by (simp add: three_parts_def)
  have gt: "cmp (ys ! i) p > 0" if i: "a + n - r \<le> i" "i < a + n" for i
  proof -
    have "i < a + n - r + r" "a + n - r + r \<le> length xs" using i dr len(1) by simp_all
    then obtain j where "a + n - r \<le> j" "j < a + n - r + r" "ys ! i = xs ! j"
      using mset_slice_from [OF r(1) len(2) _ i(1)] by blast
    then show ?thesis using tp dr by (simp add: three_parts_def)
  qed
  have low: "cmp (ys ! i) p \<le> 0" if "a \<le> i" "i < a + n - r" for i using lt eq that by (metis le_less not_less)
  have high: "cmp p (ys ! i) \<le> 0" if "a + d \<le> i" "i < a + n" for i
  proof (cases "i < a + n - r")
    case True
    then show ?thesis using eq [of i] cmp_ok_flip0 [OF ok] that by simp
  next
    case False
    then show ?thesis using gt [of i] cmp_ok_flip [OF ok] that by (simp add: less_imp_le)
  qed
  show ?thesis unfolding ordered_def
  proof (intro allI impI)
    fix i j assume ij: "a \<le> i" "i < j" "j < a + n"
    consider "j < a + d" | "a + n - r \<le> i" | "a + d \<le> j" "i < a + n - r" by linarith
    then show "cmp (ys ! i) (ys ! j) \<le> 0"
    proof cases
      case 1 then show ?thesis using l(2) ij by (auto simp: ordered_def)
    next
      case 2 then show ?thesis using r(2) ij dr by (auto simp: ordered_def)
    next
      case 3 then show ?thesis using low high ij cmp_ok_trans [OF ok] by blast
    qed
  qed
qed

lemma sorts_parts:
  assumes ok: "cmp_ok cmp" and re: "rearr a (a + n) xs ys" and tp: "three_parts cmp a n d r p ys"
    and len: "a + n \<le> length xs" and ap: "\<forall>x \<in> R. apart (a, n) x" "\<forall>(b, k) \<in> R. b + k \<le> length xs"
    and so: "sorts cmp ({(a, d), (a + n - r, r)} \<union> R) ys zs"
  shows "sorts cmp (insert (a, n) R) xs zs"
proof -
  have l: "length ys = length xs" "length zs = length xs" using rearr_length [OF re] so by (auto simp: sorts_def)
  have dr: "d + r < n" using tp by (simp add: three_parts_def)
  have out: "i < b \<or> b + k \<le> i" if "(b, k) \<in> R" "a \<le> i" "i < a + n" for b k i
    using ap(1) that by (fastforce simp: apart_def)
  have same: "zs ! i = ys ! i" if "a + d \<le> i" "i < a + n - r" for i
  proof -
    have "a \<le> i" "i < a + n" using that by simp_all
    then have "i < b \<or> b + k \<le> i" if "(b, k) \<in> R" for b k using out [OF that] by blast
    then show ?thesis using that dr len l by (intro sorts_unchanged [OF so]) auto
  qed
  have rg: "mset (slice a d zs) = mset (slice a d ys)" "ordered cmp a d zs"
    "mset (slice (a + n - r) r zs) = mset (slice (a + n - r) r ys)" "ordered cmp (a + n - r) r zs"
    using so by (auto simp: sorts_def)
  have "a + n \<le> length ys" "length zs = length ys" using l len by simp_all
  then have ord: "ordered cmp a n zs" by (rule ordered_three_parts [OF ok tp _ _ rg same])
  have "rearr a (a + n) ys zs \<or> mset (slice a n zs) = mset (slice a n ys)"
  proof -
    obtain e where e: "n = d + (e + r)" using dr by (metis add.assoc add.commute less_imp_add_positive)
    have sl: "slice a n ws = slice a d ws @ slice (a + d) (n - r - d) ws @ slice (a + n - r) r ws" for ws :: "'a list"
      by (simp add: e slice_def take_add add.commute add.left_commute)
    have "slice (a + d) (n - r - d) zs = slice (a + d) (n - r - d) ys"
      using same l len dr by (intro slice_eqI) auto
    then show ?thesis unfolding sl [of zs] sl [of ys] by (simp add: rg)
  qed
  then have ms: "mset (slice a n zs) = mset (slice a n xs)"
    using rearr_slice [OF re len] rearr_slice [of a n ys zs] l len by auto
  have "mset (slice b k zs) = mset (slice b k xs) \<and> ordered cmp b k zs" if "(b, k) \<in> R" for b k
  proof -
    have bk: "b + k \<le> length xs" using ap(2) that by auto
    have "slice b k ys = slice b k xs"
    proof (rule slice_eqI [OF l(1) bk])
      fix i assume i: "b \<le> i" "i < b + k"
      then have "i < a \<or> a + n \<le> i" using out [OF that, of i] by linarith
      moreover have "i < length xs" using i bk by simp
      ultimately show "ys ! i = xs ! i" using re by (auto simp: rearr_def)
    qed
    then show ?thesis using so that by (auto simp: sorts_def)
  qed
  moreover have "zs ! i = xs ! i" if "i < length xs" "\<forall>(b, k) \<in> insert (a, n) R. \<not> (b \<le> i \<and> i < b + k)" for i
  proof -
    have "ys ! i = xs ! i" using re that by (auto simp: rearr_def not_le)
    moreover have "zs ! i = ys ! i"
      using that l dr by (intro sorts_unchanged [OF so]) (auto simp: not_le split: prod.splits)
    ultimately show ?thesis by simp
  qed
  ultimately show ?thesis using l ms ord by (auto simp: sorts_def)
qed

lemma qsort_loop_ok:
  assumes ok: "cmp_ok cmp" and ap: "sorted_wrt apart ((a, n) # st)" and len: "\<forall>(b, k) \<in> set ((a, n) # st). b + k \<le> length xs"
  shows "sorts cmp (set ((a, n) # st)) xs (list_qsort_loop cmp st a n xs)"
  using ap len
proof (induction "2 * n + 1 + (\<Sum>(b, k) \<leftarrow> st. 2 * k + 1)" arbitrary: st a n xs rule: less_induct)
  case less
  obtain ys res where eq: "list_qs_step cmp a n xs = (ys, res)" by fastforce
  have ln: "a + n \<le> length xs" using less.prems(2) by simp
  note q = qs_step_ok [OF ok ln eq]
  have ly: "length ys = length xs" using q(1) by (rule rearr_length)
  let ?pop = "\<lambda>zs. case st of [] \<Rightarrow> zs | (b, k) # st' \<Rightarrow> list_qsort_loop cmp st' b k zs"
  have pop: "sorts cmp (set st) zs (?pop zs)" if "length zs = length xs" for zs
  proof (cases st)
    case (Cons y st')
    then show ?thesis using less.hyps [of "snd y" st' "fst y" zs] less.prems that by (cases y) auto
  qed simp
  have apst: "\<forall>x \<in> set st. apart (a, n) x" "\<forall>(b, k) \<in> set st. b + k \<le> length xs" using less.prems by auto
  show ?case
  proof (cases res)
    case None
    have "sorts cmp {(a, n)} xs ys" using q(1,2) None ln by (intro sorts_rearr) auto
    then have "sorts cmp ({(a, n)} \<union> set st) xs (?pop ys)" using pop [OF ly] less.prems by (rule_tac sorts_seq) auto
    then show ?thesis using None eq by (subst list_qsort_loop.simps) (simp split: list.split prod.split)
  next
    case (Some parts)
    obtain pa r a' n' where parts: "parts = ((pa, r), a', n')" by (metis surj_pair)
    obtain d r0 p where tp: "three_parts cmp a n d r0 p ys" and S: "{(pa, r), (a', n')} = {(a, d), (a + n - r0, r0)}"
      using q(3) Some parts by blast
    have dr: "d + r0 < n" using tp by (simp add: three_parts_def)
    have sub: "a \<le> b \<and> b + k \<le> a + n" if "(b, k) \<in> {(pa, r), (a', n')}" for b k using that dr unfolding S by auto
    have apx: "apart (pa, r) (a', n')" using S dr by (auto simp: apart_def doubleton_eq_iff)
    have aps: "\<forall>x \<in> set st. apart (b, k) x" if "(b, k) \<in> {(pa, r), (a', n')}" for b k
      using apst(1) sub [OF that] by (fastforce simp: apart_def)
    have fits: "pa + r \<le> length ys" "a' + n' \<le> length ys" using sub [of pa r] sub [of a' n'] ln ly by auto
    have m: "r + n' < n" using qs_step_size eq Some parts by metis
    let ?z1 = "if r > 1 then list_qsort_loop cmp [] pa r ys else ys"
    have z1: "sorts cmp {(pa, r)} ys ?z1"
      using less.hyps [of r "[]" pa ys] m fits sorts_short [of r cmp pa ys] by auto
    have lz: "length ?z1 = length ys" using z1 by (simp only: sorts_def)
    let ?z2 = "if n' > 1 then list_qsort_loop cmp st a' n' ?z1 else ?pop ?z1"
    have z2: "sorts cmp ({(a', n')} \<union> set st) ?z1 ?z2"
    proof (cases "n' > 1")
      case True
      have "sorted_wrt apart ((a', n') # st)" using aps [of a' n'] less.prems(1) by simp
      then have "sorts cmp (set ((a', n') # st)) ?z1 (list_qsort_loop cmp st a' n' ?z1)"
        using m fits lz ly less.prems(2) by (intro less.hyps) auto
      then show ?thesis using True by simp
    next
      case False
      have "sorts cmp ({(a', n')} \<union> set st) ?z1 (?pop ?z1)"
        using False aps [of a' n'] fits lz ly apst(2) by (intro sorts_seq [OF sorts_short pop]) auto
      then show ?thesis using False by simp
    qed
    have "sorts cmp ({(pa, r), (a', n')} \<union> set st) ys (list_qsort_loop cmp st a n xs)"
    proof (cases "r > 1 \<and> length st < PARAMETER_STACK_LEVELS")
      case True
      have "sorted_wrt apart ((pa, r) # (a', n') # st)" using aps [of a' n'] aps [of pa r] less.prems(1) apx by simp
      then have "sorts cmp (set ((pa, r) # (a', n') # st)) ys (list_qsort_loop cmp ((a', n') # st) pa r ys)"
        using m fits ly less.prems(2) by (intro less.hyps) auto
      then show ?thesis using True eq Some parts by (subst list_qsort_loop.simps) (simp add: insert_commute)
    next
      case False
      have "sorts cmp ({(pa, r)} \<union> ({(a', n')} \<union> set st)) ys ?z2"
        using apx aps [of pa r] fits ly apst(2) by (intro sorts_seq [OF z1 z2]) auto
      moreover have "list_qsort_loop cmp st a n xs = ?z2"
        using False eq Some parts by (subst list_qsort_loop.simps) (simp only: prod.case option.case if_False Let_def)
      ultimately show ?thesis by (simp only: Un_insert_left sup_bot_left)
    qed
    then show ?thesis using sorts_parts [OF ok q(1) tp ln apst] S by simp
  qed
qed

lemma sorted_slice: "b + k \<le> length xs \<Longrightarrow> ordered cmp b k xs \<longleftrightarrow> sorted_wrt (\<lambda>x y. cmp x y \<le> 0) (slice b k xs)"
proof -
  assume len: "b + k \<le> length xs"
  show ?thesis
  proof
    assume "ordered cmp b k xs"
    then show "sorted_wrt (\<lambda>x y. cmp x y \<le> 0) (slice b k xs)"
      using len by (auto simp: sorted_wrt_iff_nth_less ordered_def nth_slice)
  next
    assume s: "sorted_wrt (\<lambda>x y. cmp x y \<le> 0) (slice b k xs)"
    show "ordered cmp b k xs" unfolding ordered_def
    proof (intro allI impI)
      fix i j assume ij: "b \<le> i" "i < j" "j < b + k"
      then have "cmp (slice b k xs ! (i - b)) (slice b k xs ! (j - b)) \<le> 0"
        using s len by (intro sorted_wrt_nth_less [of "\<lambda>x y. cmp x y \<le> 0"]) auto
      then show "cmp (xs ! i) (xs ! j) \<le> 0" using ij len by (simp add: nth_slice)
    qed
  qed
qed

lemma qsort_sorts_range:
  "cmp_ok cmp \<Longrightarrow> a + n \<le> length xs \<Longrightarrow> sorts cmp {(a, n)} xs (list_qsort cmp a n xs)"
  using qsort_loop_ok [of cmp a n "[]" xs] by (simp add: list_qsort_def)

lemma bsearch_loop_ok:
  assumes "cmp_ok cmp" "ordered cmp 0 (length xs) xs" "upper \<le> length xs"
  shows "case list_bsearch_loop cmp key xs lower upper of
      Some i \<Rightarrow> lower \<le> i \<and> i < upper \<and> cmp key (xs ! i) = 0
    | None \<Rightarrow> \<forall>i. lower \<le> i \<longrightarrow> i < upper \<longrightarrow> cmp key (xs ! i) \<noteq> 0"
  using assms(3)
proof (induction "upper - lower" arbitrary: lower upper rule: less_induct)
  case less
  show ?case
  proof (cases "lower < upper")
    case False
    then show ?thesis by (subst list_bsearch_loop.simps) simp
  next
    case True
    define m where "m = (lower + upper) div 2"
    have m: "lower \<le> m" "m < upper" using True by (auto simp: m_def)
    have le: "cmp (xs ! i) (xs ! j) \<le> 0" if "i \<le> j" "j < upper" for i j
      using assms(2) less.prems that cmp_ok_refl [OF assms(1)] by (cases "i = j") (auto simp: ordered_def)
    note tr = cmp_ok_trans [OF assms(1)]
    have step: "list_bsearch_loop cmp key xs lower upper =
      (if cmp key (xs ! m) < 0 then list_bsearch_loop cmp key xs lower m
       else if cmp key (xs ! m) > 0 then list_bsearch_loop cmp key xs (m + 1) upper else Some m)"
      using True by (subst list_bsearch_loop.simps) (simp add: m_def Let_def)
    consider "cmp key (xs ! m) < 0" | "cmp key (xs ! m) > 0" | "cmp key (xs ! m) = 0" by linarith
    then show ?thesis
    proof cases
      case 1
      have ne: "cmp key (xs ! i) \<noteq> 0" if "m \<le> i" "i < upper" for i
      proof
        assume "cmp key (xs ! i) = 0"
        then have "cmp (xs ! i) key \<le> 0" using cmp_ok_flip0 [OF assms(1)] by simp
        then have "cmp (xs ! m) key \<le> 0" using tr [OF le [OF that]] by blast
        then show False using 1 cmp_ok_flip' [OF assms(1) 1] by simp
      qed
      have "m - lower < upper - lower" "m \<le> length xs" using m less.prems by simp_all
      note ih = less.hyps [OF this]
      have "list_bsearch_loop cmp key xs lower upper = list_bsearch_loop cmp key xs lower m" using step 1 by simp
      moreover have "cmp key (xs ! i) \<noteq> 0" if "list_bsearch_loop cmp key xs lower m = None" "lower \<le> i" "i < upper" for i
        using ih that ne [of i] by (cases "m \<le> i") simp_all
      ultimately show ?thesis using ih m by (simp split: option.splits)
    next
      case 2
      have ne: "cmp key (xs ! i) \<noteq> 0" if "i \<le> m" for i
      proof
        assume "cmp key (xs ! i) = 0"
        then have "cmp key (xs ! m) \<le> 0" using tr [of key "xs ! i" "xs ! m"] le [OF that m(2)] by simp
        then show False using 2 by simp
      qed
      have "upper - (m + 1) < upper - lower" using m by simp
      note ih = less.hyps [OF this less.prems]
      have "list_bsearch_loop cmp key xs lower upper = list_bsearch_loop cmp key xs (m + 1) upper" using step 2 by simp
      moreover have "cmp key (xs ! i) \<noteq> 0" if "list_bsearch_loop cmp key xs (m + 1) upper = None" "i < upper" for i
        using ih that ne [of i] by (cases "i \<le> m") simp_all
      ultimately show ?thesis using ih m by (simp split: option.splits)
    next
      case 3
      then show ?thesis using step m by simp
    qed
  qed
qed

end
