(* ===== verification/Newlib_Sort.thy ===== *)
theory Newlib_Sort
  imports Ficus_Base Sort_Algorithm
begin

text \<open>
  Sorting and searching of \<open>libc/search\<close>: \<open>qsort\<close>, the engineered quicksort with its
  parameter stack (\<open>qsort.c\<close>), and \<open>bsearch\<close> (\<open>bsearch.c\<close>), on the bytes of memory.

  A pointer is an address, \<open>es\<close> the size of an element in bytes, and the differences of pointers are
  lengths in bytes, as in the code.  \<open>swap\<close> and \<open>vecswap\<close> copy in units of a \<open>long\<close> or of a \<open>char\<close>;
  the length that \<open>swapfunc\<close> takes is narrowed to an \<open>int\<close>, converted back to an unsigned size for the
  division, and counted down as a \<open>long\<close>.  The comparison is the caller's function on two pointers into
  a memory.  A loop that does not end is \<open>None\<close>: for \<open>es = 0\<close> and \<open>n \<ge> 7\<close> the scan of the partition never
  passes the end of the range.  The code is proved to refine the quicksort on lists (theory
  \<open>Sort_Algorithm\<close>) for an array of less than 2 GiB.
\<close>

section \<open>Exchanging elements\<close>

type_synonym pcmp = "mem \<Rightarrow> addr \<Rightarrow> addr \<Rightarrow> int"

text \<open>An argument for a parameter of type \<open>int\<close>, and \<open>long i = (n) / sizeof (TYPE)\<close> for that \<open>int n\<close>.\<close>

definition as_int :: "nat \<Rightarrow> int" where
  "as_int n = sint (word_of_nat n :: 32 word)"

definition units :: "nat \<Rightarrow> int \<Rightarrow> int" where
  "units sz n = sint (word_of_int ((n mod 2 ^ 64) div int sz) :: 64 word)"

text \<open>\<open>swapcode\<close> for a \<open>TYPE\<close> of \<open>sz\<close> bytes: the loop, which runs at least once.\<close>

function swapcode :: "nat \<Rightarrow> int \<Rightarrow> addr \<Rightarrow> addr \<Rightarrow> mem \<Rightarrow> mem" where
  "swapcode sz i pi pj m =
     (let t = bytes_of m pi sz;
          m = wr m pi (bytes_of m pj sz);
          m = wr m pj t
      in if i - 1 > 0 then swapcode sz (i - 1) (pi + sz) (pj + sz) m else m)"
  by pat_completeness auto
termination by (relation "measure (\<lambda>(sz, i, pi, pj, m). nat i)") auto

definition SWAPINIT :: "addr \<Rightarrow> nat \<Rightarrow> nat" where
  "SWAPINIT a es = (if a mod 8 \<noteq> 0 \<or> es mod 8 \<noteq> 0 then 2 else if es = 8 then 0 else 1)"

definition swapfunc :: "addr \<Rightarrow> addr \<Rightarrow> int \<Rightarrow> nat \<Rightarrow> mem \<Rightarrow> mem" where
  "swapfunc a b n swaptype m =
     (if swaptype \<le> 1 then swapcode 8 (units 8 n) a b m else swapcode 1 (units 1 n) a b m)"

definition swap :: "nat \<Rightarrow> nat \<Rightarrow> addr \<Rightarrow> addr \<Rightarrow> mem \<Rightarrow> mem" where
  "swap es swaptype a b m =
     (if swaptype = 0 then
        let t = load64 m a;
            m = store64 m a (load64 m b)
        in store64 m b t
      else swapfunc a b (as_int es) swaptype m)"

definition vecswap :: "nat \<Rightarrow> addr \<Rightarrow> addr \<Rightarrow> nat \<Rightarrow> mem \<Rightarrow> mem" where
  "vecswap swaptype a b n m = (if n > 0 then swapfunc a b (as_int n) swaptype m else m)"

declare swapcode.simps [simp del]

section \<open>Insertion sort\<close>

partial_function (option) ins_down :: "pcmp \<Rightarrow> nat \<Rightarrow> nat \<Rightarrow> addr \<Rightarrow> addr \<Rightarrow> mem \<Rightarrow> mem option" where
  "ins_down cmp es swaptype a pl m =
     (if pl > a \<and> cmp m (pl - es) pl > 0
      then ins_down cmp es swaptype a (pl - es) (swap es swaptype pl (pl - es) m) else Some m)"

partial_function (option) ins_sort :: "pcmp \<Rightarrow> nat \<Rightarrow> nat \<Rightarrow> addr \<Rightarrow> nat \<Rightarrow> addr \<Rightarrow> mem \<Rightarrow> mem option" where
  "ins_sort cmp es swaptype a n pm m =
     (if pm < a + n * es
      then Option.bind (ins_down cmp es swaptype a pm m) (ins_sort cmp es swaptype a n (pm + es)) else Some m)"

section \<open>The partition\<close>

definition med3 :: "pcmp \<Rightarrow> mem \<Rightarrow> addr \<Rightarrow> addr \<Rightarrow> addr \<Rightarrow> addr" where
  "med3 cmp m a b c =
     (if cmp m a b < 0
      then (if cmp m b c < 0 then b else if cmp m a c < 0 then c else a)
      else (if cmp m b c > 0 then b else if cmp m a c < 0 then a else c))"

definition pivot :: "pcmp \<Rightarrow> nat \<Rightarrow> addr \<Rightarrow> nat \<Rightarrow> mem \<Rightarrow> addr" where
  "pivot cmp es a n m =
     (let pm = a + (n div 2) * es
      in if n > 7 then
           let pl = a; pn = a + (n - 1) * es;
               (pl, pm, pn) =
                 (if n > 40 then
                    let d = (n div 8) * es
                    in (med3 cmp m pl (pl + d) (pl + 2 * d), med3 cmp m (pm - d) pm (pm + d),
                        med3 cmp m (pn - 2 * d) (pn - d) pn)
                  else (pl, pm, pn))
           in med3 cmp m pl pm pn
         else pm)"

record qpart =
  p_mem :: mem
  p_pa :: addr
  p_pb :: addr
  p_pc :: addr
  p_pd :: addr
  swap_cnt :: bool

text \<open>The bodies of the two scans, \<open>r\<close> being \<open>cmp_result\<close>.\<close>

definition move_up :: "nat \<Rightarrow> nat \<Rightarrow> int \<Rightarrow> qpart \<Rightarrow> qpart" where
  "move_up es swaptype r s =
     (let s = (if r = 0
               then s\<lparr>swap_cnt := True, p_mem := swap es swaptype (p_pa s) (p_pb s) (p_mem s), p_pa := p_pa s + es\<rparr> else s)
      in s\<lparr>p_pb := p_pb s + es\<rparr>)"

definition move_down :: "nat \<Rightarrow> nat \<Rightarrow> int \<Rightarrow> qpart \<Rightarrow> qpart" where
  "move_down es swaptype r s =
     (let s = (if r = 0
               then s\<lparr>swap_cnt := True, p_mem := swap es swaptype (p_pc s) (p_pd s) (p_mem s), p_pd := p_pd s - es\<rparr> else s)
      in s\<lparr>p_pc := p_pc s - es\<rparr>)"

partial_function (option) scan_up :: "pcmp \<Rightarrow> nat \<Rightarrow> nat \<Rightarrow> addr \<Rightarrow> qpart \<Rightarrow> qpart option" where
  "scan_up cmp es swaptype a s =
     (let r = cmp (p_mem s) (p_pb s) a
      in if p_pb s \<le> p_pc s \<and> r \<le> 0 then scan_up cmp es swaptype a (move_up es swaptype r s) else Some s)"

partial_function (option) scan_down :: "pcmp \<Rightarrow> nat \<Rightarrow> nat \<Rightarrow> addr \<Rightarrow> qpart \<Rightarrow> qpart option" where
  "scan_down cmp es swaptype a s =
     (let r = cmp (p_mem s) (p_pc s) a
      in if p_pb s \<le> p_pc s \<and> r \<ge> 0 then scan_down cmp es swaptype a (move_down es swaptype r s) else Some s)"

partial_function (option) part_loop :: "pcmp \<Rightarrow> nat \<Rightarrow> nat \<Rightarrow> addr \<Rightarrow> qpart \<Rightarrow> qpart option" where
  "part_loop cmp es swaptype a s =
     Option.bind (scan_up cmp es swaptype a s) (\<lambda>s.
     Option.bind (scan_down cmp es swaptype a s) (\<lambda>s.
       if p_pb s > p_pc s then Some s
       else part_loop cmp es swaptype a
         (s\<lparr>p_mem := swap es swaptype (p_pb s) (p_pc s) (p_mem s), swap_cnt := True, p_pb := p_pb s + es, p_pc := p_pc s - es\<rparr>)))"

text \<open>
  One round on the \<open>n\<close> elements at \<open>a\<close>: the memory, and \<open>None\<close> when the range is
  sorted, or else the smaller part (base and size in bytes) and the larger one.
\<close>

definition qs_step :: "pcmp \<Rightarrow> nat \<Rightarrow> nat \<Rightarrow> addr \<Rightarrow> nat \<Rightarrow> mem \<Rightarrow> (mem \<times> ((addr \<times> nat) \<times> addr \<times> nat) option) option" where
  "qs_step cmp es swaptype a n m =
     (if n < 7 then map_option (\<lambda>m. (m, None)) (ins_sort cmp es swaptype a n (a + es) m)
      else
        let m = swap es swaptype a (pivot cmp es a n m) m
        in Option.bind (part_loop cmp es swaptype a
               \<lparr>p_mem = m, p_pa = a + es, p_pb = a + es, p_pc = a + (n - 1) * es, p_pd = a + (n - 1) * es, swap_cnt = False\<rparr>) (\<lambda>s.
           if \<not> swap_cnt s then map_option (\<lambda>m. (m, None)) (ins_sort cmp es swaptype a n (a + es) (p_mem s))
           else
             let pn = a + n * es;
                 r = min (p_pa s - a) (p_pb s - p_pa s);
                 m = vecswap swaptype a (p_pb s - r) r (p_mem s);
                 r = min (p_pd s - p_pc s) (pn - p_pd s - es);
                 m = vecswap swaptype (p_pb s) (pn - r) r m;
                 d = p_pb s - p_pa s;
                 r = p_pd s - p_pc s;
                 pn = pn - r
             in if r > d then Some (m, Some ((a, d), pn, r)) else Some (m, Some ((pn, r), a, d))))"

section \<open>The loop\<close>

text \<open>
  The parameter stack holds the ranges put off.  \<open>pop\<close> takes the range to go on with (an empty stack ends
  the function), and \<open>go_on\<close> is the end of the loop: the larger part, of \<open>n\<close> bytes, if it needs sorting, or a
  range from the stack.
\<close>

type_synonym ranges = "(addr \<times> nat) list"

definition pop :: "ranges \<Rightarrow> (ranges \<times> addr \<times> nat) option" where
  "pop st = (case st of [] \<Rightarrow> None | (b, k) # st' \<Rightarrow> Some (st', b, k))"

definition go_on :: "nat \<Rightarrow> ranges \<Rightarrow> addr \<Rightarrow> nat \<Rightarrow> (ranges \<times> addr \<times> nat) option" where
  "go_on es st a n = (if n > es then Some (st, a, n div es) else pop st)"

text \<open>
  The loop on its variables: the stack, the base and the number of elements of the range to sort.  When the 8
  places of the stack are taken, the smaller part is sorted by a call, with a stack and a \<open>swaptype\<close> of its own.
\<close>

partial_function (option) qsort_loop :: "pcmp \<Rightarrow> nat \<Rightarrow> nat \<Rightarrow> ranges \<times> addr \<times> nat \<Rightarrow> mem \<Rightarrow> mem option" where
  "qsort_loop cmp es swaptype v m =
     (case v of (st, a, n) \<Rightarrow>
      case qs_step cmp es swaptype a n m of
        None \<Rightarrow> None
      | Some (m, None) \<Rightarrow> (case pop st of None \<Rightarrow> Some m | Some v' \<Rightarrow> qsort_loop cmp es swaptype v' m)
      | Some (m, Some ((pa, r), a', n')) \<Rightarrow>
          if r > es \<and> length st < PARAMETER_STACK_LEVELS
          then qsort_loop cmp es swaptype ((a', n' div es) # st, pa, r div es) m
          else
            Option.bind (if r > es then qsort_loop cmp es (SWAPINIT pa es) ([], pa, r div es) m else Some m) (\<lambda>m.
              case go_on es st a' n' of None \<Rightarrow> Some m | Some v' \<Rightarrow> qsort_loop cmp es swaptype v' m))"

definition qsort :: "addr \<Rightarrow> nat \<Rightarrow> nat \<Rightarrow> pcmp \<Rightarrow> mem \<Rightarrow> mem option" where
  "qsort a n es cmp m = qsort_loop cmp es (SWAPINIT a es) ([], a, n) m"

section \<open>Binary search\<close>

text \<open>The address of an element that matches; \<open>None\<close> is \<open>NULL\<close>.\<close>

function bsearch_loop :: "pcmp \<Rightarrow> addr \<Rightarrow> addr \<Rightarrow> nat \<Rightarrow> mem \<Rightarrow> nat \<Rightarrow> nat \<Rightarrow> addr option" where
  "bsearch_loop compar key base sz m lower upper =
     (if lower < upper then
        let index = (lower + upper) div 2;
            current = base + index * sz;
            result = compar m key current
        in if result < 0 then bsearch_loop compar key base sz m lower index
           else if result > 0 then bsearch_loop compar key base sz m (index + 1) upper
           else Some current
      else None)"
  by pat_completeness auto
termination by (relation "measure (\<lambda>(compar, key, base, sz, m, lower, upper). upper - lower)") auto

declare bsearch_loop.simps [simp del]

definition bsearch :: "addr \<Rightarrow> addr \<Rightarrow> nat \<Rightarrow> nat \<Rightarrow> pcmp \<Rightarrow> mem \<Rightarrow> addr option" where
  "bsearch key base nmemb sz compar m =
     (if nmemb = 0 \<or> sz = 0 then None else bsearch_loop compar key base sz m 0 nmemb)"

section \<open>The exchange of two blocks\<close>

definition exch :: "addr \<Rightarrow> addr \<Rightarrow> nat \<Rightarrow> mem \<Rightarrow> mem" where
  "exch a b n m p = (if a \<le> p \<and> p < a + n then m (b + (p - a)) else if b \<le> p \<and> p < b + n then m (a + (p - b)) else m p)"

lemma wr_exch:
  assumes "a = b \<or> a + n \<le> b \<or> b + n \<le> a"
  shows "wr (wr m a (bytes_of m b n)) b (bytes_of m a n) = exch a b n m"
  using assms by (auto simp: fun_eq_iff exch_def wr_eq)

lemma exch_join:
  assumes "a = b \<or> a + (k + n) \<le> b \<or> b + (k + n) \<le> a"
  shows "exch (a + k) (b + k) n (exch a b k m) = exch a b (k + n) m"
proof
  fix p
  show "exch (a + k) (b + k) n (exch a b k m) p = exch a b (k + n) m p"
    using assms by (auto simp: exch_def)
qed

lemma swapcode_exch:
  assumes "0 < k" "a = b \<or> a + k * sz \<le> b \<or> b + k * sz \<le> a"
  shows "swapcode sz (int k) a b m = exch a b (k * sz) m"
  using assms
proof (induction k arbitrary: a b m)
  case (Suc k)
  have s: "wr (wr m a (bytes_of m b sz)) b (bytes_of m a sz) = exch a b sz m"
    using Suc.prems(2) by (intro wr_exch) auto
  show ?case
  proof (cases "k = 0")
    case True
    then show ?thesis by (subst swapcode.simps) (simp add: Let_def s)
  next
    case False
    have "swapcode sz (int k) (a + sz) (b + sz) (exch a b sz m) = exch (a + sz) (b + sz) (k * sz) (exch a b sz m)"
      using False Suc.prems(2) by (intro Suc.IH) auto
    also have "\<dots> = exch a b (sz + k * sz) m" using Suc.prems(2) by (intro exch_join) auto
    finally show ?thesis using False by (subst swapcode.simps) (simp add: Let_def s)
  qed
qed simp

lemma as_int_id: "n < 2 ^ 31 \<Longrightarrow> as_int n = int n"
  by (simp add: as_int_def signed_of_nat signed_take_bit_int_eq_self)

lemma units_div: "n < 2 ^ 31 \<Longrightarrow> 0 < sz \<Longrightarrow> units sz (int n) = int (n div sz)"
proof -
  assume n: "n < 2 ^ 31" "0 < sz"
  have "int n div int sz \<le> int n" by (simp add: zdiv_int [symmetric])
  moreover have "0 \<le> int n div int sz" using n(2) by (simp add: pos_imp_zdiv_nonneg_iff)
  ultimately have "signed_take_bit 63 (int n div int sz) = int n div int sz"
    using n by (intro signed_take_bit_int_eq_self) simp_all
  then show ?thesis using n by (simp add: units_def signed_of_int zdiv_int)
qed

text \<open>\<open>swaptype\<close> fits the size of the elements, as \<open>SWAPINIT\<close> makes it.\<close>

definition swaptype_ok :: "nat \<Rightarrow> nat \<Rightarrow> bool" where
  "swaptype_ok es swaptype \<longleftrightarrow> (swaptype = 0 \<longrightarrow> es = 8) \<and> (swaptype \<le> 1 \<longrightarrow> 8 dvd es)"

lemma SWAPINIT_ok: "swaptype_ok es (SWAPINIT a es)"
  by (auto simp: swaptype_ok_def SWAPINIT_def dvd_eq_mod_eq_0)

lemma swapfunc_exch:
  assumes "0 < k" "0 < es" "k * es < 2 ^ 31" "swaptype_ok es st" "a = b \<or> a + k * es \<le> b \<or> b + k * es \<le> a"
  shows "swapfunc a b (as_int (k * es)) st m = exch a b (k * es) m"
proof (cases "st \<le> 1")
  case True
  then obtain q where q: "es = 8 * q" using assms(4) by (auto simp: swaptype_ok_def)
  have "units 8 (as_int (k * es)) = int (k * q)" using assms(3) units_div [of "k * es" 8] by (simp add: as_int_id q del: of_nat_mult)
  moreover have "swapcode 8 (int (k * q)) a b m = exch a b (k * q * 8) m"
    using assms(1,2,5) by (intro swapcode_exch) (auto simp: q ac_simps)
  ultimately show ?thesis using True by (simp add: swapfunc_def q ac_simps)
next
  case False
  have "units 1 (as_int (k * es)) = int (k * es)" using assms(3) units_div [of "k * es" 1] by (simp add: as_int_id del: of_nat_mult)
  moreover have "swapcode 1 (int (k * es)) a b m = exch a b (k * es * 1) m"
    using assms(1,2,5) by (intro swapcode_exch) auto
  ultimately show ?thesis using False by (simp add: swapfunc_def)
qed

lemma swap_exch:
  assumes "0 < es" "es < 2 ^ 31" "swaptype_ok es st" "a = b \<or> a + es \<le> b \<or> b + es \<le> a"
  shows "swap es st a b m = exch a b es m"
proof (cases "st = 0")
  case True
  then have "es = 8" using assms(3) by (simp add: swaptype_ok_def)
  then have "wr (wr m a (bytes_of m b 8)) b (bytes_of m a 8) = exch a b es m" using wr_exch [of a b 8 m] assms(4) by simp
  moreover have "store64 m' b (load64 m a) = wr m' b (bytes_of m a 8)" for m' by (rule store64_load64)
  ultimately show ?thesis using True by (simp add: swap_def Let_def store64_load64)
next
  case False
  then show ?thesis using swapfunc_exch [of 1 es st a b m] assms by (simp add: swap_def)
qed

lemma vecswap_exch:
  assumes "0 < es" "k * es < 2 ^ 31" "swaptype_ok es st" "a = b \<or> a + k * es \<le> b \<or> b + k * es \<le> a"
  shows "vecswap st a b (k * es) m = exch a b (k * es) m"
  using swapfunc_exch [of k es st a b m] assms by (cases "k = 0") (auto simp: vecswap_def exch_def fun_eq_iff)

section \<open>Arrays of elements\<close>

text \<open>The address of the element with an index, and the arithmetic of such addresses.\<close>

definition el :: "addr \<Rightarrow> nat \<Rightarrow> nat \<Rightarrow> addr" where
  "el A es i = A + i * es"

lemma el_less [simp]: "0 < es \<Longrightarrow> el A es i < el A es j \<longleftrightarrow> i < j"
  by (simp add: el_def)

lemma el_le [simp]: "0 < es \<Longrightarrow> el A es i \<le> el A es j \<longleftrightarrow> i \<le> j"
  by (simp add: el_def)

lemma el_eq [simp]: "0 < es \<Longrightarrow> el A es i = el A es j \<longleftrightarrow> i = j"
  by (simp add: el_def)

lemma el_add: "el A es i + k * es = el A es (i + k)"
  by (simp add: el_def algebra_simps)

lemma el_next [simp]: "el A es i + es = el A es (Suc i)"
  using el_add [of A es i 1] by simp

lemma el_sub: "k \<le> i \<Longrightarrow> el A es i - k * es = el A es (i - k)"
  by (simp add: el_def diff_mult_distrib)

lemma el_prev [simp]: "0 < i \<Longrightarrow> el A es i - es = el A es (i - 1)"
  using el_sub [of 1 i A es] by simp

lemma el_diff [simp]: "el A es i - el A es j = (i - j) * es"
  by (simp add: el_def diff_mult_distrib)

lemma el_apart: "i + k \<le> j \<Longrightarrow> el A es i + k * es \<le> el A es j"
  using mult_le_mono1 [of "i + k" j es] by (simp add: el_def add_mult_distrib)

text \<open>
  The memory \<open>m\<close> has the elements \<open>xs\<close> at \<open>A\<close> and agrees with \<open>m0\<close> everywhere else.
\<close>

definition array_at :: "addr \<Rightarrow> nat \<Rightarrow> mem \<Rightarrow> byte list list \<Rightarrow> mem \<Rightarrow> bool" where
  "array_at A es m0 xs m \<longleftrightarrow> (\<forall>i < length xs. bytes_of m (el A es i) es = xs ! i) \<and>
     (\<forall>p. p < A \<or> A + length xs * es \<le> p \<longrightarrow> m p = m0 p)"

lemma bytes_of_exch:
  assumes "a = b \<or> a + n \<le> b \<or> b + n \<le> a"
  shows "a \<le> p \<Longrightarrow> p + k \<le> a + n \<Longrightarrow> bytes_of (exch a b n m) p k = bytes_of m (b + (p - a)) k"
    "b \<le> p \<Longrightarrow> p + k \<le> b + n \<Longrightarrow> bytes_of (exch a b n m) p k = bytes_of m (a + (p - b)) k"
    "p + k \<le> a \<or> a + n \<le> p \<Longrightarrow> p + k \<le> b \<or> b + n \<le> p \<Longrightarrow> bytes_of (exch a b n m) p k = bytes_of m p k"
  using assms by (auto simp: list_eq_iff_nth_eq exch_def add.assoc)

lemma array_at_exch:
  assumes h: "array_at A es m0 xs m" and ij: "i + k \<le> j" "j + k \<le> length xs"
  shows "array_at A es m0 (list_vecswap i j k xs) (exch (el A es i) (el A es j) (k * es) m)"
proof -
  let ?m = "exch (el A es i) (el A es j) (k * es) m" and ?ys = "list_vecswap i j k xs"
  note ys = vecswap_nth [OF ij]
  have ap: "el A es i = el A es j \<or> el A es i + k * es \<le> el A es j \<or> el A es j + k * es \<le> el A es i"
    using el_apart [OF ij(1)] by blast
  have el: "bytes_of m (el A es l) es = xs ! l" if "l < length xs" for l using h that by (simp add: array_at_def)
  have "bytes_of ?m (el A es l) es = ?ys ! l" if l: "l < length xs" for l
  proof -
    have le: "el A es p \<le> el A es l" if "p \<le> l" for p using el_apart [of p 0 l A es] that by simp
    have up: "el A es l + es \<le> el A es p" if "l < p" for p using el_apart [of l 1 p A es] that by simp
    consider "i \<le> l" "l < i + k" | "j \<le> l" "l < j + k" | "l < i \<or> i + k \<le> l" "l < j \<or> j + k \<le> l" by linarith
    then show ?thesis
    proof cases
      case 1
      then have "bytes_of ?m (el A es l) es = bytes_of m (el A es j + (el A es l - el A es i)) es"
        using up [of "i + k"] by (intro bytes_of_exch(1) [OF ap]) (auto simp: le el_add)
      also have "el A es j + (el A es l - el A es i) = el A es (l - i + j)" by (simp add: el_add add.commute)
      finally show ?thesis using 1 ij el [of "l - i + j"] by (simp add: ys)
    next
      case 2
      then have "bytes_of ?m (el A es l) es = bytes_of m (el A es i + (el A es l - el A es j)) es"
        using up [of "j + k"] by (intro bytes_of_exch(2) [OF ap]) (auto simp: le el_add)
      also have "el A es i + (el A es l - el A es j) = el A es (l - j + i)" by (simp add: el_add add.commute)
      finally show ?thesis using 2 ij el [of "l - j + i"] by (simp add: ys)
    next
      case 3
      then have "bytes_of ?m (el A es l) es = bytes_of m (el A es l) es"
        using le [of "i + k"] le [of "j + k"] up [of i] up [of j] by (intro bytes_of_exch(3) [OF ap]) (auto simp: el_add)
      then show ?thesis using 3 l el [of l] by (auto simp: ys)
    qed
  qed
  moreover have "?m p = m p" if "p < A \<or> A + length xs * es \<le> p" for p
  proof -
    have "A \<le> el A es i" "A \<le> el A es j" by (simp_all add: el_def)
    moreover have "el A es i + k * es \<le> A + length xs * es" "el A es j + k * es \<le> A + length xs * es"
      using el_apart [of i k "length xs" A es] el_apart [of j k "length xs" A es] ij by (simp_all add: el_def)
    ultimately show ?thesis using that by (auto simp: exch_def)
  qed
  ultimately show ?thesis using h by (simp add: array_at_def ys(1))
qed

lemma list_swap_comm: "list_swap i j xs = list_swap j i xs"
  by (cases "i = j") (auto simp: list_swap_def list_update_swap)

lemma exch_comm: "a = b \<or> a + n \<le> b \<or> b + n \<le> a \<Longrightarrow> exch a b n m = exch b a n m"
  by (auto simp: exch_def fun_eq_iff)

lemma exch_same [simp]: "exch a a n m = m"
  by (auto simp: exch_def fun_eq_iff)

section \<open>The loops refine those on lists\<close>

text \<open>What the loops need of the array: elements of some size, and less than 2 GiB of them.\<close>

definition sortable :: "nat \<Rightarrow> nat \<Rightarrow> nat \<Rightarrow> bool" where
  "sortable es st n \<longleftrightarrow> 0 < es \<and> n * es < 2 ^ 31 \<and> swaptype_ok es st"

text \<open>The caller's function compares what its arguments point to, by \<open>c\<close>.\<close>

definition compares :: "byte list cmp \<Rightarrow> nat \<Rightarrow> pcmp \<Rightarrow> bool" where
  "compares c es cmp \<longleftrightarrow> (\<forall>m p q. cmp m p q = c (bytes_of m p es) (bytes_of m q es))"

lemma sortable_pos [simp]: "sortable es st n \<Longrightarrow> 0 < es"
  by (simp add: sortable_def)

lemma compares_el:
  "compares c es cmp \<Longrightarrow> array_at A es m0 xs m \<Longrightarrow> i < length xs \<Longrightarrow> j < length xs \<Longrightarrow> cmp m (el A es i) (el A es j) = c (xs ! i) (xs ! j)"
  by (simp add: compares_def array_at_def)

lemma swap_refines:
  assumes "sortable es st (length xs)" "array_at A es m0 xs m" "i < length xs" "j < length xs"
  shows "array_at A es m0 (list_swap i j xs) (swap es st (el A es i) (el A es j) m)"
proof -
  have es: "0 < es" "swaptype_ok es st" using assms(1) by (simp_all add: sortable_def)
  have "1 * es \<le> length xs * es" using assms(3) by (intro mult_le_mono1) simp
  then have big: "es < 2 ^ 31" using assms(1) unfolding sortable_def by linarith
  have up: "array_at A es m0 (list_swap i j xs) (exch (el A es i) (el A es j) es m)" if "i < j" "j < length xs" for i j
  proof -
    have "list_vecswap i j 1 xs = list_swap i j xs" by (simp add: list_vecswap_def list_swaps.simps)
    then show ?thesis using array_at_exch [OF assms(2), of i 1 j] that by simp
  qed
  have ap: "el A es i = el A es j \<or> el A es i + es \<le> el A es j \<or> el A es j + es \<le> el A es i"
    using el_apart [of i 1 j A es] el_apart [of j 1 i A es] by (cases i j rule: linorder_cases) auto
  consider "i < j" | "i = j" | "j < i" by linarith
  then have "array_at A es m0 (list_swap i j xs) (exch (el A es i) (el A es j) es m)"
  proof cases
    case 3
    then show ?thesis using up [of j i] assms(3) exch_comm [OF ap] list_swap_comm by metis
  qed (use up assms in \<open>auto simp: list_swap_def\<close>)
  then show ?thesis using swap_exch [OF es(1) big es(2) ap] by simp
qed

lemma vecswap_refines:
  assumes "sortable es st (length xs)" "array_at A es m0 xs m" "i + k \<le> j" "j + k \<le> length xs"
  shows "array_at A es m0 (list_vecswap i j k xs) (vecswap st (el A es i) (el A es j) (k * es) m)"
proof -
  have "k * es \<le> length xs * es" using assms(4) by (intro mult_le_mono1) simp
  then have "k * es < 2 ^ 31" using assms(1) unfolding sortable_def by linarith
  then have "vecswap st (el A es i) (el A es j) (k * es) m = exch (el A es i) (el A es j) (k * es) m"
    using assms(1) el_apart [OF assms(3), of A es] by (intro vecswap_exch) (auto simp: sortable_def)
  then show ?thesis using array_at_exch [OF assms(2-4)] by simp
qed

lemma length_ins_down [simp]: "length (list_ins_down c a pl xs) = length xs"
  by (induction c a pl xs rule: list_ins_down.induct) (subst list_ins_down.simps, simp)

lemma ins_down_refines:
  assumes "compares c es cmp" "sortable es st (length xs)" "array_at A es m0 xs m" "pl < length xs"
  shows "\<exists>m'. ins_down cmp es st (el A es a) (el A es pl) m = Some m' \<and> array_at A es m0 (list_ins_down c a pl xs) m'"
  using assms
proof (induction c a pl xs arbitrary: m rule: list_ins_down.induct)
  case (1 c a pl xs)
  show ?case
  proof (cases "pl > a \<and> c (xs ! (pl - 1)) (xs ! pl) > 0")
    case True
    let ?m = "swap es st (el A es pl) (el A es (pl - 1)) m"
    have "array_at A es m0 (list_swap pl (pl - 1) xs) ?m" using 1 by (intro swap_refines) auto
    then have "\<exists>m'. ins_down cmp es st (el A es a) (el A es (pl - 1)) ?m = Some m' \<and>
        array_at A es m0 (list_ins_down c a (pl - 1) (list_swap pl (pl - 1) xs)) m'"
      using 1 True by (intro "1.IH") auto
    moreover have "cmp m (el A es (pl - 1)) (el A es pl) = c (xs ! (pl - 1)) (xs ! pl)" using 1 by (intro compares_el) auto
    ultimately show ?thesis using True 1 by (subst ins_down.simps, subst list_ins_down.simps) auto
  next
    case False
    then show ?thesis using 1 compares_el [OF 1(2,4), of "pl - 1" pl]
      by (subst ins_down.simps, subst list_ins_down.simps) auto
  qed
qed

lemma ins_sort_refines:
  assumes "compares c es cmp" "sortable es st (length xs)" "array_at A es m0 xs m" "a + n \<le> length xs"
  shows "\<exists>m'. ins_sort cmp es st (el A es a) n (el A es pm) m = Some m' \<and> array_at A es m0 (list_ins_sort c a n pm xs) m'"
  using assms
proof (induction c a n pm xs arbitrary: m rule: list_ins_sort.induct)
  case (1 c a n pm xs)
  have en: "el A es a + n * es = el A es (a + n)" by (rule el_add)
  show ?case
  proof (cases "pm < a + n")
    case True
    then obtain m1 where "ins_down cmp es st (el A es a) (el A es pm) m = Some m1" "array_at A es m0 (list_ins_down c a pm xs) m1"
      using ins_down_refines [OF 1(2-4), of pm a] 1(5) by auto
    then show ?thesis using "1.IH" [OF True "1.prems"(1), of m1] True 1
      by (subst ins_sort.simps, subst list_ins_sort.simps) (simp add: en)
  next
    case False
    then show ?thesis using 1 by (subst ins_sort.simps, subst list_ins_sort.simps) (simp add: en)
  qed
qed

lemma med3_refines:
  assumes "compares c es cmp" "array_at A es m0 xs m" "x < length xs" "y < length xs" "z < length xs"
  shows "med3 cmp m (el A es x) (el A es y) (el A es z) = el A es (list_med3 c xs x y z)"
  using assms by (simp add: med3_def list_med3_def compares_el [OF assms(1,2)])

lemma pivot_refines:
  assumes "compares c es cmp" "array_at A es m0 xs m" "7 \<le> n" "a + n \<le> length xs"
  shows "pivot cmp es (el A es a) n m = el A es (list_pivot c a n xs)"
proof -
  note med = med3_refines [OF assms(1,2)]
  have in3: "list_med3 c xs x y z < length xs" if "x < length xs" "y < length xs" "z < length xs" for x y z
    using that med3_in [of c xs x y z] by auto
  consider "n = 7" | "7 < n" "n \<le> 40" | "40 < n" using assms(3) by linarith
  then show ?thesis
  proof cases
    case 3
    define d where "d = n div 8"
    have d: "2 * d < n" "d \<le> n div 2" "n div 2 + d < n" "2 * d \<le> n - 1" "d \<le> n - 1" using assms(3) by (auto simp: d_def)
    have e: "2 * (d * es) = (2 * d) * es" by simp
    show ?thesis using 3 d assms(4) unfolding pivot_def list_pivot_def Let_def d_def [symmetric] e
      by (simp add: el_add el_sub med in3 del: mult.assoc)
  qed (use assms(3,4) in \<open>simp_all add: pivot_def list_pivot_def el_add med\<close>)
qed

text \<open>The state of the partition on memory and that on lists.\<close>

definition prel :: "addr \<Rightarrow> nat \<Rightarrow> mem \<Rightarrow> qpart \<Rightarrow> byte list list_part \<Rightarrow> bool" where
  "prel A es m0 s l \<longleftrightarrow> p_pa s = el A es (l_pa l) \<and> p_pb s = el A es (l_pb l) \<and> p_pc s = el A es (l_pc l) \<and>
     p_pd s = el A es (l_pd l) \<and> swap_cnt s = l_swap l \<and> array_at A es m0 (l_arr l) (p_mem s)"

definition part_in :: "nat \<Rightarrow> nat \<Rightarrow> nat \<Rightarrow> 'a list_part \<Rightarrow> bool" where
  "part_in a n N l \<longleftrightarrow> part_idx a n l \<and> length (l_arr l) = N \<and> a + n \<le> N"

lemma move_up_refines:
  assumes "prel A es m0 s l" "part_in a n N l" "sortable es st N" "l_pb l \<le> l_pc l"
  shows "prel A es m0 (move_up es st r s) (list_move_up r l) \<and> part_in a n N (list_move_up r l)"
proof -
  have b: "l_pa l < N" "l_pb l < N" "length (l_arr l) = N" using assms(2,4) by (auto simp: part_in_def part_idx_def)
  then have "array_at A es m0 (list_swap (l_pa l) (l_pb l) (l_arr l)) (swap es st (el A es (l_pa l)) (el A es (l_pb l)) (p_mem s))"
    using assms(1,3) by (intro swap_refines) (auto simp: prel_def)
  then show ?thesis using assms by (auto simp: prel_def part_in_def part_idx_def move_up_def list_move_up_def)
qed

lemma move_down_refines:
  assumes "prel A es m0 s l" "part_in a n N l" "sortable es st N" "l_pb l \<le> l_pc l"
  shows "prel A es m0 (move_down es st r s) (list_move_down r l) \<and> part_in a n N (list_move_down r l)"
proof -
  have b: "l_pd l < N" "l_pc l < N" "0 < l_pc l" "0 < l_pd l" "length (l_arr l) = N"
    using assms(2,4) by (auto simp: part_in_def part_idx_def)
  then have "array_at A es m0 (list_swap (l_pc l) (l_pd l) (l_arr l)) (swap es st (el A es (l_pc l)) (el A es (l_pd l)) (p_mem s))"
    using assms(1,3) by (intro swap_refines) (auto simp: prel_def)
  then show ?thesis using assms b by (auto simp: prel_def part_in_def part_idx_def move_down_def list_move_down_def)
qed

lemma scan_up_refines:
  assumes "compares c es cmp" "sortable es st N" "prel A es m0 s l" "part_in a n N l"
  shows "\<exists>s'. scan_up cmp es st (el A es a) s = Some s' \<and> prel A es m0 s' (list_scan_up c a l) \<and> part_in a n N (list_scan_up c a l)"
  using assms
proof (induction c a l arbitrary: s rule: list_scan_up.induct)
  case (1 c a l)
  let ?r = "c (l_arr l ! l_pb l) (l_arr l ! a)"
  have r: "cmp (p_mem s) (p_pb s) (el A es a) = ?r" if "l_pb l \<le> l_pc l"
    using that 1(2-) by (auto simp: prel_def part_in_def part_idx_def compares_el)
  have le: "p_pb s \<le> p_pc s \<longleftrightarrow> l_pb l \<le> l_pc l" using 1(3,4) by (simp add: prel_def)
  show ?case
  proof (cases "l_pb l \<le> l_pc l \<and> ?r \<le> 0")
    case True
    note mv = move_up_refines [OF 1(4,5,3), of ?r]
    have "scan_up cmp es st (el A es a) s = scan_up cmp es st (el A es a) (move_up es st ?r s)"
      using True r le by (subst scan_up.simps) (simp add: Let_def)
    moreover have "list_scan_up c a l = list_scan_up c a (list_move_up ?r l)"
      using True by (subst list_scan_up.simps) (simp add: Let_def)
    ultimately show ?thesis using "1.IH" [OF refl True 1(2,3), of "move_up es st ?r s"] mv True by simp
  next
    case False
    then have "scan_up cmp es st (el A es a) s = Some s" using r le by (subst scan_up.simps) (auto simp: Let_def)
    moreover have "list_scan_up c a l = l" using False by (subst list_scan_up.simps) (auto simp: Let_def)
    ultimately show ?thesis using 1(4,5) by simp
  qed
qed

lemma scan_down_refines:
  assumes "compares c es cmp" "sortable es st N" "prel A es m0 s l" "part_in a n N l"
  shows "\<exists>s'. scan_down cmp es st (el A es a) s = Some s' \<and> prel A es m0 s' (list_scan_down c a l) \<and> part_in a n N (list_scan_down c a l)"
  using assms
proof (induction c a l arbitrary: s rule: list_scan_down.induct)
  case (1 c a l)
  let ?r = "c (l_arr l ! l_pc l) (l_arr l ! a)"
  have r: "cmp (p_mem s) (p_pc s) (el A es a) = ?r" if "l_pb l \<le> l_pc l"
    using that 1(2-) by (auto simp: prel_def part_in_def part_idx_def compares_el)
  have le: "p_pb s \<le> p_pc s \<longleftrightarrow> l_pb l \<le> l_pc l" "0 < l_pb l"
    using 1(3-5) by (auto simp: prel_def part_in_def part_idx_def)
  show ?case
  proof (cases "l_pb l \<le> l_pc l \<and> ?r \<ge> 0")
    case True
    note mv = move_down_refines [OF 1(4,5,3), of ?r]
    have "scan_down cmp es st (el A es a) s = scan_down cmp es st (el A es a) (move_down es st ?r s)"
      using True r le by (subst scan_down.simps) (simp add: Let_def)
    moreover have "list_scan_down c a l = list_scan_down c a (list_move_down ?r l)"
      using True le by (subst list_scan_down.simps) (simp add: Let_def)
    ultimately show ?thesis using "1.IH" [OF refl _ 1(2,3), of "move_down es st ?r s"] mv True le by simp
  next
    case False
    then have "scan_down cmp es st (el A es a) s = Some s" using r le by (subst scan_down.simps) (auto simp: Let_def)
    moreover have "list_scan_down c a l = l" using False by (subst list_scan_down.simps) (auto simp: Let_def)
    ultimately show ?thesis using 1(4,5) by simp
  qed
qed

lemma part_loop_refines:
  assumes "compares c es cmp" "sortable es st N" "prel A es m0 s l" "part_in a n N l"
  shows "\<exists>s'. part_loop cmp es st (el A es a) s = Some s' \<and> prel A es m0 s' (list_part_loop c a l) \<and> part_in a n N (list_part_loop c a l)"
  using assms
proof (induction c a l arbitrary: s rule: list_part_loop.induct)
  case (1 c a l)
  obtain s1 where s1: "scan_up cmp es st (el A es a) s = Some s1" "prel A es m0 s1 (list_scan_up c a l)" "part_in a n N (list_scan_up c a l)"
    using scan_up_refines [OF 1(2-5)] by blast
  define k where "k = list_scan_down c a (list_scan_up c a l)"
  obtain s2 where s2: "scan_down cmp es st (el A es a) s1 = Some s2" "prel A es m0 s2 k" "part_in a n N k"
    using scan_down_refines [OF 1(2,3) s1(2,3)] unfolding k_def by blast
  have gt: "p_pb s2 > p_pc s2 \<longleftrightarrow> l_pb k > l_pc k" using s2(2) 1(3) by (simp add: prel_def)
  show ?case
  proof (cases "l_pb k > l_pc k")
    case True
    then have "part_loop cmp es st (el A es a) s = Some s2" using s1(1) s2(1) gt by (subst part_loop.simps) simp
    moreover have "list_part_loop c a l = k" using True by (subst list_part_loop.simps) (simp add: k_def [symmetric] Let_def)
    ultimately show ?thesis using s2 by simp
  next
    case False
    define k' where "k' = k\<lparr>l_arr := list_swap (l_pb k) (l_pc k) (l_arr k), l_swap := True, l_pb := l_pb k + 1, l_pc := l_pc k - 1\<rparr>"
    define t where "t = s2\<lparr>p_mem := swap es st (p_pb s2) (p_pc s2) (p_mem s2), swap_cnt := True, p_pb := p_pb s2 + es, p_pc := p_pc s2 - es\<rparr>"
    have idx: "part_idx a n l" "length (l_arr k) = N" "a + n \<le> N" "part_idx a n k" using 1(5) s2(3) by (auto simp: part_in_def)
    have lt: "l_pb k < l_pc k" using scans_stop(2) [OF idx(1), of c] False by (simp add: k_def)
    have "array_at A es m0 (list_swap (l_pb k) (l_pc k) (l_arr k)) (swap es st (el A es (l_pb k)) (el A es (l_pc k)) (p_mem s2))"
      using s2(2) idx 1(3) lt by (intro swap_refines) (auto simp: prel_def part_idx_def)
    then have "prel A es m0 t k'" using s2(2) lt by (simp add: prel_def t_def k'_def)
    moreover have "part_in a n N k'" using idx lt by (auto simp: part_in_def part_idx_def k'_def)
    ultimately have "\<exists>s'. part_loop cmp es st (el A es a) t = Some s' \<and> prel A es m0 s' (list_part_loop c a k') \<and> part_in a n N (list_part_loop c a k')"
      using "1.IH" [OF k_def _ 1(2,3)] False unfolding k'_def by blast
    moreover have "part_loop cmp es st (el A es a) s = part_loop cmp es st (el A es a) t"
      using False s1(1) s2(1) gt by (subst part_loop.simps) (simp add: t_def)
    moreover have "list_part_loop c a l = list_part_loop c a k'"
      using False by (subst list_part_loop.simps) (simp add: k_def [symmetric] k'_def Let_def)
    ultimately show ?thesis by simp
  qed
qed

text \<open>The parts that a round leaves, with sizes in elements and in bytes.\<close>

definition parts_rel :: "addr \<Rightarrow> nat \<Rightarrow> nat \<Rightarrow> nat \<Rightarrow> ((addr \<times> nat) \<times> addr \<times> nat) option \<Rightarrow> ((nat \<times> nat) \<times> nat \<times> nat) option \<Rightarrow> bool" where
  "parts_rel A es a n res lres \<longleftrightarrow> (case lres of None \<Rightarrow> res = None
     | Some ((pa, r), a', n') \<Rightarrow> res = Some ((el A es pa, r * es), el A es a', n' * es) \<and> pa + r \<le> a + n \<and> a' + n' \<le> a + n)"

lemma min_mult: "min (x * es) (y * es) = min x y * es" for es :: nat
  by (cases "x \<le> y") (auto simp: min_def)

lemma mult_pred: "x * es - es = (x - 1) * es" for es :: nat
  by (simp add: diff_mult_distrib)

lemma length_ins_sort [simp]: "length (list_ins_sort c a n pm xs) = length xs"
  by (induction c a n pm xs rule: list_ins_sort.induct) (subst list_ins_sort.simps, simp)

lemma qs_step_refines:
  assumes "compares c es cmp" "sortable es st (length xs)" "array_at A es m0 xs m" "a + n \<le> length xs"
  shows "\<exists>m' res. qs_step cmp es st (el A es a) n m = Some (m', res) \<and> array_at A es m0 (fst (list_qs_step c a n xs)) m' \<and>
    length (fst (list_qs_step c a n xs)) = length xs \<and> parts_rel A es a n res (snd (list_qs_step c a n xs))"
proof (cases "n < 7")
  case True
  then show ?thesis using ins_sort_refines [OF assms, of "Suc a"] by (auto simp: qs_step_def list_qs_step_def parts_rel_def)
next
  case False
  then have n7: "7 \<le> n" by simp
  define ys where "ys = list_swap a (list_pivot c a n xs) xs"
  define m1 where "m1 = swap es st (el A es a) (pivot cmp es (el A es a) n m) m"
  define l0 where "l0 = \<lparr>l_arr = ys, l_pa = a + 1, l_pb = a + 1, l_pc = a + (n - 1), l_pd = a + (n - 1), l_swap = False\<rparr>"
  define l where "l = list_part_loop c a l0"
  define s0 where "s0 = \<lparr>p_mem = m1, p_pa = el A es a + es, p_pb = el A es a + es, p_pc = el A es a + (n - 1) * es,
    p_pd = el A es a + (n - 1) * es, swap_cnt = False\<rparr>"
  have m1: "array_at A es m0 ys m1"
    unfolding m1_def ys_def pivot_refines [OF assms(1,3) n7 assms(4)]
    using pivot_in [OF n7, of a c xs] assms by (intro swap_refines) auto
  have ly: "length ys = length xs" by (simp add: ys_def)
  have "prel A es m0 s0 l0" "part_in a n (length xs) l0"
    using m1 n7 assms(4) ly by (auto simp: prel_def part_in_def part_idx_def s0_def l0_def el_add)
  then obtain s where s: "part_loop cmp es st (el A es a) s0 = Some s" "prel A es m0 s l" "part_in a n (length xs) l"
    using part_loop_refines [OF assms(1,2)] unfolding l_def by blast
  have la: "length (l_arr l) = length xs" and ix: "a < l_pa l" "l_pa l \<le> l_pb l" "l_pb l \<le> l_pc l + 1" "l_pc l \<le> l_pd l" "l_pd l < a + n"
    using s(3) by (auto simp: part_in_def part_idx_def)
  have ps: "p_pa s = el A es (l_pa l)" "p_pb s = el A es (l_pb l)" "p_pc s = el A es (l_pc l)" "p_pd s = el A es (l_pd l)"
    "swap_cnt s = l_swap l" "array_at A es m0 (l_arr l) (p_mem s)" using s(2) by (simp_all add: prel_def)
  note code = qs_step_def [of cmp es st "el A es a" n m, folded m1_def, unfolded Let_def, folded s0_def, unfolded s(1) Option.bind_lunit ps(1-5)]
  note lcode = list_qs_step_def [of c a n xs, unfolded Let_def, folded ys_def, folded l0_def, folded l_def]
  have so: "sortable es st (length (l_arr l))" using assms(2) la by simp
  show ?thesis
  proof (cases "l_swap l")
    case sw: False
    then show ?thesis using code lcode False ins_sort_refines [OF assms(1) so ps(6), of a n "Suc a"] la assms(4) by (auto simp: parts_rel_def)
  next
    case True
    define r1 where "r1 = min (l_pa l - a) (l_pb l - l_pa l)"
    define r2 where "r2 = min (l_pd l - l_pc l) (a + n - l_pd l - 1)"
    define zs where "zs = list_vecswap a (l_pb l - r1) r1 (l_arr l)"
    have r1: "a + r1 \<le> l_pb l - r1" "l_pb l - r1 + r1 \<le> length (l_arr l)" "r1 \<le> l_pb l" using ix la assms(4) by (auto simp: r1_def)
    have r2: "l_pb l + r2 \<le> a + n - r2" "a + n - r2 + r2 \<le> length zs" "r2 \<le> a + n"
      using ix la assms(4) vecswap_nth(1) [OF r1(1,2)] by (auto simp: r2_def zs_def)
    have lz: "length zs = length xs" using vecswap_nth(1) [OF r1(1,2)] la by (simp add: zs_def)
    have z: "array_at A es m0 zs (vecswap st (el A es a) (el A es (l_pb l - r1)) (r1 * es) (p_mem s))"
      unfolding zs_def using so ps(6) r1(1,2) by (rule vecswap_refines)
    have z2: "array_at A es m0 (list_vecswap (l_pb l) (a + n - r2) r2 zs) (vecswap st (el A es (l_pb l)) (el A es (a + n - r2)) (r2 * es)
        (vecswap st (el A es a) (el A es (l_pb l - r1)) (r1 * es) (p_mem s)))"
      using assms(2) lz by (intro vecswap_refines [OF _ z r2(1,2)]) simp
    have b: "min (el A es (l_pa l) - el A es a) (el A es (l_pb l) - el A es (l_pa l)) = r1 * es"
      "min (el A es (l_pd l) - el A es (l_pc l)) (el A es a + n * es - el A es (l_pd l) - es) = r2 * es"
      unfolding el_add el_diff mult_pred min_mult r1_def r2_def by simp_all
    have e: "el A es (l_pb l) - r1 * es = el A es (l_pb l - r1)" "el A es a + n * es - r2 * es = el A es (a + n - r2)"
      "el A es a + n * es - (el A es (l_pd l) - el A es (l_pc l)) = el A es (a + n - (l_pd l - l_pc l))"
      using r1(3) r2(3) ix by (simp_all add: el_add el_sub)
    have "length (list_vecswap (l_pb l) (a + n - r2) r2 zs) = length xs" using vecswap_nth(1) [OF r2(1,2)] lz by simp
    then show ?thesis using False True assms(2) ix z2
      unfolding code lcode b e r1_def [symmetric] r2_def [symmetric] zs_def [symmetric] by (simp add: parts_rel_def)
  qed
qed

text \<open>The stack of ranges on memory.\<close>

abbreviation at_addr :: "addr \<Rightarrow> nat \<Rightarrow> (nat \<times> nat) list \<Rightarrow> ranges" where
  "at_addr A es st \<equiv> map (\<lambda>(b, k). (el A es b, k)) st"

lemma qsort_loop_refines:
  assumes "compares c es cmp" "sortable es sw (length xs)" "array_at A es m0 xs m" "\<forall>(b, k) \<in> set ((a, n) # st). b + k \<le> length xs"
  shows "\<exists>m'. qsort_loop cmp es sw (at_addr A es st, el A es a, n) m = Some m' \<and>
    array_at A es m0 (list_qsort_loop c st a n xs) m' \<and> length (list_qsort_loop c st a n xs) = length xs"
  using assms
proof (induction "2 * n + 1 + (\<Sum>(b, k) \<leftarrow> st. 2 * k + 1)" arbitrary: sw st a n xs m rule: less_induct)
  case less
  have so: "sortable es sw' (length xs) \<longleftrightarrow> swaptype_ok es sw'" for sw' using less.prems(2) by (auto simp: sortable_def)
  obtain ys lres where eq: "list_qs_step c a n xs = (ys, lres)" by fastforce
  have an: "a + n \<le> length xs" using less.prems(4) by simp
  obtain m1 res where q: "qs_step cmp es sw (el A es a) n m = Some (m1, res)" "array_at A es m0 ys m1" "length ys = length xs"
    "parts_rel A es a n res lres"
    using qs_step_refines [OF less.prems(1-3) an] eq by auto
  let ?pop = "\<lambda>zs. case st of [] \<Rightarrow> zs | (b, k) # st' \<Rightarrow> list_qsort_loop c st' b k zs"
  let ?cpop = "\<lambda>m. case pop (at_addr A es st) of None \<Rightarrow> Some m | Some v' \<Rightarrow> qsort_loop cmp es sw v' m"
  have pop: "\<exists>m'. ?cpop m2 = Some m' \<and> array_at A es m0 (?pop zs) m' \<and> length (?pop zs) = length xs"
    if "array_at A es m0 zs m2" "length zs = length xs" for zs m2
  proof (cases st)
    case (Cons y st')
    then show ?thesis using less.hyps [of "snd y" st' sw zs m2 "fst y"] less.prems that by (cases y) (auto simp: pop_def)
  qed (use that in \<open>simp add: pop_def\<close>)
  show ?case
  proof (cases lres)
    case None
    then have "qsort_loop cmp es sw (at_addr A es st, el A es a, n) m = ?cpop m1" "list_qsort_loop c st a n xs = ?pop ys"
      using q(1,4) eq by (subst qsort_loop.simps list_qsort_loop.simps; simp add: parts_rel_def)+
    then show ?thesis using pop [OF q(2,3)] by simp
  next
    case (Some parts)
    obtain pa r a' n' where parts: "parts = ((pa, r), a', n')" by (metis surj_pair)
    have res: "res = Some ((el A es pa, r * es), el A es a', n' * es)" and b: "pa + r \<le> a + n" "a' + n' \<le> a + n"
      using q(4) by (simp_all add: parts_rel_def Some parts)
    have m: "r + n' < n" using qs_step_size [of c a n xs ys pa r a' n'] eq Some parts by simp
    have es: "0 < es" using less.prems(2) by simp
    then have gt: "r * es > es \<longleftrightarrow> r > 1" "n' * es > es \<longleftrightarrow> n' > 1" by simp_all
    note code = qsort_loop.simps [of cmp es sw "(at_addr A es st, el A es a, n)" m, unfolded prod.case q(1) option.case res gt]
    note lcode = list_qsort_loop.simps [of c st a n xs, unfolded eq prod.case Some option.case parts]
    show ?thesis
    proof (cases "r > 1 \<and> length st < PARAMETER_STACK_LEVELS")
      case True
      have "\<exists>m'. qsort_loop cmp es sw (at_addr A es ((a', n') # st), el A es pa, r) m1 = Some m' \<and>
          array_at A es m0 (list_qsort_loop c ((a', n') # st) pa r ys) m' \<and> length (list_qsort_loop c ((a', n') # st) pa r ys) = length ys"
        using m b an less.prems q by (intro less.hyps) auto
      then show ?thesis using True es q(3) code lcode by simp
    next
      case False
      let ?z1 = "if r > 1 then list_qsort_loop c [] pa r ys else ys"
      let ?c1 = "if r > 1 then qsort_loop cmp es (SWAPINIT (el A es pa) es) ([], el A es pa, r) m1 else Some m1"
      have "\<exists>m'. qsort_loop cmp es (SWAPINIT (el A es pa) es) (at_addr A es [], el A es pa, r) m1 = Some m' \<and>
          array_at A es m0 (list_qsort_loop c [] pa r ys) m' \<and> length (list_qsort_loop c [] pa r ys) = length ys" if "r > 1"
        using that m b an less.prems q so SWAPINIT_ok by (intro less.hyps) auto
      then obtain m2 where m2: "?c1 = Some m2" "array_at A es m0 ?z1 m2" "length ?z1 = length xs" using q by (cases "r > 1") auto
      have "\<exists>m'. (case go_on es (at_addr A es st) (el A es a') (n' * es) of None \<Rightarrow> Some m2 | Some v' \<Rightarrow> qsort_loop cmp es sw v' m2) = Some m' \<and>
          array_at A es m0 (if n' > 1 then list_qsort_loop c st a' n' ?z1 else ?pop ?z1) m' \<and>
          length (if n' > 1 then list_qsort_loop c st a' n' ?z1 else ?pop ?z1) = length xs"
      proof (cases "n' > 1")
        case True
        have "\<exists>m'. qsort_loop cmp es sw (at_addr A es st, el A es a', n') m2 = Some m' \<and>
          array_at A es m0 (list_qsort_loop c st a' n' ?z1) m' \<and> length (list_qsort_loop c st a' n' ?z1) = length ?z1"
          using m b an less.prems m2(2,3) by (intro less.hyps) auto
        then show ?thesis using True gt(2) es m2(3) by (simp add: go_on_def)
      next
        case False
        then show ?thesis using gt(2) pop [OF m2(2,3)] by (simp add: go_on_def)
      qed
      moreover have "qsort_loop cmp es sw (at_addr A es st, el A es a, n) m =
          (case go_on es (at_addr A es st) (el A es a') (n' * es) of None \<Rightarrow> Some m2 | Some v' \<Rightarrow> qsort_loop cmp es sw v' m2)"
        using code [unfolded nonzero_mult_div_cancel_right [OF less_imp_neq [OF es, symmetric]] m2(1) Option.bind_lunit length_map] False
        by (simp only: if_False)
      moreover have "list_qsort_loop c st a n xs = (if n' > 1 then list_qsort_loop c st a' n' ?z1 else ?pop ?z1)"
        using lcode False by (simp only: if_False Let_def)
      ultimately show ?thesis by (simp only:)
    qed
  qed
qed

text \<open>The elements of an array in memory.\<close>

definition elems :: "mem \<Rightarrow> addr \<Rightarrow> nat \<Rightarrow> nat \<Rightarrow> byte list list" where
  "elems m a es n = map (\<lambda>i. bytes_of m (a + i * es) es) [0..<n]"

lemma length_elems [simp]: "length (elems m a es n) = n"
  by (simp add: elems_def)

lemma nth_elems: "i < n \<Longrightarrow> elems m a es n ! i = bytes_of m (el a es i) es"
  by (simp add: elems_def el_def)

lemma array_at_elems: "array_at a es m0 xs m \<Longrightarrow> elems m a es (length xs) = xs"
  by (rule nth_equalityI) (simp_all add: nth_elems array_at_def)

lemma elems_array_at: "array_at a es m (elems m a es n) m"
  by (simp add: array_at_def nth_elems)

lemma qsort_refines:
  assumes "compares c es cmp" "0 < es" "n * es < 2 ^ 31"
  shows "\<exists>m'. qsort a n es cmp m = Some m' \<and> elems m' a es n = list_qsort c 0 n (elems m a es n) \<and>
    (\<forall>p. p < a \<or> a + n * es \<le> p \<longrightarrow> m' p = m p)"
proof -
  have "sortable es (SWAPINIT a es) n" using assms(2,3) SWAPINIT_ok by (simp add: sortable_def)
  then obtain m' where q: "qsort_loop cmp es (SWAPINIT a es) ([], a, n) m = Some m'"
    "array_at a es m (list_qsort_loop c [] 0 n (elems m a es n)) m'" "length (list_qsort_loop c [] 0 n (elems m a es n)) = n"
    using qsort_loop_refines [OF assms(1), of "SWAPINIT a es" "elems m a es n" a m m 0 n "[]"] elems_array_at by (auto simp: el_def)
  have "elems m' a es n = list_qsort c 0 n (elems m a es n)" using array_at_elems [OF q(2)] q(3) by (simp add: list_qsort_def)
  moreover have "\<forall>p. p < a \<or> a + n * es \<le> p \<longrightarrow> m' p = m p" using q(2,3) by (simp add: array_at_def)
  ultimately show ?thesis using q(1) by (simp add: qsort_def)
qed

text \<open>
  C2: \<open>qsort\<close> sorts.  Given a comparison of the elements that is a total preorder, elements of at
  least one byte and an array of less than 2 GiB (the lengths that \<open>swapfunc\<close> takes are of type \<open>int\<close>),
  \<open>qsort\<close> returns; the \<open>n\<close> elements at \<open>a\<close> are then in order and the same elements as before,
  whatever their number, size, alignment and values; the rest of the memory is untouched.
\<close>
theorem qsort_sorts:
  assumes "compares c es cmp" "cmp_ok c" "0 < es" "n * es < 2 ^ 31"
  shows "\<exists>m'. qsort a n es cmp m = Some m' \<and> sorted_wrt (\<lambda>x y. c x y \<le> 0) (elems m' a es n) \<and>
    mset (elems m' a es n) = mset (elems m a es n) \<and> (\<forall>p. p < a \<or> a + n * es \<le> p \<longrightarrow> m' p = m p)"
proof -
  let ?xs = "elems m a es n"
  obtain m' where m': "qsort a n es cmp m = Some m'" "elems m' a es n = list_qsort c 0 n ?xs" "\<forall>p. p < a \<or> a + n * es \<le> p \<longrightarrow> m' p = m p"
    using qsort_refines [OF assms(1,3,4)] by blast
  have "sorts c {(0, n)} ?xs (elems m' a es n)" unfolding m'(2) using assms(2) by (intro qsort_sorts_range) simp_all
  then show ?thesis using m'(1,3) sorted_slice [of 0 n "elems m' a es n" c] by (auto simp: sorts_def slice_def)
qed

text \<open>A comparison of elements as little-endian numbers.\<close>

definition num_cmp :: "byte list cmp" where
  "num_cmp x y = int (le_val x) - int (le_val y)"

definition num_pcmp :: "nat \<Rightarrow> pcmp" where
  "num_pcmp es m p q = num_cmp (bytes_of m p es) (bytes_of m q es)"

lemma num_cmp_ok [simp]: "compares num_cmp es (num_pcmp es)" "cmp_ok num_cmp"
  by (auto simp: compares_def num_pcmp_def cmp_ok_def num_cmp_def)

theorem qsort_sorts_witness:
  "\<exists>m'. qsort 3 5 2 (num_pcmp 2) (wr (\<lambda>_. 0) 3 [9, 3, 8, 1, 3, 7, 0, 2, 5, 4]) = Some m' \<and> sorted_wrt (\<lambda>x y. num_cmp x y \<le> 0) (elems m' 3 2 5) \<and>
    mset (elems m' 3 2 5) = mset (elems (wr (\<lambda>_. 0) 3 [9, 3, 8, 1, 3, 7, 0, 2, 5, 4]) 3 2 5) \<and>
    (\<forall>p. p < 3 \<or> 3 + 5 * 2 \<le> p \<longrightarrow> m' p = wr (\<lambda>_. 0) 3 [9, 3, 8, 1, 3, 7, 0, 2, 5, 4] p)"
  by (rule qsort_sorts) simp_all

text \<open>The binary search on memory is that on the list of the elements.\<close>

lemma bsearch_loop_refines:
  assumes "compares c es cmp" "upper \<le> n"
  shows "bsearch_loop cmp key base es m lower upper =
    map_option (el base es) (list_bsearch_loop c (bytes_of m key es) (elems m base es n) lower upper)"
  using assms
proof (induction "upper - lower" arbitrary: lower upper rule: less_induct)
  case less
  show ?case
  proof (cases "lower < upper")
    case True
    define i where "i = (lower + upper) div 2"
    have i: "lower \<le> i" "i < upper" using True by (auto simp: i_def)
    have "cmp m key (base + i * es) = c (bytes_of m key es) (elems m base es n ! i)"
      using less.prems i by (simp add: compares_def nth_elems el_def)
    then show ?thesis using True less.hyps [of i lower] less.hyps [of upper "i + 1"] i less.prems
      by (subst bsearch_loop.simps, subst list_bsearch_loop.simps) (simp add: i_def [symmetric] Let_def el_def)
  next
    case False
    then show ?thesis by (subst bsearch_loop.simps, subst list_bsearch_loop.simps) simp
  qed
qed

text \<open>
  C34: \<open>bsearch\<close> on an array of less than 2 GiB sorted by \<open>qsort\<close> with the same comparison, a total
  preorder, finds an element that matches the key exactly when the array had one before it was sorted;
  the key lies outside the array.
\<close>
theorem bsearch_qsort:
  assumes "compares c es cmp" "cmp_ok c" "0 < es" "n * es < 2 ^ 31" "key + es \<le> a \<or> a + n * es \<le> key"
  shows "\<exists>m'. qsort a n es cmp m = Some m' \<and>
    (case bsearch key a n es cmp m' of
       Some p \<Rightarrow> (\<exists>i < n. p = a + i * es) \<and> cmp m' key p = 0
     | None \<Rightarrow> \<forall>x \<in> set (elems m a es n). c (bytes_of m key es) x \<noteq> 0)"
proof -
  let ?xs = "elems m a es n"
  obtain m' where m': "qsort a n es cmp m = Some m'" "elems m' a es n = list_qsort c 0 n ?xs" "\<forall>p. p < a \<or> a + n * es \<le> p \<longrightarrow> m' p = m p"
    using qsort_refines [OF assms(1,3,4)] by blast
  have so: "sorts c {(0, n)} ?xs (elems m' a es n)" unfolding m'(2) using assms(2) by (intro qsort_sorts_range) simp_all
  then have ord: "ordered c 0 n (elems m' a es n)" and "mset (elems m' a es n) = mset ?xs" by (auto simp: sorts_def slice_def)
  then have st: "set ?xs = set (elems m' a es n)" by (metis set_mset_mset)
  have k: "bytes_of m' key es = bytes_of m key es" using m'(3) assms(5) by (auto simp: list_eq_iff_nth_eq)
  have bs: "bsearch key a n es cmp m' = map_option (el a es) (list_bsearch_loop c (bytes_of m key es) (elems m' a es n) 0 n)"
    using assms(3) bsearch_loop_refines [OF assms(1) order_refl, of key a m' 0 n] k
    by (cases "n = 0") (simp_all add: bsearch_def list_bsearch_loop.simps)
  have cm: "cmp m' key (el a es i) = c (bytes_of m key es) (elems m' a es n ! i)" if "i < n" for i
    using assms(1) that k by (simp add: compares_def nth_elems)
  note ok = bsearch_loop_ok [OF assms(2), where xs = "elems m' a es n" and upper = n and key = "bytes_of m key es" and lower = 0]
  show ?thesis
  proof (cases "list_bsearch_loop c (bytes_of m key es) (elems m' a es n) 0 n")
    case None
    then have "\<forall>i < n. c (bytes_of m key es) (elems m' a es n ! i) \<noteq> 0" using ok ord by simp
    then have "\<forall>x \<in> set ?xs. c (bytes_of m key es) x \<noteq> 0" unfolding st by (metis in_set_conv_nth length_elems)
    then show ?thesis using m'(1) bs None by simp
  next
    case (Some i)
    then have "i < n" "c (bytes_of m key es) (elems m' a es n ! i) = 0" using ok ord by simp_all
    then show ?thesis using m'(1) bs Some cm [of i] by (auto simp: el_def)
  qed
qed

theorem bsearch_qsort_witness:
  "\<exists>m'. qsort 8 4 1 (num_pcmp 1) (wr (\<lambda>_. 7) 8 [9, 7, 1, 3]) = Some m' \<and>
    (case bsearch 2 8 4 1 (num_pcmp 1) m' of
       Some p \<Rightarrow> (\<exists>i < 4. p = 8 + i * 1) \<and> num_pcmp 1 m' 2 p = 0
     | None \<Rightarrow> \<forall>x \<in> set (elems (wr (\<lambda>_. 7) 8 [9, 7, 1, 3]) 8 1 4). num_cmp (bytes_of (wr (\<lambda>_. 7) 8 [9, 7, 1, 3]) 2 1) x \<noteq> 0)"
  by (rule bsearch_qsort) simp_all

end
