(* ===== verification/Newlib_Time.thy ===== *)
theory Newlib_Time
  imports Main "HOL-Library.Signed_Division" "HOL-Library.Monad_Syntax"
begin

text \<open>
  Calendar time of \<open>libc/time\<close>: \<open>gmtime_r\<close>, \<open>mktime\<close> with \<open>validate_structure\<close>,
  \<open>localtime_r\<close> and \<open>__tzcalc_limits\<close>, and \<open>div\<close> of \<open>libc/stdlib\<close>.

  \<open>sdiv\<close> and \<open>smod\<close> are the division of C, which truncates.  The fields of
  \<open>struct tm\<close> and the variables of type \<open>long\<close> and \<open>time_t\<close> are integers; the
  narrowing of a \<open>long\<close> to an \<open>int\<close> (\<open>int32\<close>) and the unsigned variables of
  \<open>gmtime_r\<close> (\<open>mod\<close>) are written out.  The time zone, which
  \<open>_tzset_unlocked\<close> reads from the environment, is an argument.  \<open>None\<close> stands for
  an access outside the tables of the months, and for the overflow of an \<open>int\<close> (\<open>cint\<close>) in the fields that
  \<open>mktime\<close> brings into range.
\<close>

definition int32 :: "int \<Rightarrow> int" where
  "int32 x = (x + 2 ^ 31) mod 2 ^ 32 - 2 ^ 31"

lemma int32_id: "- (2 ^ 31) \<le> x \<Longrightarrow> x < 2 ^ 31 \<Longrightarrow> int32 x = x"
  by (simp add: int32_def)

definition cint :: "int \<Rightarrow> int option" where
  "cint x = (if - (2 ^ 31) \<le> x \<and> x < 2 ^ 31 then Some x else None)"

lemma cint_id: "- (2 ^ 31) \<le> x \<Longrightarrow> x < 2 ^ 31 \<Longrightarrow> cint x = Some x"
  by (simp add: cint_def)

record tm =
  tm_sec :: int
  tm_min :: int
  tm_hour :: int
  tm_mday :: int
  tm_mon :: int
  tm_year :: int
  tm_wday :: int
  tm_yday :: int
  tm_isdst :: int

definition SECSPERMIN :: int where "SECSPERMIN = 60"
definition SECSPERHOUR :: int where "SECSPERHOUR = 3600"
definition SECSPERDAY :: int where "SECSPERDAY = 86400"
definition YEAR_BASE :: int where "YEAR_BASE = 1900"

definition isleap :: "int \<Rightarrow> bool" where
  "isleap y \<longleftrightarrow> (y smod 4 = 0 \<and> y smod 100 \<noteq> 0) \<or> y smod 400 = 0"

lemmas time_consts = SECSPERMIN_def SECSPERHOUR_def SECSPERDAY_def YEAR_BASE_def

section \<open>From seconds to a date\<close>

definition gmtime_r :: "int \<Rightarrow> tm" where
  "gmtime_r lcltime =
     (let days = lcltime sdiv SECSPERDAY + 719468;
          rem = lcltime smod SECSPERDAY;
          (rem, days) = (if rem < 0 then (rem + SECSPERDAY, days - 1) else (rem, days));
          hour = rem sdiv SECSPERHOUR;
          rem = rem smod SECSPERHOUR;
          mi = rem sdiv SECSPERMIN;
          sec = rem smod SECSPERMIN;
          weekday = (3 + days) smod 7;
          weekday = (if weekday < 0 then weekday + 7 else weekday);
          era = int32 ((if days \<ge> 0 then days else days - (146097 - 1)) sdiv 146097);
          eraday = (days - era * 146097) mod 2 ^ 64;
          erayear = (eraday - eraday div 1460 + eraday div 36524 - eraday div (146097 - 1)) div 365 mod 2 ^ 32;
          yearday = (eraday - (365 * erayear + erayear div 4 - erayear div 100)) mod 2 ^ 32;
          month = (5 * yearday + 2) div 153;
          day = yearday - (153 * month + 2) div 5 + 1;
          month = month + (if month < 10 then 2 else -10);
          year = int32 (0 + erayear + era * 400 + of_bool (month \<le> 1))
      in \<lparr>tm_sec = sec, tm_min = mi, tm_hour = hour, tm_mday = day, tm_mon = month, tm_year = year - YEAR_BASE,
          tm_wday = weekday,
          tm_yday = (if yearday \<ge> 365 - 31 - 28 then yearday - (365 - 31 - 28)
                     else yearday + 31 + 28 + of_bool (isleap erayear)),
          tm_isdst = 0\<rparr>)"

section \<open>From a date to seconds\<close>

record div_t =
  quot :: int
  rem :: int

definition div_int :: "int \<Rightarrow> int \<Rightarrow> div_t" where
  "div_int num denom =
     (let r = \<lparr>quot = num sdiv denom, rem = num smod denom\<rparr>
      in if num \<ge> 0 \<and> rem r < 0 then \<lparr>quot = quot r + 1, rem = rem r - denom\<rparr>
         else if num < 0 \<and> rem r > 0 then \<lparr>quot = quot r - 1, rem = rem r + denom\<rparr>
         else r)"

definition DAYS_IN_MONTH :: "int list" where
  "DAYS_IN_MONTH = [31, 28, 31, 30, 31, 30, 31, 31, 30, 31, 30, 31]"

definition DAYS_BEFORE_MONTH :: "int list" where
  "DAYS_BEFORE_MONTH = [0, 31, 59, 90, 120, 151, 181, 212, 243, 273, 304, 334]"

text \<open>An access to one of the tables.\<close>

definition tab :: "int list \<Rightarrow> int \<Rightarrow> int option" where
  "tab t i = (if 0 \<le> i \<and> nat i < length t then Some (t ! nat i) else None)"

definition days_in_month :: "int \<Rightarrow> int \<Rightarrow> int option" where
  "days_in_month days_in_feb x = (if x = 1 then Some days_in_feb else tab DAYS_IN_MONTH x)"

definition ISLEAP :: "int \<Rightarrow> bool option" where
  "ISLEAP y =
     (if y smod 4 \<noteq> 0 then Some False else if y smod 100 \<noteq> 0 then Some True
      else map_option (\<lambda>z. z smod 400 = 0) (cint (y + 1900)))"

definition DAYS_IN_YEAR :: "int \<Rightarrow> int option" where
  "DAYS_IN_YEAR y = map_option (\<lambda>leap. if leap then 366 else 365) (ISLEAP y)"

definition feb_of :: "int \<Rightarrow> int option" where
  "feb_of y = map_option (\<lambda>n. if n = 366 then 29 else 28) (DAYS_IN_YEAR y)"

text \<open>The bodies of the two loops that bring the day of the month into range; \<open>feb\<close> is \<open>days_in_feb\<close>.\<close>

definition prev_month :: "int \<Rightarrow> tm \<Rightarrow> (int \<times> tm) option" where
  "prev_month feb t = do {
     let mon = tm_mon t - 1;
     (feb, t) \<leftarrow> (if mon = -1 then do { y \<leftarrow> cint (tm_year t - 1); feb \<leftarrow> feb_of y; Some (feb, t\<lparr>tm_year := y, tm_mon := 11\<rparr>) }
                  else Some (feb, t\<lparr>tm_mon := mon\<rparr>));
     n \<leftarrow> days_in_month feb (tm_mon t);
     d \<leftarrow> cint (tm_mday t + n);
     Some (feb, t\<lparr>tm_mday := d\<rparr>)
   }"

definition next_month :: "int \<Rightarrow> int \<Rightarrow> tm \<Rightarrow> (int \<times> tm) option" where
  "next_month feb n t = do {
     d \<leftarrow> cint (tm_mday t - n);
     let mon = tm_mon t + 1;
     let t = t\<lparr>tm_mday := d, tm_mon := mon\<rparr>;
     if mon = 12 then do { y \<leftarrow> cint (tm_year t + 1); feb \<leftarrow> feb_of y; Some (feb, t\<lparr>tm_year := y, tm_mon := 0\<rparr>) }
     else Some (feb, t)
   }"

partial_function (option) mday_down :: "int \<Rightarrow> tm \<Rightarrow> tm option" where
  "mday_down feb t =
     (if tm_mday t \<le> 0 then Option.bind (prev_month feb t) (\<lambda>r. mday_down (fst r) (snd r)) else Some t)"

partial_function (option) mday_up :: "int \<Rightarrow> tm \<Rightarrow> tm option" where
  "mday_up feb t =
     Option.bind (days_in_month feb (tm_mon t)) (\<lambda>n.
       if tm_mday t > n then Option.bind (next_month feb n t) (\<lambda>r. mday_up (fst r) (snd r)) else Some t)"

text \<open>One of the four steps that carry a field into the next one.\<close>

definition carry :: "int \<Rightarrow> int \<Rightarrow> int \<Rightarrow> (int \<times> int) option" where
  "carry n x y =
     (if x < 0 \<or> x > n - 1 then do {
        let res = div_int x n;
        y \<leftarrow> cint (y + quot res);
        if rem res < 0 then do { y \<leftarrow> cint (y - 1); Some (rem res + n, y) } else Some (rem res, y)
      }
      else Some (x, y))"

definition validate_structure :: "tm \<Rightarrow> tm option" where
  "validate_structure t = do {
     (s, mi) \<leftarrow> carry 60 (tm_sec t) (tm_min t);
     (mi, h) \<leftarrow> carry 60 mi (tm_hour t);
     (h, d) \<leftarrow> carry 24 h (tm_mday t);
     (mo, y) \<leftarrow> carry 12 (tm_mon t) (tm_year t);
     let t = t\<lparr>tm_sec := s, tm_min := mi, tm_hour := h, tm_mday := d, tm_mon := mo, tm_year := y\<rparr>;
     feb \<leftarrow> feb_of y;
     if tm_mday t \<le> 0 then mday_down feb t else mday_up feb t
   }"

section \<open>The time zone\<close>

record tzrule =
  r_ch :: char
  r_m :: int
  r_n :: int
  r_d :: int
  r_s :: int
  r_change :: int
  r_offset :: int

text \<open>\<open>__tzinfo_type\<close>, with the global \<open>_daylight\<close>; the two rules are separate fields.\<close>

record tzinfo =
  tznorth :: bool
  tzyear :: int
  tzrule0 :: tzrule
  tzrule1 :: tzrule
  tzdaylight :: bool

definition month_lengths :: "bool \<Rightarrow> int list" where
  "month_lengths leap = (if leap then [31, 29, 31, 30, 31, 30, 31, 31, 30, 31, 30, 31]
     else [31, 28, 31, 30, 31, 30, 31, 31, 30, 31, 30, 31])"

text \<open>
  The two loops of the rule for a month: the days of the months before, and the
  last week that fits (a month is longer than 0 days, so that \<open>m_day\<close> is positive
  whenever the second loop goes on).
\<close>

fun sum_months :: "int list \<Rightarrow> nat \<Rightarrow> int option" where
  "sum_months ip 0 = Some 0"
| "sum_months ip (Suc k) = do { s \<leftarrow> sum_months ip k; n \<leftarrow> tab ip (int k); Some (s + n) }"

function last_week :: "int \<Rightarrow> int \<Rightarrow> int" where
  "last_week len m_day = (if m_day \<ge> len \<and> m_day \<ge> 0 then last_week len (m_day - 7) else m_day)"
  by pat_completeness auto
termination by (relation "measure (\<lambda>(len, m_day). nat (m_day + 7))") auto

declare last_week.simps [simp del]

definition rule_days :: "int \<Rightarrow> int \<Rightarrow> tzrule \<Rightarrow> int option" where
  "rule_days year year_days r =
     (if r_ch r = CHR ''J'' then Some (year_days + r_d r + of_bool (isleap year \<and> r_d r \<ge> 60) - 1)
      else if r_ch r = CHR ''D'' then Some (year_days + r_d r)
      else do {
        let ip = month_lengths (isleap year);
        s \<leftarrow> sum_months ip (nat (r_m r - 1));
        let days = year_days + s;
        let m_wday = (4 + days) smod 7;
        let wday_diff = r_d r - m_wday;
        let wday_diff = (if wday_diff < 0 then wday_diff + 7 else wday_diff);
        let m_day = (r_n r - 1) * 7 + wday_diff;
        len \<leftarrow> tab ip (int (nat (r_m r - 1)));
        Some (days + last_week len m_day)
      })"

definition tzcalc_limits :: "int \<Rightarrow> tzinfo \<Rightarrow> (bool \<times> tzinfo) option" where
  "tzcalc_limits year tz =
     (if year < 1970 then Some (False, tz)
      else do {
        let tz = tz\<lparr>tzyear := year\<rparr>;
        let years = year - 1970;
        let year_days = years * 365 + (years - 1 + 2) sdiv 4 - (years - 1 + 70) sdiv 100 + (years - 1 + 370) sdiv 400;
        d0 \<leftarrow> rule_days year year_days (tzrule0 tz);
        let r0 = (tzrule0 tz)\<lparr>r_change := d0 * SECSPERDAY + r_s (tzrule0 tz) + r_offset (tzrule0 tz)\<rparr>;
        d1 \<leftarrow> rule_days year year_days (tzrule1 tz);
        let r1 = (tzrule1 tz)\<lparr>r_change := d1 * SECSPERDAY + r_s (tzrule1 tz) + r_offset (tzrule1 tz)\<rparr>;
        Some (True, tz\<lparr>tzrule0 := r0, tzrule1 := r1, tznorth := r_change r0 < r_change r1\<rparr>)
      })"

section \<open>\<open>mktime\<close> and \<open>localtime_r\<close>\<close>

text \<open>The days of the years before: the two loops over \<open>year\<close>, from 70 up and from 69 down.\<close>

function years_up :: "int \<Rightarrow> int \<Rightarrow> int \<Rightarrow> int option" where
  "years_up year goal days =
     (if year < goal then (case DAYS_IN_YEAR year of None \<Rightarrow> None | Some n \<Rightarrow> years_up (year + 1) goal (days + n)) else Some days)"
  by pat_completeness auto
termination by (relation "measure (\<lambda>(year, goal, days). nat (goal - year))") auto

function years_down :: "int \<Rightarrow> int \<Rightarrow> int \<Rightarrow> int option" where
  "years_down year goal days =
     (case DAYS_IN_YEAR year of None \<Rightarrow> None
      | Some n \<Rightarrow> if year > goal then years_down (year - 1) goal (days - n) else Some (days - n))"
  by pat_completeness auto
termination by (relation "measure (\<lambda>(year, goal, days). nat (year - goal))") auto

declare years_up.simps [simp del] years_down.simps [simp del]

text \<open>
  The correction when the caller was wrong about daylight saving time.  \<open>isdst\<close> and
  \<open>tm_isdst\<close> are 0 or 1 here, so that \<open>(isdst ^ tm_isdst) == 1\<close> says they differ.
\<close>

definition dst_correct :: "tzinfo \<Rightarrow> bool \<Rightarrow> tm \<Rightarrow> int \<Rightarrow> int \<Rightarrow> (tm \<times> int \<times> int) option" where
  "dst_correct tz isdst t tim days =
     do {
       let year = tm_year t;
       let diff = int32 (r_offset (tzrule0 tz) - r_offset (tzrule1 tz));
       diff \<leftarrow> (if \<not> isdst then cint (- diff) else Some diff);
       sec \<leftarrow> cint (tm_sec t + diff);
       let t = t\<lparr>tm_sec := sec\<rparr>;
       let tim = tim + diff;
       let mday = tm_mday t;
       t \<leftarrow> validate_structure t;
       let mday = tm_mday t - mday;
       if mday \<noteq> 0 then do {
         let mday = (if mday > 1 then -1 else if mday < -1 then 1 else mday);
         let days = days + mday;
         let t = t\<lparr>tm_yday := tm_yday t + mday\<rparr>;
         n \<leftarrow> DAYS_IN_YEAR (if tm_yday t < 0 then year - 1 else year);
         let t = (if tm_yday t < 0 then t\<lparr>tm_yday := n - 1\<rparr>
                  else if tm_yday t > n - 1 then t\<lparr>tm_yday := tm_yday t - n\<rparr> else t);
         Some (t, tim, days)
       }
       else Some (t, tim, days)
     }"

text \<open>The flag, the date, the seconds and the days after the part of \<open>mktime\<close> under \<open>_daylight\<close>.\<close>

definition mktime_dst :: "tzinfo \<Rightarrow> tm \<Rightarrow> int \<Rightarrow> int \<Rightarrow> (int \<times> tm \<times> int \<times> int \<times> tzinfo) option" where
  "mktime_dst tz t tim days =
     (if tzdaylight tz then do {
        let y = tm_year t + YEAR_BASE;
        let flag = (if tm_isdst t > 0 then 1 else tm_isdst t);
        (ok, tz) \<leftarrow> (if y = tzyear tz then Some (True, tz) else tzcalc_limits y tz);
        if ok then
          let startdst_dst = r_change (tzrule0 tz) - r_offset (tzrule1 tz);
              startstd_dst = r_change (tzrule1 tz) - r_offset (tzrule1 tz);
              startstd_std = r_change (tzrule1 tz) - r_offset (tzrule0 tz)
          in if tim \<ge> startstd_std \<and> tim < startstd_dst then Some (flag, t, tim, days, tz)
             else
               let isdst = (if tznorth tz then tim \<ge> startdst_dst \<and> tim < startstd_std
                            else tim \<ge> startdst_dst \<or> tim < startstd_std)
               in if flag \<ge> 0 \<and> of_bool isdst \<noteq> flag
                  then do { (t, tim, days) \<leftarrow> dst_correct tz isdst t tim days; Some (of_bool isdst, t, tim, days, tz) }
                  else Some (of_bool isdst, t, tim, days, tz)
        else Some (flag, t, tim, days, tz)
      }
      else Some (0, t, tim, days, tz))"

definition mktime :: "tzinfo \<Rightarrow> tm \<Rightarrow> (int \<times> tm \<times> tzinfo) option" where
  "mktime tz t = do {
     t \<leftarrow> validate_structure t;
     let tim = tm_sec t + tm_min t * 60 + tm_hour t * 3600;
     before \<leftarrow> tab DAYS_BEFORE_MONTH (tm_mon t);
     let days = tm_mday t - 1 + before;
     days \<leftarrow> (if tm_mon t > 1 then map_option (\<lambda>n. if n = 366 then days + 1 else days) (DAYS_IN_YEAR (tm_year t)) else Some days);
     let t = t\<lparr>tm_yday := days\<rparr>;
     if tm_year t > 10000 \<or> tm_year t < -10000 then Some (-1, t, tz)
     else do {
       days \<leftarrow> (if tm_year t > 70 then years_up 70 (tm_year t) days
                else if tm_year t < 70 then years_down 69 (tm_year t) days else Some days);
       let tim = tim + days * 86400;
       (isdst, t, tim, days, tz) \<leftarrow> mktime_dst tz t tim days;
       let tim = tim + (if isdst = 1 then r_offset (tzrule1 tz) else r_offset (tzrule0 tz));
       let wday = (days + 4) smod 7;
       Some (tim, t\<lparr>tm_isdst := isdst, tm_wday := if wday < 0 then wday + 7 else wday\<rparr>, tz)
     }
   }"

definition localtime_dst :: "tzinfo \<Rightarrow> int \<Rightarrow> int \<Rightarrow> (int \<times> tzinfo) option" where
  "localtime_dst tz year tim =
     (if tzdaylight tz then do {
        (ok, tz) \<leftarrow> (if year = tzyear tz then Some (True, tz) else tzcalc_limits year tz);
        Some (if ok then
                of_bool (if tznorth tz then tim \<ge> r_change (tzrule0 tz) \<and> tim < r_change (tzrule1 tz)
                         else tim \<ge> r_change (tzrule0 tz) \<or> tim < r_change (tzrule1 tz))
              else -1, tz)
      }
      else Some (0, tz))"

definition next_day :: "int list \<Rightarrow> tm \<Rightarrow> tm option" where
  "next_day ip t = do {
     let t = t\<lparr>tm_yday := tm_yday t + 1, tm_wday := (if tm_wday t + 1 > 6 then 0 else tm_wday t + 1),
               tm_mday := tm_mday t + 1, tm_hour := tm_hour t - 24\<rparr>;
     n \<leftarrow> tab ip (tm_mon t);
     Some (if tm_mday t > n then
             let t = t\<lparr>tm_mday := tm_mday t - n, tm_mon := tm_mon t + 1\<rparr>
             in if tm_mon t = 12 then t\<lparr>tm_mon := 0, tm_year := tm_year t + 1, tm_yday := 0\<rparr> else t
           else t)
   }"

definition prev_day :: "int list \<Rightarrow> tm \<Rightarrow> tm option" where
  "prev_day ip t = do {
     let t = t\<lparr>tm_yday := tm_yday t - 1, tm_wday := (if tm_wday t - 1 < 0 then 6 else tm_wday t - 1),
               tm_mday := tm_mday t - 1, tm_hour := tm_hour t + 24\<rparr>;
     if tm_mday t = 0 then do {
       let t = t\<lparr>tm_mon := tm_mon t - 1\<rparr>;
       let t = (if tm_mon t < 0 then
                  t\<lparr>tm_mon := 11, tm_year := tm_year t - 1, tm_yday := 364 + of_bool (isleap (tm_year t - 1 + YEAR_BASE))\<rparr>
                else t);
       n \<leftarrow> tab ip (tm_mon t);
       Some (t\<lparr>tm_mday := n\<rparr>)
     }
     else Some t
   }"

definition localtime_r :: "tzinfo \<Rightarrow> int \<Rightarrow> (tm \<times> tzinfo) option" where
  "localtime_r tz tim = do {
     let t = gmtime_r tim;
     let year = tm_year t + YEAR_BASE;
     let ip = month_lengths (isleap year);
     (isdst, tz) \<leftarrow> localtime_dst tz year tim;
     let offset = (if isdst = 1 then r_offset (tzrule1 tz) else r_offset (tzrule0 tz));
     let hours = int32 (offset sdiv SECSPERHOUR);
     let offset = offset smod SECSPERHOUR;
     let mins = int32 (offset sdiv SECSPERMIN);
     let secs = int32 (offset smod SECSPERMIN);
     let s = tm_sec t - secs;
     let mi = tm_min t - mins;
     let h = tm_hour t - hours;
     let (s, mi) = (if s \<ge> 60 then (s - 60, mi + 1) else if s < 0 then (s + 60, mi - 1) else (s, mi));
     let (mi, h) = (if mi \<ge> 60 then (mi - 60, h + 1) else if mi < 0 then (mi + 60, h - 1) else (mi, h));
     let t = t\<lparr>tm_isdst := isdst, tm_sec := s, tm_min := mi, tm_hour := h\<rparr>;
     t \<leftarrow> (if tm_hour t \<ge> 24 then next_day ip t else if tm_hour t < 0 then prev_day ip t else Some t);
     Some (t, tz)
   }"

section \<open>The calendar\<close>

text \<open>The Gregorian calendar, extended to all years; days count from 1970-01-01.\<close>

definition leap_year :: "int \<Rightarrow> bool" where
  "leap_year y \<longleftrightarrow> (4 dvd y \<and> \<not> 100 dvd y) \<or> 400 dvd y"

definition leaps :: "int \<Rightarrow> int" where
  "leaps y = (y - 1) div 4 - (y - 1) div 100 + (y - 1) div 400"

definition jan1 :: "int \<Rightarrow> int" where
  "jan1 y = 365 * (y - 1970) + leaps y - leaps 1970"

definition month_len :: "bool \<Rightarrow> int \<Rightarrow> int" where
  "month_len leap m = DAYS_IN_MONTH ! nat m + of_bool (leap \<and> m = 1)"

definition before_month :: "bool \<Rightarrow> int \<Rightarrow> int" where
  "before_month leap m = DAYS_BEFORE_MONTH ! nat m + of_bool (leap \<and> m > 1)"

definition day_number :: "int \<Rightarrow> int \<Rightarrow> int \<Rightarrow> int" where
  "day_number y m d = jan1 y + before_month (leap_year y) m + d - 1"

definition tm_valid :: "tm \<Rightarrow> bool" where
  "tm_valid t \<longleftrightarrow> 0 \<le> tm_sec t \<and> tm_sec t < 60 \<and> 0 \<le> tm_min t \<and> tm_min t < 60 \<and> 0 \<le> tm_hour t \<and> tm_hour t < 24 \<and>
     0 \<le> tm_mon t \<and> tm_mon t < 12 \<and> 1 \<le> tm_mday t \<and> tm_mday t \<le> month_len (leap_year (tm_year t + 1900)) (tm_mon t)"

definition tm_day :: "tm \<Rightarrow> int" where
  "tm_day t = day_number (tm_year t + 1900) (tm_mon t) (tm_mday t)"

definition tm_secs :: "tm \<Rightarrow> int" where
  "tm_secs t = 86400 * tm_day t + 3600 * tm_hour t + 60 * tm_min t + tm_sec t"

lemma euclid: "0 \<le> r \<Longrightarrow> r < n \<Longrightarrow> (n * q + r) div n = q \<and> (n * q + r) mod n = r" for n q r :: int
  by (simp add: div_pos_pos_trivial mod_pos_pos_trivial)

lemma div_step: "0 < n \<Longrightarrow> (e + 1) div n = e div n + of_bool (n dvd e + 1)" for e n :: int
proof -
  assume n: "0 < n"
  define q r where "q = e div n" and "r = e mod n"
  have e: "e = n * q + r" "0 \<le> r" "r < n" using n by (simp_all add: q_def r_def)
  show ?thesis
  proof (cases "r + 1 = n")
    case True
    then have "e + 1 = n * (q + 1)" using e(1) by (simp add: algebra_simps)
    then show ?thesis using n by (simp add: q_def)
  next
    case False
    then have "(n * q + (r + 1)) div n = q \<and> (n * q + (r + 1)) mod n = r + 1" using e(2,3) by (intro euclid) auto
    moreover have "e + 1 = n * q + (r + 1)" using e(1) by simp
    ultimately have "(e + 1) mod n = r + 1" "(e + 1) div n = q" by (simp_all only:)
    then show ?thesis using e(2) unfolding q_def [symmetric] dvd_eq_mod_eq_0 by simp
  qed
qed

lemma leaps_step: "leaps (y + 1) = leaps y + of_bool (leap_year y)"
proof -
  have d: "y div n = (y - 1) div n + of_bool (n dvd y)" if "0 < n" for n using div_step [OF that, of "y - 1"] by simp
  have dv: "100 dvd y \<Longrightarrow> 4 dvd y" "400 dvd y \<Longrightarrow> 100 dvd y" by (auto elim!: dvd_trans [rotated])
  show ?thesis using dv by (simp add: leaps_def leap_year_def d)
qed

lemma jan1_step: "jan1 (y + 1) = jan1 y + 365 + of_bool (leap_year y)"
  by (simp add: jan1_def leaps_step)

lemma jan1_march: "jan1 y + 59 + of_bool (leap_year y) = 365 * y + y div 4 - y div 100 + y div 400 - 719468"
  using leaps_step [of y] by (simp add: jan1_def leaps_def)

lemma smod_0_iff: "0 < n \<Longrightarrow> y smod n = 0 \<longleftrightarrow> n dvd y" for y n :: int
proof -
  assume "0 < n"
  then have "y mod n < n" by simp
  then show ?thesis by (auto simp: signed_modulo_int_eq_modulo_int dvd_eq_mod_eq_0)
qed

lemma isleap_iff: "isleap y = leap_year y"
  by (simp add: isleap_def leap_year_def smod_0_iff)

lemma ISLEAP_eq:
  assumes "- (2 ^ 31) \<le> y" "y < 2 ^ 31 - 1900"
  shows "ISLEAP y = Some (leap_year (y + 1900))"
proof -
  have c: "cint (y + 1900) = Some (y + 1900)" using assms by (intro cint_id) simp_all
  have "4 dvd y \<longleftrightarrow> 4 dvd y + 1900" "100 dvd y \<longleftrightarrow> 100 dvd y + 1900" by presburger+
  moreover have "400 dvd y + 1900 \<Longrightarrow> 4 dvd y + 1900" by presburger
  ultimately show ?thesis by (auto simp: ISLEAP_def leap_year_def smod_0_iff c)
qed

section \<open>\<open>gmtime_r\<close> is correct\<close>

lemma floor_adjust:
  fixes a n :: int
  assumes "0 < n"
  shows "(if a smod n < 0 then (a smod n + n, a sdiv n + c - 1) else (a smod n, a sdiv n + c)) = (a mod n, a div n + c)"
    and "(if a smod n < 0 then a smod n + n else a smod n) = a mod n"
  using assms pos_mod_sign [OF assms, of a] pos_mod_bound [OF assms, of a]
  by (auto simp: signed_divide_int_eq_divide_int signed_modulo_int_eq_modulo_int split: if_splits)

lemma era_floor: "0 < n \<Longrightarrow> (if 0 \<le> a then a else a - (n - 1)) sdiv n = a div n" for a n :: int
proof -
  assume n: "0 < n"
  show ?thesis
  proof (cases "0 \<le> a")
    case True
    then show ?thesis using n by (simp add: signed_divide_int_def sgn_if)
  next
    case False
    have "- ((n - 1 - a) div n) = a div n"
    proof -
      define q r where "q = a div n" and "r = a mod n"
      have e: "a = n * q + r" "0 \<le> r" "r < n" using n by (simp_all add: q_def r_def)
      have "n - 1 - a = n * (- q) + (n - 1 - r)" using e(1) by (simp add: algebra_simps)
      moreover have "(n * (- q) + (n - 1 - r)) div n = - q" using e(2,3) euclid [of "n - 1 - r" n "- q"] by simp
      ultimately have "(n - 1 - a) div n = - q" by (simp only:)
      then show ?thesis by (simp add: q_def)
    qed
    then show ?thesis using n False by (simp add: signed_divide_int_def sgn_if)
  qed
qed

text \<open>The day of the year, of a cycle of 400 years that starts in March, and the year it is in.\<close>

definition era_start :: "int \<Rightarrow> int" where
  "era_start y = 365 * y + y div 4 - y div 100"

definition era_est :: "int \<Rightarrow> int" where
  "era_est e = e - e div 1460 + e div 36524 - e div 146096"

lemma era_est_mono: "a \<le> b \<Longrightarrow> era_est a \<le> era_est b"
proof (induction b rule: int_ge_induct)
  case (step i)
  have "146096 dvd i + 1 \<Longrightarrow> 36524 dvd i + 1" by (auto elim!: dvd_trans [rotated])
  then have "era_est i \<le> era_est (i + 1)" by (auto simp: era_est_def div_step)
  then show ?case using step by simp
qed simp

lemma era_table: "list_all (\<lambda>y. era_est (era_start y) div 365 = y \<and> era_est (era_start (y + 1) - 1) div 365 = y) [0..399]"
  unfolding era_est_def era_start_def by code_simp

lemma era_bounds: "0 \<le> y \<Longrightarrow> y < 400 \<Longrightarrow> era_est (era_start y) div 365 = y \<and> era_est (era_start (y + 1) - 1) div 365 = y"
proof -
  assume "0 \<le> y" "y < 400"
  then have "y \<in> set [0..399]" by simp
  then show ?thesis using era_table by (simp only: list_all_iff)
qed

lemma era_len: "0 \<le> y \<Longrightarrow> y < 400 \<Longrightarrow>
  era_start (y + 1) + of_bool (y = 399) = era_start y + 365 + of_bool (leap_year (y + 1))"
proof -
  assume y: "0 \<le> y" "y < 400"
  have d400: "400 dvd y + 1 \<longleftrightarrow> y = 399" using y zdvd_imp_le [of 400 "y + 1"] by auto
  have "100 dvd y + 1 \<Longrightarrow> 4 dvd y + 1" by (auto elim!: dvd_trans [rotated])
  then show ?thesis using d400 by (auto simp: era_start_def div_step leap_year_def)
qed

lemma era_year:
  assumes "0 \<le> e" "e < 146097"
  defines "y \<equiv> era_est e div 365"
  shows "0 \<le> y" "y < 400" "era_start y \<le> e" "e < era_start y + 365 + of_bool (leap_year (y + 1))"
proof -
  have "era_est 0 \<le> era_est e" "era_est e \<le> era_est 146096" using assms(1,2) by (auto intro: era_est_mono)
  then have est: "0 \<le> era_est e" "era_est e \<le> 145999" by (simp_all add: era_est_def)
  show y0: "0 \<le> y" and y4: "y < 400" using est by (auto simp: y_def)
  show "era_start y \<le> e"
  proof (rule ccontr)
    assume a: "\<not> era_start y \<le> e"
    have y1: "0 \<le> y - 1" using a assms(1) y0 by (cases "y = 0") (auto simp: era_start_def)
    have "era_est e \<le> era_est (era_start (y - 1 + 1) - 1)" using a by (intro era_est_mono) simp
    then have "y \<le> era_est (era_start (y - 1 + 1) - 1) div 365" unfolding y_def by (intro zdiv_mono1) simp_all
    then show False using era_bounds [OF y1] y4 by simp
  qed
  have "e < era_start (y + 1) + of_bool (y = 399)"
  proof (rule ccontr)
    assume a: "\<not> e < era_start (y + 1) + of_bool (y = 399)"
    have y399: "y \<noteq> 399" using a assms(2) by (auto simp: era_start_def)
    have "era_est (era_start (y + 1)) \<le> era_est e" using a y399 by (intro era_est_mono) simp
    then have "era_est (era_start (y + 1)) div 365 \<le> y" unfolding y_def by (intro zdiv_mono1) simp_all
    then show False using era_bounds [of "y + 1"] y0 y4 y399 by simp
  qed
  then show "e < era_start y + 365 + of_bool (leap_year (y + 1))" using era_len [OF y0 y4] by simp
qed

definition month_ok :: "int \<Rightarrow> bool" where
  "month_ok yd \<longleftrightarrow>
     (let m = (5 * yd + 2) div 153; d = yd - (153 * m + 2) div 5 + 1
      in 0 \<le> m \<and> 1 \<le> d \<and>
         (if m < 10 then yd < 306 \<and> DAYS_BEFORE_MONTH ! nat (m + 2) + d = 60 + yd \<and> d \<le> DAYS_IN_MONTH ! nat (m + 2)
          else m < 12 \<and> yd \<ge> 306 \<and> DAYS_BEFORE_MONTH ! nat (m - 10) + d = yd - 305 \<and>
            d \<le> DAYS_IN_MONTH ! nat (m - 10) + of_bool (yd = 365 \<and> m = 11)))"

lemma month_table: "list_all month_ok [0..365]"
  unfolding month_ok_def DAYS_BEFORE_MONTH_def DAYS_IN_MONTH_def by code_simp

text \<open>The date of the day \<open>yd\<close> of a year that starts in March, as \<open>gmtime_r\<close> computes it.\<close>

lemma march_date:
  assumes "0 \<le> yd" "yd < 365 + of_bool (leap_year (y + 1))"
  defines "m0 \<equiv> (5 * yd + 2) div 153"
  defines "d \<equiv> yd - (153 * m0 + 2) div 5 + 1" and "m \<equiv> m0 + (if m0 < 10 then 2 else -10)"
  defines "y' \<equiv> y + of_bool (m \<le> 1)"
  shows "0 \<le> m" "m < 12" "1 \<le> d" "d \<le> month_len (leap_year y') m"
    "day_number y' m d = jan1 y + 59 + of_bool (leap_year y) + yd"
    "(if yd \<ge> 306 then yd - 306 else yd + 59 + of_bool (leap_year y)) = before_month (leap_year y') m + d - 1"
proof -
  have "yd \<in> set [0..365]" using assms(1,2) by (auto simp: of_bool_def split: if_splits)
  then have "month_ok yd" using month_table by (simp only: list_all_iff)
  note ok = this [unfolded month_ok_def Let_def, folded m0_def, folded d_def]
  have "0 \<le> m \<and> m < 12 \<and> 1 \<le> d \<and> d \<le> month_len (leap_year y') m \<and>
    day_number y' m d = jan1 y + 59 + of_bool (leap_year y) + yd \<and>
    (if yd \<ge> 306 then yd - 306 else yd + 59 + of_bool (leap_year y)) = before_month (leap_year y') m + d - 1"
  proof (cases "m0 < 10")
    case True
    then have "m = m0 + 2" "y' = y" using ok by (auto simp: m_def y'_def)
    then show ?thesis using ok True by (simp add: month_len_def day_number_def before_month_def)
  next
    case False
    then have m: "m = m0 - 10" "y' = y + 1" using ok by (auto simp: m_def y'_def)
    have "m = 0 \<or> m = 1" using m ok False by auto
    then show ?thesis using ok False m assms(2)
      by (auto simp: month_len_def day_number_def before_month_def jan1_step of_bool_def split: if_splits)
  qed
  then show "0 \<le> m" "m < 12" "1 \<le> d" "d \<le> month_len (leap_year y') m"
    "day_number y' m d = jan1 y + 59 + of_bool (leap_year y) + yd"
    "(if yd \<ge> 306 then yd - 306 else yd + 59 + of_bool (leap_year y)) = before_month (leap_year y') m + d - 1" by simp_all
qed

lemma leap_year_era: "leap_year (y + 400 * k) = leap_year y"
proof -
  have "n dvd y + 400 * k \<longleftrightarrow> n dvd y" if "n dvd 400" for n
    using that by (simp add: dvd_add_left_iff dvd_mult2)
  then have "4 dvd y + 400 * k \<longleftrightarrow> 4 dvd y" "100 dvd y + 400 * k \<longleftrightarrow> 100 dvd y" "400 dvd y + 400 * k \<longleftrightarrow> 400 dvd y"
    by simp_all
  then show ?thesis by (simp add: leap_year_def)
qed

lemma jan1_era: "0 \<le> y \<Longrightarrow> y < 400 \<Longrightarrow>
  jan1 (y + 400 * k) + 59 + of_bool (leap_year (y + 400 * k)) = era_start y + 146097 * k - 719468"
proof -
  assume y: "0 \<le> y" "y < 400"
  have "(y + 400 * k) div 4 = y div 4 + 100 * k" "(y + 400 * k) div 100 = y div 100 + 4 * k" "(y + 400 * k) div 400 = k"
    using div_mult_self1 [of 4 y "100 * k"] div_mult_self1 [of 100 y "4 * k"] div_mult_self1 [of 400 y k] y
    by (simp_all add: mult.commute [of k])
  then show ?thesis using jan1_march [of "y + 400 * k"] by (simp add: era_start_def)
qed

text \<open>The broken-down time of a number of seconds: what \<open>gmtime_r\<close> has to compute.\<close>

definition is_utc :: "int \<Rightarrow> tm \<Rightarrow> bool" where
  "is_utc s t \<longleftrightarrow> tm_valid t \<and> tm_secs t = s \<and> tm_wday t = (tm_day t + 4) mod 7 \<and>
     tm_yday t = before_month (leap_year (tm_year t + 1900)) (tm_mon t) + tm_mday t - 1"

lemma gmtime_r_utc:
  assumes "\<bar>t\<bar> \<le> 2 ^ 55"
  shows "is_utc t (gmtime_r t)" "tm_isdst (gmtime_r t) = 0"
proof -
  define D where "D = t div 86400 + 719468"
  define R where "R = t mod 86400"
  define k where "k = D div 146097"
  define e where "e = D mod 146097"
  define y where "y = era_est e div 365"
  define yd where "yd = e - era_start y"
  define m0 where "m0 = (5 * yd + 2) div 153"
  define d where "d = yd - (153 * m0 + 2) div 5 + 1"
  define m where "m = m0 + (if m0 < 10 then 2 else -10)"
  define Y where "Y = y + 400 * k + of_bool (m \<le> 1)"
  have R: "0 \<le> R" "R < 86400" by (simp_all add: R_def)
  have e: "0 \<le> e" "e < 146097" "D - k * 146097 = e" by (simp_all add: e_def k_def minus_div_mult_eq_mod)
  note ey = era_year [OF e(1,2), folded y_def]
  have yd: "0 \<le> yd" "yd < 365 + of_bool (leap_year (y + 400 * k + 1))"
    using ey leap_year_era [of "y + 1" k] by (auto simp: yd_def algebra_simps)
  note md = march_date [OF yd, folded m0_def, folded d_def m_def, folded Y_def]
  have "t div 86400 \<le> 2 ^ 55 div 86400" "(- (2 ^ 55)) div 86400 \<le> t div 86400"
    using assms by (intro zdiv_mono1; simp)+
  then have "D \<le> 417001000000" "-417001000000 \<le> D" by (simp_all add: D_def)
  then have "k \<le> 417001000000 div 146097" "-417001000000 div 146097 \<le> k" unfolding k_def by (intro zdiv_mono1; simp)+
  then have Db: "\<bar>k\<bar> \<le> 3000000" by simp
  then have kY: "int32 k = k" "int32 Y = Y" using ey(1,2) by (auto simp: Y_def of_bool_def intro!: int32_id)
  have me: "e mod 2 ^ 64 = e" "y mod 2 ^ 32 = y" "yd mod 2 ^ 32 = yd"
    using e ey yd by (auto simp: of_bool_def split: if_splits)
  have gm: "gmtime_r t = \<lparr>tm_sec = R smod 3600 smod 60, tm_min = R smod 3600 sdiv 60, tm_hour = R sdiv 3600, tm_mday = d,
      tm_mon = m, tm_year = Y - 1900, tm_wday = (3 + D) mod 7,
      tm_yday = (if yd \<ge> 306 then yd - 306 else yd + 59 + of_bool (leap_year (y + 400 * k))), tm_isdst = 0\<rparr>"
  proof -
    have a1: "(if t smod 86400 < 0 then (t smod 86400 + 86400, t sdiv 86400 + 719468 - 1)
      else (t smod 86400, t sdiv 86400 + 719468)) = (R, D)"
      using floor_adjust(1) [of 86400 t 719468] unfolding R_def D_def by simp
    have a2: "(if (3 + D) smod 7 < 0 then (3 + D) smod 7 + 7 else (3 + D) smod 7) = (3 + D) mod 7"
      by (rule floor_adjust(2)) simp
    have a3: "int32 ((if 0 \<le> D then D else D - (146097 - 1)) sdiv 146097) = k"
      using era_floor [of 146097 D] kY(1) unfolding k_def by simp
    have a4: "(D - k * 146097) mod 2 ^ 64 = e" by (simp only: e(3) me)
    have a5: "(e - e div 1460 + e div 36524 - e div (146097 - 1)) div 365 mod 2 ^ 32 = y"
      using me(2) unfolding y_def era_est_def by simp
    have a6: "(e - (365 * y + y div 4 - y div 100)) mod 2 ^ 32 = yd" using me(3) by (simp only: yd_def era_start_def)
    have a7: "int32 (0 + y + k * 400 + of_bool (m \<le> 1)) = Y" using kY(2) by (simp add: Y_def algebra_simps)
    show ?thesis
      unfolding gmtime_r_def time_consts Let_def
      by (simp only: a1 prod.case a2 a3 a4 a5 a6 m0_def [symmetric] d_def [symmetric] m_def [symmetric] a7
        isleap_iff leap_year_era) simp
  qed
  have pos: "a sdiv n = a div n" "a smod n = a mod n" if "0 \<le> a" "0 < n" for a n :: int
    using that by (auto simp: signed_divide_int_def signed_modulo_int_def sgn_if)
  have hms: "3600 * (R div 3600) + 60 * (R mod 3600 div 60) + R mod 3600 mod 60 = R"
    using mult_div_mod_eq [of 3600 R] mult_div_mod_eq [of 60 "R mod 3600"] by linarith
  have bounds: "0 \<le> R div 3600" "R div 3600 < 24" using R by auto
  have day: "day_number Y m d = t div 86400"
    using md(5) jan1_era [OF ey(1,2), of k] e(3) by (simp add: yd_def D_def)
  have t: "86400 * (t div 86400) + R = t" by (simp add: R_def)
  have "3 + D = t div 86400 + 4 + 102781 * 7" by (simp add: D_def)
  then have "(3 + D) mod 7 = (t div 86400 + 4) mod 7" by (simp only: mod_mult_self1)
  note wd = this
  have hm: "R sdiv 3600 = R div 3600" "R smod 3600 smod 60 = R mod 3600 mod 60" "R smod 3600 sdiv 60 = R mod 3600 div 60"
    using R by (simp_all add: pos)
  have low: "0 \<le> R mod 3600 div 60" "R mod 3600 div 60 < 60" "0 \<le> R mod 3600 mod 60" "R mod 3600 mod 60 < 60" by auto
  have Y1900: "Y - 1900 + 1900 = Y" by simp
  have "tm_valid (gmtime_r t)"
    unfolding gm tm_valid_def tm.simps hm Y1900 using md(1-4) bounds low by blast
  moreover have day': "tm_day (gmtime_r t) = t div 86400" unfolding gm tm_day_def tm.simps Y1900 by (rule day)
  moreover have "tm_secs (gmtime_r t) = t" unfolding tm_secs_def day' unfolding gm tm.simps hm using hms t by linarith
  moreover have "tm_wday (gmtime_r t) = (t div 86400 + 4) mod 7" unfolding gm tm.simps by (rule wd)
  moreover have "tm_yday (gmtime_r t) = before_month (leap_year (tm_year (gmtime_r t) + 1900)) (tm_mon (gmtime_r t)) + tm_mday (gmtime_r t) - 1"
    unfolding gm tm.simps Y1900 by (rule md(6))
  ultimately show "is_utc t (gmtime_r t)" by (simp add: is_utc_def)
  show "tm_isdst (gmtime_r t) = 0" unfolding gm by simp
qed

section \<open>\<open>validate_structure\<close> is correct\<close>

lemma div_int_eq: "0 < n \<Longrightarrow> div_int x n = \<lparr>quot = x sdiv n, rem = x smod n\<rparr>"
proof -
  assume "0 < n"
  then have "0 \<le> x \<Longrightarrow> 0 \<le> x smod n" "x < 0 \<Longrightarrow> x smod n \<le> 0"
    by (auto simp: signed_modulo_int_def sgn_if)
  then show ?thesis by (auto simp: div_int_def Let_def)
qed

lemma carry_eq:
  assumes n: "0 < n" and y: "- (2 ^ 31) \<le> y + x div n" "y + x div n < 2 ^ 31 - 1"
  shows "carry n x y = Some (x mod n, y + x div n)"
proof (cases "x < 0 \<or> x > n - 1")
  case True
  have "(if x smod n < 0 then (x smod n + n, y + x sdiv n - 1) else (x smod n, y + x sdiv n)) = (x mod n, y + x div n)"
    using floor_adjust(1) [OF n, of x y] by (auto simp: algebra_simps)
  then have f: "x smod n < 0 \<Longrightarrow> x smod n + n = x mod n \<and> y + x sdiv n - 1 = y + x div n"
    "\<not> x smod n < 0 \<Longrightarrow> x smod n = x mod n \<and> y + x sdiv n = y + x div n" by (auto split: if_splits)
  show ?thesis
  proof (cases "x smod n < 0")
    case neg: True
    have "y + x sdiv n = y + x div n + 1" using f(1) [OF neg] by linarith
    then have s: "y + x sdiv n - 1 = y + x div n" and "cint (y + x sdiv n) = Some (y + x sdiv n)" "cint (y + x div n) = Some (y + x div n)"
      using y by (auto simp: cint_def)
    then show ?thesis using True neg conjunct1 [OF f(1) [OF neg]]
      by (simp only: carry_def div_int_eq [OF n] Let_def div_t.simps Option.bind_lunit s simp_thms if_True)
  next
    case False
    then have "cint (y + x sdiv n) = Some (y + x div n)" using f(2) y by (simp add: cint_def)
    then show ?thesis using True False f(2) by (simp add: carry_def div_int_eq [OF n] Let_def)
  qed
next
  case False
  then show ?thesis by (simp add: carry_def mod_pos_pos_trivial div_pos_pos_trivial)
qed

lemma mon_cases: "0 \<le> m \<Longrightarrow> m < 12 \<Longrightarrow> m \<in> {0, 1, 2, 3, 4, 5, 6, 7, 8, 9, 10, 11 :: int}"
  by (simp, arith)

lemma month_len_ge: "0 \<le> m \<Longrightarrow> m < 12 \<Longrightarrow> 28 \<le> month_len leap m"
  by (drule (1) mon_cases) (auto simp: month_len_def DAYS_IN_MONTH_def)

lemma before_month_step: "0 \<le> m \<Longrightarrow> m < 11 \<Longrightarrow> before_month leap (m + 1) = before_month leap m + month_len leap m"
  by (drule mon_cases, simp) (auto simp: before_month_def month_len_def DAYS_IN_MONTH_def DAYS_BEFORE_MONTH_def)

lemma before_month_end: "before_month leap 11 + month_len leap 11 = 365 + of_bool leap" "before_month leap 0 = 0"
  by (auto simp: before_month_def month_len_def DAYS_IN_MONTH_def DAYS_BEFORE_MONTH_def)

text \<open>The days of February and of a year.\<close>

abbreviation feb_len :: "int \<Rightarrow> int" where
  "feb_len y \<equiv> 28 + of_bool (leap_year (y + 1900))"

abbreviation year_len :: "int \<Rightarrow> int" where
  "year_len y \<equiv> 365 + of_bool (leap_year (y + 1900))"

lemma DAYS_IN_YEAR_eq: "- (2 ^ 31) \<le> y \<Longrightarrow> y < 2 ^ 31 - 1900 \<Longrightarrow> DAYS_IN_YEAR y = Some (year_len y)"
  by (simp add: DAYS_IN_YEAR_def ISLEAP_eq)

lemma feb_of_eq: "- (2 ^ 31) \<le> y \<Longrightarrow> y < 2 ^ 31 - 1900 \<Longrightarrow> feb_of y = Some (feb_len y)"
  by (simp add: feb_of_def DAYS_IN_YEAR_eq)

lemma days_in_month_eq: "0 \<le> m \<Longrightarrow> m < 12 \<Longrightarrow> days_in_month (feb_len y) m = Some (month_len (leap_year (y + 1900)) m)"
  by (drule (1) mon_cases) (auto simp: days_in_month_def tab_def month_len_def DAYS_IN_MONTH_def)

lemma tab_before: "0 \<le> m \<Longrightarrow> m < 12 \<Longrightarrow> tab DAYS_BEFORE_MONTH m = Some (DAYS_BEFORE_MONTH ! nat m)"
  by (simp add: tab_def DAYS_BEFORE_MONTH_def nat_less_iff)

lemma tab_month: "0 \<le> m \<Longrightarrow> m < 12 \<Longrightarrow> tab (month_lengths leap) m = Some (month_len leap m)"
  by (drule (1) mon_cases) (auto simp: tab_def month_len_def DAYS_IN_MONTH_def month_lengths_def)

text \<open>The fields that the normalisation of the day leaves alone.\<close>

definition same_time :: "tm \<Rightarrow> tm \<Rightarrow> bool" where
  "same_time t t' \<longleftrightarrow> tm_sec t' = tm_sec t \<and> tm_min t' = tm_min t \<and> tm_hour t' = tm_hour t \<and>
     tm_wday t' = tm_wday t \<and> tm_yday t' = tm_yday t \<and> tm_isdst t' = tm_isdst t"

definition day_ok :: "tm \<Rightarrow> bool" where
  "day_ok t \<longleftrightarrow> 0 \<le> tm_mon t \<and> tm_mon t < 12 \<and> 1 \<le> tm_mday t \<and> tm_mday t \<le> month_len (leap_year (tm_year t + 1900)) (tm_mon t)"

lemma tm_day_prev_month:
  "0 < tm_mon t \<Longrightarrow> tm_mon t < 12 \<Longrightarrow>
    tm_day (t\<lparr>tm_mon := tm_mon t - 1, tm_mday := tm_mday t + month_len (leap_year (tm_year t + 1900)) (tm_mon t - 1)\<rparr>) = tm_day t"
  "tm_mon t = 0 \<Longrightarrow>
    tm_day (t\<lparr>tm_mon := 11, tm_year := tm_year t - 1, tm_mday := tm_mday t + month_len (leap_year (tm_year t - 1 + 1900)) 11\<rparr>) = tm_day t"
  using before_month_step [of "tm_mon t - 1" "leap_year (tm_year t + 1900)"] jan1_step [of "tm_year t + 1899"]
    before_month_end [of "leap_year (tm_year t + 1899)"] before_month_end(2) [of "leap_year (tm_year t + 1900)"]
  by (auto simp: tm_day_def day_number_def add.commute add.left_commute)

lemma tm_day_next_month:
  "0 \<le> tm_mon t \<Longrightarrow> tm_mon t < 11 \<Longrightarrow>
    tm_day (t\<lparr>tm_mon := tm_mon t + 1, tm_mday := tm_mday t - month_len (leap_year (tm_year t + 1900)) (tm_mon t)\<rparr>) = tm_day t"
  "tm_mon t = 11 \<Longrightarrow>
    tm_day (t\<lparr>tm_mon := 0, tm_year := tm_year t + 1, tm_mday := tm_mday t - month_len (leap_year (tm_year t + 1900)) 11\<rparr>) = tm_day t"
  using before_month_step [of "tm_mon t" "leap_year (tm_year t + 1900)"] jan1_step [of "tm_year t + 1900"]
    before_month_end [of "leap_year (tm_year t + 1900)"] before_month_end(2) [of "leap_year (tm_year t + 1 + 1900)"]
  by (auto simp: tm_day_def day_number_def add.commute add.left_commute)

text \<open>A month back adds at least 28 to the day and takes at most 1 from the year, so that the sum bounds the year.\<close>

lemma mday_down_ok:
  assumes "0 \<le> tm_mon t" "tm_mon t < 12" "tm_mday t \<le> month_len (leap_year (tm_year t + 1900)) (tm_mon t)"
    "- (2 ^ 31) \<le> tm_mday t" "tm_year t < 2 ^ 31 - 1900" "- (2 ^ 31) + 64 \<le> tm_year t + tm_mday t"
  shows "\<exists>t'. mday_down (feb_len (tm_year t)) t = Some t' \<and> day_ok t' \<and> tm_day t' = tm_day t \<and> same_time t t' \<and>
    - (2 ^ 31) \<le> tm_year t' \<and> tm_year t' < 2 ^ 31 - 1900"
  using assms
proof (induction "nat (1 - tm_mday t)" arbitrary: t rule: less_induct)
  case less
  have ml: "month_len l m \<le> 31" if "0 \<le> m" "m < 12" for l m
    using mon_cases [OF that] by (auto simp: month_len_def DAYS_IN_MONTH_def)
  show ?case
  proof (cases "tm_mday t \<le> 0")
    case False
    then show ?thesis using less.prems ml [of "tm_mon t" "leap_year (tm_year t + 1900)"]
      by (subst mday_down.simps) (simp add: day_ok_def same_time_def)
  next
    case True
    define u where "u = (if tm_mon t = 0
      then t\<lparr>tm_mon := 11, tm_year := tm_year t - 1, tm_mday := tm_mday t + month_len (leap_year (tm_year t - 1 + 1900)) 11\<rparr>
      else t\<lparr>tm_mon := tm_mon t - 1, tm_mday := tm_mday t + month_len (leap_year (tm_year t + 1900)) (tm_mon t - 1)\<rparr>)"
    have y: "- (2 ^ 31) \<le> tm_year t - 1" using True less.prems by simp
    have pm: "prev_month (feb_len (tm_year t)) t = Some (feb_len (tm_year u), u)"
    proof (cases "tm_mon t = 0")
      case True
      let ?n = "month_len (leap_year (tm_year t - 1 + 1900)) 11"
      have "28 \<le> ?n" "?n \<le> 31" using month_len_ge [of 11] ml [of 11] by simp_all
      then have c: "cint (tm_mday t + ?n) = Some (tm_mday t + ?n)" using \<open>tm_mday t \<le> 0\<close> less.prems by (intro cint_id) simp_all
      have "cint (tm_year t - 1) = Some (tm_year t - 1)" "feb_of (tm_year t - 1) = Some (feb_len (tm_year t - 1))"
        using y less.prems by (intro cint_id feb_of_eq; simp)+
      moreover have "days_in_month (feb_len (tm_year t - 1)) 11 = Some ?n" by (rule days_in_month_eq) simp_all
      ultimately show ?thesis using True c by (simp only: prev_month_def u_def Let_def Option.bind_lunit if_True tm.simps prod.case) simp
    next
      case False
      then have m: "0 \<le> tm_mon t - 1" "tm_mon t - 1 < 12" using less.prems by auto
      let ?n = "month_len (leap_year (tm_year t + 1900)) (tm_mon t - 1)"
      have "28 \<le> ?n" "?n \<le> 31" using month_len_ge [OF m] ml [OF m] by simp_all
      then have "cint (tm_mday t + ?n) = Some (tm_mday t + ?n)" using True less.prems by (intro cint_id) simp_all
      then show ?thesis using False m days_in_month_eq [OF m, of "tm_year t"] by (simp add: prev_month_def u_def Let_def)
    qed
    have step: "mday_down (feb_len (tm_year t)) t = mday_down (feb_len (tm_year u)) u"
      using True pm by (subst mday_down.simps) simp
    have "tm_day u = tm_day t" using tm_day_prev_month [of t] less.prems by (auto simp: u_def)
    moreover have "same_time t u" by (simp add: u_def same_time_def)
    moreover have "tm_mday t < tm_mday u" "0 \<le> tm_mon u" "tm_mon u < 12"
      "tm_mday u \<le> month_len (leap_year (tm_year u + 1900)) (tm_mon u)"
      "- (2 ^ 31) \<le> tm_mday u" "tm_year u < 2 ^ 31 - 1900" "- (2 ^ 31) + 64 \<le> tm_year u + tm_mday u"
      using True less.prems month_len_ge [of 11 "leap_year (1899 + tm_year t)"]
        month_len_ge [of "tm_mon t - 1" "leap_year (tm_year t + 1900)"] by (auto simp: u_def)
    ultimately show ?thesis using less.hyps [of u] step True by (auto simp: same_time_def)
  qed
qed

lemma mday_up_ok:
  assumes "0 \<le> tm_mon t" "tm_mon t < 12" "1 \<le> tm_mday t"
    "tm_mday t < 2 ^ 31" "- (2 ^ 31) \<le> tm_year t" "tm_year t + tm_mday t < 2 ^ 31 - 1900"
  shows "\<exists>t'. mday_up (feb_len (tm_year t)) t = Some t' \<and> day_ok t' \<and> tm_day t' = tm_day t \<and> same_time t t' \<and>
    - (2 ^ 31) \<le> tm_year t' \<and> tm_year t' < 2 ^ 31 - 1900"
  using assms
proof (induction "nat (tm_mday t)" arbitrary: t rule: less_induct)
  case less
  let ?n = "month_len (leap_year (tm_year t + 1900)) (tm_mon t)"
  have n: "days_in_month (feb_len (tm_year t)) (tm_mon t) = Some ?n" "28 \<le> ?n"
    using less.prems days_in_month_eq month_len_ge by auto
  show ?case
  proof (cases "tm_mday t > ?n")
    case False
    then show ?thesis using less.prems n by (subst mday_up.simps) (simp add: day_ok_def same_time_def)
  next
    case True
    define u where "u = (if tm_mon t = 11 then t\<lparr>tm_mon := 0, tm_year := tm_year t + 1, tm_mday := tm_mday t - ?n\<rparr>
      else t\<lparr>tm_mon := tm_mon t + 1, tm_mday := tm_mday t - ?n\<rparr>)"
    have "cint (tm_mday t - ?n) = Some (tm_mday t - ?n)" "cint (tm_year t + 1) = Some (tm_year t + 1)"
      using True n(2) less.prems by (intro cint_id; simp)+
    moreover have "feb_of (tm_year t + 1) = Some (feb_len (tm_year t + 1))" using True n(2) less.prems by (intro feb_of_eq) simp_all
    ultimately have "next_month (feb_len (tm_year t)) ?n t = Some (feb_len (tm_year u), u)"
      by (cases t) (simp add: next_month_def u_def)
    then have step: "mday_up (feb_len (tm_year t)) t = mday_up (feb_len (tm_year u)) u"
      using True n by (subst mday_up.simps) simp
    have "tm_day u = tm_day t" using tm_day_next_month [of t] less.prems by (auto simp: u_def)
    moreover have "same_time t u" by (simp add: u_def same_time_def)
    moreover have "tm_mday u < tm_mday t" "0 \<le> tm_mon u" "tm_mon u < 12" "1 \<le> tm_mday u"
      "tm_mday u < 2 ^ 31" "- (2 ^ 31) \<le> tm_year u" "tm_year u + tm_mday u < 2 ^ 31 - 1900"
      using True less.prems n(2) by (auto simp: u_def)
    ultimately show ?thesis using less.hyps [of u] step True n(2) by (auto simp: same_time_def)
  qed
qed

text \<open>The seconds that a structure stands for, its fields being in range or not.\<close>

definition tm_value :: "tm \<Rightarrow> int" where
  "tm_value t = 86400 * (day_number (tm_year t + 1900 + tm_mon t div 12) (tm_mon t mod 12) 1 + tm_mday t - 1) +
     3600 * tm_hour t + 60 * tm_min t + tm_sec t"

lemma carry_sum: "h = 24 * qh + rh \<Longrightarrow> mi = 60 * qm + rm \<Longrightarrow> s = 60 * qs + rs \<Longrightarrow> h = H + qm \<Longrightarrow> mi = M + qs \<Longrightarrow>
  86400 * (B + qh) + 3600 * rh + 60 * rm + rs = 86400 * B + 3600 * H + 60 * M + s" for h mi s :: int
  by simp

text \<open>The fields that are carried are at most a thousand million.\<close>

definition tm_bounded :: "tm \<Rightarrow> bool" where
  "tm_bounded t \<longleftrightarrow> \<bar>tm_sec t\<bar> \<le> 10 ^ 9 \<and> \<bar>tm_min t\<bar> \<le> 10 ^ 9 \<and> \<bar>tm_hour t\<bar> \<le> 10 ^ 9 \<and>
     \<bar>tm_mday t\<bar> \<le> 10 ^ 9 \<and> \<bar>tm_mon t\<bar> \<le> 10 ^ 9 \<and> \<bar>tm_year t\<bar> \<le> 10 ^ 9"

lemma div_between: "0 < n \<Longrightarrow> - (n * k) \<le> x \<Longrightarrow> x < n * (k + 1) \<Longrightarrow> - k \<le> x div n \<and> x div n \<le> k" for n k x :: int
proof -
  assume n: "0 < n" and x: "- (n * k) \<le> x" "x < n * (k + 1)"
  have "n * (- k) \<le> x" using x(1) by simp
  then have "- k \<le> x div n" using zdiv_mono1 [of "n * (- k)" x n] n by (simp only: nonzero_mult_div_cancel_left)
  moreover have "n * (x div n) < n * (k + 1)" using x(2) mult_div_mod_eq [of n x] pos_mod_sign [OF n, of x] by linarith
  ultimately show ?thesis using n by (simp add: mult_less_cancel_left_pos)
qed

lemma validate_structure_ok:
  assumes "tm_bounded t"
  shows "\<exists>t'. validate_structure t = Some t' \<and> tm_valid t' \<and> tm_secs t' = tm_value t \<and> tm_isdst t' = tm_isdst t \<and>
    - (2 ^ 31) \<le> tm_year t' \<and> tm_year t' < 2 ^ 31 - 1900"
proof -
  define mi where "mi = tm_min t + tm_sec t div 60"
  define h where "h = tm_hour t + mi div 60"
  define u where "u = t\<lparr>tm_sec := tm_sec t mod 60, tm_min := mi mod 60, tm_hour := h mod 24, tm_mday := tm_mday t + h div 24,
    tm_mon := tm_mon t mod 12, tm_year := tm_year t + tm_mon t div 12\<rparr>"
  have b: "- (10 ^ 9) \<le> tm_sec t" "tm_sec t \<le> 10 ^ 9" "- (10 ^ 9) \<le> tm_min t" "tm_min t \<le> 10 ^ 9"
    "- (10 ^ 9) \<le> tm_hour t" "tm_hour t \<le> 10 ^ 9" "- (10 ^ 9) \<le> tm_mday t" "tm_mday t \<le> 10 ^ 9"
    "- (10 ^ 9) \<le> tm_mon t" "tm_mon t \<le> 10 ^ 9" "- (10 ^ 9) \<le> tm_year t" "tm_year t \<le> 10 ^ 9"
    using assms by (simp_all add: tm_bounded_def abs_le_iff)
  have q1: "- 16666667 \<le> tm_sec t div 60 \<and> tm_sec t div 60 \<le> 16666667" using b by (intro div_between) simp_all
  then have q2: "- 16944445 \<le> mi div 60 \<and> mi div 60 \<le> 16944445" using b unfolding mi_def by (intro div_between) simp_all
  then have q3: "- 42372686 \<le> h div 24 \<and> h div 24 \<le> 42372686" using b unfolding h_def by (intro div_between) simp_all
  have q4: "- 83333334 \<le> tm_mon t div 12 \<and> tm_mon t div 12 \<le> 83333334" using b by (intro div_between) simp_all
  have c: "carry 60 (tm_sec t) (tm_min t) = Some (tm_sec t mod 60, mi)" "carry 60 mi (tm_hour t) = Some (mi mod 60, h)"
    using b q1 q2 unfolding h_def by (unfold mi_def, intro carry_eq; simp add: mi_def)+
  have c': "carry 24 h (tm_mday t) = Some (h mod 24, tm_mday t + h div 24)"
    "carry 12 (tm_mon t) (tm_year t) = Some (tm_mon t mod 12, tm_year t + tm_mon t div 12)"
    using b q3 q4 by (intro carry_eq; simp)+
  have yb: "- 1083333334 \<le> tm_year u" "tm_year u \<le> 1083333334" "- 1042372686 \<le> tm_mday u" "tm_mday u \<le> 1042372686"
    using b q3 q4 by (simp_all add: u_def)
  have f: "feb_of (tm_year u) = Some (feb_len (tm_year u))" using yb by (intro feb_of_eq) simp_all
  have v: "validate_structure t = (if tm_mday u \<le> 0 then mday_down (feb_len (tm_year u)) u else mday_up (feb_len (tm_year u)) u)"
    using f by (simp add: validate_structure_def c c' u_def Let_def del: of_bool_eq)
  have m: "0 \<le> tm_mon u" "tm_mon u < 12" by (simp_all add: u_def)
  have "\<exists>t'. validate_structure t = Some t' \<and> day_ok t' \<and> tm_day t' = tm_day u \<and> same_time u t' \<and>
      - (2 ^ 31) \<le> tm_year t' \<and> tm_year t' < 2 ^ 31 - 1900"
    using mday_down_ok [OF m] mday_up_ok [OF m] month_len_ge [OF m, of "leap_year (tm_year u + 1900)"] yb unfolding v by simp
  then obtain t' where t': "validate_structure t = Some t'" "day_ok t'" "tm_day t' = tm_day u" "same_time u t'"
    "- (2 ^ 31) \<le> tm_year t'" "tm_year t' < 2 ^ 31 - 1900" by blast
  have "tm_day u = day_number (tm_year t + 1900 + tm_mon t div 12) (tm_mon t mod 12) 1 + tm_mday t - 1 + h div 24"
    by (simp add: tm_day_def day_number_def u_def algebra_simps)
  then have "86400 * tm_day u + 3600 * (h mod 24) + 60 * (mi mod 60) + tm_sec t mod 60 = tm_value t"
    using mult_div_mod_eq [of 24 h] mult_div_mod_eq [of 60 mi] mult_div_mod_eq [of 60 "tm_sec t"]
    unfolding tm_value_def by (simp only:) (rule carry_sum [OF _ _ _ h_def mi_def]; simp)
  moreover have "tm_valid t'" using t'(2,4) by (auto simp: tm_valid_def day_ok_def same_time_def u_def)
  ultimately show ?thesis using t' by (auto simp: tm_secs_def same_time_def u_def)
qed

section \<open>\<open>mktime\<close> and \<open>localtime_r\<close> are correct\<close>

lemma years_up_eq:
  "a \<le> g \<Longrightarrow> - 20000 \<le> a \<Longrightarrow> g \<le> 20000 \<Longrightarrow> years_up a g days = Some (days + jan1 (g + 1900) - jan1 (a + 1900))"
proof (induction "nat (g - a)" arbitrary: a days)
  case 0
  then show ?case by (subst years_up.simps) simp
next
  case (Suc k)
  have a: "a < g" using Suc.hyps(2) by simp
  then have "years_up a g days = years_up (a + 1) g (days + year_len a)"
    using Suc.prems DAYS_IN_YEAR_eq [of a] by (subst years_up.simps) simp
  also have "\<dots> = Some (days + year_len a + jan1 (g + 1900) - jan1 (a + 1 + 1900))" using Suc a by (intro Suc.hyps) auto
  finally show ?case using jan1_step [of "a + 1900"] by (simp add: algebra_simps)
qed

lemma years_down_eq:
  "g \<le> a \<Longrightarrow> - 20000 \<le> g \<Longrightarrow> a \<le> 20000 \<Longrightarrow> years_down a g days = Some (days + jan1 (g + 1900) - jan1 (a + 1901))"
proof (induction "nat (a - g)" arbitrary: a days)
  case 0
  then have "a = g" by simp
  then show ?case using 0 jan1_step [of "a + 1900"] DAYS_IN_YEAR_eq [of a] by (subst years_down.simps) (simp add: algebra_simps)
next
  case (Suc k)
  have a: "g < a" using Suc.hyps(2) by simp
  then have "years_down a g days = years_down (a - 1) g (days - year_len a)"
    using Suc.prems DAYS_IN_YEAR_eq [of a] by (subst years_down.simps) simp
  also have "\<dots> = Some (days - year_len a + jan1 (g + 1900) - jan1 (a - 1 + 1901))" using Suc a by (intro Suc.hyps) auto
  finally show ?case using jan1_step [of "a + 1900"] by (simp add: algebra_simps)
qed

text \<open>
  C14: \<open>gmtime_r\<close> computes the date of every time within \<open>2 ^ 55\<close> seconds of the epoch:
  all fields are in range for the month and the (leap) year, the date and time of
  day are those of that second in the Gregorian calendar, and the day of the week
  and of the year fit the date.
\<close>
theorem gmtime_r_correct: "\<bar>s\<bar> \<le> 2 ^ 55 \<Longrightarrow> is_utc s (gmtime_r s) \<and> tm_isdst (gmtime_r s) = 0"
  using gmtime_r_utc by blast

theorem gmtime_r_correct_witness:
  "\<bar>951782400 :: int\<bar> \<le> 2 ^ 55 \<and> is_utc 951782400 (gmtime_r 951782400) \<and> tm_isdst (gmtime_r 951782400) = 0"
  using gmtime_r_correct [of 951782400] by simp

lemma mktime_std:
  assumes "\<not> tzdaylight tz" "tm_bounded t"
  shows "\<exists>t'. (mktime tz t = Some (tm_value t + r_offset (tzrule0 tz), t', tz) \<and> is_utc (tm_value t) t' \<and> \<bar>tm_year t'\<bar> \<le> 10000 \<or>
    mktime tz t = Some (-1, t', tz) \<and> tm_valid t' \<and> tm_secs t' = tm_value t \<and> \<bar>tm_year t'\<bar> > 10000)"
proof -
  obtain u where u: "validate_structure t = Some u" "tm_valid u" "tm_secs u = tm_value t"
    "- (2 ^ 31) \<le> tm_year u" "tm_year u < 2 ^ 31 - 1900"
    using validate_structure_ok [OF assms(2)] by blast
  have m: "0 \<le> tm_mon u" "tm_mon u < 12" using u(2) by (simp_all add: tm_valid_def)
  define yd where "yd = before_month (leap_year (tm_year u + 1900)) (tm_mon u) + tm_mday u - 1"
  let ?d = "tm_mday u - 1 + DAYS_BEFORE_MONTH ! nat (tm_mon u)"
  have yd: "(if tm_mon u > 1 then map_option (\<lambda>n. if n = 366 then ?d + 1 else ?d) (DAYS_IN_YEAR (tm_year u)) else Some ?d) = Some yd"
    using DAYS_IN_YEAR_eq [OF u(4,5)] by (auto simp: yd_def before_month_def)
  have days: "(if tm_year u > 70 then years_up 70 (tm_year u) yd
      else if tm_year u < 70 then years_down 69 (tm_year u) yd else Some yd) = Some (tm_day u)" if "\<bar>tm_year u\<bar> \<le> 10000"
    using years_up_eq [of 70 "tm_year u" yd] years_down_eq [of "tm_year u" 69 yd] that
    by (simp add: tm_day_def day_number_def yd_def jan1_def)
  define v where "v = u\<lparr>tm_yday := yd\<rparr>"
  have vy: "tm_year v = tm_year u" by (simp add: v_def)
  note mk = mktime_def [of tz t, unfolded u(1) Option.bind_lunit tab_before [OF m] Let_def yd, folded v_def, unfolded vy]
  show ?thesis
  proof (cases "\<bar>tm_year u\<bar> \<le> 10000")
    case True
    define w where "w = v\<lparr>tm_isdst := 0, tm_wday := (tm_day u + 4) mod 7\<rparr>"
    have wd: "(if (tm_day u + 4) smod 7 < 0 then (tm_day u + 4) smod 7 + 7 else (tm_day u + 4) smod 7) = (tm_day u + 4) mod 7"
      by (rule floor_adjust(2)) simp
    have "mktime_dst tz v tim d = Some (0, v, tim, d, tz)" for tim d using assms(1) by (simp add: mktime_dst_def)
    note st = mk [unfolded days [OF True] Option.bind_lunit this prod.case]
    have "mktime tz t = Some (tm_sec u + tm_min u * 60 + tm_hour u * 3600 + tm_day u * 86400 + r_offset (tzrule0 tz), w, tz)"
      using True st by (simp add: wd w_def abs_le_iff)
    moreover have "is_utc (tm_value t) w"
      using u(2,3) by (simp add: is_utc_def w_def v_def tm_valid_def tm_secs_def tm_day_def yd_def)
    ultimately show ?thesis using True u(3) by (auto simp: tm_secs_def algebra_simps w_def v_def intro!: exI [of _ w])
  next
    case False
    have "mktime tz t = Some (-1, v, tz)" using mk False by auto
    moreover have "tm_valid v" "tm_secs v = tm_value t" using u(2,3) by (simp_all add: v_def tm_valid_def tm_secs_def tm_day_def)
    ultimately show ?thesis using False by (auto simp: v_def intro!: exI [of _ v])
  qed
qed

definition date_ok :: "tm \<Rightarrow> bool" where
  "date_ok t \<longleftrightarrow> day_ok t \<and> tm_wday t = (tm_day t + 4) mod 7 \<and>
     tm_yday t = before_month (leap_year (tm_year t + 1900)) (tm_mon t) + tm_mday t - 1"

lemma is_utc_iff: "is_utc s t \<longleftrightarrow> date_ok t \<and> 0 \<le> tm_sec t \<and> tm_sec t < 60 \<and> 0 \<le> tm_min t \<and> tm_min t < 60 \<and>
    0 \<le> tm_hour t \<and> tm_hour t < 24 \<and> 86400 * tm_day t + 3600 * tm_hour t + 60 * tm_min t + tm_sec t = s"
  by (auto simp: is_utc_def date_ok_def day_ok_def tm_valid_def tm_secs_def)

lemma wday_next: "(if (d + 4) mod 7 + 1 > 6 then 0 else (d + 4) mod 7 + 1) = (d + 1 + 4) mod 7" for d :: int
proof -
  have "(d + 1 + 4) mod 7 = ((d + 4) mod 7 + 1) mod 7" using mod_add_left_eq [of "d + 4" 7 1] by (simp add: algebra_simps)
  moreover have "0 \<le> (d + 4) mod 7" "(d + 4) mod 7 < 7" by simp_all
  ultimately show ?thesis by (cases "(d + 4) mod 7 = 6") auto
qed

lemma wday_prev: "(if (d + 4) mod 7 - 1 < 0 then 6 else (d + 4) mod 7 - 1) = (d - 1 + 4) mod 7" for d :: int
proof -
  have "(d - 1 + 4) mod 7 = ((d + 4) mod 7 - 1) mod 7" using mod_diff_left_eq [of "d + 4" 7 1] by (simp add: algebra_simps)
  moreover have "0 \<le> (d + 4) mod 7" "(d + 4) mod 7 < 7" by simp_all
  ultimately show ?thesis by (cases "(d + 4) mod 7 = 0") auto
qed

lemma next_day_ok:
  assumes "date_ok t"
  shows "\<exists>t'. next_day (month_lengths (leap_year (tm_year t + 1900))) t = Some t' \<and> date_ok t' \<and> tm_day t' = tm_day t + 1 \<and>
    tm_hour t' = tm_hour t - 24 \<and> tm_min t' = tm_min t \<and> tm_sec t' = tm_sec t \<and> tm_isdst t' = tm_isdst t"
proof -
  let ?n = "month_len (leap_year (tm_year t + 1900)) (tm_mon t)"
  define u where "u = t\<lparr>tm_yday := tm_yday t + 1, tm_wday := (if tm_wday t + 1 > 6 then 0 else tm_wday t + 1),
    tm_mday := tm_mday t + 1, tm_hour := tm_hour t - 24\<rparr>"
  define w where "w = (if tm_mday u > ?n then
      if tm_mon u = 11 then u\<lparr>tm_mon := 0, tm_year := tm_year u + 1, tm_mday := tm_mday u - month_len (leap_year (tm_year u + 1900)) 11, tm_yday := 0\<rparr>
      else u\<lparr>tm_mon := tm_mon u + 1, tm_mday := tm_mday u - month_len (leap_year (tm_year u + 1900)) (tm_mon u)\<rparr>
    else u)"
  have m: "0 \<le> tm_mon t" "tm_mon t < 12" "1 \<le> tm_mday t" "tm_mday t \<le> ?n" using assms by (auto simp: date_ok_def day_ok_def)
  have nd: "next_day (month_lengths (leap_year (tm_year t + 1900))) t = Some w"
    using m by (cases t) (auto simp: next_day_def tab_month w_def u_def Let_def)
  have du: "tm_day u = tm_day t + 1" by (simp add: u_def tm_day_def day_number_def)
  then have dw: "tm_day w = tm_day t + 1"
    using tm_day_next_month [of u] m unfolding w_def by (auto simp: u_def) (simp_all add: tm_day_def)
  have wd: "tm_wday w = (tm_day t + 1 + 4) mod 7"
    using assms wday_next [of "tm_day t"] by (auto simp: w_def u_def date_ok_def)
  have yd: "tm_yday w = before_month (leap_year (tm_year w + 1900)) (tm_mon w) + tm_mday w - 1"
    using assms m before_month_step [of "tm_mon t" "leap_year (tm_year t + 1900)"] before_month_end(2)
    by (auto simp: w_def u_def date_ok_def)
  have "day_ok w" using m month_len_ge [of 0] month_len_ge [of "tm_mon t + 1"]
    by (auto simp: w_def u_def day_ok_def intro: order_trans [OF _ month_len_ge])
  then show ?thesis using nd dw wd yd by (auto simp: date_ok_def w_def u_def)
qed

lemma prev_day_ok:
  assumes "date_ok t"
  shows "\<exists>t'. prev_day (month_lengths (leap_year (tm_year t + 1900))) t = Some t' \<and> date_ok t' \<and> tm_day t' = tm_day t - 1 \<and>
    tm_hour t' = tm_hour t + 24 \<and> tm_min t' = tm_min t \<and> tm_sec t' = tm_sec t \<and> tm_isdst t' = tm_isdst t"
proof -
  define u where "u = t\<lparr>tm_yday := tm_yday t - 1, tm_wday := (if tm_wday t - 1 < 0 then 6 else tm_wday t - 1),
    tm_mday := tm_mday t - 1, tm_hour := tm_hour t + 24\<rparr>"
  define w where "w = (if tm_mday u = 0 then
      if tm_mon u = 0 then u\<lparr>tm_mon := 11, tm_year := tm_year u - 1, tm_mday := tm_mday u + month_len (leap_year (tm_year u - 1 + 1900)) 11,
        tm_yday := 364 + of_bool (leap_year (tm_year u - 1 + 1900))\<rparr>
      else u\<lparr>tm_mon := tm_mon u - 1, tm_mday := tm_mday u + month_len (leap_year (tm_year u + 1900)) (tm_mon u - 1)\<rparr>
    else u)"
  have m: "0 \<le> tm_mon t" "tm_mon t < 12" "1 \<le> tm_mday t" "tm_mday t \<le> month_len (leap_year (tm_year t + 1900)) (tm_mon t)"
    using assms by (auto simp: date_ok_def day_ok_def)
  have dec: "month_len l 11 = month_len l' 11" for l l' by (simp add: month_len_def)
  have nd: "prev_day (month_lengths (leap_year (tm_year t + 1900))) t = Some w"
    using m dec by (cases t) (auto simp: prev_day_def tab_month w_def u_def Let_def isleap_iff YEAR_BASE_def)
  have du: "tm_day u = tm_day t - 1" by (simp add: u_def tm_day_def day_number_def)
  then have dw: "tm_day w = tm_day t - 1"
    using tm_day_prev_month [of u] m unfolding w_def by (auto simp: u_def) (simp_all add: tm_day_def)
  have wd: "tm_wday w = (tm_day t - 1 + 4) mod 7"
    using assms wday_prev [of "tm_day t"] by (auto simp: w_def u_def date_ok_def)
  have yd: "tm_yday w = before_month (leap_year (tm_year w + 1900)) (tm_mon w) + tm_mday w - 1"
    using assms m before_month_step [of "tm_mon t - 1" "leap_year (tm_year t + 1900)"] before_month_end(1) [of "leap_year (tm_year t - 1 + 1900)"]
    by (auto simp: w_def u_def date_ok_def)
  have "day_ok w" using m by (auto simp: w_def u_def day_ok_def intro: order_trans [OF _ month_len_ge])
  then show ?thesis using nd dw wd yd by (auto simp: date_ok_def w_def u_def)
qed

lemma smod_less: "0 < n \<Longrightarrow> \<bar>x smod n\<bar> < n" for x n :: int
  by (simp add: signed_modulo_int_def abs_mult sgn_if)

lemma sdiv_less: "0 < n \<Longrightarrow> \<bar>x\<bar> < n * k \<Longrightarrow> \<bar>x sdiv n\<bar> < k" for x n k :: int
proof -
  assume n: "0 < n" and x: "\<bar>x\<bar> < n * k"
  have "n * (\<bar>x\<bar> div n) \<le> \<bar>x\<bar>" using n mult_div_mod_eq [of n "\<bar>x\<bar>"] pos_mod_sign [of n "\<bar>x\<bar>"] by linarith
  then have "\<bar>x\<bar> div n < k" using x n by (meson le_less_trans mult_less_cancel_left_pos)
  moreover have "\<bar>x sdiv n\<bar> \<le> \<bar>x\<bar> div n" using n by (auto simp: signed_divide_int_def sgn_if pos_imp_zdiv_nonneg_iff)
  ultimately show ?thesis by simp
qed

lemma localtime_std:
  assumes "\<not> tzdaylight tz" "\<bar>s\<bar> \<le> 2 ^ 55" "\<bar>r_offset (tzrule0 tz)\<bar> < 86400"
  shows "\<exists>t. localtime_r tz s = Some (t, tz) \<and> is_utc (s - r_offset (tzrule0 tz)) t \<and> tm_isdst t = 0"
proof -
  define g where "g = gmtime_r s"
  have g: "is_utc s g" "tm_isdst g = 0" using gmtime_r_utc assms(2) by (simp_all add: g_def)
  note gu = g(1) [unfolded is_utc_iff]
  define off where "off = r_offset (tzrule0 tz)"
  define oh where "oh = off sdiv 3600"
  define om where "om = off smod 3600 sdiv 60"
  define os where "os = off smod 3600 smod 60"
  have off: "off = 3600 * oh + 60 * om + os"
    using sdiv_mult_smod_eq [of off 3600] sdiv_mult_smod_eq [of "off smod 3600" 60] by (simp add: oh_def om_def os_def)
  have "\<bar>oh\<bar> < 24" unfolding oh_def using assms(3) by (intro sdiv_less) (simp_all add: off_def)
  moreover have "\<bar>om\<bar> < 60" unfolding om_def using smod_less [of 3600 off] by (intro sdiv_less) simp_all
  moreover have "\<bar>os\<bar> < 60" unfolding os_def by (rule smod_less) simp
  ultimately have ob: "-24 < oh" "oh < 24" "-60 < om" "om < 60" "-60 < os" "os < 60" by simp_all
  have i32: "int32 (off sdiv 3600) = oh" "int32 (off smod 3600 sdiv 60) = om" "int32 (off smod 3600 smod 60) = os"
    using ob by (simp_all add: oh_def om_def os_def int32_id)
  define s1 where "s1 = tm_sec g - os"
  define m1 where "m1 = tm_min g - om"
  define h1 where "h1 = tm_hour g - oh"
  obtain s2 m2 where sm: "(if s1 \<ge> 60 then (s1 - 60, m1 + 1) else if s1 < 0 then (s1 + 60, m1 - 1) else (s1, m1)) = (s2, m2)" by fastforce
  obtain m3 h3 where mh: "(if m2 \<ge> 60 then (m2 - 60, h1 + 1) else if m2 < 0 then (m2 + 60, h1 - 1) else (m2, h1)) = (m3, h3)" by fastforce
  have s2: "0 \<le> s2" "s2 < 60" "60 * m2 + s2 = 60 * m1 + s1" "m1 - 1 \<le> m2" "m2 \<le> m1 + 1"
    using sm gu ob by (auto simp: s1_def split: if_splits)
  have m3: "0 \<le> m3" "m3 < 60" "60 * h3 + m3 = 60 * h1 + m2" "h1 - 1 \<le> h3" "h3 \<le> h1 + 1"
    using mh gu ob s2 by (auto simp: m1_def split: if_splits)
  have h3: "-24 \<le> h3" "h3 < 48" using m3 gu ob by (auto simp: h1_def)
  define u where "u = g\<lparr>tm_isdst := 0, tm_sec := s2, tm_min := m3, tm_hour := h3\<rparr>"
  have u: "date_ok u" "tm_day u = tm_day g" "tm_year u = tm_year g"
    using gu by (auto simp: u_def date_ok_def day_ok_def tm_day_def)
  have sum: "86400 * tm_day u + 3600 * h3 + 60 * m3 + s2 = s - off"
    using gu off s2(3) m3(3) u(2) by (simp add: s1_def m1_def h1_def algebra_simps)
  have ld: "localtime_dst tz y s = Some (0, tz)" for y using assms(1) by (simp add: localtime_dst_def)
  let ?ip = "month_lengths (leap_year (tm_year u + 1900))"
  have lt: "localtime_r tz s =
    (if h3 \<ge> 24 then next_day ?ip u else if h3 < 0 then prev_day ?ip u else Some u) \<bind> (\<lambda>t. Some (t, tz))"
    unfolding localtime_r_def time_consts Let_def g_def [symmetric]
    by (simp only: ld Option.bind_lunit prod.case zero_neq_one if_False off_def [symmetric] i32 s1_def [symmetric]
      m1_def [symmetric] h1_def [symmetric] sm mh isleap_iff) (simp add: u_def)
  consider "h3 \<ge> 24" | "h3 < 0" | "0 \<le> h3" "h3 < 24" by linarith
  then show ?thesis
  proof cases
    case 1
    then show ?thesis using next_day_ok [OF u(1)] lt sum s2 m3 h3 by (auto simp: is_utc_iff u_def off_def)
  next
    case 2
    then show ?thesis using prev_day_ok [OF u(1)] lt sum s2 m3 h3 by (auto simp: is_utc_iff u_def off_def)
  next
    case 3
    then show ?thesis using lt sum s2 m3 u(1) by (auto simp: is_utc_iff u_def off_def)
  qed
qed


definition tz_utc :: tzinfo where
  "tz_utc = (let r = \<lparr>r_ch = CHR ''J'', r_m = 0, r_n = 0, r_d = 0, r_s = 0, r_change = 0, r_offset = 0\<rparr>
     in \<lparr>tznorth = True, tzyear = 0, tzrule0 = r, tzrule1 = r, tzdaylight = False\<rparr>)"


lemma tm_value_valid: "tm_valid t \<Longrightarrow> tm_value t = tm_secs t"
  by (simp add: tm_value_def tm_secs_def tm_day_def day_number_def tm_valid_def mod_pos_pos_trivial div_pos_pos_trivial)

lemma leaps_bounds: "1 \<le> y \<Longrightarrow> 0 \<le> leaps y" "y \<le> 0 \<Longrightarrow> leaps y \<le> 0"
proof -
  assume "1 \<le> y"
  then have "(y - 1) div 100 \<le> (y - 1) div 4" "0 \<le> (y - 1) div 400" by (auto intro: zdiv_mono2)
  then show "0 \<le> leaps y" by (simp add: leaps_def)
next
  assume "y \<le> 0"
  then have "(y - 1) div 4 \<le> (y - 1) div 100" "(y - 1) div 400 \<le> 0 div 400"
    by (auto intro: zdiv_mono2_neg zdiv_mono1)
  then show "leaps y \<le> 0" by (simp add: leaps_def)
qed

lemma year_in_range:
  assumes "is_utc v t" "\<bar>v\<bar> \<le> 2 ^ 37 + 86400"
  shows "\<bar>tm_year t\<bar> \<le> 10000"
proof -
  have m: "0 \<le> tm_mon t" "tm_mon t < 12" and d: "1 \<le> tm_mday t" "tm_mday t \<le> 31 + 1"
    and hms: "0 \<le> tm_hour t" "tm_hour t < 24" "0 \<le> tm_min t" "tm_min t < 60" "0 \<le> tm_sec t" "tm_sec t < 60"
    and v: "86400 * tm_day t + 3600 * tm_hour t + 60 * tm_min t + tm_sec t = v"
    using assms(1) mon_cases [of "tm_mon t"]
    by (auto simp: is_utc_iff date_ok_def day_ok_def month_len_def DAYS_IN_MONTH_def of_bool_def split: if_splits)
  have "0 \<le> before_month (leap_year (tm_year t + 1900)) (tm_mon t)" "before_month (leap_year (tm_year t + 1900)) (tm_mon t) \<le> 335"
    using mon_cases [OF m] by (auto simp: before_month_def DAYS_BEFORE_MONTH_def)
  then have td: "jan1 (tm_year t + 1900) \<le> tm_day t" "tm_day t \<le> jan1 (tm_year t + 1900) + 366"
    using d by (auto simp: tm_day_def day_number_def)
  have l70: "leaps 1970 = 477" by (simp add: leaps_def)
  show ?thesis
  proof (rule ccontr)
    assume "\<not> ?thesis"
    then consider "tm_year t > 10000" | "tm_year t < -10000" by linarith
    then show False
    proof cases
      case 1
      then have "3600000 \<le> jan1 (tm_year t + 1900)" using leaps_bounds(1) [of "tm_year t + 1900"] by (simp add: jan1_def l70)
      then show False using td v hms assms(2) by simp
    next
      case 2
      then have "jan1 (tm_year t + 1900) \<le> -3600000" using leaps_bounds(2) [of "tm_year t + 1900"] by (simp add: jan1_def l70)
      then show False using td v hms assms(2) by simp
    qed
  qed
qed

text \<open>
  \<open>mktime\<close> is the inverse of \<open>localtime_r\<close> in a zone without daylight saving time
  and with an offset of less than a day: for every time within \<open>2 ^ 37\<close> seconds, or
  4300 years, of the epoch, it returns the time again.
\<close>
theorem mktime_localtime_r:
  assumes "\<not> tzdaylight tz" "\<bar>s\<bar> \<le> 2 ^ 37" "\<bar>r_offset (tzrule0 tz)\<bar> < 86400"
  shows "\<exists>t t'. localtime_r tz s = Some (t, tz) \<and> mktime tz t = Some (s, t', tz) \<and> is_utc (s - r_offset (tzrule0 tz)) t'"
proof -
  let ?v = "s - r_offset (tzrule0 tz)"
  have "\<bar>s\<bar> \<le> 2 ^ 55" using assms(2) by simp
  then obtain t where t: "localtime_r tz s = Some (t, tz)" "is_utc ?v t"
    using localtime_std [OF assms(1) _ assms(3)] by blast
  have v: "tm_value t = ?v" using t(2) tm_value_valid [of t] by (simp add: is_utc_def)
  have b: "\<bar>?v\<bar> \<le> 2 ^ 37 + 86400" using assms(2,3) by linarith
  have y: "\<bar>tm_year t'\<bar> \<le> 10000" if "tm_valid t'" "tm_secs t' = ?v" for t'
    using year_in_range [of ?v "t'\<lparr>tm_wday := (tm_day t' + 4) mod 7,
      tm_yday := before_month (leap_year (tm_year t' + 1900)) (tm_mon t') + tm_mday t' - 1\<rparr>"] that b
    by (auto simp: is_utc_def tm_valid_def tm_secs_def tm_day_def)
  have "month_len (leap_year (tm_year t + 1900)) (tm_mon t) \<le> 31"
    using t(2) mon_cases [of "tm_mon t"] by (auto simp: is_utc_def tm_valid_def month_len_def DAYS_IN_MONTH_def)
  then have "tm_bounded t" using t(2) y [of t] by (auto simp: is_utc_def tm_valid_def tm_bounded_def)
  then obtain t' where "mktime tz t = Some (s, t', tz)" "is_utc ?v t'"
    using mktime_std [OF assms(1), of t] y unfolding v by force
  then show ?thesis using t(1) by blast
qed

theorem mktime_localtime_r_witness:
  "let tz = tz_utc\<lparr>tzrule0 := (tzrule0 tz_utc)\<lparr>r_offset := 36000\<rparr>\<rparr>
   in \<exists>t t'. localtime_r tz 1000000 = Some (t, tz) \<and> mktime tz t = Some (1000000, t', tz) \<and>
     is_utc (1000000 - r_offset (tzrule0 tz)) t'"
  unfolding Let_def by (rule mktime_localtime_r) (simp_all add: tz_utc_def Let_def)

end
