(* ===== verification/Kernel_Queues.thy ===== *)
theory Kernel_Queues
  imports Main
begin

text \<open>
  The two queues of the kernel (\<open>kernel/templates\<close>): \<open>CircularBuffer\<close>, the
  bounded buffer behind the serial port and the keyboard, and \<open>List\<close>, the
  linked list behind the wait queues and the run queue.  Both are first-in
  first-out: they implement the same queue of values.

  A failed \<open>assert\<close> is the value \<open>None\<close>.
\<close>

section \<open>CircularBuffer\<close>

text \<open>\<open>S\<close> is the length of \<open>cdata\<close>.\<close>

record 'a cbuf =
  cdata :: "'a list"
  cfront :: int
  cback :: int

definition cb_init :: "'a list \<Rightarrow> 'a cbuf" where
  "cb_init d = \<lparr>cdata = d, cfront = -1, cback = -1\<rparr>"

definition cb_full :: "'a cbuf \<Rightarrow> bool" where
  "cb_full q =
     (if cfront q = 0 \<and> cback q = int (length (cdata q)) - 1 then True
      else if cfront q = cback q + 1 then True
      else False)"

definition cb_empty :: "'a cbuf \<Rightarrow> bool" where
  "cb_empty q = (if cfront q = -1 then True else False)"

definition cb_push_back :: "'a \<Rightarrow> 'a cbuf \<Rightarrow> 'a cbuf option" where
  "cb_push_back what q =
     (if cb_full q then None
      else
        let q = (if cfront q = -1 then q\<lparr>cfront := 0\<rparr> else q);
            q = q\<lparr>cback := (cback q + 1) mod int (length (cdata q))\<rparr>
        in Some (q\<lparr>cdata := (cdata q)[nat (cback q) := what]\<rparr>))"

definition cb_pop_back :: "'a cbuf \<Rightarrow> ('a \<times> 'a cbuf) option" where
  "cb_pop_back q =
     (if cb_empty q then None
      else
        let ret = cdata q ! nat (cfront q)
        in if cfront q = cback q then Some (ret, q\<lparr>cfront := -1, cback := -1\<rparr>)
           else Some (ret, q\<lparr>cfront := (cfront q + 1) mod int (length (cdata q))\<rparr>))"

section \<open>List\<close>

text \<open>
  Nodes live in a store; address 0 is \<open>nullptr\<close>.  \<open>nlist\<close> says whether the node
  is in this list (\<open>list != nullptr\<close>).
\<close>

record 'a lnode =
  nval :: 'a
  nnext :: nat
  nlist :: bool

record 'a llist =
  lstore :: "nat \<Rightarrow> 'a lnode option"
  lhead :: nat
  ltail :: nat
  lsize :: nat

definition l_create_node :: "'a \<Rightarrow> 'a lnode" where
  "l_create_node v = \<lparr>nval = v, nnext = 0, nlist = False\<rparr>"

text \<open>\<open>emplace_front\<close> of a node that is in the store.\<close>

definition l_emplace_front :: "nat \<Rightarrow> 'a llist \<Rightarrow> 'a llist option" where
  "l_emplace_front n l =
     (case lstore l n of
        None \<Rightarrow> None
      | Some nd \<Rightarrow>
          if nlist nd then None
          else
            let l = l\<lparr>lstore := (lstore l)(n \<mapsto> nd\<lparr>nlist := True\<rparr>)\<rparr>
            in if lhead l \<noteq> 0 then
                 if ltail l = 0 \<or> lsize l = 0 then None
                 else
                   (case lstore l (lhead l) of
                      None \<Rightarrow> None
                    | Some h \<Rightarrow>
                        Some (l\<lparr>lstore := (lstore l)(lhead l \<mapsto> h\<lparr>nnext := n\<rparr>), lhead := n, lsize := lsize l + 1\<rparr>))
               else if lsize l \<noteq> 0 then None
               else Some (l\<lparr>lhead := n, ltail := n, lsize := lsize l + 1\<rparr>))"

text \<open>\<open>emplace_front\<close> of a value: \<open>n\<close> is the address \<open>new\<close> returns.\<close>

definition l_emplace_front_val :: "nat \<Rightarrow> 'a \<Rightarrow> 'a llist \<Rightarrow> 'a llist option" where
  "l_emplace_front_val n v l =
     l_emplace_front n (l\<lparr>lstore := (lstore l)(n \<mapsto> l_create_node v)\<rparr>)"

definition l_back :: "'a llist \<Rightarrow> 'a option" where
  "l_back l =
     (if ltail l \<noteq> 0 then if lsize l > 0 then map_option nval (lstore l (ltail l)) else None
      else None)"

definition l_pop_back :: "'a llist \<Rightarrow> 'a llist option" where
  "l_pop_back l =
     (if lhead l = 0 then if lsize l = 0 then Some l else None
      else if lsize l = 0 then None
      else
        let l = l\<lparr>lsize := lsize l - 1\<rparr>
        in if ltail l = lhead l then
             if lsize l \<noteq> 0 then None
             else Some (l\<lparr>lstore := (lstore l)(ltail l := None), ltail := 0, lhead := 0\<rparr>)
           else
             (case lstore l (ltail l) of
                None \<Rightarrow> None
              | Some t \<Rightarrow> Some (l\<lparr>ltail := nnext t, lstore := (lstore l)(ltail l := None)\<rparr>)))"

text \<open>\<open>extract_back\<close>: the address of the node taken out, 0 when the list is empty.\<close>

definition l_extract_back :: "'a llist \<Rightarrow> (nat \<times> 'a llist) option" where
  "l_extract_back l =
     (if lhead l = 0 then if lsize l = 0 then Some (0, l) else None
      else if lsize l = 0 then None
      else
        let l = l\<lparr>lsize := lsize l - 1\<rparr>
        in (case lstore l (ltail l) of
              None \<Rightarrow> None
            | Some t \<Rightarrow>
                if ltail l = lhead l then
                  if lsize l \<noteq> 0 then None
                  else Some (ltail l, l\<lparr>lstore := (lstore l)(ltail l \<mapsto> t\<lparr>nlist := False\<rparr>), ltail := 0, lhead := 0\<rparr>)
                else Some (ltail l, l\<lparr>lstore := (lstore l)(ltail l \<mapsto> t\<lparr>nlist := False\<rparr>), ltail := nnext t\<rparr>)))"

definition l_empty :: "'a llist \<Rightarrow> bool option" where
  "l_empty l =
     (if (ltail l = 0) = (lhead l = 0) \<and> (lhead l = 0) = (lsize l = 0) then Some (lhead l = 0) else None)"

section \<open>The queue both implement\<close>

text \<open>
  A queue with an invariant and the values it holds, in the order in which they
  come out; \<open>room\<close> says when one more value can be put in.
\<close>

locale fifo =
  fixes inv :: "'q \<Rightarrow> bool" and vals :: "'q \<Rightarrow> 'a list" and room :: "'q \<Rightarrow> 'k \<Rightarrow> bool"
    and put :: "'k \<Rightarrow> 'a \<Rightarrow> 'q \<Rightarrow> 'q option" and get :: "'q \<Rightarrow> ('a \<times> 'q) option"
  assumes put_ok: "inv q \<Longrightarrow> room q k \<Longrightarrow> \<exists>q'. put k x q = Some q' \<and> inv q' \<and> vals q' = vals q @ [x]"
    and get_ok: "inv q \<Longrightarrow> vals q = x # xs \<Longrightarrow> \<exists>q'. get q = Some (x, q') \<and> inv q' \<and> vals q' = xs"
    and get_empty: "inv q \<Longrightarrow> vals q = [] \<Longrightarrow> get q = None"
begin

primrec take_n :: "nat \<Rightarrow> 'q \<Rightarrow> ('a list \<times> 'q) option" where
  "take_n 0 q = Some ([], q)"
| "take_n (Suc n) q =
     (case get q of None \<Rightarrow> None | Some (x, q) \<Rightarrow> map_option (\<lambda>(xs, q). (x # xs, q)) (take_n n q))"

lemma take_n_vals:
  assumes "inv q" "n \<le> length (vals q)"
  shows "\<exists>q'. take_n n q = Some (take n (vals q), q') \<and> inv q' \<and> vals q' = drop n (vals q)"
  using assms
proof (induction n arbitrary: q)
  case (Suc n)
  then obtain x xs where x: "vals q = x # xs" by (cases "vals q") auto
  then obtain q' where q': "get q = Some (x, q')" "inv q'" "vals q' = xs" using get_ok Suc.prems(1) by blast
  then show ?case using Suc.IH [of q'] Suc.prems(2) x by auto
qed auto

lemma put_get_order:
  assumes "inv q" "room q k" "put k x q = Some q'"
  shows "\<exists>q''. take_n (length (vals q) + 1) q' = Some (vals q @ [x], q'') \<and> vals q'' = []"
proof -
  have "inv q'" "vals q' = vals q @ [x]" using put_ok [OF assms(1,2), of x] assms(3) by auto
  then show ?thesis using take_n_vals [of q' "length (vals q) + 1"] by auto
qed

end

section \<open>The circular buffer is a queue\<close>

definition cb_inv :: "'a cbuf \<Rightarrow> bool" where
  "cb_inv q \<longleftrightarrow> cdata q \<noteq> [] \<and>
     (cfront q = -1 \<and> cback q = -1 \<or>
      0 \<le> cfront q \<and> cfront q < int (length (cdata q)) \<and> 0 \<le> cback q \<and> cback q < int (length (cdata q)))"

definition cb_count :: "'a cbuf \<Rightarrow> nat" where
  "cb_count q = (if cfront q = -1 then 0 else nat ((cback q - cfront q) mod int (length (cdata q))) + 1)"

definition cb_vals :: "'a cbuf \<Rightarrow> 'a list" where
  "cb_vals q = map (\<lambda>i. cdata q ! nat ((cfront q + int i) mod int (length (cdata q)))) [0..<cb_count q]"

lemma cb_count_le: "cb_inv q \<Longrightarrow> cb_count q \<le> length (cdata q)"
proof -
  assume "cb_inv q"
  then have "0 < int (length (cdata q))" by (auto simp: cb_inv_def)
  then have "(cback q - cfront q) mod int (length (cdata q)) < int (length (cdata q))" by (rule pos_mod_bound)
  then have "nat ((cback q - cfront q) mod int (length (cdata q))) < length (cdata q)"
    using \<open>0 < int (length (cdata q))\<close> by (simp add: nat_less_iff)
  then show ?thesis unfolding cb_count_def by auto
qed

lemma diff_mod:
  fixes a b s :: int
  assumes "0 \<le> a" "a < s" "0 \<le> b" "b < s"
  shows "(b - a) mod s = (if a \<le> b then b - a else b - a + s)"
proof (cases "a \<le> b")
  case False
  have "(b - a) mod s = (b - a + s) mod s" by simp
  also have "\<dots> = b - a + s" using assms False by (intro mod_pos_pos_trivial) auto
  finally show ?thesis using False by simp
qed (use assms in simp)

lemma cb_full_count: "cb_inv q \<Longrightarrow> cb_full q \<longleftrightarrow> cb_count q = length (cdata q)"
proof -
  let ?s = "int (length (cdata q))"
  assume inv: "cb_inv q"
  show ?thesis
  proof (cases "cfront q = -1")
    case True
    then show ?thesis using inv by (auto simp: cb_inv_def cb_full_def cb_count_def)
  next
    case False
    then have fb: "0 \<le> cfront q" "cfront q < ?s" "0 \<le> cback q" "cback q < ?s"
      using inv by (auto simp: cb_inv_def)
    let ?d = "(cback q - cfront q) mod ?s"
    have "0 \<le> ?d" using fb by (intro pos_mod_sign) linarith
    then have "cb_count q = length (cdata q) \<longleftrightarrow> ?d + 1 = ?s" using False by (auto simp: cb_count_def)
    then show ?thesis using diff_mod [OF fb] fb False by (auto simp: cb_full_def)
  qed
qed

lemma succ_mod:
  fixes b s :: int
  assumes "0 \<le> b" "b < s"
  shows "(b + 1) mod s = (if b + 1 = s then 0 else b + 1)"
  using assms by auto

lemma cb_push_count:
  fixes f b s :: int
  assumes "0 \<le> f" "f < s" "0 \<le> b" "b < s" "(b - f) mod s + 1 \<noteq> s"
  shows "((b + 1) mod s - f) mod s = (b - f) mod s + 1"
proof -
  have "((b + 1) mod s - f) mod s = (b - f + 1) mod s" by (simp add: mod_diff_left_eq algebra_simps)
  also have "\<dots> = ((b - f) mod s + 1) mod s" by (simp add: mod_add_left_eq)
  also have "\<dots> = (b - f) mod s + 1"
    using assms pos_mod_bound [of s "b - f"] pos_mod_sign [of s "b - f"] by (intro mod_pos_pos_trivial) linarith+
  finally show ?thesis .
qed

lemma cb_slot:
  fixes f b s :: int
  assumes "0 \<le> f" "f < s" "0 \<le> b" "b < s"
  shows "(f + (b - f) mod s) mod s = b"
  using assms by (simp add: mod_add_right_eq)

lemma cb_vals_update:
  assumes "cb_inv q" "cfront q \<noteq> -1" "j < cb_count q"
    and "i = nat ((cfront q + int n) mod int (length (cdata q)))" "n = cb_count q" "n < length (cdata q)"
  shows "nat ((cfront q + int j) mod int (length (cdata q))) \<noteq> i"
proof
  let ?s = "int (length (cdata q))"
  assume "nat ((cfront q + int j) mod ?s) = i"
  moreover have s: "0 < ?s" using assms(1) by (auto simp: cb_inv_def)
  ultimately have "(cfront q + int j) mod ?s = (cfront q + int n) mod ?s"
    using assms(4) pos_mod_sign [OF s] by (metis eq_nat_nat_iff)
  then have "?s dvd int n - int j" by (metis add_diff_cancel_left mod_eq_dvd_iff)
  moreover have "0 < int n - int j" "int n - int j < ?s" using assms(3,5,6) by auto
  ultimately show False by (auto dest: zdvd_imp_le)
qed

lemma cb_push_ok:
  assumes "cb_inv q" "\<not> cb_full q"
  shows "\<exists>q'. cb_push_back x q = Some q' \<and> cb_inv q' \<and> cb_vals q' = cb_vals q @ [x]"
proof -
  let ?s = "int (length (cdata q))"
  have s: "0 < ?s" "cdata q \<noteq> []" using assms(1) by (auto simp: cb_inv_def)
  show ?thesis
  proof (cases "cfront q = -1")
    case True
    then have b: "cback q = -1" using assms(1) by (auto simp: cb_inv_def)
    have "cb_push_back x q = Some (q\<lparr>cfront := 0, cback := 0, cdata := (cdata q)[0 := x]\<rparr>)"
      using assms(2) True b by (simp add: cb_push_back_def)
    moreover have "cb_vals (q\<lparr>cfront := 0, cback := 0, cdata := (cdata q)[0 := x]\<rparr>) = cb_vals q @ [x]"
      using True s by (simp add: cb_vals_def cb_count_def)
    ultimately show ?thesis using s by (auto simp: cb_inv_def)
  next
    case False
    then have fb: "0 \<le> cfront q" "cfront q < ?s" "0 \<le> cback q" "cback q < ?s"
      using assms(1) by (auto simp: cb_inv_def)
    let ?b = "(cback q + 1) mod ?s"
    let ?q = "q\<lparr>cback := ?b, cdata := (cdata q)[nat ?b := x]\<rparr>"
    have ne: "cb_count q \<noteq> length (cdata q)" using assms cb_full_count by auto
    then have m: "(cback q - cfront q) mod ?s + 1 \<noteq> ?s"
      using False pos_mod_sign [OF s(1), of "cback q - cfront q"] by (auto simp: cb_count_def)
    have c: "cb_count ?q = cb_count q + 1"
      using False cb_push_count [OF fb m] pos_mod_sign [OF s(1), of "cback q - cfront q"]
      by (simp add: cb_count_def)
    have n: "int (cb_count q) = (cback q - cfront q) mod ?s + 1"
      using False pos_mod_sign [OF s(1), of "cback q - cfront q"] by (simp add: cb_count_def)
    have slot: "(cfront q + int (cb_count q)) mod ?s = ?b"
      using cb_slot [OF fb] unfolding n by (metis (no_types, opaque_lifting) add.assoc mod_add_left_eq)
    have lt: "cb_count q < length (cdata q)" using ne cb_count_le [OF assms(1)] by simp
    have b: "nat ?b < length (cdata q)" using s pos_mod_bound [OF s(1), of "cback q + 1"] by linarith
    have "cb_vals ?q = cb_vals q @ [x]"
    proof -
      have "nat ((cfront q + int j) mod ?s) \<noteq> nat ?b" if "j < cb_count q" for j
        using cb_vals_update [OF assms(1) False that refl refl lt] unfolding slot .
      then show ?thesis unfolding cb_vals_def c using slot b by (auto simp: nth_list_update) blast
    qed
    moreover have "cb_push_back x q = Some ?q" using assms(2) False by (simp add: cb_push_back_def)
    moreover have "cb_inv ?q" using fb s pos_mod_bound [OF s(1)] pos_mod_sign [OF s(1)] by (simp add: cb_inv_def)
    ultimately show ?thesis by blast
  qed
qed

lemma cb_pop_ok:
  assumes "cb_inv q" "cb_vals q = x # xs"
  shows "\<exists>q'. cb_pop_back q = Some (x, q') \<and> cb_inv q' \<and> cb_vals q' = xs"
proof -
  let ?s = "int (length (cdata q))"
  have nf: "cfront q \<noteq> -1" using assms(2) by (auto simp: cb_vals_def cb_count_def)
  then have fb: "0 \<le> cfront q" "cfront q < ?s" "0 \<le> cback q" "cback q < ?s"
    using assms(1) by (auto simp: cb_inv_def)
  then have s: "0 < ?s" "cdata q \<noteq> []" by auto
  let ?d = "(cback q - cfront q) mod ?s"
  have d0: "0 \<le> ?d" using s(1) by (rule pos_mod_sign)
  have c: "cb_count q = Suc (nat ?d)" using nf by (simp add: cb_count_def)
  have v: "cb_vals q = cdata q ! nat (cfront q) #
      map (\<lambda>i. cdata q ! nat ((cfront q + 1 + int i) mod ?s)) [0..<nat ?d]"
    unfolding cb_vals_def c map_upt_Suc using fb by (simp add: algebra_simps del: upt_Suc)
  show ?thesis
  proof (cases "cfront q = cback q")
    case True
    then have "?d = 0" by simp
    then show ?thesis using True v assms(2) nf s
      by (auto simp: cb_pop_back_def cb_empty_def cb_inv_def cb_vals_def cb_count_def)
  next
    case False
    let ?f = "(cfront q + 1) mod ?s"
    let ?q = "q\<lparr>cfront := ?f\<rparr>"
    have "?d \<noteq> 0" using False cb_slot [OF fb] fb by auto
    then have pos: "1 \<le> ?d" using d0 by linarith
    have "(cback q - ?f) mod ?s = (cback q - cfront q - 1) mod ?s" by (simp add: mod_diff_right_eq algebra_simps)
    also have "\<dots> = (?d - 1) mod ?s" by (simp add: mod_diff_left_eq)
    also have "\<dots> = ?d - 1" using pos pos_mod_bound [OF s(1), of "cback q - cfront q"] by (intro mod_pos_pos_trivial) auto
    finally have "(cback q - ?f) mod ?s = ?d - 1" .
    moreover have f0: "0 \<le> ?f" "?f < ?s" using s(1) by (auto intro: pos_mod_sign pos_mod_bound)
    ultimately have c': "cb_count ?q = nat ?d" using pos by (auto simp: cb_count_def nat_diff_distrib)
    have "cb_vals ?q = map (\<lambda>i. cdata q ! nat ((cfront q + 1 + int i) mod ?s)) [0..<nat ?d]"
      unfolding cb_vals_def c' by (simp add: mod_add_left_eq)
    moreover have "cb_pop_back q = Some (cdata q ! nat (cfront q), ?q)"
      using False nf by (simp add: cb_pop_back_def cb_empty_def)
    moreover have "cb_inv ?q" using f0 fb s by (simp add: cb_inv_def)
    ultimately show ?thesis using v assms(2) by auto
  qed
qed

lemma cb_pop_empty: "cb_inv q \<Longrightarrow> cb_vals q = [] \<Longrightarrow> cb_pop_back q = None"
  by (auto simp: cb_vals_def cb_count_def cb_pop_back_def cb_empty_def split: if_splits)

interpretation cb: fifo cb_inv cb_vals "\<lambda>q (k :: unit). \<not> cb_full q" "\<lambda>k. cb_push_back" cb_pop_back
  by unfold_locales (auto intro: cb_push_ok cb_pop_ok cb_pop_empty)

section \<open>The linked list is a queue\<close>

text \<open>The addresses of the nodes from the tail to the head.\<close>

fun linked :: "(nat \<Rightarrow> 'a lnode option) \<Rightarrow> nat list \<Rightarrow> bool" where
  "linked st [] = True"
| "linked st [a] = (a \<noteq> 0 \<and> (\<exists>n. st a = Some n \<and> nlist n))"
| "linked st (a # b # as) = (a \<noteq> 0 \<and> (\<exists>n. st a = Some n \<and> nlist n \<and> nnext n = b) \<and> linked st (b # as))"

definition l_nodes :: "'a llist \<Rightarrow> nat list \<Rightarrow> bool" where
  "l_nodes l as \<longleftrightarrow> distinct as \<and> linked (lstore l) as \<and> lsize l = length as \<and>
     (if as = [] then lhead l = 0 \<and> ltail l = 0 else ltail l = hd as \<and> lhead l = last as)"

definition l_inv :: "'a llist \<Rightarrow> bool" where
  "l_inv l \<longleftrightarrow> (\<exists>as. l_nodes l as)"

fun walk :: "(nat \<Rightarrow> 'a lnode option) \<Rightarrow> nat \<Rightarrow> nat \<Rightarrow> 'a list" where
  "walk st a 0 = []"
| "walk st a (Suc n) = (case st a of None \<Rightarrow> [] | Some nd \<Rightarrow> nval nd # walk st (nnext nd) n)"

definition l_vals :: "'a llist \<Rightarrow> 'a list" where
  "l_vals l = walk (lstore l) (ltail l) (lsize l)"

lemma walk_linked: "linked st as \<Longrightarrow> as \<noteq> [] \<Longrightarrow> walk st (hd as) (length as) = map (\<lambda>a. nval (the (st a))) as"
  by (induction st as rule: linked.induct) auto

lemma l_vals_nodes: "l_nodes l as \<Longrightarrow> l_vals l = map (\<lambda>a. nval (the (lstore l a))) as"
  using walk_linked [of "lstore l" as] by (cases as) (auto simp: l_nodes_def l_vals_def)

lemma linked_node: "linked st as \<Longrightarrow> a \<in> set as \<Longrightarrow> a \<noteq> 0 \<and> (\<exists>n. st a = Some n \<and> nlist n)"
  by (induction st as rule: linked.induct) auto

lemma linked_cong: "(\<And>a. a \<in> set as \<Longrightarrow> st' a = st a) \<Longrightarrow> linked st' as = linked st as"
  by (induction st as rule: linked.induct) auto

lemma linked_upd: "a \<notin> set as \<Longrightarrow> linked (st(a := v)) as = linked st as"
  by (rule linked_cong) auto

lemma linked_snoc:
  assumes "linked st as" "as \<noteq> []" "distinct (as @ [n])" "n \<noteq> 0" "st n = Some nd" "nlist nd" "st (last as) = Some h"
  shows "linked (st(last as \<mapsto> h\<lparr>nnext := n\<rparr>)) (as @ [n])"
  using assms
proof (induction st as rule: linked.induct)
  case (2 st a)
  then show ?case by auto
next
  case (3 st a b as)
  have "linked (st(last (b # as) \<mapsto> h\<lparr>nnext := n\<rparr>)) ((b # as) @ [n])" using 3 by (intro 3(1)) auto
  moreover have "a \<noteq> last (b # as)" using 3(4) by (metis append_Cons distinct.simps(2) last_in_set list.distinct(1) Un_iff set_append)
  ultimately show ?case using 3 by auto
qed simp

definition l_room :: "'a llist \<Rightarrow> nat \<Rightarrow> bool" where
  "l_room l n \<longleftrightarrow> n \<noteq> 0 \<and> lstore l n = None"

lemma l_put_ok:
  assumes "l_inv l" "l_room l n"
  shows "\<exists>l'. l_emplace_front_val n x l = Some l' \<and> l_inv l' \<and> l_vals l' = l_vals l @ [x]"
proof -
  obtain as where as: "l_nodes l as" using assms(1) by (auto simp: l_inv_def)
  have n: "n \<noteq> 0" "lstore l n = None" using assms(2) by (auto simp: l_room_def)
  have nin: "n \<notin> set as" using as n linked_node [of "lstore l" as n] by (auto simp: l_nodes_def)
  let ?nd = "\<lparr>nval = x, nnext = 0, nlist = True\<rparr>"
  show ?thesis
  proof (cases "as = []")
    case True
    then have "l_emplace_front_val n x l =
        Some (l\<lparr>lstore := (lstore l)(n \<mapsto> ?nd), lhead := n, ltail := n, lsize := 1\<rparr>)"
      using as by (simp add: l_emplace_front_val_def l_emplace_front_def l_create_node_def l_nodes_def)
    moreover have "l_nodes (l\<lparr>lstore := (lstore l)(n \<mapsto> ?nd), lhead := n, ltail := n, lsize := 1\<rparr>) [n]"
      using n by (simp add: l_nodes_def)
    moreover have "l_vals l = []" using as True by (simp add: l_vals_nodes)
    ultimately show ?thesis by (auto simp: l_inv_def l_vals_nodes)
  next
    case False
    let ?st = "(lstore l)(n \<mapsto> ?nd)"
    have h: "lhead l = last as" "lhead l \<noteq> 0" "ltail l \<noteq> 0" "lsize l \<noteq> 0" "lsize l = length as" "ltail l = hd as"
      using as False linked_node [of "lstore l" as "last as"] linked_node [of "lstore l" as "hd as"]
      by (auto simp: l_nodes_def)
    obtain hn where hn: "lstore l (last as) = Some hn" "last as \<noteq> n"
    proof -
      have "last as \<noteq> n" using False nin by (metis last_in_set)
      then show ?thesis using that as False linked_node [of "lstore l" as "last as"] by (auto simp: l_nodes_def)
    qed
    let ?l = "l\<lparr>lstore := ?st(last as \<mapsto> hn\<lparr>nnext := n\<rparr>), lhead := n, lsize := lsize l + 1\<rparr>"
    have "l_emplace_front_val n x l = Some ?l"
      using h hn by (simp add: l_emplace_front_val_def l_emplace_front_def l_create_node_def)
    moreover have nodes: "l_nodes ?l (as @ [n])"
    proof -
      have "linked ?st as" using as nin by (simp add: linked_upd l_nodes_def)
      then have "linked (?st(last as \<mapsto> hn\<lparr>nnext := n\<rparr>)) (as @ [n])"
        using False as n nin hn by (intro linked_snoc) (auto simp: l_nodes_def)
      then show ?thesis using as nin h False by (simp add: l_nodes_def)
    qed
    moreover have "l_vals ?l = l_vals l @ [x]"
      unfolding l_vals_nodes [OF nodes] l_vals_nodes [OF as] using hn nin False by auto
    ultimately show ?thesis by (auto simp: l_inv_def)
  qed
qed

text \<open>Taking the oldest value: \<open>back\<close> followed by \<open>pop_back\<close>.\<close>

definition l_get :: "'a llist \<Rightarrow> ('a \<times> 'a llist) option" where
  "l_get l = (case l_back l of None \<Rightarrow> None | Some x \<Rightarrow> map_option (Pair x) (l_pop_back l))"

lemma l_get_ok:
  assumes "l_inv l" "l_vals l = x # xs"
  shows "\<exists>l'. l_get l = Some (x, l') \<and> l_inv l' \<and> l_vals l' = xs"
proof -
  obtain as where as: "l_nodes l as" using assms(1) by (auto simp: l_inv_def)
  then obtain a bs where a: "as = a # bs" using assms(2) by (cases as) (auto simp: l_vals_nodes)
  obtain nd where nd: "lstore l a = Some nd" "a \<noteq> 0" "nval nd = x"
  proof -
    have "a \<noteq> 0 \<and> (\<exists>n. lstore l a = Some n)" using as a linked_node [of "lstore l" as a] by (auto simp: l_nodes_def)
    moreover have "nval (the (lstore l a)) = x" using assms(2) a by (simp add: l_vals_nodes [OF as])
    ultimately show ?thesis using that by auto
  qed
  have h: "ltail l = a" "lsize l = Suc (length bs)" "lhead l = last as" "distinct as" "linked (lstore l) as"
    using as a by (auto simp: l_nodes_def)
  have bk: "l_back l = Some x" using h nd by (simp add: l_back_def)
  show ?thesis
  proof (cases bs)
    case Nil
    then have "l_pop_back l = Some (l\<lparr>lsize := 0, lstore := (lstore l)(a := None), ltail := 0, lhead := 0\<rparr>)"
      using h a nd by (simp add: l_pop_back_def)
    moreover have "l_nodes (l\<lparr>lsize := 0, lstore := (lstore l)(a := None), ltail := 0, lhead := 0\<rparr>) []"
      by (simp add: l_nodes_def)
    moreover have "xs = []" using assms(2) as a Nil by (simp add: l_vals_nodes)
    ultimately show ?thesis using bk by (auto simp: l_get_def l_inv_def l_vals_nodes)
  next
    case (Cons b cs)
    have ne: "a \<noteq> last as" "last as \<noteq> 0" using h a Cons nd linked_node [OF h(5), of "last as"] by auto
    let ?l = "l\<lparr>lsize := length bs, ltail := b, lstore := (lstore l)(a := None)\<rparr>"
    have nx: "nnext nd = b" "linked (lstore l) bs" using h(5) a Cons nd by auto
    have "l_pop_back l = Some ?l" using h nd ne nx by (simp add: l_pop_back_def)
    moreover have nodes: "l_nodes ?l bs"
    proof -
      have "linked ((lstore l)(a := None)) bs"
        using nx(2) h(4) a by (simp add: linked_upd)
      then show ?thesis using h a Cons by (simp add: l_nodes_def)
    qed
    moreover have "l_vals ?l = xs"
      using assms(2) h(4) a by (auto simp: l_vals_nodes [OF nodes] l_vals_nodes [OF as])
    ultimately show ?thesis using bk by (auto simp: l_get_def l_inv_def)
  qed
qed

lemma l_get_empty: "l_inv l \<Longrightarrow> l_vals l = [] \<Longrightarrow> l_get l = None"
  by (auto simp: l_inv_def l_vals_nodes l_nodes_def l_get_def l_back_def)

interpretation ll: fifo l_inv l_vals l_room l_emplace_front_val l_get
  by unfold_locales (auto intro: l_put_ok l_get_ok l_get_empty)

lemma l_extract_ok:
  assumes "l_nodes l (a # bs)"
  shows "\<exists>l'. l_extract_back l = Some (a, l') \<and> l_nodes l' bs \<and> l_vals l' = tl (l_vals l) \<and>
    (\<exists>nd. lstore l' a = Some nd \<and> \<not> nlist nd \<and> nval nd = hd (l_vals l))"
proof -
  have h: "ltail l = a" "lsize l = Suc (length bs)" "lhead l = last (a # bs)" "distinct (a # bs)" "linked (lstore l) (a # bs)"
    using assms by (auto simp: l_nodes_def)
  obtain nd where nd: "lstore l a = Some nd" "a \<noteq> 0" using linked_node [OF h(5), of a] by auto
  have v: "hd (l_vals l) = nval nd" "tl (l_vals l) = map (\<lambda>a. nval (the (lstore l a))) bs"
    using l_vals_nodes [OF assms] nd by auto
  let ?st = "(lstore l)(a \<mapsto> nd\<lparr>nlist := False\<rparr>)"
  have keep: "map (\<lambda>a. nval (the (?st a))) bs = map (\<lambda>a. nval (the (lstore l a))) bs" using h(4) by auto
  show ?thesis
  proof (cases bs)
    case Nil
    let ?l = "l\<lparr>lsize := 0, lstore := ?st, ltail := 0, lhead := 0\<rparr>"
    have "l_extract_back l = Some (a, ?l)" using h nd Nil by (simp add: l_extract_back_def)
    moreover have n: "l_nodes ?l []" by (simp add: l_nodes_def)
    ultimately show ?thesis using v Nil by (auto simp: l_vals_nodes [OF n])
  next
    case (Cons b cs)
    let ?l = "l\<lparr>lsize := length bs, lstore := ?st, ltail := b\<rparr>"
    have ne: "a \<noteq> last (a # bs)" "last (a # bs) \<noteq> 0" using h Cons linked_node [OF h(5), of "last (a # bs)"] by auto
    have nx: "nnext nd = b" "linked (lstore l) bs" using h(5) Cons nd by auto
    have e: "l_extract_back l = Some (a, ?l)" using h nd ne nx by (simp add: l_extract_back_def)
    have n: "l_nodes ?l bs"
    proof -
      have "linked ?st bs" using nx(2) h(4) by (simp add: linked_upd)
      then show ?thesis using h Cons by (simp add: l_nodes_def)
    qed
    show ?thesis using e n v keep by (auto simp: l_vals_nodes [OF n])
  qed
qed

section \<open>Properties\<close>

text \<open>
  C24: the circular buffer is a bounded first-in first-out queue: pushing onto a
  buffer that is not full keeps its invariant and appends the value, popping
  gives the oldest value, and it is full exactly when it holds as many values as
  it has slots.  A push into a full buffer and a pop from an empty one fail.
\<close>

theorem circular_buffer_fifo:
  assumes "cb_inv q"
  shows "(cb_full q \<longleftrightarrow> length (cb_vals q) = length (cdata q)) \<and> (cb_empty q \<longleftrightarrow> cb_vals q = []) \<and>
    (\<not> cb_full q \<longrightarrow> (\<exists>q'. cb_push_back x q = Some q' \<and> cb_inv q' \<and> cb_vals q' = cb_vals q @ [x])) \<and>
    (\<forall>y ys. cb_vals q = y # ys \<longrightarrow> (\<exists>q'. cb_pop_back q = Some (y, q') \<and> cb_inv q' \<and> cb_vals q' = ys)) \<and>
    (cb_full q \<longrightarrow> cb_push_back x q = None) \<and> (cb_vals q = [] \<longrightarrow> cb_pop_back q = None)"
proof -
  have "length (cb_vals q) = cb_count q" by (simp add: cb_vals_def)
  moreover have "cb_empty q \<longleftrightarrow> cb_vals q = []" by (auto simp: cb_empty_def cb_vals_def cb_count_def)
  moreover have "cb_full q \<Longrightarrow> cb_push_back x q = None" by (simp add: cb_push_back_def)
  ultimately show ?thesis
    using cb_full_count [OF assms] cb.put_ok [OF assms] cb.get_ok [OF assms] cb.get_empty [OF assms] by auto
qed

theorem circular_buffer_fifo_witness:
  "\<exists>q'. cb_push_back 9 \<lparr>cdata = [1, 2, 3 :: int], cfront = 2, cback = 0\<rparr> = Some q' \<and> cb_vals q' = [3, 1, 9]"
proof -
  let ?q = "\<lparr>cdata = [1, 2, 3 :: int], cfront = 2, cback = 0\<rparr>"
  have "cb_inv ?q" "\<not> cb_full ?q" "cb_vals ?q = [3, 1]"
    by (simp_all add: cb_inv_def cb_full_def cb_vals_def cb_count_def upt_rec)
  then show ?thesis using circular_buffer_fifo [of ?q 9] by auto
qed

text \<open>
  C25: the linked list is a first-in first-out queue: no \<open>assert\<close> in it fails on
  a well-formed list, a value put in front comes out at the back after all the
  values before it, and a node taken out with \<open>extract_back\<close> is marked as being
  in no list.
\<close>

theorem linked_list_fifo:
  assumes "l_inv l" and "n \<noteq> 0" and "lstore l n = None"
  shows "\<exists>l'. l_emplace_front_val n x l = Some l' \<and> l_inv l' \<and> l_vals l' = l_vals l @ [x] \<and>
    (\<exists>l''. ll.take_n (length (l_vals l) + 1) l' = Some (l_vals l @ [x], l'') \<and> l_vals l'' = []) \<and>
    (\<exists>a l''. l_extract_back l' = Some (a, l'') \<and> l_inv l'' \<and> l_vals l'' = tl (l_vals l @ [x]) \<and>
      (\<exists>nd. lstore l'' a = Some nd \<and> \<not> nlist nd \<and> nval nd = hd (l_vals l @ [x])))"
proof -
  have r: "l_room l n" using assms by (simp add: l_room_def)
  obtain l' where l': "l_emplace_front_val n x l = Some l'" "l_inv l'" "l_vals l' = l_vals l @ [x]"
    using ll.put_ok [OF assms(1) r] by blast
  obtain as where as: "l_nodes l' as" using l'(2) by (auto simp: l_inv_def)
  then obtain a bs where "as = a # bs" using l'(3) by (cases as) (auto simp: l_vals_nodes)
  then have "\<exists>a l''. l_extract_back l' = Some (a, l'') \<and> l_inv l'' \<and> l_vals l'' = tl (l_vals l @ [x]) \<and>
      (\<exists>nd. lstore l'' a = Some nd \<and> \<not> nlist nd \<and> nval nd = hd (l_vals l @ [x]))"
    using l_extract_ok [of l' a bs] as l'(3) by (metis l_inv_def)
  then show ?thesis using l' ll.put_get_order [OF assms(1) r l'(1)] by blast
qed

theorem linked_list_fifo_witness:
  "\<exists>l'. l_emplace_front_val 5 (7 :: int) \<lparr>lstore = Map.empty, lhead = 0, ltail = 0, lsize = 0\<rparr> = Some l' \<and> l_vals l' = [7]"
  using linked_list_fifo [of "\<lparr>lstore = Map.empty, lhead = 0, ltail = 0, lsize = 0\<rparr>" 5 "7 :: int"]
  by (auto simp: l_inv_def l_nodes_def l_vals_def intro: exI [of _ "[]"])

end
