(* ===== verification/Kernel_Pointers.thy ===== *)
theory Kernel_Pointers
  imports Main "HOL-Library.Word" "HOL-Library.Monad_Syntax"
begin

text \<open>
  The smart pointers of the kernel (\<open>kernel/templates/PointersCollection.hpp\<close>): \<open>SharedPtr\<close>, \<open>WeakPtr\<close> and
  \<open>COWPointer\<close> on control blocks with two counters.

  The state has the control blocks and the objects that are allocated, and the pointer variables that are
  constructed, strong ones and weak ones, each with its two fields.  An address that \<open>new\<close> returns is a parameter
  and not in use.  Each loop around \<open>compare_exchange_weak\<close> is one atomic update of the counters.  \<open>None\<close> is an access to a
  control block that is not allocated, a failed assertion, or an object that is deleted twice.
\<close>

section \<open>State\<close>

record uses_block =
  uses_ctl :: "32 word"
  uses_obj :: "32 word"

record refptr =
  rp_ptr :: nat
  rp_base :: nat

abbreviation null_ptr :: refptr where
  "null_ptr \<equiv> \<lparr>rp_ptr = 0, rp_base = 0\<rparr>"

record 'a ptrs =
  ctls :: "nat \<Rightarrow> uses_block option"
  objs :: "nat \<Rightarrow> 'a option"
  svars :: "nat \<Rightarrow> refptr option"
  wvars :: "nat \<Rightarrow> refptr option"

section \<open>The control block\<close>

definition weak_lock :: "nat \<Rightarrow> 'a ptrs \<Rightarrow> 'a ptrs option" where
  "weak_lock b s = do {
     old \<leftarrow> ctls s b;
     if sint (uses_ctl old) \<ge> 1 then Some (s\<lparr>ctls := (ctls s)(b \<mapsto> old\<lparr>uses_ctl := uses_ctl old + 1\<rparr>)\<rparr>) else None }"

definition weak_release :: "nat \<Rightarrow> 'a ptrs \<Rightarrow> (bool \<times> 'a ptrs) option" where
  "weak_release b s = do {
     old \<leftarrow> ctls s b;
     let new = old\<lparr>uses_ctl := uses_ctl old - 1\<rparr>;
     Some (uses_ctl new = 0, s\<lparr>ctls := (ctls s)(b := if uses_ctl new = 0 then None else Some new)\<rparr>) }"

definition strong_lock :: "nat \<Rightarrow> 'a ptrs \<Rightarrow> (bool \<times> 'a ptrs) option" where
  "strong_lock b s = do {
     old \<leftarrow> ctls s b;
     if sint (uses_obj old) \<le> 0 then Some (False, s)
     else
       let new = \<lparr>uses_ctl = uses_ctl old + 1, uses_obj = uses_obj old + 1\<rparr> in
       if sint (uses_obj new) > 0 \<and> sint (uses_ctl new) \<ge> sint (uses_obj new)
       then Some (True, s\<lparr>ctls := (ctls s)(b \<mapsto> new)\<rparr>) else None }"

definition strong_release :: "nat \<Rightarrow> 'a ptrs \<Rightarrow> (bool \<times> 'a ptrs) option" where
  "strong_release b s = do {
     old \<leftarrow> ctls s b;
     let new = \<lparr>uses_ctl = uses_ctl old - 1, uses_obj = uses_obj old - 1\<rparr>;
     Some (uses_obj new = 0, s\<lparr>ctls := (ctls s)(b := if uses_ctl new = 0 then None else Some new)\<rparr>) }"

definition delete_obj :: "nat \<Rightarrow> 'a ptrs \<Rightarrow> 'a ptrs option" where
  "delete_obj a s = (if a = 0 then Some s else if objs s a = None then None else Some (s\<lparr>objs := (objs s)(a := None)\<rparr>))"

section \<open>Shared pointers\<close>

text \<open>\<open>SharedPtr(new T(x))\<close> with the object at \<open>a\<close> and the control block at \<open>b\<close>.\<close>

definition sp_new :: "nat \<Rightarrow> 'a \<Rightarrow> nat \<Rightarrow> nat \<Rightarrow> 'a ptrs \<Rightarrow> 'a ptrs" where
  "sp_new v x a b s = s\<lparr>objs := (objs s)(a \<mapsto> x), ctls := (ctls s)(b \<mapsto> \<lparr>uses_ctl = 1, uses_obj = 1\<rparr>),
     svars := (svars s)(v \<mapsto> \<lparr>rp_ptr = a, rp_base = b\<rparr>)\<rparr>"

definition sp_null :: "nat \<Rightarrow> 'a ptrs \<Rightarrow> 'a ptrs" where
  "sp_null v s = s\<lparr>svars := (svars s)(v \<mapsto> null_ptr)\<rparr>"

definition sp_unref :: "nat \<Rightarrow> 'a ptrs \<Rightarrow> 'a ptrs option" where
  "sp_unref v s = do {
     p \<leftarrow> svars s v;
     if rp_base p = 0 then Some s
     else do {
       (last, s) \<leftarrow> strong_release (rp_base p) s;
       s \<leftarrow> (if last then delete_obj (rp_ptr p) s else Some s);
       Some (s\<lparr>svars := (svars s)(v \<mapsto> null_ptr)\<rparr>) } }"

definition sp_destroy :: "nat \<Rightarrow> 'a ptrs \<Rightarrow> 'a ptrs option" where
  "sp_destroy v s = map_option (\<lambda>s. s\<lparr>svars := (svars s)(v := None)\<rparr>) (sp_unref v s)"

text \<open>The copy constructor ignores the result of \<open>strong_lock\<close>.\<close>

definition sp_copy :: "nat \<Rightarrow> nat \<Rightarrow> 'a ptrs \<Rightarrow> 'a ptrs option" where
  "sp_copy v other s = do {
     p \<leftarrow> svars s other;
     let s = s\<lparr>svars := (svars s)(v \<mapsto> p)\<rparr>;
     if rp_base p = 0 then Some s else map_option snd (strong_lock (rp_base p) s) }"

definition sp_move :: "nat \<Rightarrow> nat \<Rightarrow> 'a ptrs \<Rightarrow> 'a ptrs option" where
  "sp_move v other s = do {
     s \<leftarrow> sp_unref v (sp_null v s);
     p \<leftarrow> svars s other;
     Some (s\<lparr>svars := (svars s)(v \<mapsto> p, other \<mapsto> null_ptr)\<rparr>) }"

definition sp_swap :: "nat \<Rightarrow> nat \<Rightarrow> 'a ptrs \<Rightarrow> 'a ptrs" where
  "sp_swap v w s = s\<lparr>svars := (svars s)(v := svars s w, w := svars s v)\<rparr>"

text \<open>The parameter of the assignment is a copy, \<open>t\<close>, that is destroyed at the end.\<close>

definition sp_assign :: "nat \<Rightarrow> nat \<Rightarrow> nat \<Rightarrow> 'a ptrs \<Rightarrow> 'a ptrs option" where
  "sp_assign v other t s = do {
     s \<leftarrow> sp_copy t other s;
     sp_destroy t (sp_swap v t s) }"

definition sp_use_count :: "nat \<Rightarrow> 'a ptrs \<Rightarrow> int option" where
  "sp_use_count v s = do {
     p \<leftarrow> svars s v;
     if rp_base p = 0 then Some 0 else map_option (\<lambda>u. sint (uses_obj u)) (ctls s (rp_base p)) }"

section \<open>Weak pointers\<close>

text \<open>The constructor from a shared pointer does not test for a null pointer.\<close>

definition wp_new :: "nat \<Rightarrow> nat \<Rightarrow> 'a ptrs \<Rightarrow> 'a ptrs option" where
  "wp_new v shared s = do {
     p \<leftarrow> svars s shared;
     weak_lock (rp_base p) (s\<lparr>wvars := (wvars s)(v \<mapsto> p)\<rparr>) }"

definition wp_null :: "nat \<Rightarrow> 'a ptrs \<Rightarrow> 'a ptrs" where
  "wp_null v s = s\<lparr>wvars := (wvars s)(v \<mapsto> null_ptr)\<rparr>"

definition wp_unref :: "nat \<Rightarrow> 'a ptrs \<Rightarrow> 'a ptrs option" where
  "wp_unref v s = do {
     p \<leftarrow> wvars s v;
     if rp_base p = 0 then Some s
     else do {
       (_, s) \<leftarrow> weak_release (rp_base p) s;
       Some (s\<lparr>wvars := (wvars s)(v \<mapsto> null_ptr)\<rparr>) } }"

definition wp_destroy :: "nat \<Rightarrow> 'a ptrs \<Rightarrow> 'a ptrs option" where
  "wp_destroy v s = map_option (\<lambda>s. s\<lparr>wvars := (wvars s)(v := None)\<rparr>) (wp_unref v s)"

definition wp_copy :: "nat \<Rightarrow> nat \<Rightarrow> 'a ptrs \<Rightarrow> 'a ptrs option" where
  "wp_copy v other s = do {
     p \<leftarrow> wvars s other;
     let s = s\<lparr>wvars := (wvars s)(v \<mapsto> p)\<rparr>;
     if rp_base p = 0 then Some s else weak_lock (rp_base p) s }"

definition wp_move :: "nat \<Rightarrow> nat \<Rightarrow> 'a ptrs \<Rightarrow> 'a ptrs option" where
  "wp_move v other s = do {
     s \<leftarrow> wp_unref v (wp_null v s);
     p \<leftarrow> wvars s other;
     Some (s\<lparr>wvars := (wvars s)(v \<mapsto> p, other \<mapsto> null_ptr)\<rparr>) }"

definition wp_swap :: "nat \<Rightarrow> nat \<Rightarrow> 'a ptrs \<Rightarrow> 'a ptrs" where
  "wp_swap v w s = s\<lparr>wvars := (wvars s)(v := wvars s w, w := wvars s v)\<rparr>"

definition wp_assign :: "nat \<Rightarrow> nat \<Rightarrow> nat \<Rightarrow> 'a ptrs \<Rightarrow> 'a ptrs option" where
  "wp_assign v other t s = do {
     s \<leftarrow> wp_copy t other s;
     wp_destroy t (wp_swap v t s) }"

text \<open>\<open>lock\<close>: whether the optional has a value, which is then the strong pointer \<open>v\<close>.\<close>

definition wp_lock :: "nat \<Rightarrow> nat \<Rightarrow> 'a ptrs \<Rightarrow> (bool \<times> 'a ptrs) option" where
  "wp_lock v w s = do {
     p \<leftarrow> wvars s w;
     if rp_base p = 0 then Some (False, s)
     else do {
       (ok, s) \<leftarrow> strong_lock (rp_base p) s;
       Some (ok, if ok then s\<lparr>svars := (svars s)(v \<mapsto> p)\<rparr> else s) } }"

definition wp_expired :: "nat \<Rightarrow> 'a ptrs \<Rightarrow> bool option" where
  "wp_expired w s = do {
     p \<leftarrow> wvars s w;
     if rp_base p = 0 then Some True else map_option (\<lambda>u. sint (uses_obj u) \<le> 0) (ctls s (rp_base p)) }"

section \<open>Pointers that copy on write\<close>

text \<open>The copy goes to the object \<open>a\<close> with the control block \<open>b\<close>; \<open>t\<close> is the temporary that is assigned from.\<close>

definition cow_copy :: "nat \<Rightarrow> nat \<Rightarrow> nat \<Rightarrow> nat \<Rightarrow> 'a ptrs \<Rightarrow> 'a ptrs option" where
  "cow_copy v t a b s = do {
     p \<leftarrow> svars s v;
     n \<leftarrow> sp_use_count v s;
     if rp_ptr p \<noteq> 0 \<and> n > 1 then do {
       x \<leftarrow> objs s (rp_ptr p);
       sp_destroy t (sp_swap v t (sp_new t x a b s)) }
     else Some s }"

definition cow_getRW :: "nat \<Rightarrow> nat \<Rightarrow> nat \<Rightarrow> nat \<Rightarrow> 'a ptrs \<Rightarrow> (nat \<times> 'a ptrs) option" where
  "cow_getRW v t a b s = do {
     s \<leftarrow> cow_copy v t a b s;
     p \<leftarrow> svars s v;
     Some (rp_ptr p, s) }"

section \<open>Counting references\<close>

definition has :: "refptr option \<Rightarrow> nat \<Rightarrow> nat" where
  "has x b = (case x of None \<Rightarrow> 0 | Some p \<Rightarrow> if b \<noteq> 0 \<and> rp_base p = b then 1 else 0)"

definition refs :: "(nat \<Rightarrow> refptr option) \<Rightarrow> nat \<Rightarrow> nat set" where
  "refs m b = {v. has (m v) b = 1}"

abbreviation cnt :: "(nat \<Rightarrow> refptr option) \<Rightarrow> nat \<Rightarrow> nat" where
  "cnt m b \<equiv> card (refs m b)"

lemma has_simps [simp]: "has None b = 0" "has (Some p) b = (if b \<noteq> 0 \<and> rp_base p = b then 1 else 0)" "has x 0 = 0"
  by (simp_all add: has_def split: option.split)

lemma has_le: "has x b = 0 \<or> has x b = 1"
  by (simp add: has_def split: option.split)

lemma refs_dom: "refs m b \<subseteq> dom m"
  by (auto simp: refs_def has_def split: option.splits if_splits)

lemma refs_0 [simp]: "refs m 0 = {}"
  by (simp add: refs_def)

lemma finite_refs: "finite (dom m) \<Longrightarrow> finite (refs m b)"
  by (rule finite_subset [OF refs_dom])

lemma cnt_le: "finite (dom m) \<Longrightarrow> cnt m b \<le> card (dom m)"
  by (simp add: card_mono refs_dom)

lemma cnt_upd:
  assumes "finite (dom m)"
  shows "cnt (m(v := x)) b + has (m v) b = cnt m b + has x b"
proof -
  let ?r = "refs m b - {v}"
  have f: "finite ?r" using finite_refs [OF assms] by simp
  have "refs (m(v := x)) b = (if has x b = 1 then insert v ?r else ?r)" by (auto simp: refs_def)
  moreover have "refs m b = (if has (m v) b = 1 then insert v ?r else ?r)" by (auto simp: refs_def)
  ultimately have "cnt (m(v := x)) b = (if has x b = 1 then Suc (card ?r) else card ?r)"
    "cnt m b = (if has (m v) b = 1 then Suc (card ?r) else card ?r)"
    using f by (metis Diff_iff card_insert_disjoint insertI1)+
  then show ?thesis using has_le [of x b] has_le [of "m v" b] by auto
qed

lemma cnt_pos:
  assumes "finite (dom m)" "m v = Some p" "rp_base p \<noteq> 0"
  shows "cnt m (rp_base p) > 0"
proof -
  have "v \<in> refs m (rp_base p)" using assms(2,3) by (simp add: refs_def)
  then show ?thesis using finite_refs [OF assms(1)] by (auto simp: card_gt_0_iff)
qed

section \<open>The counters\<close>

text \<open>
  The control block \<open>b\<close> counts the \<open>S b\<close> strong and \<open>W b\<close> weak pointers to it and exists while there is one; the objects that exist are
  those of the blocks with a strong pointer.
\<close>

definition n32 :: "nat \<Rightarrow> 32 word" where
  "n32 n = word_of_nat n"

definition counts_ok :: "(nat \<Rightarrow> uses_block option) \<Rightarrow> nat set \<Rightarrow> (nat \<Rightarrow> nat) \<Rightarrow> (nat \<Rightarrow> nat) \<Rightarrow> (nat \<Rightarrow> nat) \<Rightarrow> bool" where
  "counts_ok C D ow S W \<longleftrightarrow>
     (\<forall>b. C b = (if S b + W b = 0 then None else Some \<lparr>uses_ctl = n32 (S b + W b), uses_obj = n32 (S b)\<rparr>)) \<and>
     D = ow ` {b. S b > 0} \<and> inj_on ow {b. S b > 0} \<and> (\<forall>b. S b > 0 \<longrightarrow> ow b \<noteq> 0) \<and> (\<forall>b. S b + W b < 2 ^ 31)"

lemma counts_okD:
  assumes "counts_ok C D ow S W"
  shows "C b = (if S b + W b = 0 then None else Some \<lparr>uses_ctl = n32 (S b + W b), uses_obj = n32 (S b)\<rparr>)"
    "D = ow ` {b. S b > 0}" "inj_on ow {b. S b > 0}" "S b > 0 \<Longrightarrow> ow b \<noteq> 0" "S b + W b < 2 ^ 31"
  using assms unfolding counts_ok_def by auto

lemma sint_n32: "n < 2 ^ 31 \<Longrightarrow> sint (n32 n) = int n"
  unfolding n32_def by (simp add: sint_uint unsigned_of_nat signed_take_bit_int_eq_self take_bit_nat_eq_self)

lemma n32_0: "n < 2 ^ 31 \<Longrightarrow> n32 n = 0 \<longleftrightarrow> n = 0"
  using sint_n32 [of n] by (auto simp: n32_def)

lemma n32_1: "n < 2 ^ 31 \<Longrightarrow> n32 n = 1 \<longleftrightarrow> n = 1"
  using sint_n32 [of n] by (auto simp: n32_def)

lemma n32_Suc: "n32 n + 1 = n32 (n + 1)"
  by (simp add: n32_def)

lemma n32_pred: "0 < n \<Longrightarrow> n32 n - 1 = n32 (n - 1)"
  by (cases n) (simp_all add: n32_def)

lemma strong_lock_ok:
  assumes c: "counts_ok (ctls s) D ow S W" and b: "S b > 0" and m: "S b + W b + 1 < 2 ^ 31"
  obtains C where "strong_lock b s = Some (True, s\<lparr>ctls := C\<rparr>)" "counts_ok C D ow (S(b := S b + 1)) W"
proof -
  let ?u = "\<lparr>uses_ctl = n32 (S b + W b + 1), uses_obj = n32 (S b + 1)\<rparr>"
  have i: "sint (n32 (S b)) = int (S b)" "sint (n32 (S b + 1)) = int (S b + 1)" "sint (n32 (S b + W b + 1)) = int (S b + W b + 1)"
    using m by (intro sint_n32; linarith)+
  have "strong_lock b s = Some (True, s\<lparr>ctls := (ctls s)(b \<mapsto> ?u)\<rparr>)"
    using b i counts_okD(1) [OF c, of b] by (simp add: strong_lock_def Let_def n32_Suc [simplified])
  moreover have "{b'. (S(b := S b + 1)) b' > 0} = {b'. S b' > 0}" using b by auto
  then have "counts_ok ((ctls s)(b \<mapsto> ?u)) D ow (S(b := S b + 1)) W"
    unfolding counts_ok_def using counts_okD [OF c] b m by (simp add: add.commute)
  ultimately show ?thesis using that by blast
qed

lemma weak_lock_ok:
  assumes c: "counts_ok (ctls s) D ow S W" and b: "S b + W b > 0" and m: "S b + W b + 1 < 2 ^ 31"
  obtains C where "weak_lock b s = Some (s\<lparr>ctls := C\<rparr>)" "counts_ok C D ow S (W(b := W b + 1))"
proof -
  let ?u = "\<lparr>uses_ctl = n32 (S b + W b + 1), uses_obj = n32 (S b)\<rparr>"
  have i: "sint (n32 (S b + W b)) = int (S b + W b)" using m by (intro sint_n32) linarith
  have g: "1 \<le> sint (n32 (S b + W b))" using b i by linarith
  have u: "ctls s b = Some \<lparr>uses_ctl = n32 (S b + W b), uses_obj = n32 (S b)\<rparr>" using counts_okD(1) [OF c, of b] b by auto
  have "weak_lock b s = Some (s\<lparr>ctls := (ctls s)(b \<mapsto> ?u)\<rparr>)" by (simp add: weak_lock_def u g n32_Suc [simplified])
  moreover have "counts_ok ((ctls s)(b \<mapsto> ?u)) D ow S (W(b := W b + 1))"
    unfolding counts_ok_def using counts_okD [OF c] m by (simp add: add.commute)
  ultimately show ?thesis using that by blast
qed

lemma weak_release_ok:
  assumes c: "counts_ok (ctls s) D ow S W" and b: "W b > 0"
  obtains C where "weak_release b s = Some (S b + W b = 1, s\<lparr>ctls := C\<rparr>)" "counts_ok C D ow S (W(b := W b - 1))"
proof -
  define u where "u = \<lparr>uses_ctl = n32 (S b + W b - 1), uses_obj = n32 (S b)\<rparr>"
  let ?C = "(ctls s)(b := if S b + W b = 1 then None else Some u)"
  have e: "n32 (S b + W b) - 1 = n32 (S b + W b - 1)" using b by (intro n32_pred) simp
  have z: "n32 (S b + W b) = 1 \<longleftrightarrow> S b + W b = 1" by (rule n32_1 [OF counts_okD(5) [OF c]])
  have "weak_release b s = Some (S b + W b = 1, s\<lparr>ctls := ?C\<rparr>)"
    using b counts_okD(1) [OF c, of b] by (simp add: weak_release_def Let_def e z u_def)
  moreover have "counts_ok ?C D ow S (W(b := W b - 1))"
    unfolding counts_ok_def using counts_okD [OF c] b by (auto simp: u_def less_imp_diff_less)
  ultimately show ?thesis using that by blast
qed

lemma strong_release_ok:
  assumes c: "counts_ok (ctls s) D ow S W" and b: "S b > 0"
  obtains C where "strong_release b s = Some (S b = 1, s\<lparr>ctls := C\<rparr>)"
    "counts_ok C (D - (if S b = 1 then {ow b} else {})) ow (S(b := S b - 1)) W"
proof -
  define u where "u = \<lparr>uses_ctl = n32 (S b + W b - 1), uses_obj = n32 (S b - 1)\<rparr>"
  let ?C = "(ctls s)(b := if S b + W b = 1 then None else Some u)"
  note m = counts_okD(5) [OF c, of b]
  have e: "n32 (S b + W b) - 1 = n32 (S b + W b - 1)" "n32 (S b) - 1 = n32 (S b - 1)" using b by (simp_all add: n32_pred)
  have z: "n32 (S b + W b) = 1 \<longleftrightarrow> S b + W b = 1" "n32 (S b) = 1 \<longleftrightarrow> S b = 1" using m by (intro n32_1; linarith)+
  have "strong_release b s = Some (S b = 1, s\<lparr>ctls := ?C\<rparr>)"
    using b counts_okD(1) [OF c, of b] by (simp add: strong_release_def Let_def e z u_def)
  moreover have "counts_ok ?C (D - (if S b = 1 then {ow b} else {})) ow (S(b := S b - 1)) W"
  proof -
    have "{b'. (S(b := S b - 1)) b' > 0} = {b'. S b' > 0} - (if S b = 1 then {b} else {})" using b by auto
    moreover have "ow ` ({b'. S b' > 0} - {b}) = ow ` {b'. S b' > 0} - {ow b}"
      using inj_on_image_set_diff [OF counts_okD(3) [OF c], of "{b'. S b' > 0}" "{b}"] b by auto
    ultimately show ?thesis
      unfolding counts_ok_def using counts_okD [OF c] b by (auto simp: u_def less_imp_diff_less inj_on_diff)
  qed
  ultimately show ?thesis using that by blast
qed

section \<open>The invariant\<close>

lemma cnt_same: "finite (dom m) \<Longrightarrow> (\<And>b. has x b = has (m v) b) \<Longrightarrow> cnt (m(v := x)) = cnt m"
  using cnt_upd [of m v x] by (intro ext) (metis add_right_cancel)

lemma cnt_add:
  "finite (dom m) \<Longrightarrow> (\<And>b. has (m v) b = 0) \<Longrightarrow> rp_base p \<noteq> 0 \<Longrightarrow> cnt (m(v \<mapsto> p)) = (cnt m)(rp_base p := cnt m (rp_base p) + 1)"
  using cnt_upd [of m v "Some p"] by (intro ext) (simp split: if_splits)

lemma cnt_rem:
  assumes "finite (dom m)" "m v = Some p" "rp_base p \<noteq> 0" "\<And>b. has x b = 0"
  shows "cnt (m(v := x)) = (cnt m)(rp_base p := cnt m (rp_base p) - 1)"
proof
  fix b
  show "cnt (m(v := x)) b = ((cnt m)(rp_base p := cnt m (rp_base p) - 1)) b"
    using cnt_upd [OF assms(1), of v x b] assms(2-4) by (auto split: if_splits)
qed

lemma cnt_swap:
  assumes "finite (dom m)"
  shows "cnt (m(v := m w, w := m v)) = cnt m"
proof
  fix b
  have "finite (dom (m(v := m w)))" using assms by (rule_tac finite_subset [of _ "insert v (dom m)"]) (auto split: if_splits)
  then show "cnt (m(v := m w, w := m v)) b = cnt m b"
    using cnt_upd [OF assms, of v "m w" b] cnt_upd [of "m(v := m w)" w "m v" b] by (cases "v = w") auto
qed

definition ptr_of :: "(nat \<Rightarrow> nat) \<Rightarrow> refptr \<Rightarrow> bool" where
  "ptr_of ow p \<longleftrightarrow> rp_ptr p = (if rp_base p = 0 then 0 else ow (rp_base p))"

definition ptrs_inv :: "(nat \<Rightarrow> nat) \<Rightarrow> 'a ptrs \<Rightarrow> bool" where
  "ptrs_inv ow s \<longleftrightarrow> finite (dom (svars s)) \<and> finite (dom (wvars s)) \<and> card (dom (svars s)) + card (dom (wvars s)) < 2 ^ 31 \<and>
     counts_ok (ctls s) (dom (objs s)) ow (cnt (svars s)) (cnt (wvars s)) \<and>
     (\<forall>v p. svars s v = Some p \<or> wvars s v = Some p \<longrightarrow> ptr_of ow p)"

lemma ptrs_invD:
  assumes "ptrs_inv ow s"
  shows "finite (dom (svars s))" "finite (dom (wvars s))" "card (dom (svars s)) + card (dom (wvars s)) < 2 ^ 31"
    "counts_ok (ctls s) (dom (objs s)) ow (cnt (svars s)) (cnt (wvars s))" "svars s v = Some p \<Longrightarrow> ptr_of ow p" "wvars s v = Some p \<Longrightarrow> ptr_of ow p"
  using assms unfolding ptrs_inv_def by auto

lemma ptrs_invI:
  assumes "finite (dom (svars s))" "finite (dom (wvars s))" "card (dom (svars s)) + card (dom (wvars s)) < 2 ^ 31"
    "counts_ok (ctls s) (dom (objs s)) ow (cnt (svars s)) (cnt (wvars s))" "\<And>v p. svars s v = Some p \<Longrightarrow> ptr_of ow p"
    "\<And>v p. wvars s v = Some p \<Longrightarrow> ptr_of ow p"
  shows "ptrs_inv ow s"
  using assms unfolding ptrs_inv_def by blast

lemma null_of [simp]: "ptr_of ow null_ptr"
  by (simp add: ptr_of_def)

lemma base_null: "ptr_of ow p \<Longrightarrow> rp_base p = 0 \<Longrightarrow> p = null_ptr"
  by (simp add: ptr_of_def)

text \<open>One more variable may be constructed.\<close>

definition spare :: "'a ptrs \<Rightarrow> bool" where
  "spare s \<longleftrightarrow> card (dom (svars s)) + card (dom (wvars s)) + 1 < 2 ^ 31"

lemma count_bound:
  assumes "ptrs_inv ow s"
  shows "cnt (svars s) b + cnt (wvars s) b \<le> card (dom (svars s)) + card (dom (wvars s))"
  using cnt_le [OF ptrs_invD(1) [OF assms], of b] cnt_le [OF ptrs_invD(2) [OF assms], of b] by linarith

lemma sp_unref_ok:
  assumes i: "ptrs_inv ow s" and v: "svars s v = Some p"
  obtains s' where "sp_unref v s = Some s'" "ptrs_inv ow s'" "svars s' = (svars s)(v \<mapsto> null_ptr)" "wvars s' = wvars s"
    "objs s' = (if cnt (svars s) (rp_base p) = 1 then (objs s)(rp_ptr p := None) else objs s)"
proof (cases "rp_base p = 0")
  case True
  then have "p = null_ptr" using base_null ptrs_invD(5) [OF i v] by simp
  then have "(svars s)(v \<mapsto> null_ptr) = svars s" using v by auto
  then show ?thesis using that [of s] True v i by (simp add: sp_unref_def)
next
  case False
  define b where "b = rp_base p"
  let ?S = "cnt (svars s)" and ?m = "(svars s)(v \<mapsto> null_ptr)"
  have b: "?S b > 0" "rp_ptr p = ow b" "b \<noteq> 0"
    using False cnt_pos [OF ptrs_invD(1) [OF i] v] ptrs_invD(5) [OF i v] by (simp_all add: b_def ptr_of_def)
  obtain C where C: "strong_release b s = Some (?S b = 1, s\<lparr>ctls := C\<rparr>)"
      "counts_ok C (dom (objs s) - (if ?S b = 1 then {ow b} else {})) ow (?S(b := ?S b - 1)) (cnt (wvars s))"
    by (rule strong_release_ok [OF ptrs_invD(4) [OF i] b(1)])
  define ob where "ob = (if ?S b = 1 then (objs s)(ow b := None) else objs s)"
  have "ow b \<in> dom (objs s)" "ow b \<noteq> 0" using counts_okD(2,4) [OF ptrs_invD(4) [OF i]] b(1) by auto
  then have "sp_unref v s = Some (s\<lparr>ctls := C, objs := ob, svars := ?m\<rparr>)"
    using v b C(1) by (auto simp: sp_unref_def delete_obj_def b_def ob_def)
  moreover have "ptrs_inv ow (s\<lparr>ctls := C, objs := ob, svars := ?m\<rparr>)"
  proof (rule ptrs_invI)
    have d: "dom ?m = dom (svars s)" using v by auto
    have "dom ob = dom (objs s) - (if ?S b = 1 then {ow b} else {})" by (auto simp: ob_def)
    moreover have "cnt ?m = ?S(b := ?S b - 1)" unfolding b_def by (rule cnt_rem [OF ptrs_invD(1) [OF i] v False]) auto
    ultimately show "counts_ok (ctls (s\<lparr>ctls := C, objs := ob, svars := ?m\<rparr>)) (dom (objs (s\<lparr>ctls := C, objs := ob, svars := ?m\<rparr>))) ow
        (cnt (svars (s\<lparr>ctls := C, objs := ob, svars := ?m\<rparr>))) (cnt (wvars (s\<lparr>ctls := C, objs := ob, svars := ?m\<rparr>)))"
      using C(2) by simp
  qed (use ptrs_invD [OF i] v in \<open>auto simp: insert_absorb domI split: if_splits\<close>)
  ultimately show ?thesis using that b by (simp add: b_def ob_def)
qed

text \<open>Variables can be constructed as null pointers, destroyed when they are null, and exchanged.\<close>

lemma inv_svars:
  assumes i: "ptrs_inv ow s" and m: "finite (dom m)" "card (dom m) + card (dom (wvars s)) < 2 ^ 31" "cnt m = cnt (svars s)"
    "\<And>v p. m v = Some p \<Longrightarrow> ptr_of ow p"
  shows "ptrs_inv ow (s\<lparr>svars := m\<rparr>)"
  by (rule ptrs_invI) (use m ptrs_invD(2,4,6) [OF i] in auto)

lemma inv_wvars:
  assumes i: "ptrs_inv ow s" and m: "finite (dom m)" "card (dom (svars s)) + card (dom m) < 2 ^ 31" "cnt m = cnt (wvars s)"
    "\<And>v p. m v = Some p \<Longrightarrow> ptr_of ow p"
  shows "ptrs_inv ow (s\<lparr>wvars := m\<rparr>)"
  by (rule ptrs_invI) (use m ptrs_invD(1,4,5) [OF i] in auto)

lemma card_dom_del: "finite (dom m) \<Longrightarrow> card (dom (m(v := None))) \<le> card (dom m)"
  by (simp add: card_Diff1_le)

lemma card_dom_new: "finite (dom m) \<Longrightarrow> card (dom (m(v \<mapsto> p))) \<le> card (dom m) + 1"
  by (simp add: card_insert_if)

lemma sp_destroy_ok:
  assumes i: "ptrs_inv ow s" and v: "svars s v = Some p"
  obtains s' where "sp_destroy v s = Some s'" "ptrs_inv ow s'" "svars s' = (svars s)(v := None)" "wvars s' = wvars s"
    "objs s' = (if cnt (svars s) (rp_base p) = 1 then (objs s)(rp_ptr p := None) else objs s)"
proof -
  obtain s1 where s1: "sp_unref v s = Some s1" "ptrs_inv ow s1" "svars s1 = (svars s)(v \<mapsto> null_ptr)" "wvars s1 = wvars s"
      "objs s1 = (if cnt (svars s) (rp_base p) = 1 then (objs s)(rp_ptr p := None) else objs s)"
    by (rule sp_unref_ok [OF i v])
  have "ptrs_inv ow (s1\<lparr>svars := (svars s1)(v := None)\<rparr>)"
  proof (rule inv_svars [OF s1(2)])
    show "cnt ((svars s1)(v := None)) = cnt (svars s1)" by (rule cnt_same [OF ptrs_invD(1) [OF s1(2)]]) (auto simp: s1(3))
    show "card (dom ((svars s1)(v := None))) + card (dom (wvars s1)) < 2 ^ 31"
      using ptrs_invD(3) [OF s1(2)] card_dom_del [OF ptrs_invD(1) [OF s1(2)], of v] by linarith
  qed (use ptrs_invD(1,5) [OF s1(2)] in \<open>auto split: if_splits\<close>)
  then show ?thesis using that [of "s1\<lparr>svars := (svars s1)(v := None)\<rparr>"] s1 by (simp add: sp_destroy_def)
qed

lemma sp_null_ok:
  assumes i: "ptrs_inv ow s" and v: "svars s v = None" and m: "spare s"
  shows "ptrs_inv ow (sp_null v s)"
  unfolding sp_null_def
proof (rule inv_svars [OF i])
  show "cnt ((svars s)(v \<mapsto> null_ptr)) = cnt (svars s)" by (rule cnt_same [OF ptrs_invD(1) [OF i]]) (auto simp: v)
  show "card (dom ((svars s)(v \<mapsto> null_ptr))) + card (dom (wvars s)) < 2 ^ 31"
    using m card_dom_new [OF ptrs_invD(1) [OF i], of v null_ptr] unfolding spare_def by linarith
qed (use ptrs_invD(1,5) [OF i] in \<open>auto split: if_splits\<close>)

lemma sp_swap_ok:
  assumes i: "ptrs_inv ow s" and v: "svars s v = Some p" "svars s w = Some q"
  shows "ptrs_inv ow (sp_swap v w s)"
  unfolding sp_swap_def
proof (rule inv_svars [OF i])
  have d: "dom ((svars s)(v := svars s w, w := svars s v)) = dom (svars s)" using v by auto
  show "cnt ((svars s)(v := svars s w, w := svars s v)) = cnt (svars s)" by (rule cnt_swap [OF ptrs_invD(1) [OF i]])
  show "finite (dom ((svars s)(v := svars s w, w := svars s v)))"
    "card (dom ((svars s)(v := svars s w, w := svars s v))) + card (dom (wvars s)) < 2 ^ 31"
    unfolding d using ptrs_invD(1,3) [OF i] by auto
qed (use v ptrs_invD(5) [OF i] in \<open>auto split: if_splits\<close>)

text \<open>A strong pointer is added to a block that has one already.\<close>

lemma add_strong:
  assumes i: "ptrs_inv ow s" and v: "svars s v = None" and m: "spare s"
    and p: "ptr_of ow p" "rp_base p \<noteq> 0" "cnt (svars s) (rp_base p) > 0"
  obtains C where "strong_lock (rp_base p) s = Some (True, s\<lparr>ctls := C\<rparr>)" "ptrs_inv ow (s\<lparr>ctls := C, svars := (svars s)(v \<mapsto> p)\<rparr>)"
proof -
  have b: "cnt (svars s) (rp_base p) + cnt (wvars s) (rp_base p) + 1 < 2 ^ 31"
    using m count_bound [OF i, of "rp_base p"] unfolding spare_def by linarith
  obtain C where C: "strong_lock (rp_base p) s = Some (True, s\<lparr>ctls := C\<rparr>)"
      "counts_ok C (dom (objs s)) ow ((cnt (svars s))(rp_base p := cnt (svars s) (rp_base p) + 1)) (cnt (wvars s))"
    by (rule strong_lock_ok [OF ptrs_invD(4) [OF i] p(3) b])
  have "ptrs_inv ow (s\<lparr>ctls := C, svars := (svars s)(v \<mapsto> p)\<rparr>)"
  proof (rule ptrs_invI)
    have "cnt ((svars s)(v \<mapsto> p)) = (cnt (svars s))(rp_base p := cnt (svars s) (rp_base p) + 1)"
      by (rule cnt_add [OF ptrs_invD(1) [OF i] _ p(2)]) (simp add: v)
    then show "counts_ok (ctls (s\<lparr>ctls := C, svars := (svars s)(v \<mapsto> p)\<rparr>)) (dom (objs (s\<lparr>ctls := C, svars := (svars s)(v \<mapsto> p)\<rparr>))) ow
        (cnt (svars (s\<lparr>ctls := C, svars := (svars s)(v \<mapsto> p)\<rparr>))) (cnt (wvars (s\<lparr>ctls := C, svars := (svars s)(v \<mapsto> p)\<rparr>)))"
      using C(2) by simp
    show "card (dom (svars (s\<lparr>ctls := C, svars := (svars s)(v \<mapsto> p)\<rparr>))) + card (dom (wvars (s\<lparr>ctls := C, svars := (svars s)(v \<mapsto> p)\<rparr>))) < 2 ^ 31"
      using m card_dom_new [OF ptrs_invD(1) [OF i], of v p] unfolding spare_def by simp
  qed (use ptrs_invD(1,2,5,6) [OF i] p(1) in \<open>auto split: if_splits\<close>)
  then show ?thesis using that C(1) by blast
qed

lemma strong_lock_frame:
  "strong_lock b s = Some (r, s\<lparr>ctls := C\<rparr>) \<Longrightarrow> strong_lock b (s\<lparr>svars := m\<rparr>) = Some (r, s\<lparr>ctls := C, svars := m\<rparr>)"
  by (cases s) (auto simp: strong_lock_def Let_def bind_eq_Some_conv split: if_splits)

lemma sp_copy_ok:
  assumes i: "ptrs_inv ow s" and v: "svars s v = None" "svars s w = Some p" and m: "spare s"
  obtains s' where "sp_copy v w s = Some s'" "ptrs_inv ow s'" "svars s' = (svars s)(v \<mapsto> p)" "wvars s' = wvars s" "objs s' = objs s"
proof (cases "rp_base p = 0")
  case True
  then have "p = null_ptr" using base_null ptrs_invD(5) [OF i v(2)] by simp
  then show ?thesis using that [of "sp_null v s"] v(2) sp_null_ok [OF i v(1) m] by (simp add: sp_copy_def sp_null_def)
next
  case False
  have c: "cnt (svars s) (rp_base p) > 0" by (rule cnt_pos [OF ptrs_invD(1) [OF i] v(2) False])
  obtain C where C: "strong_lock (rp_base p) s = Some (True, s\<lparr>ctls := C\<rparr>)" "ptrs_inv ow (s\<lparr>ctls := C, svars := (svars s)(v \<mapsto> p)\<rparr>)"
    by (rule add_strong [OF i v(1) m ptrs_invD(5) [OF i v(2)] False c])
  have "sp_copy v w s = Some (s\<lparr>ctls := C, svars := (svars s)(v \<mapsto> p)\<rparr>)"
    using v(2) False strong_lock_frame [OF C(1)] by (simp add: sp_copy_def)
  then show ?thesis using that C(2) by simp
qed

lemma sp_move_ok:
  assumes i: "ptrs_inv ow s" and v: "svars s v = None" "svars s w = Some p" and m: "spare s"
  obtains s' where "sp_move v w s = Some s'" "ptrs_inv ow s'" "svars s' = (svars s)(v \<mapsto> p, w \<mapsto> null_ptr)" "wvars s' = wvars s" "objs s' = objs s"
proof -
  have "v \<noteq> w" using v by auto
  have e: "sp_move v w s = Some (sp_swap v w (sp_null v s))"
    using v \<open>v \<noteq> w\<close> by (simp add: sp_move_def sp_unref_def sp_null_def sp_swap_def)
  have "ptrs_inv ow (sp_swap v w (sp_null v s))"
    by (rule sp_swap_ok [OF sp_null_ok [OF i v(1) m]]) (use v \<open>v \<noteq> w\<close> in \<open>auto simp: sp_null_def\<close>)
  then show ?thesis using that [OF e] v \<open>v \<noteq> w\<close> by (simp add: sp_null_def sp_swap_def)
qed

lemma sp_replace_ok:
  assumes i: "ptrs_inv ow s" and v: "svars s v = Some p" "svars s t = Some q" "v \<noteq> t"
  obtains s' where "sp_destroy t (sp_swap v t s) = Some s'" "ptrs_inv ow s'" "svars s' = (svars s)(v \<mapsto> q, t := None)" "wvars s' = wvars s"
    "objs s' = (if cnt (svars s) (rp_base p) = 1 then (objs s)(rp_ptr p := None) else objs s)"
proof -
  let ?s = "sp_swap v t s"
  have t: "svars ?s t = Some p" using v by (simp add: sp_swap_def)
  obtain s' where s': "sp_destroy t ?s = Some s'" "ptrs_inv ow s'" "svars s' = (svars ?s)(t := None)" "wvars s' = wvars ?s"
      "objs s' = (if cnt (svars ?s) (rp_base p) = 1 then (objs ?s)(rp_ptr p := None) else objs ?s)"
    by (rule sp_destroy_ok [OF sp_swap_ok [OF i v(1,2)] t])
  have "cnt (svars ?s) (rp_base p) = cnt (svars s) (rp_base p)"
    unfolding sp_swap_def using fun_cong [OF cnt_swap [OF ptrs_invD(1) [OF i], of v t]] by simp
  moreover have "(svars ?s)(t := None) = (svars s)(v \<mapsto> q, t := None)" using v by (auto simp: sp_swap_def)
  moreover have "objs ?s = objs s" "wvars ?s = wvars s" by (simp_all add: sp_swap_def)
  ultimately show ?thesis using that [OF s'(1,2)] s'(3-5) by simp
qed

lemma sp_assign_ok:
  assumes i: "ptrs_inv ow s" and v: "svars s v = Some p" "svars s w = Some q" "svars s t = None" and m: "spare s"
  obtains s' where "sp_assign v w t s = Some s'" "ptrs_inv ow s'" "svars s' = (svars s)(v \<mapsto> q)" "wvars s' = wvars s"
    "objs s' = (if q \<noteq> p \<and> cnt (svars s) (rp_base p) = 1 then (objs s)(rp_ptr p := None) else objs s)"
proof -
  have vt: "v \<noteq> t" using v by auto
  obtain s1 where s1: "sp_copy t w s = Some s1" "ptrs_inv ow s1" "svars s1 = (svars s)(t \<mapsto> q)" "wvars s1 = wvars s" "objs s1 = objs s"
    by (rule sp_copy_ok [OF i v(3,2) m])
  have v1: "svars s1 v = Some p" "svars s1 t = Some q" using s1(3) v vt by simp_all
  obtain s2 where s2: "sp_destroy t (sp_swap v t s1) = Some s2" "ptrs_inv ow s2" "svars s2 = (svars s1)(v \<mapsto> q, t := None)" "wvars s2 = wvars s1"
      "objs s2 = (if cnt (svars s1) (rp_base p) = 1 then (objs s1)(rp_ptr p := None) else objs s1)"
    by (rule sp_replace_ok [OF s1(2) v1 vt])
  have f: "finite (dom (svars s))" by (rule ptrs_invD(1) [OF i])
  have "cnt (svars s1) (rp_base p) = cnt (svars s) (rp_base p) + has (Some q) (rp_base p)"
    using cnt_upd [OF f, of t "Some q" "rp_base p"] v(3) s1(3) by simp
  moreover have "rp_base p \<noteq> 0 \<Longrightarrow> cnt (svars s) (rp_base p) > 0" by (rule cnt_pos [OF f v(1)])
  moreover have "rp_base q = rp_base p \<longleftrightarrow> q = p" using ptrs_invD(5) [OF i v(1)] ptrs_invD(5) [OF i v(2)] by (auto simp: ptr_of_def)
  ultimately have "cnt (svars s1) (rp_base p) = 1 \<longleftrightarrow> q \<noteq> p \<and> cnt (svars s) (rp_base p) = 1" by auto
  moreover have "(svars s1)(v \<mapsto> q, t := None) = (svars s)(v \<mapsto> q)" using s1(3) v(3) vt by auto
  moreover have "sp_assign v w t s = Some s2" using s1(1) s2(1) by (simp add: sp_assign_def)
  ultimately show ?thesis using that s2 s1 by simp
qed

lemma sp_new_ok:
  assumes i: "ptrs_inv ow s" and v: "svars s v = None" and a: "a \<noteq> 0" "objs s a = None" and b: "b \<noteq> 0" "ctls s b = None" and m: "spare s"
  shows "ptrs_inv (ow(b := a)) (sp_new v x a b s)"
proof (rule ptrs_invI)
  note c = ptrs_invD(4) [OF i]
  have z: "cnt (svars s) b = 0" "cnt (wvars s) b = 0" using counts_okD(1) [OF c, of b] b(2) by (auto split: if_splits)
  have S: "cnt ((svars s)(v \<mapsto> \<lparr>rp_ptr = a, rp_base = b\<rparr>)) = (cnt (svars s))(b := 1)"
    using cnt_add [OF ptrs_invD(1) [OF i], of v "\<lparr>rp_ptr = a, rp_base = b\<rparr>"] v b(1) z by simp
  have "a \<notin> ow ` {b. cnt (svars s) b > 0}" using counts_okD(2) [OF c] a(2) by auto
  moreover have "{b'. ((cnt (svars s))(b := 1)) b' > 0} = insert b {b'. cnt (svars s) b' > 0}" by auto
  moreover have "inj_on (ow(b := a)) {b'. cnt (svars s) b' > 0}" "(ow(b := a)) ` {b'. cnt (svars s) b' > 0} = ow ` {b'. cnt (svars s) b' > 0}"
    using counts_okD(3) [OF c] z by (auto simp: inj_on_def)
  ultimately have "counts_ok ((ctls s)(b \<mapsto> \<lparr>uses_ctl = 1, uses_obj = 1\<rparr>)) (insert a (dom (objs s))) (ow(b := a)) ((cnt (svars s))(b := 1)) (cnt (wvars s))"
    unfolding counts_ok_def using counts_okD [OF c] a(1) z by (auto simp: n32_def)
  then show "counts_ok (ctls (sp_new v x a b s)) (dom (objs (sp_new v x a b s))) (ow(b := a)) (cnt (svars (sp_new v x a b s))) (cnt (wvars (sp_new v x a b s)))"
    by (simp add: sp_new_def S)
  have nb: "ptr_of (ow(b := a)) p" if "svars s w = Some p \<or> wvars s w = Some p" for w p
  proof -
    have "rp_base p \<noteq> b" using that z b(1) cnt_pos [OF ptrs_invD(1) [OF i], of w p] cnt_pos [OF ptrs_invD(2) [OF i], of w p] by auto
    then show ?thesis using that ptrs_invD(5,6) [OF i, of w p] by (auto simp: ptr_of_def)
  qed
  show "ptr_of (ow(b := a)) p" if "svars (sp_new v x a b s) w = Some p" for w p
    using that nb [of w p] b(1) by (auto simp: sp_new_def ptr_of_def split: if_splits)
  show "ptr_of (ow(b := a)) p" if "wvars (sp_new v x a b s) w = Some p" for w p
    using that nb [of w p] by (simp add: sp_new_def)
  show "card (dom (svars (sp_new v x a b s))) + card (dom (wvars (sp_new v x a b s))) < 2 ^ 31"
    using m card_dom_new [OF ptrs_invD(1) [OF i], of v "\<lparr>rp_ptr = a, rp_base = b\<rparr>"] by (simp add: spare_def sp_new_def)
qed (use ptrs_invD(1,2) [OF i] in \<open>simp_all add: sp_new_def\<close>)

section \<open>Weak pointers keep the invariant\<close>

lemma wp_unref_ok:
  assumes i: "ptrs_inv ow s" and v: "wvars s v = Some p"
  obtains s' where "wp_unref v s = Some s'" "ptrs_inv ow s'" "wvars s' = (wvars s)(v \<mapsto> null_ptr)" "svars s' = svars s" "objs s' = objs s"
proof (cases "rp_base p = 0")
  case True
  then have "p = null_ptr" using base_null ptrs_invD(6) [OF i v] by simp
  then have "(wvars s)(v \<mapsto> null_ptr) = wvars s" using v by auto
  then show ?thesis using that [of s] True v i by (simp add: wp_unref_def)
next
  case False
  define b where "b = rp_base p"
  let ?W = "cnt (wvars s)" and ?m = "(wvars s)(v \<mapsto> null_ptr)"
  have b: "?W b > 0" using False cnt_pos [OF ptrs_invD(2) [OF i] v] by (simp add: b_def)
  obtain C where C: "weak_release b s = Some (cnt (svars s) b + ?W b = 1, s\<lparr>ctls := C\<rparr>)"
      "counts_ok C (dom (objs s)) ow (cnt (svars s)) (?W(b := ?W b - 1))"
    by (rule weak_release_ok [OF ptrs_invD(4) [OF i] b])
  have "wp_unref v s = Some (s\<lparr>ctls := C, wvars := ?m\<rparr>)" using v False C(1) by (simp add: wp_unref_def b_def)
  moreover have "ptrs_inv ow (s\<lparr>ctls := C, wvars := ?m\<rparr>)"
  proof (rule ptrs_invI)
    have "cnt ?m = ?W(b := ?W b - 1)" unfolding b_def by (rule cnt_rem [OF ptrs_invD(2) [OF i] v False]) auto
    then show "counts_ok (ctls (s\<lparr>ctls := C, wvars := ?m\<rparr>)) (dom (objs (s\<lparr>ctls := C, wvars := ?m\<rparr>))) ow
        (cnt (svars (s\<lparr>ctls := C, wvars := ?m\<rparr>))) (cnt (wvars (s\<lparr>ctls := C, wvars := ?m\<rparr>)))"
      using C(2) by simp
  qed (use ptrs_invD [OF i] v in \<open>auto simp: insert_absorb domI split: if_splits\<close>)
  ultimately show ?thesis using that by simp
qed

lemma wp_destroy_ok:
  assumes i: "ptrs_inv ow s" and v: "wvars s v = Some p"
  obtains s' where "wp_destroy v s = Some s'" "ptrs_inv ow s'" "wvars s' = (wvars s)(v := None)" "svars s' = svars s" "objs s' = objs s"
proof -
  obtain s1 where s1: "wp_unref v s = Some s1" "ptrs_inv ow s1" "wvars s1 = (wvars s)(v \<mapsto> null_ptr)" "svars s1 = svars s" "objs s1 = objs s"
    by (rule wp_unref_ok [OF i v])
  have "ptrs_inv ow (s1\<lparr>wvars := (wvars s1)(v := None)\<rparr>)"
  proof (rule inv_wvars [OF s1(2)])
    show "cnt ((wvars s1)(v := None)) = cnt (wvars s1)" by (rule cnt_same [OF ptrs_invD(2) [OF s1(2)]]) (auto simp: s1(3))
    show "card (dom (svars s1)) + card (dom ((wvars s1)(v := None))) < 2 ^ 31"
      using ptrs_invD(3) [OF s1(2)] card_dom_del [OF ptrs_invD(2) [OF s1(2)], of v] by linarith
  qed (use ptrs_invD(2,6) [OF s1(2)] in \<open>auto split: if_splits\<close>)
  then show ?thesis using that [of "s1\<lparr>wvars := (wvars s1)(v := None)\<rparr>"] s1 by (simp add: wp_destroy_def)
qed

lemma wp_null_ok:
  assumes i: "ptrs_inv ow s" and v: "wvars s v = None" and m: "spare s"
  shows "ptrs_inv ow (wp_null v s)"
  unfolding wp_null_def
proof (rule inv_wvars [OF i])
  show "cnt ((wvars s)(v \<mapsto> null_ptr)) = cnt (wvars s)" by (rule cnt_same [OF ptrs_invD(2) [OF i]]) (auto simp: v)
  show "card (dom (svars s)) + card (dom ((wvars s)(v \<mapsto> null_ptr))) < 2 ^ 31"
    using m card_dom_new [OF ptrs_invD(2) [OF i], of v null_ptr] unfolding spare_def by linarith
qed (use ptrs_invD(2,6) [OF i] in \<open>auto split: if_splits\<close>)

lemma wp_swap_ok:
  assumes i: "ptrs_inv ow s" and v: "wvars s v = Some p" "wvars s w = Some q"
  shows "ptrs_inv ow (wp_swap v w s)"
  unfolding wp_swap_def
proof (rule inv_wvars [OF i])
  have d: "dom ((wvars s)(v := wvars s w, w := wvars s v)) = dom (wvars s)" using v by auto
  show "cnt ((wvars s)(v := wvars s w, w := wvars s v)) = cnt (wvars s)" by (rule cnt_swap [OF ptrs_invD(2) [OF i]])
  show "finite (dom ((wvars s)(v := wvars s w, w := wvars s v)))"
    "card (dom (svars s)) + card (dom ((wvars s)(v := wvars s w, w := wvars s v))) < 2 ^ 31"
    unfolding d using ptrs_invD(2,3) [OF i] by auto
qed (use v ptrs_invD(6) [OF i] in \<open>auto split: if_splits\<close>)

lemma add_weak:
  assumes i: "ptrs_inv ow s" and v: "wvars s v = None" and m: "spare s"
    and p: "ptr_of ow p" "rp_base p \<noteq> 0" "cnt (svars s) (rp_base p) + cnt (wvars s) (rp_base p) > 0"
  obtains C where "weak_lock (rp_base p) (s\<lparr>wvars := (wvars s)(v \<mapsto> p)\<rparr>) = Some (s\<lparr>ctls := C, wvars := (wvars s)(v \<mapsto> p)\<rparr>)"
    "ptrs_inv ow (s\<lparr>ctls := C, wvars := (wvars s)(v \<mapsto> p)\<rparr>)"
proof -
  let ?m = "(wvars s)(v \<mapsto> p)"
  have b: "cnt (svars s) (rp_base p) + cnt (wvars s) (rp_base p) + 1 < 2 ^ 31"
    using m count_bound [OF i, of "rp_base p"] unfolding spare_def by linarith
  obtain C where C: "weak_lock (rp_base p) s = Some (s\<lparr>ctls := C\<rparr>)"
      "counts_ok C (dom (objs s)) ow (cnt (svars s)) ((cnt (wvars s))(rp_base p := cnt (wvars s) (rp_base p) + 1))"
    by (rule weak_lock_ok [OF ptrs_invD(4) [OF i] p(3) b])
  have "weak_lock (rp_base p) (s\<lparr>wvars := ?m\<rparr>) = Some (s\<lparr>ctls := C, wvars := ?m\<rparr>)"
    using C(1) by (cases s) (auto simp: weak_lock_def bind_eq_Some_conv split: if_splits)
  moreover have "ptrs_inv ow (s\<lparr>ctls := C, wvars := ?m\<rparr>)"
  proof (rule ptrs_invI)
    have "cnt ?m = (cnt (wvars s))(rp_base p := cnt (wvars s) (rp_base p) + 1)"
      by (rule cnt_add [OF ptrs_invD(2) [OF i] _ p(2)]) (simp add: v)
    then show "counts_ok (ctls (s\<lparr>ctls := C, wvars := ?m\<rparr>)) (dom (objs (s\<lparr>ctls := C, wvars := ?m\<rparr>))) ow
        (cnt (svars (s\<lparr>ctls := C, wvars := ?m\<rparr>))) (cnt (wvars (s\<lparr>ctls := C, wvars := ?m\<rparr>)))"
      using C(2) by simp
    show "card (dom (svars (s\<lparr>ctls := C, wvars := ?m\<rparr>))) + card (dom (wvars (s\<lparr>ctls := C, wvars := ?m\<rparr>))) < 2 ^ 31"
      using m card_dom_new [OF ptrs_invD(2) [OF i], of v p] unfolding spare_def by simp
  qed (use ptrs_invD(1,2,5,6) [OF i] p(1) in \<open>auto split: if_splits\<close>)
  ultimately show ?thesis using that by blast
qed

lemma wp_new_ok:
  assumes i: "ptrs_inv ow s" and v: "wvars s v = None" "svars s w = Some p" "rp_base p \<noteq> 0" and m: "spare s"
  obtains s' where "wp_new v w s = Some s'" "ptrs_inv ow s'" "wvars s' = (wvars s)(v \<mapsto> p)" "svars s' = svars s" "objs s' = objs s"
proof -
  have c: "cnt (svars s) (rp_base p) + cnt (wvars s) (rp_base p) > 0" using cnt_pos [OF ptrs_invD(1) [OF i] v(2,3)] by simp
  obtain C where "weak_lock (rp_base p) (s\<lparr>wvars := (wvars s)(v \<mapsto> p)\<rparr>) = Some (s\<lparr>ctls := C, wvars := (wvars s)(v \<mapsto> p)\<rparr>)"
    "ptrs_inv ow (s\<lparr>ctls := C, wvars := (wvars s)(v \<mapsto> p)\<rparr>)"
    by (rule add_weak [OF i v(1) m ptrs_invD(5) [OF i v(2)] v(3) c])
  then show ?thesis using that v(2) by (simp add: wp_new_def)
qed

lemma wp_copy_ok:
  assumes i: "ptrs_inv ow s" and v: "wvars s v = None" "wvars s w = Some p" and m: "spare s"
  obtains s' where "wp_copy v w s = Some s'" "ptrs_inv ow s'" "wvars s' = (wvars s)(v \<mapsto> p)" "svars s' = svars s" "objs s' = objs s"
proof (cases "rp_base p = 0")
  case True
  then have "p = null_ptr" using base_null ptrs_invD(6) [OF i v(2)] by simp
  then show ?thesis using that [of "wp_null v s"] v(2) wp_null_ok [OF i v(1) m] by (simp add: wp_copy_def wp_null_def)
next
  case False
  have c: "cnt (svars s) (rp_base p) + cnt (wvars s) (rp_base p) > 0" using cnt_pos [OF ptrs_invD(2) [OF i] v(2) False] by simp
  obtain C where "weak_lock (rp_base p) (s\<lparr>wvars := (wvars s)(v \<mapsto> p)\<rparr>) = Some (s\<lparr>ctls := C, wvars := (wvars s)(v \<mapsto> p)\<rparr>)"
    "ptrs_inv ow (s\<lparr>ctls := C, wvars := (wvars s)(v \<mapsto> p)\<rparr>)"
    by (rule add_weak [OF i v(1) m ptrs_invD(6) [OF i v(2)] False c])
  then show ?thesis using that v(2) False by (simp add: wp_copy_def)
qed

lemma wp_move_ok:
  assumes i: "ptrs_inv ow s" and v: "wvars s v = None" "wvars s w = Some p" and m: "spare s"
  obtains s' where "wp_move v w s = Some s'" "ptrs_inv ow s'" "wvars s' = (wvars s)(v \<mapsto> p, w \<mapsto> null_ptr)" "svars s' = svars s" "objs s' = objs s"
proof -
  have "v \<noteq> w" using v by auto
  have e: "wp_move v w s = Some (wp_swap v w (wp_null v s))"
    using v \<open>v \<noteq> w\<close> by (simp add: wp_move_def wp_unref_def wp_null_def wp_swap_def)
  have "ptrs_inv ow (wp_swap v w (wp_null v s))"
    by (rule wp_swap_ok [OF wp_null_ok [OF i v(1) m]]) (use v \<open>v \<noteq> w\<close> in \<open>auto simp: wp_null_def\<close>)
  then show ?thesis using that [OF e] v \<open>v \<noteq> w\<close> by (simp add: wp_null_def wp_swap_def)
qed

lemma wp_assign_ok:
  assumes i: "ptrs_inv ow s" and v: "wvars s v = Some p" "wvars s w = Some q" "wvars s t = None" and m: "spare s"
  obtains s' where "wp_assign v w t s = Some s'" "ptrs_inv ow s'" "wvars s' = (wvars s)(v \<mapsto> q)" "svars s' = svars s" "objs s' = objs s"
proof -
  have vt: "v \<noteq> t" using v by auto
  obtain s1 where s1: "wp_copy t w s = Some s1" "ptrs_inv ow s1" "wvars s1 = (wvars s)(t \<mapsto> q)" "svars s1 = svars s" "objs s1 = objs s"
    by (rule wp_copy_ok [OF i v(3,2) m])
  have v1: "wvars s1 v = Some p" "wvars s1 t = Some q" using s1(3) v vt by simp_all
  let ?s = "wp_swap v t s1"
  have t: "wvars ?s t = Some p" using v1 by (simp add: wp_swap_def)
  obtain s2 where s2: "wp_destroy t ?s = Some s2" "ptrs_inv ow s2" "wvars s2 = (wvars ?s)(t := None)" "svars s2 = svars ?s" "objs s2 = objs ?s"
    by (rule wp_destroy_ok [OF wp_swap_ok [OF s1(2) v1] t])
  have "(wvars ?s)(t := None) = (wvars s)(v \<mapsto> q)" using s1(3) v vt v1 by (auto simp: wp_swap_def)
  moreover have "wp_assign v w t s = Some s2" using s1(1) s2(1) by (simp add: wp_assign_def)
  ultimately show ?thesis using that s2(2-5) s1(4,5) by (simp add: wp_swap_def)
qed

text \<open>\<open>lock\<close> succeeds exactly when a strong pointer to the object exists.\<close>

lemma strong_lock_dead:
  assumes c: "counts_ok (ctls s) D ow S W" and b: "S b = 0" "W b > 0"
  shows "strong_lock b s = Some (False, s)"
  using b counts_okD(1) [OF c, of b] sint_n32 [of 0] by (simp add: strong_lock_def)

lemma wp_lock_ok:
  assumes i: "ptrs_inv ow s" and v: "svars s v = None" "wvars s w = Some p" and m: "spare s"
  obtains s' where "wp_lock v w s = Some (cnt (svars s) (rp_base p) > 0, s')" "ptrs_inv ow s'"
    "svars s' = (if cnt (svars s) (rp_base p) > 0 then (svars s)(v \<mapsto> p) else svars s)" "wvars s' = wvars s" "objs s' = objs s"
proof (cases "rp_base p \<noteq> 0 \<and> cnt (svars s) (rp_base p) > 0")
  case True
  obtain C where C: "strong_lock (rp_base p) s = Some (True, s\<lparr>ctls := C\<rparr>)" "ptrs_inv ow (s\<lparr>ctls := C, svars := (svars s)(v \<mapsto> p)\<rparr>)"
    by (rule add_strong [OF i v(1) m ptrs_invD(6) [OF i v(2)]]) (use True in auto)
  then show ?thesis using that [of "s\<lparr>ctls := C, svars := (svars s)(v \<mapsto> p)\<rparr>"] v(2) True by (simp add: wp_lock_def)
next
  case False
  have "wp_lock v w s = Some (False, s)"
  proof (cases "rp_base p = 0")
    case b: False
    then have "cnt (svars s) (rp_base p) = 0" "cnt (wvars s) (rp_base p) > 0" using False cnt_pos [OF ptrs_invD(2) [OF i] v(2)] by auto
    then show ?thesis using strong_lock_dead [OF ptrs_invD(4) [OF i]] v(2) b by (simp add: wp_lock_def)
  qed (use v(2) in \<open>simp add: wp_lock_def\<close>)
  moreover have "cnt (svars s) (rp_base p) = 0" using False by (cases "rp_base p = 0") auto
  ultimately show ?thesis using that [of s] i by simp
qed

section \<open>Copying on write keeps the invariant\<close>


lemma live_obj:
  assumes i: "ptrs_inv ow s" and v: "svars s v = Some p" "rp_base p \<noteq> 0"
  shows "rp_ptr p \<noteq> 0" "rp_ptr p \<in> dom (objs s)" "rp_ptr p = ow (rp_base p)"
proof -
  have c: "cnt (svars s) (rp_base p) > 0" by (rule cnt_pos [OF ptrs_invD(1) [OF i] v])
  show p: "rp_ptr p = ow (rp_base p)" using ptrs_invD(5) [OF i v(1)] v(2) by (simp add: ptr_of_def)
  show "rp_ptr p \<noteq> 0" "rp_ptr p \<in> dom (objs s)" unfolding p using counts_okD(2,4) [OF ptrs_invD(4) [OF i]] c by auto
qed

lemma use_count:
  assumes i: "ptrs_inv ow s" and v: "svars s v = Some p"
  shows "sp_use_count v s = Some (int (cnt (svars s) (rp_base p)))"
proof (cases "rp_base p = 0")
  case False
  note c = ptrs_invD(4) [OF i]
  have "cnt (svars s) (rp_base p) > 0" by (rule cnt_pos [OF ptrs_invD(1) [OF i] v False])
  moreover have "sint (n32 (cnt (svars s) (rp_base p))) = int (cnt (svars s) (rp_base p))"
    using counts_okD(5) [OF c, of "rp_base p"] by (intro sint_n32) linarith
  ultimately show ?thesis using v False counts_okD(1) [OF c, of "rp_base p"] by (simp add: sp_use_count_def)
qed (use v in \<open>simp add: sp_use_count_def\<close>)

lemma shared_obj:
  assumes i: "ptrs_inv ow s" and v: "svars s v = Some p" "svars s w = Some q" "v \<noteq> w" "rp_base p \<noteq> 0" "rp_ptr q = rp_ptr p"
  shows "cnt (svars s) (rp_base p) > 1"
proof -
  note P = live_obj [OF i v(1,4)]
  have f: "finite (dom (svars s))" by (rule ptrs_invD(1) [OF i])
  have q: "rp_base q \<noteq> 0" using ptrs_invD(5) [OF i v(2)] P(1) v(5) by (auto simp: ptr_of_def split: if_splits)
  have "cnt (svars s) (rp_base p) > 0" "cnt (svars s) (rp_base q) > 0" using cnt_pos [OF f v(1,4)] cnt_pos [OF f v(2) q] by auto
  then have "rp_base q = rp_base p"
    using inj_onD [OF counts_okD(3) [OF ptrs_invD(4) [OF i]], of "rp_base q" "rp_base p"] live_obj(3) [OF i v(2) q] P(3) v(5) by simp
  then have "{v, w} \<subseteq> refs (svars s) (rp_base p)" using v by (simp add: refs_def)
  then have "card {v, w} \<le> cnt (svars s) (rp_base p)" by (rule card_mono [OF finite_refs [OF f]])
  then show ?thesis using v(3) by simp
qed

lemma cow_copy_ok:
  assumes i: "ptrs_inv ow s" and v: "svars s v = Some p" "svars s t = None"
    and a: "a \<noteq> 0" "objs s a = None" and b: "b \<noteq> 0" "ctls s b = None" and m: "spare s"
  obtains s' ow' where "cow_copy v t a b s = Some s'" "ptrs_inv ow' s'" "wvars s' = wvars s"
    "if cnt (svars s) (rp_base p) > 1 then svars s' = (svars s)(v \<mapsto> \<lparr>rp_ptr = a, rp_base = b\<rparr>) \<and> objs s' = (objs s)(a := objs s (rp_ptr p)) else s' = s"
proof (cases "cnt (svars s) (rp_base p) > 1")
  case True
  have p: "rp_base p \<noteq> 0" using True by (cases "rp_base p = 0") auto
  note P = live_obj [OF i v(1) p]
  obtain x where x: "objs s (rp_ptr p) = Some x" using P(2) by auto
  define s1 where "s1 = sp_new t x a b s"
  have i1: "ptrs_inv (ow(b := a)) s1" unfolding s1_def by (rule sp_new_ok [OF i v(2) a b m])
  have vt: "v \<noteq> t" using v by auto
  have v1: "svars s1 v = Some p" "svars s1 t = Some \<lparr>rp_ptr = a, rp_base = b\<rparr>" using v vt by (simp_all add: s1_def sp_new_def)
  obtain s2 where s2: "sp_destroy t (sp_swap v t s1) = Some s2" "ptrs_inv (ow(b := a)) s2"
      "svars s2 = (svars s1)(v \<mapsto> \<lparr>rp_ptr = a, rp_base = b\<rparr>, t := None)" "wvars s2 = wvars s1"
      "objs s2 = (if cnt (svars s1) (rp_base p) = 1 then (objs s1)(rp_ptr p := None) else objs s1)"
    by (rule sp_replace_ok [OF i1 v1 vt])
  have "cnt (svars s1) (rp_base p) \<ge> cnt (svars s) (rp_base p)"
    using cnt_upd [OF ptrs_invD(1) [OF i], of t "Some \<lparr>rp_ptr = a, rp_base = b\<rparr>" "rp_base p"] v(2) by (simp add: s1_def sp_new_def)
  then have "objs s2 = objs s1" using s2(5) True by simp
  moreover have "cow_copy v t a b s = Some s2" using v(1) use_count [OF i v(1)] True P(1) x s2(1) by (simp add: cow_copy_def s1_def)
  moreover have "(svars s1)(v \<mapsto> \<lparr>rp_ptr = a, rp_base = b\<rparr>, t := None) = (svars s)(v \<mapsto> \<lparr>rp_ptr = a, rp_base = b\<rparr>)"
    using v vt by (auto simp: s1_def sp_new_def)
  ultimately show ?thesis using that [of s2 "ow(b := a)"] s2(2-4) True x by (simp add: s1_def sp_new_def)
next
  case False
  then have "cow_copy v t a b s = Some s" using v(1) use_count [OF i v(1)] by (simp add: cow_copy_def)
  then show ?thesis using that i False by simp
qed

section \<open>All operations\<close>

datatype 'a ptr_op =
    SpNew nat 'a nat nat | SpNull nat | SpCopy nat nat | SpMove nat nat | SpAssign nat nat nat | SpDestroy nat
  | WpNew nat nat | WpNull nat | WpCopy nat nat | WpMove nat nat | WpAssign nat nat nat | WpDestroy nat
  | WpLock nat nat | CowRW nat nat nat nat

fun run_op :: "'a ptr_op \<Rightarrow> 'a ptrs \<Rightarrow> 'a ptrs option" where
  "run_op (SpNew v x a b) s = Some (sp_new v x a b s)"
| "run_op (SpNull v) s = Some (sp_null v s)"
| "run_op (SpCopy v w) s = sp_copy v w s"
| "run_op (SpMove v w) s = sp_move v w s"
| "run_op (SpAssign v w t) s = sp_assign v w t s"
| "run_op (SpDestroy v) s = sp_destroy v s"
| "run_op (WpNew v w) s = wp_new v w s"
| "run_op (WpNull v) s = Some (wp_null v s)"
| "run_op (WpCopy v w) s = wp_copy v w s"
| "run_op (WpMove v w) s = wp_move v w s"
| "run_op (WpAssign v w t) s = wp_assign v w t s"
| "run_op (WpDestroy v) s = wp_destroy v s"
| "run_op (WpLock v w) s = map_option snd (wp_lock v w s)"
| "run_op (CowRW v t a b) s = map_option snd (cow_getRW v t a b s)"

text \<open>
  What the language and the allocator guarantee: a constructed variable is new, operands are constructed, and \<open>new\<close> returns
  an address that is not in use; and there are less than \<open>2 ^ 31\<close> pointers.
\<close>

fun legal :: "'a ptr_op \<Rightarrow> 'a ptrs \<Rightarrow> bool" where
  "legal (SpNew v x a b) s \<longleftrightarrow> svars s v = None \<and> a \<noteq> 0 \<and> objs s a = None \<and> b \<noteq> 0 \<and> ctls s b = None \<and> spare s"
| "legal (SpNull v) s \<longleftrightarrow> svars s v = None \<and> spare s"
| "legal (SpCopy v w) s \<longleftrightarrow> svars s v = None \<and> svars s w \<noteq> None \<and> spare s"
| "legal (SpMove v w) s \<longleftrightarrow> svars s v = None \<and> svars s w \<noteq> None \<and> spare s"
| "legal (SpAssign v w t) s \<longleftrightarrow> svars s v \<noteq> None \<and> svars s w \<noteq> None \<and> svars s t = None \<and> spare s"
| "legal (SpDestroy v) s \<longleftrightarrow> svars s v \<noteq> None"
| "legal (WpNew v w) s \<longleftrightarrow> wvars s v = None \<and> svars s w \<noteq> None \<and> spare s"
| "legal (WpNull v) s \<longleftrightarrow> wvars s v = None \<and> spare s"
| "legal (WpCopy v w) s \<longleftrightarrow> wvars s v = None \<and> wvars s w \<noteq> None \<and> spare s"
| "legal (WpMove v w) s \<longleftrightarrow> wvars s v = None \<and> wvars s w \<noteq> None \<and> spare s"
| "legal (WpAssign v w t) s \<longleftrightarrow> wvars s v \<noteq> None \<and> wvars s w \<noteq> None \<and> wvars s t = None \<and> spare s"
| "legal (WpDestroy v) s \<longleftrightarrow> wvars s v \<noteq> None"
| "legal (WpLock v w) s \<longleftrightarrow> svars s v = None \<and> wvars s w \<noteq> None \<and> spare s"
| "legal (CowRW v t a b) s \<longleftrightarrow> svars s v \<noteq> None \<and> svars s t = None \<and> a \<noteq> 0 \<and> objs s a = None \<and> b \<noteq> 0 \<and> ctls s b = None \<and> spare s"

text \<open>The operation that the code gets wrong: a weak pointer made from a null shared pointer.\<close>

definition weak_of_null :: "'a ptr_op \<Rightarrow> 'a ptrs \<Rightarrow> bool" where
  "weak_of_null x s \<longleftrightarrow> (\<exists>v w p. x = WpNew v w \<and> svars s w = Some p \<and> rp_base p = 0)"

definition ptrs_ok :: "'a ptrs \<Rightarrow> bool" where
  "ptrs_ok s \<longleftrightarrow> (\<exists>ow. ptrs_inv ow s)"

lemma ptrs_step:
  assumes ok: "ptrs_ok s" and l: "legal x s" "\<not> weak_of_null x s"
  shows "\<exists>s'. run_op x s = Some s' \<and> ptrs_ok s'"
proof -
  obtain ow where i: "ptrs_inv ow s" using ok by (auto simp: ptrs_ok_def)
  show ?thesis
  proof (cases x)
    case (SpNew v y a b)
    then show ?thesis using l sp_new_ok [OF i, of v a b y] by (auto simp: ptrs_ok_def)
  next
    case (SpNull v)
    then show ?thesis using l sp_null_ok [OF i] by (auto simp: ptrs_ok_def)
  next
    case (SpCopy v w)
    then obtain p where "svars s v = None" "svars s w = Some p" "spare s" using l by auto
    then obtain s' where "sp_copy v w s = Some s'" "ptrs_inv ow s'" by (rule sp_copy_ok [OF i])
    then show ?thesis using SpCopy by (auto simp: ptrs_ok_def)
  next
    case (SpMove v w)
    then obtain p where "svars s v = None" "svars s w = Some p" "spare s" using l by auto
    then obtain s' where "sp_move v w s = Some s'" "ptrs_inv ow s'" by (rule sp_move_ok [OF i])
    then show ?thesis using SpMove by (auto simp: ptrs_ok_def)
  next
    case (SpAssign v w t)
    then obtain p q where "svars s v = Some p" "svars s w = Some q" "svars s t = None" "spare s" using l by auto
    then obtain s' where "sp_assign v w t s = Some s'" "ptrs_inv ow s'" by (rule sp_assign_ok [OF i])
    then show ?thesis using SpAssign by (auto simp: ptrs_ok_def)
  next
    case (SpDestroy v)
    then obtain p where "svars s v = Some p" using l by auto
    then obtain s' where "sp_destroy v s = Some s'" "ptrs_inv ow s'" by (rule sp_destroy_ok [OF i])
    then show ?thesis using SpDestroy by (auto simp: ptrs_ok_def)
  next
    case (WpNew v w)
    then obtain p where "wvars s v = None" "svars s w = Some p" "rp_base p \<noteq> 0" "spare s" using l by (auto simp: weak_of_null_def)
    then obtain s' where "wp_new v w s = Some s'" "ptrs_inv ow s'" by (rule wp_new_ok [OF i])
    then show ?thesis using WpNew by (auto simp: ptrs_ok_def)
  next
    case (WpNull v)
    then show ?thesis using l wp_null_ok [OF i] by (auto simp: ptrs_ok_def)
  next
    case (WpCopy v w)
    then obtain p where "wvars s v = None" "wvars s w = Some p" "spare s" using l by auto
    then obtain s' where "wp_copy v w s = Some s'" "ptrs_inv ow s'" by (rule wp_copy_ok [OF i])
    then show ?thesis using WpCopy by (auto simp: ptrs_ok_def)
  next
    case (WpMove v w)
    then obtain p where "wvars s v = None" "wvars s w = Some p" "spare s" using l by auto
    then obtain s' where "wp_move v w s = Some s'" "ptrs_inv ow s'" by (rule wp_move_ok [OF i])
    then show ?thesis using WpMove by (auto simp: ptrs_ok_def)
  next
    case (WpAssign v w t)
    then obtain p q where "wvars s v = Some p" "wvars s w = Some q" "wvars s t = None" "spare s" using l by auto
    then obtain s' where "wp_assign v w t s = Some s'" "ptrs_inv ow s'" by (rule wp_assign_ok [OF i])
    then show ?thesis using WpAssign by (auto simp: ptrs_ok_def)
  next
    case (WpDestroy v)
    then obtain p where "wvars s v = Some p" using l by auto
    then obtain s' where "wp_destroy v s = Some s'" "ptrs_inv ow s'" by (rule wp_destroy_ok [OF i])
    then show ?thesis using WpDestroy by (auto simp: ptrs_ok_def)
  next
    case (WpLock v w)
    then obtain p where "svars s v = None" "wvars s w = Some p" "spare s" using l by auto
    then obtain s' where "wp_lock v w s = Some (cnt (svars s) (rp_base p) > 0, s')" "ptrs_inv ow s'" by (rule wp_lock_ok [OF i])
    then show ?thesis using WpLock by (auto simp: ptrs_ok_def)
  next
    case (CowRW v t a b)
    then obtain p where p: "svars s v = Some p" "svars s t = None" "a \<noteq> 0" "objs s a = None" "b \<noteq> 0" "ctls s b = None" "spare s"
      using l by auto
    obtain s' ow' where s': "cow_copy v t a b s = Some s'" "ptrs_inv ow' s'"
        "if cnt (svars s) (rp_base p) > 1 then svars s' = (svars s)(v \<mapsto> \<lparr>rp_ptr = a, rp_base = b\<rparr>) \<and> objs s' = (objs s)(a := objs s (rp_ptr p)) else s' = s"
      by (rule cow_copy_ok [OF i p])
    then have "\<exists>q. svars s' v = Some q" using p(1) by (auto split: if_splits)
    then show ?thesis using s'(1,2) CowRW by (auto simp: cow_getRW_def ptrs_ok_def)
  qed
qed

lemma weak_of_null_fails: "ptrs_ok s \<Longrightarrow> weak_of_null x s \<Longrightarrow> run_op x s = None"
  by (auto simp: ptrs_ok_def weak_of_null_def wp_new_def weak_lock_def counts_okD(1) [OF ptrs_invD(4)])

definition ptrs_empty :: "'a ptrs" where
  "ptrs_empty = \<lparr>ctls = Map.empty, objs = Map.empty, svars = Map.empty, wvars = Map.empty\<rparr>"

inductive ptrs_reach :: "'a ptrs \<Rightarrow> bool" where
  pr_empty: "ptrs_reach ptrs_empty"
| pr_step: "ptrs_reach s \<Longrightarrow> legal x s \<Longrightarrow> run_op x s = Some s' \<Longrightarrow> ptrs_reach s'"

lemma ptrs_reach_ok: "ptrs_reach s \<Longrightarrow> ptrs_ok s"
proof (induction rule: ptrs_reach.induct)
  case pr_empty
  have "ptrs_inv (\<lambda>b. 0) (ptrs_empty :: 'a ptrs)" by (rule ptrs_invI) (simp_all add: ptrs_empty_def counts_ok_def refs_def)
  then show ?case by (auto simp: ptrs_ok_def)
next
  case (pr_step s x s')
  then show ?case using ptrs_step [of s x] weak_of_null_fails [of s x] by (cases "weak_of_null x s") auto
qed

section \<open>Example\<close>

text \<open>Two shared pointers to one object.\<close>

definition example_ptrs :: "nat ptrs" where
  "example_ptrs = \<lparr>ctls = [200 \<mapsto> \<lparr>uses_ctl = 2, uses_obj = 2\<rparr>], objs = [100 \<mapsto> 7],
     svars = [0 \<mapsto> \<lparr>rp_ptr = 100, rp_base = 200\<rparr>, 1 \<mapsto> \<lparr>rp_ptr = 100, rp_base = 200\<rparr>], wvars = Map.empty\<rparr>"

lemma example_ptrs_reach: "ptrs_reach example_ptrs"
proof -
  define s1 :: "nat ptrs" where "s1 = sp_new 0 7 100 200 ptrs_empty"
  have "legal (SpNew 0 (7 :: nat) 100 200) ptrs_empty" by (simp add: ptrs_empty_def spare_def)
  then have r: "ptrs_reach s1" by (rule pr_step [OF pr_empty]) (simp add: s1_def)
  have "legal (SpCopy 1 0) s1" by (simp add: s1_def sp_new_def ptrs_empty_def spare_def)
  moreover have "run_op (SpCopy 1 0) s1 = Some example_ptrs"
    by (simp add: s1_def sp_new_def ptrs_empty_def sp_copy_def strong_lock_def example_ptrs_def)
  ultimately show ?thesis by (rule pr_step [OF r])
qed

section \<open>Properties\<close>




text \<open>
  C32: \<open>getRW\<close> of a pointer that copies on write returns an object with the same contents that no other shared pointer points to;
  writing to it changes the contents behind no other pointer.
\<close>

theorem cow_isolates:
  assumes "ptrs_reach s" "legal (CowRW v t a b) s" "svars s v = Some p" "rp_base p \<noteq> 0"
  shows "\<exists>q s'. cow_getRW v t a b s = Some (q, s') \<and> ptrs_reach s' \<and> objs s' q = objs s (rp_ptr p) \<and> objs s' q \<noteq> None \<and>
    (\<forall>w r. w \<noteq> v \<longrightarrow> svars s w = Some r \<longrightarrow> svars s' w = Some r \<and> rp_ptr r \<noteq> q \<and>
       (\<forall>y. rp_base r \<noteq> 0 \<longrightarrow> ((objs s')(q \<mapsto> y)) (rp_ptr r) = objs s (rp_ptr r)))"
proof -
  obtain ow where i: "ptrs_inv ow s" using ptrs_reach_ok [OF assms(1)] by (auto simp: ptrs_ok_def)
  have l: "svars s t = None" "a \<noteq> 0" "objs s a = None" "b \<noteq> 0" "ctls s b = None" "spare s" using assms(2) by auto
  obtain s' ow' where s': "cow_copy v t a b s = Some s'" "ptrs_inv ow' s'"
      "if cnt (svars s) (rp_base p) > 1 then svars s' = (svars s)(v \<mapsto> \<lparr>rp_ptr = a, rp_base = b\<rparr>) \<and> objs s' = (objs s)(a := objs s (rp_ptr p)) else s' = s"
    by (rule cow_copy_ok [OF i assms(3) l])
  note P = live_obj [OF i assms(3,4)]
  have r: "rp_ptr r = 0 \<or> rp_ptr r \<in> dom (objs s)" if "svars s w = Some r" for w r
    using live_obj(2) [OF i that] ptrs_invD(5) [OF i that] by (auto simp: ptr_of_def split: if_splits)
  define q where "q = (if cnt (svars s) (rp_base p) > 1 then a else rp_ptr p)"
  have "cow_getRW v t a b s = Some (q, s')" using s' assms(3) by (auto simp: cow_getRW_def q_def split: if_splits)
  moreover from this have "ptrs_reach s'" by (intro pr_step [OF assms(1,2)]) simp
  moreover have "objs s' q = objs s (rp_ptr p)" "objs s' q \<noteq> None" using s'(3) P(2) by (auto simp: q_def split: if_splits)
  moreover have "svars s' w = Some r \<and> rp_ptr r \<noteq> q \<and> (\<forall>y. rp_base r \<noteq> 0 \<longrightarrow> ((objs s')(q \<mapsto> y)) (rp_ptr r) = objs s (rp_ptr r))"
    if w: "w \<noteq> v" "svars s w = Some r" for w r
  proof (cases "cnt (svars s) (rp_base p) > 1")
    case True
    have "rp_ptr r \<noteq> a" using r [OF w(2)] l(2,3) by auto
    then show ?thesis using s'(3) True w by (simp add: q_def)
  next
    case False
    have "rp_ptr r \<noteq> rp_ptr p" using shared_obj [OF i assms(3) w(2) w(1) [symmetric] assms(4)] False by blast
    then show ?thesis using s'(3) False w by (simp add: q_def)
  qed
  ultimately show ?thesis by blast
qed

theorem cow_isolates_witness:
  "\<exists>q s'. cow_getRW 0 9 300 400 example_ptrs = Some (q, s') \<and> objs s' q = Some 7 \<and> q \<noteq> 100"
proof -
  have "legal (CowRW 0 9 300 400) example_ptrs" by (simp add: example_ptrs_def spare_def)
  moreover have "svars example_ptrs 0 = Some \<lparr>rp_ptr = 100, rp_base = 200\<rparr>" "svars example_ptrs 1 = Some \<lparr>rp_ptr = 100, rp_base = 200\<rparr>"
    "objs example_ptrs 100 = Some 7" by (simp_all add: example_ptrs_def)
  ultimately show ?thesis using cow_isolates [OF example_ptrs_reach, of 0 9 300 400 "\<lparr>rp_ptr = 100, rp_base = 200\<rparr>"] by fastforce
qed

end
