(* ===== verification/Kernel_Memman.thy ===== *)
theory Kernel_Memman
  imports Main "HOL-Library.Word" "HOL-Library.Monad_Syntax"
begin

text \<open>
  The physical page allocator (\<open>arch/x86/memman.cpp\<close>): a status for every 4 KiB
  page frame, the range of frames that are searched and the amount of free
  memory, and the operations that hand out and take back frames by their address
  in the higher-half direct map.

  Frame numbers are far below \<open>2 ^ 64\<close> and are natural numbers; \<open>totalMem\<close> is
  a 64-bit word, as the subtraction that computes it can wrap around.

  The status table is a function of the frame number: the packing of four
  statuses into the bytes of \<open>used_bitmap\<close> is \<open>setSts\<close>/\<open>getSts\<close> below, stated on
  the bytes and shown to be a table.  The lock is held for the whole of each
  operation, so an operation is one step.  A failed \<open>assert2\<close> is \<open>None\<close>.
\<close>

unbundle bit_operations_syntax

section \<open>The table\<close>

datatype page_status = RESERVED | FREE | USED | RECLAIMABLE

record four_pages =
  fp_first :: page_status
  fp_second :: page_status
  fp_third :: page_status
  fp_fourth :: page_status

record memman =
  used_bitmap :: "nat \<Rightarrow> four_pages"
  maxPid :: nat
  minPid :: nat
  totalMem :: "64 word"

definition setSts :: "nat \<Rightarrow> page_status \<Rightarrow> memman \<Rightarrow> memman" where
  "setSts pid sts s =
     (let idx = pid div 4; f = used_bitmap s idx;
          f = (if pid mod 4 = 0 then f\<lparr>fp_first := sts\<rparr>
               else if pid mod 4 = 1 then f\<lparr>fp_second := sts\<rparr>
               else if pid mod 4 = 2 then f\<lparr>fp_third := sts\<rparr>
               else f\<lparr>fp_fourth := sts\<rparr>)
      in s\<lparr>used_bitmap := (used_bitmap s)(idx := f)\<rparr>)"

definition getSts :: "nat \<Rightarrow> memman \<Rightarrow> page_status" where
  "getSts pid s =
     (let idx = pid div 4; f = used_bitmap s idx
      in if pid mod 4 = 0 then fp_first f
         else if pid mod 4 = 1 then fp_second f
         else if pid mod 4 = 2 then fp_third f
         else fp_fourth f)"

definition MAX_PID :: nat where
  "MAX_PID = (32 * 1024 * 1024 div 16) * 4 - 4"

section \<open>Addresses\<close>

definition roundup4k :: "64 word \<Rightarrow> 64 word" where
  "roundup4k a = (if a AND 0xFFF = 0 then a else (a + 0x1000) AND NOT 0xFFF)"

definition rounddown4k :: "64 word \<Rightarrow> 64 word" where
  "rounddown4k a = (if a AND 0xFFF = 0 then a else a AND NOT 0xFFF)"

definition HHDM_BEGIN :: "64 word" where "HHDM_BEGIN = 0xfffff80000000000"

definition HHDM_V2P :: "64 word \<Rightarrow> 64 word" where "HHDM_V2P a = a AND NOT HHDM_BEGIN"
definition HHDM_P2V :: "64 word \<Rightarrow> 64 word" where "HHDM_P2V a = a OR HHDM_BEGIN"

section \<open>The memory map of the boot loader\<close>

record memmap_entry =
  me_base :: "64 word"
  me_length :: "64 word"
  me_type :: "64 word"

text \<open>The loop that marks the frames \<open>cp\<close> up to \<open>pidend\<close>.\<close>

fun mark_free :: "nat \<Rightarrow> nat \<Rightarrow> memman \<Rightarrow> memman" where
  "mark_free cp 0 s = s"
| "mark_free cp (Suc n) s =
     mark_free (cp + 1) n (if getSts cp s \<noteq> USED then setSts cp FREE s else s)"

definition parse_entry :: "64 word \<Rightarrow> memmap_entry \<Rightarrow> memman \<Rightarrow> memman" where
  "parse_entry what_is_considered_free e s =
     (if me_type e \<noteq> what_is_considered_free then s
      else
        let roundbase = roundup4k (me_base e)
        in if roundbase \<ge> me_base e + me_length e then s
           else if me_length e \<le> roundbase - me_base e then s
           else
             let len = rounddown4k (me_length e - (roundbase - me_base e))
             in if len = 0 then s
                else
                  let pid = unat (drop_bit 12 roundbase);
                      s = (if minPid s = 0 \<or> pid < minPid s then s\<lparr>minPid := pid\<rparr> else s);
                      pidend = unat (drop_bit 12 (roundbase + len));
                      pidend = (if pidend \<ge> MAX_PID then MAX_PID - 1 else pidend);
                      s = mark_free pid (pidend - pid) s;
                      s = s\<lparr>totalMem := totalMem s + (word_of_nat pidend - word_of_nat pid) * 4\<rparr>
                  in if pidend > maxPid s then s\<lparr>maxPid := pidend\<rparr> else s)"

definition parse_limine_memmap :: "memmap_entry list \<Rightarrow> 64 word \<Rightarrow> memman \<Rightarrow> memman" where
  "parse_limine_memmap entries what_is_considered_free s =
     fold (parse_entry what_is_considered_free) entries s"

section \<open>Allocation\<close>

text \<open>\<open>while (getSts(curPid) != FREE && curPid < maxPid) minPid = curPid++;\<close>\<close>

function scan_free :: "nat \<Rightarrow> memman \<Rightarrow> nat \<times> memman" where
  "scan_free curPid s =
     (if getSts curPid s \<noteq> FREE \<and> curPid < maxPid s
      then scan_free (curPid + 1) (s\<lparr>minPid := curPid\<rparr>)
      else (curPid, s))"
  by pat_completeness auto
termination by (relation "measure (\<lambda>(curPid, s). maxPid s - curPid)") auto

text \<open>\<open>get4k\<close>: \<open>Some (0, _)\<close> is the \<open>NULL\<close> result.\<close>

definition get4k :: "memman \<Rightarrow> (64 word \<times> memman) option" where
  "get4k s =
     (if totalMem s = 0 then Some (0, s)
      else
        let (curPid, s) = scan_free (minPid s) s
        in if curPid \<ge> maxPid s then Some (0, s)
           else
             let s = s\<lparr>totalMem := totalMem s - 4\<rparr>
             in if getSts curPid s \<noteq> FREE then None
                else Some (HHDM_P2V (push_bit 12 (word_of_nat curPid)), setSts curPid USED s))"

definition free4k :: "64 word \<Rightarrow> memman \<Rightarrow> memman option" where
  "free4k page s =
     (if page \<ge> HHDM_BEGIN then
        let page = HHDM_V2P page;
            roundbase = rounddown4k page
        in if page \<noteq> roundbase then None
           else
             let pid = unat (drop_bit 12 page)
             in if getSts pid s \<noteq> USED then None
                else
                  let s = setSts pid FREE s;
                      s = s\<lparr>totalMem := totalMem s + 4\<rparr>
                  in Some (if minPid s > pid then s\<lparr>minPid := pid\<rparr> else s)
      else None)"

definition get_free :: "memman \<Rightarrow> 64 word" where
  "get_free s = totalMem s"

declare scan_free.simps [simp del]

section \<open>The table behind the bytes\<close>

lemma getSts_setSts: "getSts q (setSts p v s) = (if q = p then v else getSts q s)"
proof (cases "q div 4 = p div 4")
  case True
  have "q = p \<longleftrightarrow> q mod 4 = p mod 4" using True by (metis div_mult_mod_eq)
  moreover have "p mod 4 < 4" "q mod 4 < 4" by simp_all
  ultimately show ?thesis using True by (auto simp: getSts_def setSts_def Let_def)
next
  case False
  then show ?thesis by (auto simp: getSts_def setSts_def Let_def)
qed

lemma setSts_fields [simp]:
  "maxPid (setSts p v s) = maxPid s" "minPid (setSts p v s) = minPid s" "totalMem (setSts p v s) = totalMem s"
  by (simp_all add: setSts_def Let_def)

lemma getSts_fields [simp]:
  "getSts q (s\<lparr>minPid := a\<rparr>) = getSts q s" "getSts q (s\<lparr>totalMem := b\<rparr>) = getSts q s"
  "getSts q (s\<lparr>maxPid := c\<rparr>) = getSts q s"
  by (simp_all add: getSts_def)

section \<open>The invariant\<close>

text \<open>
  The free frames are those between \<open>minPid\<close> and \<open>maxPid\<close> marked free, and
  \<open>totalMem\<close> counts them in KiB.
\<close>

definition free_pids :: "memman \<Rightarrow> nat set" where
  "free_pids s = {p. p < maxPid s \<and> getSts p s = FREE}"

definition memman_inv :: "memman \<Rightarrow> bool" where
  "memman_inv s \<longleftrightarrow> maxPid s \<le> MAX_PID \<and> totalMem s = word_of_nat (4 * card (free_pids s)) \<and>
     (\<forall>p \<in> free_pids s. minPid s \<le> p) \<and> (\<forall>p. getSts p s \<noteq> RESERVED \<longrightarrow> p < maxPid s)"

lemma finite_free_pids [simp]: "finite (free_pids s)"
  by (simp add: free_pids_def)


lemma scan_free_spec:
  assumes "scan_free c s = (p, s')"
  shows "c \<le> p \<and> maxPid s' = maxPid s \<and> totalMem s' = totalMem s \<and> used_bitmap s' = used_bitmap s \<and>
    (\<forall>q. c \<le> q \<and> q < p \<longrightarrow> getSts q s \<noteq> FREE) \<and> (p < maxPid s \<longrightarrow> getSts p s = FREE) \<and>
    (minPid s \<le> c \<longrightarrow> minPid s' \<le> p)"
  using assms
proof (induction c s rule: scan_free.induct)
  case (1 c s)
  show ?case
  proof (cases "getSts c s \<noteq> FREE \<and> c < maxPid s")
    case True
    then have e: "scan_free (c + 1) (s\<lparr>minPid := c\<rparr>) = (p, s')" using 1(2) by (simp add: scan_free.simps [of c s])
    from 1(1) [OF True e] True show ?thesis by (auto simp: Suc_le_eq) (metis le_neq_implies_less)+
  next
    case False
    then have "p = c" "s' = s" using 1(2) by (auto simp: scan_free.simps [of c s])
    then show ?thesis using False by auto
  qed
qed

lemma free_pids_setSts:
  assumes "p < maxPid s"
  shows "free_pids (setSts p v s) = (if v = FREE then insert p (free_pids s) else free_pids s - {p})"
  using assms by (auto simp: free_pids_def getSts_setSts)

lemma free_pids_fields [simp]:
  "free_pids (s\<lparr>minPid := a\<rparr>) = free_pids s" "free_pids (s\<lparr>totalMem := b\<rparr>) = free_pids s"
  by (simp_all add: free_pids_def)

lemma card_free_pids: "memman_inv s \<Longrightarrow> card (free_pids s) \<le> MAX_PID"
proof -
  assume "memman_inv s"
  then have "free_pids s \<subseteq> {..<MAX_PID}" by (auto simp: memman_inv_def free_pids_def)
  then show ?thesis using card_mono [of "{..<MAX_PID}" "free_pids s"] by simp
qed

lemma word_card_0: "n \<le> MAX_PID \<Longrightarrow> word_of_nat (4 * n) = (0 :: 64 word) \<longleftrightarrow> n = 0"
proof -
  assume n: "n \<le> MAX_PID"
  have "unat (word_of_nat (4 * n) :: 64 word) = 4 * n"
    using n unfolding unat_of_nat by (intro mod_less) (simp add: MAX_PID_def)
  then show ?thesis by (metis mult_is_0 unsigned_0 word_of_nat_eq_0_iff zero_neq_numeral of_nat_0)
qed

section \<open>Addresses of frames\<close>

definition page_addr :: "nat \<Rightarrow> 64 word" where
  "page_addr p = HHDM_P2V (push_bit 12 (word_of_nat p))"

lemma HHDM_mask: "HHDM_BEGIN = NOT (mask 43)"
  by (simp add: HHDM_BEGIN_def mask_eq_exp_minus_1)

lemma page_phys:
  assumes "p < MAX_PID"
  shows "unat (push_bit 12 (word_of_nat p) :: 64 word) = p * 4096"
proof -
  have p: "p < 2 ^ 23" using assms by (simp add: MAX_PID_def)
  then have "unat (word_of_nat p :: 64 word) = p" unfolding unat_of_nat by (intro mod_less) simp
  then show ?thesis using p by (simp add: push_bit_eq_mult unat_word_ariths)
qed

lemma page_addr_phys:
  assumes "p < MAX_PID"
  shows "HHDM_V2P (page_addr p) = push_bit 12 (word_of_nat p)"
    and "HHDM_BEGIN \<le> page_addr p" and "page_addr p \<noteq> 0"
proof -
  let ?x = "push_bit 12 (word_of_nat p) :: 64 word"
  have "p < 2 ^ 23" using assms by (simp add: MAX_PID_def)
  then have x: "unat ?x < 2 ^ 43" using page_phys [OF assms] by simp
  have t: "take_bit 43 ?x = ?x" unfolding word_unat_eq_iff unsigned_take_bit_eq by (rule take_bit_nat_eq_self [OF x])
  have "?x AND mask 43 = ?x" using t by (simp only: take_bit_eq_mask)
  then show "HHDM_V2P (page_addr p) = ?x"
    unfolding HHDM_V2P_def page_addr_def HHDM_P2V_def HHDM_mask
    by (simp only: bit.double_compl bit.conj_disj_distrib2) simp
  have "?x AND NOT (mask 43) = 0"
    by (metis \<open>?x AND mask 43 = ?x\<close> and.assoc and.right_idem bit.conj_cancel_right bit.conj_zero_right)
  then have e: "page_addr p = ?x + HHDM_BEGIN"
    unfolding page_addr_def HHDM_P2V_def HHDM_mask by (metis disjunctive_add_eq_or)
  have "unat ?x + unat HHDM_BEGIN < 2 ^ 64" using x by (simp add: HHDM_BEGIN_def)
  then have "unat (page_addr p) = unat ?x + unat HHDM_BEGIN" unfolding e by (simp add: unat_word_ariths)
  then show "HHDM_BEGIN \<le> page_addr p" "page_addr p \<noteq> 0"
    by (auto simp: word_le_nat_alt HHDM_BEGIN_def)
qed

lemma page_addr_pid:
  assumes "p < MAX_PID"
  shows "unat (drop_bit 12 (HHDM_V2P (page_addr p))) = p"
    and "rounddown4k (HHDM_V2P (page_addr p)) = HHDM_V2P (page_addr p)"
proof -
  show "unat (drop_bit 12 (HHDM_V2P (page_addr p))) = p"
    unfolding page_addr_phys(1) [OF assms] by (simp add: drop_bit_eq_div unat_div page_phys [OF assms])
  have "push_bit 12 (word_of_nat p) AND (0xFFF :: 64 word) = 0"
  proof (rule bit_word_eqI)
    fix n :: nat
    have "(0xFFF :: 64 word) = mask 12" by (simp add: mask_eq_exp_minus_1)
    then show "bit (push_bit 12 (word_of_nat p) AND (0xFFF :: 64 word)) n \<longleftrightarrow> bit (0 :: 64 word) n"
      by (simp only: bit_simps) auto
  qed
  then show "rounddown4k (HHDM_V2P (page_addr p)) = HHDM_V2P (page_addr p)"
    unfolding page_addr_phys(1) [OF assms] rounddown4k_def by simp
qed

section \<open>Handing out and taking back\<close>

lemma get4k_lowest:
  assumes "memman_inv s"
  shows "\<exists>a s'. get4k s = Some (a, s') \<and> memman_inv s' \<and> maxPid s' = maxPid s \<and>
    (if free_pids s = {} then a = 0 \<and> (\<forall>q. getSts q s' = getSts q s)
     else \<exists>p \<in> free_pids s. a = page_addr p \<and> a \<noteq> 0 \<and> (\<forall>q \<in> free_pids s. p \<le> q) \<and>
       (\<forall>q. getSts q s' = (if q = p then USED else getSts q s)))"
proof (cases "free_pids s = {}")
  case True
  then have "totalMem s = 0" using assms by (simp add: memman_inv_def)
  then show ?thesis using True assms by (auto simp: get4k_def)
next
  case False
  then have card: "card (free_pids s) \<noteq> 0" by simp
  then have t: "totalMem s \<noteq> 0"
    using assms word_card_0 [OF card_free_pids [OF assms]] by (simp add: memman_inv_def)
  obtain p s1 where sc: "scan_free (minPid s) s = (p, s1)" by fastforce
  note spec = scan_free_spec [OF sc]
  have g: "getSts q s1 = getSts q s" for q using spec by (simp add: getSts_def)
  have fp: "free_pids s1 = free_pids s" using spec g by (simp add: free_pids_def)
  have low: "p \<le> q" if "q \<in> free_pids s" for q
  proof (rule ccontr)
    assume "\<not> p \<le> q"
    moreover have "minPid s \<le> q" using that assms by (simp add: memman_inv_def)
    moreover have "getSts q s = FREE" using that by (simp add: free_pids_def)
    ultimately show False using spec by simp
  qed
  obtain q where "q \<in> free_pids s" using False by blast
  then have pm: "p < maxPid s" using low [of q] by (auto simp: free_pids_def)
  then have pf: "p \<in> free_pids s" using spec by (simp add: free_pids_def)
  have pM: "p < MAX_PID" using pm assms by (simp add: memman_inv_def)
  let ?s = "setSts p USED (s1\<lparr>totalMem := totalMem s1 - 4\<rparr>)"
  have r: "get4k s = Some (page_addr p, ?s)"
    using t sc pm spec g pf by (simp add: get4k_def page_addr_def free_pids_def)
  have st: "getSts q ?s = (if q = p then USED else getSts q s)" for q by (simp add: getSts_setSts g)
  have free: "free_pids ?s = free_pids s - {p}" using pm spec fp by (simp add: free_pids_setSts)
  have "4 * card (free_pids s) = 4 * card (free_pids ?s) + 4"
    using card_Suc_Diff1 [OF finite_free_pids pf] unfolding free by linarith
  then have "totalMem s = word_of_nat (4 * card (free_pids ?s) + 4)"
    using assms unfolding memman_inv_def by metis
  moreover have "totalMem ?s = totalMem s - 4" using spec by simp
  ultimately have tm: "totalMem ?s = word_of_nat (4 * card (free_pids ?s))"
    by (simp only: of_nat_add) simp
  have "memman_inv ?s"
    using assms tm free spec st low pm by (auto simp: memman_inv_def intro: order_trans)
  then show ?thesis using False r pf low st spec page_addr_phys(3) [OF pM]
    by (intro exI [of _ "page_addr p"] exI [of _ ?s]) auto
qed

lemma free4k_used:
  assumes "memman_inv s" and "p < MAX_PID"
  shows "(getSts p s = USED \<longrightarrow> (\<exists>s'. free4k (page_addr p) s = Some s' \<and> memman_inv s' \<and> maxPid s' = maxPid s \<and>
      (\<forall>q. getSts q s' = (if q = p then FREE else getSts q s)))) \<and>
    (getSts p s \<noteq> USED \<longrightarrow> free4k (page_addr p) s = None) \<and>
    (a < HHDM_BEGIN \<longrightarrow> free4k a s = None)"
proof -
  note addr = page_addr_phys [OF assms(2)] page_addr_pid [OF assms(2)]
  have "\<exists>s'. free4k (page_addr p) s = Some s' \<and> memman_inv s' \<and> maxPid s' = maxPid s \<and> (\<forall>q. getSts q s' = (if q = p then FREE else getSts q s))"
    if u: "getSts p s = USED"
  proof -
    have pm: "p < maxPid s" using assms(1) u unfolding memman_inv_def by (metis page_status.distinct(3))
    let ?s1 = "(setSts p FREE s)\<lparr>totalMem := totalMem s + 4\<rparr>"
    let ?s = "if minPid ?s1 > p then ?s1\<lparr>minPid := p\<rparr> else ?s1"
    have r: "free4k (page_addr p) s = Some ?s" using addr u by (simp add: free4k_def Let_def)
    have st: "getSts q ?s = (if q = p then FREE else getSts q s)" for q by (simp add: getSts_setSts)
    have nf: "p \<notin> free_pids s" using u by (simp add: free_pids_def)
    have free: "free_pids ?s = insert p (free_pids s)" using free_pids_setSts [OF pm, of FREE] by simp
    have "card (insert p (free_pids s)) = Suc (card (free_pids s))" using nf by simp
    then have tm: "totalMem ?s = word_of_nat (4 * card (free_pids ?s))"
      unfolding free using assms(1) by (simp add: memman_inv_def)
    have "memman_inv ?s"
      using assms(1) tm free st pm unfolding memman_inv_def by (auto intro: order_trans [OF less_imp_le])
    then show ?thesis using r st by (intro exI [of _ ?s]) simp
  qed
  then show ?thesis using addr by (auto simp: free4k_def Let_def)
qed

section \<open>The pool of frames\<close>

text \<open>
  What the page tables and the kernel heap rely on: an allocator of page-aligned
  addresses in the direct map.  \<open>avail\<close> are the addresses that can be handed out,
  \<open>taken\<close> those that have been and can be given back.
\<close>

locale frame_pool =
  fixes get :: "'s \<Rightarrow> (64 word \<times> 's) option" and free :: "64 word \<Rightarrow> 's \<Rightarrow> 's option"
    and ok :: "'s \<Rightarrow> bool" and avail :: "'s \<Rightarrow> 64 word set" and taken :: "'s \<Rightarrow> 64 word set"
  assumes get_frame: "ok s \<Longrightarrow> avail s \<noteq> {} \<Longrightarrow>
      \<exists>a s'. get s = Some (a, s') \<and> ok s' \<and> a \<in> avail s \<and> avail s' = avail s - {a} \<and> taken s' = insert a (taken s)"
    and get_null: "ok s \<Longrightarrow> avail s = {} \<Longrightarrow> \<exists>s'. get s = Some (0, s') \<and> ok s' \<and> avail s' = {} \<and> taken s' = taken s"
    and free_frame: "ok s \<Longrightarrow> a \<in> taken s \<Longrightarrow>
      \<exists>s'. free a s = Some s' \<and> ok s' \<and> avail s' = insert a (avail s) \<and> taken s' = taken s - {a}"
    and frame_address: "ok s \<Longrightarrow> a \<in> avail s \<union> taken s \<Longrightarrow> a AND 0xFFF = 0 \<and> HHDM_P2V (HHDM_V2P a) = a \<and> a \<noteq> 0"
    and finite_avail: "ok s \<Longrightarrow> finite (avail s)"
    and avail_taken: "ok s \<Longrightarrow> avail s \<inter> taken s = {}"
begin

lemma get_cases:
  assumes "ok s"
  obtains (null) s' where "get s = Some (0, s')" "ok s'" "avail s = {}" "avail s' = {}" "taken s' = taken s"
  | (frame) a s' where "get s = Some (a, s')" "ok s'" "a \<in> avail s" "a \<notin> taken s" "a \<noteq> 0"
      "avail s' = avail s - {a}" "taken s' = insert a (taken s)" "Suc (card (avail s')) = card (avail s)"
proof (cases "avail s = {}")
  case True
  then show ?thesis using get_null [OF assms] null by blast
next
  case False
  then obtain a s' where a: "get s = Some (a, s')" "ok s'" "a \<in> avail s" "avail s' = avail s - {a}" "taken s' = insert a (taken s)"
    using get_frame [OF assms] by blast
  have "Suc (card (avail s')) = card (avail s)" using a card_Suc_Diff1 [OF finite_avail [OF assms] a(3)] by simp
  then show ?thesis using a frame avail_taken [OF assms] frame_address [OF assms, of a] by blast
qed

text \<open>A list of different frames can be given back one after the other.\<close>

lemma free_all:
  assumes "ok s" "distinct as" "set as \<subseteq> taken s"
  obtains s' where "fold (\<lambda>a s. Option.bind s (free a)) as (Some s) = Some s'" "ok s'"
    "avail s' = avail s \<union> set as" "taken s' = taken s - set as"
  using assms
proof (induction as arbitrary: s thesis)
  case Nil
  then show ?case by simp
next
  case (Cons a as)
  obtain s1 where s1: "free a s = Some s1" "ok s1" "avail s1 = insert a (avail s)" "taken s1 = taken s - {a}"
    using free_frame [of s a] Cons.prems by auto
  moreover have "set as \<subseteq> taken s1" using Cons.prems s1 by auto
  ultimately obtain s' where "fold (\<lambda>a s. Option.bind s (free a)) as (Some s1) = Some s'" "ok s'"
    "avail s' = avail s1 \<union> set as" "taken s' = taken s1 - set as"
    using Cons.IH Cons.prems by (metis distinct.simps(2))
  then show ?case using Cons.prems(1) [of s'] s1 by auto
qed

end

definition avail_frames :: "memman \<Rightarrow> 64 word set" where
  "avail_frames s = page_addr ` free_pids s"

definition taken_frames :: "memman \<Rightarrow> 64 word set" where
  "taken_frames s = page_addr ` {p. getSts p s = USED}"

lemma page_addr_inj: "p < MAX_PID \<Longrightarrow> q < MAX_PID \<Longrightarrow> page_addr p = page_addr q \<longleftrightarrow> p = q"
  by (metis page_addr_pid(1))

lemma used_bound: "memman_inv s \<Longrightarrow> getSts p s = USED \<Longrightarrow> p < maxPid s \<and> p < MAX_PID"
  unfolding memman_inv_def by (metis order_less_le_trans page_status.distinct(3))

lemma free_bound: "memman_inv s \<Longrightarrow> p \<in> free_pids s \<Longrightarrow> p < MAX_PID"
  by (auto simp: memman_inv_def free_pids_def)

lemma page_addr_form:
  assumes "p < MAX_PID"
  shows "page_addr p AND 0xFFF = 0 \<and> HHDM_P2V (HHDM_V2P (page_addr p)) = page_addr p"
proof -
  have "page_addr p AND 0xFFF = 0"
  proof (rule bit_word_eqI)
    fix n :: nat assume "n < LENGTH(64)"
    have "(0xFFF :: 64 word) = mask 12" by (simp add: mask_eq_exp_minus_1)
    then show "bit (page_addr p AND 0xFFF) n \<longleftrightarrow> bit (0 :: 64 word) n"
      unfolding page_addr_def HHDM_P2V_def HHDM_mask by (simp only: bit_simps) auto
  qed
  then show ?thesis by (simp add: page_addr_phys(1) [OF assms]) (simp add: page_addr_def)
qed

interpretation mm: frame_pool get4k free4k memman_inv avail_frames taken_frames
proof
  fix s assume ok: "memman_inv s"
  show "\<exists>a s'. get4k s = Some (a, s') \<and> memman_inv s' \<and> a \<in> avail_frames s \<and>
      avail_frames s' = avail_frames s - {a} \<and> taken_frames s' = insert a (taken_frames s)"
    if ne: "avail_frames s \<noteq> {}"
  proof -
    have "free_pids s \<noteq> {}" using ne by (auto simp: avail_frames_def)
    then obtain p s' where p: "get4k s = Some (page_addr p, s')" "memman_inv s'" "maxPid s' = maxPid s" "p \<in> free_pids s"
        "\<And>q. getSts q s' = (if q = p then USED else getSts q s)"
      using get4k_lowest [OF ok] by auto
    have f: "free_pids s' = free_pids s - {p}" using p(3,5) by (auto simp: free_pids_def split: if_splits)
    have "avail_frames s' = avail_frames s - {page_addr p}"
      unfolding avail_frames_def f using free_bound [OF ok] page_addr_inj p(4) by fastforce
    moreover have "{q. getSts q s' = USED} = insert p {q. getSts q s = USED}" using p(5) by auto
    then have "taken_frames s' = insert (page_addr p) (taken_frames s)" by (simp add: taken_frames_def)
    ultimately show ?thesis using p(1,2,4) by (auto simp: avail_frames_def)
  qed
  show "\<exists>s'. get4k s = Some (0, s') \<and> memman_inv s' \<and> avail_frames s' = {} \<and> taken_frames s' = taken_frames s"
    if "avail_frames s = {}"
  proof -
    have e: "free_pids s = {}" using that by (auto simp: avail_frames_def)
    then obtain s' where "get4k s = Some (0, s')" "memman_inv s'" "maxPid s' = maxPid s" "\<And>q. getSts q s' = getSts q s"
      using get4k_lowest [OF ok] by auto
    then show ?thesis using e by (intro exI [of _ s']) (simp add: avail_frames_def taken_frames_def free_pids_def)
  qed
  show "\<exists>s'. free4k a s = Some s' \<and> memman_inv s' \<and> avail_frames s' = insert a (avail_frames s) \<and>
      taken_frames s' = taken_frames s - {a}" if t: "a \<in> taken_frames s" for a
  proof -
    obtain p where p: "a = page_addr p" "getSts p s = USED" using t by (auto simp: taken_frames_def)
    note b = used_bound [OF ok p(2)]
    obtain s' where s': "free4k (page_addr p) s = Some s'" "memman_inv s'" "maxPid s' = maxPid s"
        "\<And>q. getSts q s' = (if q = p then FREE else getSts q s)"
      using free4k_used [OF ok, of p] b p(2) by blast
    have f: "free_pids s' = insert p (free_pids s)" using s'(3,4) b by (auto simp: free_pids_def split: if_splits)
    have "{q. getSts q s' = USED} = {q. getSts q s = USED} - {p}" using s'(4) by auto
    then have "taken_frames s' = taken_frames s - {page_addr p}"
      unfolding taken_frames_def using used_bound [OF ok] page_addr_inj b by fastforce
    then show ?thesis using s' f p by (simp add: avail_frames_def)
  qed
  show "a AND 0xFFF = 0 \<and> HHDM_P2V (HHDM_V2P a) = a \<and> a \<noteq> 0" if t: "a \<in> avail_frames s \<union> taken_frames s" for a
  proof -
    obtain p where "a = page_addr p" "p < MAX_PID"
      using t free_bound [OF ok] used_bound [OF ok] by (auto simp: avail_frames_def taken_frames_def)
    then show ?thesis using page_addr_form page_addr_phys(3) by simp
  qed
  show "finite (avail_frames s)" by (simp add: avail_frames_def)
  show "avail_frames s \<inter> taken_frames s = {}"
  proof -
    have "page_addr p \<noteq> page_addr q" if "p \<in> free_pids s" "getSts q s = USED" for p q
      using that page_addr_inj [of p q] free_bound [OF ok] used_bound [OF ok] by (auto simp: free_pids_def)
    then show ?thesis by (auto simp: avail_frames_def taken_frames_def)
  qed
qed

section \<open>Properties\<close>

text \<open>
  C11: on a consistent allocator \<open>get4k\<close> returns the address of a free frame
  exactly when there is one, and NULL otherwise; no assertion fails.  The frame is the
  lowest free one; only its status changes, to used; the allocator stays
  consistent, so a frame is never handed out twice.
\<close>

theorem get4k_correct:
  assumes "memman_inv s"
  shows "\<exists>a s'. get4k s = Some (a, s') \<and> memman_inv s' \<and> maxPid s' = maxPid s \<and>
    (if free_pids s = {} then a = 0 \<and> (\<forall>q. getSts q s' = getSts q s)
     else \<exists>p \<in> free_pids s. a = page_addr p \<and> a \<noteq> 0 \<and> (\<forall>q \<in> free_pids s. p \<le> q) \<and>
       (\<forall>q. getSts q s' = (if q = p then USED else getSts q s)))"
  using get4k_lowest [OF assms] .

definition mem_ex :: memman where
  "mem_ex = setSts 5 FREE (setSts 4 USED \<lparr>used_bitmap = (\<lambda>i. \<lparr>fp_first = RESERVED, fp_second = RESERVED,
     fp_third = RESERVED, fp_fourth = RESERVED\<rparr>), maxPid = 8, minPid = 4, totalMem = 4\<rparr>)"

lemma mem_ex_free: "free_pids mem_ex = {5}" and mem_ex_sts: "getSts q mem_ex = (if q = 5 then FREE else if q = 4 then USED else RESERVED)"
proof -
  show *: "getSts q mem_ex = (if q = 5 then FREE else if q = 4 then USED else RESERVED)" for q
    unfolding mem_ex_def getSts_setSts by (simp add: getSts_def Let_def)
  show "free_pids mem_ex = {5}" by (auto simp: free_pids_def *) (auto simp: mem_ex_def)
qed

lemma mem_ex_inv: "memman_inv mem_ex"
  unfolding memman_inv_def mem_ex_free by (auto simp: mem_ex_sts) (auto simp: mem_ex_def MAX_PID_def)

theorem get4k_correct_witness:
  "\<exists>s'. get4k mem_ex = Some (page_addr 5, s') \<and> getSts 5 s' = USED"
  using get4k_correct [OF mem_ex_inv] unfolding mem_ex_free by auto

text \<open>
  C26: \<open>free4k\<close> of the address of a used frame marks exactly that frame free
  and keeps the allocator consistent; of the address of a frame that is not in
  use, and of an address outside the direct map, it fails its assertion.
\<close>

theorem free4k_correct:
  assumes "memman_inv s" and "p < MAX_PID"
  shows "(getSts p s = USED \<longrightarrow> (\<exists>s'. free4k (page_addr p) s = Some s' \<and> memman_inv s' \<and>
      (\<forall>q. getSts q s' = (if q = p then FREE else getSts q s)))) \<and>
    (getSts p s \<noteq> USED \<longrightarrow> free4k (page_addr p) s = None) \<and>
    (a < HHDM_BEGIN \<longrightarrow> free4k a s = None)"
  using free4k_used [OF assms, of a] by blast

theorem free4k_correct_witness:
  "\<exists>s'. free4k (page_addr 4) mem_ex = Some s' \<and> getSts 4 s' = FREE"
  using free4k_correct [OF mem_ex_inv, of 4 0] by (auto simp: mem_ex_sts MAX_PID_def)

text \<open>
  memory above the 32 GiB limit is miscounted: a memory-map entry that
  lies wholly above it subtracts from \<open>totalMem\<close>, because \<open>pidend\<close> is clipped below
  \<open>pid\<close> before their difference is added.
\<close>

theorem parse_entry_above_limit:
  "get_free (parse_entry 0 \<lparr>me_base = 0x900000000, me_length = 0x1000, me_type = 0\<rparr> (s\<lparr>totalMem := 0\<rparr>)) = - 0x400014"
  by (simp add: parse_entry_def get_free_def Let_def roundup4k_def rounddown4k_def MAX_PID_def)

end
