(* ===== verification/Kernel_Paging.thy ===== *)
theory Kernel_Paging
  imports Kernel_Memman
begin

text \<open>
  The page tables (\<open>arch/x86/paging.cpp\<close>): \<open>AddressSpace\<close> with its constructor and
  destructor, the translation of a virtual page, mapping and unmapping a page.

  Memory is seen through the direct map, as 64-bit cells at their addresses; the
  frames of the tables come from the allocator of \<open>Kernel_Memman\<close>.  Each operation
  holds its lock from beginning to end.  The flush of a TLB entry has no effect
  on the tables.  A failed assertion and a null frame are \<open>None\<close>.
\<close>

unbundle bit_operations_syntax

section \<open>Address spaces\<close>

definition PAGE_PRESENT :: "64 word" where "PAGE_PRESENT = 1"
definition PAGE_RW :: "64 word" where "PAGE_RW = 2"
definition PAGE_USER :: "64 word" where "PAGE_USER = 4"
definition PAGE_PS :: "64 word" where "PAGE_PS = 0x80"
definition ADDR_MASK :: "64 word" where "ADDR_MASK = 0x000FFFFFFFFFF000"

text \<open>\<open>taken_pages\<close> is \<open>None\<close> for the address space of the kernel.\<close>

record aspace =
  PML4 :: "64 word"
  taken_pages :: "64 word list option"
  pmem :: "64 word \<Rightarrow> 64 word"
  frames :: memman
  kernel_virt_base :: "64 word"

fun fill_loop :: "nat \<Rightarrow> 64 word \<Rightarrow> 64 word \<Rightarrow> (64 word \<Rightarrow> 64 word) \<Rightarrow> 64 word \<Rightarrow> 64 word" where
  "fill_loop 0 v res m = m"
| "fill_loop (Suc j) v res m = (fill_loop j v res m)(res + 8 * word_of_nat j := v)"

definition get_free_frame :: "aspace \<Rightarrow> (64 word \<times> aspace) option" where
  "get_free_frame s = do {
     (res, m) \<leftarrow> get4k (frames s);
     let s = s\<lparr>frames := m, taken_pages := map_option (\<lambda>ps. ps @ [res]) (taken_pages s)\<rparr>;
     if res = 0 then None else Some (res, s\<lparr>pmem := fill_loop 512 0 res (pmem s)\<rparr>) }"

definition aspace_new :: "64 word \<Rightarrow> (64 word \<Rightarrow> 64 word) \<Rightarrow> memman \<Rightarrow> aspace option" where
  "aspace_new kvb mem m = do {
     (p, m) \<leftarrow> get4k m;
     if p = 0 then None
     else Some \<lparr>PML4 = p, taken_pages = Some [p], pmem = fill_loop 512 0 p mem, frames = m, kernel_virt_base = kvb\<rparr> }"

definition aspace_free :: "aspace \<Rightarrow> memman option" where
  "aspace_free s =
     (case taken_pages s of None \<Rightarrow> Some (frames s)
      | Some ps \<Rightarrow> fold (\<lambda>p m. Option.bind m (free4k p)) ps (Some (frames s)))"

section \<open>Translation\<close>

definition pml4i :: "64 word \<Rightarrow> 64 word" where "pml4i virt = drop_bit 39 virt AND 0x01FF"
definition pdpei :: "64 word \<Rightarrow> 64 word" where "pdpei virt = drop_bit 30 virt AND 0x01FF"
definition pdei :: "64 word \<Rightarrow> 64 word" where "pdei virt = drop_bit 21 virt AND 0x01FF"
definition ptsi :: "64 word \<Rightarrow> 64 word" where "ptsi virt = drop_bit 12 virt AND 0x01FF"

text \<open>The cell of entry \<open>i\<close> of the table at \<open>t\<close>, and the table that the entry \<open>e\<close> refers to.\<close>

definition slot :: "64 word \<Rightarrow> 64 word \<Rightarrow> 64 word" where "slot t i = t + 8 * i"

definition table_of :: "64 word \<Rightarrow> 64 word" where "table_of e = HHDM_P2V (e AND ADDR_MASK)"

definition in_hhdm :: "aspace \<Rightarrow> bool" where
  "in_hhdm s \<longleftrightarrow> PML4 s \<ge> HHDM_BEGIN \<and> PML4 s < kernel_virt_base s"

text \<open>The result 0 says that the page is not mapped.\<close>

definition virt2real :: "64 word \<Rightarrow> aspace \<Rightarrow> 64 word option" where
  "virt2real virt s =
     (if virt AND 0xFFF \<noteq> 0 \<or> \<not> in_hhdm s then None
      else
        let pml4e = slot (PML4 s) (pml4i virt) in
        if pmem s pml4e AND PAGE_PRESENT = 0 then Some 0 else
        let pdpee = slot (table_of (pmem s pml4e)) (pdpei virt) in
        if pmem s pdpee AND PAGE_PRESENT = 0 then Some 0 else
        if pmem s pdpee AND PAGE_PS \<noteq> 0 then Some ((pmem s pdpee AND ADDR_MASK) OR (virt AND 0x3FFFF000)) else
        let pdee = slot (table_of (pmem s pdpee)) (pdei virt) in
        if pmem s pdee AND PAGE_PRESENT = 0 then Some 0 else
        if pmem s pdee AND PAGE_PS \<noteq> 0 then Some ((pmem s pdee AND ADDR_MASK) OR (virt AND 0x1FF000)) else
        let ptse = slot (table_of (pmem s pdee)) (ptsi virt) in
        if pmem s ptse AND PAGE_PRESENT = 0 then Some 0 else Some (pmem s ptse AND ADDR_MASK))"

section \<open>Mapping and unmapping\<close>

text \<open>The step that \<open>map\<close> takes on each of the three levels: a missing table is created.\<close>

definition ensure_table :: "64 word \<Rightarrow> aspace \<Rightarrow> aspace option" where
  "ensure_table pe s =
     (if pmem s pe AND PAGE_PRESENT = 0 then do {
        (newp, s) \<leftarrow> get_free_frame s;
        let s = s\<lparr>pmem := (pmem s)(pe := pmem s pe OR (PAGE_PRESENT OR PAGE_RW OR PAGE_USER))\<rparr>;
        Some (s\<lparr>pmem := (pmem s)(pe := pmem s pe OR (HHDM_V2P newp AND ADDR_MASK))\<rparr>) }
      else Some s)"

definition map_page :: "64 word \<Rightarrow> 64 word \<Rightarrow> 32 word \<Rightarrow> aspace \<Rightarrow> aspace option" where
  "map_page virt real flags s =
     (if virt AND 0xFFF \<noteq> 0 \<or> real AND 0xFFF \<noteq> 0 \<or> \<not> in_hhdm s then None
      else do {
        let pml4e = slot (PML4 s) (pml4i virt);
        s \<leftarrow> ensure_table pml4e s;
        let pdpee = slot (table_of (pmem s pml4e)) (pdpei virt);
        s \<leftarrow> (if pmem s pdpee AND PAGE_PS \<noteq> 0 then None else ensure_table pdpee s);
        let pdee = slot (table_of (pmem s pdpee)) (pdei virt);
        s \<leftarrow> (if pmem s pdee AND PAGE_PS \<noteq> 0 then None else ensure_table pdee s);
        let ptse = slot (table_of (pmem s pdee)) (ptsi virt);
        Some (s\<lparr>pmem := (pmem s)(ptse := (real AND ADDR_MASK) OR ucast (flags AND 0xFFF) OR PAGE_PRESENT)\<rparr>) })"

definition unmap_page :: "64 word \<Rightarrow> aspace \<Rightarrow> aspace option" where
  "unmap_page virt s =
     (if virt AND 0xFFF \<noteq> 0 \<or> \<not> in_hhdm s then None
      else
        let pml4e = slot (PML4 s) (pml4i virt) in
        if pmem s pml4e AND PAGE_PRESENT = 0 then None else
        let pdpee = slot (table_of (pmem s pml4e)) (pdpei virt) in
        if pmem s pdpee AND PAGE_PS \<noteq> 0 \<or> pmem s pdpee AND PAGE_PRESENT = 0 then None else
        let pdee = slot (table_of (pmem s pdpee)) (pdei virt) in
        if pmem s pdee AND PAGE_PS \<noteq> 0 \<or> pmem s pdee AND PAGE_PRESENT = 0 then None else
        let ptse = slot (table_of (pmem s pdee)) (ptsi virt) in
        if pmem s ptse AND PAGE_PRESENT = 0 then None
        else Some (s\<lparr>pmem := (pmem s)(ptse := pmem s ptse AND NOT PAGE_PRESENT)\<rparr>))"

section \<open>Bits of entries\<close>

lemma mask_bits:
  "bit PAGE_PRESENT n \<longleftrightarrow> n = 0" "bit PAGE_PS n \<longleftrightarrow> n = 7" "bit ADDR_MASK n \<longleftrightarrow> 12 \<le> n \<and> n < 52"
  "bit (PAGE_PRESENT OR PAGE_RW OR PAGE_USER) n \<longleftrightarrow> n < 3"
proof -
  have e: "PAGE_PRESENT = push_bit 0 1" "PAGE_PS = push_bit 7 1" "ADDR_MASK = push_bit 12 (mask 40)"
    "PAGE_PRESENT OR PAGE_RW OR PAGE_USER = mask 3"
    by (simp_all add: PAGE_PRESENT_def PAGE_PS_def PAGE_RW_def PAGE_USER_def ADDR_MASK_def mask_eq_exp_minus_1)
  show "bit PAGE_PRESENT n \<longleftrightarrow> n = 0" unfolding e(1) by (auto simp: bit_simps)
  show "bit PAGE_PS n \<longleftrightarrow> n = 7" unfolding e(2) bit_push_bit_iff bit_1_iff by auto
  show "bit ADDR_MASK n \<longleftrightarrow> 12 \<le> n \<and> n < 52" unfolding e(3) bit_push_bit_iff bit_mask_iff by auto
  show "bit (PAGE_PRESENT OR PAGE_RW OR PAGE_USER) n \<longleftrightarrow> n < 3" unfolding e(4) bit_mask_iff by auto
qed

lemma and_zero: "a AND b = 0 \<longleftrightarrow> (\<forall>n < 64. bit a n \<longrightarrow> \<not> bit b n)" for a b :: "64 word"
proof
  assume "a AND b = 0"
  then show "\<forall>n < 64. bit a n \<longrightarrow> \<not> bit b n" by (metis bit_0_eq bit_and_iff bot_apply bot_bool_def)
qed (auto intro!: bit_word_eqI simp: bit_and_iff)

lemma present_bit: "e AND PAGE_PRESENT = 0 \<longleftrightarrow> \<not> bit e 0"
  unfolding and_zero mask_bits by (metis zero_less_numeral)

lemma ps_bit: "e AND PAGE_PS = 0 \<longleftrightarrow> \<not> bit e 7"
proof -
  have "(7 :: nat) < 64" by simp
  then show ?thesis unfolding and_zero mask_bits by metis
qed

lemma low_bits: "a AND 0xFFF = 0 \<longleftrightarrow> (\<forall>n < 12. \<not> bit a n)" for a :: "64 word"
proof -
  have e: "(0xFFF :: 64 word) = mask 12" by (simp add: mask_eq_exp_minus_1)
  have "bit (mask 12 :: 64 word) n \<longleftrightarrow> n < 12" for n by (auto simp: bit_simps)
  moreover have "bit a n \<Longrightarrow> n < 64" for n using bit_imp_le_length [of a n] by simp
  ultimately show ?thesis unfolding and_zero e by blast
qed

lemma table_aligned: "table_of e AND 0xFFF = 0"
  by (auto simp: low_bits table_of_def HHDM_P2V_def HHDM_mask bit_or_iff bit_and_iff mask_bits bit_not_iff bit_mask_iff)

lemma new_entry:
  assumes e: "e AND ADDR_MASK = 0" "e AND PAGE_PS = 0" and n: "n AND 0xFFF = 0" "HHDM_P2V (HHDM_V2P n) = n"
  defines "e' \<equiv> (e OR (PAGE_PRESENT OR PAGE_RW OR PAGE_USER)) OR (HHDM_V2P n AND ADDR_MASK)"
  shows "e' AND PAGE_PRESENT \<noteq> 0" "e' AND PAGE_PS = 0" "table_of e' = n"
proof -
  have nb: "\<not> bit n k" if "k < 12" for k using n(1) that by (simp add: low_bits)
  show "e' AND PAGE_PRESENT \<noteq> 0" unfolding present_bit e'_def bit_or_iff mask_bits(1) by simp
  show "e' AND PAGE_PS = 0" using e(2) nb [of 7] unfolding ps_bit e'_def bit_or_iff [of "_ OR (PAGE_PRESENT OR PAGE_RW OR PAGE_USER)"]
    bit_or_iff [of e] bit_and_iff mask_bits HHDM_V2P_def by simp
  have "e' AND ADDR_MASK = HHDM_V2P n"
  proof (rule bit_word_eqI)
    fix k assume "k < LENGTH(64)"
    have "\<not> (bit e k \<and> 12 \<le> k \<and> k < 52)" using arg_cong [OF e(1), of "\<lambda>w. bit w k"] by (simp add: bit_and_iff mask_bits)
    then show "bit (e' AND ADDR_MASK) k \<longleftrightarrow> bit (HHDM_V2P n) k"
      using nb [of k] linorder_not_less [of k 12] unfolding e'_def bit_and_iff [of _ ADDR_MASK] bit_or_iff [of "_ OR (PAGE_PRESENT OR PAGE_RW OR PAGE_USER)"]
        bit_or_iff [of e] mask_bits HHDM_V2P_def HHDM_mask
      by (auto simp: bit_and_iff bit_not_iff bit_mask_iff)
  qed
  then show "table_of e' = n" using n(2) by (simp add: table_of_def)
qed

section \<open>Cells\<close>

lemma aligned_unat:
  fixes t :: "64 word"
  assumes "t AND 0xFFF = 0"
  shows "4096 dvd unat t"
proof -
  have e: "(0xFFF :: 64 word) = mask 12" by (simp add: mask_eq_exp_minus_1)
  have "take_bit 12 t = 0" using assms unfolding e take_bit_eq_mask by simp
  then have "take_bit 12 (unat t) = 0" by (metis unsigned_0 unsigned_take_bit_eq)
  then show ?thesis by (simp add: take_bit_eq_mod dvd_eq_mod_eq_0)
qed

lemma unat_slot:
  assumes "t AND 0xFFF = 0" "i < 512"
  shows "unat (slot t i) = unat t + 8 * unat i"
proof -
  obtain k where k: "unat t = 4096 * k" using aligned_unat [OF assms(1)] by (auto elim: dvdE)
  have "unat t < 2 ^ 64" by (rule order_less_le_trans [OF unsigned_less]) simp
  then have "4096 * k + 4096 \<le> 2 ^ 64" using k by simp
  moreover have "unat i < 512" using assms(2) by (simp add: word_less_nat_alt)
  ultimately show ?thesis using k by (simp add: slot_def unat_word_ariths)
qed

lemma slot_eq:
  assumes "t AND 0xFFF = 0" "i < 512" "t' AND 0xFFF = 0" "j < 512"
  shows "slot t i = slot t' j \<longleftrightarrow> t = t' \<and> i = j"
proof
  assume "slot t i = slot t' j"
  then have e: "unat t + 8 * unat i = unat t' + 8 * unat j" using unat_slot [OF assms(1,2)] unat_slot [OF assms(3,4)] by simp
  obtain k k' where k: "unat t = 4096 * k" "unat t' = 4096 * k'"
    using aligned_unat [OF assms(1)] aligned_unat [OF assms(3)] by (auto elim!: dvdE)
  have b: "unat i < 512" "unat j < 512" using assms(2,4) by (simp_all add: word_less_nat_alt)
  have "k = (4096 * k + 8 * unat i) div 4096" "k' = (4096 * k' + 8 * unat j) div 4096" using b by simp_all
  then have "k = k'" using e k by simp
  then show "t = t' \<and> i = j" using e k by (simp add: word_unat_eq_iff)
qed simp

lemma fill_loop_eq: "fill_loop n v res m x = (if \<exists>j < n. x = res + 8 * word_of_nat j then v else m x)"
  by (induction n) (auto simp: less_Suc_eq)

lemma fill_frame: "fill_loop 512 v res m x = (if \<exists>i < 512. x = slot res i then v else m x)"
proof -
  have "(\<exists>j < 512. x = res + 8 * word_of_nat j) \<longleftrightarrow> (\<exists>i < 512. x = slot res i)"
  proof safe
    fix j :: nat assume "j < 512"
    then have "(word_of_nat j :: 64 word) < 512" by (simp add: word_less_nat_alt unat_of_nat take_bit_nat_eq_self)
    then show "\<exists>i < 512. res + 8 * word_of_nat j = slot res i" by (auto simp: slot_def)
  next
    fix i :: "64 word" assume "i < 512"
    then show "\<exists>j < 512. slot res i = res + 8 * word_of_nat j"
      by (intro exI [of _ "unat i"]) (simp add: slot_def word_less_nat_alt)
  qed
  then show ?thesis by (simp add: fill_loop_eq)
qed

section \<open>Walking the tables\<close>

text \<open>The table reached by the indices of a path, and the translation as a recursion over the indices.\<close>

definition pte :: "aspace \<Rightarrow> 64 word \<Rightarrow> 64 word \<Rightarrow> 64 word" where
  "pte s t i = pmem s (slot t i)"

fun walk :: "aspace \<Rightarrow> 64 word \<Rightarrow> 64 word list \<Rightarrow> 64 word option" where
  "walk s t [] = Some t"
| "walk s t (i # p) =
     (if pte s t i AND PAGE_PRESENT \<noteq> 0 \<and> pte s t i AND PAGE_PS = 0 then walk s (table_of (pte s t i)) p else None)"

definition path_ok :: "nat \<Rightarrow> 64 word list \<Rightarrow> bool" where
  "path_ok n p \<longleftrightarrow> length p \<le> n \<and> (\<forall>i \<in> set p. i < 512)"

datatype mapping = Absent | Large "64 word" nat | Small "64 word"

fun resolve :: "aspace \<Rightarrow> 64 word \<Rightarrow> 64 word list \<Rightarrow> mapping" where
  "resolve s t [] = Absent"
| "resolve s t (i # p) =
     (if pte s t i AND PAGE_PRESENT = 0 then Absent
      else if p = [] then Small (pte s t i)
      else if length p < 3 \<and> pte s t i AND PAGE_PS \<noteq> 0 then Large (pte s t i) (length p)
      else resolve s (table_of (pte s t i)) p)"

definition indices :: "64 word \<Rightarrow> 64 word list" where
  "indices v = [pml4i v, pdpei v, pdei v, ptsi v]"

definition translation :: "aspace \<Rightarrow> 64 word \<Rightarrow> mapping" where
  "translation s v = resolve s (PML4 s) (indices v)"

fun physical :: "64 word \<Rightarrow> mapping \<Rightarrow> 64 word" where
  "physical v Absent = 0"
| "physical v (Large e n) = (e AND ADDR_MASK) OR (v AND (if n = 2 then 0x3FFFF000 else 0x1FF000))"
| "physical v (Small e) = e AND ADDR_MASK"

lemma virt2real_translation:
  "virt2real v s = (if v AND 0xFFF \<noteq> 0 \<or> \<not> in_hhdm s then None else Some (physical v (translation s v)))"
  by (simp add: virt2real_def translation_def indices_def pte_def Let_def)

lemma walk_append: "walk s t (p @ q) = (case walk s t p of None \<Rightarrow> None | Some u \<Rightarrow> walk s u q)"
  by (induction p arbitrary: t) auto

lemma index_bound: "v AND 0x01FF < (512 :: 64 word)"
proof -
  have e: "(0x01FF :: 64 word) = mask 9" by (simp add: mask_eq_exp_minus_1)
  have "unat (take_bit 9 v) < 2 ^ 9" unfolding unsigned_take_bit_eq by (rule take_bit_nat_less_exp)
  then show ?thesis unfolding e take_bit_eq_mask [symmetric] by (simp add: word_less_nat_alt)
qed

lemma indices_bound: "i \<in> set (indices v) \<Longrightarrow> i < 512"
  by (auto simp: indices_def pml4i_def pdpei_def pdei_def ptsi_def index_bound)

text \<open>
  The tables form a tree: two paths never meet, no table is a free frame, an entry
  that is not present holds no address; the list of taken pages can be given back.
\<close>

definition pt_ok :: "aspace \<Rightarrow> bool" where
  "pt_ok s \<longleftrightarrow> memman_inv (frames s) \<and> in_hhdm s \<and> PML4 s AND 0xFFF = 0 \<and>
     (\<forall>p t. path_ok 3 p \<longrightarrow> walk s (PML4 s) p = Some t \<longrightarrow> t \<notin> avail_frames (frames s)) \<and>
     (\<forall>p q t. path_ok 3 p \<longrightarrow> path_ok 3 q \<longrightarrow> walk s (PML4 s) p = Some t \<longrightarrow> walk s (PML4 s) q = Some t \<longrightarrow> p = q) \<and>
     (\<forall>p t i. path_ok 2 p \<longrightarrow> walk s (PML4 s) p = Some t \<longrightarrow> i < 512 \<longrightarrow> pte s t i AND PAGE_PRESENT = 0 \<longrightarrow>
        pte s t i AND ADDR_MASK = 0 \<and> pte s t i AND PAGE_PS = 0) \<and>
     (\<forall>i < 512. pte s (PML4 s) i AND PAGE_PS = 0) \<and>
     (\<forall>ps. taken_pages s = Some ps \<longrightarrow> distinct ps \<and> set ps \<subseteq> taken_frames (frames s))"

lemma pt_okI:
  assumes "memman_inv (frames s)" "in_hhdm s" "PML4 s AND 0xFFF = 0"
    "\<And>p t. path_ok 3 p \<Longrightarrow> walk s (PML4 s) p = Some t \<Longrightarrow> t \<notin> avail_frames (frames s)"
    "\<And>p q t. path_ok 3 p \<Longrightarrow> path_ok 3 q \<Longrightarrow> walk s (PML4 s) p = Some t \<Longrightarrow> walk s (PML4 s) q = Some t \<Longrightarrow> p = q"
    "\<And>p t i. path_ok 2 p \<Longrightarrow> walk s (PML4 s) p = Some t \<Longrightarrow> i < 512 \<Longrightarrow> pte s t i AND PAGE_PRESENT = 0 \<Longrightarrow>
      pte s t i AND ADDR_MASK = 0 \<and> pte s t i AND PAGE_PS = 0"
    "\<And>i. i < 512 \<Longrightarrow> pte s (PML4 s) i AND PAGE_PS = 0"
    "\<And>ps. taken_pages s = Some ps \<Longrightarrow> distinct ps \<and> set ps \<subseteq> taken_frames (frames s)"
  shows "pt_ok s"
  using assms unfolding pt_ok_def by blast

lemma pt_okD:
  assumes "pt_ok s"
  shows "memman_inv (frames s)" "in_hhdm s" "PML4 s AND 0xFFF = 0"
    "path_ok 3 p \<Longrightarrow> walk s (PML4 s) p = Some t \<Longrightarrow> t \<notin> avail_frames (frames s)"
    "path_ok 3 p \<Longrightarrow> path_ok 3 q \<Longrightarrow> walk s (PML4 s) p = Some t \<Longrightarrow> walk s (PML4 s) q = Some t \<Longrightarrow> p = q"
    "path_ok 2 p \<Longrightarrow> walk s (PML4 s) p = Some t \<Longrightarrow> i < 512 \<Longrightarrow> pte s t i AND PAGE_PRESENT = 0 \<Longrightarrow>
      pte s t i AND ADDR_MASK = 0 \<and> pte s t i AND PAGE_PS = 0"
    "i < 512 \<Longrightarrow> pte s (PML4 s) i AND PAGE_PS = 0"
    "taken_pages s = Some ps \<Longrightarrow> distinct ps \<and> set ps \<subseteq> taken_frames (frames s)"
  using assms unfolding pt_ok_def by blast+

lemma walk_aligned: "walk s t p = Some u \<Longrightarrow> t AND 0xFFF = 0 \<Longrightarrow> u AND 0xFFF = 0"
  by (induction p arbitrary: t) (auto simp: table_aligned split: if_splits)

lemmas table_align = walk_aligned [OF _ pt_okD(3)]

lemma path_ok_simps [simp]:
  "path_ok n []" "path_ok (Suc n) (p @ [i]) \<longleftrightarrow> path_ok n p \<and> i < 512"
  by (auto simp: path_ok_def)

lemma path_ok_mono: "path_ok m p \<Longrightarrow> m \<le> n \<Longrightarrow> path_ok n p"
  by (auto simp: path_ok_def)

section \<open>Adding a table\<close>

text \<open>
  \<open>s'\<close> is \<open>s\<close> with the empty table at \<open>n\<close> put in the entry \<open>i\<close> of the table at \<open>t\<close>,
  which was not present.
\<close>

definition added :: "aspace \<Rightarrow> aspace \<Rightarrow> 64 word list \<Rightarrow> 64 word \<Rightarrow> 64 word \<Rightarrow> 64 word \<Rightarrow> bool" where
  "added s s' p t i n \<longleftrightarrow>
     pt_ok s \<and> path_ok 2 p \<and> walk s (PML4 s) p = Some t \<and> i < 512 \<and> pte s t i AND PAGE_PRESENT = 0 \<and>
     n \<in> avail_frames (frames s) \<and> n AND 0xFFF = 0 \<and>
     PML4 s' = PML4 s \<and> kernel_virt_base s' = kernel_virt_base s \<and> memman_inv (frames s') \<and>
     avail_frames (frames s') = avail_frames (frames s) - {n} \<and> taken_frames (frames s') = insert n (taken_frames (frames s)) \<and>
     taken_pages s' = map_option (\<lambda>ps. ps @ [n]) (taken_pages s) \<and>
     pte s' t i AND PAGE_PRESENT \<noteq> 0 \<and> pte s' t i AND PAGE_PS = 0 \<and> table_of (pte s' t i) = n \<and>
     (\<forall>j < 512. pte s' n j = 0) \<and>
     (\<forall>u j. u AND 0xFFF = 0 \<longrightarrow> j < 512 \<longrightarrow> u \<noteq> n \<longrightarrow> \<not> (u = t \<and> j = i) \<longrightarrow> pte s' u j = pte s u j)"

lemma addedD:
  assumes "added s s' p t i n"
  shows "pt_ok s" "path_ok 2 p" "walk s (PML4 s) p = Some t" "i < 512" "pte s t i AND PAGE_PRESENT = 0"
    "n \<in> avail_frames (frames s)" "n AND 0xFFF = 0" "PML4 s' = PML4 s" "kernel_virt_base s' = kernel_virt_base s"
    "memman_inv (frames s')" "avail_frames (frames s') = avail_frames (frames s) - {n}"
    "taken_frames (frames s') = insert n (taken_frames (frames s))"
    "taken_pages s' = map_option (\<lambda>ps. ps @ [n]) (taken_pages s)"
    "pte s' t i AND PAGE_PRESENT \<noteq> 0" "pte s' t i AND PAGE_PS = 0" "table_of (pte s' t i) = n"
    "j < 512 \<Longrightarrow> pte s' n j = 0"
    "u AND 0xFFF = 0 \<Longrightarrow> j < 512 \<Longrightarrow> u \<noteq> n \<Longrightarrow> \<not> (u = t \<and> j = i) \<Longrightarrow> pte s' u j = pte s u j"
  using assms unfolding added_def by blast+

lemma ensure_present: "pte s t i AND PAGE_PRESENT \<noteq> 0 \<Longrightarrow> ensure_table (slot t i) s = Some s"
  by (simp add: ensure_table_def pte_def)

lemma ensure_added:
  assumes ok: "pt_ok s" and p: "path_ok 2 p" "walk s (PML4 s) p = Some t" and i: "i < 512"
    and e: "pte s t i AND PAGE_PRESENT = 0" and a: "avail_frames (frames s) \<noteq> {}"
  obtains s' n where "ensure_table (slot t i) s = Some s'" "added s s' p t i n" "Suc (card (avail_frames (frames s'))) = card (avail_frames (frames s))"
proof (cases rule: mm.get_cases [OF pt_okD(1) [OF ok]])
  case (1 m)
  then show ?thesis using a by simp
next
  case (2 n m)
  have ta: "t AND 0xFFF = 0" by (rule table_align [OF p(2) ok])
  have na: "n AND 0xFFF = 0" "HHDM_P2V (HHDM_V2P n) = n"
    using mm.frame_address [OF pt_okD(1) [OF ok], of n] 2 by auto
  have tn: "t \<noteq> n" using pt_okD(4) [OF ok path_ok_mono [OF p(1)] p(2)] 2 by auto
  define e' where "e' = (pte s t i OR (PAGE_PRESENT OR PAGE_RW OR PAGE_USER)) OR (HHDM_V2P n AND ADDR_MASK)"
  have old: "pte s t i AND ADDR_MASK = 0" "pte s t i AND PAGE_PS = 0" using pt_okD(6) [OF ok p i e] by auto
  note new = new_entry [OF old na, folded e'_def]
  define s' where "s' = s\<lparr>taken_pages := map_option (\<lambda>ps. ps @ [n]) (taken_pages s), frames := m,
     pmem := (fill_loop 512 0 n (pmem s))(slot t i := e')\<rparr>"
  have "slot t i \<noteq> slot n j" if "j < 512" for j using slot_eq [OF ta i na(1) that] tn by simp
  then have keep: "fill_loop 512 0 n (pmem s) (slot t i) = pte s t i" by (auto simp: fill_frame pte_def)
  have "ensure_table (slot t i) s = Some s'"
    using 2 e keep unfolding ensure_table_def get_free_frame_def s'_def e'_def
    by (simp add: pte_def [symmetric]) (simp add: pte_def fun_upd_def)
  moreover have ent: "pte s' u j = (if u = t \<and> j = i then e' else if u = n then 0 else pte s u j)"
    if "u AND 0xFFF = 0" "j < 512" for u j
    using slot_eq [OF that ta i] slot_eq [OF that na(1)] that
    by (auto simp: pte_def s'_def fill_frame)
  then have "added s s' p t i n"
    unfolding added_def using ok p i e 2 na new ta tn by (simp add: s'_def)
  ultimately show ?thesis using that 2 by (simp add: s'_def)
qed

lemma walk_added:
  assumes a: "added s s' p t i n" and q: "path_ok 3 q"
  shows "walk s' (PML4 s') q = (if q = p @ [i] then Some n else walk s (PML4 s) q)"
  using q
proof (induction q rule: rev_induct)
  case Nil
  then show ?case by (simp add: addedD(8) [OF a])
next
  case (snoc j q)
  have ok: "pt_ok s" by (rule addedD(1) [OF a])
  have q: "path_ok 2 q" "path_ok 3 q" "j < 512"
    using snoc.prems by (auto simp: numeral_3_eq_3 numeral_2_eq_2 intro: path_ok_mono)
  note IH = snoc.IH [OF q(2)]
  have last: "walk s (PML4 s) (q @ [j]) = (case walk s (PML4 s) q of None \<Rightarrow> None | Some u \<Rightarrow> walk s u [j])"
    "walk s' (PML4 s') (q @ [j]) = (case walk s' (PML4 s') q of None \<Rightarrow> None | Some u \<Rightarrow> walk s' u [j])"
    by (rule walk_append)+
  show ?case
  proof (cases "q = p @ [i]")
    case True
    then have "walk s (PML4 s) q = None" using addedD(3,5) [OF a] by (simp add: walk_append)
    moreover have "walk s' n [j] = None" using addedD(17) [OF a q(3)] by simp
    moreover have "q @ [j] \<noteq> p @ [i]" using True by simp
    moreover have "walk s' (PML4 s') q = Some n" using IH True by simp
    ultimately show ?thesis unfolding last by simp
  next
    case False
    then have e: "walk s' (PML4 s') q = walk s (PML4 s) q" using IH by simp
    show ?thesis
    proof (cases "walk s (PML4 s) q")
      case None
      then have "q \<noteq> p" using addedD(3) [OF a] by auto
      then show ?thesis using None e by (simp add: last)
    next
      case (Some u)
      have al: "u AND 0xFFF = 0" by (rule table_align [OF Some ok])
      have un: "u \<noteq> n" using pt_okD(4) [OF ok q(2) Some] addedD(6) [OF a] by auto
      have tp: "u = t \<longleftrightarrow> q = p" using pt_okD(5) [OF ok q(2) path_ok_mono [OF addedD(2) [OF a]]] Some addedD(3) [OF a] by auto
      show ?thesis
      proof (cases "q = p \<and> j = i")
        case True
        then show ?thesis unfolding last using Some e tp addedD(14-16) [OF a] by simp
      next
        case neq: False
        then have "pte s' u j = pte s u j" using addedD(18) [OF a al q(3) un] tp by auto
        then show ?thesis using Some e neq by (auto simp: last)
      qed
    qed
  qed
qed

lemma added_ok:
  assumes a: "added s s' p t i n"
  shows "pt_ok s'"
proof -
  have ok: "pt_ok s" by (rule addedD(1) [OF a])
  note W = walk_added [OF a]
  have pi: "path_ok 3 (p @ [i])" using addedD(2,4) [OF a] by (simp add: numeral_3_eq_3 numeral_2_eq_2)
  have ta: "t AND 0xFFF = 0" by (rule table_align [OF addedD(3) [OF a] ok])
  have nw: "walk s (PML4 s) q \<noteq> Some n" if "path_ok 3 q" for q using pt_okD(4) [OF ok that] addedD(6) [OF a] by blast
  have tn: "t \<noteq> n" using nw [OF path_ok_mono [OF addedD(2) [OF a]]] addedD(3) [OF a] by auto
  have 1: "u \<notin> avail_frames (frames s')" if "path_ok 3 q" "walk s' (PML4 s') q = Some u" for q u
    using that pt_okD(4) [OF ok that(1)] unfolding W [OF that(1)] addedD(11) [OF a] by (auto split: if_splits)
  have 2: "q = r" if "path_ok 3 q" "path_ok 3 r" "walk s' (PML4 s') q = Some u" "walk s' (PML4 s') r = Some u" for q r u
    using that pt_okD(5) [OF ok that(1,2)] nw [OF that(1)] nw [OF that(2)] unfolding W [OF that(1)] W [OF that(2)]
    by (auto split: if_splits)
  have ent: "pte s' u j = pte s u j \<or> u = n \<or> u = t \<and> j = i"
    if "path_ok 3 q" "walk s (PML4 s) q = Some u" "j < 512" for q u j
    using addedD(18) [OF a table_align [OF that(2) ok] that(3)] by blast
  have 3: "pte s' u j AND ADDR_MASK = 0 \<and> pte s' u j AND PAGE_PS = 0"
    if q: "path_ok 2 q" and w: "walk s' (PML4 s') q = Some u" and j: "j < 512" and e: "pte s' u j AND PAGE_PRESENT = 0" for q u j
  proof (cases "u = n")
    case True
    then show ?thesis using addedD(17) [OF a j] by simp
  next
    case False
    then have w': "walk s (PML4 s) q = Some u" using w W [OF path_ok_mono [OF q]] by (auto split: if_splits)
    moreover have "\<not> (u = t \<and> j = i)" using e addedD(14) [OF a] by auto
    ultimately have "pte s' u j = pte s u j" using ent [OF path_ok_mono [OF q] _ j] False by auto
    then show ?thesis using pt_okD(6) [OF ok q w' j] e by simp
  qed
  have 4: "pte s' (PML4 s') j AND PAGE_PS = 0" if j: "j < 512" for j
    using ent [of "[]" "PML4 s" j] j pt_okD(7) [OF ok j] nw [of "[]"] addedD(15) [OF a] by (auto simp: addedD(8) [OF a])
  have 5: "distinct ps \<and> set ps \<subseteq> taken_frames (frames s')" if h: "taken_pages s' = Some ps" for ps
  proof -
    obtain qs where qs: "taken_pages s = Some qs" "ps = qs @ [n]" using h unfolding addedD(13) [OF a] by auto
    moreover have "n \<notin> taken_frames (frames s)" using mm.avail_taken [OF pt_okD(1) [OF ok]] addedD(6) [OF a] by blast
    ultimately show ?thesis using pt_okD(8) [OF ok qs(1)] unfolding addedD(12) [OF a] by auto
  qed
  have "in_hhdm s'" using pt_okD(2) [OF ok] by (simp add: in_hhdm_def addedD(8,9) [OF a])
  then show ?thesis
    unfolding pt_ok_def using addedD(10) [OF a] pt_okD(3) [OF ok, folded addedD(8) [OF a]] 1 2 3 4 5 by blast
qed

lemma resolve_empty: "(\<And>j. j < 512 \<Longrightarrow> pte s n j = 0) \<Longrightarrow> \<forall>j \<in> set p. j < 512 \<Longrightarrow> resolve s n p = Absent"
  by (cases p) auto

lemma resolve_added:
  assumes a: "added s s' p t i n" and "walk s (PML4 s) q = Some u" "path_ok 4 (q @ r)" "length q + length r = 4"
    "path_ok 3 q"
  shows "resolve s' u r = resolve s u r"
  using assms(2-)
proof (induction r arbitrary: q u)
  case Nil
  then show ?case by simp
next
  case (Cons j r)
  have ok: "pt_ok s" by (rule addedD(1) [OF a])
  have j: "j < 512" and r: "\<forall>k \<in> set r. k < 512" using Cons.prems(2) by (auto simp: path_ok_def)
  have un: "u \<noteq> n" using pt_okD(4) [OF ok Cons.prems(4,1)] addedD(6) [OF a] by auto
  show ?case
  proof (cases "u = t \<and> j = i")
    case True
    then have "resolve s u (j # r) = Absent" using addedD(5) [OF a] by simp
    moreover have "q = p"
      using pt_okD(5) [OF ok Cons.prems(4) path_ok_mono [OF addedD(2) [OF a]] Cons.prems(1)] True addedD(3) [OF a] by simp
    then have "r \<noteq> []" using Cons.prems(3) addedD(2) [OF a] by (auto simp: path_ok_def)
    then have "resolve s' u (j # r) = resolve s' n r"
      using True addedD(14-16) [OF a] by simp
    moreover have "resolve s' n r = Absent" using resolve_empty [OF addedD(17) [OF a]] r by simp
    ultimately show ?thesis by simp
  next
    case False
    then have e: "pte s' u j = pte s u j"
      using addedD(18) [OF a table_align [OF Cons.prems(1) ok] j un] by auto
    show ?thesis
    proof (cases "r = [] \<or> pte s u j AND PAGE_PRESENT = 0 \<or> pte s u j AND PAGE_PS \<noteq> 0")
      case True
      have "length r = 3 \<Longrightarrow> pte s u j AND PAGE_PS = 0"
        using Cons.prems(1,3) pt_okD(7) [OF ok j] by simp
      then show ?thesis using True e Cons.prems(3) by auto
    next
      case cont: False
      have "resolve s' (table_of (pte s u j)) r = resolve s (table_of (pte s u j)) r"
      proof (rule Cons.IH [of "q @ [j]"])
        show "walk s (PML4 s) (q @ [j]) = Some (table_of (pte s u j))" using cont Cons.prems(1) by (simp add: walk_append)
        have "length r \<ge> 1" using cont by (cases r) auto
        then show "path_ok 3 (q @ [j])" using Cons.prems(2,3) by (auto simp: path_ok_def)
      qed (use Cons.prems in simp_all)
      then show ?thesis using e cont by simp
    qed
  qed
qed

lemma indices_path: "path_ok 4 (indices v)" "length (indices v) = 4"
  using indices_bound [of _ v] by (auto simp: path_ok_def indices_def)

lemma translation_added:
  assumes a: "added s s' p t i n"
  shows "translation s' v = translation s v"
  using resolve_added [OF a, of "[]" "PML4 s" "indices v"] indices_path
  by (simp add: translation_def addedD(8) [OF a])

text \<open>Frames move from the pool to the list of taken pages, and nowhere else.\<close>

definition tables :: "aspace \<Rightarrow> 64 word set" where
  "tables s = {t. \<exists>p. path_ok 3 p \<and> walk s (PML4 s) p = Some t}"

definition grown :: "aspace \<Rightarrow> aspace \<Rightarrow> bool" where
  "grown s s' \<longleftrightarrow> (\<exists>ns. taken_pages s' = map_option (\<lambda>ps. ps @ ns) (taken_pages s) \<and>
     avail_frames (frames s) = avail_frames (frames s') \<union> set ns \<and> taken_frames (frames s') = taken_frames (frames s) \<union> set ns \<and>
     tables s' \<subseteq> tables s \<union> set ns)"

lemma grown_refl: "grown s s"
  unfolding grown_def by (intro exI [of _ "[]"]) (auto simp: option.map_ident)

lemma grown_trans:
  assumes "grown s1 s2" "grown s2 s3"
  shows "grown s1 s3"
proof -
  obtain ns ms where "taken_pages s2 = map_option (\<lambda>ps. ps @ ns) (taken_pages s1)"
    "taken_pages s3 = map_option (\<lambda>ps. ps @ ms) (taken_pages s2)"
    "avail_frames (frames s1) = avail_frames (frames s2) \<union> set ns" "avail_frames (frames s2) = avail_frames (frames s3) \<union> set ms"
    "taken_frames (frames s2) = taken_frames (frames s1) \<union> set ns" "taken_frames (frames s3) = taken_frames (frames s2) \<union> set ms"
    "tables s2 \<subseteq> tables s1 \<union> set ns" "tables s3 \<subseteq> tables s2 \<union> set ms"
    using assms unfolding grown_def by blast
  then show ?thesis
    unfolding grown_def by (intro exI [of _ "ns @ ms"]) (auto simp: option.map_comp comp_def)
qed

lemma grown_added: "added s s' p t i n \<Longrightarrow> grown s s'"
proof -
  assume a: "added s s' p t i n"
  have "tables s' \<subseteq> tables s \<union> {n}" unfolding tables_def by (auto simp: walk_added [OF a] split: if_splits)
  then show ?thesis
    unfolding grown_def using addedD(6,11-13) [OF a] by (intro exI [of _ "[n]"]) auto
qed

lemma ensure_step:
  assumes ok: "pt_ok s" and p: "path_ok 2 p" "walk s (PML4 s) p = Some t" and i: "i < 512"
    and ps: "pte s t i AND PAGE_PS = 0" and av: "card (avail_frames (frames s)) \<ge> Suc k"
  obtains s' where "ensure_table (slot t i) s = Some s'" "pt_ok s'" "PML4 s' = PML4 s"
    "walk s' (PML4 s') (p @ [i]) = Some (table_of (pmem s' (slot t i)))"
    "translation s' = translation s" "card (avail_frames (frames s')) \<ge> k" "grown s s'"
proof (cases "pte s t i AND PAGE_PRESENT = 0")
  case True
  have "avail_frames (frames s) \<noteq> {}" using av by auto
  then obtain s' n where a: "ensure_table (slot t i) s = Some s'" "added s s' p t i n"
    "Suc (card (avail_frames (frames s'))) = card (avail_frames (frames s))"
    using ensure_added [OF ok p i True] by blast
  have "path_ok 3 (p @ [i])" using p i by (simp add: numeral_3_eq_3 numeral_2_eq_2)
  then have "walk s' (PML4 s') (p @ [i]) = Some (table_of (pmem s' (slot t i)))"
    using walk_added [OF a(2)] addedD(16) [OF a(2)] by (simp add: pte_def)
  then show ?thesis
    using that a added_ok [OF a(2)] addedD(8) [OF a(2)] translation_added [OF a(2)] grown_added [OF a(2)] av by auto
next
  case False
  then show ?thesis
    using that [of s] ensure_present [of s t i] ok p ps av grown_refl [of s] by (simp add: walk_append pte_def)
qed

lemma ensure_some:
  assumes ok: "pt_ok s" and p: "path_ok 2 p" "walk s (PML4 s) p = Some t" and i: "i < 512"
    and ps: "pte s t i AND PAGE_PS = 0" and e: "ensure_table (slot t i) s = Some s'"
  shows "pt_ok s'" "PML4 s' = PML4 s" "walk s' (PML4 s') (p @ [i]) = Some (table_of (pmem s' (slot t i)))" "grown s s'"
proof -
  have "pt_ok s' \<and> PML4 s' = PML4 s \<and> walk s' (PML4 s') (p @ [i]) = Some (table_of (pmem s' (slot t i))) \<and> grown s s'"
  proof (cases "pte s t i AND PAGE_PRESENT = 0")
    case True
    have "avail_frames (frames s) \<noteq> {}"
      using e True mm.get_null [OF pt_okD(1) [OF ok]] by (fastforce simp: ensure_table_def get_free_frame_def pte_def)
    then have "Suc 0 \<le> card (avail_frames (frames s))" using mm.finite_avail [OF pt_okD(1) [OF ok]] by (simp add: Suc_le_eq card_gt_0_iff)
    then show ?thesis using ensure_step [OF ok p i ps, of 0] e by (metis option.inject)
  next
    case False
    then have "s' = s" using ensure_present [of s t i] e by simp
    then show ?thesis using ok p ps False grown_refl [of s] by (simp add: walk_append pte_def)
  qed
  then show "pt_ok s'" "PML4 s' = PML4 s" "walk s' (PML4 s') (p @ [i]) = Some (table_of (pmem s' (slot t i)))" "grown s s'" by blast+
qed

section \<open>Changing an entry of the last level\<close>

definition set_pte :: "64 word \<Rightarrow> 64 word \<Rightarrow> 64 word \<Rightarrow> aspace \<Rightarrow> aspace" where
  "set_pte t i x s = s\<lparr>pmem := (pmem s)(slot t i := x)\<rparr>"

lemma set_pte_simps [simp]:
  "PML4 (set_pte t i x s) = PML4 s" "frames (set_pte t i x s) = frames s"
  "taken_pages (set_pte t i x s) = taken_pages s" "kernel_virt_base (set_pte t i x s) = kernel_virt_base s"
  "in_hhdm (set_pte t i x s) = in_hhdm s"
  by (simp_all add: set_pte_def in_hhdm_def)

lemma entry_set_pte:
  assumes "t AND 0xFFF = 0" "i < 512" "u AND 0xFFF = 0" "j < 512"
  shows "pte (set_pte t i x s) u j = (if u = t \<and> j = i then x else pte s u j)"
  using slot_eq [OF assms(3,4,1,2)] by (auto simp: pte_def set_pte_def)

lemma walk_set_pte:
  assumes ok: "pt_ok s" and p: "path_ok 3 p" "length p = 3" "walk s (PML4 s) p = Some t" and i: "i < 512" and q: "path_ok 3 q"
  shows "walk (set_pte t i x s) (PML4 s) q = walk s (PML4 s) q"
  using q
proof (induction q rule: rev_induct)
  case (snoc j q)
  have q: "path_ok 2 q" "path_ok 3 q" "j < 512"
    using snoc.prems by (auto simp: numeral_3_eq_3 numeral_2_eq_2 intro: path_ok_mono)
  show ?case
  proof (cases "walk s (PML4 s) q")
    case None
    then show ?thesis using snoc.IH [OF q(2)] by (simp add: walk_append)
  next
    case (Some u)
    have "length q \<le> 2" using q(1) by (simp add: path_ok_def)
    then have "u \<noteq> t" using pt_okD(5) [OF ok q(2) p(1) Some] p by auto
    then have "pte (set_pte t i x s) u j = pte s u j"
      using entry_set_pte [OF table_align [OF p(3) ok] i table_align [OF Some ok] q(3)] by simp
    then show ?thesis using snoc.IH [OF q(2)] Some by (simp add: walk_append)
  qed
qed simp

lemma tables_set_pte:
  assumes "pt_ok s" "path_ok 3 p" "length p = 3" "walk s (PML4 s) p = Some t" "i < 512"
  shows "tables (set_pte t i x s) = tables s"
  using walk_set_pte [OF assms] by (auto simp: tables_def)

lemma set_pte_ok:
  assumes ok: "pt_ok s" and p: "path_ok 3 p" "length p = 3" "walk s (PML4 s) p = Some t" and i: "i < 512"
  shows "pt_ok (set_pte t i x s)"
proof -
  note W = walk_set_pte [OF ok p i]
  have ent: "pte (set_pte t i x s) u j = pte s u j"
    if q: "path_ok 2 q" and w: "walk s (PML4 s) q = Some u" and j: "j < 512" for q u j
  proof -
    have "length q \<le> 2" "path_ok 3 q" using q by (auto simp: path_ok_def)
    then have "u \<noteq> t" using pt_okD(5) [OF ok _ p(1) w] p by auto
    then show ?thesis using entry_set_pte [OF table_align [OF p(3) ok] i table_align [OF w ok] j] by simp
  qed
  have 1: "u \<notin> avail_frames (frames s)" if "path_ok 3 q" "walk (set_pte t i x s) (PML4 s) q = Some u" for q u
    using that pt_okD(4) [OF ok] W by simp
  have 2: "q = r" if "path_ok 3 q" "path_ok 3 r" "walk (set_pte t i x s) (PML4 s) q = Some u"
    "walk (set_pte t i x s) (PML4 s) r = Some u" for q r u
    using that pt_okD(5) [OF ok] W by simp
  have 3: "pte (set_pte t i x s) u j AND ADDR_MASK = 0 \<and> pte (set_pte t i x s) u j AND PAGE_PS = 0"
    if "path_ok 2 q" "walk (set_pte t i x s) (PML4 s) q = Some u" "j < 512"
      "pte (set_pte t i x s) u j AND PAGE_PRESENT = 0" for q u j
  proof -
    have "path_ok 3 q" using that(1) by (auto simp: path_ok_def)
    then have w: "walk s (PML4 s) q = Some u" using that(2) W by simp
    show ?thesis using pt_okD(6) [OF ok that(1) w that(3)] that(4) unfolding ent [OF that(1) w that(3)] by simp
  qed
  have 4: "pte (set_pte t i x s) (PML4 s) j AND PAGE_PS = 0" if "j < 512" for j
    using ent [of "[]", OF _ _ that] pt_okD(7) [OF ok that] by simp
  show ?thesis
    unfolding pt_ok_def set_pte_simps using pt_okD(1-3,8) [OF ok] 1 2 3 4 by blast
qed

lemma resolve_set_pte:
  assumes ok: "pt_ok s" and p: "path_ok 3 p" "length p = 3" "walk s (PML4 s) p = Some t" and i: "i < 512"
    and q: "walk s (PML4 s) q = Some u" "path_ok 4 (q @ r)" "length q + length r = 4" "path_ok 3 q"
  shows "resolve (set_pte t i x s) u r =
    (if q @ r = p @ [i] then (if x AND PAGE_PRESENT = 0 then Absent else Small x) else resolve s u r)"
  using q
proof (induction r arbitrary: q u)
  case Nil
  then show ?case by (auto simp: path_ok_def)
next
  case (Cons j r)
  have j: "j < 512" using Cons.prems(2) by (auto simp: path_ok_def)
  have e: "pte (set_pte t i x s) u j = (if u = t \<and> j = i then x else pte s u j)"
    by (rule entry_set_pte [OF table_align [OF p(3) ok] i table_align [OF Cons.prems(1) ok] j])
  have tp: "u = t \<longleftrightarrow> q = p" using pt_okD(5) [OF ok Cons.prems(4) p(1) Cons.prems(1)] p Cons.prems(1) by auto
  show ?case
  proof (cases "r = []")
    case True
    then show ?thesis using e tp by auto
  next
    case r: False
    have "q \<noteq> p" using r Cons.prems(3) p(2) by (cases r) auto
    then have e: "pte (set_pte t i x s) u j = pte s u j" using e tp by simp
    show ?thesis
    proof (cases "pte s u j AND PAGE_PRESENT = 0 \<or> pte s u j AND PAGE_PS \<noteq> 0")
      case True
      have "walk s (PML4 s) (q @ [j]) = None" using True Cons.prems(1) by (simp add: walk_append) 
      then have "walk s (PML4 s) (q @ j # r') = None" for r'
        using walk_append [of s "PML4 s" "q @ [j]" r'] by simp
      moreover have "\<exists>r'. p = q @ j # r'" if "q @ j # r = p @ [i]"
        using that r by (metis append_butlast_last_id butlast.simps(2) butlast_append butlast_snoc list.distinct(1))
      ultimately have ne: "q @ j # r \<noteq> p @ [i]" using p(3) by (metis option.distinct(1))
      have "length r = 3 \<Longrightarrow> pte s u j AND PAGE_PS = 0"
        using Cons.prems(1,3) pt_okD(7) [OF ok j] by simp
      then show ?thesis using True e r ne Cons.prems(3) by auto
    next
      case cont: False
      have "resolve (set_pte t i x s) (table_of (pte s u j)) r =
          (if (q @ [j]) @ r = p @ [i] then (if x AND PAGE_PRESENT = 0 then Absent else Small x)
           else resolve s (table_of (pte s u j)) r)"
      proof (rule Cons.IH [of "q @ [j]"])
        show "walk s (PML4 s) (q @ [j]) = Some (table_of (pte s u j))" using cont Cons.prems(1) by (simp add: walk_append)
        have "length r \<ge> 1" using r by (cases r) auto
        then show "path_ok 3 (q @ [j])" using Cons.prems(2,3) by (auto simp: path_ok_def)
      qed (use Cons.prems in simp_all)
      then show ?thesis using e cont r by simp
    qed
  qed
qed

lemma translation_set_pte:
  assumes ok: "pt_ok s" and p: "path_ok 3 p" "length p = 3" "walk s (PML4 s) p = Some t" and i: "i < 512"
  shows "translation (set_pte t i x s) v =
    (if indices v = p @ [i] then (if x AND PAGE_PRESENT = 0 then Absent else Small x) else translation s v)"
  using resolve_set_pte [OF ok p i, of "[]" "PML4 s" "indices v" x] indices_path
  by (simp add: translation_def)

section \<open>The operations on the tables\<close>

definition page_entry :: "64 word \<Rightarrow> 32 word \<Rightarrow> 64 word" where
  "page_entry real flags = (real AND ADDR_MASK) OR ucast (flags AND 0xFFF) OR PAGE_PRESENT"

lemma page_entry_frame: "page_entry real flags AND ADDR_MASK = real AND ADDR_MASK"
proof (rule bit_word_eqI)
  fix n
  have e: "(0xFFF :: 32 word) = mask 12" by (simp add: mask_eq_exp_minus_1)
  show "bit (page_entry real flags AND ADDR_MASK) n \<longleftrightarrow> bit (real AND ADDR_MASK) n"
    unfolding page_entry_def e by (auto simp: bit_and_iff bit_or_iff mask_bits bit_unsigned_iff bit_mask_iff)
qed

lemma map_step:
  fixes flags :: "32 word"
  assumes ok: "pt_ok s" and al: "virt AND 0xFFF = 0" "real AND 0xFFF = 0"
    and nl: "\<And>e n. translation s virt \<noteq> Large e n" and av: "card (avail_frames (frames s)) \<ge> 3 + k"
  defines "x \<equiv> (real AND ADDR_MASK) OR ucast (flags AND 0xFFF) OR PAGE_PRESENT"
  obtains s' where "map_page virt real flags s = Some s'" "pt_ok s'" "grown s s'" "card (avail_frames (frames s')) \<ge> k"
    "\<And>v. translation s' v = (if indices v = indices virt then Small x else translation s v)"
proof -
  let ?a = "pml4i virt" and ?b = "pdpei virt" and ?c = "pdei virt" and ?d = "ptsi virt"
  have idx: "indices virt = [?a, ?b, ?c, ?d]" by (simp add: indices_def)
  have b: "?a < 512" "?b < 512" "?c < 512" "?d < 512" using indices_bound [of _ virt] idx by auto
  have p: "path_ok 2 []" "path_ok 2 [?a]" "path_ok 2 [?a, ?b]" "path_ok 3 [?a, ?b, ?c]" using b by (auto simp: path_ok_def)
  obtain s1 where s1: "ensure_table (slot (PML4 s) ?a) s = Some s1" "pt_ok s1" "PML4 s1 = PML4 s"
      "walk s1 (PML4 s1) ([] @ [?a]) = Some (table_of (pmem s1 (slot (PML4 s) ?a)))"
      "translation s1 = translation s" "card (avail_frames (frames s1)) \<ge> Suc (Suc k)" "grown s s1"
    using ensure_step [OF ok p(1) _ b(1) pt_okD(7) [OF ok b(1)], of "Suc (Suc k)"] av
    by (metis add_Suc add_0 numeral_3_eq_3 walk.simps(1))
  define t1 where "t1 = table_of (pmem s1 (slot (PML4 s) ?a))"
  have w1: "walk s1 (PML4 s1) [?a] = Some t1" using s1(4) by (simp add: t1_def)
  have n1: "pte s1 t1 ?b AND PAGE_PS = 0"
  proof (rule ccontr)
    assume h: "pte s1 t1 ?b AND PAGE_PS \<noteq> 0"
    then have "pte s1 t1 ?b AND PAGE_PRESENT \<noteq> 0" using pt_okD(6) [OF s1(2) p(2) w1 b(2)] by blast
    then have "translation s1 virt = Large (pte s1 t1 ?b) 2"
      using h w1 unfolding translation_def idx by (simp split: if_splits)
    then show False using nl s1(5) by simp
  qed
  obtain s2 where s2: "ensure_table (slot t1 ?b) s1 = Some s2" "pt_ok s2" "PML4 s2 = PML4 s1"
      "walk s2 (PML4 s2) ([?a] @ [?b]) = Some (table_of (pmem s2 (slot t1 ?b)))"
      "translation s2 = translation s1" "card (avail_frames (frames s2)) \<ge> Suc k" "grown s1 s2"
    using ensure_step [OF s1(2) p(2) w1 b(2) n1, of "Suc k"] s1(6) by metis
  define t2 where "t2 = table_of (pmem s2 (slot t1 ?b))"
  have w2: "walk s2 (PML4 s2) [?a, ?b] = Some t2" using s2(4) by (simp add: t2_def)
  have n2: "pte s2 t2 ?c AND PAGE_PS = 0"
  proof (rule ccontr)
    assume h: "pte s2 t2 ?c AND PAGE_PS \<noteq> 0"
    then have "pte s2 t2 ?c AND PAGE_PRESENT \<noteq> 0" using pt_okD(6) [OF s2(2) p(3) w2 b(3)] by blast
    then have "translation s2 virt = Large (pte s2 t2 ?c) 1"
      using h w2 unfolding translation_def idx by (simp split: if_splits)
    then show False using nl s1(5) s2(5) by simp
  qed
  obtain s3 where s3: "ensure_table (slot t2 ?c) s2 = Some s3" "pt_ok s3" "PML4 s3 = PML4 s2"
      "walk s3 (PML4 s3) ([?a, ?b] @ [?c]) = Some (table_of (pmem s3 (slot t2 ?c)))"
      "translation s3 = translation s2" "grown s2 s3" "card (avail_frames (frames s3)) \<ge> k"
    using ensure_step [OF s2(2) p(3) w2 b(3) n2, of k] s2(6) by metis
  define t3 where "t3 = table_of (pmem s3 (slot t2 ?c))"
  have w3: "walk s3 (PML4 s3) [?a, ?b, ?c] = Some t3" using s3(4) by (simp add: t3_def)
  have "map_page virt real flags s = Some (set_pte t3 ?d x s3)"
    using al pt_okD(2) [OF ok] s1(1) s2(1) s3(1) n1 n2
    by (simp add: map_page_def set_pte_def x_def t1_def t2_def t3_def pte_def)
  moreover have "pt_ok (set_pte t3 ?d x s3)" by (rule set_pte_ok [OF s3(2) p(4) _ w3 b(4)]) simp
  moreover have "grown s (set_pte t3 ?d x s3)"
    using grown_trans [OF grown_trans [OF s1(7) s2(7)] s3(6)] tables_set_pte [OF s3(2) p(4) _ w3 b(4)]
    unfolding grown_def set_pte_simps by simp
  moreover have "x AND PAGE_PRESENT \<noteq> 0" unfolding present_bit x_def by (simp add: bit_or_iff mask_bits)
  then have "translation (set_pte t3 ?d x s3) v = (if indices v = indices virt then Small x else translation s v)" for v
    using translation_set_pte [OF s3(2) p(4) _ w3 b(4), of x v] s1(5) s2(5) s3(5) by (simp add: idx)
  moreover have "card (avail_frames (frames (set_pte t3 ?d x s3))) \<ge> k" using s3(7) by simp
  ultimately show ?thesis using that by blast
qed

lemma map_large:
  assumes ok: "pt_ok s" and l: "translation s virt = Large e n"
  shows "map_page virt real flags s = None"
  using l unfolding translation_def indices_def
  by (auto simp: map_page_def ensure_table_def pte_def [symmetric] Let_def split: if_splits)

lemma small_walk:
  assumes ok: "pt_ok s" and e: "translation s virt = Small e"
  obtains t where "walk s (PML4 s) [pml4i virt, pdpei virt, pdei virt] = Some t" "pte s t (ptsi virt) = e"
    "pte s t (ptsi virt) AND PAGE_PRESENT \<noteq> 0"
proof -
  have "pml4i virt < 512" using indices_bound [of _ virt] by (simp add: indices_def)
  then show ?thesis using that e pt_okD(7) [OF ok] unfolding translation_def indices_def by (auto split: if_splits)
qed

lemma unmap_step:
  assumes ok: "pt_ok s" and al: "virt AND 0xFFF = 0" and e: "translation s virt = Small e"
  obtains s' where "unmap_page virt s = Some s'" "pt_ok s'" "grown s s'" "frames s' = frames s" "tables s' = tables s"
    "\<And>v. translation s' v = (if indices v = indices virt then Absent else translation s v)"
proof -
  let ?a = "pml4i virt" and ?b = "pdpei virt" and ?c = "pdei virt" and ?d = "ptsi virt"
  have idx: "indices virt = [?a, ?b, ?c, ?d]" by (simp add: indices_def)
  have b: "?a < 512" "?b < 512" "?c < 512" "?d < 512" using indices_bound [of _ virt] idx by auto
  have p: "path_ok 3 [?a, ?b, ?c]" using b by (auto simp: path_ok_def)
  obtain t where t: "walk s (PML4 s) [?a, ?b, ?c] = Some t" "pte s t ?d = e" "pte s t ?d AND PAGE_PRESENT \<noteq> 0"
    using small_walk [OF ok e] by blast
  let ?s = "set_pte t ?d (e AND NOT PAGE_PRESENT) s"
  have "unmap_page virt s = Some ?s"
    using al pt_okD(2) [OF ok] t by (auto simp: unmap_page_def set_pte_def pte_def Let_def split: if_splits)
  moreover have "pt_ok ?s" by (rule set_pte_ok [OF ok p _ t(1) b(4)]) simp
  moreover have "grown s ?s" using grown_refl [of s] tables_set_pte [OF ok p _ t(1) b(4)] unfolding grown_def set_pte_simps by simp
  moreover have "(e AND NOT PAGE_PRESENT) AND PAGE_PRESENT = 0" unfolding present_bit by (simp add: bit_and_iff bit_not_iff mask_bits)
  then have "translation ?s v = (if indices v = indices virt then Absent else translation s v)" for v
    using translation_set_pte [OF ok p _ t(1) b(4), of "e AND NOT PAGE_PRESENT" v] by (simp add: idx)
  moreover have "frames ?s = frames s" "tables ?s = tables s" using tables_set_pte [OF ok p _ t(1) b(4)] by simp_all
  ultimately show ?thesis using that by blast
qed

lemma unmap_other:
  assumes ok: "pt_ok s" and e: "\<And>e. translation s virt \<noteq> Small e"
  shows "unmap_page virt s = None"
proof (cases "translation s virt")
  case Absent
  then show ?thesis unfolding translation_def indices_def
    by (auto simp: unmap_page_def pte_def [symmetric] Let_def split: if_splits)
next
  case (Large e n)
  then show ?thesis unfolding translation_def indices_def
    by (auto simp: unmap_page_def pte_def [symmetric] Let_def split: if_splits)
qed (use e in simp)

text \<open>The number of the page, from the 48 bits that are translated.\<close>

definition page_no :: "64 word \<Rightarrow> 64 word" where
  "page_no v = take_bit 36 (drop_bit 12 v)"

lemma index_bit: "bit (drop_bit k v AND 0x01FF) n \<longleftrightarrow> n < 9 \<and> bit v (k + n)" for v :: "64 word"
proof -
  have e: "(0x01FF :: 64 word) = mask 9" by (simp add: mask_eq_exp_minus_1)
  show ?thesis unfolding e by (auto simp: bit_and_iff bit_drop_bit_eq bit_mask_iff)
qed

lemma page_no_bit: "bit (page_no v) n \<longleftrightarrow> n < 36 \<and> bit v (12 + n)"
  by (auto simp: page_no_def bit_take_bit_iff bit_drop_bit_eq)

lemma indices_page_no: "indices v = indices w \<longleftrightarrow> page_no v = page_no w"
proof
  assume i: "indices v = indices w"
  have "bit v (k + n) = bit w (k + n)" if "k \<in> {39, 30, 21, 12}" "n < 9" for k n
  proof -
    have "drop_bit k v AND 0x01FF = drop_bit k w AND 0x01FF"
      using i that(1) by (auto simp: indices_def pml4i_def pdpei_def pdei_def ptsi_def)
    then show ?thesis using index_bit [of k v n] index_bit [of k w n] that(2) by simp
  qed
  note part = this
  have "bit v (12 + n) = bit w (12 + n)" if n: "n < 36" for n
  proof -
    have "n div 9 \<in> {0, 1, 2, 3}" using n by auto
    then have "12 + 9 * (n div 9) \<in> {39, 30, 21, 12 :: nat}" by auto
    from part [OF this, of "n mod 9"] show ?thesis by (simp add: add.commute)
  qed
  then show "page_no v = page_no w" by (intro bit_word_eqI) (auto simp: page_no_bit)
next
  assume "page_no v = page_no w"
  then have e: "bit v (12 + n) = bit w (12 + n)" if "n < 36" for n
    using page_no_bit [of v n] page_no_bit [of w n] that by simp
  have "drop_bit k v AND 0x01FF = drop_bit k w AND 0x01FF" if "12 \<le> k" "k + 9 \<le> 48" for k
  proof (rule bit_word_eqI)
    fix n
    show "bit (drop_bit k v AND 0x01FF) n \<longleftrightarrow> bit (drop_bit k w AND 0x01FF) n"
      unfolding index_bit using e [of "k + n - 12"] that by auto
  qed
  then show "indices v = indices w" by (simp add: indices_def pml4i_def pdpei_def pdei_def ptsi_def)
qed

section \<open>Creating and destroying an address space\<close>

lemma new_translation: "(\<And>j. j < 512 \<Longrightarrow> pte s (PML4 s) j = 0) \<Longrightarrow> translation s v = Absent"
  unfolding translation_def by (rule resolve_empty) (auto intro: indices_bound)

lemma aspace_new_ok:
  assumes m: "memman_inv m" "avail_frames m \<noteq> {}" and k: "\<forall>a \<in> avail_frames m. HHDM_BEGIN \<le> a \<and> a < kvb"
  obtains s a where "aspace_new kvb mem m = Some s" "pt_ok s" "translation s = (\<lambda>v. Absent)" "taken_pages s = Some [a]"
    "a \<in> avail_frames m" "avail_frames m = insert a (avail_frames (frames s))" "taken_frames (frames s) = insert a (taken_frames m)"
    "card (avail_frames m) = Suc (card (avail_frames (frames s)))"
proof (cases rule: mm.get_cases [OF m(1)])
  case (1 m')
  then show ?thesis using m by simp
next
  case f: (2 a m')
  define s where "s = \<lparr>PML4 = a, taken_pages = Some [a], pmem = fill_loop 512 0 a mem, frames = m', kernel_virt_base = kvb\<rparr>"
  have n: "aspace_new kvb mem m = Some s" using f by (simp add: aspace_new_def s_def)
  have z: "pte s (PML4 s) j = 0" if "j < 512" for j using that by (auto simp: pte_def s_def fill_frame)
  have w: "walk s (PML4 s) p = Some t \<Longrightarrow> path_ok 3 p \<Longrightarrow> p = [] \<and> t = a" for p t
    using z by (cases p) (auto simp: path_ok_def, simp add: s_def)
  have al: "a AND 0xFFF = 0" using mm.frame_address [OF m(1), of a] f by auto
  have tp: "t = PML4 s" if "path_ok 2 p" "walk s (PML4 s) p = Some t" for p t
    using w [of p t] path_ok_mono [OF that(1)] that(2) by (simp add: s_def)
  have 1: "t \<notin> avail_frames (frames s)" if "path_ok 3 p" "walk s (PML4 s) p = Some t" for p t
    using w [OF that(2,1)] f by (simp add: s_def)
  have 2: "p = q" if "path_ok 3 p" "path_ok 3 q" "walk s (PML4 s) p = Some t" "walk s (PML4 s) q = Some t" for p q t
    using w [OF that(3,1)] w [OF that(4,2)] by simp
  have 3: "pte s t i AND ADDR_MASK = 0 \<and> pte s t i AND PAGE_PS = 0"
    if "path_ok 2 p" "walk s (PML4 s) p = Some t" "i < 512" for p t i
    unfolding tp [OF that(1,2)] using z [OF that(3)] by simp
  have b: "memman_inv (frames s)" "in_hhdm s" "PML4 s AND 0xFFF = 0"
    "\<And>ps. taken_pages s = Some ps \<Longrightarrow> distinct ps \<and> set ps \<subseteq> taken_frames (frames s)"
    using k f al m by (auto simp: in_hhdm_def s_def)
  have "pt_ok s" by (rule pt_okI) (fact b 1 2 | simp add: z 3)+
  moreover have "translation s = (\<lambda>v. Absent)" using new_translation [OF z] by auto
  moreover have "avail_frames m = insert a (avail_frames m')" using f by blast
  moreover have "frames s = m'" "taken_pages s = Some [a]" by (simp_all add: s_def)
  ultimately show ?thesis using that [of s a] n f by metis
qed

text \<open>What a sequence of calls can make of a new address space.\<close>

inductive as_reach :: "memman \<Rightarrow> aspace \<Rightarrow> bool" for m where
  as_new: "\<forall>a \<in> avail_frames m. HHDM_BEGIN \<le> a \<and> a < kvb \<Longrightarrow> aspace_new kvb mem m = Some s \<Longrightarrow> as_reach m s"
| as_map: "as_reach m s \<Longrightarrow> map_page virt real flags s = Some s' \<Longrightarrow> as_reach m s'"
| as_unmap: "as_reach m s \<Longrightarrow> unmap_page virt s = Some s' \<Longrightarrow> as_reach m s'"

lemma map_ok:
  assumes ok: "pt_ok s" and m: "map_page virt real flags s = Some s'"
  shows "pt_ok s' \<and> grown s s'"
proof -
  let ?a = "pml4i virt" and ?b = "pdpei virt" and ?c = "pdei virt" and ?d = "ptsi virt"
  let ?x = "(real AND ADDR_MASK) OR ucast (flags AND 0xFFF) OR PAGE_PRESENT"
  have b: "?a < 512" "?b < 512" "?c < 512" "?d < 512" using indices_bound [of _ virt] by (auto simp: indices_def)
  have p: "path_ok 2 []" "path_ok 2 [?a]" "path_ok 2 [?a, ?b]" "path_ok 3 [?a, ?b, ?c]" using b by (auto simp: path_ok_def)
  obtain s1 s2 s3 where e: "ensure_table (slot (PML4 s) ?a) s = Some s1"
      "ensure_table (slot (table_of (pmem s1 (slot (PML4 s) ?a))) ?b) s1 = Some s2"
      "pte s1 (table_of (pmem s1 (slot (PML4 s) ?a))) ?b AND PAGE_PS = 0"
      "ensure_table (slot (table_of (pmem s2 (slot (table_of (pmem s1 (slot (PML4 s) ?a))) ?b))) ?c) s2 = Some s3"
      "pte s2 (table_of (pmem s2 (slot (table_of (pmem s1 (slot (PML4 s) ?a))) ?b))) ?c AND PAGE_PS = 0"
      "s' = set_pte (table_of (pmem s3 (slot (table_of (pmem s2 (slot (table_of (pmem s1 (slot (PML4 s) ?a))) ?b))) ?c))) ?d ?x s3"
    using m by (auto simp: map_page_def Let_def pte_def set_pte_def bind_eq_Some_conv split: if_splits)
  have w0: "walk s (PML4 s) [] = Some (PML4 s)" by simp
  note s1 = ensure_some [OF ok p(1) w0 b(1) pt_okD(7) [OF ok b(1)] e(1)]
  note w1 = s1(3) [unfolded append_Nil]
  note s2 = ensure_some [OF s1(1) p(2) w1 b(2) e(3) e(2)]
  note w2 = s2(3) [unfolded append_Cons append_Nil]
  note s3 = ensure_some [OF s2(1) p(3) w2 b(3) e(5) e(4)]
  note w3 = s3(3) [unfolded append_Cons append_Nil]
  have "pt_ok s'" unfolding e(6) by (rule set_pte_ok [OF s3(1) p(4) _ w3 b(4)]) simp
  moreover have "grown s s'"
    using grown_trans [OF grown_trans [OF s1(4) s2(4)] s3(4)] tables_set_pte [OF s3(1) p(4) _ w3 b(4)]
    unfolding e(6) grown_def set_pte_simps by simp
  ultimately show ?thesis by blast
qed

lemma unmap_ok:
  assumes ok: "pt_ok s" and m: "unmap_page virt s = Some s'"
  shows "pt_ok s' \<and> grown s s'"
proof -
  obtain e where e: "translation s virt = Small e" using unmap_other [OF ok] m by fastforce
  moreover have "virt AND 0xFFF = 0" using m by (auto simp: unmap_page_def split: if_splits)
  ultimately obtain s1 where "unmap_page virt s = Some s1" "pt_ok s1" "grown s s1"
    using unmap_step [OF ok] by metis
  then show ?thesis using m by simp
qed

lemma as_reach_ok:
  assumes "as_reach m s" "memman_inv m"
  shows "pt_ok s \<and> (\<exists>ps. taken_pages s = Some ps \<and> avail_frames m = avail_frames (frames s) \<union> set ps \<and>
     taken_frames (frames s) = taken_frames m \<union> set ps)"
  using assms(1)
proof induction
  case (as_new kvb mem s)
  have "avail_frames m \<noteq> {}"
    using as_new(2) mm.get_null [OF assms(2)] by (fastforce simp: aspace_new_def)
  then obtain s1 a where "aspace_new kvb mem m = Some s1" "pt_ok s1" "taken_pages s1 = Some [a]"
    "avail_frames m = insert a (avail_frames (frames s1))" "taken_frames (frames s1) = insert a (taken_frames m)"
    using aspace_new_ok [OF assms(2) _ as_new(1)] by metis
  then show ?case using as_new(2) by simp
next
  case (as_map s virt real flags s')
  then have "pt_ok s' \<and> grown s s'" using map_ok by blast
  then show ?case using as_map.IH by (auto simp: grown_def)
next
  case (as_unmap s virt s')
  then have "pt_ok s' \<and> grown s s'" using unmap_ok by blast
  then show ?case using as_unmap.IH by (auto simp: grown_def)
qed

section \<open>Example\<close>

definition example_mem :: memman where
  "example_mem = fold (\<lambda>p. setSts p FREE) [4 ..< 24] \<lparr>used_bitmap = (\<lambda>i. \<lparr>fp_first = RESERVED, fp_second = RESERVED,
     fp_third = RESERVED, fp_fourth = RESERVED\<rparr>), maxPid = 24, minPid = 4, totalMem = 80\<rparr>"

lemma example_sts: "getSts q example_mem = (if q \<in> {4 ..< 24} then FREE else RESERVED)"
proof -
  have "getSts q (fold (\<lambda>p. setSts p FREE) ps m) = (if q \<in> set ps then FREE else getSts q m)" for ps m
    by (induction ps arbitrary: m) (simp_all add: getSts_setSts)
  then have "getSts q example_mem = (if q \<in> set [4 ..< 24] then FREE else RESERVED)"
    unfolding example_mem_def by (simp add: getSts_def Let_def del: upt.simps upt_rec_numeral)
  then show ?thesis by (simp only: set_upt)
qed

lemma example_bounds: "maxPid example_mem = 24" "minPid example_mem = 4" "totalMem example_mem = 80"
  by (simp_all add: example_mem_def)

lemma example_free: "free_pids example_mem = {4 ..< 24}"
  by (auto simp: free_pids_def example_sts example_bounds)

lemma example_inv: "memman_inv example_mem"
  unfolding memman_inv_def example_free by (auto simp: example_sts example_bounds MAX_PID_def)

lemma example_avail: "card (avail_frames example_mem) = 20"
proof -
  have "inj_on page_addr (free_pids example_mem)"
    using free_bound [OF example_inv] by (auto simp: inj_on_def page_addr_inj)
  then show ?thesis by (simp add: avail_frames_def card_image) (simp add: example_free)
qed

lemma example_range: "\<forall>a \<in> avail_frames example_mem. HHDM_BEGIN \<le> a \<and> a < 0xffffffff80000000"
proof -
  have "\<forall>p \<in> set [4 ..< 24]. HHDM_BEGIN \<le> page_addr p \<and> page_addr p < 0xffffffff80000000"
    by (simp add: page_addr_def HHDM_P2V_def HHDM_BEGIN_def)
  then show ?thesis unfolding avail_frames_def example_free ball_simps(9) set_upt .
qed

lemma example_aspace:
  obtains s where "aspace_new 0xffffffff80000000 (\<lambda>a. 0) example_mem = Some s" "pt_ok s" "\<And>v. translation s v = Absent"
    "card (avail_frames (frames s)) = 19"
proof -
  have "avail_frames example_mem \<noteq> {}" using example_avail by auto
  then obtain s a where "aspace_new 0xffffffff80000000 (\<lambda>a. 0) example_mem = Some s" "pt_ok s" "translation s = (\<lambda>v. Absent)"
      "card (avail_frames example_mem) = Suc (card (avail_frames (frames s)))"
    using aspace_new_ok [OF example_inv _ example_range] by metis
  then show ?thesis using that example_avail by simp
qed

section \<open>Properties\<close>

text \<open>
  C7: \<open>map\<close> makes exactly the given page translate to the given frame: afterwards \<open>virt2real\<close>
  of the page is the frame, and of every other page what it was, whatever tables had to be
  created on the way; the tables stay well-formed.  No assertion fails when three
  frames are free and the page is not in a large mapping; in a large mapping one does.
\<close>

theorem map_page_correct:
  assumes "pt_ok s" "virt AND 0xFFF = 0" "real AND 0xFFF = 0"
  shows "case translation s virt of
      Large e n \<Rightarrow> map_page virt real flags s = None
    | _ \<Rightarrow> card (avail_frames (frames s)) \<ge> 3 \<longrightarrow>
        (\<exists>s'. map_page virt real flags s = Some s' \<and> pt_ok s' \<and>
          (\<forall>v. v AND 0xFFF = 0 \<longrightarrow>
            virt2real v s' = (if page_no v = page_no virt then Some (real AND ADDR_MASK) else virt2real v s)))"
proof -
  have "\<exists>s'. map_page virt real flags s = Some s' \<and> pt_ok s' \<and>
      (\<forall>v. v AND 0xFFF = 0 \<longrightarrow>
        virt2real v s' = (if page_no v = page_no virt then Some (real AND ADDR_MASK) else virt2real v s))"
    if nl: "\<And>e n. translation s virt \<noteq> Large e n" and av: "card (avail_frames (frames s)) \<ge> 3"
  proof -
    obtain s' where s': "map_page virt real flags s = Some s'" "pt_ok s'"
        "\<And>v. translation s' v = (if indices v = indices virt then Small (page_entry real flags) else translation s v)"
      using map_step [OF assms nl, of 0] av unfolding page_entry_def by (metis add_0_right)
    then show ?thesis
      using pt_okD(2) [OF s'(2)] pt_okD(2) [OF assms(1)]
      by (intro exI [of _ s']) (simp add: virt2real_translation indices_page_no page_entry_frame)
  qed
  then show ?thesis using map_large [OF assms(1)] by (auto split: mapping.split)
qed

theorem map_page_correct_witness:
  "\<exists>s s'. aspace_new 0xffffffff80000000 (\<lambda>a. 0) example_mem = Some s \<and> map_page 0x400000 0x7000 7 s = Some s' \<and>
     virt2real 0x400000 s' = Some 0x7000 \<and> virt2real 0x401000 s' = Some 0"
proof -
  obtain s where s: "aspace_new 0xffffffff80000000 (\<lambda>a. 0) example_mem = Some s" "pt_ok s" "\<And>v. translation s v = Absent"
      "card (avail_frames (frames s)) = 19" using example_aspace by blast
  have "(0x7000 :: 64 word) AND ADDR_MASK = 0x7000" "page_no 0x401000 \<noteq> page_no 0x400000"
    by (simp_all add: ADDR_MASK_def page_no_def take_bit_eq_mask mask_eq_exp_minus_1)
  moreover have "virt2real 0x401000 s = Some 0" using s pt_okD(2) [OF s(2)] by (simp add: virt2real_translation)
  ultimately show ?thesis using map_page_correct [OF s(2), of "0x400000" "0x7000" "7"] s by auto
qed

text \<open>
  C28: \<open>unmap\<close> removes exactly the translation of the given page, when it is mapped as a small
  page; otherwise an assertion fails.
\<close>

theorem unmap_page_correct:
  assumes "pt_ok s" "virt AND 0xFFF = 0"
  shows "case translation s virt of
      Small e \<Rightarrow> \<exists>s'. unmap_page virt s = Some s' \<and> pt_ok s' \<and>
        (\<forall>v. v AND 0xFFF = 0 \<longrightarrow> virt2real v s' = (if page_no v = page_no virt then Some 0 else virt2real v s))
    | _ \<Rightarrow> unmap_page virt s = None"
proof (cases "translation s virt")
  case (Small e)
  then obtain s' where s': "unmap_page virt s = Some s'" "pt_ok s'"
      "\<And>v. translation s' v = (if indices v = indices virt then Absent else translation s v)"
    using unmap_step [OF assms] by metis
  then show ?thesis using Small pt_okD(2) [OF s'(2)] pt_okD(2) [OF assms(1)]
    by simp (simp add: virt2real_translation indices_page_no)
qed (use unmap_other [OF assms(1)] in auto)

theorem unmap_page_correct_witness:
  "\<exists>s s1 s2. aspace_new 0xffffffff80000000 (\<lambda>a. 0) example_mem = Some s \<and> map_page 0x400000 0x7000 7 s = Some s1 \<and>
     unmap_page 0x400000 s1 = Some s2 \<and> virt2real 0x400000 s2 = Some 0"
proof -
  obtain s where s: "aspace_new 0xffffffff80000000 (\<lambda>a. 0) example_mem = Some s" "pt_ok s" "\<And>v. translation s v = Absent"
      "card (avail_frames (frames s)) = 19" using example_aspace by blast
  obtain s1 where s1: "map_page 0x400000 0x7000 7 s = Some s1" "pt_ok s1" "translation s1 0x400000 = Small (page_entry 0x7000 7)"
    unfolding page_entry_def by (rule map_step [OF s(2), of "0x400000" "0x7000" 0 "7"]) (use s in auto)
  show ?thesis using unmap_page_correct [OF s1(2), of "0x400000"] s(1) s1 by auto
qed

text \<open>
  C29: Destroying an address space gives back every frame that was taken for its tables, after any
  sequence of calls of \<open>map\<close> and \<open>unmap\<close> that return, with any number of free frames: the allocator is left with the
  free and the used frames it had before the address space was created.  The list of the taken frames is a list here; the memory
  of the vector that holds it, which comes from the kernel heap, is not part of the model.
\<close>

theorem aspace_no_leak:
  assumes "as_reach m s" "memman_inv m"
  shows "\<exists>m'. aspace_free s = Some m' \<and> memman_inv m' \<and> avail_frames m' = avail_frames m \<and> taken_frames m' = taken_frames m"
proof -
  obtain ps where ok: "pt_ok s" and ps: "taken_pages s = Some ps" "avail_frames m = avail_frames (frames s) \<union> set ps"
      "taken_frames (frames s) = taken_frames m \<union> set ps"
    using as_reach_ok [OF assms] by blast
  obtain m' where "fold (\<lambda>p m. Option.bind m (free4k p)) ps (Some (frames s)) = Some m'" "memman_inv m'"
      "avail_frames m' = avail_frames (frames s) \<union> set ps" "taken_frames m' = taken_frames (frames s) - set ps"
    using mm.free_all [OF pt_okD(1) [OF ok]] pt_okD(8) [OF ok ps(1)] by metis
  moreover have "taken_frames m \<inter> set ps = {}" using mm.avail_taken [OF assms(2)] ps by blast
  ultimately show ?thesis using ps by (intro exI [of _ m']) (auto simp: aspace_free_def)
qed

theorem aspace_no_leak_witness:
  "\<exists>s s' m'. aspace_new 0xffffffff80000000 (\<lambda>a. 0) example_mem = Some s \<and> map_page 0x400000 0x7000 7 s = Some s' \<and>
     aspace_free s' = Some m' \<and> avail_frames m' = avail_frames example_mem"
proof -
  obtain s where s: "aspace_new 0xffffffff80000000 (\<lambda>a. 0) example_mem = Some s" "pt_ok s" "\<And>v. translation s v = Absent"
      "card (avail_frames (frames s)) = 19" using example_aspace by blast
  obtain s1 where s1: "map_page 0x400000 0x7000 7 s = Some s1"
    by (rule map_step [OF s(2), of "0x400000" "0x7000" 0 "7"]) (use s in auto)
  have "as_reach example_mem s" by (rule as_new [OF example_range s(1)])
  then have "as_reach example_mem s1" by (rule as_map [OF _ s1])
  then show ?thesis using aspace_no_leak [OF _ example_inv] s(1) s1 by blast
qed

end
