(* ===== verification/Kernel_Region.thy ===== *)
theory Kernel_Region
  imports Kernel_Paging
begin

text \<open>
  The pages of the kernel heap: what mapping a new frame behind its end and freeing the frame of
  one of its pages do to the page tables and to the allocator, which the heap relies on when it
  grows and shrinks.
\<close>

unbundle bit_operations_syntax

definition KERN_HeapVirtBegin :: nat where "KERN_HeapVirtBegin = 0xffffc00000000000"

section \<open>A region of mapped pages\<close>

text \<open>
  The pages of the heap, by their number from the beginning: each is mapped to a frame of its
  own that has been taken from the allocator and is no table.
\<close>

definition heap_page :: "nat \<Rightarrow> 64 word" where
  "heap_page i = word_of_nat (KERN_HeapVirtBegin + 4096 * i)"

definition frame_at :: "aspace \<Rightarrow> nat \<Rightarrow> 64 word option" where
  "frame_at s i = (case translation s (heap_page i) of Small e \<Rightarrow> Some (table_of e) | _ \<Rightarrow> None)"

definition region_ok :: "aspace \<Rightarrow> nat set \<Rightarrow> bool" where
  "region_ok s M \<longleftrightarrow> pt_ok s \<and> taken_pages s = None \<and> M \<subseteq> {..< 2 ^ 34} \<and>
     (\<forall>i \<in> M. \<exists>a. frame_at s i = Some a \<and> a \<in> taken_frames (frames s) - tables s) \<and>
     inj_on (frame_at s) M \<and> (\<forall>i < 2 ^ 34. \<forall>e k. translation s (heap_page i) \<noteq> Large e k)"

lemma unat_heap_page: "i < 2 ^ 34 \<Longrightarrow> unat (heap_page i) = KERN_HeapVirtBegin + 4096 * i"
  unfolding heap_page_def unat_of_nat by (intro mod_less) (simp add: KERN_HeapVirtBegin_def)

lemma heap_page_aligned: "i < 2 ^ 34 \<Longrightarrow> heap_page i AND 0xFFF = 0"
proof -
  assume i: "i < 2 ^ 34"
  have e: "(0xFFF :: 64 word) = mask 12" by (simp add: mask_eq_exp_minus_1)
  have "unat (take_bit 12 (heap_page i)) = take_bit 12 (KERN_HeapVirtBegin + 4096 * i)"
    unfolding unsigned_take_bit_eq unat_heap_page [OF i] ..
  also have "\<dots> = 0" by (simp add: take_bit_eq_mod KERN_HeapVirtBegin_def)
  finally show ?thesis unfolding e take_bit_eq_mask [symmetric] by (simp only: unat_eq_zero)
qed

lemma heap_page_no:
  assumes "i < 2 ^ 34" "j < 2 ^ 34"
  shows "page_no (heap_page i) = page_no (heap_page j) \<longleftrightarrow> i = j"
proof -
  have p: "unat (page_no (heap_page i)) = 51539607552 + i" if "i < 2 ^ 34" for i
  proof -
    have "KERN_HeapVirtBegin + 4096 * i < 2 ^ LENGTH(64)" using that by (simp add: KERN_HeapVirtBegin_def)
    then have "take_bit LENGTH(64) (KERN_HeapVirtBegin + 4096 * i) = KERN_HeapVirtBegin + 4096 * i" by (rule take_bit_nat_eq_self)
    then have "unat (page_no (heap_page i)) = take_bit 36 (drop_bit 12 (KERN_HeapVirtBegin + 4096 * i))"
      unfolding page_no_def unsigned_take_bit_eq unsigned_drop_bit_eq unat_heap_page [OF that] by (simp only:)
    also have "drop_bit 12 (KERN_HeapVirtBegin + 4096 * i) = 0xffffc00000000 + i"
      by (simp add: drop_bit_eq_div KERN_HeapVirtBegin_def)
    also have "0xffffc00000000 + i = (51539607552 + i) + 65535 * 2 ^ 36" by simp
    also have "take_bit 36 ((51539607552 + i) + 65535 * 2 ^ 36) = 51539607552 + i"
      unfolding take_bit_eq_mod mod_mult_self1 by (rule mod_less) (use that in simp)
    finally show ?thesis .
  qed
  show ?thesis using p [OF assms(1)] p [OF assms(2)] by (metis add_left_cancel)
qed

lemma region_okD:
  assumes "region_ok s M"
  shows "pt_ok s" "taken_pages s = None" "M \<subseteq> {..< 2 ^ 34}" "i \<in> M \<Longrightarrow> i < 2 ^ 34"
    "i \<in> M \<Longrightarrow> \<exists>a. frame_at s i = Some a \<and> a \<in> taken_frames (frames s) - tables s" "inj_on (frame_at s) M"
    "i < 2 ^ 34 \<Longrightarrow> translation s (heap_page i) \<noteq> Large e k"
  using assms unfolding region_ok_def by auto

lemma frames_simps [simp]:
  "walk (s\<lparr>frames := m\<rparr>) t p = walk s t p" "translation (s\<lparr>frames := m\<rparr>) = translation s" "tables (s\<lparr>frames := m\<rparr>) = tables s"
  "frame_at (s\<lparr>frames := m\<rparr>) = frame_at s"
proof -
  have e: "pte (s\<lparr>frames := m\<rparr>) = pte s" by (intro ext) (simp add: pte_def)
  show w: "walk (s\<lparr>frames := m\<rparr>) t p = walk s t p" for t p by (induction p arbitrary: t) (simp_all add: e)
  have "resolve (s\<lparr>frames := m\<rparr>) t p = resolve s t p" for t p by (induction p arbitrary: t) (simp_all add: e)
  then show t: "translation (s\<lparr>frames := m\<rparr>) = translation s" by (intro ext) (simp add: translation_def)
  show "tables (s\<lparr>frames := m\<rparr>) = tables s" by (simp add: tables_def w)
  show "frame_at (s\<lparr>frames := m\<rparr>) = frame_at s" by (intro ext) (simp add: frame_at_def t)
qed

lemma frames_ok:
  assumes "pt_ok s" "memman_inv m" "avail_frames m \<inter> tables s = {}" "\<And>ps. taken_pages s = Some ps \<Longrightarrow> set ps \<subseteq> taken_frames m"
  shows "pt_ok (s\<lparr>frames := m\<rparr>)"
proof -
  have e: "pte (s\<lparr>frames := m\<rparr>) = pte s" by (intro ext) (simp add: pte_def)
  have h: "in_hhdm (s\<lparr>frames := m\<rparr>) = in_hhdm s" by (simp add: in_hhdm_def)
  have "t \<notin> avail_frames m" if "path_ok 3 p" "walk s (PML4 s) p = Some t" for p t
    using that assms(3) by (auto simp: tables_def)
  then show ?thesis
    using pt_okD(2,3,5,6,7,8) [OF assms(1)] assms(2,4) by (intro pt_okI) (simp_all add: e h)
qed

lemma tables_avail: "pt_ok s \<Longrightarrow> avail_frames (frames s) \<inter> tables s = {}"
  using pt_okD(4) [of s] by (auto simp: tables_def)

lemma region_finite:
  assumes "region_ok s M"
  shows "finite M" "card M \<le> MAX_PID"
proof -
  let ?A = "page_addr ` {..< MAX_PID}"
  have inv: "memman_inv (frames s)" by (rule pt_okD(1) [OF region_okD(1) [OF assms]])
  have "frame_at s ` M \<subseteq> Some ` ?A"
  proof
    fix a assume "a \<in> frame_at s ` M"
    then obtain b where "a = Some b" "b \<in> taken_frames (frames s)" using region_okD(5) [OF assms] by fastforce
    then show "a \<in> Some ` ?A" using used_bound [OF inv] by (auto simp: taken_frames_def)
  qed
  moreover have "finite (Some ` ?A)" by simp
  ultimately have "finite (frame_at s ` M)" "card (frame_at s ` M) \<le> card (Some ` ?A)"
    by (meson finite_subset, meson card_mono)
  moreover have "card (Some ` ?A) \<le> MAX_PID"
    by (metis card_image_le card_lessThan finite_imageI finite_lessThan order_trans)
  ultimately show "finite M" "card M \<le> MAX_PID"
    using finite_imageD [OF _ region_okD(6) [OF assms]] card_image [OF region_okD(6) [OF assms]] by simp_all
qed

text \<open>A frame is taken and mapped at a page.\<close>

lemma map_frame:
  assumes ok: "pt_ok s" and v: "v AND 0xFFF = 0" "\<And>e n. translation s v \<noteq> Large e n" and av: "card (avail_frames (frames s)) \<ge> 4 + k"
  obtains p m s' where "get4k (frames s) = Some (p, m)" "p \<noteq> 0" "p \<in> avail_frames (frames s)" "avail_frames m = avail_frames (frames s) - {p}"
    "taken_frames m = insert p (taken_frames (frames s))" "table_of (page_entry (HHDM_V2P p) flags) = p"
    "map_page v (HHDM_V2P p) flags (s\<lparr>frames := m\<rparr>) = Some s'" "pt_ok s'" "grown (s\<lparr>frames := m\<rparr>) s'" "card (avail_frames (frames s')) \<ge> k"
    "\<And>w. translation s' w = (if indices w = indices v then Small (page_entry (HHDM_V2P p) flags) else translation s w)"
proof (cases rule: mm.get_cases [OF pt_okD(1) [OF ok]])
  case (1 m)
  then show ?thesis using av by simp
next
  case (2 p m)
  let ?s = "s\<lparr>frames := m\<rparr>"
  have ok1: "pt_ok ?s"
    by (rule frames_ok [OF ok 2(2)]) (use 2 tables_avail [OF ok] pt_okD(8) [OF ok] in auto)
  have pa: "p AND 0xFFF = 0" "HHDM_P2V (HHDM_V2P p) = p" using mm.frame_address [OF pt_okD(1) [OF ok], of p] 2 by auto
  have al: "HHDM_V2P p AND 0xFFF = 0" using pa(1) by (simp add: low_bits HHDM_V2P_def bit_and_iff)
  have "card (avail_frames (frames ?s)) \<ge> 3 + k" using 2 av by simp
  moreover have "translation ?s v \<noteq> Large e k" for e k using v(2) by simp
  ultimately obtain s' where s': "map_page v (HHDM_V2P p) flags ?s = Some s'" "pt_ok s'" "grown ?s s'"
      "card (avail_frames (frames s')) \<ge> k"
      "\<And>w. translation s' w = (if indices w = indices v then Small (page_entry (HHDM_V2P p) flags) else translation ?s w)"
    using map_step [OF ok1 v(1) al, of k flags] unfolding page_entry_def by metis
  have "HHDM_V2P p AND ADDR_MASK = HHDM_V2P p"
  proof (rule bit_word_eqI)
    fix n
    show "bit (HHDM_V2P p AND ADDR_MASK) n \<longleftrightarrow> bit (HHDM_V2P p) n"
      using pa(1) linorder_not_less [of n 12]
      unfolding low_bits bit_and_iff mask_bits HHDM_V2P_def HHDM_mask by (auto simp: bit_and_iff bit_not_iff bit_mask_iff)
  qed
  then have tf: "table_of (page_entry (HHDM_V2P p) flags) = p" using pa(2) by (simp add: table_of_def page_entry_frame)
  then show ?thesis using that [of p m s'] s' 2 by simp
qed

lemma region_map:
  assumes r: "region_ok s M" and i: "i \<notin> M" "i < 2 ^ 34" and av: "card (avail_frames (frames s)) \<ge> 4 + k"
  obtains p m s' where "get4k (frames s) = Some (p, m)" "p \<noteq> 0" "map_page (heap_page i) (HHDM_V2P p) flags (s\<lparr>frames := m\<rparr>) = Some s'"
    "region_ok s' (insert i M)" "card (avail_frames (frames s')) \<ge> k"
proof -
  note ok = region_okD(1) [OF r]
  let ?v = "heap_page i"
  have nl: "translation s ?v \<noteq> Large e n" for e n by (rule region_okD(7) [OF r i(2)])
  obtain p m s' where 2: "get4k (frames s) = Some (p, m)" "p \<noteq> 0" "p \<in> avail_frames (frames s)" "avail_frames m = avail_frames (frames s) - {p}"
      "taken_frames m = insert p (taken_frames (frames s))" and tf: "table_of (page_entry (HHDM_V2P p) flags) = p"
      and s': "map_page ?v (HHDM_V2P p) flags (s\<lparr>frames := m\<rparr>) = Some s'" "pt_ok s'" "grown (s\<lparr>frames := m\<rparr>) s'" "card (avail_frames (frames s')) \<ge> k"
      "\<And>w. translation s' w = (if indices w = indices ?v then Small (page_entry (HHDM_V2P p) flags) else translation s w)"
    by (rule map_frame [OF ok heap_page_aligned [OF i(2)] nl av, of flags]) blast
  have npf: "p \<notin> taken_frames (frames s)" using 2(3) mm.avail_taken [OF pt_okD(1) [OF ok]] by auto
  have tr: "translation s' (heap_page j) = (if j = i then Small (page_entry (HHDM_V2P p) flags) else translation s (heap_page j))"
    if "j < 2 ^ 34" for j using s'(5) [of "heap_page j"] heap_page_no [OF that i(2)] by (simp add: indices_page_no)
  have fr: "frame_at s' j = (if j = i then Some p else frame_at s j)" if "j < 2 ^ 34" for j
    using tr [OF that] tf by (auto simp: frame_at_def split: mapping.split)
  obtain ns where ns: "taken_pages s' = map_option (\<lambda>ps. ps @ ns) (taken_pages s)"
      "avail_frames m = avail_frames (frames s') \<union> set ns" "taken_frames (frames s') = taken_frames m \<union> set ns"
      "tables s' \<subseteq> tables s \<union> set ns"
    using s'(3) unfolding grown_def by auto
  have dj: "taken_frames (frames s) \<inter> set ns = {}" "p \<notin> set ns"
    using ns(2) 2 mm.avail_taken [OF pt_okD(1) [OF ok]] by auto
  have pt: "p \<notin> tables s'" using ns(4) dj(2) tables_avail [OF ok] 2 by auto
  have old: "a \<in> taken_frames (frames s') - tables s'" if "a \<in> taken_frames (frames s) - tables s" for a
    using that dj(1) ns(3,4) 2 by auto
  have "\<exists>a. frame_at s' j = Some a \<and> a \<in> taken_frames (frames s') - tables s'" if "j \<in> insert i M" for j
  proof (cases "j = i")
    case True
    then show ?thesis using fr [OF i(2)] pt ns(3) 2 by auto
  next
    case False
    then have j: "j \<in> M" using that by simp
    then show ?thesis using region_okD(5) [OF r j] old fr [OF region_okD(4) [OF r j]] False by auto
  qed
  moreover have "inj_on (frame_at s') (insert i M)"
  proof -
    have "frame_at s' j = frame_at s j \<and> frame_at s j \<noteq> Some p" if "j \<in> M" for j
      using that i(1) fr [OF region_okD(4) [OF r that]] region_okD(5) [OF r that] npf by auto
    moreover have "frame_at s' i = Some p" using fr [OF i(2)] by simp
    ultimately show ?thesis using region_okD(6) [OF r] unfolding inj_on_def by (metis insert_iff)
  qed
  moreover have "translation s' (heap_page j) \<noteq> Large e k" if "j < 2 ^ 34" for j e k
    using tr [OF that] region_okD(7) [OF r that] by simp
  moreover have "taken_pages s' = None" using ns(1) region_okD(2) [OF r] by simp
  ultimately have "region_ok s' (insert i M)"
    unfolding region_ok_def using s'(2) region_okD(3) [OF r] i(2) by simp
  then show ?thesis using that 2 s' by blast
qed

lemma region_unmap:
  assumes r: "region_ok s M" and i: "i \<in> M"
  obtains a m s' where "virt2real (heap_page i) s = Some a" "free4k (HHDM_P2V a) (frames s) = Some m"
    "unmap_page (heap_page i) (s\<lparr>frames := m\<rparr>) = Some s'" "region_ok s' (M - {i})"
    "avail_frames (frames s) \<subseteq> avail_frames (frames s')"
proof -
  note ok = region_okD(1) [OF r]
  note i34 = region_okD(4) [OF r i]
  obtain e where e: "translation s (heap_page i) = Small e" "frame_at s i = Some (table_of e)"
      "table_of e \<in> taken_frames (frames s) - tables s"
    using region_okD(5) [OF r i] by (auto simp: frame_at_def split: mapping.splits)
  have v: "virt2real (heap_page i) s = Some (e AND ADDR_MASK)"
    using e(1) heap_page_aligned [OF i34] pt_okD(2) [OF ok] by (simp add: virt2real_translation)
  obtain m where m: "free4k (table_of e) (frames s) = Some m" "memman_inv m"
      "avail_frames m = insert (table_of e) (avail_frames (frames s))" "taken_frames m = taken_frames (frames s) - {table_of e}"
    using mm.free_frame [OF pt_okD(1) [OF ok], of "table_of e"] e(3) by auto
  let ?s = "s\<lparr>frames := m\<rparr>"
  have ok1: "pt_ok ?s"
    by (rule frames_ok [OF ok m(2)]) (use m(3) e(3) tables_avail [OF ok] region_okD(2) [OF r] in auto)
  have e1: "translation ?s (heap_page i) = Small e" using e(1) by simp
  obtain s' where u: "unmap_page (heap_page i) ?s = Some s'" "pt_ok s'" "grown ?s s'" "frames s' = frames ?s" "tables s' = tables ?s"
      "\<And>v. translation s' v = (if indices v = indices (heap_page i) then Absent else translation ?s v)"
    using unmap_step [OF ok1 heap_page_aligned [OF i34] e1] by blast
  note s' = u(1-3) u(4-6) [simplified]
  have tr: "translation s' (heap_page j) = (if j = i then Absent else translation s (heap_page j))" if "j < 2 ^ 34" for j
    using s'(6) [of "heap_page j"] heap_page_no [OF that i34] by (simp add: indices_page_no)
  have fr: "frame_at s' j = frame_at s j" if "j \<in> M - {i}" for j
  proof -
    have "j < 2 ^ 34" "j \<noteq> i" using that region_okD(4) [OF r] by auto
    then show ?thesis using tr [of j] by (simp add: frame_at_def)
  qed
  have ne: "frame_at s j \<noteq> Some (table_of e)" if "j \<in> M - {i}" for j
    using that e(2) inj_onD [OF region_okD(6) [OF r], of j i] i by auto
  have "\<exists>a. frame_at s' j = Some a \<and> a \<in> taken_frames (frames s') - tables s'" if "j \<in> M - {i}" for j
    using region_okD(5) [OF r, of j] that fr [OF that] ne [OF that] m(4) s'(4,5) by auto
  moreover have "inj_on (frame_at s') (M - {i})"
    using inj_on_subset [OF region_okD(6) [OF r], of "M - {i}"] inj_on_cong [of "M - {i}" "frame_at s'" "frame_at s"] fr by blast
  moreover have "translation s' (heap_page j) \<noteq> Large e k" if "j < 2 ^ 34" for j e k
    using tr [OF that] region_okD(7) [OF r that] by simp
  moreover have "taken_pages s' = None" using s'(3) region_okD(2) [OF r] by (auto simp: grown_def)
  ultimately have "region_ok s' (M - {i})"
    unfolding region_ok_def using s'(2) region_okD(3) [OF r] by auto
  moreover have "avail_frames (frames s) \<subseteq> avail_frames (frames s')" using s'(4) m(3) by auto
  ultimately show ?thesis using that [OF v _ s'(1)] m(1) by (simp add: table_of_def)
qed

end
