(* ===== verification/Kernel_Heap.thy ===== *)
theory Kernel_Heap
  imports Kernel_Region
begin

text \<open>
  The heap of the kernel (\<open>arch/x86/kmem.cpp\<close>): \<open>kmalloc\<close>, \<open>kfree\<close> and \<open>krealloc\<close> on blocks
  with headers, the list of free blocks, and the pages that are mapped behind the end
  of the heap and unmapped again.

  Addresses and sizes are natural numbers: \<open>kmalloc\<close> asserts that rounding the size up
  does not wrap around, and the theorems speak of sizes for which there are enough free
  frames.  Headers and data are kept apart: \<open>hdr\<close> holds the headers by the
  address of the block, \<open>dat\<close> the bytes.  The operations change the lists only while they
  hold \<open>kmem_lock\<close> and are modelled one after the other.  A failed assertion and an access through a null pointer are \<open>None\<close>.
\<close>

unbundle bit_operations_syntax

section \<open>State\<close>

definition KERN_HeapMagicFree :: "64 word" where "KERN_HeapMagicFree = 0xDEDEDEDEDEDEDEDE"
definition KERN_HeapMagicTaken :: "64 word" where "KERN_HeapMagicTaken = 0xADADADADADADADAD"
definition HEAP_PAGE_SIZE :: nat where "HEAP_PAGE_SIZE = 4096"

text \<open>The size of a header.\<close>

definition hsize :: nat where "hsize = 32"

record heap_entry =
  he_magic :: "64 word"
  he_next :: nat
  he_prev :: nat
  he_len :: nat

record kheap =
  HeapBegin :: nat
  HeapEnd :: nat
  allocated :: nat
  used :: "64 word"
  hdr :: "nat \<Rightarrow> heap_entry"
  dat :: "nat \<Rightarrow> 8 word"
  kas :: aspace

definition set_magic :: "nat \<Rightarrow> 64 word \<Rightarrow> kheap \<Rightarrow> kheap" where
  "set_magic a v h = h\<lparr>hdr := (hdr h)(a := (hdr h a)\<lparr>he_magic := v\<rparr>)\<rparr>"

definition set_nxt :: "nat \<Rightarrow> nat \<Rightarrow> kheap \<Rightarrow> kheap" where
  "set_nxt a v h = h\<lparr>hdr := (hdr h)(a := (hdr h a)\<lparr>he_next := v\<rparr>)\<rparr>"

definition set_prv :: "nat \<Rightarrow> nat \<Rightarrow> kheap \<Rightarrow> kheap" where
  "set_prv a v h = h\<lparr>hdr := (hdr h)(a := (hdr h a)\<lparr>he_prev := v\<rparr>)\<rparr>"

definition set_len :: "nat \<Rightarrow> nat \<Rightarrow> kheap \<Rightarrow> kheap" where
  "set_len a v h = h\<lparr>hdr := (hdr h)(a := (hdr h a)\<lparr>he_len := v\<rparr>)\<rparr>"

abbreviation "magic h a \<equiv> he_magic (hdr h a)"
abbreviation "nxt h a \<equiv> he_next (hdr h a)"
abbreviation "prv h a \<equiv> he_prev (hdr h a)"
abbreviation "len h a \<equiv> he_len (hdr h a)"

section \<open>Growing\<close>

fun extend_loop :: "nat \<Rightarrow> kheap \<Rightarrow> kheap option" where
  "extend_loop 0 h = Some h"
| "extend_loop (Suc n) h = do {
     (p, m) \<leftarrow> get4k (frames (kas h));
     if p = 0 then None
     else do {
       s \<leftarrow> map_page (word_of_nat (HeapEnd h)) (HHDM_V2P p) (ucast PAGE_RW) ((kas h)\<lparr>frames := m\<rparr>);
       extend_loop n (h\<lparr>kas := s, HeapEnd := HeapEnd h + HEAP_PAGE_SIZE\<rparr>) } }"

definition extend_heap :: "nat \<Rightarrow> kheap \<Rightarrow> kheap option" where
  "extend_heap n_pages h = map_option (\<lambda>h. h\<lparr>allocated := allocated h + n_pages * HEAP_PAGE_SIZE\<rparr>) (extend_loop n_pages h)"

definition init_kern_heap :: "(nat \<Rightarrow> heap_entry) \<Rightarrow> (nat \<Rightarrow> 8 word) \<Rightarrow> aspace \<Rightarrow> kheap option" where
  "init_kern_heap hdr0 dat0 s = do {
     (p, m) \<leftarrow> get4k (frames s);
     if p = 0 then None
     else do {
       s \<leftarrow> map_page (word_of_nat KERN_HeapVirtBegin) (HHDM_V2P p) (ucast PAGE_RW) (s\<lparr>frames := m\<rparr>);
       Some \<lparr>HeapBegin = KERN_HeapVirtBegin, HeapEnd = KERN_HeapVirtBegin + HEAP_PAGE_SIZE, allocated = HEAP_PAGE_SIZE, used = 0,
         hdr = hdr0(KERN_HeapVirtBegin := \<lparr>he_magic = KERN_HeapMagicFree, he_next = 0, he_prev = 0, he_len = HEAP_PAGE_SIZE - hsize\<rparr>),
         dat = dat0, kas = s\<rparr> } }"

section \<open>Allocating\<close>

definition split_entry :: "nat \<Rightarrow> nat \<Rightarrow> kheap \<Rightarrow> (nat \<times> kheap) option" where
  "split_entry what n h =
     (if \<not> (len h what > n + hsize \<and> n \<le> allocated h) then None
      else if \<not> (KERN_HeapVirtBegin \<le> what \<and> what < HeapEnd h) then None
      else
        let new_entry = what + hsize + n in
        if \<not> (KERN_HeapVirtBegin \<le> new_entry \<and> new_entry < HeapEnd h) then None
        else if \<not> len h what \<le> allocated h then None
        else
          let h = set_magic new_entry KERN_HeapMagicFree h;
              h = set_nxt new_entry (nxt h what) h;
              h = set_prv new_entry what h;
              h = set_len new_entry (len h what - n - hsize) h;
              h = set_len what n h;
              h = (if nxt h new_entry \<noteq> 0 then set_prv (nxt h new_entry) new_entry h else h);
              h = set_nxt what new_entry h
          in if len h what \<le> allocated h \<and> len h new_entry \<le> allocated h then Some (new_entry, h) else None)"

text \<open>The two branches of the search that end it.\<close>

definition take_whole :: "nat \<Rightarrow> nat \<Rightarrow> kheap \<Rightarrow> kheap option" where
  "take_whole prev entry h =
     (if prev \<noteq> 0 then
        let h = set_nxt prev (nxt h entry) h
        in Some (if nxt h entry \<noteq> 0 then set_prv (nxt h entry) prev h else h)
      else if nxt h entry \<noteq> 0 then
        let h = h\<lparr>HeapBegin := nxt h entry\<rparr> in Some (set_prv (nxt h entry) 0 h)
      else do {
        let h = h\<lparr>HeapBegin := HeapEnd h\<rparr>;
        h \<leftarrow> extend_heap 1 h;
        let h = set_nxt (HeapBegin h) 0 h;
        let h = set_prv (HeapBegin h) 0 h;
        let h = set_magic (HeapBegin h) KERN_HeapMagicFree h;
        Some (set_len (HeapBegin h) (HEAP_PAGE_SIZE - hsize) h) })"

definition take_part :: "nat \<Rightarrow> nat \<Rightarrow> nat \<Rightarrow> kheap \<Rightarrow> kheap option" where
  "take_part prev entry n h = do {
     (new, h) \<leftarrow> split_entry entry n h;
     let h = (if prev \<noteq> 0 then set_prv new prev (set_nxt prev new h)
              else set_prv new 0 (h\<lparr>HeapBegin := new\<rparr>));
     if prv h new \<noteq> 0 \<and> magic h (prv h new) \<noteq> KERN_HeapMagicFree then None else Some h }"

text \<open>
  The search: \<open>Inl res\<close> with the state when an entry has been taken, \<open>Inr prev\<close> with the last
  entry when none fits.
\<close>

partial_function (option) search :: "nat \<Rightarrow> nat \<Rightarrow> nat \<Rightarrow> kheap \<Rightarrow> ((nat + nat) \<times> kheap) option" where
  "search prev entry n h =
     (if magic h entry \<noteq> KERN_HeapMagicFree then None
      else if prev \<noteq> 0 \<and> \<not> (prv h entry = prev \<and> nxt h prev = entry) then None
      else if len h entry = n then map_option (\<lambda>h. (Inl entry, h)) (take_whole prev entry h)
      else if len h entry > n + hsize then map_option (\<lambda>h. (Inl entry, h)) (take_part prev entry n h)
      else if nxt h entry = 0 then Some (Inr entry, h)
      else search entry (nxt h entry) n h)"

definition take_new :: "nat \<Rightarrow> nat \<Rightarrow> kheap \<Rightarrow> (nat \<times> kheap) option" where
  "take_new entry n h =
     (if magic h entry \<noteq> KERN_HeapMagicFree \<or> nxt h entry \<noteq> 0 then None
      else do {
        let data_needed = n + 2 * hsize;
        let pages_needed = (if data_needed mod 4096 = 0 then data_needed div 4096 else (data_needed div 4096 * 4096 + 4096) div 4096);
        let new_entry = HeapEnd h;
        h \<leftarrow> extend_heap pages_needed h;
        let h = set_nxt new_entry 0 h;
        let h = set_prv new_entry entry h;
        let h = set_magic new_entry KERN_HeapMagicFree h;
        let h = set_len new_entry (pages_needed * HEAP_PAGE_SIZE - hsize) h;
        if len h new_entry < n then None
        else if len h new_entry > n then do {
          (new, h) \<leftarrow> split_entry new_entry n h;
          let h = set_prv new entry (set_nxt entry new h);
          if prv h new \<noteq> 0 \<and> magic h (prv h new) \<noteq> KERN_HeapMagicFree then None else Some (new_entry, h) }
        else Some (new_entry, h) })"

text \<open>\<open>n += 15; n &= ~0xF\<close> with the test for wrap-around.\<close>

definition round_size :: "nat \<Rightarrow> nat option" where
  "round_size n =
     (if n mod 16 \<noteq> 0 then
        let m = (n + 15) mod 2 ^ 64 div 16 * 16 in if m > n then Some m else None
      else Some n)"

fun fill_data :: "nat \<Rightarrow> nat \<Rightarrow> kheap \<Rightarrow> kheap" where
  "fill_data a 0 h = h"
| "fill_data a (Suc n) h = (fill_data a n h)\<lparr>dat := (dat (fill_data a n h))(a + n := 0xFE)\<rparr>"

definition kmalloc :: "nat \<Rightarrow> kheap \<Rightarrow> (nat \<times> kheap) option" where
  "kmalloc n h = do {
     n \<leftarrow> round_size n;
     if magic h (HeapBegin h) \<noteq> KERN_HeapMagicFree then None
     else do {
       (r, h) \<leftarrow> search 0 (HeapBegin h) n h;
       (res, h) \<leftarrow> (case r of Inl res \<Rightarrow> Some (res, h) | Inr prev \<Rightarrow> take_new prev n h);
       let h = set_nxt res 0 h;
       let h = set_prv res 0 h;
       let h = set_magic res KERN_HeapMagicTaken h;
       if (res + hsize) mod 16 \<noteq> 0 then None
       else
         let h = fill_data (res + hsize) n h
         in Some (res + hsize, h\<lparr>used := used h + word_of_nat n\<rparr>) } }"

section \<open>Freeing\<close>

partial_function (option) merge_loop :: "nat \<Rightarrow> nat \<Rightarrow> kheap \<Rightarrow> kheap option" where
  "merge_loop entry nextEntry h =
     (if nextEntry < HeapEnd h \<and> magic h nextEntry = KERN_HeapMagicFree then
        if prv h nextEntry \<noteq> 0 \<and> magic h (prv h nextEntry) \<noteq> KERN_HeapMagicFree then None
        else if nxt h nextEntry \<noteq> 0 \<and> magic h (nxt h nextEntry) \<noteq> KERN_HeapMagicFree then None
        else do {
          h \<leftarrow> (if nextEntry = nxt h entry then
                  if nxt h nextEntry = 0 then None
                  else
                    let h = set_prv (nxt h nextEntry) entry h
                    in Some (set_nxt entry (nxt h nextEntry) h)
                else if prv h nextEntry = 0 \<or> magic h (prv h nextEntry) \<noteq> KERN_HeapMagicFree then None
                else
                  let victimR = nxt h nextEntry in
                  if victimR \<noteq> 0 then
                    if magic h victimR \<noteq> KERN_HeapMagicFree then None
                    else
                      let h = set_prv victimR (prv h nextEntry) h
                      in Some (set_nxt (prv h nextEntry) victimR h)
                  else Some (set_nxt (prv h nextEntry) 0 h));
          let h = set_len entry (len h entry + hsize + len h nextEntry) h;
          merge_loop entry (entry + hsize + len h entry) h }
      else Some h)"

definition try_merge_fwd :: "nat \<Rightarrow> kheap \<Rightarrow> kheap option" where
  "try_merge_fwd entry h =
     (if magic h entry \<noteq> KERN_HeapMagicFree \<or> prv h entry \<noteq> 0 then None
      else merge_loop entry (entry + hsize + len h entry) h)"

fun shrink_loop :: "nat \<Rightarrow> nat \<Rightarrow> kheap \<Rightarrow> kheap option" where
  "shrink_loop i 0 h = Some h"
| "shrink_loop i (Suc n) h = do {
     let v = word_of_nat (HeapEnd h + HEAP_PAGE_SIZE * i);
     r \<leftarrow> virt2real v (kas h);
     m \<leftarrow> free4k (HHDM_P2V r) (frames (kas h));
     s \<leftarrow> unmap_page v ((kas h)\<lparr>frames := m\<rparr>);
     shrink_loop (i + 1) n (h\<lparr>allocated := allocated h - HEAP_PAGE_SIZE, kas := s\<rparr>) }"

definition try_shrink_heap :: "nat \<Rightarrow> kheap \<Rightarrow> (nat \<times> kheap) option" where
  "try_shrink_heap entry h =
     (if prv h entry \<noteq> 0 then None
      else if entry + hsize + len h entry = HeapEnd h then
        if len h entry + hsize < HEAP_PAGE_SIZE * 3 then Some (entry, h)
        else do {
          (entry, ret, h) \<leftarrow>
            (if entry mod 4096 \<noteq> 0 then do {
               let diff = 0x1000 - entry mod 4096;
               let diff = (if diff \<le> hsize then diff + 0x1000 else diff);
               (entry, h) \<leftarrow> split_entry entry (diff - hsize) h;
               let ret = prv h entry;
               let h = set_nxt ret (nxt h entry) h;
               Some (entry, ret, if nxt h entry \<noteq> 0 then set_prv (nxt h entry) ret h else h) }
             else
               let ret = nxt h entry in
               if ret = 0 then None else Some (entry, ret, set_prv ret 0 h));
          if entry mod 4096 \<noteq> 0 then None
          else do {
            let h = h\<lparr>HeapEnd := entry\<rparr>;
            let totallen = len h entry + hsize;
            if totallen mod 4096 \<noteq> 0 then None
            else do {
              h \<leftarrow> shrink_loop 0 (totallen div HEAP_PAGE_SIZE) h;
              Some (ret, h) } } }
      else Some (entry, h))"

definition kfree :: "nat \<Rightarrow> kheap \<Rightarrow> kheap option" where
  "kfree addr h =
     (let freed = addr - hsize;
          h = h\<lparr>used := used h - word_of_nat (len h freed)\<rparr>;
          entry = HeapBegin h
      in if magic h freed \<noteq> KERN_HeapMagicTaken \<or> nxt h freed \<noteq> 0 \<or> prv h freed \<noteq> 0 then None
         else if magic h entry \<noteq> KERN_HeapMagicFree \<or> prv h entry \<noteq> 0 then None
         else do {
           let h = set_nxt freed entry h;
           let h = set_prv entry freed h;
           let h = h\<lparr>HeapBegin := freed\<rparr>;
           let h = set_magic freed KERN_HeapMagicFree h;
           h \<leftarrow> try_merge_fwd freed h;
           if prv h freed \<noteq> 0 then None
           else do {
             (ret, h) \<leftarrow> try_shrink_heap freed h;
             let h = h\<lparr>HeapBegin := ret\<rparr>;
             if ret = 0 \<or> prv h ret \<noteq> 0 then None else Some h } })"

fun copy_data :: "nat \<Rightarrow> nat \<Rightarrow> nat \<Rightarrow> kheap \<Rightarrow> kheap" where
  "copy_data dst src 0 h = h"
| "copy_data dst src (Suc n) h =
     (let h' = copy_data dst src n h in h'\<lparr>dat := (dat h')(dst + n := dat h (src + n))\<rparr>)"

definition krealloc :: "nat \<Rightarrow> nat \<Rightarrow> kheap \<Rightarrow> (nat \<times> kheap) option" where
  "krealloc addr newsize h =
     (if addr = 0 then kmalloc newsize h
      else
        let info = addr - hsize in
        if magic h info \<noteq> KERN_HeapMagicTaken then None
        else do {
          (newt, h) \<leftarrow> kmalloc newsize h;
          let h = copy_data newt addr (if newsize > len h info then len h info else newsize) h;
          h \<leftarrow> kfree addr h;
          Some (newt, h) })"

section \<open>Headers\<close>

lemma set_hdr [simp]:
  "magic (set_magic a v h) b = (if b = a then v else magic h b)" "nxt (set_magic a v h) b = nxt h b"
  "prv (set_magic a v h) b = prv h b" "len (set_magic a v h) b = len h b"
  "magic (set_nxt a w h) b = magic h b" "nxt (set_nxt a w h) b = (if b = a then w else nxt h b)"
  "prv (set_nxt a w h) b = prv h b" "len (set_nxt a w h) b = len h b"
  "magic (set_prv a w h) b = magic h b" "nxt (set_prv a w h) b = nxt h b"
  "prv (set_prv a w h) b = (if b = a then w else prv h b)" "len (set_prv a w h) b = len h b"
  "magic (set_len a w h) b = magic h b" "nxt (set_len a w h) b = nxt h b"
  "prv (set_len a w h) b = prv h b" "len (set_len a w h) b = (if b = a then w else len h b)"
  by (simp_all add: set_magic_def set_nxt_def set_prv_def set_len_def)

lemma set_state [simp]:
  "HeapBegin (set_magic a v h) = HeapBegin h" "HeapEnd (set_magic a v h) = HeapEnd h" "allocated (set_magic a v h) = allocated h"
  "used (set_magic a v h) = used h" "dat (set_magic a v h) = dat h" "kas (set_magic a v h) = kas h"
  "HeapBegin (set_nxt a w h) = HeapBegin h" "HeapEnd (set_nxt a w h) = HeapEnd h" "allocated (set_nxt a w h) = allocated h"
  "used (set_nxt a w h) = used h" "dat (set_nxt a w h) = dat h" "kas (set_nxt a w h) = kas h"
  "HeapBegin (set_prv a w h) = HeapBegin h" "HeapEnd (set_prv a w h) = HeapEnd h" "allocated (set_prv a w h) = allocated h"
  "used (set_prv a w h) = used h" "dat (set_prv a w h) = dat h" "kas (set_prv a w h) = kas h"
  "HeapBegin (set_len a w h) = HeapBegin h" "HeapEnd (set_len a w h) = HeapEnd h" "allocated (set_len a w h) = allocated h"
  "used (set_len a w h) = used h" "dat (set_len a w h) = dat h" "kas (set_len a w h) = kas h"
  by (simp_all add: set_magic_def set_nxt_def set_prv_def set_len_def)

lemma fill_data_state [simp]:
  "HeapBegin (fill_data a n h) = HeapBegin h" "HeapEnd (fill_data a n h) = HeapEnd h" "allocated (fill_data a n h) = allocated h"
  "used (fill_data a n h) = used h" "kas (fill_data a n h) = kas h" "hdr (fill_data a n h) = hdr h"
  by (induction n) simp_all

lemma fill_data_dat: "dat (fill_data a n h) x = (if a \<le> x \<and> x < a + n then 0xFE else dat h x)"
  by (induction n) auto

lemma magic_neq [simp]: "KERN_HeapMagicFree \<noteq> KERN_HeapMagicTaken" "KERN_HeapMagicTaken \<noteq> KERN_HeapMagicFree"
  by (simp_all add: KERN_HeapMagicFree_def KERN_HeapMagicTaken_def)

section \<open>Linked lists\<close>

text \<open>
  A segment of a doubly linked list: \<open>p\<close> comes before it and \<open>n\<close> after it, \<open>N\<close> and \<open>P\<close> are the
  pointers to the next and the previous element.
\<close>

fun seg :: "(nat \<Rightarrow> nat) \<Rightarrow> (nat \<Rightarrow> nat) \<Rightarrow> nat \<Rightarrow> nat list \<Rightarrow> nat \<Rightarrow> bool" where
  "seg N P p [] n = True"
| "seg N P p (x # xs) n \<longleftrightarrow> P x = p \<and> N x = hd (xs @ [n]) \<and> seg N P x xs n"

lemma seg_append: "seg N P p (xs @ ys) n \<longleftrightarrow> seg N P p xs (hd (ys @ [n])) \<and> seg N P (last (p # xs)) ys n"
proof (induction xs arbitrary: p)
  case (Cons x xs)
  then show ?case by (cases xs) auto
qed simp

lemma seg_cong: "seg N P p xs n \<Longrightarrow> (\<And>y. y \<in> set xs \<Longrightarrow> N' y = N y \<and> P' y = P y) \<Longrightarrow> seg N' P' p xs n"
  by (induction xs arbitrary: p) auto

lemma seg_last:
  assumes "seg N P p xs n" "distinct xs" "\<And>y. y \<in> set xs \<Longrightarrow> N' y = (if y = last xs then n' else N y) \<and> P' y = P y"
  shows "seg N' P' p xs n'"
proof (cases xs rule: rev_exhaust)
  case (snoc ys y)
  have "seg N' P' p ys y"
    using assms snoc by (intro seg_cong [of N P p ys y N' P']) (auto simp: seg_append)
  then show ?thesis using assms snoc by (auto simp: seg_append)
qed simp

lemma seg_first:
  assumes "seg N P p xs n" "distinct xs" "\<And>y. y \<in> set xs \<Longrightarrow> P' y = (if y = hd xs then p' else P y) \<and> N' y = N y"
  shows "seg N' P' p' xs n"
proof (cases xs)
  case (Cons y ys)
  have "seg N' P' y ys n" using assms Cons by (intro seg_cong [of N P y ys n N' P']) auto
  then show ?thesis using assms Cons by auto
qed simp

lemma seg_removeI:
  assumes "seg N P p (as @ x # cs) n" "distinct (as @ x # cs)"
    "\<And>y. y \<in> set as \<Longrightarrow> N' y = (if y = last as then hd (cs @ [n]) else N y) \<and> P' y = P y"
    "\<And>y. y \<in> set cs \<Longrightarrow> P' y = (if y = hd cs then last (p # as) else P y) \<and> N' y = N y"
  shows "seg N' P' p (as @ cs) n"
proof -
  have s: "seg N P p as x" "seg N P x cs n" using assms(1) by (auto simp: seg_append)
  have "seg N' P' p as (hd (cs @ [n]))" by (rule seg_last [OF s(1)]) (use assms in auto)
  moreover have "seg N' P' (last (p # as)) cs n" by (rule seg_first [OF s(2)]) (use assms in auto)
  ultimately show ?thesis by (simp add: seg_append)
qed

lemma seg_replaceI:
  assumes "seg N P p (as @ x # cs) n" "distinct (as @ x # cs)"
    "\<And>y. y \<in> set as \<Longrightarrow> N' y = (if y = last as then z else N y) \<and> P' y = P y"
    "\<And>y. y \<in> set cs \<Longrightarrow> P' y = (if y = hd cs then z else P y) \<and> N' y = N y"
    "P' z = last (p # as)" "N' z = hd (cs @ [n])"
  shows "seg N' P' p (as @ z # cs) n"
proof -
  have s: "seg N P p as x" "seg N P x cs n" using assms(1) by (auto simp: seg_append)
  have "seg N' P' p as z" by (rule seg_last [OF s(1)]) (use assms in auto)
  moreover have "seg N' P' z cs n" by (rule seg_first [OF s(2)]) (use assms in auto)
  ultimately show ?thesis using assms(5,6) by (simp add: seg_append)
qed

lemma seg_snocI:
  assumes "seg N P p xs n" "distinct xs" "\<And>y. y \<in> set xs \<Longrightarrow> N' y = (if y = last xs then z else N y) \<and> P' y = P y"
    "P' z = last (p # xs)" "N' z = n'"
  shows "seg N' P' p (xs @ [z]) n'"
  using seg_last [OF assms(1-3)] assms(4,5) by (simp add: seg_append)

section \<open>Blocks\<close>

fun tiled :: "kheap \<Rightarrow> nat \<Rightarrow> nat list \<Rightarrow> nat \<Rightarrow> bool" where
  "tiled h a [] e \<longleftrightarrow> a = e"
| "tiled h a (x # xs) e \<longleftrightarrow> x = a \<and> len h x mod 16 = 0 \<and> (magic h x = KERN_HeapMagicFree \<or> magic h x = KERN_HeapMagicTaken) \<and>
     tiled h (a + hsize + len h x) xs e"

lemma tiled_append: "tiled h a (xs @ ys) e \<longleftrightarrow> (\<exists>m. tiled h a xs m \<and> tiled h m ys e)"
  by (induction xs arbitrary: a) auto

lemma tiled_cong: "tiled h a xs e \<Longrightarrow> (\<And>x. x \<in> set xs \<Longrightarrow> len h' x = len h x \<and>
    (magic h' x = magic h x \<or> magic h' x = KERN_HeapMagicFree \<or> magic h' x = KERN_HeapMagicTaken)) \<Longrightarrow> tiled h' a xs e"
proof (induction xs arbitrary: a)
  case (Cons x xs)
  have "tiled h' (a + hsize + len h x) xs e" using Cons by auto
  moreover have "len h' x = len h x"
    "magic h' x = magic h x \<or> magic h' x = KERN_HeapMagicFree \<or> magic h' x = KERN_HeapMagicTaken"
    using Cons.prems(2) [of x] by simp_all
  ultimately show ?case using Cons.prems(1) by auto
qed simp

lemma tiled_le: "tiled h a xs e \<Longrightarrow> a \<le> e"
  by (induction xs arbitrary: a) fastforce+

lemma tiled_bound: "tiled h a xs e \<Longrightarrow> x \<in> set xs \<Longrightarrow> a \<le> x \<and> x + hsize + len h x \<le> e"
proof (induction xs arbitrary: a)
  case (Cons y ys)
  have le: "a + hsize + len h y \<le> e" using Cons.prems(1) tiled_le by auto
  show ?case
  proof (cases "x = y")
    case True
    then show ?thesis using Cons.prems le by simp
  next
    case False
    then have "a + hsize + len h y \<le> x \<and> x + hsize + len h x \<le> e"
      using Cons.IH [of "a + hsize + len h y"] Cons.prems by auto
    then show ?thesis by linarith
  qed
qed simp

lemma tiled_order: "tiled h a xs e \<Longrightarrow> sorted_wrt (\<lambda>x y. x + hsize + len h x \<le> y) xs"
proof (induction xs arbitrary: a)
  case (Cons y ys)
  then show ?case using tiled_bound [of h "a + hsize + len h y" ys e] by auto
qed simp

lemma hsize_pos [simp]: "0 < hsize" by (simp add: hsize_def)

lemma tiled_distinct: "tiled h a xs e \<Longrightarrow> distinct xs"
proof -
  assume "tiled h a xs e"
  from tiled_order [OF this] have "sorted_wrt (<) xs"
    by (rule sorted_wrt_mono_rel [rotated]) (simp add: hsize_def)
  then show ?thesis by (simp add: strict_sorted_iff)
qed

lemma tiled_apart:
  assumes "tiled h a xs e" "x \<in> set xs" "y \<in> set xs" "x \<noteq> y"
  shows "x + hsize + len h x \<le> y \<or> y + hsize + len h y \<le> x"
proof -
  obtain i j where "i < length xs" "xs ! i = x" "j < length xs" "xs ! j = y" using assms by (metis in_set_conv_nth)
  then show ?thesis using sorted_wrt_nth_less [OF tiled_order [OF assms(1)]] assms(4) by (metis linorder_neqE_nat)
qed

lemma tiled_mod: "tiled h a xs e \<Longrightarrow> x \<in> set xs \<Longrightarrow> a mod 16 = 0 \<Longrightarrow> x mod 16 = 0"
proof (induction xs arbitrary: a)
  case (Cons y ys)
  have "(a + hsize + len h y) mod 16 = 0" if "len h y mod 16 = 0"
    using that Cons.prems(3) by (simp add: hsize_def mod_eq_0_iff_dvd)
  then show ?case using Cons by auto
qed simp

function blocks :: "kheap \<Rightarrow> nat \<Rightarrow> nat list" where
  "blocks h a = (if a < HeapEnd h then a # blocks h (a + hsize + len h a) else [])"
  by auto
termination by (relation "measure (\<lambda>(h, a). HeapEnd h - a)") (auto simp: hsize_def)

declare blocks.simps [simp del]

lemma tiled_blocks: "tiled h a xs (HeapEnd h) \<Longrightarrow> blocks h a = xs"
proof (induction xs arbitrary: a)
  case Nil
  then show ?case by (simp add: blocks.simps)
next
  case (Cons x xs)
  have "a + hsize + len h x \<le> HeapEnd h" using Cons.prems tiled_bound [of h a "x # xs" "HeapEnd h" x] by auto
  then have "a < HeapEnd h" using hsize_pos by linarith
  then show ?case using Cons by (subst blocks.simps) auto
qed

section \<open>The invariant\<close>

text \<open>
  The blocks \<open>bs\<close> tile the heap, \<open>fl\<close> is the list of the free ones, not empty, from \<open>HeapBegin\<close>.
\<close>

definition heap_rep :: "kheap \<Rightarrow> nat list \<Rightarrow> nat list \<Rightarrow> bool" where
  "heap_rep h bs fl \<longleftrightarrow> tiled h KERN_HeapVirtBegin bs (HeapEnd h) \<and> seg (nxt h) (prv h) 0 fl 0 \<and> distinct fl \<and>
     set fl = {x \<in> set bs. magic h x = KERN_HeapMagicFree} \<and> fl \<noteq> [] \<and> hd fl = HeapBegin h \<and>
     (\<forall>x \<in> set bs. magic h x = KERN_HeapMagicTaken \<longrightarrow> nxt h x = 0 \<and> prv h x = 0) \<and>
     HeapEnd h mod 4096 = 0 \<and> allocated h = HeapEnd h - KERN_HeapVirtBegin"

lemma heap_repD:
  assumes "heap_rep h bs fl"
  shows "tiled h KERN_HeapVirtBegin bs (HeapEnd h)" "seg (nxt h) (prv h) 0 fl 0" "distinct fl"
    "x \<in> set fl \<longleftrightarrow> x \<in> set bs \<and> magic h x = KERN_HeapMagicFree" "fl \<noteq> []" "hd fl = HeapBegin h"
    "x \<in> set bs \<Longrightarrow> magic h x = KERN_HeapMagicTaken \<Longrightarrow> nxt h x = 0 \<and> prv h x = 0"
    "HeapEnd h mod 4096 = 0" "allocated h = HeapEnd h - KERN_HeapVirtBegin"
  using assms unfolding heap_rep_def by auto

lemma heap_block:
  assumes "heap_rep h bs fl" "x \<in> set bs"
  shows "x \<noteq> 0" "KERN_HeapVirtBegin \<le> x" "x + hsize + len h x \<le> HeapEnd h" "x mod 16 = 0" "len h x mod 16 = 0"
    "magic h x = KERN_HeapMagicFree \<or> magic h x = KERN_HeapMagicTaken"
proof -
  note t = heap_repD(1) [OF assms(1)]
  show b: "KERN_HeapVirtBegin \<le> x" "x + hsize + len h x \<le> HeapEnd h" using tiled_bound [OF t assms(2)] by auto
  then show "x \<noteq> 0" by (simp add: KERN_HeapVirtBegin_def)
  show "x mod 16 = 0" by (rule tiled_mod [OF t assms(2)]) (simp add: KERN_HeapVirtBegin_def)
  obtain as cs where "bs = as @ x # cs" using assms(2) by (meson split_list)
  then show "len h x mod 16 = 0" "magic h x = KERN_HeapMagicFree \<or> magic h x = KERN_HeapMagicTaken"
    using t by (auto simp: tiled_append)
qed

lemma heap_rep_cong:
  assumes "hdr h' = hdr h" "HeapEnd h' = HeapEnd h" "HeapBegin h' = HeapBegin h" "allocated h' = allocated h"
  shows "heap_rep h' bs fl = heap_rep h bs fl"
proof -
  have "tiled h' a xs e = tiled h a xs e" for a xs e by (induction xs arbitrary: a) (simp_all add: assms(1))
  then show ?thesis by (simp add: heap_rep_def assms)
qed

section \<open>Growing the heap\<close>

definition pages_ok :: "kheap \<Rightarrow> bool" where
  "pages_ok h \<longleftrightarrow> (\<exists>n. HeapEnd h = KERN_HeapVirtBegin + 4096 * n \<and> region_ok (kas h) {..< n})"

definition room :: "kheap \<Rightarrow> nat" where
  "room h = card (avail_frames (frames (kas h))) div 4"

lemma extend_loop_ok:
  assumes "HeapEnd h = KERN_HeapVirtBegin + 4096 * n" "region_ok (kas h) {..< n}" "card (avail_frames (frames (kas h))) \<ge> 4 * k"
  obtains s where "extend_loop k h = Some (h\<lparr>kas := s, HeapEnd := HeapEnd h + 4096 * k\<rparr>)" "region_ok s {..< n + k}"
  using assms
proof (induction k arbitrary: h n thesis)
  case 0
  then show ?case using "0.prems"(1) [of "kas h"] by simp
next
  case (Suc k)
  have "n \<le> MAX_PID" using region_finite(2) [OF Suc.prems(3)] by simp
  then have n: "n < 2 ^ 34" "n \<notin> {..< n}" by (simp_all add: MAX_PID_def)
  have av: "card (avail_frames (frames (kas h))) \<ge> 4 + 4 * k" using Suc.prems(4) by simp
  obtain p m s where s: "get4k (frames (kas h)) = Some (p, m)" "p \<noteq> 0"
      "map_page (heap_page n) (HHDM_V2P p) (ucast PAGE_RW) ((kas h)\<lparr>frames := m\<rparr>) = Some s"
      "region_ok s (insert n {..< n})" "card (avail_frames (frames s)) \<ge> 4 * k"
    using region_map [OF Suc.prems(3) n(2,1) av] by blast
  define h1 where "h1 = h\<lparr>kas := s, HeapEnd := HeapEnd h + 4096\<rparr>"
  have "region_ok (kas h1) {..< Suc n}" using s(4) by (simp add: h1_def lessThan_Suc)
  moreover have "HeapEnd h1 = KERN_HeapVirtBegin + 4096 * Suc n" using Suc.prems(2) by (simp add: h1_def)
  moreover have "card (avail_frames (frames (kas h1))) \<ge> 4 * k" using s(5) by (simp add: h1_def)
  ultimately obtain s' where s': "extend_loop k h1 = Some (h1\<lparr>kas := s', HeapEnd := HeapEnd h1 + 4096 * k\<rparr>)" "region_ok s' {..< Suc n + k}"
    using Suc.IH by blast
  have "extend_loop (Suc k) h = extend_loop k h1"
    using s(1-3) Suc.prems(2) by (simp add: h1_def HEAP_PAGE_SIZE_def heap_page_def)
  then show ?case using Suc.prems(1) [of s'] s' by (simp add: h1_def)
qed

lemma extend_heap_ok:
  assumes "pages_ok h" "room h \<ge> k"
  obtains h' where "extend_heap k h = Some h'" "pages_ok h'" "HeapEnd h' = HeapEnd h + 4096 * k" "allocated h' = allocated h + 4096 * k"
    "hdr h' = hdr h" "dat h' = dat h" "HeapBegin h' = HeapBegin h" "used h' = used h"
proof -
  obtain n where n: "HeapEnd h = KERN_HeapVirtBegin + 4096 * n" "region_ok (kas h) {..< n}" using assms(1) by (auto simp: pages_ok_def)
  have "card (avail_frames (frames (kas h))) \<ge> 4 * k" using assms(2) by (simp add: room_def)
  then obtain s where s: "extend_loop k h = Some (h\<lparr>kas := s, HeapEnd := HeapEnd h + 4096 * k\<rparr>)" "region_ok s {..< n + k}"
    using extend_loop_ok [OF n] by blast
  let ?h = "h\<lparr>kas := s, HeapEnd := HeapEnd h + 4096 * k, allocated := allocated h + 4096 * k\<rparr>"
  have "extend_heap k h = Some ?h" using s(1) by (cases h) (simp add: extend_heap_def HEAP_PAGE_SIZE_def)
  moreover have "pages_ok ?h" unfolding pages_ok_def using s(2) n(1) by (intro exI [of _ "n + k"]) simp
  ultimately show ?thesis using that by simp
qed

lemma pages_ok_cong: "HeapEnd h' = HeapEnd h \<Longrightarrow> kas h' = kas h \<Longrightarrow> pages_ok h' = pages_ok h"
  by (simp add: pages_ok_def)

lemma pages_ok_simps [simp]:
  "pages_ok (set_magic a v h) = pages_ok h" "pages_ok (set_nxt a w h) = pages_ok h" "pages_ok (set_prv a w h) = pages_ok h"
  "pages_ok (set_len a w h) = pages_ok h" "pages_ok (h\<lparr>HeapBegin := b\<rparr>) = pages_ok h" "pages_ok (h\<lparr>used := u\<rparr>) = pages_ok h"
  "pages_ok (fill_data a n h) = pages_ok h"
  by (simp_all add: pages_ok_def)

section \<open>The search\<close>

definition fits :: "nat \<Rightarrow> kheap \<Rightarrow> nat \<Rightarrow> bool" where
  "fits n h x \<longleftrightarrow> len h x = n \<or> len h x > n + hsize"

lemma search_fit:
  assumes "seg (nxt h) (prv h) p (as @ x # cs) 0" "p \<noteq> 0 \<longrightarrow> nxt h p = hd (as @ [x])"
    "\<And>y. y \<in> set (as @ x # cs) \<Longrightarrow> y \<noteq> 0 \<and> magic h y = KERN_HeapMagicFree"
    "\<And>y. y \<in> set as \<Longrightarrow> \<not> fits n h y" "fits n h x"
  shows "search p (hd (as @ [x])) n h = map_option (\<lambda>h. (Inl x, h))
    (if len h x = n then take_whole (last (p # as)) x h else take_part (last (p # as)) x n h)"
  using assms
proof (induction as arbitrary: p)
  case Nil
  then show ?case by (subst search.simps) (auto simp: fits_def)
next
  case (Cons a as)
  have s: "prv h a = p" "nxt h a = hd (as @ [x])" "seg (nxt h) (prv h) a (as @ x # cs) 0"
    using Cons.prems(1) by (auto simp: append_eq_Cons_conv) (cases as; auto)+
  have "hd (as @ [x]) \<noteq> 0" using Cons.prems(3) by (cases as) auto
  then have "search p a n h = search a (hd (as @ [x])) n h"
    using Cons.prems(2,3,4) s by (subst search.simps) (auto simp: fits_def)
  moreover have "search a (hd (as @ [x])) n h = map_option (\<lambda>h. (Inl x, h))
    (if len h x = n then take_whole (last (a # as)) x h else take_part (last (a # as)) x n h)"
    by (rule Cons.IH [OF s(3)]) (use Cons.prems s in auto)
  ultimately show ?case by simp
qed

lemma search_none:
  assumes "seg (nxt h) (prv h) p xs 0" "xs \<noteq> []" "p \<noteq> 0 \<longrightarrow> nxt h p = hd xs"
    "\<And>y. y \<in> set xs \<Longrightarrow> y \<noteq> 0 \<and> magic h y = KERN_HeapMagicFree \<and> \<not> fits n h y"
  shows "search p (hd xs) n h = Some (Inr (last xs), h)"
  using assms
proof (induction xs arbitrary: p)
  case (Cons a as)
  show ?case
  proof (cases as)
    case Nil
    then show ?thesis using Cons.prems by (subst search.simps) (auto simp: fits_def)
  next
    case c: (Cons b bs)
    have "b \<noteq> 0" using Cons.prems(4) [of b] c by simp
    moreover have "prv h a = p" "nxt h a = b" "magic h a = KERN_HeapMagicFree" "\<not> fits n h a" "p \<noteq> 0 \<longrightarrow> nxt h p = a"
      using Cons.prems(1,3) Cons.prems(4) [of a] c by simp_all
    ultimately have "search p a n h = search a b n h"
      by (subst search.simps) (auto simp: fits_def)
    moreover have "search a (hd as) n h = Some (Inr (last as), h)"
      by (rule Cons.IH) (use Cons.prems c in auto)
    ultimately show ?thesis using c by simp
  qed
qed simp

section \<open>Taking a block out of the free list\<close>

lemma heap_repI:
  assumes "tiled h KERN_HeapVirtBegin bs (HeapEnd h)" "seg (nxt h) (prv h) 0 fl 0" "distinct fl"
    "\<And>x. x \<in> set fl \<longleftrightarrow> x \<in> set bs \<and> magic h x = KERN_HeapMagicFree" "fl \<noteq> []" "hd fl = HeapBegin h"
    "\<And>x. x \<in> set bs \<Longrightarrow> magic h x = KERN_HeapMagicTaken \<Longrightarrow> nxt h x = 0 \<and> prv h x = 0"
    "HeapEnd h mod 4096 = 0" "allocated h = HeapEnd h - KERN_HeapVirtBegin"
  shows "heap_rep h bs fl"
  using assms unfolding heap_rep_def by auto

lemma free_in_blocks: "heap_rep h bs fl \<Longrightarrow> x \<in> set fl \<Longrightarrow> x \<in> set bs"
  by (simp add: heap_repD(4))

lemma inner_not_block:
  assumes "tiled h a xs e" "x \<in> set xs" "x < z" "z < x + hsize + len h x"
  shows "z \<notin> set xs"
  using tiled_apart [OF assms(1,2), of z] assms(3,4) by (auto simp: hsize_def)

lemma rep_take:
  assumes rep: "heap_rep h bs (as @ x # cs)" and ne: "as @ cs \<noteq> []"
    and same: "HeapEnd h' = HeapEnd h" "allocated h' = allocated h" "HeapBegin h' = hd (as @ cs)"
    and m: "\<And>y. magic h' y = (if y = x then KERN_HeapMagicTaken else magic h y)" and l: "\<And>y. len h' y = len h y"
    and nx: "\<And>y. y \<noteq> x \<Longrightarrow> nxt h' y = (if as \<noteq> [] \<and> y = last as then hd (cs @ [0]) else nxt h y)"
    and pv: "\<And>y. y \<noteq> x \<Longrightarrow> prv h' y = (if cs \<noteq> [] \<and> y = hd cs then last (0 # as) else prv h y)"
    and x: "nxt h' x = 0" "prv h' x = 0"
  shows "heap_rep h' bs (as @ cs)"
proof (rule heap_repI)
  note d = heap_repD(3) [OF rep]
  have free: "y \<in> set as \<or> y = x \<or> y \<in> set cs \<longleftrightarrow> y \<in> set bs \<and> magic h y = KERN_HeapMagicFree" for y
    using heap_repD(4) [OF rep, of y] by auto
  show "tiled h' KERN_HeapVirtBegin bs (HeapEnd h')"
    unfolding same(1) by (rule tiled_cong [OF heap_repD(1) [OF rep]]) (auto simp: l m)
  have na: "nxt h' y = (if y = last as then hd (cs @ [0]) else nxt h y) \<and> prv h' y = prv h y" if "y \<in> set as" for y
  proof -
    have "y \<noteq> x" "as \<noteq> []" "\<not> (cs \<noteq> [] \<and> y = hd cs)" using that d by (auto dest: hd_in_set)
    then show ?thesis using nx [of y] pv [of y] by auto
  qed
  have nc: "prv h' y = (if y = hd cs then last (0 # as) else prv h y) \<and> nxt h' y = nxt h y" if "y \<in> set cs" for y
  proof -
    have "y \<noteq> x" "cs \<noteq> []" "\<not> (as \<noteq> [] \<and> y = last as)" using that d by (auto dest: last_in_set)
    then show ?thesis using nx [of y] pv [of y] by auto
  qed
  show "seg (nxt h') (prv h') 0 (as @ cs) 0"
    by (rule seg_removeI [OF heap_repD(2) [OF rep] d na nc])
  show "y \<in> set (as @ cs) \<longleftrightarrow> y \<in> set bs \<and> magic h' y = KERN_HeapMagicFree" for y
    using free [of y] d by (auto simp: m)
  show "nxt h' y = 0 \<and> prv h' y = 0" if y: "y \<in> set bs" "magic h' y = KERN_HeapMagicTaken" for y
  proof (cases "y = x")
    case False
    then have t: "magic h y = KERN_HeapMagicTaken" using y m by simp
    then have "y \<notin> set as" "y \<notin> set cs" using free [of y] by auto
    then show ?thesis using False nx [OF False] pv [OF False] heap_repD(7) [OF rep y(1) t] by auto
  qed (simp add: x)
qed (use heap_repD(3,8,9) [OF rep] ne same in auto)

text \<open>The rest \<open>z\<close> of a block \<open>x\<close> that has been split takes its place in the list.\<close>

lemma tiled_split:
  assumes t: "tiled h a (bp @ x # bq) e" and n: "n mod 16 = 0" "len h x > n + hsize" and z: "z = x + hsize + n"
    and l: "\<And>y. len h' y = (if y = x then n else if y = z then len h x - n - hsize else len h y)"
    and m: "magic h' x = KERN_HeapMagicTaken \<or> magic h' x = KERN_HeapMagicFree" "magic h' z = KERN_HeapMagicFree"
      "\<And>y. y \<noteq> x \<Longrightarrow> y \<noteq> z \<Longrightarrow> magic h' y = magic h y"
  shows "tiled h' a (bp @ x # z # bq) e" "z \<notin> set (bp @ x # bq)"
proof -
  show nz: "z \<notin> set (bp @ x # bq)" by (rule inner_not_block [OF t, of x]) (use n z in \<open>auto simp: hsize_def\<close>)
  have d: "distinct (bp @ x # bq)" by (rule tiled_distinct [OF t])
  have s: "tiled h a bp x" "len h x mod 16 = 0" "tiled h (x + hsize + len h x) bq e" using t by (auto simp: tiled_append)
  have "tiled h' a bp x" by (rule tiled_cong [OF s(1)]) (use d nz l m in auto)
  moreover have "tiled h' (x + hsize + len h x) bq e" by (rule tiled_cong [OF s(3)]) (use d nz l m in auto)
  moreover have "(len h x - n - hsize) mod 16 = 0" using s(2) n(1) by (auto simp: hsize_def mod_eq_0_iff_dvd intro!: dvd_diff_nat)
  moreover have "x \<noteq> z" using z hsize_pos by simp
  moreover have "z + hsize + (len h x - n - hsize) = x + hsize + len h x" using n(2) z by simp
  with \<open>tiled h' (x + hsize + len h x) bq e\<close> have "tiled h' (z + hsize + (len h x - n - hsize)) bq e" by (simp only:)
  ultimately have "tiled h' z (z # bq) e" using m(2) by (simp add: l)
  moreover have "tiled h' x [x] z" using n(1) z m(1) by (auto simp: l)
  ultimately show "tiled h' a (bp @ x # z # bq) e" using \<open>tiled h' a bp x\<close> unfolding tiled_append
    by (intro exI [of _ x]) auto
qed

lemma rep_split:
  assumes rep: "heap_rep h (bp @ x # bq) (as @ x # cs)" and n: "n mod 16 = 0" "len h x > n + hsize" and z: "z = x + hsize + n"
    and same: "HeapEnd h' = HeapEnd h" "allocated h' = allocated h" "HeapBegin h' = hd (as @ [z])"
    and m: "\<And>y. magic h' y = (if y = x then KERN_HeapMagicTaken else if y = z then KERN_HeapMagicFree else magic h y)"
    and l: "\<And>y. len h' y = (if y = x then n else if y = z then len h x - n - hsize else len h y)"
    and nx: "\<And>y. y \<noteq> x \<Longrightarrow> y \<noteq> z \<Longrightarrow> nxt h' y = (if as \<noteq> [] \<and> y = last as then z else nxt h y)"
    and pv: "\<And>y. y \<noteq> x \<Longrightarrow> y \<noteq> z \<Longrightarrow> prv h' y = (if cs \<noteq> [] \<and> y = hd cs then z else prv h y)"
    and x: "nxt h' x = 0" "prv h' x = 0" and nz: "nxt h' z = hd (cs @ [0])" "prv h' z = last (0 # as)"
  shows "heap_rep h' (bp @ x # z # bq) (as @ z # cs)"
proof (rule heap_repI)
  note d = heap_repD(3) [OF rep]
  have xz: "x \<noteq> z" using z hsize_pos by simp
  have ts: "tiled h' KERN_HeapVirtBegin (bp @ x # z # bq) (HeapEnd h)" "z \<notin> set (bp @ x # bq)"
    using tiled_split [OF heap_repD(1) [OF rep] n z l] m xz by auto
  then show "tiled h' KERN_HeapVirtBegin (bp @ x # z # bq) (HeapEnd h')" using same by simp
  have free: "y \<in> set as \<or> y = x \<or> y \<in> set cs \<longleftrightarrow> y \<in> set (bp @ x # bq) \<and> magic h y = KERN_HeapMagicFree" for y
    using heap_repD(4) [OF rep, of y] by auto
  have zf: "z \<notin> set as" "z \<notin> set cs" using free [of z] ts(2) by auto
  have na: "nxt h' y = (if y = last as then z else nxt h y) \<and> prv h' y = prv h y" if "y \<in> set as" for y
  proof -
    have "y \<noteq> x" "y \<noteq> z" "as \<noteq> []" "\<not> (cs \<noteq> [] \<and> y = hd cs)" using that d zf by (auto dest: hd_in_set)
    then show ?thesis using nx [of y] pv [of y] by auto
  qed
  have nc: "prv h' y = (if y = hd cs then z else prv h y) \<and> nxt h' y = nxt h y" if "y \<in> set cs" for y
  proof -
    have "y \<noteq> x" "y \<noteq> z" "cs \<noteq> []" "\<not> (as \<noteq> [] \<and> y = last as)" using that d zf by (auto dest: last_in_set)
    then show ?thesis using nx [of y] pv [of y] by auto
  qed
  show "seg (nxt h') (prv h') 0 (as @ z # cs) 0"
    by (rule seg_replaceI [OF heap_repD(2) [OF rep] d na nc nz(2,1)])
  show "distinct (as @ z # cs)" using d zf by auto
  show "y \<in> set (as @ z # cs) \<longleftrightarrow> y \<in> set (bp @ x # z # bq) \<and> magic h' y = KERN_HeapMagicFree" for y
    using free [of y] d ts(2) xz by (auto simp: m)
  show "nxt h' y = 0 \<and> prv h' y = 0" if y: "y \<in> set (bp @ x # z # bq)" "magic h' y = KERN_HeapMagicTaken" for y
  proof (cases "y = x")
    case False
    then have yz: "y \<noteq> z" "y \<in> set (bp @ x # bq)" using y m by (auto split: if_splits)
    then have t: "magic h y = KERN_HeapMagicTaken" using y m False by simp
    then have "y \<notin> set as" "y \<notin> set cs" using free [of y] by auto
    then show ?thesis using nx [OF False yz(1)] pv [OF False yz(1)] heap_repD(7) [OF rep yz(2) t] by auto
  qed (simp add: x)
qed (use heap_repD(3,8,9) [OF rep] same in \<open>auto simp: hd_append\<close>)

section \<open>The abstract heap\<close>

text \<open>What is allocated: the sizes of the blocks by the address of their data.\<close>

definition alloc :: "kheap \<Rightarrow> nat \<Rightarrow> nat option" where
  "alloc h a =
     (if hsize \<le> a \<and> a - hsize \<in> set (blocks h KERN_HeapVirtBegin) \<and> magic h (a - hsize) = KERN_HeapMagicTaken
      then Some (len h (a - hsize)) else None)"

definition heap_ok :: "kheap \<Rightarrow> bool" where
  "heap_ok h \<longleftrightarrow> (\<exists>bs fl. heap_rep h bs fl) \<and> pages_ok h"

lemma alloc_rep:
  "heap_rep h bs fl \<Longrightarrow> alloc h a = (if hsize \<le> a \<and> a - hsize \<in> set bs \<and> magic h (a - hsize) = KERN_HeapMagicTaken
     then Some (len h (a - hsize)) else None)"
  by (simp add: alloc_def tiled_blocks [OF heap_repD(1)])

lemma alloc_upd:
  assumes "heap_rep h bs fl" "heap_rep h' bs' fl'" "x \<in> set bs'" "magic h' x = KERN_HeapMagicTaken" "len h' x = n"
    "\<And>y. y \<noteq> x \<Longrightarrow> y \<in> set bs' \<and> magic h' y = KERN_HeapMagicTaken \<longleftrightarrow> y \<in> set bs \<and> magic h y = KERN_HeapMagicTaken"
    "\<And>y. y \<noteq> x \<Longrightarrow> y \<in> set bs \<Longrightarrow> magic h y = KERN_HeapMagicTaken \<Longrightarrow> len h' y = len h y"
  shows "alloc h' = (alloc h)(x + hsize \<mapsto> n)"
proof
  fix a
  show "alloc h' a = ((alloc h)(x + hsize \<mapsto> n)) a"
  proof (cases "a = x + hsize")
    case True
    then show ?thesis using assms(3-5) by (simp add: alloc_rep [OF assms(2)])
  next
    case False
    show ?thesis
    proof (cases "hsize \<le> a")
      case True
      then have "a - hsize \<noteq> x" using False by auto
      then show ?thesis using False True assms(6,7) [of "a - hsize"] by (auto simp: alloc_rep [OF assms(1)] alloc_rep [OF assms(2)])
    qed (use False in \<open>simp add: alloc_def\<close>)
  qed
qed

definition mark_taken :: "nat \<Rightarrow> kheap \<Rightarrow> kheap" where
  "mark_taken x h = set_magic x KERN_HeapMagicTaken (set_prv x 0 (set_nxt x 0 h))"

lemma mark_taken_simps [simp]:
  "magic (mark_taken x h) y = (if y = x then KERN_HeapMagicTaken else magic h y)"
  "nxt (mark_taken x h) y = (if y = x then 0 else nxt h y)" "prv (mark_taken x h) y = (if y = x then 0 else prv h y)"
  "len (mark_taken x h) y = len h y" "HeapBegin (mark_taken x h) = HeapBegin h" "HeapEnd (mark_taken x h) = HeapEnd h"
  "allocated (mark_taken x h) = allocated h" "used (mark_taken x h) = used h" "dat (mark_taken x h) = dat h"
  "pages_ok (mark_taken x h) = pages_ok h" "kas (mark_taken x h) = kas h"
  by (simp_all add: mark_taken_def)

text \<open>The block \<open>x\<close> of size \<open>n\<close> has been allocated.\<close>

definition allocates :: "kheap \<Rightarrow> nat \<Rightarrow> nat \<Rightarrow> kheap \<Rightarrow> bool" where
  "allocates h x n h' \<longleftrightarrow> heap_ok h' \<and> alloc h' = (alloc h)(x + hsize \<mapsto> n) \<and> alloc h (x + hsize) = None \<and>
     dat h' = dat h \<and> used h' = used h"

lemma last_first: "last (0 # as) = (if as = [] then 0 else last as)" by simp

lemma seg_mid:
  assumes "seg N P p (as @ x # cs) n"
  shows "N x = hd (cs @ [n])" "P x = last (p # as)"
  using assms by (auto simp: seg_append)

lemma take_whole_ok:
  assumes rep: "heap_rep h bs (as @ x # cs)" and pg: "pages_ok h" and ne: "as @ cs \<noteq> []"
  obtains h' where "take_whole (last (0 # as)) x h = Some h'" "allocates h x (len h x) (mark_taken x h')"
proof -
  note d = heap_repD(3) [OF rep]
  have nz: "y \<noteq> 0" if "y \<in> set (as @ x # cs)" for y using heap_block(1) [OF rep] heap_repD(4) [OF rep] that by blast
  have x: "x \<in> set bs" "magic h x = KERN_HeapMagicFree" using heap_repD(4) [OF rep, of x] by auto
  note n = seg_mid [OF heap_repD(2) [OF rep]]
  have ls: "as \<noteq> [] \<Longrightarrow> last as \<in> set as \<and> last as \<noteq> 0 \<and> last as \<noteq> x" using d nz by auto
  have hc: "cs \<noteq> [] \<Longrightarrow> hd cs \<in> set cs \<and> hd cs \<noteq> 0 \<and> hd cs \<noteq> x \<and> (as \<noteq> [] \<longrightarrow> hd cs \<noteq> last as)"
    using d nz ls hd_in_set [of cs] by (metis Un_iff disjoint_iff distinct_append distinct.simps(2) list.set_intros(2) set_append)
  define h' where "h' = (if as \<noteq> [] then
      (if cs \<noteq> [] then set_prv (hd cs) (last as) (set_nxt (last as) (hd cs) h) else set_nxt (last as) 0 h)
    else set_prv (hd cs) 0 (h\<lparr>HeapBegin := hd cs\<rparr>))"
  have t: "take_whole (last (0 # as)) x h = Some h'"
    using ls hc n ne unfolding take_whole_def h'_def by (cases cs) (auto simp: Let_def)
  have rep': "heap_rep (mark_taken x h') bs (as @ cs)"
    by (rule rep_take [OF rep ne])
      (use ls hc ne heap_repD(6) [OF rep] in \<open>auto simp: h'_def hd_append\<close>)
  have "alloc (mark_taken x h') = (alloc h)(x + hsize \<mapsto> len h x)"
    by (rule alloc_upd [OF rep rep' x(1)]) (auto simp: h'_def)
  moreover have "alloc h (x + hsize) = None" using x by (simp add: alloc_rep [OF rep])
  moreover have "dat h' = dat h" "used h' = used h" "pages_ok h'" using pg by (auto simp: h'_def)
  ultimately show ?thesis using that [OF t] rep' by (auto simp: allocates_def heap_ok_def)
qed

lemma split_entry_ok:
  assumes l: "len h x > n + hsize" and b: "KERN_HeapVirtBegin \<le> x" "x + hsize + len h x \<le> HeapEnd h"
    and a: "allocated h = HeapEnd h - KERN_HeapVirtBegin" and z: "z = x + hsize + n" and ne: "nxt h x \<noteq> x" "nxt h x \<noteq> z"
  obtains h' where "split_entry x n h = Some (z, h')"
    "\<And>y. magic h' y = (if y = z then KERN_HeapMagicFree else magic h y)"
    "\<And>y. len h' y = (if y = x then n else if y = z then len h x - n - hsize else len h y)"
    "\<And>y. nxt h' y = (if y = x then z else if y = z then nxt h x else nxt h y)"
    "\<And>y. prv h' y = (if y = z then x else if nxt h x \<noteq> 0 \<and> y = nxt h x then z else prv h y)"
    "HeapEnd h' = HeapEnd h" "allocated h' = allocated h" "HeapBegin h' = HeapBegin h" "dat h' = dat h" "used h' = used h"
    "kas h' = kas h"
proof -
  have xz: "x \<noteq> z" using z hsize_pos by simp
  define h1 where "h1 = set_len x n (set_len z (len h x - n - hsize) (set_prv z x (set_nxt z (nxt h x) (set_magic z KERN_HeapMagicFree h))))"
  define h' where "h' = set_nxt x z (if nxt h x \<noteq> 0 then set_prv (nxt h x) z h1 else h1)"
  have "x < HeapEnd h" "z < HeapEnd h" "KERN_HeapVirtBegin \<le> z" "n \<le> allocated h" "len h x \<le> allocated h"
    "len h x - n - hsize \<le> allocated h"
    using l b a z hsize_pos by linarith+
  then have "split_entry x n h = Some (z, h')"
    using l b(1) xz ne by (simp add: split_entry_def z [symmetric] Let_def h'_def h1_def)
  then show ?thesis using that xz ne by (simp add: h'_def h1_def)
qed

lemma free_links:
  assumes rep: "heap_rep h bs (as @ x # cs)"
  shows "x \<in> set bs" "magic h x = KERN_HeapMagicFree" "nxt h x = hd (cs @ [0])" "prv h x = last (0 # as)"
    "as \<noteq> [] \<Longrightarrow> last as \<in> set bs \<and> last as \<noteq> 0 \<and> last as \<noteq> x \<and> magic h (last as) = KERN_HeapMagicFree"
    "cs \<noteq> [] \<Longrightarrow> hd cs \<in> set bs \<and> hd cs \<noteq> 0 \<and> hd cs \<noteq> x \<and> magic h (hd cs) = KERN_HeapMagicFree \<and> (as \<noteq> [] \<longrightarrow> hd cs \<noteq> last as)"
proof -
  note d = heap_repD(3) [OF rep]
  have f: "y \<noteq> 0 \<and> y \<in> set bs \<and> magic h y = KERN_HeapMagicFree" if "y \<in> set (as @ x # cs)" for y
    using heap_block(1) [OF rep] heap_repD(4) [OF rep] that by blast
  show "x \<in> set bs" "magic h x = KERN_HeapMagicFree" using f [of x] by auto
  show "nxt h x = hd (cs @ [0])" "prv h x = last (0 # as)" by (fact seg_mid [OF heap_repD(2) [OF rep]])+
  show "last as \<in> set bs \<and> last as \<noteq> 0 \<and> last as \<noteq> x \<and> magic h (last as) = KERN_HeapMagicFree" if "as \<noteq> []"
    using that f [of "last as"] last_in_set [OF that] d by auto
  show "hd cs \<in> set bs \<and> hd cs \<noteq> 0 \<and> hd cs \<noteq> x \<and> magic h (hd cs) = KERN_HeapMagicFree \<and> (as \<noteq> [] \<longrightarrow> hd cs \<noteq> last as)"
    if "cs \<noteq> []"
  proof -
    have "as \<noteq> [] \<longrightarrow> hd cs \<noteq> last as" using d hd_in_set [OF that] last_in_set [of as]
      by (metis disjoint_iff distinct_append list.set_intros(2))
    then show ?thesis using f [of "hd cs"] d hd_in_set [OF that] by auto
  qed
qed

lemma take_part_ok:
  assumes rep: "heap_rep h bs (as @ x # cs)" and pg: "pages_ok h" and n: "n mod 16 = 0" "len h x > n + hsize"
  obtains h' where "take_part (last (0 # as)) x n h = Some h'" "allocates h x n (mark_taken x h')"
proof -
  note x = free_links [OF rep]
  define z where "z = x + hsize + n"
  have xz: "x \<noteq> z" using hsize_pos by (simp add: z_def)
  have zb: "z \<notin> set bs" by (rule inner_not_block [OF heap_repD(1) [OF rep] x(1)]) (use n in \<open>auto simp: z_def hsize_def\<close>)
  have nx: "nxt h x \<noteq> x" "nxt h x \<noteq> z"
  proof -
    have "nxt h x = 0 \<or> nxt h x \<in> set bs \<and> nxt h x \<noteq> x" using x(3,6) by (cases cs) auto
    moreover have "x \<noteq> 0" "z \<noteq> 0" using heap_block(1) [OF rep x(1)] hsize_pos by (auto simp: z_def)
    ultimately show "nxt h x \<noteq> x" "nxt h x \<noteq> z" using zb by auto
  qed
  obtain h1 where h1: "split_entry x n h = Some (z, h1)"
      "\<And>y. magic h1 y = (if y = z then KERN_HeapMagicFree else magic h y)"
      "\<And>y. len h1 y = (if y = x then n else if y = z then len h x - n - hsize else len h y)"
      "\<And>y. nxt h1 y = (if y = x then z else if y = z then nxt h x else nxt h y)"
      "\<And>y. prv h1 y = (if y = z then x else if nxt h x \<noteq> 0 \<and> y = nxt h x then z else prv h y)"
      "HeapEnd h1 = HeapEnd h" "allocated h1 = allocated h" "HeapBegin h1 = HeapBegin h" "dat h1 = dat h" "used h1 = used h" "kas h1 = kas h"
    by (rule split_entry_ok [OF n(2) heap_block(2,3) [OF rep x(1)] heap_repD(9) [OF rep] z_def nx]) blast
  define h' where "h' = (if as \<noteq> [] then set_prv z (last as) (set_nxt (last as) z h1) else set_prv z 0 (h1\<lparr>HeapBegin := z\<rparr>))"
  have lz: "as \<noteq> [] \<Longrightarrow> last as \<noteq> z" "cs \<noteq> [] \<Longrightarrow> hd cs \<noteq> z" using x(5,6) zb by auto
  have t: "take_part (last (0 # as)) x n h = Some h'"
    using x(5) h1(1) lz by (simp add: take_part_def h'_def h1(2))
  obtain bp bq where bs: "bs = bp @ x # bq" using x(1) by (meson split_list)
  have rep': "heap_rep (mark_taken x h') (bp @ x # z # bq) (as @ z # cs)"
    by (rule rep_split [OF rep [unfolded bs] n z_def])
      (use x lz xz heap_repD(6) [OF rep] in \<open>auto simp: h'_def h1 hd_append split: if_splits\<close>)
  have "alloc (mark_taken x h') = (alloc h)(x + hsize \<mapsto> n)"
    by (rule alloc_upd [OF rep rep']) (use x lz xz zb in \<open>auto simp: h'_def h1 bs\<close>)
  moreover have "alloc h (x + hsize) = None" using x by (simp add: alloc_rep [OF rep])
  moreover have "dat h' = dat h" "used h' = used h" by (simp_all add: h'_def h1)
  moreover have "pages_ok h'" using pg by (simp add: h'_def h1 pages_ok_def)
  ultimately show ?thesis using that [OF t] rep' by (auto simp: allocates_def heap_ok_def)
qed

section \<open>New blocks at the end\<close>

lemma end_not_block: "heap_rep h bs fl \<Longrightarrow> HeapEnd h \<notin> set bs"
  using heap_block(3) [of h bs fl "HeapEnd h"] by (auto simp: hsize_def)

lemma begin_end: "heap_rep h bs fl \<Longrightarrow> KERN_HeapVirtBegin \<le> HeapEnd h \<and> HeapEnd h \<noteq> 0"
  using tiled_le [OF heap_repD(1)] by (fastforce simp: KERN_HeapVirtBegin_def)

lemma take_last_ok:
  assumes rep: "heap_rep h bs [x]" and pg: "pages_ok h" and room: "room h \<ge> 1"
  obtains h' where "take_whole 0 x h = Some h'" "allocates h x (len h x) (mark_taken x h')"
proof -
  have rep0: "heap_rep h bs ([] @ x # [])" using rep by simp
  note x = free_links [OF rep0]
  define E where "E = HeapEnd h"
  have "pages_ok (h\<lparr>HeapBegin := E\<rparr>)" "room (h\<lparr>HeapBegin := E\<rparr>) \<ge> 1" using pg room by (simp_all add: room_def)
  then obtain h1 where h1: "extend_heap 1 (h\<lparr>HeapBegin := E\<rparr>) = Some h1" "pages_ok h1" "HeapEnd h1 = E + 4096"
      "allocated h1 = allocated h + 4096" "hdr h1 = hdr h" "dat h1 = dat h" "HeapBegin h1 = E" "used h1 = used h"
    using extend_heap_ok [of "h\<lparr>HeapBegin := E\<rparr>" 1] by (auto simp: E_def)
  define h' where "h' = set_len E (HEAP_PAGE_SIZE - hsize) (set_magic E KERN_HeapMagicFree (set_prv E 0 (set_nxt E 0 h1)))"
  have t: "take_whole 0 x h = Some h'"
    using x(3) h1 by (simp add: take_whole_def h'_def E_def [symmetric])
  have Eb: "E \<notin> set bs" "E \<noteq> x" using end_not_block [OF rep] x(1) by (auto simp: E_def)
  have free: "y \<in> set bs \<and> magic h y = KERN_HeapMagicFree \<longleftrightarrow> y = x" for y using heap_repD(4) [OF rep, of y] by auto
  have rep': "heap_rep (mark_taken x h') (bs @ [E]) [E]"
  proof (rule heap_repI)
    have "tiled (mark_taken x h') KERN_HeapVirtBegin bs E"
      by (rule tiled_cong [OF heap_repD(1) [OF rep, folded E_def]]) (use Eb in \<open>auto simp: h'_def h1\<close>)
    then show "tiled (mark_taken x h') KERN_HeapVirtBegin (bs @ [E]) (HeapEnd (mark_taken x h'))"
      using Eb by (auto simp: tiled_append h'_def h1 HEAP_PAGE_SIZE_def hsize_def)
    show "seg (nxt (mark_taken x h')) (prv (mark_taken x h')) 0 [E] 0" using Eb by (simp add: h'_def)
    show "y \<in> set [E] \<longleftrightarrow> y \<in> set (bs @ [E]) \<and> magic (mark_taken x h') y = KERN_HeapMagicFree" for y
      using Eb free [of y] by (auto simp: h'_def h1)
    show "nxt (mark_taken x h') y = 0 \<and> prv (mark_taken x h') y = 0"
      if "y \<in> set (bs @ [E])" "magic (mark_taken x h') y = KERN_HeapMagicTaken" for y
      using that heap_repD(7) [OF rep, of y] by (auto simp: h'_def h1 split: if_splits)
    show "HeapEnd (mark_taken x h') mod 4096 = 0" using heap_repD(8) [OF rep] by (simp add: h'_def h1 E_def)
    show "allocated (mark_taken x h') = HeapEnd (mark_taken x h') - KERN_HeapVirtBegin"
      using heap_repD(9) [OF rep] begin_end [OF rep] by (simp add: h'_def h1 E_def)
  qed (use h1 in \<open>auto simp: h'_def\<close>)
  have "alloc (mark_taken x h') = (alloc h)(x + hsize \<mapsto> len h x)"
    by (rule alloc_upd [OF rep rep']) (use x(1) Eb in \<open>auto simp: h'_def h1\<close>)
  moreover have "alloc h (x + hsize) = None" using x by (simp add: alloc_rep [OF rep])
  moreover have "dat h' = dat h" "used h' = used h" "pages_ok h'" using h1 by (auto simp: h'_def)
  ultimately show ?thesis using that [OF t] rep' by (auto simp: allocates_def heap_ok_def)
qed

lemma tiled_two:
  assumes "tiled h a xs e" "len h e mod 16 = 0" "len h (e + hsize + len h e) mod 16 = 0"
    "magic h e = KERN_HeapMagicTaken" "magic h (e + hsize + len h e) = KERN_HeapMagicFree"
  shows "tiled h a (xs @ [e, e + hsize + len h e]) (e + hsize + len h e + hsize + len h (e + hsize + len h e))"
  using assms by (auto simp: tiled_append)

lemma take_new_panic:
  assumes "(n + 2 * hsize) mod 4096 = 0"
  shows "take_new entry n h = None"
proof -
  have "split_entry E n h' = None" if "len h' E = (n + 2 * hsize) div 4096 * HEAP_PAGE_SIZE - hsize" for E h'
  proof -
    have "(n + 2 * hsize) div 4096 * 4096 = n + 2 * hsize" using assms by (metis add.right_neutral div_mult_mod_eq)
    then have "len h' E = n + hsize" using that by (simp add: HEAP_PAGE_SIZE_def)
    then show ?thesis by (simp add: split_entry_def)
  qed
  moreover have "(n + 2 * hsize) div 4096 * HEAP_PAGE_SIZE - hsize > n"
    using assms by (simp add: HEAP_PAGE_SIZE_def mod_eq_0_iff_dvd hsize_def)
  ultimately show ?thesis using assms
    by (auto simp: take_new_def Let_def bind_eq_None_conv split: option.split)
qed

lemma take_new_ok:
  assumes rep: "heap_rep h bs fl" and pg: "pages_ok h" and n: "n mod 16 = 0" "(n + 2 * hsize) mod 4096 \<noteq> 0"
    and room: "room h > (n + 2 * hsize) div 4096"
  obtains h' where "take_new (last fl) n h = Some (HeapEnd h, h')" "allocates h (HeapEnd h) n (mark_taken (HeapEnd h) h')"
proof -
  define E where "E = HeapEnd h"
  define k where "k = Suc ((n + 2 * hsize) div 4096)"
  define L where "L = k * 4096 - hsize"
  have kn: "k * 4096 > n + 2 * hsize"
    unfolding k_def using dividend_less_div_times [of 4096 "n + 2 * hsize"] by simp
  then have L: "L > n + hsize" "E + hsize + L = E + k * 4096" by (auto simp: L_def)
  have L16: "L mod 16 = 0"
  proof -
    have "16 dvd k * 4096 - 32" by (rule dvd_diff_nat) simp_all
    then show ?thesis by (simp add: L_def hsize_def)
  qed
  define e where "e = last fl"
  have "butlast fl @ e # [] = fl" using heap_repD(5) [OF rep] by (simp add: e_def)
  then have "heap_rep h bs (butlast fl @ e # [])" using rep by simp
  note x = free_links [OF this]
  have e0: "e \<noteq> 0" using heap_block(1) [OF rep x(1)] .
  have "room h \<ge> k" using room by (simp add: k_def)
  then obtain h1 where h1: "extend_heap k h = Some h1" "pages_ok h1" "HeapEnd h1 = E + 4096 * k"
      "allocated h1 = allocated h + 4096 * k" "hdr h1 = hdr h" "dat h1 = dat h" "HeapBegin h1 = HeapBegin h" "used h1 = used h"
    using extend_heap_ok [OF pg] by (metis E_def)
  define h2 where "h2 = set_len E L (set_magic E KERN_HeapMagicFree (set_prv E e (set_nxt E 0 h1)))"
  define z where "z = E + hsize + n"
  have Eb: "E \<notin> set bs" "E \<noteq> e" "E \<noteq> 0" "KERN_HeapVirtBegin \<le> E"
    using end_not_block [OF rep] x(1) begin_end [OF rep] by (auto simp: E_def)
  have zE: "E < z" using hsize_pos by (simp add: z_def)
  have zb: "z \<notin> set bs" "z \<noteq> e"
  proof -
    show "z \<notin> set bs" using heap_block(3) [OF rep, of z] zE by (auto simp: E_def)
    then show "z \<noteq> e" using x(1) by auto
  qed
  obtain h3 where h3: "split_entry E n h2 = Some (z, h3)"
      "\<And>y. magic h3 y = (if y = z then KERN_HeapMagicFree else magic h2 y)"
      "\<And>y. len h3 y = (if y = E then n else if y = z then len h2 E - n - hsize else len h2 y)"
      "\<And>y. nxt h3 y = (if y = E then z else if y = z then nxt h2 E else nxt h2 y)"
      "\<And>y. prv h3 y = (if y = z then E else if nxt h2 E \<noteq> 0 \<and> y = nxt h2 E then z else prv h2 y)"
      "HeapEnd h3 = HeapEnd h2" "allocated h3 = allocated h2" "HeapBegin h3 = HeapBegin h2" "dat h3 = dat h2" "used h3 = used h2" "kas h3 = kas h2"
  proof (rule split_entry_ok [of n h2 E z])
    show "allocated h2 = HeapEnd h2 - KERN_HeapVirtBegin"
      using heap_repD(9) [OF rep] Eb(4) by (simp add: h2_def h1 E_def)
  qed (use L Eb zE in \<open>auto simp: h2_def h1 z_def\<close>)
  define h' where "h' = set_prv z e (set_nxt e z h3)"
  have "take_new e n h = Some (E, h')"
    using x(2,3) h1(1) n(2) L(1) h3(1,2) zb Eb
    by (simp add: take_new_def Let_def k_def [symmetric] E_def [symmetric] HEAP_PAGE_SIZE_def L_def [symmetric] h2_def [symmetric] h'_def)
      (simp add: h2_def h1 L_def k_def)
  moreover have rep': "heap_rep (mark_taken E h') (bs @ [E, z]) (fl @ [z])"
  proof (rule heap_repI)
    let ?h = "mark_taken E h'"
    have "tiled ?h KERN_HeapVirtBegin bs E"
      by (rule tiled_cong [OF heap_repD(1) [OF rep, folded E_def]]) (use Eb zb in \<open>auto simp: h'_def h3 h2_def h1\<close>)
    moreover have "len ?h E = n" "len ?h z = L - n - hsize" using zE by (auto simp: h'_def h3 h2_def)
    moreover have "(L - n - hsize) mod 16 = 0" using L16 n(1) by (auto simp: hsize_def mod_eq_0_iff_dvd intro!: dvd_diff_nat)
    moreover have "z + hsize + (L - n - hsize) = HeapEnd ?h" using L by (simp add: h'_def h3 h2_def h1 z_def L_def)
    ultimately show "tiled ?h KERN_HeapVirtBegin (bs @ [E, z]) (HeapEnd ?h)"
      using n(1) zE by (auto simp: tiled_append z_def [symmetric] h'_def h3)
    have "y \<noteq> E \<and> y \<noteq> z" if "y \<in> set fl" for y using free_in_blocks [OF rep that] Eb zb by auto
    then show "seg (nxt ?h) (prv ?h) 0 (fl @ [z]) 0"
      by (intro seg_snocI [OF heap_repD(2,3) [OF rep]])
        (use heap_repD(5) [OF rep] Eb zb zE e0 in \<open>auto simp: h'_def h3 h2_def h1 e_def\<close>)
    show "distinct (fl @ [z])" using heap_repD(3) [OF rep] free_in_blocks [OF rep] zb by auto
    show "y \<in> set (fl @ [z]) \<longleftrightarrow> y \<in> set (bs @ [E, z]) \<and> magic ?h y = KERN_HeapMagicFree" for y
      using heap_repD(4) [OF rep, of y] Eb zb zE by (auto simp: h'_def h3 h2_def h1)
    show "nxt ?h y = 0 \<and> prv ?h y = 0" if "y \<in> set (bs @ [E, z])" "magic ?h y = KERN_HeapMagicTaken" for y
      using that heap_repD(7) [OF rep, of y] zb Eb x(2) zE by (auto simp: h'_def h3 h2_def h1 split: if_splits)
    show "allocated ?h = HeapEnd ?h - KERN_HeapVirtBegin"
      using heap_repD(9) [OF rep] Eb(4) by (simp add: h'_def h3 h2_def h1 E_def)
  qed (use heap_repD(5,6,8) [OF rep] in \<open>auto simp: h'_def h3 h2_def h1 E_def\<close>)
  moreover have "alloc (mark_taken E h') = (alloc h)(E + hsize \<mapsto> n)"
    by (rule alloc_upd [OF rep rep']) (use Eb zb zE in \<open>auto simp: h'_def h3 h2_def h1\<close>)
  moreover have "alloc h (E + hsize) = None" using Eb by (simp add: alloc_rep [OF rep])
  moreover have "dat h' = dat h" "used h' = used h" by (simp_all add: h'_def h3 h2_def h1)
  moreover have "pages_ok h'" using h1(2) by (simp add: h'_def h3 h2_def pages_ok_def)
  ultimately show ?thesis using that by (auto simp: allocates_def heap_ok_def E_def e_def)
qed

section \<open>Allocating\<close>

lemma round_size_ok:
  assumes "round_size n = Some m"
  shows "n \<le> m" "m < n + 16" "m mod 16 = 0"
proof -
  have "m mod 16 = 0 \<and> n \<le> m \<and> m < n + 16"
  proof (cases "n mod 16 = 0")
    case False
    then have m: "m = (n + 15) mod 2 ^ 64 div 16 * 16" "m > n" using assms by (auto simp: round_size_def Let_def split: if_splits)
    have "m \<le> (n + 15) mod 2 ^ 64" unfolding m(1) by (rule div_times_less_eq_dividend)
    also have "\<dots> \<le> n + 15" by (rule mod_less_eq_dividend)
    finally show ?thesis using m by simp
  qed (use assms in \<open>simp add: round_size_def\<close>)
  then show "n \<le> m" "m < n + 16" "m mod 16 = 0" by auto
qed

definition free_block :: "kheap \<Rightarrow> nat \<Rightarrow> bool" where
  "free_block h x \<longleftrightarrow> x \<in> set (blocks h KERN_HeapVirtBegin) \<and> magic h x = KERN_HeapMagicFree"

lemma free_block_rep: "heap_rep h bs fl \<Longrightarrow> free_block h x \<longleftrightarrow> x \<in> set fl"
  by (simp add: free_block_def tiled_blocks [OF heap_repD(1)] heap_repD(4))

lemma free_list_facts:
  assumes "heap_rep h bs fl" "y \<in> set fl"
  shows "y \<noteq> 0 \<and> magic h y = KERN_HeapMagicFree"
  using heap_block(1) [OF assms(1) free_in_blocks [OF assms]] heap_repD(4) [OF assms(1), of y] assms(2) by auto

text \<open>The search and what follows it, up to the block being marked.\<close>

definition find_block :: "nat \<Rightarrow> kheap \<Rightarrow> (nat \<times> kheap) option" where
  "find_block n h = do {
     (r, h) \<leftarrow> search 0 (HeapBegin h) n h;
     case r of Inl res \<Rightarrow> Some (res, h) | Inr prev \<Rightarrow> take_new prev n h }"

lemma find_block_fit:
  assumes rep: "heap_rep h bs fl" and pg: "pages_ok h" and n: "n mod 16 = 0" and room: "room h \<ge> 1" and f: "x \<in> set fl" "fits n h x"
  obtains x h' where "find_block n h = Some (x, h')" "x \<in> set bs" "allocates h x n (mark_taken x h')"
proof -
  obtain as x cs where fl: "fl = as @ x # cs" "fits n h x" "\<forall>y \<in> set as. \<not> fits n h y"
    using f split_list_first_prop [of fl "fits n h"] by blast
  note rep' = rep [unfolded fl(1)]
  have "HeapBegin h = hd (as @ [x])" using heap_repD(6) [OF rep'] by (cases as) auto
  moreover have "search 0 (hd (as @ [x])) n h = map_option (\<lambda>h. (Inl x, h))
      (if len h x = n then take_whole (last (0 # as)) x h else take_part (last (0 # as)) x n h)"
    by (rule search_fit [OF heap_repD(2) [OF rep']]) (use free_list_facts [OF rep'] fl in auto)
  ultimately have s: "find_block n h = map_option (\<lambda>h. (x, h))
      (if len h x = n then take_whole (last (0 # as)) x h else take_part (last (0 # as)) x n h)"
    by (auto simp: find_block_def map_option_case split: option.split)
  have xb: "x \<in> set bs" using free_links(1) [OF rep'] .
  show ?thesis
  proof (cases "len h x = n")
    case True
    show ?thesis
    proof (cases "as @ cs = []")
      case True
      then have "heap_rep h bs [x]" using rep' by simp
      then obtain h' where "take_whole 0 x h = Some h'" "allocates h x (len h x) (mark_taken x h')"
        using take_last_ok [OF _ pg room] by blast
      then show ?thesis using that [of x h'] s xb True \<open>len h x = n\<close> by simp
    next
      case False
      then obtain h' where "take_whole (last (0 # as)) x h = Some h'" "allocates h x (len h x) (mark_taken x h')"
        using take_whole_ok [OF rep' pg] by blast
      then show ?thesis using that [of x h'] s xb \<open>len h x = n\<close> by simp
    qed
  next
    case False
    then have "len h x > n + hsize" using fl(2) by (simp add: fits_def)
    then obtain h' where "take_part (last (0 # as)) x n h = Some h'" "allocates h x n (mark_taken x h')"
      using take_part_ok [OF rep' pg n] by blast
    then show ?thesis using that [of x h'] s xb False by simp
  qed
qed

lemma find_block_none:
  assumes rep: "heap_rep h bs fl" and f: "\<And>x. x \<in> set fl \<Longrightarrow> \<not> fits n h x"
  shows "find_block n h = take_new (last fl) n h"
proof -
  have "search 0 (hd fl) n h = Some (Inr (last fl), h)"
    by (rule search_none [OF heap_repD(2,5) [OF rep]]) (use free_list_facts [OF rep] f in auto)
  then show ?thesis using heap_repD(6) [OF rep] by (simp add: find_block_def)
qed

lemma kmalloc_find:
  assumes rep: "heap_rep h bs fl" and r: "round_size n = Some m" and f: "find_block m h = Some (x, h1)"
    and a: "allocates h x m (mark_taken x h1)"
  defines "h' \<equiv> (fill_data (x + hsize) m (mark_taken x h1))\<lparr>used := used h + word_of_nat m\<rparr>"
  shows "kmalloc n h = Some (x + hsize, h')" "heap_ok h'" "alloc h' = (alloc h)(x + hsize \<mapsto> m)" "alloc h (x + hsize) = None"
    "(x + hsize) mod 16 = 0" "\<And>y. \<not> (x + hsize \<le> y \<and> y < x + hsize + m) \<Longrightarrow> dat h' y = dat h y" "used h' = used h + word_of_nat m"
proof -
  have same: "hdr h' = hdr (mark_taken x h1)" "HeapEnd h' = HeapEnd h1" "HeapBegin h' = HeapBegin h1" "allocated h' = allocated h1"
    "kas h' = kas (mark_taken x h1)"
    by (simp_all add: h'_def)
  have al: "heap_ok (mark_taken x h1)" "alloc (mark_taken x h1) = (alloc h)(x + hsize \<mapsto> m)" "alloc h (x + hsize) = None"
      "dat h1 = dat h" "used h1 = used h"
    using a by (auto simp: allocates_def)
  obtain bs' fl' where rep1: "heap_rep (mark_taken x h1) bs' fl'" using al(1) by (auto simp: heap_ok_def)
  have rep2: "heap_rep h' bs' fl'" using rep1 heap_rep_cong [of h' "mark_taken x h1"] same by simp
  moreover have "pages_ok h'" using al(1) by (simp add: heap_ok_def h'_def)
  ultimately show "heap_ok h'" by (auto simp: heap_ok_def)
  have e: "alloc h' = alloc (mark_taken x h1)" by (intro ext) (simp add: alloc_rep [OF rep1] alloc_rep [OF rep2] same)
  then show "alloc h' = (alloc h)(x + hsize \<mapsto> m)" using al(2) by simp
  have "x \<in> set bs'" using fun_cong [OF al(2), of "x + hsize"] by (simp add: alloc_rep [OF rep1] split: if_splits)
  then have "x mod 16 = 0" using heap_block(4) [OF rep1] by blast
  then show x16: "(x + hsize) mod 16 = 0" by (simp add: hsize_def mod_eq_0_iff_dvd)
  have "magic h (HeapBegin h) = KERN_HeapMagicFree"
    using free_list_facts [OF rep, of "hd fl"] heap_repD(5,6) [OF rep] hd_in_set [of fl] by auto
  moreover obtain r h0 where "search 0 (HeapBegin h) m h = Some (r, h0)"
      "(case r of Inl res \<Rightarrow> Some (res, h0) | Inr prev \<Rightarrow> take_new prev m h0) = Some (x, h1)"
    using f by (auto simp: find_block_def bind_eq_Some_conv)
  ultimately show "kmalloc n h = Some (x + hsize, h')"
    using r x16 al(5) unfolding kmalloc_def h'_def mark_taken_def by (simp add: Let_def)
  show "alloc h (x + hsize) = None" by (rule al(3))
  show "dat h' y = dat h y" if "\<not> (x + hsize \<le> y \<and> y < x + hsize + m)" for y
    using that al(4) by (auto simp: h'_def fill_data_dat)
  show "used h' = used h + word_of_nat m" by (simp add: h'_def)
qed

section \<open>Merging\<close>

lemma tiled_merge:
  assumes t: "tiled h a (bp @ x # z # bq) e" and x: "magic h' x = KERN_HeapMagicFree"
    and l: "len h' x = len h x + hsize + len h z" "\<And>y. y \<noteq> x \<Longrightarrow> len h' y = len h y" and m: "\<And>y. magic h' y = magic h y"
  shows "tiled h' a (bp @ x # bq) e"
proof -
  have d: "distinct (bp @ x # z # bq)" by (rule tiled_distinct [OF t])
  have s: "tiled h a bp x" "len h x mod 16 = 0" "z = x + hsize + len h x" "len h z mod 16 = 0" "tiled h (z + hsize + len h z) bq e"
    using t by (auto simp: tiled_append)
  have e: "y \<in> set bp \<union> set bq \<Longrightarrow> len h' y = len h y" for y using d l(2) [of y] by auto
  have "tiled h' a bp x" by (rule tiled_cong [OF s(1)]) (simp add: e m)
  moreover have "tiled h' (z + hsize + len h z) bq e" by (rule tiled_cong [OF s(5)]) (simp add: e m)
  moreover have "len h' x mod 16 = 0" using s(2,4) l(1) by (simp add: hsize_def mod_eq_0_iff_dvd)
  moreover have "x + hsize + len h' x = z + hsize + len h z" using s(3) l(1) by simp
  ultimately show ?thesis using x unfolding tiled_append by (intro exI [of _ x]) (simp only: tiled.simps simp_thms)
qed

lemma rep_merge:
  assumes rep: "heap_rep h (bp @ x # z # bq) (x # as @ z # cs)"
    and same: "HeapEnd h' = HeapEnd h" "allocated h' = allocated h" "HeapBegin h' = HeapBegin h"
    and m: "\<And>y. magic h' y = magic h y" and l: "len h' x = len h x + hsize + len h z" "\<And>y. y \<noteq> x \<Longrightarrow> len h' y = len h y"
    and nx: "\<And>y. y \<noteq> z \<Longrightarrow> nxt h' y = (if y = last (x # as) then hd (cs @ [0]) else nxt h y)"
    and pv: "\<And>y. y \<noteq> z \<Longrightarrow> prv h' y = (if cs \<noteq> [] \<and> y = hd cs then last (x # as) else prv h y)"
  shows "heap_rep h' (bp @ x # bq) (x # as @ cs)"
proof (rule heap_repI)
  have d: "distinct ((x # as) @ z # cs)" using heap_repD(3) [OF rep] by simp
  have db: "distinct (bp @ x # z # bq)" by (rule tiled_distinct [OF heap_repD(1) [OF rep]])
  have free: "y = x \<or> y \<in> set as \<or> y = z \<or> y \<in> set cs \<longleftrightarrow> y \<in> set (bp @ x # z # bq) \<and> magic h y = KERN_HeapMagicFree" for y
    using heap_repD(4) [OF rep, of y] by auto
  have xf: "magic h' x = KERN_HeapMagicFree" using free [of x] by (simp add: m)
  show "tiled h' KERN_HeapVirtBegin (bp @ x # bq) (HeapEnd h')"
    unfolding same(1) by (rule tiled_merge [OF heap_repD(1) [OF rep] xf l m])
  have sg: "seg (nxt h) (prv h) 0 ((x # as) @ z # cs) 0" using heap_repD(2) [OF rep] by simp
  have na: "nxt h' y = (if y = last (x # as) then hd (cs @ [0]) else nxt h y) \<and> prv h' y = prv h y" if y: "y \<in> set (x # as)" for y
  proof -
    have "y \<noteq> z" "\<not> (cs \<noteq> [] \<and> y = hd cs)" using y d by (auto dest: hd_in_set)
    then show ?thesis using nx [of y] pv [of y] by auto
  qed
  have nc: "prv h' y = (if y = hd cs then last (0 # x # as) else prv h y) \<and> nxt h' y = nxt h y" if y: "y \<in> set cs" for y
  proof -
    have "y \<noteq> z" "cs \<noteq> []" "y \<notin> set (x # as)" using y d by auto
    moreover have "last (x # as) \<in> set (x # as)" by (rule last_in_set) simp
    ultimately have "y \<noteq> last (x # as)" "y \<noteq> z" "cs \<noteq> []" by metis+
    then show ?thesis using nx [of y] pv [of y] by auto
  qed
  show "seg (nxt h') (prv h') 0 (x # as @ cs) 0"
    using seg_removeI [OF sg d na nc] by simp
  show "y \<in> set (x # as @ cs) \<longleftrightarrow> y \<in> set (bp @ x # bq) \<and> magic h' y = KERN_HeapMagicFree" for y
    using free [of y] d db by (auto simp: m)
  show "nxt h' y = 0 \<and> prv h' y = 0" if y: "y \<in> set (bp @ x # bq)" "magic h' y = KERN_HeapMagicTaken" for y
  proof -
    have t: "magic h y = KERN_HeapMagicTaken" using y m by simp
    then have n: "y \<noteq> x" "y \<notin> set as" "y \<noteq> z" "y \<notin> set cs" using free [of y] by auto
    moreover have "last (x # as) \<in> set (x # as)" by (rule last_in_set) simp
    ultimately have "y \<noteq> last (x # as)" by auto
    then show ?thesis using n nx [OF n(3)] pv [OF n(3)] heap_repD(7) [OF rep _ t] y(1) by (auto dest: hd_in_set)
  qed
qed (use heap_repD(3,6,8,9) [OF rep] same in auto)

text \<open>What merging leaves alone.\<close>

definition merges :: "nat \<Rightarrow> nat list \<Rightarrow> kheap \<Rightarrow> kheap \<Rightarrow> bool" where
  "merges x run h h' \<longleftrightarrow> HeapEnd h' = HeapEnd h \<and> HeapBegin h' = HeapBegin h \<and> kas h' = kas h \<and> dat h' = dat h \<and> used h' = used h \<and>
     (\<forall>y. magic h' y = magic h y) \<and> (\<forall>y. y \<noteq> x \<longrightarrow> len h' y = len h y)"

lemma merge_step:
  assumes rep: "heap_rep h (bp @ x # z # bq) (x # gs)" and z: "magic h z = KERN_HeapMagicFree" and g: "gs \<noteq> [z]"
  obtains h' gs' where "merge_loop x (x + hsize + len h x) h = merge_loop x (x + hsize + len h' x) h'"
    "heap_rep h' (bp @ x # bq) (x # gs')" "set gs' = set gs - {z}" "merges x [z] h h'"
proof -
  have zb: "z = x + hsize + len h x" using heap_repD(1) [OF rep] by (auto simp: tiled_append)
  have xz: "x \<noteq> z" using zb hsize_pos by simp
  have zE: "z < HeapEnd h" using heap_block(3) [OF rep, of z] by (auto simp: hsize_def)
  have "z \<in> set gs" using heap_repD(4) [OF rep, of z] z xz by auto
  then obtain as cs where gs: "gs = as @ z # cs" by (meson split_list)
  have rep': "heap_rep h (bp @ x # z # bq) ((x # as) @ z # cs)" using rep gs by simp
  note fz = free_links [OF rep']
  have fx: "nxt h x = hd (gs @ [0])" using heap_repD(2) [OF rep] by simp
  have d: "distinct (x # as @ z # cs)" using heap_repD(3) [OF rep'] by simp
  define p where "p = last (x # as)"
  have p: "prv h z = p" "p \<noteq> 0" "magic h p = KERN_HeapMagicFree" "p \<noteq> z" using fz(4,5) by (auto simp: p_def)
  have xc: "cs \<noteq> [] \<Longrightarrow> hd cs \<noteq> x \<and> hd cs \<noteq> p"
    using fz(6) d hd_in_set [of cs] by (auto simp: p_def)
  have zn: "z = nxt h x \<longleftrightarrow> as = []" using fx d gs by (cases as) auto
  define h1 where "h1 = set_nxt p (hd (cs @ [0])) (if cs \<noteq> [] then set_prv (hd cs) p h else h)"
  define h' where "h' = set_len x (len h x + hsize + len h z) h1"
  have px: "as = [] \<Longrightarrow> p = x" by (simp add: p_def)
  have "merge_loop x z h = merge_loop x (x + hsize + len h' x) h'"
  proof (cases "as = []")
    case True
    then have c: "cs \<noteq> []" using g gs by auto
    then show ?thesis using True zE z p fz(3,6) zn px xz xc
      by (subst merge_loop.simps) (simp add: h'_def h1_def Let_def add.assoc)
  next
    case False
    then show ?thesis using zE z p fz(3,6) zn xz xc
      by (subst merge_loop.simps) (cases "cs = []"; simp add: h'_def h1_def Let_def add.assoc)
  qed
  moreover have "heap_rep h' (bp @ x # bq) (x # as @ cs)"
    by (rule rep_merge [OF rep [unfolded gs]]) (use xc xz p(4) in \<open>auto simp: h'_def h1_def p_def\<close>)
  moreover have "set (as @ cs) = set gs - {z}" using d gs by auto
  moreover have "merges x [z] h h'" by (simp add: merges_def h'_def h1_def)
  ultimately show ?thesis using that zb by metis
qed

lemma merges_trans:
  assumes "merges x r h h1" "merges x r' h1 h2"
  shows "merges x r'' h h2"
  using assms by (auto simp: merges_def)

lemma merge_ok:
  assumes "heap_rep h (bp @ x # run @ rest) (x # gs)" "\<forall>y \<in> set run. magic h y = KERN_HeapMagicFree"
    "rest = [] \<or> magic h (hd rest) = KERN_HeapMagicTaken" "g \<in> set gs" "g \<notin> set run"
  obtains h' gs' where "merge_loop x (x + hsize + len h x) h = Some h'" "heap_rep h' (bp @ x # rest) (x # gs')"
    "set gs' = set gs - set run" "merges x run h h'"
  using assms
proof (induction run arbitrary: h gs thesis)
  case Nil
  have e: "tiled h (x + hsize + len h x) rest (HeapEnd h)" using heap_repD(1) [OF Nil(2)] by (auto simp: tiled_append)
  have "\<not> (x + hsize + len h x < HeapEnd h \<and> magic h (x + hsize + len h x) = KERN_HeapMagicFree)"
    using e Nil(4) by (cases rest) auto
  then have "merge_loop x (x + hsize + len h x) h = Some h" by (subst merge_loop.simps) auto
  then show ?case using Nil(1) [of h gs] Nil(2) by (simp add: merges_def)
next
  case (Cons z run)
  have zf: "magic h z = KERN_HeapMagicFree" "gs \<noteq> [z]" using Cons.prems(3,5,6) by auto
  have rep: "heap_rep h (bp @ x # z # run @ rest) (x # gs)" using Cons.prems(2) by simp
  obtain h1 gs1 where h1: "merge_loop x (x + hsize + len h x) h = merge_loop x (x + hsize + len h1 x) h1"
      "heap_rep h1 (bp @ x # run @ rest) (x # gs1)" "set gs1 = set gs - {z}" "merges x [z] h h1"
    using merge_step [OF rep zf] by blast
  have m: "magic h1 y = magic h y" for y using h1(4) by (simp add: merges_def)
  have "z \<notin> set run" using tiled_distinct [OF heap_repD(1) [OF rep]] by simp
  obtain h' gs' where h': "merge_loop x (x + hsize + len h1 x) h1 = Some h'" "heap_rep h' (bp @ x # rest) (x # gs')"
      "set gs' = set gs1 - set run" "merges x run h1 h'"
    using Cons.IH [OF _ h1(2)] Cons.prems(3-6) m h1(3) by auto
  then show ?case
    using Cons.prems(1) [of h' gs'] h1 merges_trans [OF h1(4) h'(4)] by auto
qed

lemma merge_panic:
  assumes "heap_rep h (bp @ x # run @ rest) (x # gs)" "\<forall>y \<in> set run. magic h y = KERN_HeapMagicFree" "set gs = set run" "run \<noteq> []"
  shows "merge_loop x (x + hsize + len h x) h = None"
  using assms
proof (induction run arbitrary: h gs)
  case (Cons z run)
  have rep: "heap_rep h (bp @ x # z # run @ rest) (x # gs)" using Cons.prems(1) by simp
  have zf: "magic h z = KERN_HeapMagicFree" using Cons.prems(2) by simp
  have zr: "z \<notin> set run" using tiled_distinct [OF heap_repD(1) [OF rep]] by simp
  show ?case
  proof (cases "gs = [z]")
    case True
    have zb: "z = x + hsize + len h x" using heap_repD(1) [OF rep] by (auto simp: tiled_append)
    have "z < HeapEnd h" using heap_block(3) [OF rep, of z] by (auto simp: hsize_def)
    moreover have "nxt h x = z" "prv h z = x" "nxt h z = 0" using heap_repD(2) [OF rep] True by auto
    ultimately show ?thesis unfolding zb [symmetric] using zf by (subst merge_loop.simps) simp
  next
    case False
    obtain h1 gs1 where h1: "merge_loop x (x + hsize + len h x) h = merge_loop x (x + hsize + len h1 x) h1"
        "heap_rep h1 (bp @ x # run @ rest) (x # gs1)" "set gs1 = set gs - {z}" "merges x [z] h h1"
      using merge_step [OF rep zf False] by blast
    have m: "magic h1 y = magic h y" for y using h1(4) by (simp add: merges_def)
    have "set gs1 = set run" using h1(3) Cons.prems(3) zr by auto
    moreover have "run \<noteq> []"
    proof
      assume "run = []"
      then have "set gs = {z}" "distinct gs" using Cons.prems(3) heap_repD(3) [OF rep] by auto
      then show False using False by (cases gs; cases "tl gs") auto
    qed
    ultimately show ?thesis using Cons.IH [OF h1(2)] Cons.prems(2) m h1(1) by simp
  qed
qed simp

section \<open>Shrinking\<close>

lemma shrink_loop_ok:
  assumes "HeapEnd h = KERN_HeapVirtBegin + 4096 * b" "region_ok (kas h) M" "{b + i ..< b + i + k} \<subseteq> M"
  obtains s where "shrink_loop i k h = Some (h\<lparr>allocated := allocated h - 4096 * k, kas := s\<rparr>)" "region_ok s (M - {b + i ..< b + i + k})"
  using assms
proof (induction k arbitrary: h i M thesis)
  case 0
  then show ?case using "0.prems"(1) [of "kas h"] by simp
next
  case (Suc k)
  have bi: "b + i \<in> M" using Suc.prems(4) by auto
  obtain a m s where s: "virt2real (heap_page (b + i)) (kas h) = Some a" "free4k (HHDM_P2V a) (frames (kas h)) = Some m"
      "unmap_page (heap_page (b + i)) ((kas h)\<lparr>frames := m\<rparr>) = Some s" "region_ok s (M - {b + i})"
    by (rule region_unmap [OF Suc.prems(3) bi])
  define h1 where "h1 = h\<lparr>allocated := allocated h - 4096, kas := s\<rparr>"
  have v: "word_of_nat (HeapEnd h + HEAP_PAGE_SIZE * i) = heap_page (b + i)"
    using Suc.prems(2) by (simp add: heap_page_def HEAP_PAGE_SIZE_def algebra_simps)
  have p: "{b + (i + 1) ..< b + (i + 1) + k} \<subseteq> M - {b + i}" using Suc.prems(4) by auto
  have q: "HeapEnd h1 = KERN_HeapVirtBegin + 4096 * b" "region_ok (kas h1) (M - {b + i})"
    using Suc.prems(2) s(4) by (simp_all add: h1_def)
  obtain s' where s': "shrink_loop (i + 1) k h1 = Some (h1\<lparr>allocated := allocated h1 - 4096 * k, kas := s'\<rparr>)"
      "region_ok s' (M - {b + i} - {b + (i + 1) ..< b + (i + 1) + k})"
    by (rule Suc.IH [OF _ q p])
  have "M - {b + i} - {b + (i + 1) ..< b + (i + 1) + k} = M - {b + i ..< b + i + Suc k}" by auto
  moreover have "shrink_loop i (Suc k) h = shrink_loop (i + 1) k h1"
    using s(1-3) v unfolding shrink_loop.simps Let_def by (simp add: h1_def HEAP_PAGE_SIZE_def)
  ultimately show ?case using Suc.prems(1) [of s'] s' by (simp add: h1_def)
qed

lemma last_block:
  assumes rep: "heap_rep h bs fl" and x: "x \<in> set bs" "x + hsize + len h x = HeapEnd h"
  obtains bp where "bs = bp @ [x]" "tiled h KERN_HeapVirtBegin bp x"
proof -
  obtain bp bq where bs: "bs = bp @ x # bq" using x(1) by (meson split_list)
  have t: "tiled h KERN_HeapVirtBegin bp x" "tiled h (x + hsize + len h x) bq (HeapEnd h)"
    using heap_repD(1) [OF rep] bs by (auto simp: tiled_append)
  have "bq = []"
  proof (cases bq)
    case (Cons y ys)
    then have "y = HeapEnd h" "y + hsize + len h y \<le> HeapEnd h" using t(2) x(2) tiled_bound [OF t(2), of y] by auto
    then show ?thesis by (simp add: hsize_def)
  qed simp
  then show ?thesis using that bs t(1) by simp
qed

text \<open>Dropping what is behind \<open>e\<close>, in the last block \<open>x\<close> or the whole of it.\<close>

lemma rep_cut:
  assumes rep: "heap_rep h (bp @ [x]) (x # gs)" and e: "e mod 4096 = 0" "x + hsize \<le> e" "e \<le> HeapEnd h"
    and h': "HeapEnd h' = e" "allocated h' = e - KERN_HeapVirtBegin" "HeapBegin h' = x" "\<And>y. y \<in> set (bp @ [x]) \<Longrightarrow> magic h' y = magic h y"
      "len h' x = e - x - hsize" "\<And>y. y \<in> set bp \<Longrightarrow> len h' y = len h y"
      "\<And>y. y \<in> set (bp @ [x]) \<Longrightarrow> nxt h' y = nxt h y \<and> prv h' y = prv h y"
  shows "heap_rep h' (bp @ [x]) (x # gs)"
proof (rule heap_repI)
  have xb: "x \<in> set (bp @ [x])" by simp
  have t: "tiled h KERN_HeapVirtBegin bp x" using heap_repD(1) [OF rep] by (auto simp: tiled_append)
  have "tiled h' KERN_HeapVirtBegin bp x" by (rule tiled_cong [OF t]) (simp add: h')
  moreover have "len h' x mod 16 = 0"
  proof -
    have "4096 dvd e" using e(1) by (simp only: dvd_eq_mod_eq_0)
    moreover have "(16 :: nat) dvd 4096" by simp
    ultimately have "16 dvd e" by (rule dvd_trans [rotated])
    then have "16 dvd e - x - 32" using heap_block(4) [OF rep xb] by (intro dvd_diff_nat) auto
    then show ?thesis by (simp add: h'(5) hsize_def)
  qed
  moreover have "magic h' x = KERN_HeapMagicFree" using heap_repD(4) [OF rep, of x] by (simp add: h')
  ultimately show "tiled h' KERN_HeapVirtBegin (bp @ [x]) (HeapEnd h')"
    using e(2) by (auto simp: tiled_append h'(1,5))
  have fb: "y \<in> set (bp @ [x])" if "y \<in> set (x # gs)" for y using free_in_blocks [OF rep that] .
  show "seg (nxt h') (prv h') 0 (x # gs) 0" by (rule seg_cong [OF heap_repD(2) [OF rep]]) (use fb h'(7) in blast)
  show "y \<in> set (x # gs) \<longleftrightarrow> y \<in> set (bp @ [x]) \<and> magic h' y = KERN_HeapMagicFree" for y
    using heap_repD(4) [OF rep, of y] h'(4) by auto
  show "nxt h' y = 0 \<and> prv h' y = 0" if "y \<in> set (bp @ [x])" "magic h' y = KERN_HeapMagicTaken" for y
    using that heap_repD(7) [OF rep that(1)] h'(4,7) [OF that(1)] by simp
qed (use heap_repD(3) [OF rep] e h' in auto)

lemma rep_drop:
  assumes rep: "heap_rep h (bp @ [x]) (x # gs)" and g: "gs \<noteq> []" and e: "x mod 4096 = 0"
    and h': "HeapEnd h' = x" "allocated h' = x - KERN_HeapVirtBegin" "HeapBegin h' = hd gs" "\<And>y. y \<in> set bp \<Longrightarrow> magic h' y = magic h y"
      "\<And>y. y \<in> set bp \<Longrightarrow> len h' y = len h y" "\<And>y. y \<in> set bp \<Longrightarrow> nxt h' y = nxt h y"
      "\<And>y. y \<in> set bp \<Longrightarrow> prv h' y = (if y = hd gs then 0 else prv h y)"
  shows "heap_rep h' bp gs"
proof (rule heap_repI)
  have t: "tiled h KERN_HeapVirtBegin bp x" using heap_repD(1) [OF rep] by (auto simp: tiled_append)
  have d: "distinct (bp @ [x])" by (rule tiled_distinct [OF heap_repD(1) [OF rep]])
  show "tiled h' KERN_HeapVirtBegin bp (HeapEnd h')" unfolding h'(1) by (rule tiled_cong [OF t]) (simp add: h')
  have dg: "distinct (x # gs)" by (rule heap_repD(3) [OF rep])
  have fb: "y \<in> set bp" if "y \<in> set gs" for y using free_in_blocks [OF rep, of y] that dg by auto
  have sg: "seg (nxt h) (prv h) x gs 0" using heap_repD(2) [OF rep] by simp
  show "seg (nxt h') (prv h') 0 gs 0" by (rule seg_first [OF sg]) (use dg fb h'(6,7) in auto)
  show "y \<in> set gs \<longleftrightarrow> y \<in> set bp \<and> magic h' y = KERN_HeapMagicFree" for y
    using heap_repD(4) [OF rep, of y] h'(4) [of y] d dg fb [of y] by auto
  show "nxt h' y = 0 \<and> prv h' y = 0" if y: "y \<in> set bp" "magic h' y = KERN_HeapMagicTaken" for y
    using heap_repD(7) [OF rep, of y] y h'(4,6,7) [OF y(1)] by auto
qed (use heap_repD(3) [OF rep] g e h' in auto)

lemma alloc_same:
  assumes "heap_rep h bs fl" "heap_rep h' bs' fl'"
    "\<And>y. y \<in> set bs' \<and> magic h' y = KERN_HeapMagicTaken \<longleftrightarrow> y \<in> set bs \<and> magic h y = KERN_HeapMagicTaken"
    "\<And>y. y \<in> set bs \<Longrightarrow> magic h y = KERN_HeapMagicTaken \<Longrightarrow> len h' y = len h y"
  shows "alloc h' = alloc h"
  using assms(3,4) by (intro ext) (auto simp: alloc_rep [OF assms(1)] alloc_rep [OF assms(2)])

text \<open>The end of the heap moves down to the page \<open>e\<close> and the pages behind it are given back.\<close>

lemma cut_pages:
  assumes pg: "pages_ok h" and e: "e mod 4096 = 0" "KERN_HeapVirtBegin \<le> e" "e \<le> HeapEnd h"
    and al: "allocated h = HeapEnd h - KERN_HeapVirtBegin"
  obtains h' where "shrink_loop 0 ((HeapEnd h - e) div HEAP_PAGE_SIZE) (h\<lparr>HeapEnd := e\<rparr>) = Some h'" "pages_ok h'" "HeapEnd h' = e"
    "allocated h' = e - KERN_HeapVirtBegin" "hdr h' = hdr h" "dat h' = dat h" "used h' = used h" "HeapBegin h' = HeapBegin h"
proof -
  obtain n where n: "HeapEnd h = KERN_HeapVirtBegin + 4096 * n" "region_ok (kas h) {..< n}" using pg by (auto simp: pages_ok_def)
  have "4096 dvd e - KERN_HeapVirtBegin" by (rule dvd_diff_nat) (use e(1) in \<open>auto simp: KERN_HeapVirtBegin_def dvd_eq_mod_eq_0\<close>)
  then obtain b where b: "e = KERN_HeapVirtBegin + 4096 * b" using e(2) by (metis dvd_def le_add_diff_inverse)
  have bn: "b \<le> n" using e(3) n(1) b by simp
  have k: "(HeapEnd h - e) div HEAP_PAGE_SIZE = n - b" using n(1) b bn by (simp add: HEAP_PAGE_SIZE_def diff_mult_distrib2 [symmetric])
  have r: "region_ok (kas (h\<lparr>HeapEnd := e\<rparr>)) {..< n}" "HeapEnd (h\<lparr>HeapEnd := e\<rparr>) = KERN_HeapVirtBegin + 4096 * b" using n b by simp_all
  obtain s where s: "shrink_loop 0 (n - b) (h\<lparr>HeapEnd := e\<rparr>) =
      Some ((h\<lparr>HeapEnd := e\<rparr>)\<lparr>allocated := allocated (h\<lparr>HeapEnd := e\<rparr>) - 4096 * (n - b), kas := s\<rparr>)"
      "region_ok s ({..< n} - {b + 0 ..< b + 0 + (n - b)})"
    by (rule shrink_loop_ok [OF r(2,1), of 0 "n - b"]) (use bn in auto)
  have "{..< n} - {b + 0 ..< b + 0 + (n - b)} = {..< b}" using bn by auto
  then have s2: "region_ok s {..< b}" using s(2) by simp
  have a: "allocated h - 4096 * (n - b) = e - KERN_HeapVirtBegin" using al n(1) b bn by (simp add: diff_mult_distrib2)
  let ?h = "(h\<lparr>HeapEnd := e\<rparr>)\<lparr>allocated := allocated (h\<lparr>HeapEnd := e\<rparr>) - 4096 * (n - b), kas := s\<rparr>"
  have "shrink_loop 0 ((HeapEnd h - e) div HEAP_PAGE_SIZE) (h\<lparr>HeapEnd := e\<rparr>) = Some ?h" unfolding k by (rule s(1))
  moreover have "pages_ok ?h" unfolding pages_ok_def using s2 b by (intro exI [of _ b]) simp
  ultimately show ?thesis using that [of ?h] a by simp
qed

lemma try_shrink_ok:
  assumes rep: "heap_rep h bs (x # gs)" and pg: "pages_ok h" and g: "gs \<noteq> []"
  obtains ret h' where "try_shrink_heap x h = Some (ret, h')" "ret \<noteq> 0" "prv h' ret = 0" "heap_ok (h'\<lparr>HeapBegin := ret\<rparr>)"
    "alloc (h'\<lparr>HeapBegin := ret\<rparr>) = alloc h" "dat h' = dat h" "used h' = used h"
proof -
  have rep0: "heap_rep h bs ([] @ x # gs)" using rep by simp
  note x = free_links [OF rep0]
  have x0: "x \<noteq> 0" using heap_block(1) [OF rep x(1)] .
  have px: "prv h x = 0" using x(4) by simp
  have hx: "HeapBegin h = x" using heap_repD(6) [OF rep] by simp
  show ?thesis
  proof (cases "x + hsize + len h x = HeapEnd h \<and> \<not> len h x + hsize < HEAP_PAGE_SIZE * 3")
    case False
    then have "try_shrink_heap x h = Some (x, h)" using px by (auto simp: try_shrink_heap_def)
    moreover have "h\<lparr>HeapBegin := x\<rparr> = h" using hx by simp
    ultimately show ?thesis using that [of x h] x0 px rep pg by (auto simp: heap_ok_def)
  next
    case True
    then have xe: "x + hsize + len h x = HeapEnd h" and xl: "len h x + hsize \<ge> 3 * 4096" by (auto simp: HEAP_PAGE_SIZE_def)
    obtain bp where bp: "bs = bp @ [x]" "tiled h KERN_HeapVirtBegin bp x" by (rule last_block [OF rep x(1) xe])
    note rep1 = rep [unfolded bp(1)]
    have gx: "hd gs \<noteq> x" "hd gs \<in> set bp" "hd gs \<noteq> 0" "nxt h x = hd gs" using x(3,6) g bp(1) by auto
    have d: "x \<notin> set bp" using tiled_distinct [OF heap_repD(1) [OF rep1]] by simp
    show ?thesis
    proof (cases "x mod 4096 = 0")
      case al: True
      define h1 where "h1 = set_prv (hd gs) 0 h"
      obtain h2 where h2: "shrink_loop 0 ((HeapEnd h1 - x) div HEAP_PAGE_SIZE) (h1\<lparr>HeapEnd := x\<rparr>) = Some h2" "pages_ok h2" "HeapEnd h2 = x"
          "allocated h2 = x - KERN_HeapVirtBegin" "hdr h2 = hdr h1" "dat h2 = dat h1" "used h2 = used h1" "HeapBegin h2 = HeapBegin h1"
        by (rule cut_pages [of h1 x]) (use pg al heap_block(2) [OF rep x(1)] xe heap_repD(9) [OF rep] in \<open>auto simp: h1_def\<close>)
      have "(len h x + hsize) mod 4096 = 0"
      proof -
        have "4096 dvd HeapEnd h - x" by (rule dvd_diff_nat) (use heap_repD(8) [OF rep] al in \<open>auto simp: dvd_eq_mod_eq_0\<close>)
        moreover have "HeapEnd h - x = len h x + hsize" using xe by simp
        ultimately show ?thesis by (simp only: dvd_eq_mod_eq_0)
      qed
      moreover have "HeapEnd h1 - x = len h x + hsize" using xe by (simp add: h1_def)
      ultimately have t: "try_shrink_heap x h = Some (hd gs, h2)"
        using px xe xl al gx h2(1) by (simp add: try_shrink_heap_def h1_def HEAP_PAGE_SIZE_def Let_def)
      have rep2: "heap_rep (h2\<lparr>HeapBegin := hd gs\<rparr>) bp gs"
        by (rule rep_drop [OF rep1 g al]) (use h2 in \<open>auto simp: h1_def\<close>)
      have "alloc (h2\<lparr>HeapBegin := hd gs\<rparr>) = alloc h"
        by (rule alloc_same [OF rep rep2]) (use bp(1) x(2) d in \<open>auto simp: h2 h1_def\<close>)
      then show ?thesis using that [OF t] gx rep2 h2 by (auto simp: heap_ok_def h1_def)
    next
      case al: False
      define diff where "diff = (let diff = 0x1000 - x mod 4096 in if diff \<le> hsize then diff + 0x1000 else diff)"
      have df: "diff > hsize" "diff \<le> 4096 + hsize" "(x + diff) mod 4096 = 0"
      proof -
        have "x mod 4096 < 4096" by simp
        then show "diff > hsize" "diff \<le> 4096 + hsize" by (auto simp: diff_def Let_def hsize_def)
        have e: "x + (4096 - x mod 4096) = (x div 4096 + 1) * 4096" "x + (4096 - x mod 4096 + 4096) = (x div 4096 + 2) * 4096"
          using div_mult_mod_eq [of x 4096] \<open>x mod 4096 < 4096\<close> by (simp_all only: add_mult_distrib)
        have "x + diff = (x div 4096 + 1) * 4096 \<or> x + diff = (x div 4096 + 2) * 4096" unfolding diff_def Let_def using e by auto
        then show "(x + diff) mod 4096 = 0" by (metis mod_mult_self2_is_0)
      qed
      define z where "z = x + hsize + (diff - hsize)"
      have ze: "z = x + diff" using df by (simp add: z_def)
      have l: "len h x > (diff - hsize) + hsize" using df xl by (simp add: hsize_def)
      have zb: "z \<notin> set bs" by (rule inner_not_block [OF heap_repD(1) [OF rep] x(1)]) (use l df ze in auto)
      have nx: "nxt h x \<noteq> x" "nxt h x \<noteq> z" using gx zb bp(1) by auto
      obtain h1 where h1: "split_entry x (diff - hsize) h = Some (z, h1)"
          "\<And>y. magic h1 y = (if y = z then KERN_HeapMagicFree else magic h y)"
          "\<And>y. len h1 y = (if y = x then diff - hsize else if y = z then len h x - (diff - hsize) - hsize else len h y)"
          "\<And>y. nxt h1 y = (if y = x then z else if y = z then nxt h x else nxt h y)"
          "\<And>y. prv h1 y = (if y = z then x else if nxt h x \<noteq> 0 \<and> y = nxt h x then z else prv h y)"
          "HeapEnd h1 = HeapEnd h" "allocated h1 = allocated h" "HeapBegin h1 = HeapBegin h" "dat h1 = dat h" "used h1 = used h" "kas h1 = kas h"
        by (rule split_entry_ok [OF l heap_block(2,3) [OF rep x(1)] heap_repD(9) [OF rep] z_def nx]) blast
      define h2 where "h2 = set_prv (hd gs) x (set_nxt x (hd gs) h1)"
      have xz: "x \<noteq> z" "hd gs \<noteq> z" using ze df gx zb bp(1) by auto
      have zle: "z \<le> HeapEnd h" "KERN_HeapVirtBegin \<le> z" using ze l df xe heap_block(2) [OF rep x(1)] by auto
      obtain h3 where h3: "shrink_loop 0 ((HeapEnd h2 - z) div HEAP_PAGE_SIZE) (h2\<lparr>HeapEnd := z\<rparr>) = Some h3" "pages_ok h3" "HeapEnd h3 = z"
          "allocated h3 = z - KERN_HeapVirtBegin" "hdr h3 = hdr h2" "dat h3 = dat h2" "used h3 = used h2" "HeapBegin h3 = HeapBegin h2"
      proof (rule cut_pages [of h2 z])
        show "pages_ok h2" using pg by (simp add: h2_def pages_ok_def h1)
      qed (use df ze zle heap_repD(9) [OF rep] in \<open>auto simp: h2_def h1\<close>)
      have tl: "len h2 z + hsize = HeapEnd h2 - z" using xz l df ze xe by (simp add: h2_def h1)
      have "4096 dvd HeapEnd h2 - z" by (rule dvd_diff_nat) (use heap_repD(8) [OF rep] df ze in \<open>auto simp: dvd_eq_mod_eq_0 h2_def h1\<close>)
      then have "(len h2 z + hsize) mod 4096 = 0" unfolding tl by (simp only: dvd_eq_mod_eq_0)
      moreover have "prv h1 z = x" "nxt h1 z = hd gs" "z \<noteq> x" "(if 4096 - x mod 4096 \<le> hsize then 4096 - x mod 4096 + 4096 else 4096 - x mod 4096) = diff"
        using xz gx by (simp_all add: h1 diff_def Let_def)
      moreover have "z mod 4096 = 0" using df ze by simp
      moreover have "shrink_loop 0 ((len h2 z + hsize) div HEAP_PAGE_SIZE) (h2\<lparr>HeapEnd := z\<rparr>) = Some h3" unfolding tl by (rule h3(1))
      ultimately have t: "try_shrink_heap x h = Some (x, h3)"
        using px xe xl al h1(1) gx(3) by (simp add: try_shrink_heap_def HEAP_PAGE_SIZE_def Let_def h2_def split del: if_split)
      have "prv h (hd gs) = x" using heap_repD(2) [OF rep] g by (cases gs) auto
      then have rep2: "heap_rep (h3\<lparr>HeapBegin := x\<rparr>) (bp @ [x]) (x # gs)"
        by (intro rep_cut [OF rep1, of z])
          (use df ze zle h3 xz gx zb bp(1) d x(6) g heap_repD(2) [OF rep] in \<open>auto simp: h2_def h1\<close>)
      have "alloc (h3\<lparr>HeapBegin := x\<rparr>) = alloc h"
        by (rule alloc_same [OF rep rep2]) (use bp(1) x(2) d zb xz in \<open>auto simp: h3 h2_def h1\<close>)
      then show ?thesis using that [OF t x0] rep2 h3 px gx xz nx by (auto simp: heap_ok_def h2_def h1)
    qed
  qed
qed

section \<open>Freeing\<close>

text \<open>The free blocks that follow the block \<open>x\<close> without a gap.\<close>

definition free_run :: "kheap \<Rightarrow> nat \<Rightarrow> nat list" where
  "free_run h x = takeWhile (\<lambda>y. magic h y = KERN_HeapMagicFree) (blocks h (x + hsize + len h x))"

lemma free_run_rep:
  assumes rep: "heap_rep h bs fl" and x: "x \<in> set bs"
  obtains bp rest where "bs = bp @ x # free_run h x @ rest" "rest = [] \<or> magic h (hd rest) = KERN_HeapMagicTaken"
    "\<forall>y \<in> set (free_run h x). y \<in> set fl"
proof -
  obtain bp bq where bs: "bs = bp @ x # bq" using x by (meson split_list)
  have "tiled h (x + hsize + len h x) bq (HeapEnd h)" using heap_repD(1) [OF rep] bs by (auto simp: tiled_append)
  then have bq: "blocks h (x + hsize + len h x) = bq" by (rule tiled_blocks)
  let ?P = "\<lambda>y. magic h y = KERN_HeapMagicFree"
  let ?rest = "dropWhile ?P bq"
  have r: "free_run h x = takeWhile ?P bq" by (simp add: free_run_def bq)
  have "?rest = [] \<or> magic h (hd ?rest) = KERN_HeapMagicTaken"
  proof (cases "?rest = []")
    case False
    then have "\<not> ?P (hd ?rest)" by (rule hd_dropWhile)
    moreover have "hd ?rest \<in> set bs" using False bs by (metis UnCI hd_in_set list.set_intros(2) set_append set_dropWhileD)
    ultimately show ?thesis using heap_block(6) [OF rep] by blast
  qed simp
  moreover have "\<forall>y \<in> set (free_run h x). y \<in> set fl"
    using heap_repD(4) [OF rep] bs unfolding r by (auto dest: set_takeWhileD)
  ultimately show ?thesis using that [of bp ?rest] bs r by simp
qed

lemma alloc_less:
  assumes "heap_rep h bs fl" "heap_rep h' bs' fl'"
    "\<And>y. y \<in> set bs' \<and> magic h' y = KERN_HeapMagicTaken \<longleftrightarrow> y \<noteq> x \<and> y \<in> set bs \<and> magic h y = KERN_HeapMagicTaken"
    "\<And>y. y \<noteq> x \<Longrightarrow> y \<in> set bs \<Longrightarrow> magic h y = KERN_HeapMagicTaken \<Longrightarrow> len h' y = len h y"
  shows "alloc h' = (alloc h)(x + hsize := None)"
proof
  fix a
  show "alloc h' a = ((alloc h)(x + hsize := None)) a"
    using assms(3,4) [of "a - hsize"] by (auto simp: alloc_rep [OF assms(1)] alloc_rep [OF assms(2)])
qed

lemma allocD:
  assumes "heap_rep h bs fl" "alloc h a = Some n"
  obtains x where "a = x + hsize" "x \<in> set bs" "magic h x = KERN_HeapMagicTaken" "len h x = n"
proof -
  have "hsize \<le> a" "a - hsize \<in> set bs" "magic h (a - hsize) = KERN_HeapMagicTaken" "len h (a - hsize) = n"
    using assms(2) by (auto simp: alloc_rep [OF assms(1)] split: if_splits)
  then show ?thesis using that [of "a - hsize"] by simp
qed

text \<open>
  Freeing a block puts it in front of the free list, merges the free blocks behind it into it and
  gives whole pages at the end of the heap back.  When every free block is among those that are merged,
  the merge writes through the null pointer at the end of the list.
\<close>

definition link_free :: "nat \<Rightarrow> kheap \<Rightarrow> kheap" where
  "link_free x h = set_magic x KERN_HeapMagicFree
     ((set_prv (HeapBegin h) x (set_nxt x (HeapBegin h) (h\<lparr>used := used h - word_of_nat (len h x)\<rparr>)))\<lparr>HeapBegin := x\<rparr>)"

lemma link_free_simps [simp]:
  "magic (link_free x h) y = (if y = x then KERN_HeapMagicFree else magic h y)" "len (link_free x h) y = len h y"
  "nxt (link_free x h) y = (if y = x then HeapBegin h else nxt h y)" "prv (link_free x h) y = (if y = HeapBegin h then x else prv h y)"
  "HeapBegin (link_free x h) = x" "HeapEnd (link_free x h) = HeapEnd h" "allocated (link_free x h) = allocated h"
  "used (link_free x h) = used h - word_of_nat (len h x)" "dat (link_free x h) = dat h" "kas (link_free x h) = kas h"
  by (simp_all add: link_free_def)

lemma rep_free:
  assumes rep: "heap_rep h bs fl" and x: "x \<in> set bs" "magic h x = KERN_HeapMagicTaken"
  shows "heap_rep (link_free x h) bs (x # fl)"
proof (rule heap_repI)
  let ?h = "link_free x h"
  have f1: "x \<notin> set fl" using heap_repD(4) [OF rep, of x] x(2) by simp
  have f2: "HeapBegin h \<in> set fl" using hd_in_set [OF heap_repD(5) [OF rep]] heap_repD(6) [OF rep] by simp
  have f: "x \<notin> set fl" "HeapBegin h \<in> set fl" "HeapBegin h \<noteq> x" using f1 f2 by auto
  show "tiled ?h KERN_HeapVirtBegin bs (HeapEnd ?h)"
    using tiled_cong [OF heap_repD(1) [OF rep], of ?h] by simp
  have "seg (nxt ?h) (prv ?h) x fl 0"
    by (rule seg_first [OF heap_repD(2,3) [OF rep]]) (use f heap_repD(6) [OF rep] in auto)
  then show "seg (nxt ?h) (prv ?h) 0 (x # fl) 0"
    using heap_repD(5,6,7) [OF rep] x f(3) by (auto simp: hd_append)
  show "y \<in> set (x # fl) \<longleftrightarrow> y \<in> set bs \<and> magic ?h y = KERN_HeapMagicFree" for y
    using heap_repD(4) [OF rep, of y] x(1) by auto
  show "nxt ?h y = 0 \<and> prv ?h y = 0" if y: "y \<in> set bs" "magic ?h y = KERN_HeapMagicTaken" for y
  proof -
    have t: "y \<noteq> x" "magic h y = KERN_HeapMagicTaken" using y(2) by (auto split: if_splits)
    then have "y \<noteq> HeapBegin h" using f(2) heap_repD(4) [OF rep, of y] by auto
    then show ?thesis using t heap_repD(7) [OF rep y(1)] by simp
  qed
  show "distinct (x # fl)" using heap_repD(3) [OF rep] f(1) by simp
qed (use heap_repD(8,9) [OF rep] in simp_all)

lemma kfree_link:
  assumes rep: "heap_rep h bs fl" and x: "x \<in> set bs" "magic h x = KERN_HeapMagicTaken"
  shows "kfree (x + hsize) h = do {
     h \<leftarrow> merge_loop x (x + hsize + len (link_free x h) x) (link_free x h);
     if prv h x \<noteq> 0 then None
     else do { (ret, h) \<leftarrow> try_shrink_heap x h; if ret = 0 \<or> prv h ret \<noteq> 0 then None else Some (h\<lparr>HeapBegin := ret\<rparr>) } }"
proof -
  have b: "magic h (HeapBegin h) = KERN_HeapMagicFree" "prv h (HeapBegin h) = 0"
    using heap_repD(2,5,6) [OF rep] free_list_facts [OF rep, of "hd fl"] by (cases fl; auto)+
  then have "HeapBegin h \<noteq> x" using x(2) by auto
  then have "try_merge_fwd x (link_free x h) = merge_loop x (x + hsize + len (link_free x h) x) (link_free x h)"
    using heap_repD(7) [OF rep x] by (simp add: try_merge_fwd_def)
  then show ?thesis
    using heap_repD(7) [OF rep x] x(2) b unfolding kfree_def link_free_def [symmetric] by (simp add: Let_def link_free_def cong: if_cong)
qed

lemma kfree_ok:
  assumes rep: "heap_rep h bs fl" and pg: "pages_ok h" and x: "x \<in> set bs" "magic h x = KERN_HeapMagicTaken"
    and g: "g \<in> set fl" "g \<notin> set (free_run h x)"
  obtains h' where "kfree (x + hsize) h = Some h'" "heap_ok h'" "alloc h' = (alloc h)(x + hsize := None)" "dat h' = dat h"
    "used h' = used h - word_of_nat (len h x)"
proof -
  let ?h = "link_free x h"
  obtain bp rest where bs: "bs = bp @ x # free_run h x @ rest" "rest = [] \<or> magic h (hd rest) = KERN_HeapMagicTaken"
      "\<forall>y \<in> set (free_run h x). y \<in> set fl"
    by (rule free_run_rep [OF rep x(1)])
  have "distinct bs" by (rule tiled_distinct [OF heap_repD(1) [OF rep]])
  then have "rest \<noteq> [] \<Longrightarrow> hd rest \<noteq> x" using hd_in_set [of rest] by (auto simp: bs(1))
  then have m: "\<forall>y \<in> set (free_run h x). magic ?h y = KERN_HeapMagicFree" "rest = [] \<or> magic ?h (hd rest) = KERN_HeapMagicTaken"
    using bs(2,3) heap_repD(4) [OF rep] by auto
  obtain h2 gs where h2: "merge_loop x (x + hsize + len ?h x) ?h = Some h2" "heap_rep h2 (bp @ x # rest) (x # gs)"
      "set gs = set fl - set (free_run h x)" "merges x (free_run h x) ?h h2"
    by (rule merge_ok [OF rep_free [OF rep x, unfolded bs(1)] m g])
  have mg: "kas h2 = kas h" "HeapEnd h2 = HeapEnd h" "dat h2 = dat h" "used h2 = used h - word_of_nat (len h x)"
      "\<And>y. magic h2 y = (if y = x then KERN_HeapMagicFree else magic h y)" "\<And>y. y \<noteq> x \<Longrightarrow> len h2 y = len h y"
    using h2(4) unfolding merges_def by simp_all
  have "pages_ok h2" "gs \<noteq> []" using pg g h2(3) by (auto simp: pages_ok_def mg)
  then obtain ret h3 where h3: "try_shrink_heap x h2 = Some (ret, h3)" "ret \<noteq> 0" "prv h3 ret = 0" "heap_ok (h3\<lparr>HeapBegin := ret\<rparr>)"
    "alloc (h3\<lparr>HeapBegin := ret\<rparr>) = alloc h2" "dat h3 = dat h2" "used h3 = used h2"
    by (rule try_shrink_ok [OF h2(2)])
  have "kfree (x + hsize) h = Some (h3\<lparr>HeapBegin := ret\<rparr>)"
    using heap_repD(2) [OF h2(2)] h2(1) h3(1-3) by (simp add: kfree_link [OF rep x] del: link_free_simps)
  moreover have "alloc h2 = (alloc h)(x + hsize := None)"
    by (rule alloc_less [OF rep h2(2)]) (use bs(3) heap_repD(4) [OF rep] in \<open>auto simp: mg bs(1)\<close>)
  ultimately show ?thesis using that h3(4-7) mg(3,4) by simp
qed

lemma kfree_panic:
  assumes rep: "heap_rep h bs fl" and x: "x \<in> set bs" "magic h x = KERN_HeapMagicTaken"
    and g: "set fl \<subseteq> set (free_run h x)"
  shows "kfree (x + hsize) h = None"
proof -
  obtain bp rest where bs: "bs = bp @ x # free_run h x @ rest" "\<forall>y \<in> set (free_run h x). y \<in> set fl"
    by (rule free_run_rep [OF rep x(1)])
  have m: "\<forall>y \<in> set (free_run h x). magic (link_free x h) y = KERN_HeapMagicFree"
    using bs(2) heap_repD(4) [OF rep] by simp
  have s: "set fl = set (free_run h x)" using g bs(2) by auto
  then have "free_run h x \<noteq> []" using heap_repD(5) [OF rep] by auto
  then show ?thesis
    using merge_panic [OF rep_free [OF rep x, unfolded bs(1)] m s] by (simp add: kfree_link [OF rep x] del: link_free_simps)
qed

section \<open>Starting\<close>

lemma init_kern_heap_ok:
  assumes r: "region_ok s {}" and av: "card (avail_frames (frames s)) \<ge> 4 + k"
  obtains h where "init_kern_heap hdr0 dat0 s = Some h" "heap_rep h [KERN_HeapVirtBegin] [KERN_HeapVirtBegin]" "pages_ok h"
    "len h KERN_HeapVirtBegin = 4064" "room h \<ge> k div 4" "used h = 0"
proof -
  obtain p m s' where s: "get4k (frames s) = Some (p, m)" "p \<noteq> 0"
      "map_page (heap_page 0) (HHDM_V2P p) (ucast PAGE_RW) (s\<lparr>frames := m\<rparr>) = Some s'"
      "region_ok s' (insert 0 {})" "card (avail_frames (frames s')) \<ge> k"
    by (rule region_map [OF r _ _ av, of 0]) auto
  define h where "h = \<lparr>HeapBegin = KERN_HeapVirtBegin, HeapEnd = KERN_HeapVirtBegin + HEAP_PAGE_SIZE, allocated = HEAP_PAGE_SIZE, used = 0,
         hdr = hdr0(KERN_HeapVirtBegin := \<lparr>he_magic = KERN_HeapMagicFree, he_next = 0, he_prev = 0, he_len = HEAP_PAGE_SIZE - hsize\<rparr>),
         dat = dat0, kas = s'\<rparr>"
  have "init_kern_heap hdr0 dat0 s = Some h" using s(1-3) by (simp add: init_kern_heap_def h_def heap_page_def)
  moreover have "heap_rep h [KERN_HeapVirtBegin] [KERN_HeapVirtBegin]"
    by (simp add: heap_rep_def h_def HEAP_PAGE_SIZE_def hsize_def) (simp add: KERN_HeapVirtBegin_def)
  moreover have "pages_ok h" unfolding pages_ok_def using s(4)
    by (intro exI [of _ 1]) (simp add: h_def HEAP_PAGE_SIZE_def lessThan_Suc)
  moreover have "room h \<ge> k div 4" using s(5) by (simp add: room_def h_def div_le_mono)
  ultimately show ?thesis using that by (simp add: h_def HEAP_PAGE_SIZE_def hsize_def)
qed

text \<open>The address space of the kernel does not record the frames of its tables.\<close>

lemma example_kernel:
  obtains s where "aspace_new 0xffffffff80000000 (\<lambda>a. 0) example_mem = Some s" "region_ok (s\<lparr>taken_pages := None\<rparr>) {}"
    "card (avail_frames (frames (s\<lparr>taken_pages := None\<rparr>))) = 19"
proof -
  obtain s where s: "aspace_new 0xffffffff80000000 (\<lambda>a. 0) example_mem = Some s" "pt_ok s" "\<And>v. translation s v = Absent"
    "card (avail_frames (frames s)) = 19" using example_aspace by blast
  let ?s = "s\<lparr>taken_pages := None\<rparr>"
  have e: "pte ?s = pte s" by (intro ext) (simp add: pte_def)
  have w: "walk ?s t p = walk s t p" for t p by (induction p arbitrary: t) (simp_all add: e)
  have "resolve ?s t p = resolve s t p" for t p by (induction p arbitrary: t) (simp_all add: e)
  then have t: "translation ?s = translation s" by (intro ext) (simp add: translation_def)
  have h: "in_hhdm ?s = in_hhdm s" by (simp add: in_hhdm_def)
  have "pt_ok ?s" using pt_okD [OF s(2)] by (intro pt_okI) (simp_all add: e w h)
  then have "region_ok ?s {}" by (simp add: region_ok_def t s(3))
  then show ?thesis using that s(1,4) by simp
qed

lemma example_heap:
  obtains s h where "aspace_new 0xffffffff80000000 (\<lambda>a. 0) example_mem = Some s"
    "init_kern_heap (\<lambda>a. \<lparr>he_magic = 0, he_next = 0, he_prev = 0, he_len = 0\<rparr>) (\<lambda>a. 0) (s\<lparr>taken_pages := None\<rparr>) = Some h"
    "heap_rep h [KERN_HeapVirtBegin] [KERN_HeapVirtBegin]" "pages_ok h" "len h KERN_HeapVirtBegin = 4064" "room h \<ge> 3" "used h = 0"
proof -
  obtain s where s: "aspace_new 0xffffffff80000000 (\<lambda>a. 0) example_mem = Some s" "region_ok (s\<lparr>taken_pages := None\<rparr>) {}"
    "card (avail_frames (frames (s\<lparr>taken_pages := None\<rparr>))) = 19" by (rule example_kernel)
  obtain h where "init_kern_heap (\<lambda>a. \<lparr>he_magic = 0, he_next = 0, he_prev = 0, he_len = 0\<rparr>) (\<lambda>a. 0) (s\<lparr>taken_pages := None\<rparr>) = Some h"
    "heap_rep h [KERN_HeapVirtBegin] [KERN_HeapVirtBegin]" "pages_ok h" "len h KERN_HeapVirtBegin = 4064" "room h \<ge> 15 div 4" "used h = 0"
    by (rule init_kern_heap_ok [OF s(2), of 15]) (use s(3) in simp)
  then show ?thesis using that s(1) by simp
qed

lemma kmalloc_cut:
  assumes rep: "heap_rep h bs [x]" and r: "round_size n = Some m" and l: "len h x > m + hsize"
  obtains h' where "kmalloc n h = Some (x + hsize, h')" "HeapEnd h' = HeapEnd h" "kas h' = kas h" "HeapBegin h' = x + hsize + m"
    "\<And>y. len h' y = (if y = x then m else if y = x + hsize + m then len h x - m - hsize else len h y)"
    "\<And>y. magic h' y = (if y = x then KERN_HeapMagicTaken else if y = x + hsize + m then KERN_HeapMagicFree else magic h y)"
proof -
  have rep0: "heap_rep h bs ([] @ x # [])" using rep by simp
  note x = free_links [OF rep0]
  have b: "HeapBegin h = x" using heap_repD(6) [OF rep] by simp
  have x0: "x \<noteq> 0" "(x + hsize) mod 16 = 0"
    using heap_block(1,4) [OF rep x(1)] by (simp_all add: hsize_def mod_eq_0_iff_dvd)
  obtain h1 where h1: "split_entry x m h = Some (x + hsize + m, h1)"
      "\<And>y. magic h1 y = (if y = x + hsize + m then KERN_HeapMagicFree else magic h y)"
      "\<And>y. len h1 y = (if y = x then m else if y = x + hsize + m then len h x - m - hsize else len h y)"
      "HeapEnd h1 = HeapEnd h" "kas h1 = kas h"
    by (rule split_entry_ok [OF l heap_block(2,3) [OF rep x(1)] heap_repD(9) [OF rep] refl]) (use x x0 in auto)
  have "take_part 0 x m h = Some (set_prv (x + hsize + m) 0 (h1\<lparr>HeapBegin := x + hsize + m\<rparr>))"
    using h1(1) by (simp add: take_part_def)
  then have "search 0 x m h = Some (Inl x, set_prv (x + hsize + m) 0 (h1\<lparr>HeapBegin := x + hsize + m\<rparr>))"
    using x(2) l by (subst search.simps) simp
  then have "kmalloc n h = Some (x + hsize, (fill_data (x + hsize) m (mark_taken x
      (set_prv (x + hsize + m) 0 (h1\<lparr>HeapBegin := x + hsize + m\<rparr>))))\<lparr>used := used h1 + word_of_nat m\<rparr>)"
    using b r x(2) x0(2) by (simp add: kmalloc_def mark_taken_def Let_def)
  then show ?thesis by (rule that) (simp_all add: h1)
qed

lemma singleton_list: "set xs = {x} \<Longrightarrow> distinct xs \<Longrightarrow> xs = [x]"
  by (cases xs; cases "tl xs") auto

text \<open>The first block is cut off the only free block, then another; \<open>B\<close> is the beginning of the heap.\<close>

lemma example_cut:
  assumes rep: "heap_rep h bs [x]" and pg: "pages_ok h" and l: "len h x > 144" and r: "room h \<ge> 1"
  obtains h' where "kmalloc 100 h = Some (x + 32, h')" "heap_ok h'" "alloc h' = (alloc h)(x + 32 \<mapsto> 112)" "HeapEnd h' = HeapEnd h" "room h' = room h"
    "\<And>y. len h' y = (if y = x then 112 else if y = x + 144 then len h x - 144 else len h y)"
    "\<And>y. magic h' y = (if y = x then KERN_HeapMagicTaken else if y = x + 144 then KERN_HeapMagicFree else magic h y)"
proof -
  have f: "x \<in> set [x]" "fits 112 h x" using l by (simp_all add: fits_def hsize_def)
  have m: "112 mod 16 = (0 :: nat)" by simp
  obtain z h1 where z: "find_block 112 h = Some (z, h1)" "allocates h z 112 (mark_taken z h1)"
    by (rule find_block_fit [OF rep pg m r f]) blast
  have rs: "round_size 100 = Some 112" by (simp add: round_size_def)
  note k = kmalloc_find [OF rep rs z]
  have lh: "len h x > 112 + hsize" using l by (simp add: hsize_def)
  obtain h' where h': "kmalloc 100 h = Some (x + hsize, h')" "HeapEnd h' = HeapEnd h" "kas h' = kas h" "HeapBegin h' = x + hsize + 112"
    "\<And>y. len h' y = (if y = x then 112 else if y = x + hsize + 112 then len h x - 112 - hsize else len h y)"
    "\<And>y. magic h' y = (if y = x then KERN_HeapMagicTaken else if y = x + hsize + 112 then KERN_HeapMagicFree else magic h y)"
    by (rule kmalloc_cut [OF rep rs lh]) blast
  have "heap_ok h'" "alloc h' = (alloc h)(x + hsize \<mapsto> 112)" using k(1-3) h'(1) by auto
  then show ?thesis using h' that [of h'] by (simp add: hsize_def room_def)
qed

lemma example_first:
  obtains s h h1 where "aspace_new 0xffffffff80000000 (\<lambda>a. 0) example_mem = Some s"
    "init_kern_heap (\<lambda>a. \<lparr>he_magic = 0, he_next = 0, he_prev = 0, he_len = 0\<rparr>) (\<lambda>a. 0) (s\<lparr>taken_pages := None\<rparr>) = Some h"
    "heap_rep h [KERN_HeapVirtBegin] [KERN_HeapVirtBegin]" "pages_ok h" "len h KERN_HeapVirtBegin = 4064" "room h \<ge> 3"
    "kmalloc 100 h = Some (KERN_HeapVirtBegin + 32, h1)" "heap_ok h1" "room h1 \<ge> 3" "HeapEnd h1 = KERN_HeapVirtBegin + 4096" "len h1 KERN_HeapVirtBegin = 112" "alloc h1 = [KERN_HeapVirtBegin + 32 \<mapsto> 112]"
    "blocks h1 KERN_HeapVirtBegin = [KERN_HeapVirtBegin, KERN_HeapVirtBegin + 144]" "len h1 (KERN_HeapVirtBegin + 144) = 3920"
    "\<And>g. free_block h1 g \<longleftrightarrow> g = KERN_HeapVirtBegin + 144" "free_run h1 KERN_HeapVirtBegin = [KERN_HeapVirtBegin + 144]"
proof -
  define B where "B = KERN_HeapVirtBegin"
  obtain s h where h: "aspace_new 0xffffffff80000000 (\<lambda>a. 0) example_mem = Some s"
    "init_kern_heap (\<lambda>a. \<lparr>he_magic = 0, he_next = 0, he_prev = 0, he_len = 0\<rparr>) (\<lambda>a. 0) (s\<lparr>taken_pages := None\<rparr>) = Some h"
    "heap_rep h [B] [B]" "pages_ok h" "len h B = 4064" "room h \<ge> 3"
    unfolding B_def by (rule example_heap)
  have E: "HeapEnd h = B + 4096" using heap_repD(1) [OF h(3)] h(5) by (simp add: hsize_def B_def)
  have "magic h B = KERN_HeapMagicFree" using free_list_facts [OF h(3)] by simp
  then have al: "alloc h = Map.empty" by (intro ext) (auto simp: alloc_rep [OF h(3)])
  have l: "len h B > 144" "room h \<ge> 1" using h(5,6) by simp_all
  obtain h1 where h1: "kmalloc 100 h = Some (B + 32, h1)" "heap_ok h1" "alloc h1 = (alloc h)(B + 32 \<mapsto> 112)" "HeapEnd h1 = HeapEnd h" "room h1 = room h"
    "\<And>y. len h1 y = (if y = B then 112 else if y = B + 144 then len h B - 144 else len h y)"
    "\<And>y. magic h1 y = (if y = B then KERN_HeapMagicTaken else if y = B + 144 then KERN_HeapMagicFree else magic h y)"
    by (rule example_cut [OF h(3,4) l]) blast
  have b: "blocks h1 B = [B, B + 144]" "blocks h1 (B + 144) = [B + 144]"
    using E h(5) by (simp_all add: blocks.simps h1 hsize_def)
  have "free_block h1 g \<longleftrightarrow> g = B + 144" for g unfolding free_block_def B_def [symmetric] b by (auto simp: h1)
  moreover have "B + hsize + len h1 B = B + 144" by (simp add: h1 hsize_def)
  then have "free_run h1 B = [B + 144]" unfolding free_run_def by (simp only: b) (simp add: h1)
  ultimately show ?thesis using that [folded B_def, OF h h1(1,2)] h1(3-6) E al b h(5,6) by simp
qed

section \<open>Properties\<close>

lemma alloc_apart:
  assumes "heap_rep h bs fl" "alloc h a = Some n" "alloc h b = Some m" "a \<noteq> b"
  shows "a + n + hsize \<le> b \<or> b + m + hsize \<le> a"
proof -
  obtain x where x: "a = x + hsize" "x \<in> set bs" "magic h x = KERN_HeapMagicTaken" "len h x = n" by (rule allocD [OF assms(1,2)])
  obtain y where y: "b = y + hsize" "y \<in> set bs" "magic h y = KERN_HeapMagicTaken" "len h y = m" by (rule allocD [OF assms(1,3)])
  show ?thesis using tiled_apart [OF heap_repD(1) [OF assms(1)] x(2) y(2)] x y assms(4) by auto
qed

lemma alloc_range:
  assumes "heap_rep h bs fl" "alloc h a = Some n"
  shows "KERN_HeapVirtBegin + hsize \<le> a \<and> a + n \<le> HeapEnd h \<and> a mod 16 = 0 \<and> n mod 16 = 0"
proof -
  obtain x where x: "a = x + hsize" "x \<in> set bs" "magic h x = KERN_HeapMagicTaken" "len h x = n" by (rule allocD [OF assms])
  have "(x + hsize) mod 16 = 0" using heap_block(4) [OF assms(1) x(2)] by (simp add: hsize_def mod_eq_0_iff_dvd)
  then show ?thesis using heap_block [OF assms(1) x(2)] x by simp
qed

text \<open>
  The data of different allocated blocks do not overlap; a header lies between them.  Every block of data lies
  between the beginning and the end of the heap and starts at a multiple of 16.
\<close>

lemma alloc_disjoint:
  assumes "heap_ok h" "alloc h a = Some n"
  shows "KERN_HeapVirtBegin + hsize \<le> a \<and> a + n \<le> HeapEnd h \<and> a mod 16 = 0 \<and>
    (\<forall>b m. alloc h b = Some m \<longrightarrow> b \<noteq> a \<longrightarrow> a + n + hsize \<le> b \<or> b + m + hsize \<le> a)"
proof -
  obtain bs fl where rep: "heap_rep h bs fl" using assms(1) by (auto simp: heap_ok_def)
  show ?thesis using alloc_range [OF rep assms(2)] alloc_apart [OF rep assms(2)] by blast
qed

lemma kmalloc_ok:
  assumes ok: "heap_ok h" and r: "round_size n = Some m" and room: "room h > (m + 2 * hsize) div 4096"
    and f: "(\<exists>x. free_block h x \<and> fits m h x) \<or> (m + 2 * hsize) mod 4096 \<noteq> 0"
  obtains a h' where "kmalloc n h = Some (a, h')" "heap_ok h'" "alloc h a = None" "alloc h' = (alloc h)(a \<mapsto> m)" "a mod 16 = 0"
    "used h' = used h + word_of_nat m" "\<forall>y. a \<le> y \<and> y < a + m \<longrightarrow> dat h' y = 0xFE"
    "\<forall>b k y. alloc h b = Some k \<longrightarrow> b \<le> y \<and> y < b + k \<longrightarrow> dat h' y = dat h y"
proof -
  obtain bs fl where rep: "heap_rep h bs fl" and pg: "pages_ok h" using ok by (auto simp: heap_ok_def)
  note m = round_size_ok [OF r]
  have "\<exists>x h1. find_block m h = Some (x, h1) \<and> allocates h x m (mark_taken x h1)"
  proof (cases "\<exists>x \<in> set fl. fits m h x")
    case True
    then show ?thesis using find_block_fit [OF rep pg m(3)] room by (metis less_one not_less0 not_le_imp_less order_less_le_trans)
  next
    case False
    then have "(m + 2 * hsize) mod 4096 \<noteq> 0" using f free_block_rep [OF rep] by auto
    then obtain h1 where "take_new (last fl) m h = Some (HeapEnd h, h1)" "allocates h (HeapEnd h) m (mark_taken (HeapEnd h) h1)"
      using take_new_ok [OF rep pg m(3) _ room] by blast
    then show ?thesis using find_block_none [OF rep, of m] False by auto
  qed
  then obtain x h1 where x: "find_block m h = Some (x, h1)" "allocates h x m (mark_taken x h1)" by blast
  note k = kmalloc_find [OF rep r x]
  let ?h = "(fill_data (x + hsize) m (mark_taken x h1))\<lparr>used := used h + word_of_nat m\<rparr>"
  obtain bs' fl' where rep': "heap_rep ?h bs' fl'" using k(2) by (auto simp: heap_ok_def)
  have "dat ?h y = dat h y" if b: "alloc h b = Some i" "b \<le> y" "y < b + i" for b i y
  proof -
    have "b \<noteq> x + hsize" using b(1) k(4) by auto
    then have "alloc ?h b = Some i" "alloc ?h (x + hsize) = Some m" using k(3) b(1) by simp_all
    from alloc_apart [OF rep' this \<open>b \<noteq> x + hsize\<close>] show ?thesis using b(2,3) by (intro k(6)) auto
  qed
  moreover have "dat ?h y = 0xFE" if "x + hsize \<le> y" "y < x + hsize + m" for y using that by (simp add: fill_data_dat)
  ultimately show ?thesis by (intro that [OF k(1,2,4,3,5,7)]) blast+
qed

lemma kmalloc_panic:
  assumes "heap_ok h" "round_size n = Some m" "\<not> ((\<exists>x. free_block h x \<and> fits m h x) \<or> (m + 2 * hsize) mod 4096 \<noteq> 0)"
  shows "kmalloc n h = None"
proof -
  obtain bs fl where rep: "heap_rep h bs fl" using assms(1) by (auto simp: heap_ok_def)
  have n: "(m + 2 * hsize) mod 4096 = 0" "\<And>x. x \<in> set fl \<Longrightarrow> \<not> fits m h x" using assms(3) free_block_rep [OF rep] by auto
  then have "find_block m h = None" using find_block_none [OF rep n(2)] take_new_panic by simp
  then show ?thesis
    using assms(2) by (cases "search 0 (HeapBegin h) m h") (auto simp: kmalloc_def find_block_def)
qed

text \<open>
  C4: \<open>kmalloc\<close> on a sound heap with enough free frames: when a free block fits, or when the size with two headers is not a
  multiple of the page size, it returns the address of a block that was not allocated, at a multiple of 16 and of the
  rounded size, filled with \<open>0xFE\<close>; the heap stays sound, every other block stays allocated with its contents, and \<open>used\<close>
  grows by the size.  Otherwise the new block is too short by one byte to be split and the kernel panics.
\<close>

theorem kmalloc_correct:
  assumes "heap_ok h" "round_size n = Some m" "room h > (m + 2 * hsize) div 4096"
  shows "if (\<exists>x. free_block h x \<and> fits m h x) \<or> (m + 2 * hsize) mod 4096 \<noteq> 0
    then \<exists>a h'. kmalloc n h = Some (a, h') \<and> heap_ok h' \<and> alloc h a = None \<and> alloc h' = (alloc h)(a \<mapsto> m) \<and> n \<le> m \<and> m < n + 16 \<and>
      a mod 16 = 0 \<and> used h' = used h + word_of_nat m \<and> (\<forall>y. a \<le> y \<and> y < a + m \<longrightarrow> dat h' y = 0xFE) \<and>
      (\<forall>b k y. alloc h b = Some k \<longrightarrow> b \<le> y \<and> y < b + k \<longrightarrow> dat h' y = dat h y)
    else kmalloc n h = None"
proof (cases "(\<exists>x. free_block h x \<and> fits m h x) \<or> (m + 2 * hsize) mod 4096 \<noteq> 0")
  case True
  obtain a h' where k: "kmalloc n h = Some (a, h')" "heap_ok h'" "alloc h a = None" "alloc h' = (alloc h)(a \<mapsto> m)" "a mod 16 = 0"
      "used h' = used h + word_of_nat m" "\<forall>y. a \<le> y \<and> y < a + m \<longrightarrow> dat h' y = 0xFE"
      "\<forall>b k y. alloc h b = Some k \<longrightarrow> b \<le> y \<and> y < b + k \<longrightarrow> dat h' y = dat h y"
    by (rule kmalloc_ok [OF assms True])
  show ?thesis unfolding if_P [OF True]
    by (intro exI [of _ a] exI [of _ h'] conjI k round_size_ok(1,2) [OF assms(2)])
next
  case False
  then show ?thesis using kmalloc_panic [OF assms(1,2) False] by simp
qed

theorem kmalloc_correct_witness:
  "\<exists>s h a h'. aspace_new 0xffffffff80000000 (\<lambda>a. 0) example_mem = Some s \<and>
     init_kern_heap (\<lambda>a. \<lparr>he_magic = 0, he_next = 0, he_prev = 0, he_len = 0\<rparr>) (\<lambda>a. 0) (s\<lparr>taken_pages := None\<rparr>) = Some h \<and>
     kmalloc 100 h = Some (a, h') \<and> heap_ok h' \<and> alloc h' a = Some 112 \<and> kmalloc 4032 h = None"
proof -
  obtain s h where h: "aspace_new 0xffffffff80000000 (\<lambda>a. 0) example_mem = Some s"
    "init_kern_heap (\<lambda>a. \<lparr>he_magic = 0, he_next = 0, he_prev = 0, he_len = 0\<rparr>) (\<lambda>a. 0) (s\<lparr>taken_pages := None\<rparr>) = Some h"
    "heap_rep h [KERN_HeapVirtBegin] [KERN_HeapVirtBegin]" "pages_ok h" "len h KERN_HeapVirtBegin = 4064" "room h \<ge> 3"
    by (rule example_heap)
  have ok: "heap_ok h" using h(3,4) by (auto simp: heap_ok_def)
  have r: "round_size 100 = Some 112" "round_size 4032 = Some 4032" by (simp_all add: round_size_def)
  have "room h > (112 + 2 * hsize) div 4096" "(112 + 2 * hsize) mod 4096 \<noteq> 0" using h(6) by (simp_all add: hsize_def)
  then have 1: "\<exists>a h'. kmalloc 100 h = Some (a, h') \<and> heap_ok h' \<and> alloc h' a = Some 112"
    using kmalloc_correct [OF ok r(1)] by (auto split: if_splits)
  have "room h > (4032 + 2 * hsize) div 4096" "(4032 + 2 * hsize) mod 4096 = 0" using h(6) by (simp_all add: hsize_def)
  moreover have "\<not> (free_block h x \<and> fits 4032 h x)" for x
    using h(5) by (auto simp: free_block_rep [OF h(3)] fits_def hsize_def)
  ultimately have "kmalloc 4032 h = None" using kmalloc_correct [OF ok r(2)] by (simp split: if_splits)
  then show ?thesis using h(1,2) 1 by blast
qed

text \<open>
  C5: \<open>kfree\<close> of an allocated block of a sound heap: when some free block is not in the run of free blocks right behind the
  block, it succeeds, the heap stays sound, exactly that block is no longer allocated, all data stays and \<open>used\<close> shrinks by
  the size.  When all free blocks lie in that run, the merge writes through the null pointer that ends the free list.
\<close>

theorem kfree_correct:
  assumes "heap_ok h" "alloc h a = Some n"
  shows "if \<exists>g. free_block h g \<and> g \<notin> set (free_run h (a - hsize))
    then \<exists>h'. kfree a h = Some h' \<and> heap_ok h' \<and> alloc h' = (alloc h)(a := None) \<and> dat h' = dat h \<and> used h' = used h - word_of_nat n
    else kfree a h = None"
proof -
  obtain bs fl where rep: "heap_rep h bs fl" and pg: "pages_ok h" using assms(1) by (auto simp: heap_ok_def)
  obtain x where x: "a = x + hsize" "x \<in> set bs" "magic h x = KERN_HeapMagicTaken" "len h x = n" by (rule allocD [OF rep assms(2)])
  show ?thesis
  proof (cases "\<exists>g. free_block h g \<and> g \<notin> set (free_run h (a - hsize))")
    case True
    then obtain g where "g \<in> set fl" "g \<notin> set (free_run h x)" using free_block_rep [OF rep] x(1) by auto
    then obtain h' where "kfree (x + hsize) h = Some h'" "heap_ok h'" "alloc h' = (alloc h)(x + hsize := None)" "dat h' = dat h"
        "used h' = used h - word_of_nat (len h x)"
      by (rule kfree_ok [OF rep pg x(2,3)])
    then show ?thesis unfolding if_P [OF True] using x(1,4) by blast
  next
    case False
    then have "set fl \<subseteq> set (free_run h x)" using free_block_rep [OF rep] x(1) by auto
    then have "kfree a h = None" using kfree_panic [OF rep x(2,3)] x(1) by simp
    then show ?thesis using False by simp
  qed
qed

lemma example_second:
  assumes ok: "heap_ok h1" and r: "room h1 \<ge> 1" and l: "len h1 (KERN_HeapVirtBegin + 144) > 144" "len h1 KERN_HeapVirtBegin = 112"
    and f: "\<And>g. free_block h1 g \<longleftrightarrow> g = KERN_HeapVirtBegin + 144"
  obtains h2 g where "kmalloc 100 h1 = Some (KERN_HeapVirtBegin + 176, h2)" "heap_ok h2" "room h2 = room h1"
    "alloc h2 = (alloc h1)(KERN_HeapVirtBegin + 176 \<mapsto> 112)" "free_block h2 g" "free_run h2 KERN_HeapVirtBegin = []"
proof -
  define B where "B = KERN_HeapVirtBegin"
  obtain bs fl where rep: "heap_rep h1 bs fl" and pg: "pages_ok h1" using ok by (auto simp: heap_ok_def)
  have fl: "fl = [B + 144]" using f free_block_rep [OF rep] by (intro singleton_list heap_repD(3) [OF rep]) (auto simp: B_def)
  obtain h2 where h2: "kmalloc 100 h1 = Some (B + 144 + 32, h2)" "heap_ok h2" "alloc h2 = (alloc h1)(B + 144 + 32 \<mapsto> 112)" "room h2 = room h1"
    "\<And>y. len h2 y = (if y = B + 144 then 112 else if y = B + 144 + 144 then len h1 (B + 144) - 144 else len h1 y)"
    "\<And>y. magic h2 y = (if y = B + 144 then KERN_HeapMagicTaken else if y = B + 144 + 144 then KERN_HeapMagicFree else magic h1 y)"
    by (rule example_cut [OF rep [unfolded fl] pg l(1) [folded B_def] r]) blast
  have "B + hsize + len h2 B = B + 144" using l(2) by (simp add: h2(5) hsize_def B_def)
  then have e: "free_run h2 B = takeWhile (\<lambda>y. magic h2 y = KERN_HeapMagicFree) (blocks h2 (B + 144))" by (simp only: free_run_def)
  have "free_run h2 B = []" unfolding e by (subst blocks.simps) (simp add: h2(6))
  moreover obtain bs' fl' where rep': "heap_rep h2 bs' fl'" using h2(2) by (auto simp: heap_ok_def)
  have "free_block h2 (hd fl')" using free_block_rep [OF rep'] hd_in_set [OF heap_repD(5) [OF rep']] by simp
  moreover have e: "B + 144 + 32 = B + 176" by simp
  ultimately show ?thesis using that [folded B_def] h2(1-4) unfolding e by blast
qed

theorem kfree_correct_witness:
  "\<exists>s h a h1 b h2 h3. aspace_new 0xffffffff80000000 (\<lambda>a. 0) example_mem = Some s \<and>
     init_kern_heap (\<lambda>a. \<lparr>he_magic = 0, he_next = 0, he_prev = 0, he_len = 0\<rparr>) (\<lambda>a. 0) (s\<lparr>taken_pages := None\<rparr>) = Some h \<and>
     kmalloc 100 h = Some (a, h1) \<and> kfree a h1 = None \<and> kmalloc 100 h1 = Some (b, h2) \<and> kfree a h2 = Some h3 \<and> alloc h3 = [b \<mapsto> 112]"
proof -
  define B where "B = KERN_HeapVirtBegin"
  obtain s h h1 where h: "aspace_new 0xffffffff80000000 (\<lambda>a. 0) example_mem = Some s"
    "init_kern_heap (\<lambda>a. \<lparr>he_magic = 0, he_next = 0, he_prev = 0, he_len = 0\<rparr>) (\<lambda>a. 0) (s\<lparr>taken_pages := None\<rparr>) = Some h"
    "kmalloc 100 h = Some (B + 32, h1)" "heap_ok h1" "room h1 \<ge> 3" "len h1 B = 112" "alloc h1 = [B + 32 \<mapsto> 112]"
    "len h1 (B + 144) = 3920" "\<And>g. free_block h1 g \<longleftrightarrow> g = B + 144" "free_run h1 B = [B + 144]"
    unfolding B_def by (rule example_first) blast
  obtain h2 g where h2: "kmalloc 100 h1 = Some (B + 176, h2)" "heap_ok h2" "alloc h2 = (alloc h1)(B + 176 \<mapsto> 112)"
      "free_block h2 g" "free_run h2 B = []"
    unfolding B_def by (rule example_second [OF h(4)]) (use h(5-9) in \<open>auto simp: B_def\<close>)
  have "kfree (B + 32) h1 = None" using kfree_correct [OF h(4), of "B + 32" 112] h(7,9,10) by (simp add: hsize_def)
  moreover have "\<exists>h3. kfree (B + 32) h2 = Some h3 \<and> alloc h3 = (alloc h2)(B + 32 := None)"
    using kfree_correct [OF h2(2), of "B + 32" 112] h2(3-5) h(7) by (auto simp: hsize_def split: if_splits)
  moreover have "(alloc h2)(B + 32 := None) = [B + 176 \<mapsto> 112]" using h2(3) h(7) by auto
  ultimately show ?thesis using h(1-3) h2(1) by metis
qed

section \<open>Reallocating\<close>

lemma copy_data_state [simp]:
  "HeapBegin (copy_data d a n h) = HeapBegin h" "HeapEnd (copy_data d a n h) = HeapEnd h" "allocated (copy_data d a n h) = allocated h"
  "used (copy_data d a n h) = used h" "kas (copy_data d a n h) = kas h" "hdr (copy_data d a n h) = hdr h"
  by (induction n) (simp_all add: Let_def)

lemma copy_data_dat: "dat (copy_data d a n h) y = (if d \<le> y \<and> y < d + n then dat h (a + (y - d)) else dat h y)"
  by (induction n) (auto simp: Let_def)

lemma copy_data_heap:
  "heap_ok (copy_data d a n h) = heap_ok h" "alloc (copy_data d a n h) = alloc h" "free_block (copy_data d a n h) = free_block h"
  "free_run (copy_data d a n h) = free_run h"
proof -
  have b: "blocks (copy_data d a n h) x = blocks h x" for x
    by (induction h x rule: blocks.induct) (subst (1 2) blocks.simps, simp)
  have "heap_rep (copy_data d a n h) bs fl = heap_rep h bs fl" for bs fl by (rule heap_rep_cong) simp_all
  then show "heap_ok (copy_data d a n h) = heap_ok h" by (simp add: heap_ok_def pages_ok_def)
  show "alloc (copy_data d a n h) = alloc h" "free_block (copy_data d a n h) = free_block h" "free_run (copy_data d a n h) = free_run h"
    by (intro ext; simp add: alloc_def free_block_def free_run_def b)+
qed

lemma copy_data_other:
  assumes "heap_rep h bs fl" "alloc h b = Some m" "n \<le> m" "alloc h c = Some j" "c \<noteq> b" "c \<le> y" "y < c + j"
  shows "dat (copy_data b a n h) y = dat h y"
  using alloc_apart [OF assms(1,4,2,5)] assms(3,6,7) by (auto simp: copy_data_dat)

text \<open>
  C30: \<open>krealloc\<close> of an allocated block, when the \<open>kmalloc\<close> in it succeeds: if the heap it leaves has a free block that is not in
  the run behind the old block, the new block is returned in place of the old one and holds its first bytes, as many as both
  have; the heap is sound and all other blocks keep their contents.  Otherwise freeing the old block panics.
\<close>

theorem krealloc_correct:
  assumes "heap_ok h" "alloc h a = Some k" "round_size n = Some m" "room h > (m + 2 * hsize) div 4096"
    "(\<exists>x. free_block h x \<and> fits m h x) \<or> (m + 2 * hsize) mod 4096 \<noteq> 0"
  shows "\<exists>b h1. kmalloc n h = Some (b, h1) \<and>
    (if \<exists>g. free_block h1 g \<and> g \<notin> set (free_run h1 (a - hsize))
     then \<exists>h'. krealloc a n h = Some (b, h') \<and> heap_ok h' \<and> alloc h b = None \<and> alloc h' = (alloc h)(b \<mapsto> m, a := None) \<and>
       (\<forall>i < min n k. dat h' (b + i) = dat h (a + i)) \<and>
       (\<forall>c j y. alloc h c = Some j \<longrightarrow> c \<noteq> a \<longrightarrow> c \<le> y \<and> y < c + j \<longrightarrow> dat h' y = dat h y)
     else krealloc a n h = None)"
proof -
  obtain b h1 where k: "kmalloc n h = Some (b, h1)" "heap_ok h1" "alloc h b = None" "alloc h1 = (alloc h)(b \<mapsto> m)"
      "\<forall>c j y. alloc h c = Some j \<longrightarrow> c \<le> y \<and> y < c + j \<longrightarrow> dat h1 y = dat h y"
    by (rule kmalloc_ok [OF assms(1,3,4,5)])
  obtain bs fl where rep: "heap_rep h bs fl" using assms(1) by (auto simp: heap_ok_def)
  obtain bs1 fl1 where rep1: "heap_rep h1 bs1 fl1" and pg1: "pages_ok h1" using k(2) by (auto simp: heap_ok_def)
  have ab: "a \<noteq> b" "alloc h1 a = Some k" using k(3,4) assms(2) by auto
  obtain x where x: "a = x + hsize" "x \<in> set bs" "magic h x = KERN_HeapMagicTaken" "len h x = k" by (rule allocD [OF rep assms(2)])
  obtain x1 where "a = x1 + hsize" "x1 \<in> set bs1" "magic h1 x1 = KERN_HeapMagicTaken" "len h1 x1 = k" by (rule allocD [OF rep1 ab(2)])
  then have x1: "x \<in> set bs1" "magic h1 x = KERN_HeapMagicTaken" "len h1 x = k" using x(1) by auto
  define h2 where "h2 = copy_data b a (min n k) h1"
  have rep2: "heap_rep h2 bs1 fl1" "pages_ok h2" "magic h2 x = KERN_HeapMagicTaken" "free_run h2 x = free_run h1 x"
    using rep1 pg1 x1 heap_rep_cong [of h2 h1] by (simp_all add: h2_def pages_ok_def copy_data_heap)
  have mk: "(if n > k then len h1 x else n) = min n k" using x1(3) by simp
  have x0: "x + hsize \<noteq> 0" using hsize_pos by simp
  have "krealloc (x + hsize) n h = kfree (x + hsize) h2 \<bind> (\<lambda>h. Some (b, h))"
    unfolding krealloc_def h2_def if_not_P [OF x0] x(1) using k(1) x(3) x1(3) by (simp add: mk Let_def split del: if_split)
  then have e: "krealloc a n h = map_option (\<lambda>h. (b, h)) (kfree (x + hsize) h2)"
    using x(1) by (cases "kfree (x + hsize) h2") simp_all
  show ?thesis
  proof (cases "\<exists>g. free_block h1 g \<and> g \<notin> set (free_run h1 (a - hsize))")
    case True
    then obtain g where g: "g \<in> set fl1" "g \<notin> set (free_run h2 x)" using free_block_rep [OF rep1] x(1) rep2(4) by auto
    obtain h' where h': "kfree (x + hsize) h2 = Some h'" "heap_ok h'" "alloc h' = (alloc h2)(x + hsize := None)" "dat h' = dat h2"
      by (rule kfree_ok [OF rep2(1,2) x1(1) rep2(3) g])
    have "alloc h' = (alloc h)(b \<mapsto> m, a := None)" using h'(3) k(4) x(1) by (simp add: h2_def copy_data_heap)
    moreover have "\<forall>i < min n k. dat h' (b + i) = dat h (a + i)"
      using k(5) assms(2) by (simp add: h'(4) h2_def copy_data_dat)
    moreover have "dat h' y = dat h y" if c: "alloc h c = Some j" "c \<le> y" "y < c + j" for c j y
    proof -
      have "c \<noteq> b" "min n k \<le> m" "alloc h1 b = Some m" "alloc h1 c = Some j" using c k(3,4) round_size_ok(1) [OF assms(3)] by auto
      then have "dat h2 y = dat h1 y" unfolding h2_def by (intro copy_data_other [OF rep1 _ _ _ _ c(2,3)]) auto
      then show ?thesis using k(5) c h'(4) by metis
    qed
    ultimately show ?thesis using k(1,3) e h'(1,2) True by (intro exI [of _ b] exI [of _ h1]) auto
  next
    case False
    then have "set fl1 \<subseteq> set (free_run h2 x)" using free_block_rep [OF rep1] x(1) rep2(4) by auto
    then have "krealloc a n h = None" using kfree_panic [OF rep2(1) x1(1) rep2(3)] e by simp
    then show ?thesis using k(1) False by auto
  qed
qed

theorem krealloc_correct_witness:
  "\<exists>s h a h1 b h2. aspace_new 0xffffffff80000000 (\<lambda>a. 0) example_mem = Some s \<and>
     init_kern_heap (\<lambda>a. \<lparr>he_magic = 0, he_next = 0, he_prev = 0, he_len = 0\<rparr>) (\<lambda>a. 0) (s\<lparr>taken_pages := None\<rparr>) = Some h \<and>
     kmalloc 100 h = Some (a, h1) \<and> krealloc a 100 h1 = Some (b, h2) \<and> alloc h2 = [b \<mapsto> 112]"
proof -
  define B where "B = KERN_HeapVirtBegin"
  obtain s h h1 where h: "aspace_new 0xffffffff80000000 (\<lambda>a. 0) example_mem = Some s"
    "init_kern_heap (\<lambda>a. \<lparr>he_magic = 0, he_next = 0, he_prev = 0, he_len = 0\<rparr>) (\<lambda>a. 0) (s\<lparr>taken_pages := None\<rparr>) = Some h"
    "kmalloc 100 h = Some (B + 32, h1)" "heap_ok h1" "room h1 \<ge> 3" "len h1 B = 112" "alloc h1 = [B + 32 \<mapsto> 112]"
    "len h1 (B + 144) = 3920" "\<And>g. free_block h1 g \<longleftrightarrow> g = B + 144" "free_run h1 B = [B + 144]"
    unfolding B_def by (rule example_first) blast
  obtain h2 g where h2: "kmalloc 100 h1 = Some (B + 176, h2)" "heap_ok h2" "alloc h2 = (alloc h1)(B + 176 \<mapsto> 112)"
      "free_block h2 g" "free_run h2 B = []"
    unfolding B_def by (rule example_second [OF h(4)]) (use h(5-9) in \<open>auto simp: B_def\<close>)
  have r: "round_size 100 = Some 112" by (simp add: round_size_def)
  have p: "room h1 > (112 + 2 * hsize) div 4096" "(112 + 2 * hsize) mod 4096 \<noteq> 0" using h(5) by (simp_all add: hsize_def)
  have a: "alloc h1 (B + 32) = Some 112" using h(7) by simp
  obtain h3 where "krealloc (B + 32) 100 h1 = Some (B + 176, h3)" "alloc h3 = (alloc h1)(B + 176 \<mapsto> 112, B + 32 := None)"
    using krealloc_correct [OF h(4) a r p(1) disjI2 [OF p(2)]] h2(1,4,5) by (auto simp: hsize_def split: if_splits)
  moreover have "(alloc h1)(B + 176 \<mapsto> 112, B + 32 := None) = [B + 176 \<mapsto> 112]" using h(7) by auto
  ultimately show ?thesis using h(1-3) by metis
qed

section \<open>The allocator as its clients see it\<close>









end
