(* ===== verification/Kernel_SkipList.thy ===== *)
theory Kernel_SkipList
  imports Main "HOL-Library.Word" "HOL-Library.Monad_Syntax"
begin

text \<open>
  The skip list (\<open>kernel/templates/SkipList.hpp\<close>) behind \<open>SkipListMap\<close>, the ordered
  map of the kernel: the regions of an address space, the descriptors of a
  process, the inodes and directories of the file systems and the tasks are kept
  in one.

  The first part is what a client sees: the list of the entries in the order of
  their keys.  The second part is the code: nodes in a heap, linked at up to 32
  levels, the pool of released nodes, the search that remembers in \<open>toUpdate\<close>
  where it went down, and the level drawn from \<open>rand\<close>.  The lemmas show that the
  second implements the first.  \<open>None\<close> is a failed assertion or an access to memory
  that is not a node.
\<close>

section \<open>The ordered map\<close>

type_synonym ('k, 'v) omap = "('k \<times> 'v) list"

fun emplace :: "'k :: linorder \<Rightarrow> 'v \<Rightarrow> ('k, 'v) omap \<Rightarrow> ('k, 'v) omap" where
  "emplace k v [] = [(k, v)]"
| "emplace k v ((k', v') # m) =
     (if k < k' then (k, v) # (k', v') # m
      else if k = k' then (k', v') # m
      else (k', v') # emplace k v m)"

definition erase :: "'k :: linorder \<Rightarrow> ('k, 'v) omap \<Rightarrow> ('k, 'v) omap" where
  "erase k m = filter (\<lambda>(k', v). k' \<noteq> k) m"

text \<open>
  \<open>upper_bound(k)\<close>: the first entry with a key above \<open>k\<close>.  When no key is at most
  \<open>k\<close> the search stays at the root, which counts as the end.  \<open>before_upper\<close> is
  \<open>--upper_bound(k)\<close>, the last entry when \<open>upper_bound\<close> is the end.  \<open>next_entry\<close> and
  \<open>prev_entry\<close> are \<open>++\<close> and \<open>--\<close> on the entry with key \<open>k\<close>; \<open>None\<close> is a node that
  marks an end.
\<close>

definition next_entry :: "'k :: linorder \<Rightarrow> ('k, 'v) omap \<Rightarrow> 'v option" where
  "next_entry k m = (case filter (\<lambda>(k', v). k < k') m of [] \<Rightarrow> None | x # xs \<Rightarrow> Some (snd x))"

definition prev_entry :: "'k :: linorder \<Rightarrow> ('k, 'v) omap \<Rightarrow> 'v option" where
  "prev_entry k m =
     (let xs = filter (\<lambda>(k', v). k' < k) m in if xs = [] then None else Some (snd (last xs)))"

definition upper_bound :: "'k :: linorder \<Rightarrow> ('k, 'v) omap \<Rightarrow> 'v option" where
  "upper_bound k m = (if filter (\<lambda>(k', v). k' \<le> k) m = [] then None else next_entry k m)"

definition before_upper :: "'k :: linorder \<Rightarrow> ('k, 'v) omap \<Rightarrow> 'v option" where
  "before_upper k m =
     (let xs = filter (\<lambda>(k', v). k' \<le> k) m
      in if m = [] then None else Some (snd (last (if xs = [] then m else xs))))"

section \<open>Nodes\<close>

text \<open>
  \<open>n_data\<close> is \<open>None\<close> where no \<open>Data\<close> has been constructed.  The array \<open>next\<close> has the
  indices 0 to \<open>maxL\<close>.  Address 0 is \<open>nullptr\<close>.
\<close>

record ('k, 'v) snode =
  n_next :: "nat \<Rightarrow> nat"
  n_before :: nat
  n_data :: "('k \<times> 'v) option"
  n_end :: bool

type_synonym ('k, 'v) nheap = "nat \<Rightarrow> ('k, 'v) snode option"

record ('k, 'v) skiplist =
  heap :: "('k, 'v) nheap"
  pool :: "nat list"
  sl_root :: nat
  sl_endnode :: nat
  toUpdate :: "nat \<Rightarrow> nat"
  curL :: nat

definition maxL :: nat where "maxL = 31"

definition pool_size :: nat where "pool_size = 64"

definition get_data :: "('k, 'v) nheap \<Rightarrow> nat \<Rightarrow> ('k \<times> 'v) option" where
  "get_data h a = do { n \<leftarrow> h a; if n_end n then None else n_data n }"

definition get_next :: "('k, 'v) nheap \<Rightarrow> nat \<Rightarrow> nat \<Rightarrow> nat option" where
  "get_next h a i = map_option (\<lambda>n. n_next n i) (h a)"

definition set_next :: "nat \<Rightarrow> nat \<Rightarrow> nat \<Rightarrow> ('k, 'v) skiplist \<Rightarrow> ('k, 'v) skiplist option" where
  "set_next a i b s =
     map_option (\<lambda>n. s\<lparr>heap := (heap s)(a \<mapsto> n\<lparr>n_next := (n_next n)(i := b)\<rparr>)\<rparr>) (heap s a)"

definition set_before :: "nat \<Rightarrow> nat \<Rightarrow> ('k, 'v) skiplist \<Rightarrow> ('k, 'v) skiplist option" where
  "set_before a b s = map_option (\<lambda>n. s\<lparr>heap := (heap s)(a \<mapsto> n\<lparr>n_before := b\<rparr>)\<rparr>) (heap s a)"

subsection \<open>NodeAllocator\<close>

text \<open>
  \<open>new\<close> is what \<open>kmalloc\<close> returns when the pool is empty: an address, with what
  happens to be in the memory where \<open>next\<close> will be.
\<close>

definition alloc_get :: "nat \<times> (nat \<Rightarrow> nat) \<Rightarrow> ('k, 'v) skiplist \<Rightarrow> (nat \<times> ('k, 'v) skiplist) option" where
  "alloc_get new s =
     (case pool s of
        [] \<Rightarrow> Some (fst new, s\<lparr>heap := (heap s)(fst new \<mapsto>
               \<lparr>n_next = (snd new)(0 := 0), n_before = 0, n_data = None, n_end = False\<rparr>)\<rparr>)
      | a # p \<Rightarrow> do {
          n \<leftarrow> heap s a;
          Some (a, s\<lparr>pool := p, heap := (heap s)(a \<mapsto> n\<lparr>n_end := False, n_before := 0, n_next := (n_next n)(0 := 0)\<rparr>)\<rparr>) })"

definition alloc_data :: "nat \<times> (nat \<Rightarrow> nat) \<Rightarrow> 'k \<times> 'v \<Rightarrow> ('k, 'v) skiplist \<Rightarrow> (nat \<times> ('k, 'v) skiplist) option" where
  "alloc_data new d s = do {
     (a, s) \<leftarrow> alloc_get new s;
     n \<leftarrow> heap s a;
     Some (a, s\<lparr>heap := (heap s)(a \<mapsto> n\<lparr>n_data := Some d\<rparr>)\<rparr>) }"

definition alloc_end :: "nat \<times> (nat \<Rightarrow> nat) \<Rightarrow> ('k, 'v) skiplist \<Rightarrow> (nat \<times> ('k, 'v) skiplist) option" where
  "alloc_end new s = do {
     (a, s) \<leftarrow> alloc_get new s;
     n \<leftarrow> heap s a;
     Some (a, s\<lparr>heap := (heap s)(a \<mapsto> n\<lparr>n_end := True\<rparr>)\<rparr>) }"

definition alloc_push :: "nat \<Rightarrow> ('k, 'v) skiplist \<Rightarrow> ('k, 'v) skiplist option" where
  "alloc_push e s = do {
     n \<leftarrow> heap s e;
     let s = s\<lparr>heap := (heap s)(e \<mapsto> (if n_end n then n else n\<lparr>n_data := None\<rparr>))\<rparr>;
     Some (if length (pool s) \<ge> pool_size then s\<lparr>heap := (heap s)(e := None)\<rparr> else s\<lparr>pool := e # pool s\<rparr>) }"

subsection \<open>The level of a new node\<close>

definition krand :: "64 word \<Rightarrow> nat \<times> 64 word" where
  "krand next = (let next = next * 1103515245 + 12345
     in (unat (ucast (next div 65536) :: 32 word) mod 32768, next))"

fun ffs :: "nat \<Rightarrow> nat" where
  "ffs n = (if n = 0 then 0 else if odd n then 1 else Suc (ffs (n div 2)))"

declare ffs.simps [simp del]

definition randomL :: "64 word \<Rightarrow> nat \<times> 64 word" where
  "randomL next = (let (r, next) = krand next in (ffs r, next))"

section \<open>The constructor\<close>

fun init_levels :: "nat \<Rightarrow> ('k, 'v) skiplist \<Rightarrow> ('k, 'v) skiplist option" where
  "init_levels 0 s = Some s"
| "init_levels (Suc n) s = do { s \<leftarrow> init_levels n s; set_next (sl_root s) n (sl_endnode s) s }"

definition skiplist_new :: "nat \<times> (nat \<Rightarrow> nat) \<Rightarrow> nat \<times> (nat \<Rightarrow> nat) \<Rightarrow> (nat \<Rightarrow> nat) \<Rightarrow> ('k, 'v) skiplist option" where
  "skiplist_new new1 new2 junk = do {
     let s = \<lparr>heap = Map.empty, pool = [], sl_root = 0, sl_endnode = 0, toUpdate = junk, curL = 0\<rparr>;
     (r, s) \<leftarrow> alloc_end new1 s;
     (e, s) \<leftarrow> alloc_end new2 (s\<lparr>sl_root := r\<rparr>);
     s \<leftarrow> set_before e r (s\<lparr>sl_endnode := e\<rparr>);
     init_levels (maxL + 1) s }"

section \<open>Searching\<close>

text \<open>
  \<open>while (!cur->next[i]->end() && P(cur->next[i]->get())) cur = cur->next[i]\<close>.  The
  comparison \<open>P\<close> may fail itself: \<open>erase\<close> by iterator reads the key through it.
\<close>

partial_function (option) sl_walk :: "('k \<times> 'v \<Rightarrow> bool option) \<Rightarrow> ('k, 'v) nheap \<Rightarrow> nat \<Rightarrow> nat \<Rightarrow> nat option" where
  "sl_walk P h i cur = do {
     b \<leftarrow> get_next h cur i;
     n \<leftarrow> h b;
     if n_end n then Some cur
     else do {
       d \<leftarrow> get_data h b;
       p \<leftarrow> P d;
       if p then sl_walk P h i b else Some cur } }"

text \<open>The loop over the levels, from \<open>i\<close> down to 0.\<close>

fun descend :: "('k \<times> 'v \<Rightarrow> bool option) \<Rightarrow> ('k, 'v) nheap \<Rightarrow> nat \<Rightarrow> nat \<Rightarrow> (nat \<Rightarrow> nat) \<Rightarrow> (nat \<times> (nat \<Rightarrow> nat)) option" where
  "descend P h 0 cur tu = do { c \<leftarrow> sl_walk P h 0 cur; Some (c, tu(0 := c)) }"
| "descend P h (Suc i) cur tu = do { c \<leftarrow> sl_walk P h (Suc i) cur; descend P h i c (tu(Suc i := c)) }"

definition key_lt :: "'k :: linorder \<Rightarrow> 'k \<times> 'v \<Rightarrow> bool" where
  "key_lt k d = (fst d < k)"

definition key_le :: "'k :: linorder \<Rightarrow> 'k \<times> 'v \<Rightarrow> bool" where
  "key_le k d = (fst d < k \<or> fst d = k)"

definition lower_bound :: "'k :: linorder \<Rightarrow> ('k, 'v) skiplist \<Rightarrow> nat option" where
  "lower_bound k s = do {
     (cur, _) \<leftarrow> descend (Some \<circ> key_lt k) (heap s) (curL s) (sl_root s) (toUpdate s);
     get_next (heap s) cur 0 }"

definition sl_find :: "'k :: linorder \<Rightarrow> ('k, 'v) skiplist \<Rightarrow> nat option" where
  "sl_find k s = do {
     a \<leftarrow> lower_bound k s;
     n \<leftarrow> heap s a;
     if n_end n then Some (sl_endnode s)
     else do { d \<leftarrow> get_data (heap s) a; Some (if fst d \<noteq> k then sl_endnode s else a) } }"

definition sl_upper_bound :: "'k :: linorder \<Rightarrow> ('k, 'v) skiplist \<Rightarrow> nat option" where
  "sl_upper_bound k s = do {
     (cur, _) \<leftarrow> descend (Some \<circ> key_le k) (heap s) (curL s) (sl_root s) (toUpdate s);
     n \<leftarrow> heap s cur;
     cur \<leftarrow> (if n_end n then Some cur
            else do { d \<leftarrow> get_data (heap s) cur; if key_le k d then get_next (heap s) cur 0 else Some cur });
     n \<leftarrow> heap s cur;
     Some (if n_end n then sl_endnode s else cur) }"

text \<open>The iterators.\<close>

definition iter_next :: "('k, 'v) skiplist \<Rightarrow> nat \<Rightarrow> nat option" where
  "iter_next s a = do { b \<leftarrow> get_next (heap s) a 0; Some (if b \<noteq> 0 then b else a) }"

definition iter_prev :: "('k, 'v) skiplist \<Rightarrow> nat \<Rightarrow> nat option" where
  "iter_prev s a = do { n \<leftarrow> heap s a; Some (if n_before n \<noteq> 0 then n_before n else a) }"

definition iter_value :: "('k, 'v) skiplist \<Rightarrow> nat \<Rightarrow> 'v option" where
  "iter_value s a = map_option snd (get_data (heap s) a)"

section \<open>Inserting\<close>

fun link_loop :: "nat \<Rightarrow> nat \<Rightarrow> nat \<Rightarrow> ('k, 'v) skiplist \<Rightarrow> ('k, 'v) skiplist option" where
  "link_loop 0 i new s = Some s"
| "link_loop (Suc n) i new s = do {
     b \<leftarrow> get_next (heap s) (toUpdate s i) i;
     s \<leftarrow> set_next new i b s;
     s \<leftarrow> set_next (toUpdate s i) i new s;
     link_loop n (Suc i) new (s\<lparr>toUpdate := (toUpdate s)(i := new)\<rparr>) }"

definition raise_level :: "nat \<Rightarrow> ('k, 'v) skiplist \<Rightarrow> ('k, 'v) skiplist" where
  "raise_level newLevel s =
     (if newLevel > curL s
      then s\<lparr>toUpdate := (\<lambda>i. if curL s + 1 \<le> i \<and> i \<le> newLevel then sl_root s else toUpdate s i), curL := newLevel\<rparr>
      else s)"

definition sl_insert_node :: "nat \<Rightarrow> ('k :: linorder, 'v) skiplist \<Rightarrow> 64 word \<Rightarrow> ((nat \<times> bool) \<times> ('k, 'v) skiplist \<times> 64 word) option" where
  "sl_insert_node newNode s rng = do {
     d \<leftarrow> get_data (heap s) newNode;
     (cur, tu) \<leftarrow> descend (Some \<circ> key_lt (fst d)) (heap s) (curL s) (sl_root s) (toUpdate s);
     let s = s\<lparr>toUpdate := tu\<rparr>;
     cur \<leftarrow> get_next (heap s) cur 0;
     n \<leftarrow> heap s cur;
     found \<leftarrow> (if n_end n then Some False else map_option (\<lambda>d'. fst d' = fst d) (get_data (heap s) cur));
     if found then Some ((cur, False), s, rng)
     else do {
       let (newLevel, rng) = randomL rng;
       let s = raise_level newLevel s;
       s \<leftarrow> set_before newNode (toUpdate s 0) s;
       b \<leftarrow> get_next (heap s) (toUpdate s 0) 0;
       s \<leftarrow> (if b \<noteq> 0 then set_before b newNode s else Some s);
       s \<leftarrow> link_loop (newLevel + 1) 0 newNode s;
       Some ((newNode, True), s, rng) } }"

definition sl_emplace :: "nat \<times> (nat \<Rightarrow> nat) \<Rightarrow> 'k :: linorder \<Rightarrow> 'v \<Rightarrow> ('k, 'v) skiplist \<Rightarrow> 64 word
    \<Rightarrow> ((nat \<times> bool) \<times> ('k, 'v) skiplist \<times> 64 word) option" where
  "sl_emplace new k v s rng = do {
     (a, s) \<leftarrow> alloc_data new (k, v) s;
     (ret, s, rng) \<leftarrow> sl_insert_node a s rng;
     s \<leftarrow> (if \<not> snd ret then alloc_push a s else Some s);
     Some (ret, s, rng) }"

section \<open>Erasing\<close>

fun unlink_loop :: "nat \<Rightarrow> nat \<Rightarrow> nat \<Rightarrow> ('k, 'v) skiplist \<Rightarrow> ('k, 'v) skiplist option" where
  "unlink_loop 0 i cur s = Some s"
| "unlink_loop (Suc n) i cur s = do {
     b \<leftarrow> get_next (heap s) (toUpdate s i) i;
     if b \<noteq> cur then Some s
     else do {
       c \<leftarrow> get_next (heap s) cur i;
       s \<leftarrow> set_next (toUpdate s i) i c s;
       unlink_loop n (Suc i) cur s } }"

fun lower_curL :: "nat \<Rightarrow> ('k, 'v) skiplist \<Rightarrow> nat option" where
  "lower_curL 0 s = Some 0"
| "lower_curL (Suc l) s = do {
     b \<leftarrow> get_next (heap s) (sl_root s) (Suc l);
     if b = 0 then lower_curL l s else Some (Suc l) }"

text \<open>
  \<open>lt\<close> compares with the key that is looked for, \<open>hit\<close> is the test for the node to
  erase: the key is equal, or it is the node of the iterator.
\<close>

definition sl_erase_at :: "('k \<times> 'v \<Rightarrow> bool option) \<Rightarrow> (nat \<Rightarrow> 'k \<times> 'v \<Rightarrow> bool) \<Rightarrow> ('k, 'v) skiplist
    \<Rightarrow> ((nat \<times> bool) \<times> ('k, 'v) skiplist) option" where
  "sl_erase_at lt hit s = do {
     (cur, tu) \<leftarrow> descend lt (heap s) (curL s) (sl_root s) (toUpdate s);
     let s = s\<lparr>toUpdate := tu\<rparr>;
     cur \<leftarrow> get_next (heap s) cur 0;
     n \<leftarrow> heap s cur;
     miss \<leftarrow> (if n_end n then Some True else map_option (\<lambda>d. \<not> hit cur d) (get_data (heap s) cur));
     if miss then Some ((cur, False), s)
     else do {
       b \<leftarrow> get_next (heap s) cur 0;
       s \<leftarrow> set_before b (toUpdate s 0) s;
       s \<leftarrow> unlink_loop (curL s + 1) 0 cur s;
       l \<leftarrow> lower_curL (curL s) s;
       let s = s\<lparr>curL := l\<rparr>;
       b \<leftarrow> get_next (heap s) cur 0;
       s \<leftarrow> alloc_push cur s;
       Some ((b, True), s) } }"

definition end_or :: "('k, 'v) skiplist \<Rightarrow> nat \<Rightarrow> nat option" where
  "end_or s a = map_option (\<lambda>n. if n_end n then sl_endnode s else a) (heap s a)"

definition sl_erase :: "'k :: linorder \<Rightarrow> ('k, 'v) skiplist \<Rightarrow> (nat \<times> ('k, 'v) skiplist) option" where
  "sl_erase k s = do {
     ((a, _), s) \<leftarrow> sl_erase_at (Some \<circ> key_lt k) (\<lambda>cur d. fst d = k) s;
     it \<leftarrow> end_or s a;
     Some (it, s) }"

definition sl_erase_iter :: "nat \<Rightarrow> ('k :: linorder, 'v) skiplist \<Rightarrow> (nat \<times> ('k, 'v) skiplist) option" where
  "sl_erase_iter it s = do {
     ((a, _), s) \<leftarrow> sl_erase_at (\<lambda>d. map_option (\<lambda>e. key_lt (fst e) d) (get_data (heap s) it)) (\<lambda>cur d. cur = it) s;
     it \<leftarrow> end_or s a;
     Some (it, s) }"

section \<open>Chains of nodes\<close>

fun sl_linked :: "(nat \<Rightarrow> nat) \<Rightarrow> nat list \<Rightarrow> bool" where
  "sl_linked f (a # b # as) \<longleftrightarrow> f a = b \<and> sl_linked f (b # as)"
| "sl_linked f _ \<longleftrightarrow> True"

lemma sl_linked_split: "sl_linked f (xs @ u # ys) \<longleftrightarrow> sl_linked f (xs @ [u]) \<and> sl_linked f (u # ys)"
proof (induction xs)
  case (Cons x xs)
  then show ?case by (cases xs) auto
qed simp

lemma sl_linked_cong:
  "(\<And>a. a \<in> set (butlast as) \<Longrightarrow> f a = g a) \<Longrightarrow> sl_linked f as = sl_linked g as"
  by (induction g as rule: sl_linked.induct) (auto split: if_splits)

lemma sl_linked_next: "sl_linked f (xs @ u # v # ys) \<Longrightarrow> f u = v"
  by (subst (asm) sl_linked_split) simp

lemma sl_linked_upd: "a \<notin> set (butlast as) \<Longrightarrow> sl_linked (f(a := b)) as = sl_linked f as"
  by (rule sl_linked_cong) auto

lemma sl_linked_insert:
  assumes "sl_linked f (xs @ u # ys)" "distinct (xs @ u # ys)" "new \<notin> set (xs @ u # ys)" "ys \<noteq> []"
    and g: "g u = new" "g new = f u" "\<And>x. x \<noteq> u \<Longrightarrow> x \<noteq> new \<Longrightarrow> g x = f x"
  shows "sl_linked g (xs @ u # new # ys)"
proof -
  obtain y ys' where y: "ys = y # ys'" using assms(4) by (cases ys) auto
  have a: "sl_linked f (xs @ [u])" "f u = y" "sl_linked f ys" using assms(1) sl_linked_split [of f xs u ys] y by auto
  have "sl_linked g (xs @ [u]) = sl_linked f (xs @ [u])"
    by (rule sl_linked_cong, rule g(3)) (use assms(2,3) in auto)
  moreover have "sl_linked g ys = sl_linked f ys"
    by (rule sl_linked_cong, rule g(3)) (use assms(2,3) in \<open>auto dest!: in_set_butlastD\<close>)
  moreover have "sl_linked g (u # new # ys)" if "sl_linked g ys" using that a g y by simp
  ultimately show ?thesis using a sl_linked_split [of g xs u "new # ys"] by blast
qed

lemma sl_linked_remove:
  assumes "sl_linked f (xs @ u # c # ys)" "distinct (xs @ u # c # ys)" "ys \<noteq> []"
    and g: "g u = f c" "\<And>x. x \<noteq> u \<Longrightarrow> x \<noteq> c \<Longrightarrow> g x = f x"
  shows "sl_linked g (xs @ u # ys)"
proof -
  obtain y ys' where y: "ys = y # ys'" using assms(3) by (cases ys) auto
  have a: "sl_linked f (xs @ [u])" "f c = y" "sl_linked f ys" using assms(1) sl_linked_split [of f xs u "c # ys"] y by auto
  have "sl_linked g (xs @ [u]) = sl_linked f (xs @ [u])"
    by (rule sl_linked_cong, rule g(2)) (use assms(2) in auto)
  moreover have "sl_linked g ys = sl_linked f ys"
    by (rule sl_linked_cong, rule g(2)) (use assms(2) in \<open>auto dest!: in_set_butlastD\<close>)
  moreover have "sl_linked g (u # ys)" if "sl_linked g ys" using that a g y by simp
  ultimately show ?thesis using a sl_linked_split [of g xs u ys] by blast
qed

section \<open>The fields of the nodes of a heap\<close>

definition hn :: "('k, 'v) nheap \<Rightarrow> nat \<Rightarrow> nat \<Rightarrow> nat" where "hn h i a = n_next (the (h a)) i"

definition hb :: "('k, 'v) nheap \<Rightarrow> nat \<Rightarrow> nat" where "hb h a = n_before (the (h a))"

definition he :: "('k, 'v) nheap \<Rightarrow> nat \<Rightarrow> bool" where "he h a = n_end (the (h a))"

definition hdat :: "('k, 'v) nheap \<Rightarrow> nat \<Rightarrow> ('k \<times> 'v) option" where "hdat h a = n_data (the (h a))"

lemma field_upd [simp]:
  "hn (h(a \<mapsto> n)) i x = (if x = a then n_next n i else hn h i x)"
  "hb (h(a \<mapsto> n)) x = (if x = a then n_before n else hb h x)"
  "he (h(a \<mapsto> n)) x = (if x = a then n_end n else he h x)"
  "hdat (h(a \<mapsto> n)) x = (if x = a then n_data n else hdat h x)"
  by (simp_all add: hn_def hb_def he_def hdat_def)

lemmas field_defs = hn_def hb_def he_def hdat_def

lemma get_next_eq: "a \<in> dom h \<Longrightarrow> get_next h a i = Some (hn h i a)"
  by (auto simp: get_next_def hn_def)

lemma get_data_eq: "a \<in> dom h \<Longrightarrow> get_data h a = (if he h a then None else hdat h a)"
  by (auto simp: get_data_def he_def hdat_def)

text \<open>What the operations on one field do, in terms of the fields of all nodes.\<close>

lemma set_next_fields:
  assumes "a \<in> dom (heap s)"
  obtains h where "set_next a i b s = Some (s\<lparr>heap := h\<rparr>)" "dom h = dom (heap s)"
    "\<And>j x. hn h j x = (if j = i \<and> x = a then b else hn (heap s) j x)" "hb h = hb (heap s)" "he h = he (heap s)" "hdat h = hdat (heap s)"
proof -
  obtain n where n: "heap s a = Some n" using assms by auto
  let ?h = "(heap s)(a \<mapsto> n\<lparr>n_next := (n_next n)(i := b)\<rparr>)"
  show thesis
    by (rule that [of ?h]) (use n in \<open>auto simp: set_next_def fun_eq_iff field_defs\<close>)
qed

lemma set_before_fields:
  assumes "a \<in> dom (heap s)"
  obtains h where "set_before a b s = Some (s\<lparr>heap := h\<rparr>)" "dom h = dom (heap s)"
    "hb h = (hb (heap s))(a := b)" "hn h = hn (heap s)" "he h = he (heap s)" "hdat h = hdat (heap s)"
proof -
  obtain n where n: "heap s a = Some n" using assms by auto
  let ?h = "(heap s)(a \<mapsto> n\<lparr>n_before := b\<rparr>)"
  show thesis
    by (rule that [of ?h]) (use n in \<open>auto simp: set_before_def fun_eq_iff field_defs\<close>)
qed

section \<open>The search\<close>

lemma sl_walk_end:
  assumes "sl_linked (hn h i) (c # ys @ z # zs)" "set (c # ys @ [z]) \<subseteq> dom h"
    and "\<And>y. y \<in> set ys \<Longrightarrow> \<not> he h y \<and> (\<exists>d. hdat h y = Some d \<and> P d = Some True)"
    and "he h z \<or> (\<exists>d. hdat h z = Some d \<and> P d = Some False)"
  shows "sl_walk P h i c = Some (last (c # ys))"
  using assms
proof (induction ys arbitrary: c)
  case Nil
  then show ?case by (subst sl_walk.simps) (auto simp: get_next_eq get_data_def he_def hdat_def)
next
  case (Cons y ys)
  obtain d where d: "hdat h y = Some d" "P d = Some True" "\<not> he h y" using Cons.prems(3) [of y] by auto
  have "sl_walk P h i y = Some (last (y # ys))" using Cons.prems by (intro Cons.IH) auto
  moreover have "hn h i c = y" using Cons.prems(1) by simp
  ultimately show ?case using Cons.prems(2) d by (subst sl_walk.simps) (auto simp: get_next_eq get_data_def he_def hdat_def)
qed

text \<open>
  The structure: \<open>ns\<close> are the nodes with entries in order, \<open>lev\<close> their levels.  The
  nodes of level at least \<open>i\<close> are linked by \<open>next[i]\<close> from the root to the end node,
  all nodes are linked backwards by \<open>before\<close>, and the keys increase.
\<close>

definition key_of :: "('k, 'v) nheap \<Rightarrow> nat \<Rightarrow> 'k" where
  "key_of h a = fst (the (hdat h a))"

definition from_level :: "(nat \<Rightarrow> nat) \<Rightarrow> nat \<Rightarrow> nat list \<Rightarrow> nat list" where
  "from_level lev i ns = filter (\<lambda>a. i \<le> lev a) ns"

definition sl_chain :: "('k, 'v) nheap \<Rightarrow> nat \<Rightarrow> nat \<Rightarrow> nat list \<Rightarrow> (nat \<Rightarrow> nat) \<Rightarrow> bool" where
  "sl_chain h r e ns lev \<longleftrightarrow>
     distinct (r # e # ns) \<and> 0 \<notin> set (r # e # ns) \<and> set (r # e # ns) \<subseteq> dom h \<and>
     he h r \<and> he h e \<and> (\<forall>a\<in>set ns. \<not> he h a \<and> hdat h a \<noteq> None) \<and>
     (\<forall>i\<le>maxL. sl_linked (hn h i) (r # from_level lev i ns @ [e])) \<and>
     sl_linked (hb h) (e # rev ns @ [r]) \<and> hn h 0 e = 0 \<and> hb h r = 0"

definition sl_ok :: "('k :: linorder, 'v) skiplist \<Rightarrow> nat list \<Rightarrow> (nat \<Rightarrow> nat) \<Rightarrow> bool" where
  "sl_ok s ns lev \<longleftrightarrow>
     sl_chain (heap s) (sl_root s) (sl_endnode s) ns lev \<and>
     sorted_wrt (<) (map (key_of (heap s)) ns) \<and>
     (\<forall>a\<in>set ns. lev a \<le> curL s) \<and> curL s \<le> maxL \<and>
     distinct (pool s) \<and> 0 \<notin> set (pool s) \<and> set (pool s) \<subseteq> dom (heap s) - set (sl_root s # sl_endnode s # ns) \<and>
     length (pool s) \<le> pool_size"

definition sl_entries :: "('k, 'v) skiplist \<Rightarrow> nat list \<Rightarrow> ('k, 'v) omap" where
  "sl_entries s ns = map (\<lambda>a. the (hdat (heap s) a)) ns"

text \<open>The skip list holds the entries \<open>m\<close>.\<close>

definition sl_rep :: "('k :: linorder, 'v) skiplist \<Rightarrow> ('k, 'v) omap \<Rightarrow> bool" where
  "sl_rep s m \<longleftrightarrow> (\<exists>ns lev. sl_ok s ns lev \<and> m = sl_entries s ns)"

lemma from_level_0 [simp]: "from_level lev 0 ns = ns"
  by (simp add: from_level_def)

lemma from_level_append: "from_level lev i (xs @ ys) = from_level lev i xs @ from_level lev i ys"
  by (simp add: from_level_def)

lemma from_level_subset: "set (from_level lev i ns) \<subseteq> set ns"
  by (auto simp: from_level_def)

text \<open>The last node of level at least \<open>i\<close> among the first nodes \<open>pre\<close>, or the root.\<close>

definition last_at :: "nat \<Rightarrow> (nat \<Rightarrow> nat) \<Rightarrow> nat list \<Rightarrow> nat \<Rightarrow> nat" where
  "last_at r lev pre i = last (r # from_level lev i pre)"

lemma last_at_mem: "i \<le> j \<Longrightarrow> last_at r lev pre j \<in> set (r # from_level lev i pre)"
proof -
  assume "i \<le> j"
  then have "set (r # from_level lev j pre) \<subseteq> set (r # from_level lev i pre)" by (auto simp: from_level_def)
  moreover have "last_at r lev pre j \<in> set (r # from_level lev j pre)" unfolding last_at_def by (rule last_in_set) simp
  ultimately show ?thesis by blast
qed

lemma walk_level:
  assumes c: "sl_chain h r e (pre @ post) lev" and i: "i \<le> maxL"
    and pre: "\<And>a. a \<in> set pre \<Longrightarrow> P (the (hdat h a)) = Some True"
    and post: "\<And>a. a \<in> set post \<Longrightarrow> P (the (hdat h a)) = Some False"
    and x: "x \<in> set (r # from_level lev i pre)"
  shows "sl_walk P h i x = Some (last_at r lev pre i)"
proof -
  obtain xs ys where sp: "r # from_level lev i pre = xs @ x # ys" using x by (meson split_list)
  obtain z zs where z: "from_level lev i post @ [e] = z # zs" by (cases "from_level lev i post @ [e]") auto
  have mem: "set (from_level lev i pre) \<subseteq> set pre" "set (from_level lev i post) \<subseteq> set post" by (rule from_level_subset)+
  have "sl_linked (hn h i) (r # from_level lev i (pre @ post) @ [e])" using c i by (auto simp: sl_chain_def)
  then have "sl_linked (hn h i) ((xs @ x # ys) @ z # zs)" unfolding from_level_append append_assoc z sp [symmetric] by simp
  then have l: "sl_linked (hn h i) (x # ys @ z # zs)" using sl_linked_split [of "hn h i" xs x "ys @ z # zs"] by simp
  have ys: "set ys \<subseteq> set pre"
  proof (cases xs)
    case Nil
    then show ?thesis using sp mem by auto
  next
    case (Cons w ws)
    then have "from_level lev i pre = ws @ x # ys" using sp by simp
    then show ?thesis using mem by auto
  qed
  have zin: "z = e \<or> z \<in> set post" using z mem by (cases "from_level lev i post") auto
  have xin: "x \<in> set (r # pre)" using x mem by auto
  have dm: "set (x # ys @ [z]) \<subseteq> dom h" using c ys zin xin unfolding sl_chain_def by (simp, blast)
  have y: "\<not> he h y \<and> (\<exists>d. hdat h y = Some d \<and> P d = Some True)" if "y \<in> set ys" for y
  proof -
    have "y \<in> set pre" using that ys by blast
    moreover from this have "\<not> he h y" "hdat h y \<noteq> None" using c by (auto simp: sl_chain_def)
    ultimately show ?thesis using pre [of y] by force
  qed
  have zz: "he h z \<or> (\<exists>d. hdat h z = Some d \<and> P d = Some False)"
  proof (cases "z = e")
    case False
    then have "z \<in> set post" using zin by blast
    moreover from this have "hdat h z \<noteq> None" using c by (auto simp: sl_chain_def)
    ultimately show ?thesis using post [of z] by force
  qed (use c in \<open>simp add: sl_chain_def\<close>)
  have "sl_walk P h i x = Some (last (x # ys))" by (rule sl_walk_end [OF l dm y zz])
  then show ?thesis unfolding last_at_def sp by simp
qed

lemma descend_levels:
  assumes c: "sl_chain h r e (pre @ post) lev" and i: "i \<le> maxL"
    and pre: "\<And>a. a \<in> set pre \<Longrightarrow> P (the (hdat h a)) = Some True"
    and post: "\<And>a. a \<in> set post \<Longrightarrow> P (the (hdat h a)) = Some False"
    and x: "x \<in> set (r # from_level lev i pre)"
  shows "descend P h i x tu = Some (last (r # pre), \<lambda>j. if j \<le> i then last_at r lev pre j else tu j)"
  using i x
proof (induction i arbitrary: x tu)
  case 0
  have "sl_walk P h 0 x = Some (last_at r lev pre 0)" by (rule walk_level [OF c]) (use pre post 0 in auto)
  then show ?case by (auto simp: last_at_def fun_eq_iff)
next
  case (Suc i)
  have "sl_walk P h (Suc i) x = Some (last_at r lev pre (Suc i))" by (rule walk_level [OF c]) (use pre post Suc.prems in auto)
  moreover have "last_at r lev pre (Suc i) \<in> set (r # from_level lev i pre)" by (rule last_at_mem) simp
  ultimately show ?case using Suc.IH [of "last_at r lev pre (Suc i)"] Suc.prems(1) by (auto simp: fun_eq_iff le_Suc_eq)
qed

text \<open>The keys below \<open>k\<close> come first.\<close>

lemma split_below:
  fixes f :: "'a \<Rightarrow> 'k :: linorder"
  assumes "sorted_wrt (<) (map f ns)"
  obtains pre post where "ns = pre @ post" "\<And>a. a \<in> set pre \<Longrightarrow> f a < k" "\<And>a. a \<in> set post \<Longrightarrow> k \<le> f a"
proof -
  have "k \<le> f a" if i: "a \<in> set (dropWhile (\<lambda>a. f a < k) ns)" for a
  proof -
    obtain b bs where b: "dropWhile (\<lambda>a. f a < k) ns = b # bs"
      using i by (cases "dropWhile (\<lambda>a. f a < k) ns") (simp_all del: dropWhile_eq_Nil_conv)
    then have "\<not> f b < k" using hd_dropWhile [of "\<lambda>a. f a < k" ns] by simp
    moreover have "sorted_wrt (<) (map f (b # bs))"
      using assms takeWhile_dropWhile_id [of "\<lambda>a. f a < k" ns] b by (metis map_append sorted_wrt_append)
    ultimately show ?thesis using i b by auto
  qed
  then show thesis
    by (intro that [of "takeWhile (\<lambda>a. f a < k) ns" "dropWhile (\<lambda>a. f a < k) ns"]) (auto dest: set_takeWhileD)
qed

lemma split_upto:
  fixes f :: "'a \<Rightarrow> 'k :: linorder"
  assumes "sorted_wrt (<) (map f ns)"
  obtains pre post where "ns = pre @ post" "\<And>a. a \<in> set pre \<Longrightarrow> f a \<le> k" "\<And>a. a \<in> set post \<Longrightarrow> k < f a"
proof -
  obtain pre post where p: "ns = pre @ post" "\<And>a. a \<in> set pre \<Longrightarrow> f a < k" "\<And>a. a \<in> set post \<Longrightarrow> k \<le> f a"
    using split_below [OF assms, of k] by blast
  show thesis
  proof (cases post)
    case Nil
    then show thesis using that [of pre "[]"] p by (auto simp: less_imp_le)
  next
    case (Cons b bs)
    have gt: "f b < f a" if "a \<in> set bs" for a using assms that by (auto simp: p(1) Cons sorted_wrt_append)
    have kb: "k \<le> f b" using p(3) Cons by simp
    show thesis
    proof (cases "f b = k")
      case True
      have "f a \<le> k" if "a \<in> set (pre @ [b])" for a using that True p(2) [of a] by auto
      then show thesis using that [of "pre @ [b]" bs] p(1) Cons gt True by simp
    next
      case False
      have "k < f a" if "a \<in> set post" for a using that Cons gt [of a] kb False by (cases "a = b") auto
      then show thesis using that [of pre post] p(1,2) by (auto simp: less_imp_le)
    qed
  qed
qed

lemma sl_find_down:
  assumes ok: "sl_ok s (pre @ post) lev"
    and pre: "\<And>a. a \<in> set pre \<Longrightarrow> P (the (hdat (heap s) a)) = Some True"
    and post: "\<And>a. a \<in> set post \<Longrightarrow> P (the (hdat (heap s) a)) = Some False"
  shows "descend P (heap s) (curL s) (sl_root s) tu =
    Some (last (sl_root s # pre), \<lambda>j. if j \<le> curL s then last_at (sl_root s) lev pre j else tu j)"
  using ok pre post by (intro descend_levels) (auto simp: sl_ok_def)

section \<open>Linking and unlinking\<close>

lemma link_loop_fields:
  assumes "new \<in> dom (heap s)"
    and "\<And>j. i \<le> j \<Longrightarrow> j < i + n \<Longrightarrow> toUpdate s j \<in> dom (heap s) \<and> toUpdate s j \<noteq> new"
  shows "\<exists>h tu. link_loop n i new s = Some (s\<lparr>heap := h, toUpdate := tu\<rparr>) \<and> dom h = dom (heap s) \<and>
    hb h = hb (heap s) \<and> he h = he (heap s) \<and> hdat h = hdat (heap s) \<and>
    (\<forall>j x. hn h j x =
      (if i \<le> j \<and> j < i + n then (if x = new then hn (heap s) j (toUpdate s j) else if x = toUpdate s j then new else hn (heap s) j x)
       else hn (heap s) j x))"
  using assms
proof (induction n arbitrary: i s)
  case 0
  then show ?case by (intro exI [of _ "heap s"] exI [of _ "toUpdate s"]) (cases s; simp)
next
  case (Suc n)
  let ?u = "toUpdate s i" and ?h0 = "heap s"
  have u: "?u \<in> dom ?h0" "?u \<noteq> new" using Suc.prems(2) [of i] by auto
  obtain h1 where h1: "set_next new i (hn ?h0 i ?u) s = Some (s\<lparr>heap := h1\<rparr>)" "dom h1 = dom ?h0"
    "\<And>j x. hn h1 j x = (if j = i \<and> x = new then hn ?h0 i ?u else hn ?h0 j x)" "hb h1 = hb ?h0" "he h1 = he ?h0" "hdat h1 = hdat ?h0"
    using set_next_fields [OF Suc.prems(1), of i "hn ?h0 i ?u"] by blast
  define s1 where "s1 = s\<lparr>heap := h1\<rparr>"
  have hp: "heap s1 = h1" by (simp add: s1_def)
  have "?u \<in> dom (heap s1)" using u h1(2) hp by simp
  then obtain h2 where h2: "set_next ?u i new s1 = Some (s1\<lparr>heap := h2\<rparr>)" "dom h2 = dom h1"
    "\<And>j x. hn h2 j x = (if j = i \<and> x = ?u then new else hn h1 j x)" "hb h2 = hb h1" "he h2 = he h1" "hdat h2 = hdat h1"
    using set_next_fields [of ?u s1 i new] unfolding hp by blast
  let ?s = "s\<lparr>heap := h2, toUpdate := (toUpdate s)(i := new)\<rparr>"
  have d: "dom h2 = dom ?h0" using h2 h1 by simp
  have "new \<in> dom (heap ?s)" using Suc.prems(1) d by simp
  moreover have "toUpdate ?s j \<in> dom (heap ?s) \<and> toUpdate ?s j \<noteq> new" if "Suc i \<le> j" "j < Suc i + n" for j
    using Suc.prems(2) [of j] that d by simp
  ultimately obtain h tu where h: "link_loop n (Suc i) new ?s = Some (?s\<lparr>heap := h, toUpdate := tu\<rparr>)" "dom h = dom h2"
    "hb h = hb h2" "he h = he h2" "hdat h = hdat h2"
    "\<And>j x. hn h j x =
      (if Suc i \<le> j \<and> j < Suc i + n then (if x = new then hn h2 j (toUpdate ?s j) else if x = toUpdate ?s j then new else hn h2 j x)
       else hn h2 j x)"
    using Suc.IH [of ?s "Suc i"] by auto
  have "link_loop (Suc n) i new s = Some (s\<lparr>heap := h, toUpdate := tu\<rparr>)"
    using u h1(1) h2(1) h(1) by (simp add: get_next_eq s1_def)
  moreover have "hn h j x = (if i \<le> j \<and> j < i + Suc n then (if x = new then hn ?h0 j (toUpdate s j) else if x = toUpdate s j then new else hn ?h0 j x)
       else hn ?h0 j x)" for j x
    using u unfolding h(6) h2(3) h1(3) by (cases "j = i") auto
  ultimately show ?case using h(2-5) h1 h2 by (intro exI [of _ h] exI [of _ tu]) simp
qed

lemma unlink_loop_fields:
  assumes "cur \<in> dom (heap s)" "i \<le> m" "m \<le> i + n"
    and "\<And>j. i \<le> j \<Longrightarrow> j < i + n \<Longrightarrow> toUpdate s j \<in> dom (heap s) \<and> toUpdate s j \<noteq> cur"
    and "\<And>j. i \<le> j \<Longrightarrow> j < m \<Longrightarrow> hn (heap s) j (toUpdate s j) = cur"
    and "m < i + n \<Longrightarrow> hn (heap s) m (toUpdate s m) \<noteq> cur"
  shows "\<exists>h. unlink_loop n i cur s = Some (s\<lparr>heap := h\<rparr>) \<and> dom h = dom (heap s) \<and>
    hb h = hb (heap s) \<and> he h = he (heap s) \<and> hdat h = hdat (heap s) \<and>
    (\<forall>j x. hn h j x = (if i \<le> j \<and> j < m \<and> x = toUpdate s j then hn (heap s) j cur else hn (heap s) j x))"
  using assms
proof (induction n arbitrary: i s)
  case 0
  then show ?case by (intro exI [of _ "heap s"]) (cases s; simp)
next
  case (Suc n)
  let ?u = "toUpdate s i" and ?h0 = "heap s"
  have u: "?u \<in> dom ?h0" "?u \<noteq> cur" using Suc.prems(4) [of i] by auto
  show ?case
  proof (cases "m = i")
    case True
    then have "hn ?h0 i ?u \<noteq> cur" using Suc.prems(6) by simp
    then show ?thesis using u True by (intro exI [of _ ?h0]) (cases s; simp add: get_next_eq)
  next
    case False
    then have im: "Suc i \<le> m" and c: "hn ?h0 i ?u = cur" using Suc.prems(2,5) by auto
    obtain h1 where h1: "set_next ?u i (hn ?h0 i cur) s = Some (s\<lparr>heap := h1\<rparr>)" "dom h1 = dom ?h0"
      "\<And>j x. hn h1 j x = (if j = i \<and> x = ?u then hn ?h0 i cur else hn ?h0 j x)" "hb h1 = hb ?h0" "he h1 = he ?h0" "hdat h1 = hdat ?h0"
      using set_next_fields [OF u(1), of i "hn ?h0 i cur"] by blast
    let ?s = "s\<lparr>heap := h1\<rparr>"
    have "\<exists>h. unlink_loop n (Suc i) cur ?s = Some (?s\<lparr>heap := h\<rparr>) \<and> dom h = dom (heap ?s) \<and>
      hb h = hb (heap ?s) \<and> he h = he (heap ?s) \<and> hdat h = hdat (heap ?s) \<and>
      (\<forall>j x. hn h j x = (if Suc i \<le> j \<and> j < m \<and> x = toUpdate ?s j then hn (heap ?s) j cur else hn (heap ?s) j x))"
      using Suc.prems h1(2,3) im by (intro Suc.IH) auto
    then obtain h where h: "unlink_loop n (Suc i) cur ?s = Some (s\<lparr>heap := h\<rparr>)" "dom h = dom h1"
      "hb h = hb h1" "he h = he h1" "hdat h = hdat h1"
      "\<And>j x. hn h j x = (if Suc i \<le> j \<and> j < m \<and> x = toUpdate s j then hn h1 j cur else hn h1 j x)" by auto
    have "unlink_loop (Suc n) i cur s = Some (s\<lparr>heap := h\<rparr>)"
      using u c h1(1) h(1) Suc.prems(1) by (simp add: get_next_eq)
    moreover have "hn h j x = (if i \<le> j \<and> j < m \<and> x = toUpdate s j then hn ?h0 j cur else hn ?h0 j x)" for j x
      using u im unfolding h(6) h1(3) by (cases "j = i") auto
    ultimately show ?thesis using h(2-5) h1 by (intro exI [of _ h]) simp
  qed
qed

section \<open>Inserting keeps the structure\<close>

lemma sl_chain_frame:
  assumes "sl_chain h r e ns lev" "\<And>a. a \<in> set (r # e # ns) \<Longrightarrow> h' a = h a"
  shows "sl_chain h' r e ns lev"
proof -
  have f: "hn h' i a = hn h i a" "hb h' a = hb h a" "he h' a = he h a" "hdat h' a = hdat h a" "a \<in> dom h' \<longleftrightarrow> a \<in> dom h"
    if "a \<in> set (r # e # ns)" for a i using assms(2) [OF that] by (simp_all add: field_defs domIff)
  have "sl_linked (hn h' i) (r # from_level lev i ns @ [e]) = sl_linked (hn h i) (r # from_level lev i ns @ [e])" for i
    by (rule sl_linked_cong, rule f) (use from_level_subset [of lev i ns] in \<open>auto dest!: in_set_butlastD\<close>)
  moreover have "sl_linked (hb h') (e # rev ns @ [r]) = sl_linked (hb h) (e # rev ns @ [r])"
    by (rule sl_linked_cong, rule f) (auto dest!: in_set_butlastD)
  moreover have "set (r # e # ns) \<subseteq> dom h' \<longleftrightarrow> set (r # e # ns) \<subseteq> dom h" using f(5) by blast
  ultimately show ?thesis using assms(1) f(1-4) unfolding sl_chain_def by simp
qed

lemma last_at_split:
  obtains xs where "r # from_level lev i pre = xs @ [last_at r lev pre i]"
  unfolding last_at_def by (metis append_butlast_last_id list.distinct(1))

lemma from_level_insert:
  assumes "new \<notin> set (pre @ post)"
  shows "from_level (lev(new := l)) i (pre @ new # post) =
    from_level lev i pre @ (if i \<le> l then [new] else []) @ from_level lev i post"
proof -
  have "from_level (lev(new := l)) i xs = from_level lev i xs" if "new \<notin> set xs" for xs
    unfolding from_level_def by (rule filter_cong) (use that in auto)
  then have "from_level (lev(new := l)) i pre = from_level lev i pre" "from_level (lev(new := l)) i post = from_level lev i post"
    using assms by auto
  then show ?thesis by (auto simp: from_level_def)
qed

lemma chain_insert:
  assumes c: "sl_chain h r e (pre @ post) lev" and new: "new \<notin> set (r # e # pre @ post)" "new \<noteq> 0" "new \<in> dom h"
    "\<not> he h new" "hdat h new \<noteq> None"
    and f: "dom h' = dom h" "he h' = he h" "hdat h' = hdat h"
    and b: "hb h' = (hb h)(new := last (r # pre), hd (post @ [e]) := new)"
    and n: "\<And>j x. hn h' j x = (if j \<le> l then (if x = new then hn h j (last_at r lev pre j)
        else if x = last_at r lev pre j then new else hn h j x) else hn h j x)"
  shows "sl_chain h' r e (pre @ new # post) (lev(new := l))"
proof -
  have d: "distinct (r # pre @ post @ [e])" using c by (auto simp: sl_chain_def)
  have lvl: "sl_linked (hn h' i) (r # from_level (lev(new := l)) i (pre @ new # post) @ [e])" if i: "i \<le> maxL" for i
  proof -
    have l0: "sl_linked (hn h i) ((r # from_level lev i pre) @ from_level lev i post @ [e])"
      using c i by (auto simp: sl_chain_def from_level_append)
    have di: "distinct ((r # from_level lev i pre) @ from_level lev i post @ [e])"
      using d by (auto simp: from_level_def)
    have ni: "new \<notin> set ((r # from_level lev i pre) @ from_level lev i post @ [e])" using new(1) by (auto simp: from_level_def)
    obtain xs where xs: "r # from_level lev i pre = xs @ [last_at r lev pre i]" by (rule last_at_split)
    show ?thesis
    proof (cases "i \<le> l")
      case True
      have "sl_linked (hn h' i) (xs @ last_at r lev pre i # new # from_level lev i post @ [e])"
        by (rule sl_linked_insert [where f = "hn h i"]) (use l0 di ni True in \<open>auto simp: xs n\<close>)
      then have "sl_linked (hn h' i) ((r # from_level lev i pre) @ new # from_level lev i post @ [e])" unfolding xs by simp
      then show ?thesis using from_level_insert [of new pre post lev l i] new(1) True by simp
    next
      case False
      then have "hn h' i = hn h i" by (simp add: fun_eq_iff n)
      then show ?thesis using l0 from_level_insert [of new pre post lev l i] new(1) False by simp
    qed
  qed
  have bef: "sl_linked (hb h') (e # rev (pre @ new # post) @ [r])"
  proof -
    have l0: "sl_linked (hb h) ((e # rev post) @ rev pre @ [r])" using c by (simp add: sl_chain_def)
    obtain xs where xs: "e # rev post = xs @ [hd (post @ [e])]" by (cases post) auto
    obtain ys where ys: "rev pre @ [r] = last (r # pre) # ys" by (cases pre rule: rev_cases) auto
    have hbu: "hb h (hd (post @ [e])) = last (r # pre)" using l0 unfolding xs ys by (simp add: sl_linked_next)
    have "sl_linked (hb h') (xs @ hd (post @ [e]) # new # rev pre @ [r])"
    proof (rule sl_linked_insert [where f = "hb h"])
      show "sl_linked (hb h) (xs @ hd (post @ [e]) # rev pre @ [r])" using l0 unfolding xs by simp
      have "distinct ((e # rev post) @ rev pre @ [r])" "new \<notin> set ((e # rev post) @ rev pre @ [r])" using d new(1) by auto
      then show "distinct (xs @ hd (post @ [e]) # rev pre @ [r])" "new \<notin> set (xs @ hd (post @ [e]) # rev pre @ [r])"
        unfolding xs by simp_all
      show "hb h' new = hb h (hd (post @ [e]))" using hbu b new(1) by (cases post) auto
    qed (use b in auto)
    then have "sl_linked (hb h') ((e # rev post) @ new # rev pre @ [r])" unfolding xs by simp
    then show ?thesis by simp
  qed
  have "e \<noteq> last_at r lev pre 0" using last_at_mem [of 0 0 r lev pre] d by auto
  then have "hn h' 0 e = 0" using c new(1) by (auto simp: n sl_chain_def)
  moreover have "hb h' r = 0" using c new(1) d by (cases post) (auto simp: b sl_chain_def)
  ultimately show ?thesis using c new lvl bef unfolding sl_chain_def f by auto
qed

section \<open>Erasing keeps the structure\<close>

lemma chain_erase:
  assumes c: "sl_chain h r e (pre @ cur # post) lev"
    and f: "dom h' = dom h" "he h' = he h" "hdat h' = hdat h"
    and b: "hb h' = (hb h)(hd (post @ [e]) := last (r # pre))"
    and n: "\<And>j x. hn h' j x = (if j \<le> lev cur \<and> x = last_at r lev pre j then hn h j cur else hn h j x)"
  shows "sl_chain h' r e (pre @ post) lev"
proof -
  have d: "distinct (r # pre @ cur # post @ [e])" using c by (auto simp: sl_chain_def)
  have lvl: "sl_linked (hn h' i) (r # from_level lev i (pre @ post) @ [e])" if i: "i \<le> maxL" for i
  proof -
    let ?c = "if i \<le> lev cur then [cur] else []"
    have fl: "from_level lev i (cur # post) = ?c @ from_level lev i post" by (simp add: from_level_def)
    have "sl_linked (hn h i) (r # from_level lev i (pre @ cur # post) @ [e])" using c i unfolding sl_chain_def by blast
    then have l0: "sl_linked (hn h i) ((r # from_level lev i pre) @ ?c @ from_level lev i post @ [e])"
      unfolding from_level_append fl by simp
    have di: "distinct ((r # from_level lev i pre) @ cur # from_level lev i post @ [e])"
      using d by (auto simp: from_level_def)
    obtain xs where xs: "r # from_level lev i pre = xs @ [last_at r lev pre i]" by (rule last_at_split)
    show ?thesis
    proof (cases "i \<le> lev cur")
      case True
      have "sl_linked (hn h' i) (xs @ last_at r lev pre i # from_level lev i post @ [e])"
        by (rule sl_linked_remove [where f = "hn h i" and c = cur]) (use l0 di True in \<open>auto simp: xs n\<close>)
      then have "sl_linked (hn h' i) ((r # from_level lev i pre) @ from_level lev i post @ [e])" unfolding xs by simp
      then show ?thesis by (simp add: from_level_append)
    next
      case False
      then have "hn h' i = hn h i" by (simp add: fun_eq_iff n)
      then show ?thesis using l0 False by (simp add: from_level_append)
    qed
  qed
  have bef: "sl_linked (hb h') (e # rev (pre @ post) @ [r])"
  proof -
    have l0: "sl_linked (hb h) ((e # rev post) @ cur # rev pre @ [r])" using c by (simp add: sl_chain_def)
    obtain xs where xs: "e # rev post = xs @ [hd (post @ [e])]" by (cases post) auto
    obtain ys where ys: "rev pre @ [r] = last (r # pre) # ys" by (cases pre rule: rev_cases) auto
    have hbu: "hb h cur = last (r # pre)" using l0 unfolding ys by (rule sl_linked_next)
    have "sl_linked (hb h') (xs @ hd (post @ [e]) # rev pre @ [r])"
    proof (rule sl_linked_remove [where f = "hb h" and c = cur])
      show "sl_linked (hb h) (xs @ hd (post @ [e]) # cur # rev pre @ [r])" using l0 unfolding xs by simp
      have "distinct ((e # rev post) @ cur # rev pre @ [r])" using d by auto
      then show "distinct (xs @ hd (post @ [e]) # cur # rev pre @ [r])" unfolding xs by simp
    qed (use b hbu in auto)
    then have "sl_linked (hb h') ((e # rev post) @ rev pre @ [r])" unfolding xs by simp
    then show ?thesis by simp
  qed
  have "e \<noteq> last_at r lev pre 0" using last_at_mem [of 0 0 r lev pre] d by auto
  then have "hn h' 0 e = 0" using c by (auto simp: n sl_chain_def)
  moreover have "hb h' r = 0" using c d by (cases post) (auto simp: b sl_chain_def)
  ultimately show ?thesis using c lvl bef unfolding sl_chain_def f by auto
qed

text \<open>The node after the first nodes \<open>pre\<close> at a level.\<close>

lemma chain_next:
  assumes "sl_chain h r e (pre @ post) lev" "i \<le> maxL"
  shows "hn h i (last_at r lev pre i) = hd (from_level lev i post @ [e])"
proof -
  obtain xs where xs: "r # from_level lev i pre = xs @ [last_at r lev pre i]" by (rule last_at_split)
  obtain z zs where z: "from_level lev i post @ [e] = z # zs" by (cases "from_level lev i post @ [e]") auto
  have "sl_linked (hn h i) ((r # from_level lev i pre) @ from_level lev i post @ [e])"
    using assms by (auto simp: sl_chain_def from_level_append)
  then have "hn h i (last_at r lev pre i) = z" unfolding xs z by (simp add: sl_linked_next)
  then show ?thesis using z by simp
qed

section \<open>emplace\<close>

lemma ffs_le: "n < 2 ^ m \<Longrightarrow> ffs n \<le> m"
proof (induction m arbitrary: n)
  case 0
  then show ?case by (simp add: ffs.simps)
next
  case (Suc m)
  have "ffs (n div 2) \<le> m" using Suc.prems by (intro Suc.IH) simp
  then show ?case by (subst ffs.simps) simp
qed

lemma randomL_le: "fst (randomL rng) \<le> 15"
proof -
  have "ffs (unat x mod 32768) \<le> 15" for x :: "32 word" by (rule ffs_le) simp
  then show ?thesis by (simp add: randomL_def krand_def Let_def)
qed

text \<open>A new node, from the pool or from \<open>kmalloc\<close>.\<close>

lemma alloc_data_ok:
  assumes ok: "sl_ok s ns lev" and fresh: "fst new \<notin> dom (heap s)" "fst new \<noteq> 0"
  obtains a s1 where "alloc_data new d s = Some (a, s1)" "sl_ok s1 ns lev" "sl_entries s1 ns = sl_entries s ns"
    "a \<in> dom (heap s1)" "a \<noteq> 0" "a \<notin> set (sl_root s1 # sl_endnode s1 # ns @ pool s1)"
    "\<not> he (heap s1) a" "hdat (heap s1) a = Some d" "length (pool s1) < pool_size"
proof -
  define a where "a = (case pool s of [] \<Rightarrow> fst new | x # p \<Rightarrow> x)"
  obtain m where m: "n_end m = False" "n_data m = Some d"
    "alloc_data new d s = Some (a, s\<lparr>pool := tl (pool s), heap := (heap s)(a \<mapsto> m)\<rparr>)"
  proof (cases "pool s")
    case Nil
    let ?m = "\<lparr>n_next = (snd new)(0 := 0), n_before = 0, n_data = Some d, n_end = False\<rparr>"
    have "alloc_data new d s = Some (a, s\<lparr>pool := tl (pool s), heap := (heap s)(a \<mapsto> ?m)\<rparr>)"
      using Nil by (cases s) (simp add: alloc_data_def alloc_get_def a_def)
    then show thesis by (intro that) simp_all
  next
    case (Cons x p)
    then obtain n where "heap s x = Some n" using ok by (auto simp: sl_ok_def)
    then show thesis using Cons by (intro that) (simp_all add: alloc_data_def alloc_get_def a_def)
  qed
  let ?s = "s\<lparr>pool := tl (pool s), heap := (heap s)(a \<mapsto> m)\<rparr>"
  have c: "sl_chain (heap s) (sl_root s) (sl_endnode s) ns lev" using ok by (simp add: sl_ok_def)
  have a: "a \<notin> set (sl_root s # sl_endnode s # ns)" "a \<noteq> 0" "a \<notin> set (tl (pool s))"
  proof -
    have "a \<notin> set (sl_root s # sl_endnode s # ns) \<and> a \<noteq> 0 \<and> a \<notin> set (tl (pool s))"
    proof (cases "pool s")
      case Nil
      have "set (sl_root s # sl_endnode s # ns) \<subseteq> dom (heap s)" using c unfolding sl_chain_def by blast
      then show ?thesis using fresh Nil by (auto simp: a_def)
    next
      case (Cons x p)
      have "x \<in> set (pool s)" "a = x" "tl (pool s) = p" "distinct (x # p)" using Cons ok by (auto simp: a_def sl_ok_def)
      then show ?thesis using ok unfolding sl_ok_def by (metis DiffE distinct.simps(2) subsetD)
    qed
    then show "a \<notin> set (sl_root s # sl_endnode s # ns)" "a \<noteq> 0" "a \<notin> set (tl (pool s))" by auto
  qed
  have c': "sl_chain (heap ?s) (sl_root s) (sl_endnode s) ns lev"
    by (rule sl_chain_frame [OF c]) (use a in auto)
  have k: "map (key_of (heap ?s)) ns = map (key_of (heap s)) ns" "sl_entries ?s ns = sl_entries s ns"
    using a(1) by (auto simp: key_of_def sl_entries_def)
  have p: "set (tl (pool s)) \<subseteq> set (pool s)" by (cases "pool s") auto
  have "length (tl (pool s)) < pool_size" using ok by (cases "pool s") (auto simp: sl_ok_def pool_size_def)
  moreover have "sorted_wrt (<) (map (key_of (heap ?s)) ns)" unfolding k(1) using ok by (simp add: sl_ok_def)
  moreover have "set (tl (pool s)) \<subseteq> dom (heap ?s) - set (sl_root s # sl_endnode s # ns)" "0 \<notin> set (tl (pool s))"
    using ok p unfolding sl_ok_def by auto
  ultimately have "length (tl (pool s)) < pool_size" "sl_ok ?s ns lev"
    using ok c' unfolding sl_ok_def by (simp_all add: distinct_tl)
  then show thesis using that m(3) k a m(1,2) by simp
qed

text \<open>Returning a node that is not linked.\<close>

lemma alloc_push_ok:
  assumes ok: "sl_ok s ns lev" and a: "a \<in> dom (heap s)" "a \<noteq> 0" "a \<notin> set (sl_root s # sl_endnode s # ns @ pool s)"
  obtains s1 where "alloc_push a s = Some s1" "sl_ok s1 ns lev" "sl_entries s1 ns = sl_entries s ns"
    "sl_root s1 = sl_root s" "sl_endnode s1 = sl_endnode s" "\<And>x. x \<noteq> a \<Longrightarrow> heap s1 x = heap s x"
proof -
  obtain n where n: "heap s a = Some n" using a(1) by auto
  obtain h p where s1: "alloc_push a s = Some (s\<lparr>heap := h, pool := p\<rparr>)" and h: "\<And>x. x \<noteq> a \<Longrightarrow> h x = heap s x"
    and p: "p = pool s \<or> p = a # pool s \<and> a \<in> dom h \<and> length (pool s) < pool_size"
  proof (cases "length (pool s) \<ge> pool_size")
    case True
    let ?h = "(heap s)(a := None)"
    have "alloc_push a s = Some (s\<lparr>heap := ?h, pool := pool s\<rparr>)" using n True by (cases s) (simp add: alloc_push_def)
    then show thesis by (rule that) simp_all
  next
    case False
    let ?h = "(heap s)(a \<mapsto> (if n_end n then n else n\<lparr>n_data := None\<rparr>))"
    have "alloc_push a s = Some (s\<lparr>heap := ?h, pool := a # pool s\<rparr>)" using n False by (simp add: alloc_push_def)
    then show thesis by (rule that) (use False in auto)
  qed
  let ?s = "s\<lparr>heap := h, pool := p\<rparr>"
  have c: "sl_chain (heap s) (sl_root s) (sl_endnode s) ns lev" using ok by (simp add: sl_ok_def)
  have c': "sl_chain (heap ?s) (sl_root s) (sl_endnode s) ns lev"
    by (rule sl_chain_frame [OF c]) (simp, rule h, use a in auto)
  have k: "map (key_of (heap ?s)) ns = map (key_of (heap s)) ns" "sl_entries ?s ns = sl_entries s ns"
  proof -
    have "h x = heap s x" if "x \<in> set ns" for x using h [of x] a(3) that by auto
    then show "map (key_of (heap ?s)) ns = map (key_of (heap s)) ns" "sl_entries ?s ns = sl_entries s ns"
      by (simp_all add: key_of_def sl_entries_def hdat_def)
  qed
  have "set (pool s) \<subseteq> dom h"
  proof
    fix x assume x: "x \<in> set (pool s)"
    then have "x \<in> dom (heap s)" "x \<noteq> a" using ok a(3) unfolding sl_ok_def by auto
    then show "x \<in> dom h" using h [of x] by (simp add: domIff)
  qed
  moreover have "sorted_wrt (<) (map (key_of (heap ?s)) ns)" unfolding k(1) using ok by (simp add: sl_ok_def)
  ultimately have "sl_ok ?s ns lev"
    using ok c' p a unfolding sl_ok_def by auto
  then show thesis using that s1 k h by simp
qed

lemma last_at_0: "last_at r lev pre 0 = last (r # pre)"
  by (simp add: last_at_def)

lemma last_at_above: "(\<And>a. a \<in> set pre \<Longrightarrow> lev a < j) \<Longrightarrow> last_at r lev pre j = r"
proof -
  assume "\<And>a. a \<in> set pre \<Longrightarrow> lev a < j"
  then have "from_level lev j pre = []" by (auto simp: from_level_def filter_empty_conv not_le)
  then show ?thesis by (simp add: last_at_def)
qed

lemma last_at_in: "last_at r lev pre j \<in> set (r # pre)"
  using last_at_mem [of 0 j r lev pre] by simp

lemma raise_level_eq:
  assumes "sl_ok s (pre @ post) lev" "\<And>j. j \<le> curL s \<Longrightarrow> tu j = last_at (sl_root s) lev pre j"
  obtains tu' where "raise_level l (s\<lparr>toUpdate := tu\<rparr>) = s\<lparr>toUpdate := tu', curL := max l (curL s)\<rparr>"
    "\<And>j. j \<le> l \<Longrightarrow> tu' j = last_at (sl_root s) lev pre j"
proof (cases "curL s < l")
  case True
  let ?tu = "\<lambda>i. if curL s + 1 \<le> i \<and> i \<le> l then sl_root s else tu i"
  have "?tu j = last_at (sl_root s) lev pre j" if "j \<le> l" for j
  proof (cases "j \<le> curL s")
    case False
    have "lev x < j" if "x \<in> set pre" for x
    proof -
      have "lev x \<le> curL s" using assms(1) that by (auto simp: sl_ok_def)
      then show ?thesis using False by simp
    qed
    then show ?thesis using last_at_above [of pre lev j "sl_root s"] that False by simp
  qed (use assms(2) in auto)
  moreover have "raise_level l (s\<lparr>toUpdate := tu\<rparr>) = s\<lparr>toUpdate := ?tu, curL := max l (curL s)\<rparr>"
    using True by (simp add: raise_level_def max_def cong: if_cong)
  ultimately show thesis using that by blast
next
  case False
  then have "raise_level l (s\<lparr>toUpdate := tu\<rparr>) = s\<lparr>toUpdate := tu, curL := max l (curL s)\<rparr>"
    by (cases s) (simp add: raise_level_def max_def)
  then show thesis using that assms(2) False by simp
qed

lemma link_node_ok:
  assumes ok: "sl_ok s (pre @ post) lev" and l: "l \<le> maxL"
    and a: "a \<in> dom (heap s)" "a \<noteq> 0" "a \<notin> set (sl_root s # sl_endnode s # (pre @ post) @ pool s)"
      "\<not> he (heap s) a" "hdat (heap s) a = Some d"
    and k: "\<And>x. x \<in> set pre \<Longrightarrow> key_of (heap s) x < fst d" "\<And>x. x \<in> set post \<Longrightarrow> fst d < key_of (heap s) x"
    and tu: "\<And>j. j \<le> l \<Longrightarrow> tu j = last_at (sl_root s) lev pre j"
    and s2: "s2 = s\<lparr>toUpdate := tu, curL := max l (curL s)\<rparr>"
  shows "\<exists>s3 s4 s5. set_before a (toUpdate s2 0) s2 = Some s3 \<and>
    get_next (heap s3) (toUpdate s3 0) 0 = Some (hd (post @ [sl_endnode s])) \<and>
    set_before (hd (post @ [sl_endnode s])) a s3 = Some s4 \<and> link_loop (l + 1) 0 a s4 = Some s5 \<and>
    sl_ok s5 (pre @ a # post) (lev(a := l)) \<and> hdat (heap s5) = hdat (heap s)"
proof -
  let ?r = "sl_root s" and ?e = "sl_endnode s" and ?h = "heap s" and ?b = "hd (post @ [sl_endnode s])"
  have c: "sl_chain ?h ?r ?e (pre @ post) lev" using ok by (simp add: sl_ok_def)
  have dm: "set (?r # ?e # pre @ post) \<subseteq> dom ?h" using c unfolding sl_chain_def by blast
  have u0: "toUpdate s2 0 = last (?r # pre)" using tu [of 0] by (simp add: s2 last_at_0)
  have u0d: "last (?r # pre) \<in> set (?r # pre)" by (rule last_in_set) simp
  have b: "hn ?h 0 (last (?r # pre)) = ?b" using chain_next [OF c, of 0] by (simp add: last_at_0)
  have bd: "?b \<in> set (?e # post)" by (cases post) auto
  have hp: "heap s2 = ?h" by (simp add: s2)
  obtain h3 where h3: "set_before a (toUpdate s2 0) s2 = Some (s2\<lparr>heap := h3\<rparr>)" "dom h3 = dom ?h"
    "hb h3 = (hb ?h)(a := toUpdate s2 0)" "hn h3 = hn ?h" "he h3 = he ?h" "hdat h3 = hdat ?h"
    using set_before_fields [of a s2 "toUpdate s2 0"] a(1) unfolding hp by blast
  define s3 where "s3 = s2\<lparr>heap := h3\<rparr>"
  have hp3: "heap s3 = h3" "toUpdate s3 = tu" by (simp_all add: s3_def s2)
  have "?b \<in> dom h3" using bd dm h3(2) by auto
  then obtain h4 where h4: "set_before ?b a s3 = Some (s3\<lparr>heap := h4\<rparr>)" "dom h4 = dom h3"
    "hb h4 = (hb h3)(?b := a)" "hn h4 = hn h3" "he h4 = he h3" "hdat h4 = hdat h3"
    using set_before_fields [of ?b s3 a] unfolding hp3 by blast
  define s4 where "s4 = s3\<lparr>heap := h4\<rparr>"
  have hp4: "heap s4 = h4" "toUpdate s4 = tu" by (simp_all add: s4_def hp3)
  have ud: "tu j \<in> dom ?h \<and> tu j \<noteq> a" if "j \<le> l" for j
    using tu [OF that] last_at_in [of ?r lev pre j] dm a(3) by auto
  have "\<exists>h tu'. link_loop (l + 1) 0 a s4 = Some (s4\<lparr>heap := h, toUpdate := tu'\<rparr>) \<and> dom h = dom (heap s4) \<and>
    hb h = hb (heap s4) \<and> he h = he (heap s4) \<and> hdat h = hdat (heap s4) \<and>
    (\<forall>j x. hn h j x = (if 0 \<le> j \<and> j < 0 + (l + 1) then (if x = a then hn (heap s4) j (toUpdate s4 j)
        else if x = toUpdate s4 j then a else hn (heap s4) j x) else hn (heap s4) j x))"
    by (rule link_loop_fields) (use a(1) ud h3(2) h4(2) hp4 in auto)
  then obtain h5 tu' where h5: "link_loop (l + 1) 0 a s4 = Some (s4\<lparr>heap := h5, toUpdate := tu'\<rparr>)" "dom h5 = dom h4"
    "hb h5 = hb h4" "he h5 = he h4" "hdat h5 = hdat h4"
    "\<And>j x. hn h5 j x = (if j < l + 1 then (if x = a then hn h4 j (tu j) else if x = tu j then a else hn h4 j x) else hn h4 j x)"
    unfolding hp4 by auto
  let ?s5 = "s4\<lparr>heap := h5, toUpdate := tu'\<rparr>"
  have s5: "heap ?s5 = h5" "sl_root ?s5 = ?r" "sl_endnode ?s5 = ?e" "pool ?s5 = pool s" "curL ?s5 = max l (curL s)"
    by (simp_all add: s4_def s3_def s2)
  have dat: "hdat h5 = hdat ?h" using h5(5) h4(6) h3(6) by simp
  have ch: "sl_chain h5 ?r ?e (pre @ a # post) (lev(a := l))"
  proof (rule chain_insert [OF c])
    show "hb h5 = (hb ?h)(a := last (?r # pre), ?b := a)" using h5(3) h4(3) h3(3) u0 by simp
    show "hn h5 j x = (if j \<le> l then (if x = a then hn ?h j (last_at ?r lev pre j)
        else if x = last_at ?r lev pre j then a else hn ?h j x) else hn ?h j x)" for j x
      using tu [of j] unfolding h5(6) h4(4) h3(4) by auto
  qed (use a h5 h4 h3 in auto)
  have srt: "sorted_wrt (<) (map (key_of h5) (pre @ a # post))"
  proof -
    have "key_of h5 = key_of ?h" by (simp add: key_of_def fun_eq_iff dat)
    moreover have "key_of ?h a = fst d" using a(5) by (simp add: key_of_def)
    ultimately show ?thesis using ok k unfolding sl_ok_def by (auto simp: sorted_wrt_append intro: less_trans)
  qed
  have "sl_ok ?s5 (pre @ a # post) (lev(a := l))"
    using ok ch srt l a(3) h5(2) h4(2) h3(2) unfolding sl_ok_def s5 by (auto simp: le_max_iff_disj)
  moreover have "get_next (heap s3) (toUpdate s3 0) 0 = Some ?b"
  proof -
    have "toUpdate s3 0 = last (?r # pre)" using u0 unfolding hp3 s2 by simp
    moreover have "last (?r # pre) \<in> dom h3" using u0d dm h3(2) by auto
    ultimately show ?thesis using b h3(4) by (simp only: hp3 get_next_eq)
  qed
  ultimately show ?thesis using h3(1) h4(1) h5(1) dat s5(1) unfolding s3_def [symmetric] s4_def [symmetric] by metis
qed

lemma sl_ok_toUpdate [simp]: "sl_ok (s\<lparr>toUpdate := tu\<rparr>) ns lev = sl_ok s ns lev" "sl_entries (s\<lparr>toUpdate := tu\<rparr>) ns = sl_entries s ns"
  by (simp_all add: sl_ok_def sl_entries_def)

lemma sl_ok_dom: "sl_ok s ns lev \<Longrightarrow> set (sl_root s # sl_endnode s # ns) \<subseteq> dom (heap s)"
  unfolding sl_ok_def sl_chain_def by blast

text \<open>The search for a key: where it stops, and what it finds there.\<close>

lemma search_key:
  assumes ok: "sl_ok s ns lev"
  obtains pre post tu where "ns = pre @ post"
    "\<And>x. x \<in> set pre \<Longrightarrow> key_of (heap s) x < k" "\<And>x. x \<in> set post \<Longrightarrow> k \<le> key_of (heap s) x"
    "descend (Some \<circ> key_lt k) (heap s) (curL s) (sl_root s) (toUpdate s) = Some (last (sl_root s # pre), tu)"
    "\<And>j. j \<le> curL s \<Longrightarrow> tu j = last_at (sl_root s) lev pre j"
    "get_next (heap s) (last (sl_root s # pre)) 0 = Some (hd (post @ [sl_endnode s]))"
proof -
  have "sorted_wrt (<) (map (key_of (heap s)) ns)" using ok by (simp add: sl_ok_def)
  then obtain pre post where p: "ns = pre @ post"
    "\<And>x. x \<in> set pre \<Longrightarrow> key_of (heap s) x < k" "\<And>x. x \<in> set post \<Longrightarrow> k \<le> key_of (heap s) x"
    using split_below [of "key_of (heap s)" ns k] by blast
  have ok': "sl_ok s (pre @ post) lev" using ok p(1) by simp
  then have c: "sl_chain (heap s) (sl_root s) (sl_endnode s) (pre @ post) lev" by (simp add: sl_ok_def)
  let ?tu = "\<lambda>j. if j \<le> curL s then last_at (sl_root s) lev pre j else toUpdate s j"
  have "descend (Some \<circ> key_lt k) (heap s) (curL s) (sl_root s) (toUpdate s) = Some (last (sl_root s # pre), ?tu)"
    by (rule sl_find_down [OF ok']) (use p in \<open>auto simp: key_lt_def key_of_def not_less\<close>)
  moreover have "last (sl_root s # pre) \<in> set (sl_root s # pre)" by (rule last_in_set) simp
  then have "last (sl_root s # pre) \<in> dom (heap s)" using sl_ok_dom [OF ok] p(1) by auto
  then have "get_next (heap s) (last (sl_root s # pre)) 0 = Some (hd (post @ [sl_endnode s]))"
    using chain_next [OF c, of 0] by (simp add: get_next_eq last_at_0)
  ultimately show thesis using that [of pre post ?tu] p by auto
qed

lemma insert_node_ok:
  assumes ok: "sl_ok s ns lev"
    and a: "a \<in> dom (heap s)" "a \<noteq> 0" "a \<notin> set (sl_root s # sl_endnode s # ns @ pool s)"
      "\<not> he (heap s) a" "hdat (heap s) a = Some d"
  shows "(\<exists>n tu. n \<in> set ns \<and> key_of (heap s) n = fst d \<and> sl_insert_node a s rng = Some ((n, False), s\<lparr>toUpdate := tu\<rparr>, rng)) \<or>
    (\<exists>pre post l s' rng'. ns = pre @ post \<and>
      (\<forall>x\<in>set pre. key_of (heap s) x < fst d) \<and> (\<forall>x\<in>set post. fst d < key_of (heap s) x) \<and>
      sl_insert_node a s rng = Some ((a, True), s', rng') \<and> sl_ok s' (pre @ a # post) (lev(a := l)) \<and> hdat (heap s') = hdat (heap s))"
proof -
  let ?e = "sl_endnode s"
  obtain pre post tu where p: "ns = pre @ post"
    "\<And>x. x \<in> set pre \<Longrightarrow> key_of (heap s) x < fst d" "\<And>x. x \<in> set post \<Longrightarrow> fst d \<le> key_of (heap s) x"
    "descend (Some \<circ> key_lt (fst d)) (heap s) (curL s) (sl_root s) (toUpdate s) = Some (last (sl_root s # pre), tu)"
    "\<And>j. j \<le> curL s \<Longrightarrow> tu j = last_at (sl_root s) lev pre j"
    "get_next (heap s) (last (sl_root s # pre)) 0 = Some (hd (post @ [?e]))"
    using search_key [OF ok, of "fst d"] by blast
  have c: "sl_chain (heap s) (sl_root s) ?e ns lev" using ok by (simp add: sl_ok_def)
  have dm: "set (?e # ns) \<subseteq> dom (heap s)" "0 \<notin> set (?e # ns)" "he (heap s) ?e" "\<forall>x\<in>set ns. \<not> he (heap s) x \<and> hdat (heap s) x \<noteq> None"
    using c by (auto simp: sl_chain_def)
  have gd: "get_data (heap s) a = Some d" using a by (simp add: get_data_eq)
  show ?thesis
  proof (cases "\<exists>c post'. post = c # post' \<and> key_of (heap s) c = fst d")
    case True
    then obtain c post' where c: "post = c # post'" "key_of (heap s) c = fst d" by blast
    then have cd: "c \<in> set ns" "c \<in> dom (heap s)" "\<not> he (heap s) c" "hdat (heap s) c \<noteq> None" using p(1) dm by auto
    then obtain n where n: "heap s c = Some n" "\<not> n_end n" by (auto simp: he_def)
    have "sl_insert_node a s rng = Some ((c, False), s\<lparr>toUpdate := tu\<rparr>, rng)"
      using p(4,6) c cd gd n by (auto simp: sl_insert_node_def get_data_eq key_of_def)
    then show ?thesis using cd(1) c(2) by blast
  next
    case False
    have gt: "fst d < key_of (heap s) x" if "x \<in> set post" for x
    proof (cases post)
      case (Cons c post')
      have "key_of (heap s) c < key_of (heap s) x" if "x \<in> set post'"
        using ok that p(1) Cons by (auto simp: sl_ok_def sorted_wrt_append)
      moreover have "fst d < key_of (heap s) c" using p(3) [of c] False Cons by (auto simp: order.order_iff_strict)
      ultimately show ?thesis using that Cons by auto
    qed (use that in simp)
    obtain l rng' where l: "randomL rng = (l, rng')" by (cases "randomL rng") auto
    then have "l \<le> maxL" using randomL_le [of rng] by (simp add: maxL_def)
    have ok': "sl_ok s (pre @ post) lev" using ok p(1) by simp
    obtain tu' where tu': "raise_level l (s\<lparr>toUpdate := tu\<rparr>) = s\<lparr>toUpdate := tu', curL := max l (curL s)\<rparr>"
      "\<And>j. j \<le> l \<Longrightarrow> tu' j = last_at (sl_root s) lev pre j"
      using raise_level_eq [OF ok' p(5)] by blast
    define s2 where "s2 = s\<lparr>toUpdate := tu', curL := max l (curL s)\<rparr>"
    obtain s3 s4 s5 where s5: "set_before a (toUpdate s2 0) s2 = Some s3"
      "get_next (heap s3) (toUpdate s3 0) 0 = Some (hd (post @ [?e]))"
      "set_before (hd (post @ [?e])) a s3 = Some s4" "link_loop (l + 1) 0 a s4 = Some s5"
      "sl_ok s5 (pre @ a # post) (lev(a := l))" "hdat (heap s5) = hdat (heap s)"
      using link_node_ok [OF ok' \<open>l \<le> maxL\<close> a(1,2) _ a(4,5) p(2) gt tu'(2) s2_def] a(3) p(1) by auto
    define b where "b = hd (post @ [?e])"
    have b: "b \<in> set (?e # ns)" using p(1) by (cases post) (auto simp: b_def)
    then have b0: "b \<noteq> 0" "b \<in> dom (heap s)" using dm(2) subsetD [OF dm(1)] by metis+
    then obtain n where n: "heap s b = Some n" by auto
    have found: "(if n_end n then Some False else map_option (\<lambda>d'. fst d' = fst d) (get_data (heap s) b)) = Some False"
    proof (cases post)
      case Nil
      then show ?thesis using dm(3) n by (simp add: b_def he_def)
    next
      case (Cons c post')
      then have "c \<in> set ns" "b = c" "key_of (heap s) c \<noteq> fst d" using p(1) False by (auto simp: b_def)
      then show ?thesis using dm(4) n by (auto simp: get_data_def he_def hdat_def key_of_def)
    qed
    have "sl_insert_node a s rng = Some ((a, True), s5, rng')"
      using gd p(4,6) n found l b0 s5(1-4) tu'(1)
      by (cases "n_end n") (auto simp: sl_insert_node_def Let_def b_def [symmetric] s2_def [symmetric] simp del: link_loop.simps)
    then show ?thesis using p(1,2) gt s5(5,6) by blast
  qed
qed

subsection \<open>The entries\<close>

lemma emplace_between:
  assumes "\<And>x. x \<in> set pre \<Longrightarrow> fst x < k" "\<And>x. x \<in> set post \<Longrightarrow> k < fst x"
  shows "emplace k v (pre @ post) = pre @ (k, v) # post"
  using assms
proof (induction pre)
  case Nil
  show ?case
  proof (cases post)
    case (Cons y ys)
    then show ?thesis using Nil(2) [of y] by (cases y) auto
  qed simp
next
  case (Cons x pre)
  have "emplace k v (pre @ post) = pre @ (k, v) # post" using Cons.prems by (intro Cons.IH) auto
  then show ?case using Cons.prems(1) [of x] by (cases x) auto
qed

lemma emplace_again:
  assumes "sorted_wrt (<) (map fst m)" "k \<in> fst ` set m"
  shows "emplace k v m = m"
  using assms by (induction k v m rule: emplace.induct) auto

lemma erase_between:
  assumes "\<And>x. x \<in> set pre \<Longrightarrow> fst x < k" "\<And>x. x \<in> set post \<Longrightarrow> k < fst x"
  shows "erase k (pre @ (k, v) # post) = pre @ post"
proof -
  have "filter (\<lambda>(k', v). k' \<noteq> k) pre = pre" "filter (\<lambda>(k', v). k' \<noteq> k) post = post"
    unfolding filter_id_conv using assms by force+
  then show ?thesis by (simp add: erase_def)
qed

lemma entries_keys: "map fst (sl_entries s ns) = map (key_of (heap s)) ns"
  by (simp add: sl_entries_def key_of_def)

lemma entries_append: "sl_entries s (xs @ ys) = sl_entries s xs @ sl_entries s ys"
  by (simp add: sl_entries_def)

lemma in_entries: "x \<in> set (sl_entries s ns) \<Longrightarrow> \<exists>a\<in>set ns. fst x = key_of (heap s) a"
  by (auto simp: sl_entries_def key_of_def)

lemma map_of_absent: "(\<And>x. x \<in> set m \<Longrightarrow> fst x \<noteq> k) \<Longrightarrow> map_of m k = None"
  by (auto simp: map_of_eq_None_iff)

lemma sl_emplace_rep:
  assumes rep: "sl_rep s m" and fresh: "fst new \<notin> dom (heap s)" "fst new \<noteq> 0"
  shows "\<exists>n s' rng'. sl_emplace new k v s rng = Some ((n, map_of m k = None), s', rng') \<and> sl_rep s' (emplace k v m) \<and>
    get_data (heap s') n = map_option (Pair k) (map_of (emplace k v m) k)"
proof -
  obtain ns lev where ok: "sl_ok s ns lev" and m: "m = sl_entries s ns" using rep by (auto simp: sl_rep_def)
  obtain a s1 where s1: "alloc_data new (k, v) s = Some (a, s1)" "sl_ok s1 ns lev" "sl_entries s1 ns = m"
    and a: "a \<in> dom (heap s1)" "a \<noteq> 0" "a \<notin> set (sl_root s1 # sl_endnode s1 # ns @ pool s1)"
    "\<not> he (heap s1) a" "hdat (heap s1) a = Some (k, v)"
    using alloc_data_ok [OF ok fresh, of "(k, v)"] m by metis
  have srt: "sorted_wrt (<) (map fst m)" using s1(2,3) entries_keys [of s1 ns] by (simp add: sl_ok_def)
  have dist: "distinct (map fst m)" using srt by (simp add: strict_sorted_iff)
  consider (found) n tu where "n \<in> set ns" "key_of (heap s1) n = k"
      "sl_insert_node a s1 rng = Some ((n, False), s1\<lparr>toUpdate := tu\<rparr>, rng)"
    | (ins) pre post l s' rng' where "ns = pre @ post"
      "\<forall>x\<in>set pre. key_of (heap s1) x < k" "\<forall>x\<in>set post. k < key_of (heap s1) x"
      "sl_insert_node a s1 rng = Some ((a, True), s', rng')" "sl_ok s' (pre @ a # post) (lev(a := l))" "hdat (heap s') = hdat (heap s1)"
    using insert_node_ok [OF s1(2) a, of rng] by auto
  then show ?thesis
  proof cases
    case found
    obtain s2 where s2: "alloc_push a (s1\<lparr>toUpdate := tu\<rparr>) = Some s2" "sl_ok s2 ns lev"
      "sl_entries s2 ns = m" "\<And>x. x \<noteq> a \<Longrightarrow> heap s2 x = heap s1 x"
      using alloc_push_ok [of "s1\<lparr>toUpdate := tu\<rparr>" ns lev a] s1(2,3) a by auto
    have na: "n \<noteq> a" using found(1) a(3) by auto
    obtain w where w: "hdat (heap s1) n = Some (k, w)" "\<not> he (heap s1) n" "n \<in> dom (heap s1)"
      using s1(2) found(1,2) unfolding sl_ok_def sl_chain_def key_of_def by fastforce
    then have "(k, w) \<in> set m" using found(1) s1(3) by (force simp: sl_entries_def)
    then have mk: "map_of m k = Some w" using dist by simp
    then have em: "emplace k v m = m" using emplace_again [OF srt] map_of_SomeD [OF mk] by force
    have "get_data (heap s2) n = Some (k, w)" using w s2(4) [OF na] by (simp add: get_data_def he_def hdat_def split: option.splits) auto
    moreover have "sl_emplace new k v s rng = Some ((n, False), s2, rng)" using s1(1) found(3) s2(1) by (simp add: sl_emplace_def)
    ultimately show ?thesis using mk em s2(2,3) unfolding sl_rep_def by auto
  next
    case ins
    have e: "sl_entries s' xs = sl_entries s1 xs" for xs using ins(6) by (simp add: sl_entries_def)
    have lt: "fst x < k" if "x \<in> set (sl_entries s1 pre)" for x using in_entries [OF that] ins(2) by auto
    have gt: "k < fst x" if "x \<in> set (sl_entries s1 post)" for x using in_entries [OF that] ins(3) by auto
    have mm: "m = sl_entries s1 pre @ sl_entries s1 post" using s1(3) ins(1) by (simp add: entries_append)
    have em: "emplace k v m = sl_entries s1 pre @ (k, v) # sl_entries s1 post" unfolding mm by (rule emplace_between) (use lt gt in auto)
    have "map_of m k = None" unfolding mm by (rule map_of_absent) (use lt gt in fastforce)
    moreover have "map_of (sl_entries s1 pre) k = None" by (rule map_of_absent) (use lt in fastforce)
    then have "map_of (emplace k v m) k = Some v" unfolding em by (simp add: map_add_Some_iff)
    moreover have "sl_entries s' (pre @ a # post) = emplace k v m" unfolding em e using a(5) by (simp add: sl_entries_def)
    moreover have "a \<in> dom (heap s')" "\<not> he (heap s') a" using ins(5) unfolding sl_ok_def sl_chain_def by auto
    then have "get_data (heap s') a = Some (k, v)" using ins(6) a(5) by (simp add: get_data_eq)
    moreover have "sl_emplace new k v s rng = Some ((a, True), s', rng')" using s1(1) ins(4) by (simp add: sl_emplace_def)
    moreover have "sl_rep s' (emplace k v m)" using ins(5) calculation(3) unfolding sl_rep_def by metis
    ultimately show ?thesis by auto
  qed
qed

section \<open>erase\<close>

lemma lower_curL_id:
  "sl_root s \<in> dom (heap s) \<Longrightarrow> hn (heap s) l (sl_root s) \<noteq> 0 \<Longrightarrow> lower_curL l s = Some l"
  by (cases l) (simp_all add: get_next_eq)

text \<open>The part of \<open>erase\<close> after the search, when the node was found.\<close>

lemma unlink_node_ok:
  assumes ok: "sl_ok s (pre @ cur # post) lev" and tu: "\<And>j. j \<le> curL s \<Longrightarrow> tu j = last_at (sl_root s) lev pre j"
    and s1: "s1 = s\<lparr>toUpdate := tu\<rparr>"
  shows "\<exists>s2 s3. get_next (heap s1) cur 0 = Some (hd (post @ [sl_endnode s])) \<and>
    set_before (hd (post @ [sl_endnode s])) (toUpdate s1 0) s1 = Some s2 \<and> unlink_loop (curL s2 + 1) 0 cur s2 = Some s3 \<and>
    lower_curL (curL s3) s3 = Some (curL s3) \<and> get_next (heap s3) cur 0 = Some (hd (post @ [sl_endnode s])) \<and>
    sl_ok s3 (pre @ post) lev \<and> hdat (heap s3) = hdat (heap s) \<and> cur \<in> dom (heap s3) \<and>
    sl_root s3 = sl_root s \<and> sl_endnode s3 = sl_endnode s \<and> pool s3 = pool s"
proof -
  let ?r = "sl_root s" and ?e = "sl_endnode s" and ?h = "heap s" and ?b = "hd (post @ [sl_endnode s])"
  have c: "sl_chain ?h ?r ?e (pre @ cur # post) lev" and cm: "curL s \<le> maxL" and lc: "lev cur \<le> curL s"
    using ok by (auto simp: sl_ok_def)
  have dm: "set (?r # ?e # pre @ cur # post) \<subseteq> dom ?h" using c unfolding sl_chain_def by blast
  have dist: "distinct (?r # pre @ cur # post @ [?e])" using c by (auto simp: sl_chain_def)
  have bd: "?b \<in> set (?e # post)" by (cases post) auto
  have nb: "hn ?h 0 cur = ?b"
    using chain_next [of ?h ?r ?e "pre @ [cur]" post lev 0] c by (simp add: last_at_0)
  have u0: "tu 0 = last (?r # pre)" using tu [of 0] by (simp add: last_at_0)
  have hp: "heap s1 = ?h" by (simp add: s1)
  have "?b \<in> dom ?h" using bd dm by auto
  then obtain h2 where h2: "set_before ?b (toUpdate s1 0) s1 = Some (s1\<lparr>heap := h2\<rparr>)" "dom h2 = dom ?h"
    "hb h2 = (hb ?h)(?b := toUpdate s1 0)" "hn h2 = hn ?h" "he h2 = he ?h" "hdat h2 = hdat ?h"
    using set_before_fields [of ?b s1 "toUpdate s1 0"] unfolding hp by blast
  define s2 where "s2 = s1\<lparr>heap := h2\<rparr>"
  have f2: "heap s2 = h2" "toUpdate s2 = tu" "curL s2 = curL s" by (simp_all add: s2_def s1)
  have nx: "hn ?h j (last_at ?r lev pre j) = hd (from_level lev j (cur # post) @ [?e])" if "j \<le> curL s" for j
    using chain_next [OF c] that cm by simp
  have "\<exists>h. unlink_loop (curL s + 1) 0 cur s2 = Some (s2\<lparr>heap := h\<rparr>) \<and> dom h = dom (heap s2) \<and>
    hb h = hb (heap s2) \<and> he h = he (heap s2) \<and> hdat h = hdat (heap s2) \<and>
    (\<forall>j x. hn h j x = (if 0 \<le> j \<and> j < lev cur + 1 \<and> x = toUpdate s2 j then hn (heap s2) j cur else hn (heap s2) j x))"
  proof (rule unlink_loop_fields)
    show "cur \<in> dom (heap s2)" using dm by (simp add: f2 h2(2))
    show "toUpdate s2 j \<in> dom (heap s2) \<and> toUpdate s2 j \<noteq> cur" if "0 \<le> j" "j < 0 + (curL s + 1)" for j
      using tu [of j] that last_at_in [of ?r lev pre j] dm dist by (auto simp: f2 h2(2))
    show "hn (heap s2) j (toUpdate s2 j) = cur" if "0 \<le> j" "j < lev cur + 1" for j
      using tu [of j] nx [of j] that lc by (simp add: f2 h2(4) from_level_def)
    show "hn (heap s2) (lev cur + 1) (toUpdate s2 (lev cur + 1)) \<noteq> cur" if "lev cur + 1 < 0 + (curL s + 1)"
    proof -
      have "hd (from_level lev (lev cur + 1) post @ [?e]) \<in> set (from_level lev (lev cur + 1) post @ [?e])" by (rule hd_in_set) simp
      then have "hd (from_level lev (lev cur + 1) post @ [?e]) \<in> set (post @ [?e])" using from_level_subset [of lev "lev cur + 1" post] by auto
      then have "hd (from_level lev (lev cur + 1) post @ [?e]) \<noteq> cur" using dist by auto
      then show ?thesis using tu [of "lev cur + 1"] nx [of "lev cur + 1"] that by (simp add: f2 h2(4) from_level_def)
    qed
  qed (use lc in auto)
  then obtain h3 where h3: "unlink_loop (curL s2 + 1) 0 cur s2 = Some (s2\<lparr>heap := h3\<rparr>)" "dom h3 = dom h2"
    "hb h3 = hb h2" "he h3 = he h2" "hdat h3 = hdat h2"
    "\<And>j x. hn h3 j x = (if j < lev cur + 1 \<and> x = tu j then hn h2 j cur else hn h2 j x)"
    unfolding f2 by auto
  let ?s3 = "s2\<lparr>heap := h3\<rparr>"
  have f3: "heap ?s3 = h3" "sl_root ?s3 = ?r" "sl_endnode ?s3 = ?e" "pool ?s3 = pool s" "curL ?s3 = curL s"
    by (simp_all add: s2_def s1)
  have dat: "hdat h3 = hdat ?h" using h3(5) h2(6) by simp
  have ch: "sl_chain h3 ?r ?e (pre @ post) lev"
  proof (rule chain_erase [OF c])
    show "hb h3 = (hb ?h)(?b := last (?r # pre))" using h3(3) h2(3) u0 by (simp add: s1)
    show "hn h3 j x = (if j \<le> lev cur \<and> x = last_at ?r lev pre j then hn ?h j cur else hn ?h j x)" for j x
      using tu [of j] lc unfolding h3(6) h2(4) by auto
  qed (use h3 h2 in auto)
  have "key_of h3 = key_of ?h" by (simp add: key_of_def fun_eq_iff dat)
  then have ok3: "sl_ok ?s3 (pre @ post) lev"
    using ok ch h3(2) h2(2) unfolding sl_ok_def f3 by (auto simp: sorted_wrt_append)
  have "hn h3 (curL s) ?r = hd (from_level lev (curL s) (pre @ post) @ [?e])"
    using chain_next [of h3 ?r ?e "[]" "pre @ post" lev "curL s"] ch cm by (simp add: last_at_def from_level_def)
  moreover have "hd (from_level lev (curL s) (pre @ post) @ [?e]) \<in> set (from_level lev (curL s) (pre @ post) @ [?e])" by (rule hd_in_set) simp
  then have "hd (from_level lev (curL s) (pre @ post) @ [?e]) \<in> set (?e # pre @ post)" using from_level_subset [of lev "curL s" "pre @ post"] by auto
  moreover have "0 \<notin> set (?e # pre @ post)" using c by (auto simp: sl_chain_def)
  ultimately have "hn h3 (curL s) ?r \<noteq> 0" by metis
  moreover have "?r \<in> dom h3" "cur \<in> dom h3" using dm h3(2) h2(2) by auto
  ultimately have low: "lower_curL (curL ?s3) ?s3 = Some (curL ?s3)"
    using lower_curL_id [of ?s3 "curL s"] by (simp add: f3)
  have "cur \<noteq> tu 0" using u0 dist last_in_set [of "?r # pre"] by auto
  then have "get_next h3 cur 0 = Some ?b" using nb \<open>cur \<in> dom h3\<close> by (simp add: get_next_eq h3(6) h2(4))
  moreover have "get_next (heap s1) cur 0 = Some ?b" using nb dm by (simp add: hp get_next_eq)
  ultimately show ?thesis
    using h2(1) h3(1) low ok3 dat \<open>cur \<in> dom h3\<close> f3 unfolding s2_def [symmetric]
    by (intro exI [of _ ?s3] exI [of "\<lambda>x. \<exists>y. P x y" s2 for P]) (simp del: unlink_loop.simps)
qed

lemma erase_at_ok:
  assumes ok: "sl_ok s ns lev" and lt: "lt = Some \<circ> key_lt k"
    and hit: "\<And>n. n \<in> set ns \<Longrightarrow> hit n (the (hdat (heap s) n)) \<longleftrightarrow> key_of (heap s) n = k"
  shows "(\<exists>pre post tu. ns = pre @ post \<and> (\<forall>x\<in>set pre. key_of (heap s) x < k) \<and> (\<forall>x\<in>set post. k < key_of (heap s) x) \<and>
      sl_erase_at lt hit s = Some ((hd (post @ [sl_endnode s]), False), s\<lparr>toUpdate := tu\<rparr>)) \<or>
    (\<exists>pre cur post s'. ns = pre @ cur # post \<and> key_of (heap s) cur = k \<and>
      sl_erase_at lt hit s = Some ((hd (post @ [sl_endnode s]), True), s') \<and> sl_ok s' (pre @ post) lev \<and>
      (\<forall>x\<in>set (sl_root s # sl_endnode s # pre @ post). hdat (heap s') x = hdat (heap s) x) \<and>
      sl_root s' = sl_root s \<and> sl_endnode s' = sl_endnode s)"
proof -
  let ?e = "sl_endnode s"
  obtain pre post tu where p: "ns = pre @ post"
    "\<And>x. x \<in> set pre \<Longrightarrow> key_of (heap s) x < k" "\<And>x. x \<in> set post \<Longrightarrow> k \<le> key_of (heap s) x"
    "descend (Some \<circ> key_lt k) (heap s) (curL s) (sl_root s) (toUpdate s) = Some (last (sl_root s # pre), tu)"
    "\<And>j. j \<le> curL s \<Longrightarrow> tu j = last_at (sl_root s) lev pre j"
    "get_next (heap s) (last (sl_root s # pre)) 0 = Some (hd (post @ [?e]))"
    using search_key [OF ok, of k] by blast
  define s1 where "s1 = s\<lparr>toUpdate := tu\<rparr>"
  define b where "b = hd (post @ [?e])"
  have c: "sl_chain (heap s) (sl_root s) ?e ns lev" and srt: "sorted_wrt (<) (map (key_of (heap s)) ns)" using ok by (simp_all add: sl_ok_def)
  have nd: "x \<in> dom (heap s)" "\<not> he (heap s) x" "hdat (heap s) x \<noteq> None" if "x \<in> set ns" for x
    using c that by (auto simp: sl_chain_def)
  have ne: "?e \<in> dom (heap s)" "he (heap s) ?e" using c by (auto simp: sl_chain_def)
  show ?thesis
  proof (cases "\<exists>c post'. post = c # post' \<and> key_of (heap s) c = k")
    case True
    then obtain cur post' where cur: "post = cur # post'" "key_of (heap s) cur = k" by blast
    have ok': "sl_ok s (pre @ cur # post') lev" using ok p(1) cur(1) by simp
    obtain s2 s3 where s3: "get_next (heap s1) cur 0 = Some (hd (post' @ [?e]))"
      "set_before (hd (post' @ [?e])) (toUpdate s1 0) s1 = Some s2" "unlink_loop (curL s2 + 1) 0 cur s2 = Some s3"
      "lower_curL (curL s3) s3 = Some (curL s3)" "get_next (heap s3) cur 0 = Some (hd (post' @ [?e]))"
      "sl_ok s3 (pre @ post') lev" "hdat (heap s3) = hdat (heap s)" "cur \<in> dom (heap s3)"
      "sl_root s3 = sl_root s" "sl_endnode s3 = ?e" "pool s3 = pool s"
      using unlink_node_ok [OF ok' p(5) s1_def] by blast
    have out: "cur \<noteq> 0" "cur \<notin> set (sl_root s # ?e # (pre @ post') @ pool s)"
      using ok' unfolding sl_ok_def sl_chain_def by auto
    obtain s4 where s4: "alloc_push cur s3 = Some s4" "sl_ok s4 (pre @ post') lev"
      "sl_root s4 = sl_root s" "sl_endnode s4 = ?e" "\<And>x. x \<noteq> cur \<Longrightarrow> heap s4 x = heap s3 x"
      using alloc_push_ok [OF s3(6,8)] out s3(9-11) by auto
    have cn: "cur \<in> set ns" using p(1) cur(1) by simp
    obtain n where n: "heap s cur = Some n" "\<not> n_end n" using nd(1,2) [OF cn] by (auto simp: he_def)
    have gd: "get_data (heap s) cur = Some (the (hdat (heap s) cur))" using nd [OF cn] by (auto simp: get_data_eq)
    have "s3\<lparr>curL := curL s3\<rparr> = s3" by (cases s3) simp
    then have "sl_erase_at lt hit s = Some ((hd (post' @ [?e]), True), s4)"
      using p(4,6) cur n gd hit [OF cn] s3(1-5) s4(1)
      by (simp add: sl_erase_at_def lt Let_def s1_def del: unlink_loop.simps)
    moreover have "hdat (heap s4) x = hdat (heap s) x" if "x \<in> set (sl_root s # ?e # pre @ post')" for x
    proof -
      have "x \<noteq> cur" using that out(2) by auto
      then have "hdat (heap s4) x = hdat (heap s3) x" using s4(5) by (simp add: hdat_def)
      then show ?thesis using s3(7) by simp
    qed
    ultimately show ?thesis using p(1) cur s4(2-4) by blast
  next
    case False
    have gt: "k < key_of (heap s) x" if "x \<in> set post" for x
    proof (cases post)
      case (Cons c post')
      have "key_of (heap s) c < key_of (heap s) x" if "x \<in> set post'"
        using srt that p(1) Cons by (auto simp: sorted_wrt_append)
      moreover have "k < key_of (heap s) c" using p(3) [of c] False Cons by (auto simp: order.order_iff_strict)
      ultimately show ?thesis using that Cons by auto
    qed (use that in simp)
    have "sl_erase_at lt hit s = Some ((b, False), s1)"
    proof (cases post)
      case Nil
      then show ?thesis using p(4,6) ne by (auto simp: sl_erase_at_def lt Let_def b_def s1_def he_def)
    next
      case (Cons c post')
      have cn: "c \<in> set ns" using p(1) Cons by simp
      obtain n where n: "heap s c = Some n" "\<not> n_end n" using nd(1,2) [OF cn] by (auto simp: he_def)
      have gd: "get_data (heap s) c = Some (the (hdat (heap s) c))" using nd [OF cn] by (auto simp: get_data_eq)
      show ?thesis using p(4,6) Cons n gd hit [OF cn] False
        by (simp add: sl_erase_at_def lt Let_def b_def s1_def)
    qed
    then show ?thesis using p(1,2) gt unfolding s1_def b_def by blast
  qed
qed

lemma sl_rep_erased:
  assumes ok: "sl_ok s (pre @ cur # post) lev" and k: "key_of (heap s) cur = k"
    and ok': "sl_ok s' (pre @ post) lev'" and d: "\<forall>x\<in>set (pre @ post). hdat (heap s') x = hdat (heap s) x"
  shows "sl_rep s' (erase k (sl_entries s (pre @ cur # post)))"
proof -
  have srt: "sorted_wrt (<) (map (key_of (heap s)) (pre @ cur # post))" using ok by (simp add: sl_ok_def)
  have lt: "fst x < k" if "x \<in> set (sl_entries s pre)" for x
    using in_entries [OF that] srt k by (auto simp: sorted_wrt_append)
  have gt: "k < fst x" if "x \<in> set (sl_entries s post)" for x
    using in_entries [OF that] srt k by (auto simp: sorted_wrt_append)
  obtain v where "the (hdat (heap s) cur) = (k, v)" using k by (cases "the (hdat (heap s) cur)") (auto simp: key_of_def)
  then have "sl_entries s (pre @ cur # post) = sl_entries s pre @ (k, v) # sl_entries s post" by (simp add: sl_entries_def)
  then have "erase k (sl_entries s (pre @ cur # post)) = sl_entries s (pre @ post)"
    using erase_between [of "sl_entries s pre" k "sl_entries s post" v] lt gt by (simp add: entries_append)
  also have "\<dots> = sl_entries s' (pre @ post)" using d by (auto simp: sl_entries_def)
  finally show ?thesis using ok' unfolding sl_rep_def by auto
qed

lemma erase_absent: "k \<notin> fst ` set m \<Longrightarrow> erase k m = m"
  unfolding erase_def by (rule filter_True) force

lemma next_entry_mid:
  assumes "\<And>x. x \<in> set pre \<Longrightarrow> fst x \<le> k" "\<And>x. x \<in> set post \<Longrightarrow> k < fst x"
  shows "next_entry k (pre @ post) = (case post of [] \<Rightarrow> None | x # xs \<Rightarrow> Some (snd x))"
proof -
  have "filter (\<lambda>(k', v). k < k') pre = []" "filter (\<lambda>(k', v). k < k') post = post"
    unfolding filter_empty_conv filter_id_conv using assms by force+
  then show ?thesis by (simp add: next_entry_def)
qed

lemma iter_value_hd:
  assumes "sl_ok s (pre @ post) lev"
  shows "iter_value s (hd (post @ [sl_endnode s])) = (case sl_entries s post of [] \<Rightarrow> None | x # xs \<Rightarrow> Some (snd x))"
proof -
  have "sl_chain (heap s) (sl_root s) (sl_endnode s) (pre @ post) lev" using assms by (simp add: sl_ok_def)
  then show ?thesis
    by (cases post) (auto simp: sl_chain_def iter_value_def get_data_eq sl_entries_def)
qed

lemma end_or_eq:
  assumes "sl_ok s ns lev" "a \<in> set (sl_endnode s # ns)"
  shows "end_or s a = Some a"
proof -
  have "sl_chain (heap s) (sl_root s) (sl_endnode s) ns lev" using assms(1) by (simp add: sl_ok_def)
  then have "a \<in> dom (heap s)" "he (heap s) a \<longrightarrow> a = sl_endnode s" using assms(2) by (auto simp: sl_chain_def)
  then show ?thesis by (auto simp: end_or_def he_def)
qed

lemma next_entry_split:
  assumes "sl_ok s (pre @ post) lev" "\<forall>x\<in>set pre. key_of (heap s) x \<le> k" "\<forall>x\<in>set post. k < key_of (heap s) x"
  shows "iter_value s (hd (post @ [sl_endnode s])) = next_entry k (sl_entries s (pre @ post))"
proof -
  have "fst x \<le> k" if "x \<in> set (sl_entries s pre)" for x using in_entries [OF that] assms(2) by auto
  moreover have "k < fst x" if "x \<in> set (sl_entries s post)" for x using in_entries [OF that] assms(3) by auto
  ultimately show ?thesis using iter_value_hd [OF assms(1)] next_entry_mid [of "sl_entries s pre" k "sl_entries s post"]
    by (simp add: entries_append)
qed

text \<open>Both forms of \<open>erase\<close>, by key and by iterator.\<close>

lemma erase_at_rep:
  assumes ok: "sl_ok s ns lev" and lt: "lt = Some \<circ> key_lt k"
    and hit: "\<And>n. n \<in> set ns \<Longrightarrow> hit n (the (hdat (heap s) n)) \<longleftrightarrow> key_of (heap s) n = k"
  shows "\<exists>b ret s'. sl_erase_at lt hit s = Some ((b, ret), s') \<and> end_or s' b = Some b \<and>
    sl_rep s' (erase k (sl_entries s ns)) \<and> iter_value s' b = next_entry k (sl_entries s ns)"
proof -
  let ?m = "sl_entries s ns"
  consider (absent) pre post tu where "ns = pre @ post" "\<forall>x\<in>set pre. key_of (heap s) x < k" "\<forall>x\<in>set post. k < key_of (heap s) x"
      "sl_erase_at lt hit s = Some ((hd (post @ [sl_endnode s]), False), s\<lparr>toUpdate := tu\<rparr>)"
    | (found) pre cur post s' where "ns = pre @ cur # post" "key_of (heap s) cur = k"
      "sl_erase_at lt hit s = Some ((hd (post @ [sl_endnode s]), True), s')" "sl_ok s' (pre @ post) lev"
      "\<forall>x\<in>set (sl_root s # sl_endnode s # pre @ post). hdat (heap s') x = hdat (heap s) x"
      "sl_root s' = sl_root s" "sl_endnode s' = sl_endnode s"
    using erase_at_ok [where s = s and ns = ns and lev = lev and lt = lt and k = k and hit = hit, OF ok lt hit] by blast
  then show ?thesis
  proof cases
    case absent
    let ?b = "hd (post @ [sl_endnode s])" and ?s = "s\<lparr>toUpdate := tu\<rparr>"
    have "fst ` set ?m = key_of (heap s) ` set ns" by (auto simp: sl_entries_def key_of_def image_iff)
    moreover have "k \<notin> key_of (heap s) ` set ns" using absent(1-3) by auto
    ultimately have "erase k ?m = ?m" using erase_absent [of k ?m] by simp
    moreover have "?b \<in> set (sl_endnode s # ns)" using absent(1) by (cases post) auto
    then have "end_or ?s ?b = Some ?b" by (intro end_or_eq [of _ ns lev]) (use ok in simp_all)
    moreover have "sl_rep ?s ?m" using ok by (auto simp: sl_rep_def)
    moreover have "iter_value s ?b = next_entry k ?m" unfolding absent(1)
      by (rule next_entry_split) (use ok absent(1-3) in \<open>auto simp: less_imp_le\<close>)
    ultimately show ?thesis using absent(4) by (auto simp: iter_value_def)
  next
    case found
    let ?b = "hd (post @ [sl_endnode s])"
    have "?b \<in> set (sl_endnode s' # pre @ post)" by (cases post) (auto simp: found(7))
    then have "end_or s' ?b = Some ?b" by (rule end_or_eq [OF found(4)])
    moreover have "sl_rep s' (erase k ?m)" unfolding found(1)
      by (rule sl_rep_erased [OF _ found(2) found(4)]) (use ok found(1,5) in auto)
    moreover have "iter_value s' ?b = next_entry k ?m"
    proof -
      have srt: "sorted_wrt (<) (map (key_of (heap s)) (pre @ cur # post))" using ok found(1) by (simp add: sl_ok_def)
      have "iter_value s ?b = next_entry k (sl_entries s ((pre @ [cur]) @ post))"
        by (rule next_entry_split) (use ok found(1,2) srt in \<open>auto simp: sorted_wrt_append\<close>)
      moreover have "sl_entries s' post = sl_entries s post" using found(5) by (auto simp: sl_entries_def)
      then have "iter_value s' ?b = iter_value s ?b"
        using iter_value_hd [OF found(4)] iter_value_hd [of s "pre @ [cur]" post lev] ok found(1,7) by simp
      ultimately show ?thesis using found(1) by simp
    qed
    ultimately show ?thesis using found(3) by blast
  qed
qed

lemma sl_erase_rep:
  assumes rep: "sl_rep s m"
  shows "\<exists>it s'. sl_erase k s = Some (it, s') \<and> sl_rep s' (erase k m) \<and> iter_value s' it = next_entry k m"
proof -
  obtain ns lev where ok: "sl_ok s ns lev" and m: "m = sl_entries s ns" using rep by (auto simp: sl_rep_def)
  obtain b ret s' where "sl_erase_at (Some \<circ> key_lt k) (\<lambda>cur d. fst d = k) s = Some ((b, ret), s')" "end_or s' b = Some b"
    "sl_rep s' (erase k m)" "iter_value s' b = next_entry k m"
    using erase_at_rep [where hit = "\<lambda>cur d. fst d = k", OF ok refl, of k] unfolding m key_of_def by blast
  then show ?thesis by (auto simp: sl_erase_def)
qed

lemma find_node:
  assumes ok: "sl_ok s ns lev"
  shows "(\<exists>n\<in>set ns. key_of (heap s) n = k \<and> sl_find k s = Some n) \<or> (k \<notin> key_of (heap s) ` set ns \<and> sl_find k s = Some (sl_endnode s))"
proof -
  let ?e = "sl_endnode s"
  obtain pre post tu where p: "ns = pre @ post"
    "\<And>x. x \<in> set pre \<Longrightarrow> key_of (heap s) x < k" "\<And>x. x \<in> set post \<Longrightarrow> k \<le> key_of (heap s) x"
    "descend (Some \<circ> key_lt k) (heap s) (curL s) (sl_root s) (toUpdate s) = Some (last (sl_root s # pre), tu)"
    "get_next (heap s) (last (sl_root s # pre)) 0 = Some (hd (post @ [?e]))"
    using search_key [OF ok, of k] by blast
  have c: "sl_chain (heap s) (sl_root s) ?e ns lev" and srt: "sorted_wrt (<) (map (key_of (heap s)) ns)" using ok by (simp_all add: sl_ok_def)
  have lb: "lower_bound k s = Some (hd (post @ [?e]))" using p(4,5) by (simp add: lower_bound_def)
  show ?thesis
  proof (cases post)
    case Nil
    then have "sl_find k s = Some ?e" using lb c by (auto simp: sl_find_def sl_chain_def he_def)
    moreover have "k \<notin> key_of (heap s) ` set ns" using p(1,2) Nil by auto
    ultimately show ?thesis by blast
  next
    case (Cons x post')
    have x: "x \<in> set ns" "x \<in> dom (heap s)" "\<not> he (heap s) x" "hdat (heap s) x \<noteq> None" using c p(1) Cons by (auto simp: sl_chain_def)
    have f: "sl_find k s = Some (if key_of (heap s) x \<noteq> k then ?e else x)"
      using lb x Cons by (auto simp: sl_find_def get_data_def he_def hdat_def key_of_def)
    have gt: "key_of (heap s) x < key_of (heap s) y" if "y \<in> set post'" for y
      using srt p(1) Cons that by (auto simp: sorted_wrt_append)
    show ?thesis
    proof (cases "key_of (heap s) x = k")
      case False
      then have "k < key_of (heap s) x" using p(3) [of x] Cons by simp
      then have "k \<notin> key_of (heap s) ` set ns" using p(1,2) Cons gt by (auto dest: less_trans)
      then show ?thesis using f False by simp
    qed (use f x in auto)
  qed
qed

lemma sl_erase_iter_rep:
  assumes rep: "sl_rep s m" and it: "sl_find k s = Some it" "map_of m k \<noteq> None"
  shows "\<exists>it' s'. sl_erase_iter it s = Some (it', s') \<and> sl_rep s' (erase k m) \<and> iter_value s' it' = next_entry k m"
proof -
  obtain ns lev where ok: "sl_ok s ns lev" and m: "m = sl_entries s ns" using rep by (auto simp: sl_rep_def)
  have c: "sl_chain (heap s) (sl_root s) (sl_endnode s) ns lev" and srt: "sorted_wrt (<) (map (key_of (heap s)) ns)" using ok by (simp_all add: sl_ok_def)
  have "k \<in> key_of (heap s) ` set ns" using it(2) entries_keys [of s ns] unfolding m map_of_eq_None_iff
    by (metis image_set)
  then have n: "it \<in> set ns" "key_of (heap s) it = k" using find_node [OF ok, of k] it(1) by auto
  have "it \<in> dom (heap s)" "\<not> he (heap s) it" "hdat (heap s) it \<noteq> None" using c n(1) by (auto simp: sl_chain_def)
  then have gd: "get_data (heap s) it = Some (the (hdat (heap s) it))" by (auto simp: get_data_eq)
  have inj: "n = it \<longleftrightarrow> key_of (heap s) n = k" if "n \<in> set ns" for n
  proof -
    have "distinct (map (key_of (heap s)) ns)" using srt by (simp add: strict_sorted_iff)
    then show ?thesis using that n by (auto simp: distinct_map dest: inj_onD)
  qed
  have "(\<lambda>d. map_option (\<lambda>e. key_lt (fst e) d) (get_data (heap s) it)) = Some \<circ> key_lt k"
    using gd n(2) by (simp add: fun_eq_iff key_of_def)
  then obtain b ret s' where "sl_erase_at (\<lambda>d. map_option (\<lambda>e. key_lt (fst e) d) (get_data (heap s) it)) (\<lambda>cur d. cur = it) s = Some ((b, ret), s')"
    "end_or s' b = Some b" "sl_rep s' (erase k m)" "iter_value s' b = next_entry k m"
    using erase_at_rep [where hit = "\<lambda>cur d. cur = it", OF ok _ inj] unfolding m by blast
  then show ?thesis by (auto simp: sl_erase_iter_def)
qed

section \<open>Looking up\<close>

lemma sl_find_rep:
  assumes rep: "sl_rep s m"
  shows "\<exists>it. sl_find k s = Some it \<and> iter_value s it = map_of m k"
proof -
  obtain ns lev where ok: "sl_ok s ns lev" and m: "m = sl_entries s ns" using rep by (auto simp: sl_rep_def)
  have c: "sl_chain (heap s) (sl_root s) (sl_endnode s) ns lev" and srt: "sorted_wrt (<) (map (key_of (heap s)) ns)" using ok by (simp_all add: sl_ok_def)
  have dist: "distinct (map fst m)" using srt entries_keys [of s ns] m by (simp add: strict_sorted_iff)
  from find_node [OF ok, of k] show ?thesis
  proof (elim disjE bexE conjE)
    fix n assume n: "n \<in> set ns" "key_of (heap s) n = k" "sl_find k s = Some n"
    have nd: "n \<in> dom (heap s)" "\<not> he (heap s) n" "hdat (heap s) n \<noteq> None" using c n(1) by (auto simp: sl_chain_def)
    then obtain v where v: "hdat (heap s) n = Some (k, v)" using n(2) by (auto simp: key_of_def)
    then have "(k, v) \<in> set m" using n(1) by (force simp: m sl_entries_def)
    then have "map_of m k = Some v" using dist by simp
    moreover have "iter_value s n = Some v" using nd v by (simp add: iter_value_def get_data_eq)
    ultimately show ?thesis using n(3) by auto
  next
    assume n: "k \<notin> key_of (heap s) ` set ns" "sl_find k s = Some (sl_endnode s)"
    have "map_of m k = None" using n(1) entries_keys [of s ns] unfolding m map_of_eq_None_iff by (metis image_set)
    moreover have "iter_value s (sl_endnode s) = None" using c by (auto simp: iter_value_def get_data_eq sl_chain_def)
    ultimately show ?thesis using n(2) by auto
  qed
qed

text \<open>The node before the first of \<open>post\<close>, by \<open>before\<close>, and the one after the last of \<open>pre\<close>.\<close>

lemma chain_before:
  assumes "sl_chain h r e (pre @ post) lev"
  shows "hb h (hd (post @ [e])) = last (r # pre)"
proof -
  have l0: "sl_linked (hb h) ((e # rev post) @ rev pre @ [r])" using assms by (simp add: sl_chain_def)
  obtain xs where xs: "e # rev post = xs @ [hd (post @ [e])]" by (cases post) auto
  obtain ys where ys: "rev pre @ [r] = last (r # pre) # ys" by (cases pre rule: rev_cases) auto
  show ?thesis using l0 unfolding xs ys by (simp add: sl_linked_next)
qed

lemma iter_prev_hd:
  assumes ok: "sl_ok s (pre @ post) lev"
  shows "\<exists>b. iter_prev s (hd (post @ [sl_endnode s])) = Some b \<and>
    iter_value s b = (if pre = [] then None else Some (snd (last (sl_entries s pre))))"
proof -
  let ?a = "hd (post @ [sl_endnode s])" and ?b = "last (sl_root s # pre)"
  have c: "sl_chain (heap s) (sl_root s) (sl_endnode s) (pre @ post) lev" using ok by (simp add: sl_ok_def)
  have a: "?a \<in> set (sl_endnode s # post)" by (cases post) auto
  have b: "?b \<in> set (sl_root s # pre)" by (rule last_in_set) simp
  have "?a \<in> dom (heap s)" "?b \<noteq> 0" "?b \<in> dom (heap s)" using a b c unfolding sl_chain_def by auto
  then have "iter_prev s ?a = Some ?b" using chain_before [OF c] by (auto simp: iter_prev_def hb_def)
  moreover have "iter_value s ?b = (if pre = [] then None else Some (snd (last (sl_entries s pre))))"
  proof (cases pre rule: rev_cases)
    case Nil
    then show ?thesis using c by (auto simp: iter_value_def get_data_eq sl_chain_def)
  next
    case (snoc ys y)
    then have "y \<in> dom (heap s)" "\<not> he (heap s) y" "hdat (heap s) y \<noteq> None" using c by (auto simp: sl_chain_def)
    then show ?thesis using snoc by (auto simp: iter_value_def get_data_eq sl_entries_def)
  qed
  ultimately show ?thesis by blast
qed

lemma filter_split:
  assumes "\<And>x. x \<in> set xs \<Longrightarrow> P x" "\<And>x. x \<in> set ys \<Longrightarrow> \<not> P x"
  shows "filter P (xs @ ys) = xs"
proof -
  have "filter P xs = xs" "filter P ys = []" using assms by (auto simp: filter_empty_conv filter_id_conv)
  then show ?thesis by simp
qed

lemma key_le_iff: "key_le k d \<longleftrightarrow> fst d \<le> k"
  by (auto simp: key_le_def)

lemma sl_upper_bound_rep:
  assumes rep: "sl_rep s m"
  shows "\<exists>it b. sl_upper_bound k s = Some it \<and> iter_value s it = upper_bound k m \<and>
    iter_prev s it = Some b \<and> iter_value s b = before_upper k m"
proof -
  obtain ns lev where ok: "sl_ok s ns lev" and m: "m = sl_entries s ns" using rep by (auto simp: sl_rep_def)
  have c: "sl_chain (heap s) (sl_root s) (sl_endnode s) ns lev" and srt: "sorted_wrt (<) (map (key_of (heap s)) ns)" using ok by (simp_all add: sl_ok_def)
  obtain pre post where p: "ns = pre @ post" "\<And>x. x \<in> set pre \<Longrightarrow> key_of (heap s) x \<le> k" "\<And>x. x \<in> set post \<Longrightarrow> k < key_of (heap s) x"
    using split_upto [OF srt, of k] by blast
  have ok': "sl_ok s (pre @ post) lev" using ok p(1) by simp
  let ?r = "sl_root s" and ?e = "sl_endnode s"
  have d: "descend (Some \<circ> key_le k) (heap s) (curL s) ?r (toUpdate s) = Some (last (?r # pre),
      \<lambda>j. if j \<le> curL s then last_at ?r lev pre j else toUpdate s j)"
    by (rule sl_find_down [OF ok']) (use p(2,3) in \<open>simp_all add: key_le_iff key_of_def not_le\<close>)
  have mm: "m = sl_entries s pre @ sl_entries s post" using m p(1) by (simp add: entries_append)
  have fil: "filter (\<lambda>(k', v). k' \<le> k) m = sl_entries s pre" unfolding mm
    by (rule filter_split) (use p(2,3) in \<open>fastforce dest: in_entries\<close>)+
  show ?thesis
  proof (cases pre rule: rev_cases)
    case Nil
    have "sl_upper_bound k s = Some ?e" using d Nil c by (auto simp: sl_upper_bound_def sl_chain_def he_def)
    moreover have "iter_value s ?e = None" using c by (auto simp: iter_value_def get_data_eq sl_chain_def)
    moreover obtain b where "iter_prev s ?e = Some b" "iter_value s b = (if ns = [] then None else Some (snd (last (sl_entries s ns))))"
      using iter_prev_hd [of s ns "[]" lev] ok by auto
    moreover have "before_upper k m = (if ns = [] then None else Some (snd (last (sl_entries s ns))))"
      using fil Nil by (simp add: before_upper_def m sl_entries_def)
    ultimately show ?thesis using fil Nil by (auto simp: upper_bound_def sl_entries_def)
  next
    case (snoc ys y)
    have y: "y \<in> dom (heap s)" "\<not> he (heap s) y" "hdat (heap s) y \<noteq> None" "key_of (heap s) y \<le> k"
      using c p(1,2) snoc by (auto simp: sl_chain_def)
    have nx: "get_next (heap s) y 0 = Some (hd (post @ [?e]))"
      using chain_next [of "heap s" ?r ?e pre post lev 0] c p(1) y(1) snoc by (simp add: get_next_eq last_at_0)
    have a: "hd (post @ [?e]) \<in> set (?e # ns)" using p(1) by (cases post) auto
    then have "end_or s (hd (post @ [?e])) = Some (hd (post @ [?e]))" by (rule end_or_eq [OF ok])
    then have "sl_upper_bound k s = Some (hd (post @ [?e]))"
      using d snoc y nx by (auto simp: sl_upper_bound_def end_or_def get_data_def he_def hdat_def key_le_iff key_of_def)
    moreover have "iter_value s (hd (post @ [?e])) = upper_bound k m"
      using next_entry_split [OF ok', of k] p fil snoc by (simp add: upper_bound_def m sl_entries_def)
    moreover obtain b where "iter_prev s (hd (post @ [?e])) = Some b" "iter_value s b = Some (snd (last (sl_entries s pre)))"
      using iter_prev_hd [OF ok'] snoc by auto
    moreover have "before_upper k m = Some (snd (last (sl_entries s pre)))"
      using fil snoc by (simp add: before_upper_def mm sl_entries_def)
    ultimately show ?thesis by auto
  qed
qed

lemma sl_iter_rep:
  assumes rep: "sl_rep s m" and it: "sl_find k s = Some it" "map_of m k \<noteq> None"
  shows "\<exists>a b. iter_next s it = Some a \<and> iter_value s a = next_entry k m \<and> iter_prev s it = Some b \<and> iter_value s b = prev_entry k m"
proof -
  obtain ns lev where ok: "sl_ok s ns lev" and m: "m = sl_entries s ns" using rep by (auto simp: sl_rep_def)
  have c: "sl_chain (heap s) (sl_root s) (sl_endnode s) ns lev" and srt: "sorted_wrt (<) (map (key_of (heap s)) ns)" using ok by (simp_all add: sl_ok_def)
  have "k \<in> key_of (heap s) ` set ns" using it(2) entries_keys [of s ns] unfolding m map_of_eq_None_iff by (metis image_set)
  then have n: "it \<in> set ns" "key_of (heap s) it = k" using find_node [OF ok, of k] it(1) by auto
  then obtain pre post where p: "ns = pre @ it # post" by (meson split_list)
  have lt: "key_of (heap s) x < k" if "x \<in> set pre" for x using srt n(2) p that by (auto simp: sorted_wrt_append)
  have gt: "k < key_of (heap s) x" if "x \<in> set post" for x using srt n(2) p that by (auto simp: sorted_wrt_append)
  let ?e = "sl_endnode s"
  have a: "hd (post @ [?e]) \<in> set (?e # ns)" using p by (cases post) auto
  moreover have "0 \<notin> set (?e # ns)" using c by (auto simp: sl_chain_def)
  ultimately have a0: "hd (post @ [?e]) \<noteq> 0" by metis
  have "it \<in> dom (heap s)" using c n(1) by (auto simp: sl_chain_def)
  then have "get_next (heap s) it 0 = Some (hd (post @ [?e]))"
    using chain_next [of "heap s" "sl_root s" ?e "pre @ [it]" post lev 0] c p by (simp add: get_next_eq last_at_0)
  then have "iter_next s it = Some (hd (post @ [?e]))" using a0 by (simp add: iter_next_def)
  moreover have "iter_value s (hd (post @ [?e])) = next_entry k (sl_entries s ((pre @ [it]) @ post))"
    by (rule next_entry_split) (use ok p lt gt n(2) in \<open>auto simp: less_imp_le\<close>)
  moreover have "sl_ok s (pre @ it # post) lev" using ok p by simp
  then obtain b where "iter_prev s it = Some b" "iter_value s b = (if pre = [] then None else Some (snd (last (sl_entries s pre))))"
    using iter_prev_hd [of s pre "it # post" lev] by auto
  moreover have "filter (\<lambda>(k', v). k' < k) m = sl_entries s pre"
  proof -
    have "m = sl_entries s pre @ sl_entries s (it # post)" using m p by (simp add: entries_append)
    moreover have "k \<le> key_of (heap s) x" if "x \<in> set (it # post)" for x using that gt n(2) by (auto simp: less_imp_le)
    ultimately show ?thesis using lt by (simp only:) (rule filter_split; fastforce dest: in_entries simp: not_less)
  qed
  then have "prev_entry k m = (if pre = [] then None else Some (snd (last (sl_entries s pre))))"
    by (simp add: prev_entry_def sl_entries_def)
  ultimately show ?thesis using m p by auto
qed

section \<open>The constructor\<close>

lemma init_levels_fields:
  assumes "sl_root s \<in> dom (heap s)"
  shows "\<exists>h. init_levels n s = Some (s\<lparr>heap := h\<rparr>) \<and> dom h = dom (heap s) \<and> hb h = hb (heap s) \<and> he h = he (heap s) \<and> hdat h = hdat (heap s) \<and>
    (\<forall>j x. hn h j x = (if j < n \<and> x = sl_root s then sl_endnode s else hn (heap s) j x))"
proof (induction n)
  case 0
  then show ?case by (intro exI [of _ "heap s"]) (cases s; simp)
next
  case (Suc n)
  then obtain h where h: "init_levels n s = Some (s\<lparr>heap := h\<rparr>)" "dom h = dom (heap s)" "hb h = hb (heap s)" "he h = he (heap s)" "hdat h = hdat (heap s)"
    "\<And>j x. hn h j x = (if j < n \<and> x = sl_root s then sl_endnode s else hn (heap s) j x)" by auto
  define s1 where "s1 = s\<lparr>heap := h\<rparr>"
  have hp: "heap s1 = h" "sl_root s1 = sl_root s" "sl_endnode s1 = sl_endnode s" by (simp_all add: s1_def)
  have "sl_root s \<in> dom (heap s1)" using assms h(2) hp by simp
  then obtain h' where h': "set_next (sl_root s) n (sl_endnode s) s1 = Some (s1\<lparr>heap := h'\<rparr>)" "dom h' = dom h"
    "\<And>j x. hn h' j x = (if j = n \<and> x = sl_root s then sl_endnode s else hn h j x)" "hb h' = hb h" "he h' = he h" "hdat h' = hdat h"
    using set_next_fields [of "sl_root s" s1 n "sl_endnode s"] unfolding hp by blast
  have "init_levels (Suc n) s = Some (s\<lparr>heap := h'\<rparr>)" using h(1) h'(1) by (simp add: s1_def)
  moreover have "hn h' j x = (if j < Suc n \<and> x = sl_root s then sl_endnode s else hn (heap s) j x)" for j x
    unfolding h'(3) h(6) by (auto simp: less_Suc_eq)
  ultimately show ?case using h(2-5) h'(2,4-6) by auto
qed

lemma skiplist_new_rep:
  assumes "fst new1 \<noteq> 0" "fst new2 \<noteq> 0" "fst new1 \<noteq> fst new2"
  shows "\<exists>s. skiplist_new new1 new2 junk = Some s \<and> sl_rep s ([] :: ('k :: linorder, 'v) omap) \<and> dom (heap s) = {fst new1, fst new2}"
proof -
  let ?r = "fst new1" and ?e = "fst new2"
  let ?n = "\<lambda>nw b. \<lparr>n_next = (snd nw)(0 := 0), n_before = b, n_data = None, n_end = True\<rparr> :: ('k, 'v) snode"
  define h0 :: "('k, 'v) nheap" where "h0 = [?r \<mapsto> ?n new1 0, ?e \<mapsto> ?n new2 ?r]"
  define s0 where "s0 = \<lparr>heap = h0, pool = [], sl_root = ?r, sl_endnode = ?e, toUpdate = junk, curL = 0\<rparr>"
  have new: "skiplist_new new1 new2 junk = init_levels (maxL + 1) s0"
    using assms by (simp add: skiplist_new_def alloc_end_def alloc_get_def set_before_def s0_def h0_def del: init_levels.simps)
  have s0: "heap s0 = h0" "sl_root s0 = ?r" "sl_endnode s0 = ?e" by (simp_all add: s0_def)
  have "?r \<in> dom h0" "?e \<in> dom h0" by (simp_all add: h0_def)
  then obtain h where h: "init_levels (maxL + 1) s0 = Some (s0\<lparr>heap := h\<rparr>)" "dom h = dom h0" "hb h = hb h0" "he h = he h0" "hdat h = hdat h0"
    "\<And>j x. hn h j x = (if j < maxL + 1 \<and> x = ?r then ?e else hn h0 j x)"
    using init_levels_fields [of s0 "maxL + 1"] unfolding s0 by auto
  have "he h0 ?r" "he h0 ?e" "hb h0 ?e = ?r" "hb h0 ?r = 0" "hn h0 0 ?e = 0" using assms(3) by (simp_all add: h0_def)
  then have "sl_chain h ?r ?e [] (\<lambda>_. 0)"
    using assms \<open>?r \<in> dom h0\<close> \<open>?e \<in> dom h0\<close> h(2-6) unfolding sl_chain_def by (simp add: from_level_def)
  then have "sl_ok (s0\<lparr>heap := h\<rparr>) [] (\<lambda>_. 0)" by (simp add: sl_ok_def s0_def)
  then have "sl_rep (s0\<lparr>heap := h\<rparr>) []" unfolding sl_rep_def by (auto simp: sl_entries_def)
  moreover have "dom h = {?r, ?e}" using h(2) by (auto simp: h0_def split: if_splits)
  ultimately show ?thesis using new h(1) by simp
qed

section \<open>The interface\<close>

text \<open>What a client of an ordered map relies on.\<close>

lemma map_of_emplace:
  "sorted_wrt (<) (map fst m) \<Longrightarrow> map_of (emplace k v m) j = (if j = k \<and> map_of m k = None then Some v else map_of m j)"
proof (induction k v m rule: emplace.induct)
  case (2 k v k' v' m)
  show ?case
  proof (cases "k < k'")
    case True
    then have "map_of m k = None" using 2(2) by (auto simp: map_of_eq_None_iff)
    then show ?thesis using True by auto
  next
    case False
    then show ?thesis using 2 by (auto split: if_splits)
  qed
qed simp

lemma map_of_erase: "map_of (erase k m) j = (if j = k then None else map_of m j)"
  unfolding erase_def by (induction m) auto

locale ordered_map =
  fixes rep :: "'s \<Rightarrow> ('k :: linorder, 'v) omap \<Rightarrow> bool"
    and room :: "'s \<Rightarrow> 'a \<Rightarrow> bool"
    and ins :: "'a \<Rightarrow> 'k \<Rightarrow> 'v \<Rightarrow> 's \<Rightarrow> (bool \<times> 's) option"
    and del :: "'k \<Rightarrow> 's \<Rightarrow> 's option"
    and get :: "'k \<Rightarrow> 's \<Rightarrow> 'v option option"
  assumes rep_sorted: "rep s m \<Longrightarrow> sorted_wrt (<) (map fst m)"
    and ins_ok: "rep s m \<Longrightarrow> room s a \<Longrightarrow> \<exists>s'. ins a k v s = Some (map_of m k = None, s') \<and> rep s' (emplace k v m)"
    and del_ok: "rep s m \<Longrightarrow> \<exists>s'. del k s = Some s' \<and> rep s' (erase k m)"
    and get_ok: "rep s m \<Longrightarrow> get k s = Some (map_of m k)"
begin

lemma get_ins:
  assumes "rep s m" "room s a" "ins a k v s = Some (b, s')"
  shows "get j s' = Some (if j = k \<and> map_of m k = None then Some v else map_of m j)"
proof -
  have "rep s' (emplace k v m)" using ins_ok [OF assms(1,2), of k v] assms(3) by auto
  then show ?thesis using get_ok [of s' _ j] map_of_emplace [OF rep_sorted [OF assms(1)]] by simp
qed

lemma get_del:
  assumes "rep s m" "del k s = Some s'"
  shows "get j s' = Some (if j = k then None else map_of m j)"
proof -
  have "rep s' (erase k m)" using del_ok [OF assms(1), of k] assms(2) by auto
  then show ?thesis using get_ok [of s' _ j] by (simp add: map_of_erase)
qed

lemma ins_del:
  assumes "rep s m" "room s a" "map_of m k = None"
  obtains s1 s2 where "ins a k v s = Some (True, s1)" "del k s1 = Some s2" "rep s2 (erase k (emplace k v m))"
    "\<And>j. get j s2 = get j s"
proof -
  obtain s1 where s1: "ins a k v s = Some (True, s1)" "rep s1 (emplace k v m)" using ins_ok [OF assms(1,2), of k v] assms(3) by auto
  obtain s2 where s2: "del k s1 = Some s2" "rep s2 (erase k (emplace k v m))" using del_ok [OF s1(2)] by blast
  have "get j s2 = get j s" for j
    using get_del [OF s1(2) s2(1), of j] get_ok [OF assms(1), of j] map_of_emplace [OF rep_sorted [OF assms(1)], of k v j] assms(3) by auto
  then show thesis using that s1(1) s2 by blast
qed

end

text \<open>The skip list with the state of \<open>rand\<close>.\<close>

definition slr_rep :: "('k :: linorder, 'v) skiplist \<times> 64 word \<Rightarrow> ('k, 'v) omap \<Rightarrow> bool" where
  "slr_rep sr m = sl_rep (fst sr) m"

definition slr_room :: "('k, 'v) skiplist \<times> 64 word \<Rightarrow> nat \<times> (nat \<Rightarrow> nat) \<Rightarrow> bool" where
  "slr_room sr new \<longleftrightarrow> fst new \<notin> dom (heap (fst sr)) \<and> fst new \<noteq> 0"

definition slr_ins :: "nat \<times> (nat \<Rightarrow> nat) \<Rightarrow> 'k :: linorder \<Rightarrow> 'v \<Rightarrow> ('k, 'v) skiplist \<times> 64 word \<Rightarrow> (bool \<times> ('k, 'v) skiplist \<times> 64 word) option" where
  "slr_ins new k v sr = map_option (\<lambda>((n, b), sr). (b, sr)) (sl_emplace new k v (fst sr) (snd sr))"

definition slr_del :: "'k :: linorder \<Rightarrow> ('k, 'v) skiplist \<times> 64 word \<Rightarrow> (('k, 'v) skiplist \<times> 64 word) option" where
  "slr_del k sr = map_option (\<lambda>(it, s). (s, snd sr)) (sl_erase k (fst sr))"

definition slr_get :: "'k :: linorder \<Rightarrow> ('k, 'v) skiplist \<times> 64 word \<Rightarrow> 'v option option" where
  "slr_get k sr = map_option (iter_value (fst sr)) (sl_find k (fst sr))"

lemma sl_rep_sorted: "sl_rep s m \<Longrightarrow> sorted_wrt (<) (map fst m)"
  by (auto simp: sl_rep_def sl_ok_def entries_keys)

interpretation slm: ordered_map slr_rep slr_room slr_ins slr_del slr_get
proof
  show "sorted_wrt (<) (map fst m)" if "slr_rep s m" for s :: "('a, 'b) skiplist \<times> 64 word" and m
    using that by (simp add: slr_rep_def sl_rep_sorted)
  show "\<exists>s'. slr_ins a k v s = Some (map_of m k = None, s') \<and> slr_rep s' (emplace k v m)"
    if "slr_rep s m" "slr_room s a" for s :: "('a, 'b) skiplist \<times> 64 word" and m a k v
  proof -
    have "sl_rep (fst s) m" "fst a \<notin> dom (heap (fst s))" "fst a \<noteq> 0" using that by (simp_all add: slr_rep_def slr_room_def)
    from sl_emplace_rep [OF this, of k v "snd s"] show ?thesis by (fastforce simp: slr_ins_def slr_rep_def)
  qed
  show "\<exists>s'. slr_del k s = Some s' \<and> slr_rep s' (erase k m)" if "slr_rep s m" for s :: "('a, 'b) skiplist \<times> 64 word" and m k
    using sl_erase_rep [of "fst s" m k] that by (fastforce simp: slr_del_def slr_rep_def)
  show "slr_get k s = Some (map_of m k)" if "slr_rep s m" for s :: "('a, 'b) skiplist \<times> 64 word" and m k
    using sl_find_rep [of "fst s" m k] that by (auto simp: slr_get_def slr_rep_def)
qed

section \<open>Properties\<close>

text \<open>
  C1: \<open>emplace\<close> implements the insertion into an ordered map.  On a skip list that
  holds \<open>m\<close>, with memory from \<open>kmalloc\<close> that is not in use, it returns; it says whether
  the key was new; the list then holds \<open>m\<close> with the entry added, or \<open>m\<close> when the key
  was there, the node returned holds the entry, and a search for any key finds what
  the map has.
\<close>

theorem skiplist_emplace:
  assumes "sl_rep s m" "fst new \<notin> dom (heap s)" "fst new \<noteq> 0"
  shows "\<exists>n s' rng'. sl_emplace new k v s rng = Some ((n, map_of m k = None), s', rng') \<and>
    sl_rep s' (emplace k v m) \<and> get_data (heap s') n = map_option (Pair k) (map_of (emplace k v m) k) \<and>
    (\<forall>j. map_option (iter_value s') (sl_find j s') = Some (if j = k \<and> map_of m k = None then Some v else map_of m j))"
proof -
  obtain n s' rng' where e: "sl_emplace new k v s rng = Some ((n, map_of m k = None), s', rng')" "sl_rep s' (emplace k v m)"
    "get_data (heap s') n = map_option (Pair k) (map_of (emplace k v m) k)"
    using sl_emplace_rep [OF assms] by blast
  have "slr_get j (s', rng') = Some (if j = k \<and> map_of m k = None then Some v else map_of m j)" for j
    by (rule slm.get_ins [of "(s, rng)" m new k v "map_of m k = None"])
      (use assms e(1) in \<open>simp_all add: slr_rep_def slr_room_def slr_ins_def\<close>)
  then show ?thesis using e by (auto simp: slr_get_def)
qed

theorem skiplist_emplace_witness:
  "\<exists>s n s' rng'. skiplist_new (1, \<lambda>_. 7) (2, \<lambda>_. 7) (\<lambda>_. 7) = Some s \<and>
    sl_emplace (3, \<lambda>_. 7) (5 :: nat) ''five'' s 1 = Some ((n, True), s', rng') \<and> sl_rep s' [(5, ''five'')]"
proof -
  obtain s where s: "skiplist_new (1, \<lambda>_. 7) (2, \<lambda>_. 7) (\<lambda>_. 7) = Some s" "sl_rep s ([] :: (nat, string) omap)" "dom (heap s) = {1, 2}"
    using skiplist_new_rep [of "(1, \<lambda>_. 7)" "(2, \<lambda>_. 7)" "\<lambda>_. 7"] by auto
  have "fst (3 :: nat, \<lambda>_ :: nat. 7 :: nat) \<notin> dom (heap s)" "fst (3 :: nat, \<lambda>_ :: nat. 7 :: nat) \<noteq> 0" using s(3) by simp_all
  from skiplist_emplace [OF s(2) this, of 5 "''five''" 1] s(1) show ?thesis by auto
qed

text \<open>
  C27: \<open>erase\<close>, by key or by iterator, implements the removal from an ordered map: it
  returns, the list holds the other entries, the iterator returned is at the next
  entry, and no search finds the key any more while every other key is found as before.
\<close>

theorem skiplist_erase:
  assumes "sl_rep s m"
  shows "(\<exists>it s'. sl_erase k s = Some (it, s') \<and> sl_rep s' (erase k m) \<and> iter_value s' it = next_entry k m \<and>
      (\<forall>j. map_option (iter_value s') (sl_find j s') = Some (if j = k then None else map_of m j))) \<and>
    (\<forall>cur. sl_find k s = Some cur \<and> map_of m k \<noteq> None \<longrightarrow>
      (\<exists>it s'. sl_erase_iter cur s = Some (it, s') \<and> sl_rep s' (erase k m) \<and> iter_value s' it = next_entry k m))"
proof -
  obtain it s' where e: "sl_erase k s = Some (it, s')" "sl_rep s' (erase k m)" "iter_value s' it = next_entry k m"
    using sl_erase_rep [OF assms] by blast
  have "slr_get j (s', 0) = Some (if j = k then None else map_of m j)" for j
    by (rule slm.get_del [of "(s, 0)" m k]) (use assms e(1) in \<open>simp_all add: slr_rep_def slr_del_def\<close>)
  then have "\<forall>j. map_option (iter_value s') (sl_find j s') = Some (if j = k then None else map_of m j)" by (simp add: slr_get_def)
  then show ?thesis using e sl_erase_iter_rep [OF assms] by blast
qed

theorem skiplist_erase_witness:
  "\<exists>s n s1 rng1 it s2. skiplist_new (1, \<lambda>_. 7) (2, \<lambda>_. 7) (\<lambda>_. 7) = Some s \<and>
    sl_emplace (3, \<lambda>_. 7) (5 :: nat) ''five'' s 1 = Some ((n, True), s1, rng1) \<and> sl_erase 5 s1 = Some (it, s2) \<and> sl_rep s2 []"
proof -
  obtain s where s: "skiplist_new (1, \<lambda>_. 7) (2, \<lambda>_. 7) (\<lambda>_. 7) = Some s" "sl_rep s ([] :: (nat, string) omap)" "dom (heap s) = {1, 2}"
    using skiplist_new_rep [of "(1, \<lambda>_. 7)" "(2, \<lambda>_. 7)" "\<lambda>_. 7"] by auto
  have "fst (3 :: nat, \<lambda>_ :: nat. 7 :: nat) \<notin> dom (heap s)" "fst (3 :: nat, \<lambda>_ :: nat. 7 :: nat) \<noteq> 0" using s(3) by simp_all
  from sl_emplace_rep [OF s(2) this, of 5 "''five''" 1] obtain n s1 rng1 where
    s1: "sl_emplace (3, \<lambda>_. 7) (5 :: nat) ''five'' s 1 = Some ((n, True), s1, rng1)" "sl_rep s1 [(5, ''five'')]" by auto
  obtain it s2 where "sl_erase 5 s1 = Some (it, s2)" "sl_rep s2 (erase 5 [(5, ''five'')])"
    using skiplist_erase [OF s1(2), of 5] by blast
  then show ?thesis using s(1) s1(1) by (auto simp: erase_def)
qed

text \<open>
  the searches.  \<open>find\<close> returns the entry with the key, or the end; \<open>upper_bound\<close> and
  the iterator before it are those of the map, with the end also when all keys are above;
  the iterators of an entry lead to its neighbours.
\<close>

theorem skiplist_lookup:
  assumes "sl_rep s m"
  shows "(\<exists>it. sl_find k s = Some it \<and> iter_value s it = map_of m k) \<and>
    (\<exists>it b. sl_upper_bound k s = Some it \<and> iter_value s it = upper_bound k m \<and> iter_prev s it = Some b \<and> iter_value s b = before_upper k m) \<and>
    (\<forall>it. sl_find k s = Some it \<and> map_of m k \<noteq> None \<longrightarrow>
      (\<exists>a b. iter_next s it = Some a \<and> iter_value s a = next_entry k m \<and> iter_prev s it = Some b \<and> iter_value s b = prev_entry k m))"
  using sl_find_rep [OF assms, of k] sl_upper_bound_rep [OF assms, of k] sl_iter_rep [OF assms] by blast

theorem skiplist_lookup_witness:
  "\<exists>s it. skiplist_new (1, \<lambda>_. 7) (2, \<lambda>_. 7) (\<lambda>_. 7) = Some (s :: (nat, string) skiplist) \<and> sl_find 5 s = Some it \<and> iter_value s it = None"
proof -
  obtain s where s: "skiplist_new (1, \<lambda>_. 7) (2, \<lambda>_. 7) (\<lambda>_. 7) = Some s" "sl_rep s ([] :: (nat, string) omap)"
    using skiplist_new_rep [of "(1, \<lambda>_. 7)" "(2, \<lambda>_. 7)" "\<lambda>_. 7"] by auto
  from skiplist_lookup [OF s(2), of 5] s(1) show ?thesis by auto
qed

end
