(* ===== verification/Kernel_Vma.thy ===== *)
theory Kernel_Vma
  imports Kernel_SkipList
begin

text \<open>
  The virtual memory areas of an address space (\<open>kernel/VMA.cpp\<close>): the regions
  into which the address range is divided, keyed by their start, and the
  operations that take a region out of a free one and give it back.

  \<open>SkipListMap\<close> is the ordered map of the theory of the skip list, which implements
  it: \<open>emplace\<close>, which keeps an existing entry, \<open>erase\<close>, \<open>upper_bound\<close> and the steps of
  its iterators.  Addresses and lengths are 64-bit words.  The page tables
  are another component: \<open>mmap_mem\<close> and \<open>munmap\<close> are modelled with the list of the
  virtual pages they map and unmap.  \<open>None\<close> is behaviour the code does not define:
  reading a node that marks an end, overflow of an \<open>int\<close>, a failed assertion, or
  not returning.
\<close>

unbundle bit_operations_syntax

section \<open>The map of regions\<close>

datatype entry_type = E_FREE | E_PHYS | E_ANON

record list_entry =
  e_begin :: "64 word"
  e_length :: "64 word"
  e_type :: entry_type
  e_flags :: int

type_synonym regions = "(64 word, list_entry) omap"

fun first_fit :: "64 word \<Rightarrow> regions \<Rightarrow> list_entry option" where
  "first_fit len [] = None"
| "first_fit len ((k, v) # m) =
     (if e_type v = E_FREE \<and> e_length v \<ge> len then Some v else first_fit len m)"

section \<open>Taking a region\<close>

definition PAGE_RW_flag :: int where "PAGE_RW_flag = 2"

definition vma_init :: regions where
  "vma_init = emplace 0x1000 \<lparr>e_begin = 0x1000, e_length = 0xFFF8000000000000 - 0x20000,
     e_type = E_FREE, e_flags = PAGE_RW_flag\<rparr> []"

text \<open>
  \<open>get_entry\<close>: the new regions and the entry found, \<open>nullptr\<close> being the inner
  \<open>None\<close>.  The fields that the initialisers leave out are \<open>FREE\<close> and 0.
\<close>

definition get_entry :: "64 word \<Rightarrow> 64 word \<Rightarrow> regions \<Rightarrow> (regions \<times> list_entry option) option" where
  "get_entry v_addr len m = do {
     found \<leftarrow> (if v_addr \<noteq> 0 then
                 (case before_upper v_addr m of
                    None \<Rightarrow> None
                  | Some f \<Rightarrow> Some (if e_length f < len \<or> e_type f \<noteq> E_FREE then None else Some f))
               else Some None);
     let found = (case found of None \<Rightarrow> first_fit len m | Some f \<Rightarrow> Some f);
     (case found of
        None \<Rightarrow> Some (m, None)
      | Some tmp \<Rightarrow>
          let m = erase (e_begin tmp) m;
              (m, tmp) =
                (if e_begin tmp < v_addr \<and> e_length tmp > (v_addr - e_begin tmp) + len
                 then
                   (let m = emplace (e_begin tmp)
                        \<lparr>e_begin = e_begin tmp, e_length = v_addr - e_begin tmp, e_type = E_FREE, e_flags = 0\<rparr> m;
                        tmp = tmp\<lparr>e_begin := v_addr\<rparr>;
                        tmp = tmp\<lparr>e_length := e_length tmp - (v_addr - e_begin tmp)\<rparr>
                    in (m, tmp))
                 else (m, tmp));
              m = emplace (e_begin tmp + len)
                \<lparr>e_begin = e_begin tmp + len, e_length = e_length tmp - len, e_type = E_FREE, e_flags = 0\<rparr> m;
              e = \<lparr>e_begin = e_begin tmp, e_length = len, e_type = E_ANON, e_flags = 0\<rparr>;
              m = emplace (e_begin tmp) e m
          in Some (m, map_of m (e_begin tmp)))
   }"

text \<open>Writing to an entry through the pointer that \<open>get_entry\<close> returns.\<close>

definition set_entry :: "64 word \<Rightarrow> entry_type \<Rightarrow> int \<Rightarrow> regions \<Rightarrow> regions" where
  "set_entry k t fl m = map (\<lambda>(k', v). (k', if k' = k then v\<lparr>e_type := t, e_flags := fl\<rparr> else v)) m"

definition PAGE_SIZE :: "64 word" where "PAGE_SIZE = 4096"

text \<open>
  The pages of a range, as the loops over \<open>int i\<close> visit them; \<open>i * PAGE_SIZE\<close> is
  an \<open>int\<close>, so a range of more than \<open>2 ^ 19\<close> pages overflows it.
\<close>

definition pages_at :: "64 word \<Rightarrow> 64 word \<Rightarrow> 64 word list option" where
  "pages_at b len =
     (if unat (len div PAGE_SIZE) > 2 ^ 19 then None
      else Some (map (\<lambda>i. b + word_of_nat i * PAGE_SIZE) [0..<unat (len div PAGE_SIZE)]))"

text \<open>The result (0 for \<open>nullptr\<close>) and the virtual pages that are mapped, in order.\<close>

definition mmap_mem :: "64 word \<Rightarrow> 64 word \<Rightarrow> int \<Rightarrow> regions \<Rightarrow> (regions \<times> 64 word \<times> 64 word list) option" where
  "mmap_mem v_addr len fl m =
     (if len AND (PAGE_SIZE - 1) \<noteq> 0 then None
      else do {
        (m, found) \<leftarrow> get_entry v_addr len m;
        (case found of
           None \<Rightarrow> Some (m, 0, [])
         | Some f \<Rightarrow>
             (case pages_at (e_begin f) len of
                None \<Rightarrow> None
              | Some ps \<Rightarrow> Some (set_entry (e_begin f) E_ANON fl m, e_begin f, ps)))
      })"

text \<open>\<open>mmap_phys\<close> maps the pages at \<open>v_addr\<close>, wherever the region was taken.\<close>

definition mmap_phys :: "64 word \<Rightarrow> 64 word \<Rightarrow> int \<Rightarrow> regions \<Rightarrow> (regions \<times> 64 word \<times> 64 word list) option" where
  "mmap_phys v_addr len fl m =
     (if v_addr AND PAGE_SIZE \<noteq> 0 then None
      else do {
        (m, entry) \<leftarrow> get_entry v_addr len m;
        (case entry of
           None \<Rightarrow> Some (m, 0, [])
         | Some e \<Rightarrow>
             Some (set_entry (e_begin e) E_PHYS fl m, v_addr,
                   map (\<lambda>i. v_addr + word_of_nat i * PAGE_SIZE) [0..<(unat len + 4095) div 4096]))
      })"

section \<open>Giving it back\<close>






section \<open>Consistent regions\<close>























section \<open>Unmapping a region\<close>











text \<open>
  the cut at an address inside a free region.  On the regions of a fresh
  address space, a request for \<open>len\<close> bytes at \<open>v_addr\<close> is served at \<open>v_addr\<close>, but
  the free region left after it keeps the length of the whole: the start is
  overwritten before it is subtracted.  The regions then reach past the end of
  the range by \<open>v_addr - 0x1000\<close> bytes.
\<close>
theorem get_entry_cut_length:
  assumes "0 < len" "0x1000 < v_addr" "unat (v_addr - 0x1000) + unat len < 0xFFF8000000000000 - 0x20000"
  shows "get_entry v_addr len vma_init = Some
     ([(0x1000, \<lparr>e_begin = 0x1000, e_length = v_addr - 0x1000, e_type = E_FREE, e_flags = 0\<rparr>),
       (v_addr, \<lparr>e_begin = v_addr, e_length = len, e_type = E_ANON, e_flags = 0\<rparr>),
       (v_addr + len, \<lparr>e_begin = v_addr + len, e_length = (0xFFF8000000000000 - 0x20000) - len, e_type = E_FREE, e_flags = 0\<rparr>)],
      Some \<lparr>e_begin = v_addr, e_length = len, e_type = E_ANON, e_flags = 0\<rparr>)"
proof -
  let ?L = "0xFFF8000000000000 - 0x20000 :: 64 word"
  have L: "unat ?L = 0xFFF8000000000000 - 0x20000" by simp
  have vsub: "unat (v_addr - 0x1000) = unat v_addr - 0x1000" using assms(2) by (simp add: unat_sub word_less_nat_alt word_le_nat_alt)
  have v: "0x1000 < unat v_addr" "unat v_addr + unat len < 0xFFF8000000000000 - 0x20000 + 0x1000"
    using assms(2,3) vsub by (simp_all add: word_less_nat_alt)
  have vl: "unat (v_addr + len) = unat v_addr + unat len" using v by (simp add: unat_word_ariths)
  have len0: "0 < unat len" using assms(1) by (simp add: word_less_nat_alt)
  have a1: "unat ((v_addr - 0x1000) + len) = unat (v_addr - 0x1000) + unat len"
    using assms(3) by (simp only: unat_word_ariths) simp
  have c1: "(v_addr - 0x1000) + len < ?L" unfolding word_less_nat_alt a1 L by (rule assms(3))
  have c2: "\<not> ?L < len" unfolding word_less_nat_alt L using v by linarith
  have ne: "v_addr \<noteq> 0" "0x1000 \<le> v_addr" "\<not> v_addr + len \<le> 0x1000" "\<not> v_addr + len < v_addr" "v_addr + len \<noteq> v_addr"
    "\<not> v_addr < 0x1000" "v_addr \<noteq> 0x1000" "v_addr < v_addr + len" "\<not> v_addr + len < 0x1000" "v_addr + len \<noteq> 0x1000"
    using v vl len0 by (auto simp: word_less_nat_alt word_le_nat_alt)
  have bu: "before_upper v_addr vma_init = Some \<lparr>e_begin = 0x1000, e_length = ?L, e_type = E_FREE, e_flags = PAGE_RW_flag\<rparr>"
    using ne(2) by (simp add: before_upper_def vma_init_def)
  have er: "erase 0x1000 vma_init = []" by (simp add: erase_def vma_init_def)
  show ?thesis unfolding get_entry_def bu using ne assms(2) c1 c2 er by (simp add: Let_def)
qed

theorem get_entry_cut_length_witness:
  "get_entry 0x10000 0x1000 vma_init = Some
     ([(0x1000, \<lparr>e_begin = 0x1000, e_length = 0x10000 - 0x1000, e_type = E_FREE, e_flags = 0\<rparr>),
       (0x10000, \<lparr>e_begin = 0x10000, e_length = 0x1000, e_type = E_ANON, e_flags = 0\<rparr>),
       (0x10000 + 0x1000, \<lparr>e_begin = 0x10000 + 0x1000, e_length = (0xFFF8000000000000 - 0x20000) - 0x1000, e_type = E_FREE, e_flags = 0\<rparr>)],
      Some \<lparr>e_begin = 0x10000, e_length = 0x1000, e_type = E_ANON, e_flags = 0\<rparr>)"
  by (rule get_entry_cut_length) simp_all

end
