(* ===== verification/Kernel_Mmap.thy ===== *)
theory Kernel_Mmap
  imports Kernel_Vma Kernel_Region
begin

text \<open>
  Mapping memory into an address space (\<open>VMA::mmap_mem\<close> of \<open>kernel/VMA.cpp\<close>): the region that is taken, the frames that are allocated
  for its pages, and the page tables that map them, together.
\<close>

unbundle bit_operations_syntax



section \<open>The loop\<close>


section \<open>The pages of a region\<close>







section \<open>Properties\<close>





end
