(* ===== verification/Kernel_Mutex.thy ===== *)
theory Kernel_Mutex
  imports "HOL-Library.Word" "HOL-Library.Multiset"
begin

text \<open>
  The blocking synchronisation of the kernel: \<open>Mutex\<close> (\<open>kernel/mutex.cpp\<close>),
  \<open>CV\<close> (\<open>kernel/cv.hpp\<close>), \<open>Spinlock\<close> (\<open>kernel/Spinlock.hpp\<close>) and the part of the
  scheduler they run on (\<open>arch/x86/task.cpp\<close>): the run queue, \<open>switch_task\<close>,
  \<open>self_block\<close> and \<open>unblock\<close>.

  The kernel runs on one processor and is preempted by the timer.  The model is
  a state machine: \<open>task_step\<close> executes the next atomic piece of the running task,
  \<open>switch_task\<close> is what the timer interrupt does between two pieces.  A piece is
  one access to the shared state, or a whole section with interrupts disabled
  (\<open>NO_INT\<close>, \<open>SpinlockLockNoInt\<close>).  There are one mutex and one condition variable,
  \<open>WaitingTasks_mlock\<close> and \<open>WaitingTasks_cv\<close>, on which the waker of sleeping tasks waits and which
  \<open>switch_task\<close> itself notifies when ten milliseconds have passed (\<open>due\<close>, set by a step of the clock);
  without steps of the clock they are any other pair.
  The tasks call them as \<open>LockGuard\<close> does, so a task unlocks only what it locked.
  \<open>None\<close> is a failed assertion, or a spinlock that is waited for with interrupts
  disabled while its owner cannot run.  Queues hold the oldest element first.
\<close>

section \<open>State\<close>

record spinlock =
  sl_locked :: bool
  sl_owner :: "nat option"

datatype task_state = TS_RUNNING | TS_BLOCKED

text \<open>
  Where \<open>try_lock\<close> was called from: the first attempt of \<open>lock\<close>, its spinning loop,
  its blocking loop, or the client.  The flag of a notification says whether the client holds the mutex
  while it notifies.
\<close>

datatype site = Fast | Spinning | Slow | Client

datatype pc =
    Idle                          \<comment> \<open>outside\<close>
  | Lock                          \<comment> \<open>\<open>lock\<close>: the assertion\<close>
  | Cas site                      \<comment> \<open>\<open>try_lock\<close>: \<open>compare_exchange_strong\<close>\<close>
  | SetOwner site                 \<comment> \<open>\<open>try_lock\<close>: \<open>_owner = cur_task()\<close>\<close>
  | Succ | SuccInc                \<comment> \<open>\<open>if (spin_success < 255)\<close>, \<open>spin_success++\<close>\<close>
  | Decide                        \<comment> \<open>\<open>if (spin_success >= 127)\<close>\<close>
  | Spin | Yield                  \<comment> \<open>the condition and the end of the spinning loop\<close>
  | Fail | FailDec                \<comment> \<open>\<open>if (spin_success > 0)\<close>, \<open>spin_success--\<close>\<close>
  | Block                         \<comment> \<open>the body of the blocking loop\<close>
  | Crit                          \<comment> \<open>between \<open>lock\<close> and \<open>unlock\<close>\<close>
  | Unlock | UnlockCas | UnlockPop
  | Wait                          \<comment> \<open>\<open>CV::wait\<close>\<close>
  | NotifyOne bool                \<comment> \<open>\<open>CV::notify_one\<close>; the mutex is held or not\<close>
  | NotifyAll bool
  | Wake nat bool                 \<comment> \<open>\<open>unblock(t)\<close> at the end of \<open>unlock\<close> and \<open>notify_one\<close>\<close>
  | WakeAll "nat list" bool       \<comment> \<open>the loop of \<open>notify_all\<close> over \<open>waiters_new\<close>\<close>

record kstate =
  locked :: bool
  owner :: "nat option"
  waiters :: "nat list"
  waiters_lock :: spinlock
  spin_success :: "8 word"
  cv_waiters :: "nat list"
  cv_lock :: spinlock
  NextTasks :: "nat list"
  NextTasks_lock :: spinlock
  RunningTask :: nat
  tstate :: "nat \<Rightarrow> task_state"
  due :: bool                     \<comment> \<open>\<open>micros - lastWaitingWakeupMicros > 10000\<close>\<close>
  in_list :: "nat \<Rightarrow> bool"        \<comment> \<open>the node of the task has \<open>list != nullptr\<close>\<close>
  at :: "nat \<Rightarrow> pc"

section \<open>Spinlock\<close>

definition spin_try_lock :: "nat \<Rightarrow> spinlock \<Rightarrow> bool \<times> spinlock" where
  "spin_try_lock t l = (if sl_locked l then (False, l) else (True, l\<lparr>sl_locked := True, sl_owner := Some t\<rparr>))"

definition spin_lock :: "nat \<Rightarrow> spinlock \<Rightarrow> spinlock option" where
  "spin_lock t l = (case spin_try_lock t l of (True, l) \<Rightarrow> Some l | (False, l) \<Rightarrow> None)"

definition spin_unlock :: "nat \<Rightarrow> spinlock \<Rightarrow> spinlock option" where
  "spin_unlock t l =
     (if sl_owner l \<noteq> Some t then None
      else if \<not> sl_locked l then None
      else Some (l\<lparr>sl_owner := None, sl_locked := False\<rparr>))"

definition free_lock :: spinlock where
  "free_lock = \<lparr>sl_locked = False, sl_owner = None\<rparr>"

section \<open>The scheduler\<close>

definition cur_task :: "kstate \<Rightarrow> nat" where
  "cur_task s = RunningTask s"

text \<open>\<open>emplace_front\<close> asserts that the node is in no list; \<open>extract_back\<close> takes it out.\<close>

definition emplace_front :: "nat \<Rightarrow> nat list \<Rightarrow> kstate \<Rightarrow> (nat list \<times> kstate) option" where
  "emplace_front t q s = (if in_list s t then None else Some (q @ [t], s\<lparr>in_list := (in_list s)(t := True)\<rparr>))"

definition extract_back :: "nat list \<Rightarrow> kstate \<Rightarrow> nat option \<times> nat list \<times> kstate" where
  "extract_back q s =
     (case q of [] \<Rightarrow> (None, [], s)
      | t # q \<Rightarrow> (Some t, q, s\<lparr>in_list := (in_list s)(t := False)\<rparr>))"

definition with_NextTasks_lock :: "(kstate \<Rightarrow> kstate option) \<Rightarrow> kstate \<Rightarrow> kstate option" where
  "with_NextTasks_lock f s =
     Option.bind (spin_lock (cur_task s) (NextTasks_lock s)) (\<lambda>l.
     Option.bind (f (s\<lparr>NextTasks_lock := l\<rparr>)) (\<lambda>s.
     Option.bind (spin_unlock (cur_task s) (NextTasks_lock s)) (\<lambda>l.
     Some (s\<lparr>NextTasks_lock := l\<rparr>))))"

definition emplace_NextTasks :: "nat \<Rightarrow> kstate \<Rightarrow> kstate option" where
  "emplace_NextTasks t s = map_option (\<lambda>(q, s). s\<lparr>NextTasks := q\<rparr>) (emplace_front t (NextTasks s) s)"

text \<open>
  \<open>NextTasks_lock\<close> is held by the old task; \<open>RunningTask\<close> changes after the lock
  is released.
\<close>

definition switch_pick :: "kstate \<Rightarrow> (nat \<times> kstate) option" where
  "switch_pick s =
     Option.bind (if tstate s (RunningTask s) = TS_RUNNING then emplace_NextTasks (RunningTask s) s else Some s) (\<lambda>s.
     case extract_back (NextTasks s) s of
       (None, _) \<Rightarrow> None
     | (Some next, q, s) \<Rightarrow> if tstate s next = TS_RUNNING then Some (next, s\<lparr>NextTasks := q\<rparr>) else None)"

definition switch_next :: "kstate \<Rightarrow> kstate option" where
  "switch_next s =
     Option.bind (spin_lock (cur_task s) (NextTasks_lock s)) (\<lambda>l.
     Option.bind (switch_pick (s\<lparr>NextTasks_lock := l\<rparr>)) (\<lambda>(next, s).
     Option.bind (spin_unlock (cur_task s) (NextTasks_lock s)) (\<lambda>l.
     Some (s\<lparr>NextTasks_lock := l, RunningTask := next\<rparr>))))"

definition unblock :: "nat \<Rightarrow> kstate \<Rightarrow> kstate option" where
  "unblock t s =
     (if tstate s t = TS_RUNNING then None
      else with_NextTasks_lock (\<lambda>s.
        if tstate s t = TS_RUNNING then None
        else emplace_NextTasks t (s\<lparr>tstate := (tstate s)(t := TS_RUNNING)\<rparr>)) s)"

text \<open>\<open>CV::notify_one\<close>: the section that takes a waiter out, and the whole function with interrupts disabled.\<close>

definition cv_pop :: "kstate \<Rightarrow> (nat option \<times> kstate) option" where
  "cv_pop s =
     Option.bind (spin_lock (cur_task s) (cv_lock s)) (\<lambda>l.
     case extract_back (cv_waiters s) (s\<lparr>cv_lock := l\<rparr>) of (t, q, s) \<Rightarrow>
     Option.bind (spin_unlock (cur_task s) (cv_lock s)) (\<lambda>l.
     Some (t, s\<lparr>cv_waiters := q, cv_lock := l\<rparr>)))"

definition notify_one :: "kstate \<Rightarrow> kstate option" where
  "notify_one s = Option.bind (cv_pop s) (\<lambda>(t, s). case t of None \<Rightarrow> Some s | Some t \<Rightarrow> unblock t s)"

definition switch_task :: "kstate \<Rightarrow> kstate option" where
  "switch_task s =
     (if sl_locked (NextTasks_lock s) then None
      else Option.bind (if due s then notify_one (s\<lparr>due := False\<rparr>) else Some s) switch_next)"

definition yield_self :: "kstate \<Rightarrow> kstate option" where
  "yield_self s = switch_task s"

text \<open>\<open>self_block(Spinlock &)\<close>; \<open>to_unlock\<close> releases the caller's spinlock.\<close>

definition self_block :: "(kstate \<Rightarrow> kstate option) \<Rightarrow> kstate \<Rightarrow> kstate option" where
  "self_block to_unlock s =
     Option.bind (with_NextTasks_lock
       (\<lambda>s. map_option (\<lambda>s. s\<lparr>tstate := (tstate s)(RunningTask s := TS_BLOCKED)\<rparr>) (to_unlock s)) s)
     yield_self"

section \<open>Mutex\<close>

definition goto :: "pc \<Rightarrow> kstate \<Rightarrow> kstate" where
  "goto p s = s\<lparr>at := (at s)(RunningTask s := p)\<rparr>"

definition try_lock_cas :: "kstate \<Rightarrow> bool \<times> kstate" where
  "try_lock_cas s = (if locked s then (False, s) else (True, s\<lparr>locked := True\<rparr>))"

definition set_owner :: "kstate \<Rightarrow> kstate" where
  "set_owner s = s\<lparr>owner := Some (cur_task s)\<rparr>"

definition lock_block :: "kstate \<Rightarrow> kstate option" where
  "lock_block s =
     Option.bind (spin_lock (cur_task s) (waiters_lock s)) (\<lambda>l.
     Option.bind (emplace_front (RunningTask s) (waiters s) (s\<lparr>waiters_lock := l\<rparr>)) (\<lambda>(q, s).
     self_block
       (\<lambda>s. map_option (\<lambda>l. s\<lparr>waiters_lock := l\<rparr>) (spin_unlock (cur_task s) (waiters_lock s)))
       (s\<lparr>waiters := q\<rparr>)))"

definition unlock_cas :: "kstate \<Rightarrow> kstate option" where
  "unlock_cas s = (if locked s then Some (s\<lparr>locked := False\<rparr>) else None)"

definition unlock_pop :: "kstate \<Rightarrow> (nat option \<times> kstate) option" where
  "unlock_pop s =
     Option.bind (spin_lock (cur_task s) (waiters_lock s)) (\<lambda>l.
     case extract_back (waiters s) (s\<lparr>waiters_lock := l\<rparr>) of (t, q, s) \<Rightarrow>
     Option.bind (spin_unlock (cur_task s) (waiters_lock s)) (\<lambda>l.
     Some (t, s\<lparr>waiters := q, waiters_lock := l\<rparr>)))"

text \<open>\<open>unlock\<close> as one piece: what it does when interrupts are disabled.\<close>

definition mutex_unlock :: "kstate \<Rightarrow> kstate option" where
  "mutex_unlock s =
     Option.bind (unlock_cas (s\<lparr>owner := None\<rparr>)) (\<lambda>s.
     Option.bind (unlock_pop s) (\<lambda>(t, s).
     case t of None \<Rightarrow> Some s | Some t \<Rightarrow> unblock t s))"

section \<open>CV\<close>

definition cv_wait_block :: "kstate \<Rightarrow> kstate option" where
  "cv_wait_block s =
     Option.bind (spin_lock (cur_task s) (cv_lock s)) (\<lambda>l.
     Option.bind (mutex_unlock (s\<lparr>cv_lock := l\<rparr>)) (\<lambda>s.
     Option.bind (emplace_front (RunningTask s) (cv_waiters s) s) (\<lambda>(q, s).
     self_block
       (\<lambda>s. map_option (\<lambda>l. s\<lparr>cv_lock := l\<rparr>) (spin_unlock (cur_task s) (cv_lock s)))
       (s\<lparr>cv_waiters := q\<rparr>))))"

definition cv_swap :: "kstate \<Rightarrow> (nat list \<times> kstate) option" where
  "cv_swap s =
     Option.bind (spin_lock (cur_task s) (cv_lock s)) (\<lambda>l.
     Option.bind (spin_unlock (cur_task s) l) (\<lambda>l.
     Some (cv_waiters s, s\<lparr>cv_waiters := [], cv_lock := l\<rparr>)))"

section \<open>The steps of a task\<close>

text \<open>What the client does next, and whether the ten microseconds of the spinning loop are over.\<close>

datatype choice = DoLock | DoTryLock | DoUnlock | DoWait | DoNotifyOne | DoNotifyAll | TimeOver

definition back_to :: "bool \<Rightarrow> pc" where
  "back_to held = (if held then Crit else Idle)"

fun after_try_lock :: "bool \<Rightarrow> site \<Rightarrow> pc" where
  "after_try_lock True Fast = Succ"
| "after_try_lock True Spinning = Succ"
| "after_try_lock True Slow = Crit"
| "after_try_lock True Client = Crit"
| "after_try_lock False Fast = Decide"
| "after_try_lock False Spinning = Yield"
| "after_try_lock False Slow = Block"
| "after_try_lock False Client = Idle"

fun task_at :: "choice \<Rightarrow> pc \<Rightarrow> kstate \<Rightarrow> kstate option" where
  "task_at ch Idle s =
     (case ch of DoLock \<Rightarrow> Some (goto Lock s) | DoTryLock \<Rightarrow> Some (goto (Cas Client) s)
      | DoNotifyOne \<Rightarrow> Some (goto (NotifyOne False) s) | DoNotifyAll \<Rightarrow> Some (goto (NotifyAll False) s)
      | _ \<Rightarrow> Some s)"
| "task_at ch Lock s =
     (if owner s \<noteq> Some (cur_task s) \<or> \<not> locked s then Some (goto (Cas Fast) s) else None)"
| "task_at ch (Cas site) s =
     (case try_lock_cas s of
        (True, s) \<Rightarrow> Some (goto (SetOwner site) s)
      | (False, s) \<Rightarrow> Some (goto (after_try_lock False site) s))"
| "task_at ch (SetOwner site) s = Some (goto (after_try_lock True site) (set_owner s))"
| "task_at ch Succ s = Some (goto (if spin_success s < 255 then SuccInc else Crit) s)"
| "task_at ch SuccInc s = Some (goto Crit (s\<lparr>spin_success := spin_success s + 1\<rparr>))"
| "task_at ch Decide s = Some (goto (if 127 \<le> spin_success s then Spin else Fail) s)"
| "task_at ch Spin s = Some (goto (if ch = TimeOver then Fail else Cas Spinning) s)"
| "task_at ch Yield s = yield_self (goto Spin s)"
| "task_at ch Fail s = Some (goto (if 0 < spin_success s then FailDec else Cas Slow) s)"
| "task_at ch FailDec s = Some (goto (Cas Slow) (s\<lparr>spin_success := spin_success s - 1\<rparr>))"
| "task_at ch Block s = lock_block (goto (Cas Slow) s)"
| "task_at ch Crit s =
     (case ch of DoUnlock \<Rightarrow> Some (goto Unlock s) | DoWait \<Rightarrow> Some (goto Wait s)
      | DoNotifyOne \<Rightarrow> Some (goto (NotifyOne True) s) | DoNotifyAll \<Rightarrow> Some (goto (NotifyAll True) s)
      | _ \<Rightarrow> Some s)"
| "task_at ch Unlock s = Some (goto UnlockCas (s\<lparr>owner := None\<rparr>))"
| "task_at ch UnlockCas s = map_option (goto UnlockPop) (unlock_cas s)"
| "task_at ch UnlockPop s =
     map_option (\<lambda>(t, s). case t of None \<Rightarrow> goto Idle s | Some t \<Rightarrow> goto (Wake t False) s) (unlock_pop s)"
| "task_at ch Wait s = cv_wait_block (goto Lock s)"
| "task_at ch (NotifyOne held) s =
     map_option (\<lambda>(t, s). case t of None \<Rightarrow> goto (back_to held) s | Some t \<Rightarrow> goto (Wake t held) s) (cv_pop s)"
| "task_at ch (NotifyAll held) s = map_option (\<lambda>(q, s). goto (WakeAll q held) s) (cv_swap s)"
| "task_at ch (Wake t held) s = map_option (goto (back_to held)) (unblock t s)"
| "task_at ch (WakeAll q held) s =
     (case extract_back q s of
        (None, q, s) \<Rightarrow> Some (goto (back_to held) s)
      | (Some t, q, s) \<Rightarrow> map_option (goto (WakeAll q held)) (unblock t s))"

definition task_step :: "choice \<Rightarrow> kstate \<Rightarrow> kstate option" where
  "task_step ch s = task_at ch (at s (RunningTask s)) s"

definition init_state :: "nat \<Rightarrow> nat list \<Rightarrow> kstate" where
  "init_state t ts =
     \<lparr>locked = False, owner = None, waiters = [], waiters_lock = free_lock, spin_success = 127,
      cv_waiters = [], cv_lock = free_lock, NextTasks = ts, NextTasks_lock = free_lock,
      RunningTask = t, tstate = (\<lambda>_. TS_RUNNING), due = False, in_list = (\<lambda>u. u \<in> set ts), at = (\<lambda>_. Idle)\<rparr>"

inductive step :: "kstate \<Rightarrow> kstate \<Rightarrow> bool" where
  run: "task_step ch s = Some s' \<Longrightarrow> step s s'"
| timer: "switch_task s = Some s' \<Longrightarrow> step s s'"
| clock: "step s (s\<lparr>due := True\<rparr>)"

inductive reachable :: "nat \<Rightarrow> nat list \<Rightarrow> kstate \<Rightarrow> bool" for t ts where
  init: "reachable t ts (init_state t ts)"
| next_step: "reachable t ts s \<Longrightarrow> step s s' \<Longrightarrow> reachable t ts s'"

inductive_cases step_cases: "step s s'"

section \<open>Running the sections with interrupts disabled\<close>

lemma spin_lock_free: "spin_lock t free_lock = Some \<lparr>sl_locked = True, sl_owner = Some t\<rparr>"
  by (simp add: spin_lock_def spin_try_lock_def free_lock_def)

lemma spin_unlock_own: "spin_unlock t \<lparr>sl_locked = True, sl_owner = Some t\<rparr> = Some free_lock"
  by (simp add: spin_unlock_def free_lock_def)

lemma sl_free [simp]: "\<not> sl_locked free_lock" by (simp add: free_lock_def)

lemmas spin_simps = spin_lock_free spin_unlock_own cur_task_def

lemma upd_same:
  "NextTasks_lock s = l \<Longrightarrow> s\<lparr>NextTasks_lock := l\<rparr> = s"
  "waiters_lock s = l \<Longrightarrow> s\<lparr>waiters_lock := l\<rparr> = s"
  "cv_lock s = l \<Longrightarrow> s\<lparr>cv_lock := l\<rparr> = s"
  by (cases s; simp)+

lemma unblock_eq:
  assumes "NextTasks_lock s = free_lock"
  shows "unblock t s =
    (if tstate s t = TS_RUNNING \<or> in_list s t then None
     else Some (s\<lparr>NextTasks := NextTasks s @ [t], tstate := (tstate s)(t := TS_RUNNING),
                  in_list := (in_list s)(t := True)\<rparr>))"
  using assms by (cases s) (auto simp: unblock_def with_NextTasks_lock_def emplace_NextTasks_def emplace_front_def spin_simps)

lemma unlock_pop_eq:
  assumes "waiters_lock s = free_lock"
  shows "unlock_pop s =
    (case waiters s of [] \<Rightarrow> Some (None, s)
     | t # q \<Rightarrow> Some (Some t, s\<lparr>waiters := q, in_list := (in_list s)(t := False)\<rparr>))"
  using assms by (cases s) (auto simp: unlock_pop_def extract_back_def spin_simps split: list.split)

lemma cv_pop_eq:
  assumes "cv_lock s = free_lock"
  shows "cv_pop s =
    (case cv_waiters s of [] \<Rightarrow> Some (None, s)
     | t # q \<Rightarrow> Some (Some t, s\<lparr>cv_waiters := q, in_list := (in_list s)(t := False)\<rparr>))"
  using assms by (cases s) (auto simp: cv_pop_def extract_back_def spin_simps split: list.split)

lemma cv_swap_eq:
  assumes "cv_lock s = free_lock"
  shows "cv_swap s = Some (cv_waiters s, s\<lparr>cv_waiters := []\<rparr>)"
  using assms by (cases s) (auto simp: cv_swap_def spin_simps)

text \<open>What the notification at the start of \<open>switch_task\<close> does.\<close>

definition woken :: "kstate \<Rightarrow> kstate" where
  "woken s =
     (if \<not> due s then s
      else case cv_waiters s of [] \<Rightarrow> s\<lparr>due := False\<rparr>
        | t # q \<Rightarrow> s\<lparr>due := False, cv_waiters := q, NextTasks := NextTasks s @ [t], tstate := (tstate s)(t := TS_RUNNING),
                     in_list := (in_list s)(t := True)\<rparr>)"

lemma woken_sel [simp]:
  "locked (woken s) = locked s" "owner (woken s) = owner s" "waiters (woken s) = waiters s" "waiters_lock (woken s) = waiters_lock s"
  "cv_lock (woken s) = cv_lock s" "NextTasks_lock (woken s) = NextTasks_lock s" "RunningTask (woken s) = RunningTask s"
  "at (woken s) = at s" "spin_success (woken s) = spin_success s" "\<not> due (woken s)"
  by (auto simp: woken_def split: list.split)

lemma switch_task_woken:
  assumes "NextTasks_lock s = free_lock" "cv_lock s = free_lock" "\<And>t q. due s \<Longrightarrow> cv_waiters s = t # q \<Longrightarrow> tstate s t = TS_BLOCKED"
  shows "switch_task s = switch_next (woken s)"
  using assms by (auto simp: switch_task_def notify_one_def woken_def cv_pop_eq unblock_eq split: list.split)

lemma switch_next_eq:
  assumes "NextTasks_lock s = free_lock" "tstate s (RunningTask s) = TS_RUNNING" "\<not> in_list s (RunningTask s)"
    "NextTasks s @ [RunningTask s] = n # q" "tstate s n = TS_RUNNING"
  shows "switch_next s =
    Some (s\<lparr>NextTasks := q, RunningTask := n, in_list := (in_list s)(RunningTask s := True, n := False)\<rparr>)"
  using assms
  by (cases s) (auto simp: switch_next_def switch_pick_def emplace_NextTasks_def emplace_front_def extract_back_def spin_simps)

text \<open>A switch away from a task that has just blocked; \<open>s'\<close> is the state before its \<open>_state\<close> is set.\<close>

lemma self_block_eq:
  assumes "NextTasks_lock s = free_lock"
    "\<And>l. to_unlock (s\<lparr>NextTasks_lock := l\<rparr>) = Some (s'\<lparr>NextTasks_lock := l\<rparr>)"
    "RunningTask s' = RunningTask s" "NextTasks_lock s' = free_lock"
  shows "self_block to_unlock s = switch_task (s'\<lparr>tstate := (tstate s')(RunningTask s := TS_BLOCKED)\<rparr>)"
  using assms
  by (cases s') (auto simp: self_block_def with_NextTasks_lock_def yield_self_def spin_simps)

lemma switch_blocked:
  assumes "NextTasks_lock s = free_lock" "tstate s (RunningTask s) = TS_BLOCKED"
    "\<And>n ns. NextTasks s = n # ns \<Longrightarrow> tstate s n = TS_RUNNING"
  shows "switch_next s =
    (case NextTasks s of [] \<Rightarrow> None
     | n # ns \<Rightarrow> Some (s\<lparr>NextTasks := ns, RunningTask := n, in_list := (in_list s)(n := False)\<rparr>))"
  using assms
  by (cases s) (auto simp: switch_next_def switch_pick_def extract_back_def spin_simps split: list.split)

definition block_on :: "nat \<Rightarrow> nat list \<Rightarrow> kstate \<Rightarrow> kstate" where
  "block_on n ns s =
     s\<lparr>NextTasks := ns, RunningTask := n, tstate := (tstate s)(RunningTask s := TS_BLOCKED),
       in_list := (in_list s)(RunningTask s := True, n := False)\<rparr>"

text \<open>The notification and the blocking of another task do not interfere.\<close>

lemma switch_block_on:
  assumes "NextTasks_lock s = free_lock" "cv_lock s = free_lock"
    "\<And>t q. due s \<Longrightarrow> cv_waiters s = t # q \<Longrightarrow> tstate s t = TS_BLOCKED \<and> t \<noteq> RunningTask s"
    "\<And>n ns. NextTasks (woken s) = n # ns \<Longrightarrow> tstate (woken s) n = TS_RUNNING \<and> n \<noteq> RunningTask s"
  shows "switch_task (s\<lparr>in_list := (in_list s)(RunningTask s := True), tstate := (tstate s)(RunningTask s := TS_BLOCKED)\<rparr>) =
    (case NextTasks (woken s) of [] \<Rightarrow> None | n # ns \<Rightarrow> Some (block_on n ns (woken s)))"
proof -
  let ?v = "s\<lparr>in_list := (in_list s)(RunningTask s := True), tstate := (tstate s)(RunningTask s := TS_BLOCKED)\<rparr>"
  let ?w = "(woken s)\<lparr>in_list := (in_list (woken s))(RunningTask s := True), tstate := (tstate (woken s))(RunningTask s := TS_BLOCKED)\<rparr>"
  have w: "woken ?v = ?w" using assms(3) by (cases s) (auto simp: woken_def fun_upd_twist split: list.split)
  have "switch_task ?v = switch_next ?w" using assms(1-3) w switch_task_woken [of ?v] by auto
  also have "\<dots> = (case NextTasks ?w of [] \<Rightarrow> None
     | n # ns \<Rightarrow> Some (?w\<lparr>NextTasks := ns, RunningTask := n, in_list := (in_list ?w)(n := False)\<rparr>))"
    using assms(1,4) by (intro switch_blocked) auto
  also have "\<dots> = (case NextTasks (woken s) of [] \<Rightarrow> None | n # ns \<Rightarrow> Some (block_on n ns (woken s)))"
    by (cases "NextTasks (woken s)") (simp_all add: block_on_def)
  finally show ?thesis .
qed

lemma lock_block_eq:
  assumes "NextTasks_lock s = free_lock" "waiters_lock s = free_lock" "cv_lock s = free_lock" "\<not> in_list s (RunningTask s)"
    "\<And>t q. cv_waiters s = t # q \<Longrightarrow> tstate s t = TS_BLOCKED \<and> t \<noteq> RunningTask s"
    "\<And>n ns. NextTasks (woken s) = n # ns \<Longrightarrow> tstate (woken s) n = TS_RUNNING \<and> n \<noteq> RunningTask s"
  shows "lock_block s =
    (case NextTasks (woken s) of [] \<Rightarrow> None
     | n # ns \<Rightarrow> Some (block_on n ns ((woken s)\<lparr>waiters := waiters s @ [RunningTask s]\<rparr>)))"
proof -
  let ?l = "\<lparr>sl_locked = True, sl_owner = Some (RunningTask s)\<rparr>"
  let ?b = "s\<lparr>waiters := waiters s @ [RunningTask s]\<rparr>"
  let ?s = "?b\<lparr>in_list := (in_list s)(RunningTask s := True)\<rparr>"
  let ?t = "s\<lparr>waiters_lock := ?l, in_list := (in_list s)(RunningTask s := True), waiters := waiters s @ [RunningTask s]\<rparr>"
  let ?u = "\<lambda>s. map_option (\<lambda>l. s\<lparr>waiters_lock := l\<rparr>) (spin_unlock (cur_task s) (waiters_lock s))"
  have b: "woken ?b = (woken s)\<lparr>waiters := waiters s @ [RunningTask s]\<rparr>" by (cases s) (auto simp: woken_def split: list.split)
  have "lock_block s = self_block ?u ?t" using assms by (simp add: lock_block_def emplace_front_def spin_simps)
  also have "\<dots> = switch_task (?s\<lparr>tstate := (tstate ?s)(RunningTask ?t := TS_BLOCKED)\<rparr>)"
    using assms(1,2) by (intro self_block_eq) (cases s; auto simp: spin_simps)+
  also have "\<dots> = (case NextTasks (woken ?b) of [] \<Rightarrow> None | n # ns \<Rightarrow> Some (block_on n ns (woken ?b)))"
    using switch_block_on [of ?b] assms unfolding b by simp
  finally show ?thesis unfolding b by simp
qed

lemma mutex_unlock_eq:
  assumes "NextTasks_lock s = free_lock" "waiters_lock s = free_lock" "locked s"
    "\<And>t q. waiters s = t # q \<Longrightarrow> tstate s t = TS_BLOCKED"
  shows "mutex_unlock s =
    (case waiters s of [] \<Rightarrow> Some (s\<lparr>owner := None, locked := False\<rparr>)
     | t # q \<Rightarrow> Some (s\<lparr>owner := None, locked := False, waiters := q, NextTasks := NextTasks s @ [t],
                            tstate := (tstate s)(t := TS_RUNNING), in_list := (in_list s)(t := True)\<rparr>))"
  using assms
  by (auto simp: mutex_unlock_def unlock_cas_def unlock_pop_eq unblock_eq split: list.split)

text \<open>
  In \<open>CV::wait\<close> the task is in the queue of the condition variable when it switches: when the notification is due and
  no other task waits, the task unblocks itself, and \<open>switch_task\<close> then fails to put it into the run queue again.
\<close>

lemma cv_block_eq:
  assumes "NextTasks_lock s = free_lock" "cv_lock s = free_lock" "\<not> in_list s (RunningTask s)"
    "\<And>t q. cv_waiters s = t # q \<Longrightarrow> tstate s t = TS_BLOCKED \<and> t \<noteq> RunningTask s"
    "\<And>n ns. NextTasks (woken s) = n # ns \<Longrightarrow> tstate (woken s) n = TS_RUNNING \<and> n \<noteq> RunningTask s"
  shows "Option.bind (emplace_front (RunningTask s) (cv_waiters s) (s\<lparr>cv_lock := \<lparr>sl_locked = True, sl_owner = Some (RunningTask s)\<rparr>\<rparr>))
      (\<lambda>(q, s). self_block
        (\<lambda>s. map_option (\<lambda>l. s\<lparr>cv_lock := l\<rparr>) (spin_unlock (cur_task s) (cv_lock s)))
        (s\<lparr>cv_waiters := q\<rparr>)) =
    (if due s \<and> cv_waiters s = [] then None
     else case NextTasks (woken s) of [] \<Rightarrow> None
     | n # ns \<Rightarrow> Some (block_on n ns ((woken s)\<lparr>cv_waiters := cv_waiters (woken s) @ [RunningTask s]\<rparr>)))"
    (is "?lhs = _")
proof -
  let ?l = "\<lparr>sl_locked = True, sl_owner = Some (RunningTask s)\<rparr>"
  let ?b = "s\<lparr>cv_waiters := cv_waiters s @ [RunningTask s]\<rparr>"
  let ?s = "?b\<lparr>in_list := (in_list s)(RunningTask s := True)\<rparr>"
  let ?t = "s\<lparr>cv_lock := ?l, in_list := (in_list s)(RunningTask s := True), cv_waiters := cv_waiters s @ [RunningTask s]\<rparr>"
  let ?u = "\<lambda>s. map_option (\<lambda>l. s\<lparr>cv_lock := l\<rparr>) (spin_unlock (cur_task s) (cv_lock s))"
  have "?lhs = self_block ?u ?t" using assms by (simp add: emplace_front_def)
  also have "\<dots> = switch_task (?s\<lparr>tstate := (tstate ?s)(RunningTask ?t := TS_BLOCKED)\<rparr>)"
    using assms(1,2) by (intro self_block_eq) (cases s; auto simp: spin_simps)+
  finally have eq: "?lhs = switch_task (?s\<lparr>tstate := (tstate s)(RunningTask s := TS_BLOCKED)\<rparr>)" by simp
  show ?thesis
  proof (cases "due s \<and> cv_waiters s = []")
    case True
    then show ?thesis unfolding eq using assms(1,2)
      by (simp add: switch_task_def notify_one_def cv_pop_eq unblock_eq switch_next_def switch_pick_def emplace_NextTasks_def
          emplace_front_def spin_simps)
  next
    case False
    have b: "woken ?b = (woken s)\<lparr>cv_waiters := cv_waiters (woken s) @ [RunningTask s]\<rparr>"
      using False by (cases s) (auto simp: woken_def split: list.split)
    have "?lhs = (case NextTasks (woken ?b) of [] \<Rightarrow> None | n # ns \<Rightarrow> Some (block_on n ns (woken ?b)))"
      unfolding eq using switch_block_on [of ?b] assms False unfolding b by (auto simp: append_eq_Cons_conv)
    then show ?thesis using False unfolding b by auto
  qed
qed

section \<open>The invariant\<close>

text \<open>
  Every task is at exactly one place: it runs, is in the run queue or in a wait
  queue, or has been taken out of a wait queue by a task that is about to unblock it.
\<close>

fun transit :: "pc \<Rightarrow> nat list" where
  "transit (Wake t held) = [t]"
| "transit (WakeAll q held) = q"
| "transit _ = []"

definition in_transit :: "nat set \<Rightarrow> kstate \<Rightarrow> nat multiset" where
  "in_transit T s = (\<Sum>t\<in>T. mset (transit (at s t)))"

definition places :: "nat set \<Rightarrow> kstate \<Rightarrow> nat multiset" where
  "places T s = {#RunningTask s#} + mset (NextTasks s) + mset (waiters s) + mset (cv_waiters s) + in_transit T s"

text \<open>The points at which a task has the mutex, and at which it is its \<open>_owner\<close>.\<close>

fun holds :: "pc \<Rightarrow> bool" where
  "holds (SetOwner _) = True"
| "holds Succ = True"
| "holds SuccInc = True"
| "holds Crit = True"
| "holds Unlock = True"
| "holds UnlockCas = True"
| "holds Wait = True"
| "holds (NotifyOne held) = held"
| "holds (NotifyAll held) = held"
| "holds (Wake _ held) = held"
| "holds (WakeAll _ held) = held"
| "holds _ = False"

definition owns :: "pc \<Rightarrow> bool" where
  "owns p \<longleftrightarrow> holds p \<and> (\<forall>site. p \<noteq> SetOwner site) \<and> p \<noteq> UnlockCas"

definition locks_ok :: "kstate \<Rightarrow> bool" where
  "locks_ok s \<longleftrightarrow> NextTasks_lock s = free_lock \<and> waiters_lock s = free_lock \<and> cv_lock s = free_lock"

definition mutex_ok :: "nat set \<Rightarrow> kstate \<Rightarrow> bool" where
  "mutex_ok T s \<longleftrightarrow>
     (\<forall>t\<in>T. \<forall>u\<in>T. holds (at s t) \<and> holds (at s u) \<longrightarrow> t = u) \<and>
     (locked s \<longleftrightarrow> (\<exists>t\<in>T. holds (at s t))) \<and>
     (\<forall>t. owner s = Some t \<longleftrightarrow> t \<in> T \<and> owns (at s t))"

definition sched_ok :: "nat set \<Rightarrow> kstate \<Rightarrow> bool" where
  "sched_ok T s \<longleftrightarrow>
     finite T \<and> places T s = mset_set T \<and>
     (\<forall>t\<in>T. tstate s t = TS_RUNNING \<longleftrightarrow> t = RunningTask s \<or> t \<in> set (NextTasks s)) \<and>
     (\<forall>t\<in>T. t = RunningTask s \<or> (\<exists>u\<in>T. \<exists>h. at s u = Wake t h) \<longrightarrow> \<not> in_list s t) \<and>
     (\<forall>t\<in>T. tstate s t = TS_BLOCKED \<longrightarrow> at s t = Cas Slow \<or> at s t = Lock)"

definition kinv :: "nat set \<Rightarrow> kstate \<Rightarrow> bool" where
  "kinv T s \<longleftrightarrow> locks_ok s \<and> mutex_ok T s \<and> sched_ok T s"

lemma sched_run: "sched_ok T s \<Longrightarrow> finite T \<and> RunningTask s \<in> T \<and> tstate s (RunningTask s) = TS_RUNNING \<and> \<not> in_list s (RunningTask s)"
proof -
  assume s: "sched_ok T s"
  moreover have "RunningTask s \<in># places T s" by (simp add: places_def)
  ultimately have "RunningTask s \<in># mset_set T" by (simp add: sched_ok_def)
  with s show ?thesis by (auto simp: sched_ok_def)
qed

lemma places_unique:
  assumes "sched_ok T s"
  shows "count (places T s) t \<le> 1"
  using assms by (simp add: sched_ok_def count_mset_set')

lemma places_count:
  "count (places T s) t = (if t = RunningTask s then 1 else 0) + count (mset (NextTasks s)) t
     + count (mset (waiters s)) t + count (mset (cv_waiters s)) t + count (in_transit T s) t"
  by (simp add: places_def)

lemma at_most_one:
  "(if P then 1 else 0) + a + b + c + d \<le> (1 :: nat) \<Longrightarrow> 0 < d \<Longrightarrow> a = 0 \<and> b = 0 \<and> c = 0 \<and> \<not> P"
  by (cases P) auto

lemma in_set_count: "t \<in> set xs \<Longrightarrow> 0 < count (mset xs) t"
  by simp

lemma in_transit_count:
  assumes "finite T" "u \<in> T" "t \<in> set (transit (at s u))"
  shows "0 < count (in_transit T s) t"
proof -
  have "in_transit T s = mset (transit (at s u)) + (\<Sum>v\<in>T - {u}. mset (transit (at s v)))"
    unfolding in_transit_def using assms by (intro sum.remove)
  then have "t \<in># in_transit T s" using assms(3) by auto
  then show ?thesis by simp
qed

lemma transit_unique:
  assumes "sched_ok T s" "u \<in> T" "v \<in> T" "t \<in> set (transit (at s u))" "t \<in> set (transit (at s v))"
  shows "u = v"
proof (rule ccontr)
  assume "u \<noteq> v"
  have fin: "finite T" using assms(1) by (simp add: sched_ok_def)
  have "in_transit T s = mset (transit (at s u)) + (mset (transit (at s v)) + (\<Sum>w\<in>T - {u} - {v}. mset (transit (at s w))))"
    unfolding in_transit_def using assms \<open>u \<noteq> v\<close> fin
    by (subst sum.remove [of T u], simp, simp, subst sum.remove [of "T - {u}" v]) auto
  then have "count (mset (transit (at s u))) t + count (mset (transit (at s v))) t \<le> count (in_transit T s) t" by simp
  then have "2 \<le> count (places T s) t"
    using in_set_count [OF assms(4)] in_set_count [OF assms(5)] unfolding places_count by linarith
  then show False using places_unique [OF assms(1), of t] by simp
qed

lemma transit_apart:
  assumes "sched_ok T s" "u \<in> T" "t \<in> set (transit (at s u))"
  shows "t \<noteq> RunningTask s" "t \<notin> set (NextTasks s)" "t \<notin> set (waiters s)" "t \<notin> set (cv_waiters s)" "t \<in> T"
    "tstate s t = TS_BLOCKED"
proof -
  have fin: "finite T" using assms(1) by (simp add: sched_ok_def)
  have c: "0 < count (in_transit T s) t" by (rule in_transit_count [OF fin assms(2,3)])
  have z: "count (mset (NextTasks s)) t = 0 \<and> count (mset (waiters s)) t = 0 \<and> count (mset (cv_waiters s)) t = 0 \<and> t \<noteq> RunningTask s"
    by (rule at_most_one [OF places_unique [OF assms(1), of t, unfolded places_count] c])
  then show a: "t \<noteq> RunningTask s" "t \<notin> set (NextTasks s)" "t \<notin> set (waiters s)" "t \<notin> set (cv_waiters s)"
    by (simp_all add: count_mset_0_iff)
  have "0 < count (places T s) t" using c by (simp add: places_def)
  then have "t \<in># mset_set T" using assms(1) by (simp add: sched_ok_def)
  then show "t \<in> T" using fin by simp
  then show "tstate s t = TS_BLOCKED" using a assms(1) by (cases "tstate s t") (auto simp: sched_ok_def)
qed

lemma queues_apart:
  assumes "sched_ok T s"
  shows "distinct (RunningTask s # NextTasks s @ waiters s @ cv_waiters s)"
    "set (RunningTask s # NextTasks s @ waiters s @ cv_waiters s) \<subseteq> T"
proof -
  let ?q = "RunningTask s # NextTasks s @ waiters s @ cv_waiters s"
  have p: "places T s = mset ?q + in_transit T s" by (simp add: places_def)
  have "count (mset ?q) t \<le> 1" for t using places_unique [OF assms, of t] unfolding p count_union by linarith
  then show "distinct ?q" unfolding distinct_count_atmost_1 using count_greater_zero_iff [of "mset ?q"] by (metis One_nat_def Suc_leI count_inI le_antisym mset_eq_setD set_mset_mset)
  have "set_mset (mset ?q) \<subseteq> set_mset (places T s)" unfolding p by auto
  then show "set ?q \<subseteq> T" using assms by (simp add: sched_ok_def)
qed

lemma in_transit_goto:
  assumes "sched_ok T s"
  shows "in_transit T (goto p s) + mset (transit (at s (RunningTask s))) = in_transit T s + mset (transit p)"
proof -
  have r: "finite T" "RunningTask s \<in> T" using sched_run [OF assms] by auto
  have "(\<Sum>t\<in>T - {RunningTask s}. mset (transit (at (goto p s) t))) = (\<Sum>t\<in>T - {RunningTask s}. mset (transit (at s t)))"
    by (rule sum.cong) (auto simp: goto_def)
  then show ?thesis unfolding in_transit_def
    unfolding sum.remove [OF r, of "\<lambda>t. mset (transit (at s t))"] sum.remove [OF r, of "\<lambda>t. mset (transit (at (goto p s) t))"]
    by (simp add: goto_def)
qed

subsection \<open>The scheduler keeps its invariant\<close>

lemma sched_ok_mutex_fields [simp]:
  "sched_ok T (s\<lparr>locked := b\<rparr>) = sched_ok T s"
  "sched_ok T (s\<lparr>owner := ow\<rparr>) = sched_ok T s"
  "sched_ok T (s\<lparr>spin_success := n\<rparr>) = sched_ok T s"
  "sched_ok T (s\<lparr>due := d\<rparr>) = sched_ok T s"
  by (simp_all add: sched_ok_def places_def in_transit_def)

lemma goto_sel [simp]:
  "locked (goto p s) = locked s" "owner (goto p s) = owner s" "waiters (goto p s) = waiters s"
  "cv_waiters (goto p s) = cv_waiters s" "NextTasks (goto p s) = NextTasks s" "RunningTask (goto p s) = RunningTask s"
  "tstate (goto p s) = tstate s" "in_list (goto p s) = in_list s" "spin_success (goto p s) = spin_success s"
  "waiters_lock (goto p s) = waiters_lock s" "cv_lock (goto p s) = cv_lock s" "NextTasks_lock (goto p s) = NextTasks_lock s" "due (goto p s) = due s"
  "at (goto p s) t = (if t = RunningTask s then p else at s t)"
  by (simp_all add: goto_def)

lemma sched_goto:
  assumes s: "sched_ok T s" and "transit p = []" "transit (at s (RunningTask s)) = []"
  shows "sched_ok T (goto p s)"
proof -
  have "in_transit T (goto p s) = in_transit T s" using in_transit_goto [OF s, of p] assms(2,3) by simp
  then have "places T (goto p s) = places T s" by (simp add: places_def)
  moreover have "p \<noteq> Wake t h" for t h using assms(2) by auto
  ultimately show ?thesis using s sched_run [OF s] by (auto simp: sched_ok_def)
qed

lemma sched_pop:
  assumes s: "sched_ok T s" and p: "transit (at s (RunningTask s)) = []"
    and s': "s' = s\<lparr>in_list := (in_list s)(t := False), waiters := q, cv_waiters := c\<rparr>"
    and q: "mset (waiters s) + mset (cv_waiters s) = {#t#} + mset q + mset c"
  shows "sched_ok T (goto (Wake t h) s')"
proof -
  have r: "RunningTask s' = RunningTask s" "at s' = at s" by (simp_all add: s')
  have tr: "in_transit T (goto (Wake t h) s') = in_transit T s + {#t#}"
    using in_transit_goto [OF s, of "Wake t h"] p by (simp add: s' goto_def in_transit_def)
  have "places T (goto (Wake t h) s') = {#RunningTask s#} + mset (NextTasks s) + ({#t#} + mset q + mset c) + in_transit T s"
    unfolding places_def tr by (simp add: s')
  also have "\<dots> = places T s" unfolding places_def q [symmetric] by simp
  finally show ?thesis using s sched_run [OF s] by (auto simp: sched_ok_def s')
qed

lemma sched_unblock:
  assumes s: "sched_ok T s" and "locks_ok s" and p: "transit (at s (RunningTask s)) = t # q" and p': "transit p = q"
    and nw: "\<And>u h. p \<noteq> Wake u h"
    and s0: "s0 = s\<lparr>in_list := (in_list s)(t := False)\<rparr>"
  obtains s' where "unblock t s0 = Some s'" "sched_ok T (goto p s')" "locks_ok s'" "locked s' = locked s" "owner s' = owner s"
    "at s' = at s" "RunningTask s' = RunningTask s"
proof
  let ?s = "s0\<lparr>NextTasks := NextTasks s @ [t], tstate := (tstate s)(t := TS_RUNNING), in_list := (in_list s)(t := True)\<rparr>"
  have r: "RunningTask s \<in> T" using sched_run [OF s] by simp
  have t: "t \<in> set (transit (at s (RunningTask s)))" using p by simp
  note ta = transit_apart [OF s r t]
  show "unblock t s0 = Some ?s" using ta assms(2) by (simp add: unblock_eq locks_ok_def s0)
  have "in_transit T (goto p ?s) + {#t#} = in_transit T s"
    using in_transit_goto [OF s, of p] p p' by (simp add: goto_def in_transit_def s0)
  then have "places T (goto p ?s) = places T s" unfolding places_def by (simp add: s0)
  moreover have "u = RunningTask s" if "u \<in> T" "at s u = Wake t h" for u h
    using transit_unique [OF s that(1) r _ t] that(2) by simp
  ultimately show "sched_ok T (goto p ?s)" using s sched_run [OF s] ta nw by (auto simp: sched_ok_def s0)
  show "locks_ok ?s" using assms(2) by (simp add: locks_ok_def s0)
qed (simp_all add: s0)

lemma blocked_field:
  assumes "sched_ok T s" "t \<in> set (waiters s) \<or> t \<in> set (cv_waiters s)"
  shows "tstate s t = TS_BLOCKED"
proof -
  have "t \<in> T" "t \<noteq> RunningTask s" "t \<notin> set (NextTasks s)" using queues_apart [OF assms(1)] assms(2) by auto
  then show ?thesis using assms(1) by (cases "tstate s t") (auto simp: sched_ok_def)
qed

lemma next_running: "sched_ok T s \<Longrightarrow> NextTasks s = n # ns \<Longrightarrow> tstate s n = TS_RUNNING \<and> n \<noteq> RunningTask s"
  using queues_apart [of T s] by (auto simp: sched_ok_def)

lemma cv_head: "sched_ok T s \<Longrightarrow> cv_waiters s = t # q \<Longrightarrow> tstate s t = TS_BLOCKED \<and> t \<noteq> RunningTask s"
  using blocked_field [of T s t] queues_apart(1) [of T s] by auto

lemma sched_woken:
  assumes s: "sched_ok T s"
  shows "sched_ok T (woken s)"
proof (cases "due s \<and> cv_waiters s \<noteq> []")
  case True
  then obtain t q where c: "cv_waiters s = t # q" by (cases "cv_waiters s") auto
  let ?w = "s\<lparr>cv_waiters := q, NextTasks := NextTasks s @ [t], tstate := (tstate s)(t := TS_RUNNING), in_list := (in_list s)(t := True)\<rparr>"
  have "places T ?w = places T s" by (simp add: places_def in_transit_def c)
  moreover have "at s u \<noteq> Wake t h" if "u \<in> T" for u h using transit_apart(4) [OF s that, of t] c by auto
  ultimately have "sched_ok T ?w" using s cv_head [OF s c] by (auto simp: sched_ok_def)
  moreover have "woken s = ?w\<lparr>due := False\<rparr>" using True c by (simp add: woken_def)
  ultimately show ?thesis by simp
next
  case False
  then show ?thesis using s by (auto simp: woken_def split: list.split)
qed

lemma sched_switch:
  assumes "sched_ok T s" and "locks_ok s"
  obtains n q where "NextTasks (woken s) @ [RunningTask s] = n # q"
    "switch_task s = Some ((woken s)\<lparr>NextTasks := q, RunningTask := n, in_list := (in_list (woken s))(RunningTask s := True, n := False)\<rparr>)"
    "sched_ok T ((woken s)\<lparr>NextTasks := q, RunningTask := n, in_list := (in_list (woken s))(RunningTask s := True, n := False)\<rparr>)"
proof -
  define w where "w = woken s"
  have s: "sched_ok T w" and rw: "RunningTask w = RunningTask s" using sched_woken [OF assms(1)] by (simp_all add: w_def)
  obtain n q where nq: "NextTasks w @ [RunningTask w] = n # q" by (cases "NextTasks w @ [RunningTask w]") auto
  note r = sched_run [OF s]
  have set: "insert n (set q) = insert (RunningTask w) (set (NextTasks w))" using arg_cong [OF nq, of set] by simp
  then have "n = RunningTask w \<or> n \<in> set (NextTasks w)" by blast
  then have n: "n \<in> T" "tstate w n = TS_RUNNING" using queues_apart(2) [OF s] r s by (auto simp: sched_ok_def)
  let ?s = "w\<lparr>NextTasks := q, RunningTask := n, in_list := (in_list w)(RunningTask w := True, n := False)\<rparr>"
  have "places T ?s = places T w"
    using arg_cong [OF nq, of mset] by (simp add: places_def in_transit_def)
  moreover have "t \<noteq> RunningTask w" if "u \<in> T" "at w u = Wake t h" for t u h
    using transit_apart(1) [OF s that(1)] that(2) by simp
  moreover have "t = n \<or> t \<in> set q \<longleftrightarrow> t = RunningTask w \<or> t \<in> set (NextTasks w)" for t using set by blast
  ultimately have "sched_ok T ?s" using s n by (simp add: sched_ok_def) blast
  moreover have "switch_task s = switch_next w"
    unfolding w_def using assms(2) cv_head [OF assms(1)] by (intro switch_task_woken) (auto simp: locks_ok_def)
  moreover have "switch_next w = Some ?s"
    using switch_next_eq [of w n q] assms(2) r nq n(2) by (simp add: locks_ok_def w_def)
  ultimately show thesis using that nq unfolding w_def [symmetric] rw by simp
qed

lemma sched_block:
  assumes s: "sched_ok T s" and n: "NextTasks s = n # ns"
    and p: "at s (RunningTask s) = Cas Slow \<or> at s (RunningTask s) = Lock"
    and s': "s' = s\<lparr>waiters := q, cv_waiters := c\<rparr>"
    and q: "mset q + mset c = mset (waiters s) + mset (cv_waiters s) + {#RunningTask s#}"
  shows "sched_ok T (block_on n ns s')"
proof -
  note r = sched_run [OF s] and d = queues_apart [OF s]
  have nT: "n \<in> T" "n \<noteq> RunningTask s" "RunningTask s \<notin> set ns" "n \<notin> set ns" using d n by auto
  have "places T (block_on n ns s') = {#n#} + mset ns + (mset q + mset c) + in_transit T s"
    by (simp add: places_def block_on_def s' in_transit_def)
  also have "\<dots> = places T s" unfolding q by (simp add: places_def n)
  finally have "places T (block_on n ns s') = places T s" .
  moreover have "t \<noteq> RunningTask s" if "u \<in> T" "at s u = Wake t h" for t u h
    using transit_apart(1) [OF s that(1)] that(2) by simp
  ultimately show ?thesis using s nT p n by (auto simp: sched_ok_def block_on_def s')
qed

subsection \<open>The mutex keeps its invariant\<close>

lemma mutex_ok_cong:
  "locked s' = locked s \<Longrightarrow> owner s' = owner s \<Longrightarrow> at s' = at s \<Longrightarrow> mutex_ok T s' = mutex_ok T s"
  by (simp add: mutex_ok_def)

lemma mutex_goto:
  assumes "mutex_ok T s" "holds p = holds (at s (RunningTask s))" "owns p = owns (at s (RunningTask s))"
  shows "mutex_ok T (goto p s)"
proof -
  have h: "holds (at (goto p s) t) = holds (at s t)" "owns (at (goto p s) t) = owns (at s t)" for t
    using assms(2,3) by auto
  show ?thesis using assms(1) unfolding mutex_ok_def h by simp
qed

lemma owns_holds: "owns p \<Longrightarrow> holds p"
  by (simp add: owns_def)

lemma mutex_held_iff:
  assumes "r \<in> T" "holds (at s r)"
  shows "mutex_ok T s \<longleftrightarrow> locked s \<and> (\<forall>t\<in>T. t \<noteq> r \<longrightarrow> \<not> holds (at s t)) \<and> owner s = (if owns (at s r) then Some r else None)"
    (is "_ \<longleftrightarrow> _ \<and> ?others \<and> ?own")
proof -
  have one: "(\<forall>t\<in>T. \<forall>u\<in>T. holds (at s t) \<and> holds (at s u) \<longrightarrow> t = u) \<longleftrightarrow> ?others"
    using assms by (intro iffI ballI impI) metis+
  have "(\<forall>t. owner s = Some t \<longleftrightarrow> t \<in> T \<and> owns (at s t)) \<longleftrightarrow> ?own" if o: ?others
  proof -
    have "t \<in> T \<and> owns (at s t) \<longleftrightarrow> t = r \<and> owns (at s r)" for t using o assms owns_holds by metis
    then show ?thesis by (cases "owner s") auto
  qed
  then show ?thesis using assms unfolding mutex_ok_def one by blast
qed

lemma mutex_free_iff:
  assumes "\<forall>t\<in>T. \<not> holds (at s t)"
  shows "mutex_ok T s \<longleftrightarrow> \<not> locked s \<and> owner s = None"
proof -
  have "\<not> (t \<in> T \<and> owns (at s t))" for t using assms owns_holds by blast
  then show ?thesis using assms by (cases "owner s") (auto simp: mutex_ok_def)
qed

lemma mutex_acquire:
  assumes "mutex_ok T s" "\<not> locked s" "RunningTask s \<in> T"
  shows "mutex_ok T (goto (SetOwner site) (s\<lparr>locked := True\<rparr>))"
proof -
  have f: "\<forall>t\<in>T. \<not> holds (at s t)" using assms(1,2) unfolding mutex_ok_def by blast
  have "owner s = None" using assms(1) mutex_free_iff [OF f] by blast
  then show ?thesis using mutex_held_iff [OF assms(3), of "goto (SetOwner site) (s\<lparr>locked := True\<rparr>)"] f
    by (simp add: owns_def)
qed

lemma mutex_set_owner:
  assumes "mutex_ok T s" "at s (RunningTask s) = SetOwner site" "RunningTask s \<in> T" "owns p"
  shows "mutex_ok T (goto p (set_owner s))"
proof -
  have "holds (at s (RunningTask s))" using assms(2) by simp
  from iffD1 [OF mutex_held_iff [OF assms(3) this] assms(1)]
  show ?thesis using mutex_held_iff [OF assms(3), of "goto p (set_owner s)"] assms(4)
    by (simp add: set_owner_def cur_task_def owns_holds)
qed

lemma mutex_drop_owner:
  assumes "mutex_ok T s" "at s (RunningTask s) = Unlock" "RunningTask s \<in> T"
  shows "mutex_ok T (goto UnlockCas (s\<lparr>owner := None\<rparr>))"
proof -
  have "holds (at s (RunningTask s))" using assms(2) by simp
  from iffD1 [OF mutex_held_iff [OF assms(3) this] assms(1)]
  show ?thesis using mutex_held_iff [OF assms(3), of "goto UnlockCas (s\<lparr>owner := None\<rparr>)"]
    by (simp add: owns_def)
qed

lemma mutex_release:
  assumes "mutex_ok T s" "holds (at s (RunningTask s))" "RunningTask s \<in> T" "\<not> holds p"
  shows "mutex_ok T (goto p (s\<lparr>owner := None, locked := False\<rparr>))"
proof -
  from iffD1 [OF mutex_held_iff [OF assms(3,2)] assms(1)]
  show ?thesis using assms(4) by (subst mutex_free_iff) simp_all
qed

lemma mutex_holder:
  assumes "mutex_ok T s" "RunningTask s \<in> T"
  shows "holds (at s (RunningTask s)) \<Longrightarrow> locked s"
    and "\<not> owns (at s (RunningTask s)) \<Longrightarrow> owner s \<noteq> Some (RunningTask s)"
    and "at s (RunningTask s) = UnlockCas \<Longrightarrow> owner s = None"
  using assms mutex_held_iff [OF assms(2), of s] by (auto simp: mutex_ok_def owns_def)

subsection \<open>Every step keeps the invariant\<close>

lemma locks_ok_goto [simp]: "locks_ok (goto p s) = locks_ok s"
  by (simp add: locks_ok_def)

lemma inv_goto:
  assumes "kinv T s" "holds p = holds (at s (RunningTask s))" "owns p = owns (at s (RunningTask s))"
    "transit p = []" "transit (at s (RunningTask s)) = []"
  shows "kinv T (goto p s)"
  using assms by (simp add: kinv_def mutex_goto sched_goto)

lemma inv_spin_success [simp]: "kinv T (s\<lparr>spin_success := n\<rparr>) = kinv T s"
  by (simp add: kinv_def locks_ok_def mutex_ok_def)

lemma inv_due [simp]: "kinv T (s\<lparr>due := d\<rparr>) = kinv T s"
  by (simp add: kinv_def locks_ok_def mutex_ok_def)

lemma inv_woken: "kinv T s \<Longrightarrow> kinv T (woken s)"
  using sched_woken by (simp add: kinv_def locks_ok_def mutex_ok_def)

lemma inv_switch:
  assumes "kinv T s"
  obtains s' where "switch_task s = Some s'" "kinv T s'"
proof -
  let ?w = "\<lambda>q n. (woken s)\<lparr>NextTasks := q, RunningTask := n, in_list := (in_list (woken s))(RunningTask s := True, n := False)\<rparr>"
  obtain n q where "switch_task s = Some (?w q n)" "sched_ok T (?w q n)"
    using sched_switch assms unfolding kinv_def by blast
  moreover have "kinv T (?w q n)" using assms calculation(2) by (simp add: kinv_def locks_ok_def mutex_ok_def)
  ultimately show thesis using that by blast
qed

text \<open>The steps that change the scheduler or the mutex.\<close>

lemma inv_run: "kinv T s \<Longrightarrow> RunningTask s \<in> T"
  using sched_run by (auto simp: kinv_def)

lemma inv_pop:
  assumes "kinv T s" "at s (RunningTask s) = UnlockPop"
  obtains s' where "task_at ch UnlockPop s = Some s'" "kinv T s'"
proof (cases "waiters s")
  case Nil
  then have "task_at ch UnlockPop s = Some (goto Idle s)" using assms by (simp add: unlock_pop_eq kinv_def locks_ok_def)
  moreover have "kinv T (goto Idle s)" using assms by (simp add: inv_goto owns_def)
  ultimately show ?thesis using that by blast
next
  case (Cons t q)
  let ?s = "s\<lparr>in_list := (in_list s)(t := False), waiters := q, cv_waiters := cv_waiters s\<rparr>"
  have "task_at ch UnlockPop s = Some (goto (Wake t False) ?s)"
    using assms Cons by (cases s) (simp add: unlock_pop_eq kinv_def locks_ok_def)
  moreover have "sched_ok T (goto (Wake t False) ?s)"
    by (rule sched_pop [OF _ _ refl]) (use assms Cons in \<open>simp_all add: kinv_def\<close>)
  moreover have "mutex_ok T (goto (Wake t False) s)" using assms by (simp add: kinv_def mutex_goto owns_def)
  then have "mutex_ok T (goto (Wake t False) ?s)" by (rule mutex_ok_cong [THEN iffD2, rotated 3]) (auto simp: goto_def)
  ultimately show ?thesis using that assms(1) by (simp add: kinv_def locks_ok_def)
qed

lemma owns_back_to [simp]: "owns (back_to h) = h" "holds (back_to h) = h" "transit (back_to h) = []" "back_to h \<noteq> Wake t b"
  by (simp_all add: back_to_def owns_def)

lemma inv_cv_pop:
  assumes "kinv T s" "at s (RunningTask s) = NotifyOne h"
  obtains s' where "task_at ch (NotifyOne h) s = Some s'" "kinv T s'"
proof (cases "cv_waiters s")
  case Nil
  then have "task_at ch (NotifyOne h) s = Some (goto (back_to h) s)" using assms by (simp add: cv_pop_eq kinv_def locks_ok_def)
  moreover have "kinv T (goto (back_to h) s)" using assms by (intro inv_goto) (simp_all, simp add: owns_def)
  ultimately show ?thesis using that by blast
next
  case (Cons t q)
  let ?s = "s\<lparr>in_list := (in_list s)(t := False), waiters := waiters s, cv_waiters := q\<rparr>"
  have "task_at ch (NotifyOne h) s = Some (goto (Wake t h) ?s)"
    using assms Cons by (cases s) (simp add: cv_pop_eq kinv_def locks_ok_def)
  moreover have "sched_ok T (goto (Wake t h) ?s)"
    by (rule sched_pop [OF _ _ refl]) (use assms Cons in \<open>simp_all add: kinv_def\<close>)
  moreover have "mutex_ok T (goto (Wake t h) s)" using assms by (intro mutex_goto) (simp_all add: kinv_def owns_def)
  then have "mutex_ok T (goto (Wake t h) ?s)" by (rule mutex_ok_cong [THEN iffD2, rotated 3]) (auto simp: goto_def)
  ultimately show ?thesis using that assms(1) by (simp add: kinv_def locks_ok_def)
qed

lemma inv_wake:
  assumes "kinv T s" "transit (at s (RunningTask s)) = t # q" "transit p = q" "\<And>u h. p \<noteq> Wake u h"
    "holds p = holds (at s (RunningTask s))" "owns p = owns (at s (RunningTask s))"
  obtains s' where "unblock t (s\<lparr>in_list := (in_list s)(t := False)\<rparr>) = Some s'" "kinv T (goto p s')"
proof -
  have s: "sched_ok T s" "locks_ok s" "mutex_ok T s" using assms(1) by (auto simp: kinv_def)
  obtain s' where s': "unblock t (s\<lparr>in_list := (in_list s)(t := False)\<rparr>) = Some s'" "sched_ok T (goto p s')" "locks_ok s'"
    "locked s' = locked s" "owner s' = owner s" "at s' = at s" "RunningTask s' = RunningTask s"
    by (rule sched_unblock [OF s(1,2) assms(2,3) assms(4) refl])
  moreover have "mutex_ok T s'" using s(3) mutex_ok_cong [OF s'(4-6)] by simp
  then have "mutex_ok T (goto p s')" using assms(5,6) s' by (intro mutex_goto) auto
  ultimately show thesis using that by (simp add: kinv_def)
qed

lemma block_on_mutex: "mutex_ok T (block_on n ns s) = mutex_ok T s" "locks_ok (block_on n ns s) = locks_ok s"
  by (simp_all add: block_on_def mutex_ok_def locks_ok_def)

lemma inv_lock_block:
  assumes i: "kinv T s" and p: "at s (RunningTask s) = Cas Slow"
  shows "case lock_block s of None \<Rightarrow> NextTasks s = [] | Some s' \<Rightarrow> kinv T s'"
proof -
  have s: "sched_ok T s" "locks_ok s" using i by (auto simp: kinv_def)
  have w: "sched_ok T (woken s)" "locks_ok (woken s)" "mutex_ok T (woken s)" using inv_woken [OF i] by (auto simp: kinv_def)
  let ?s = "(woken s)\<lparr>waiters := waiters s @ [RunningTask s], cv_waiters := cv_waiters (woken s)\<rparr>"
  have "sched_ok T (block_on n ns ?s)" if "NextTasks (woken s) = n # ns" for n ns
    by (rule sched_block [OF w(1) that _ refl]) (use p in simp_all)
  then have "kinv T (block_on n ns ((woken s)\<lparr>waiters := waiters s @ [RunningTask s]\<rparr>))" if "NextTasks (woken s) = n # ns" for n ns
    using that w by (simp add: kinv_def block_on_mutex) (simp add: locks_ok_def mutex_ok_def)
  moreover have "NextTasks s = []" if "NextTasks (woken s) = []" using that by (auto simp: woken_def split: list.splits if_splits)
  ultimately show ?thesis
    using lock_block_eq [of s] s(2) sched_run [OF s(1)] next_running [OF w(1)] cv_head [OF s(1)]
    by (simp add: locks_ok_def split: list.split)
qed

lemma inv_cv_block:
  assumes i: "kinv T s" and p: "at s (RunningTask s) = Lock" and n: "NextTasks s = n # ns"
  shows "kinv T (block_on n ns (s\<lparr>cv_waiters := cv_waiters s @ [RunningTask s]\<rparr>))"
proof -
  have s: "sched_ok T s" "locks_ok s" "mutex_ok T s" using i by (auto simp: kinv_def)
  let ?s = "s\<lparr>waiters := waiters s, cv_waiters := cv_waiters s @ [RunningTask s]\<rparr>"
  have "sched_ok T (block_on n ns ?s)"
    by (rule sched_block [OF s(1) n _ refl]) (use p in simp_all)
  then show ?thesis using s by (simp add: kinv_def block_on_mutex) (simp add: locks_ok_def mutex_ok_def)
qed

text \<open>\<open>unlock\<close> inside \<open>CV::wait\<close>.\<close>

lemma inv_mutex_unlock:
  assumes i: "kinv T s" and p: "at s (RunningTask s) = Wait"
  obtains s' where "mutex_unlock (goto Lock s) = Some s'" "kinv T s'"
    "at s' (RunningTask s') = Lock" "NextTasks s' = [] \<longrightarrow> NextTasks s = [] \<and> waiters s = []"
proof -
  let ?u = "goto Lock (s\<lparr>owner := None, locked := False\<rparr>)"
  have s: "sched_ok T s" "locks_ok s" "mutex_ok T s" using i by (auto simp: kinv_def)
  have r: "RunningTask s \<in> T" using sched_run [OF s(1)] by simp
  have m: "mutex_ok T ?u" using mutex_release [OF s(3) _ r] p by simp
  have l: "locked s" using mutex_holder(1) [OF s(3) r] p by simp
  have eq: "mutex_unlock (goto Lock s) =
    (case waiters s of [] \<Rightarrow> Some ?u
     | t # q \<Rightarrow> Some (?u\<lparr>waiters := q, NextTasks := NextTasks s @ [t],
                            tstate := (tstate s)(t := TS_RUNNING), in_list := (in_list s)(t := True)\<rparr>))"
    using s(2) l blocked_field [OF s(1)]
    by (subst mutex_unlock_eq) (auto simp: locks_ok_def goto_def split: list.split)
  show thesis
  proof (cases "waiters s")
    case Nil
    have "sched_ok T ?u" using sched_goto [of T "s\<lparr>owner := None, locked := False\<rparr>" Lock] s(1) p by simp
    then have "kinv T ?u" using m s(2) by (simp add: kinv_def locks_ok_def)
    then show thesis using that eq Nil by simp
  next
    case (Cons t q)
    let ?w = "s\<lparr>in_list := (in_list s)(t := False), waiters := q, cv_waiters := cv_waiters s\<rparr>"
    let ?v = "goto (Wake t False) ?w"
    have v: "sched_ok T ?v" by (rule sched_pop [OF s(1) _ refl]) (use p Cons in simp_all)
    have "locks_ok ?v" "transit (at ?v (RunningTask ?v)) = t # []" using s(2) by (simp_all add: locks_ok_def)
    then obtain v' where v': "unblock t (?v\<lparr>in_list := (in_list ?v)(t := False)\<rparr>) = Some v'" "sched_ok T (goto Lock v')"
      "locks_ok v'" by (rule sched_unblock [OF v, where p = Lock]) simp_all
    let ?z = "?u\<lparr>waiters := q, NextTasks := NextTasks s @ [t], tstate := (tstate s)(t := TS_RUNNING), in_list := (in_list s)(t := True)\<rparr>"
    have "\<exists>b ow. ?z = goto Lock v'\<lparr>locked := b, owner := ow\<rparr>"
      using v'(1) s(2) blocked_field [OF s(1), of t] Cons
      by (cases s) (auto simp: unblock_eq locks_ok_def goto_def)
    then have "sched_ok T ?z" "locks_ok ?z" using v'(2,3) s(2) by (auto simp: locks_ok_def)
    moreover have "mutex_ok T ?z" using m by (simp add: mutex_ok_def)
    ultimately show thesis using that eq Cons by (simp add: kinv_def)
  qed
qed

lemma inv_cv_wait:
  assumes i: "kinv T s" and p: "at s (RunningTask s) = Wait"
  shows "case cv_wait_block (goto Lock s) of
      None \<Rightarrow> NextTasks s = [] \<or> due s \<and> cv_waiters s = []
    | Some s' \<Rightarrow> kinv T s' \<and> \<not> (due s \<and> cv_waiters s = [])"
proof -
  let ?l = "\<lparr>sl_locked = True, sl_owner = Some (RunningTask s)\<rparr>"
  have s: "sched_ok T s" "locks_ok s" "mutex_ok T s" using i by (auto simp: kinv_def)
  have l: "locked s" using mutex_holder(1) [OF s(3)] sched_run [OF s(1)] p by simp
  obtain s' where s': "mutex_unlock (goto Lock s) = Some s'" "kinv T s'"
    "at s' (RunningTask s') = Lock" "NextTasks s' = [] \<longrightarrow> NextTasks s = [] \<and> waiters s = []"
    by (rule inv_mutex_unlock [OF i p])
  have r: "RunningTask s' = RunningTask s" "mutex_unlock (goto Lock s\<lparr>cv_lock := ?l\<rparr>) = Some (s'\<lparr>cv_lock := ?l\<rparr>)"
    "due s' = due s" "cv_waiters s' = cv_waiters s"
    using s'(1) s(2) l blocked_field [OF s(1)] mutex_unlock_eq [of "goto Lock s"] mutex_unlock_eq [of "goto Lock s\<lparr>cv_lock := ?l\<rparr>"]
    by (auto simp: locks_ok_def split: list.splits)
  have k: "sched_ok T s'" "locks_ok s'" using s'(2) by (auto simp: kinv_def)
  have w: "kinv T (woken s')" "sched_ok T (woken s')" using inv_woken [OF s'(2)] by (auto simp: kinv_def)
  have "cv_wait_block (goto Lock s) = (if due s' \<and> cv_waiters s' = [] then None else case NextTasks (woken s') of [] \<Rightarrow> None
     | n # ns \<Rightarrow> Some (block_on n ns ((woken s')\<lparr>cv_waiters := cv_waiters (woken s') @ [RunningTask s']\<rparr>)))"
    using cv_block_eq [of s'] k(2) sched_run [OF k(1)] next_running [OF w(2)] cv_head [OF k(1)] s(2) r
    by (simp add: cv_wait_block_def spin_simps locks_ok_def)
  moreover have "kinv T (block_on n ns ((woken s')\<lparr>cv_waiters := cv_waiters (woken s') @ [RunningTask s']\<rparr>))"
    if "NextTasks (woken s') = n # ns" for n ns using inv_cv_block [OF w(1) _ that] s'(3) by simp
  moreover have "NextTasks s' = []" if "NextTasks (woken s') = []" using that by (auto simp: woken_def split: list.splits if_splits)
  ultimately show ?thesis using s'(4) r(3,4) by (auto split: list.split)
qed

lemma inv_notify_all:
  assumes i: "kinv T s" and p: "at s (RunningTask s) = NotifyAll h"
  shows "cv_swap s = Some (cv_waiters s, s\<lparr>cv_waiters := []\<rparr>)" "kinv T (goto (WakeAll (cv_waiters s) h) (s\<lparr>cv_waiters := []\<rparr>))"
proof -
  let ?s = "s\<lparr>cv_waiters := []\<rparr>" and ?p = "WakeAll (cv_waiters s) h"
  have s: "sched_ok T s" "locks_ok s" "mutex_ok T s" using i by (auto simp: kinv_def)
  show "cv_swap s = Some (cv_waiters s, ?s)" using s(2) by (simp add: cv_swap_eq locks_ok_def)
  have "in_transit T (goto ?p ?s) = in_transit T s + mset (cv_waiters s)"
    using in_transit_goto [OF s(1), of ?p] p by (simp add: goto_def in_transit_def)
  then have "places T (goto ?p ?s) = places T s" by (simp add: places_def)
  then have "sched_ok T (goto ?p ?s)" using s(1) sched_run [OF s(1)] by (auto simp: sched_ok_def)
  moreover have "mutex_ok T (goto ?p s)" using s(3) p by (intro mutex_goto) (simp_all add: owns_def)
  then have "mutex_ok T (goto ?p ?s)" by (rule mutex_ok_cong [THEN iffD2, rotated 3]) (auto simp: goto_def)
  ultimately show "kinv T (goto ?p ?s)" using s(2) by (simp add: kinv_def locks_ok_def)
qed

lemma inv_cas:
  assumes "kinv T s" "at s (RunningTask s) = Cas site"
  shows "\<exists>s'. task_at ch (Cas site) s = Some s' \<and> kinv T s'"
proof (cases "locked s")
  case True
  have "kinv T (goto (after_try_lock False site) s)"
    using assms by (intro inv_goto) (cases site; simp add: owns_def)+
  then show ?thesis using True by (simp add: try_lock_cas_def)
next
  case False
  have "sched_ok T (goto (SetOwner site) (s\<lparr>locked := True\<rparr>))" using assms by (intro sched_goto) (simp_all add: kinv_def)
  moreover have "mutex_ok T (goto (SetOwner site) (s\<lparr>locked := True\<rparr>))"
    using mutex_acquire assms False inv_run by (simp add: kinv_def)
  ultimately show ?thesis using False assms by (simp add: try_lock_cas_def kinv_def locks_ok_def)
qed

lemma inv_set_owner:
  assumes "kinv T s" "at s (RunningTask s) = SetOwner site"
  shows "kinv T (goto (after_try_lock True site) (set_owner s))"
proof -
  have p: "owns (after_try_lock True site)" "transit (after_try_lock True site) = []" by (cases site; simp add: owns_def)+
  have "sched_ok T (goto (after_try_lock True site) (set_owner s))"
    using assms p by (intro sched_goto) (simp_all add: kinv_def set_owner_def)
  then show ?thesis using mutex_set_owner [OF _ assms(2) _ p(1)] inv_run [OF assms(1)] assms(1)
    by (simp add: kinv_def locks_ok_def set_owner_def)
qed

lemma inv_unlock:
  assumes "kinv T s"
  shows "at s (RunningTask s) = Unlock \<Longrightarrow> kinv T (goto UnlockCas (s\<lparr>owner := None\<rparr>))"
    and "at s (RunningTask s) = UnlockCas \<Longrightarrow> locked s \<and> kinv T (goto UnlockPop (s\<lparr>locked := False\<rparr>))"
proof -
  note r = inv_run [OF assms]
  have s: "sched_ok T s" "locks_ok s" "mutex_ok T s" using assms by (auto simp: kinv_def)
  show "kinv T (goto UnlockCas (s\<lparr>owner := None\<rparr>))" if p: "at s (RunningTask s) = Unlock"
    using mutex_drop_owner [OF s(3) p r] sched_goto [of T "s\<lparr>owner := None\<rparr>" UnlockCas] s p
    by (simp add: kinv_def locks_ok_def)
  show "locked s \<and> kinv T (goto UnlockPop (s\<lparr>locked := False\<rparr>))" if p: "at s (RunningTask s) = UnlockCas"
  proof -
    have "s\<lparr>owner := None\<rparr> = s" using mutex_holder(3) [OF s(3) r p] by (cases s) simp
    then have "mutex_ok T (goto UnlockPop (s\<lparr>locked := False\<rparr>))" using mutex_release [OF s(3) _ r, of UnlockPop] p by simp
    then show ?thesis using mutex_holder(1) [OF s(3) r] sched_goto [of T "s\<lparr>locked := False\<rparr>" UnlockPop] s p
      by (simp add: kinv_def locks_ok_def)
  qed
qed

lemma inv_task_step:
  assumes i: "kinv T s"
  shows "case task_step ch s of
      None \<Rightarrow> NextTasks s = [] \<and> at s (RunningTask s) \<in> {Block, Wait} \<or> at s (RunningTask s) = Wait \<and> due s \<and> cv_waiters s = []
    | Some s' \<Rightarrow> kinv T s' \<and> \<not> (at s (RunningTask s) = Wait \<and> due s \<and> cv_waiters s = [])"
proof (cases "at s (RunningTask s)")
  case Idle
  then show ?thesis using i by (auto simp: task_step_def inv_goto owns_def split: choice.split)
next
  case Lock
  moreover have "owner s \<noteq> Some (RunningTask s)"
    using mutex_holder(2) [of T s] i inv_run [OF i] Lock by (simp add: kinv_def owns_def)
  ultimately show ?thesis using i by (simp add: task_step_def inv_goto owns_def cur_task_def)
next
  case (Cas site)
  obtain s' where "task_at ch (Cas site) s = Some s'" "kinv T s'" using inv_cas [OF i Cas] by blast
  then show ?thesis by (simp only: task_step_def Cas option.case pc.distinct simp_thms)
next
  case (SetOwner site)
  then show ?thesis using inv_set_owner [OF i SetOwner] by (simp add: task_step_def)
next
  case Yield
  have "kinv T (goto Spin s)" using i Yield by (simp add: inv_goto owns_def)
  then obtain s' where "switch_task (goto Spin s) = Some s'" "kinv T s'" by (rule inv_switch)
  then show ?thesis using Yield by (simp add: task_step_def yield_self_def)
next
  case Block
  have "kinv T (goto (Cas Slow) s)" using i Block by (simp add: inv_goto owns_def)
  from inv_lock_block [OF this] show ?thesis using Block by (auto simp: task_step_def split: option.splits)
next
  case Unlock
  then show ?thesis using inv_unlock(1) [OF i] by (simp add: task_step_def)
next
  case UnlockCas
  then show ?thesis using inv_unlock(2) [OF i] by (simp add: task_step_def unlock_cas_def)
next
  case UnlockPop
  obtain s' where "task_at ch UnlockPop s = Some s'" "kinv T s'" by (rule inv_pop [OF i UnlockPop])
  then show ?thesis by (simp only: task_step_def UnlockPop option.case pc.distinct simp_thms)
next
  case Wait
  then show ?thesis using inv_cv_wait [OF i] by (auto simp: task_step_def split: option.splits)
next
  case (NotifyOne h)
  obtain s' where "task_at ch (NotifyOne h) s = Some s'" "kinv T s'" by (rule inv_cv_pop [OF i NotifyOne])
  then show ?thesis by (simp only: task_step_def NotifyOne option.case pc.distinct simp_thms)
next
  case (NotifyAll h)
  then show ?thesis using inv_notify_all [OF i NotifyAll] by (simp add: task_step_def)
next
  case (Wake t h)
  have "sched_ok T s" "RunningTask s \<in> T" using i inv_run [OF i] by (auto simp: kinv_def)
  then have "\<not> in_list s t" using transit_apart(5) [of T s "RunningTask s" t] Wake by (auto simp: sched_ok_def)
  then have "s\<lparr>in_list := (in_list s)(t := False)\<rparr> = s" by (cases s) (simp add: fun_upd_idem)
  moreover obtain s' where "unblock t (s\<lparr>in_list := (in_list s)(t := False)\<rparr>) = Some s'" "kinv T (goto (back_to h) s')"
    by (rule inv_wake [OF i, of t "[]" "back_to h"]) (use Wake in \<open>simp_all, simp add: owns_def\<close>)
  ultimately show ?thesis using Wake by (simp add: task_step_def)
next
  case (WakeAll q h)
  show ?thesis
  proof (cases q)
    case Nil
    have "kinv T (goto (back_to h) s)" using i WakeAll Nil by (intro inv_goto) (simp_all, simp add: owns_def)
    then show ?thesis using WakeAll Nil by (simp add: task_step_def extract_back_def)
  next
    case (Cons t q')
    obtain s' where "unblock t (s\<lparr>in_list := (in_list s)(t := False)\<rparr>) = Some s'" "kinv T (goto (WakeAll q' h) s')"
      by (rule inv_wake [OF i, of t q' "WakeAll q' h"]) (use WakeAll Cons in \<open>simp_all add: owns_def\<close>)
    then show ?thesis using WakeAll Cons by (simp add: task_step_def extract_back_def)
  qed
qed (use i in \<open>auto simp: task_step_def inv_goto owns_def split: choice.split\<close>)

lemma inv_init:
  assumes "distinct (t # ts)"
  shows "kinv (set (t # ts)) (init_state t ts)"
proof -
  have "places (set (t # ts)) (init_state t ts) = mset (t # ts)" by (simp add: places_def init_state_def in_transit_def)
  also have "\<dots> = mset_set (set (t # ts))" using assms by (rule mset_set_set [symmetric])
  finally show ?thesis using assms
    by (simp add: kinv_def sched_ok_def mutex_ok_def locks_ok_def) (auto simp: init_state_def owns_def)
qed

lemma inv_reachable:
  assumes "reachable t ts s" "distinct (t # ts)"
  shows "kinv (set (t # ts)) s"
  using assms(1)
proof (induction rule: reachable.induct)
  case init
  then show ?case using inv_init [OF assms(2)] .
next
  case (next_step s s')
  from next_step.hyps(2) show ?case
  proof (cases rule: step.cases)
    case (run ch)
    then show ?thesis using inv_task_step [OF next_step.IH, of ch] by simp
  next
    case timer
    then show ?thesis using inv_switch [OF next_step.IH] by auto
  next
    case clock
    then show ?thesis using next_step.IH by simp
  qed
qed

section \<open>Runs\<close>

text \<open>A schedule: what the running task does, an interrupt of the timer, or that ten milliseconds have passed.\<close>

datatype event = Run choice | Timer | Clock

fun run_steps :: "event list \<Rightarrow> kstate \<Rightarrow> kstate option" where
  "run_steps [] s = Some s"
| "run_steps (Timer # cs) s = Option.bind (switch_task s) (run_steps cs)"
| "run_steps (Clock # cs) s = run_steps cs (s\<lparr>due := True\<rparr>)"
| "run_steps (Run ch # cs) s = Option.bind (task_step ch s) (run_steps cs)"

lemma run_reachable: "reachable t ts s \<Longrightarrow> run_steps cs s = Some s' \<Longrightarrow> reachable t ts s'"
proof (induction cs s rule: run_steps.induct)
  case (2 cs s)
  then obtain s1 where "switch_task s = Some s1" "run_steps cs s1 = Some s'" by (auto simp: bind_eq_Some_conv)
  then show ?case using 2(1,2) by (blast intro: next_step timer)
next
  case (3 cs s)
  then show ?case by (auto intro: next_step clock)
next
  case (4 ch cs s)
  then obtain s1 where "task_step ch s = Some s1" "run_steps cs s1 = Some s'" by (auto simp: bind_eq_Some_conv)
  then show ?case using 4(1,2) by (blast intro: next_step run)
qed simp

section \<open>Properties\<close>

text \<open>
  C3: mutual exclusion.  In every reachable state at most one task is between the
  successful \<open>compare_exchange_strong\<close> of \<open>try_lock\<close> and that of \<open>unlock\<close>, the flag
  \<open>locked\<close> is set exactly when there is one, and \<open>_owner\<close> names the task that is in
  the critical section.
\<close>

theorem mutex_exclusion:
  assumes "distinct (t # ts)" "reachable t ts s"
  shows "(\<forall>u\<in>set (t # ts). \<forall>v\<in>set (t # ts). holds (at s u) \<and> holds (at s v) \<longrightarrow> u = v) \<and>
    (locked s \<longleftrightarrow> (\<exists>u\<in>set (t # ts). holds (at s u))) \<and>
    (\<forall>u\<in>set (t # ts). at s u = Crit \<longrightarrow> owner s = Some u)"
proof -
  have "mutex_ok (set (t # ts)) s" using inv_reachable [OF assms(2,1)] unfolding kinv_def by blast
  moreover have "owns Crit" by (simp add: owns_def)
  ultimately show ?thesis unfolding mutex_ok_def by (simp only:) metis
qed

text \<open>Two tasks compete: the second blocks, the first unlocks and wakes it up.\<close>

definition handover :: "event list" where
  "handover = replicate 3 (Run DoLock) @ [Timer] @ replicate 4 (Run DoLock) @ replicate 5 (Run TimeOver) @ replicate 6 (Run DoUnlock)"

lemma handover_run:
  "\<exists>s. run_steps handover (init_state 0 [1]) = Some s \<and> at s 0 = UnlockPop \<and> waiters s = [1] \<and> tstate s 1 = TS_BLOCKED"
proof -
  have "case run_steps handover (init_state 0 [1]) of None \<Rightarrow> False
    | Some s \<Rightarrow> at s 0 = UnlockPop \<and> waiters s = [1] \<and> tstate s 1 = TS_BLOCKED" by code_simp
  then show ?thesis by (auto split: option.splits)
qed

theorem mutex_exclusion_witness:
  "\<exists>s. reachable 0 [1] s \<and> locked s \<and> owner s = Some 0 \<and> at s 0 = Crit \<and> at s 1 = Decide"
proof -
  let ?run = "replicate 3 (Run DoLock) @ [Timer] @ replicate 3 (Run DoLock) @ [Timer] @ replicate 3 (Run DoLock)"
  have "case run_steps ?run (init_state 0 [1]) of None \<Rightarrow> False | Some s \<Rightarrow> at s 0 = Crit \<and> at s 1 = Decide" by code_simp
  then obtain s where s: "run_steps ?run (init_state 0 [1]) = Some s" "at s 0 = Crit" "at s 1 = Decide"
    by (auto split: option.splits)
  have "reachable 0 [1] s" using run_reachable [OF init s(1)] .
  moreover have "distinct [0 :: nat, 1]" by simp
  ultimately show ?thesis using mutex_exclusion [of 0 "[1]" s] s(2,3) by auto
qed

text \<open>
  C36: the scheduler neither loses nor duplicates a task.  In every reachable state
  each task runs, is in the run queue, in one wait queue, or in the hands of one
  task that is about to unblock it, once and only once; a task is \<open>TS_RUNNING\<close>
  exactly when it runs or is in the run queue; a blocked task does not hold the mutex.
\<close>

theorem tasks_conserved:
  assumes "distinct (t # ts)" "reachable t ts s"
  shows "{#RunningTask s#} + mset (NextTasks s) + mset (waiters s) + mset (cv_waiters s)
      + (\<Sum>u\<in>set (t # ts). mset (transit (at s u))) = mset (t # ts) \<and>
    (\<forall>u\<in>set (t # ts). tstate s u = TS_RUNNING \<longleftrightarrow> u = RunningTask s \<or> u \<in> set (NextTasks s)) \<and>
    (\<forall>u\<in>set (t # ts). tstate s u = TS_BLOCKED \<longrightarrow> \<not> holds (at s u))"
proof -
  have i: "sched_ok (set (t # ts)) s" using inv_reachable [OF assms(2,1)] unfolding kinv_def by blast
  then have "places (set (t # ts)) s = mset (t # ts)" unfolding sched_ok_def using mset_set_set [OF assms(1)] by simp
  moreover have "\<not> holds (at s u)" if "u \<in> set (t # ts)" "tstate s u = TS_BLOCKED" for u
  proof -
    have "at s u = Cas Slow \<or> at s u = Lock" using i that unfolding sched_ok_def by blast
    then show ?thesis by auto
  qed
  ultimately show ?thesis using i unfolding sched_ok_def places_def in_transit_def by blast
qed

theorem tasks_conserved_witness:
  "\<exists>s. reachable 0 [1] s \<and> waiters s = [1] \<and> tstate s 1 = TS_BLOCKED \<and> \<not> holds (at s 1)"
proof -
  obtain s where s: "run_steps handover (init_state 0 [1]) = Some s" "waiters s = [1]" "tstate s 1 = TS_BLOCKED"
    using handover_run by blast
  have r: "reachable 0 [1] s" using run_reachable [OF init s(1)] .
  moreover have "distinct [0 :: nat, 1]" by simp
  ultimately show ?thesis using tasks_conserved [of 0 "[1]" s] s(2,3) by auto
qed



text \<open>
  C38: a wakeup can be lost.  The blocking loop of \<open>lock\<close> tests the mutex before it takes
  \<open>waiters_lock\<close> and does not test it again.  When the timer interrupts it in
  between and the owner unlocks, finding no waiter, the task then blocks on a mutex that is
  free: two tasks reach a state in which the mutex is free, nobody is about to unblock
  anyone, and the second task stays blocked until the first one uses the mutex again.
\<close>

theorem mutex_lost_wakeup:
  "\<exists>s. reachable 0 [1] s \<and> \<not> locked s \<and> waiters s = [1] \<and> tstate s 1 = TS_BLOCKED \<and>
     RunningTask s = 0 \<and> NextTasks s = [] \<and> at s 0 = Idle \<and> at s 1 = Cas Slow"
proof -
  let ?run = "replicate 3 (Run DoLock) @ [Timer] @ replicate 4 (Run DoLock) @ replicate 4 (Run TimeOver) @ [Timer]
    @ replicate 7 (Run DoUnlock) @ [Timer, Run TimeOver]"
  let ?final = "\<lambda>s. \<not> locked s \<and> waiters s = [1] \<and> tstate s 1 = TS_BLOCKED \<and>
     RunningTask s = 0 \<and> NextTasks s = [] \<and> at s 0 = Idle \<and> at s 1 = Cas Slow"
  have "case run_steps ?run (init_state 0 [1]) of None \<Rightarrow> False | Some s \<Rightarrow> ?final s" by code_simp
  then obtain s where s: "run_steps ?run (init_state 0 [1]) = Some s" "?final s" by (auto split: option.splits)
  have "reachable 0 [1] s" using run_reachable [OF init s(1)] .
  with s(2) show ?thesis by blast
qed

end
