(* ===== verification/Kernel_Vfs.thy ===== *)
theory Kernel_Vfs
  imports Kernel_SkipList "HOL-Library.Char_ord" "HOL-Library.List_Lexorder"
begin

text \<open>
  Files as a process sees them: the in-memory file system (\<open>kernel/vfs/MemFs.cpp\<close>),
  the lookup of paths (\<open>Node.cpp\<close>, \<open>Path.cpp\<close>), the table of descriptors and the
  open files (\<open>FDT.cpp\<close>, \<open>File.cpp\<close>), the terminal as a file (\<open>TtyPipe.cpp\<close>),
  \<open>VFSApi.cpp\<close>, and the system calls on descriptors (\<open>arch/x86/syscalls.cpp\<close>).

  The file system is mounted at the root and nothing is mounted in it.  A node of
  it is its inode number: the cache of nodes returns a node of the same inode.
  Directories, inodes and descriptors are kept in the ordered map of the skip list.
  Each operation holds its locks from beginning to end.  \<open>None\<close> is a failed
  assertion, an access outside a vector or through a null pointer, a missing
  return, or waiting for input that does not come.
\<close>

unbundle bit_operations_syntax

section \<open>Paths\<close>

type_synonym path = "string list"

fun str_to_path :: "string \<Rightarrow> string \<Rightarrow> path \<Rightarrow> path" where
  "str_to_path [] buf out = (if length buf > 0 then out @ [buf] else out)"
| "str_to_path (c # cs) buf out =
     (if c = CHR ''/'' then
        (if length buf > 0 then str_to_path cs [] (out @ [buf]) else str_to_path cs buf out)
      else str_to_path cs (buf @ [c]) out)"

definition StrToPath :: "string \<Rightarrow> path" where
  "StrToPath str = (if length str = 0 then [] else str_to_path str [] [])"

definition subvector :: "nat \<Rightarrow> nat \<Rightarrow> 'a list \<Rightarrow> 'a list" where
  "subvector start stop v =
     (if start \<ge> length v then []
      else let stop = (if stop > length v then length v else stop) in take (stop - start) (drop start v))"

section \<open>Inodes\<close>

text \<open>\<open>ino_t\<close> has 16 bits on this target.\<close>

type_synonym ino = "16 word"

datatype inode = FileInode "8 word list" | DirInode "(string, ino) omap"

record memfs =
  top_inode :: ino
  inodes :: "(ino, inode) omap"

definition assign :: "'k \<Rightarrow> 'v \<Rightarrow> ('k, 'v) omap \<Rightarrow> ('k, 'v) omap" where
  "assign k v m = map (\<lambda>(k', v'). (k', if k' = k then v else v')) m"

definition memfs_new :: memfs where
  "memfs_new = \<lparr>top_inode = 2, inodes = emplace 1 (DirInode []) []\<rparr>"

text \<open>\<open>mkdir\<close> and \<open>mkfile\<close> of the directory \<open>d\<close>; they differ in the inode they create.\<close>

definition mk_inode :: "inode \<Rightarrow> ino \<Rightarrow> string \<Rightarrow> memfs \<Rightarrow> (ino \<times> memfs) option" where
  "mk_inode new d name fs =
     (let res = top_inode fs + 1;
          fs = fs\<lparr>top_inode := res, inodes := emplace res new (inodes fs)\<rparr>
      in case map_of (inodes fs) d of
           Some (DirInode es) \<Rightarrow> Some (res, fs\<lparr>inodes := assign d (DirInode (emplace name res es)) (inodes fs)\<rparr>)
         | _ \<Rightarrow> None)"

definition memfs_mkdir :: "ino \<Rightarrow> string \<Rightarrow> memfs \<Rightarrow> (ino \<times> memfs) option" where
  "memfs_mkdir = mk_inode (DirInode [])"

definition memfs_mkfile :: "ino \<Rightarrow> string \<Rightarrow> memfs \<Rightarrow> (ino \<times> memfs) option" where
  "memfs_mkfile = mk_inode (FileInode [])"

text \<open>The loops of \<open>read\<close> and \<open>write\<close>: \<open>n\<close> more bytes at \<open>pos\<close>.\<close>

fun read_loop :: "8 word list \<Rightarrow> 64 word \<Rightarrow> nat \<Rightarrow> 8 word list option" where
  "read_loop dat pos 0 = Some []"
| "read_loop dat pos (Suc n) =
     (if unat pos < length dat then map_option (\<lambda>bs. dat ! unat pos # bs) (read_loop dat (pos + 1) n) else None)"

definition memfs_read :: "8 word list \<Rightarrow> 64 word \<Rightarrow> 64 word \<Rightarrow> 8 word list option" where
  "memfs_read dat start num = (let num = min num (word_of_nat (length dat) - start) in read_loop dat start (unat num))"

function pad_loop :: "nat \<Rightarrow> 8 word list \<Rightarrow> 8 word list" where
  "pad_loop lim dat = (if length dat \<le> lim then pad_loop lim (dat @ [0]) else dat)"
  by auto
termination by (relation "measure (\<lambda>(lim, dat). Suc lim - length dat)") auto

declare pad_loop.simps [simp del]

fun write_loop :: "8 word list \<Rightarrow> 64 word \<Rightarrow> 8 word list \<Rightarrow> 8 word list option" where
  "write_loop dat pos [] = Some dat"
| "write_loop dat pos (b # bs) =
     (if unat pos < length dat then write_loop (dat[unat pos := b]) (pos + 1) bs else None)"

definition memfs_write :: "8 word list \<Rightarrow> 64 word \<Rightarrow> 8 word list \<Rightarrow> 8 word list option" where
  "memfs_write dat start buf = write_loop (pad_loop (unat (start + word_of_nat (length buf))) dat) start buf"

section \<open>Looking up a path\<close>

fun child_named :: "(string \<times> ino) list \<Rightarrow> string \<Rightarrow> ino option" where
  "child_named [] name = None"
| "child_named ((n, i) # es) name = (if n = name then Some i else child_named es name)"

text \<open>The inner \<open>None\<close> is \<open>nullptr\<close>.\<close>

fun traverse :: "memfs \<Rightarrow> ino \<Rightarrow> path \<Rightarrow> ino option option" where
  "traverse fs i [] = Some (Some i)"
| "traverse fs i (p # ps) =
     (case map_of (inodes fs) i of
        Some (DirInode es) \<Rightarrow>
          (case child_named es p of
             None \<Rightarrow> Some None
           | Some j \<Rightarrow> if map_of (inodes fs) j = None then None else traverse fs j ps)
      | Some (FileInode _) \<Rightarrow> Some None
      | None \<Rightarrow> None)"

definition traverse_root :: "memfs \<Rightarrow> path \<Rightarrow> ino option option" where
  "traverse_root fs p = (if map_of (inodes fs) 1 = None then None else traverse fs 1 p)"

section \<open>Open files and descriptors\<close>

datatype vnode = MemNode ino | TtyNode

record ofile =
  of_node :: vnode
  of_pos :: "64 word"
  of_opts :: "32 word"

record vfs =
  memfs :: memfs
  fd_files :: "(int, ofile) omap"
  cur_fd :: int
  tty_in :: "8 word list"
  tty_out :: "8 word list"

definition O_RDONLY :: "32 word" where "O_RDONLY = 0"
definition O_WRONLY :: "32 word" where "O_WRONLY = 1"
definition O_RDWR :: "32 word" where "O_RDWR = 2"
definition O_CREAT :: "32 word" where "O_CREAT = 0x200"

definition new_file :: "vnode \<Rightarrow> 32 word \<Rightarrow> ofile" where
  "new_file n opts = \<lparr>of_node = n, of_pos = 0, of_opts = opts\<rparr>"

definition vfs_new :: "8 word list \<Rightarrow> vfs" where
  "vfs_new input = \<lparr>memfs = memfs_new,
     fd_files = emplace 1 (new_file TtyNode O_RDWR) (emplace 0 (new_file TtyNode O_RDONLY) []),
     cur_fd = 10, tty_in = input, tty_out = []\<rparr>"

definition fdt_close :: "int \<Rightarrow> vfs \<Rightarrow> vfs" where
  "fdt_close fd v = (if map_of (fd_files v) fd \<noteq> None then v\<lparr>fd_files := erase fd (fd_files v)\<rparr> else v)"

definition fdt_get :: "int \<Rightarrow> vfs \<Rightarrow> ofile option" where
  "fdt_get fd v = map_of (fd_files v) fd"

definition file_dir :: "ofile \<Rightarrow> vfs \<Rightarrow> ino option" where
  "file_dir f v =
     (case of_node f of
        MemNode i \<Rightarrow> (case map_of (inodes (memfs v)) i of Some (DirInode _) \<Rightarrow> Some i | _ \<Rightarrow> None)
      | TtyNode \<Rightarrow> None)"

lemma creat_bit: "x AND O_CREAT = (if bit x 9 then O_CREAT else 0)"
proof -
  have e: "O_CREAT = push_bit 9 1" by (simp add: O_CREAT_def)
  have "bit O_CREAT n \<longleftrightarrow> n = 9" if "n < 32" for n
    unfolding e bit_push_bit_iff bit_1_iff using that by auto
  then show ?thesis by (auto intro!: bit_word_eqI simp: bit_and_iff)
qed

lemma creat_cleared: "x AND O_CREAT \<noteq> 0 \<Longrightarrow> (x XOR O_CREAT) AND O_CREAT = 0"
  unfolding creat_bit by (auto simp: bit_simps O_CREAT_def split: if_splits)

lemma rdwr_creat: "O_RDWR AND O_CREAT = 0"
  by (simp add: O_RDWR_def O_CREAT_def)

text \<open>
  \<open>FDT::open\<close> and \<open>VFSApi::touch\<close> call each other; \<open>touch\<close> opens the directory without
  \<open>O_CREAT\<close>, and \<open>open\<close> drops \<open>O_CREAT\<close> before it tries again.  \<open>fdt_emplace\<close> adds the
  descriptor, \<open>vfs_in_dir\<close> is the body of \<open>touch\<close> and \<open>mkdir\<close> once the directory is open.
\<close>

definition fdt_emplace :: "ino \<Rightarrow> 32 word \<Rightarrow> vfs \<Rightarrow> int \<times> vfs" where
  "fdt_emplace n opts v =
     (let v = v\<lparr>fd_files := emplace (cur_fd v) (new_file (MemNode n) opts) (fd_files v), cur_fd := cur_fd v + 1\<rparr>
      in (cur_fd v - 1, v))"

definition vfs_in_dir :: "(ino \<Rightarrow> string \<Rightarrow> memfs \<Rightarrow> (ino \<times> memfs) option) \<Rightarrow> path \<Rightarrow> int \<Rightarrow> vfs \<Rightarrow> (bool \<times> vfs) option" where
  "vfs_in_dir mk p fd v =
     (if fd = -1 then Some (False, fdt_close fd v)
      else case fdt_get fd v of
        None \<Rightarrow> None
      | Some f \<Rightarrow>
          (case file_dir f v of
             None \<Rightarrow> Some (False, fdt_close fd v)
           | Some d \<Rightarrow>
               if p = [] then None
               else map_option (\<lambda>(i, fs). (True, fdt_close fd (v\<lparr>memfs := fs\<rparr>))) (mk d (last p) (memfs v))))"

function fdt_open :: "path \<Rightarrow> 32 word \<Rightarrow> vfs \<Rightarrow> (int \<times> vfs) option"
  and vfs_touch :: "path \<Rightarrow> vfs \<Rightarrow> (bool \<times> vfs) option" where
  "fdt_open p opts v =
     (case traverse_root (memfs v) p of
        None \<Rightarrow> None
      | Some (Some n) \<Rightarrow> Some (fdt_emplace n opts v)
      | Some None \<Rightarrow>
          if opts AND O_CREAT \<noteq> 0 then
            (case vfs_touch p v of
               None \<Rightarrow> None
             | Some (False, v) \<Rightarrow> Some (-1, v)
             | Some (True, v) \<Rightarrow> fdt_open p (opts XOR O_CREAT) v)
          else Some (-1, v))"
| "vfs_touch p v =
     Option.bind (fdt_open (subvector 0 (length p - 1) p) O_RDWR v) (\<lambda>(fd, v). vfs_in_dir memfs_mkfile p fd v)"
  by pat_completeness auto

termination
proof (relation "measure (case_sum (\<lambda>(p, opts, v). if opts AND O_CREAT = 0 then 0 else 2) (\<lambda>(p, v). 1))", goal_cases)
  case (3 p opts v)
  then show ?case using creat_cleared by auto
qed (auto simp: rdwr_creat)

declare fdt_open.simps [simp del] vfs_touch.simps [simp del]

definition vfs_mkdir :: "path \<Rightarrow> vfs \<Rightarrow> (bool \<times> vfs) option" where
  "vfs_mkdir p v =
     Option.bind (fdt_open (subvector 0 (length p - 1) p) O_RDWR v) (\<lambda>(fd, v). vfs_in_dir memfs_mkdir p fd v)"

section \<open>Reading and writing\<close>

text \<open>The terminal: \<open>read\<close> stops after a carriage return, which it turns into a newline.\<close>

fun tty_read :: "nat \<Rightarrow> 8 word list \<Rightarrow> (8 word list \<times> 8 word list) option" where
  "tty_read 0 inp = Some ([], inp)"
| "tty_read (Suc n) [] = None"
| "tty_read (Suc n) (c # inp) =
     (if c = 13 then Some ([10], inp) else map_option (\<lambda>(bs, inp). (c # bs, inp)) (tty_read n inp))"

definition tty_write :: "8 word list \<Rightarrow> 8 word list \<Rightarrow> 8 word list" where
  "tty_write buf out = out @ takeWhile (\<lambda>c. c \<noteq> 0) buf"

text \<open>The bytes read, with the file and the state afterwards.\<close>

definition file_read :: "ofile \<Rightarrow> 64 word \<Rightarrow> vfs \<Rightarrow> (8 word list \<times> ofile \<times> vfs) option" where
  "file_read f num v =
     (case of_node f of
        MemNode i \<Rightarrow>
          (case map_of (inodes (memfs v)) i of
             Some (FileInode dat) \<Rightarrow>
               map_option (\<lambda>bs. (bs, f\<lparr>of_pos := of_pos f + word_of_nat (length bs)\<rparr>, v)) (memfs_read dat (of_pos f) num)
           | _ \<Rightarrow> None)
      | TtyNode \<Rightarrow>
          map_option (\<lambda>(bs, inp). (bs, f\<lparr>of_pos := of_pos f + word_of_nat (length bs)\<rparr>, v\<lparr>tty_in := inp\<rparr>)) (tty_read (unat num) (tty_in v)))"

definition file_write :: "ofile \<Rightarrow> 8 word list \<Rightarrow> vfs \<Rightarrow> (64 word \<times> ofile \<times> vfs) option" where
  "file_write f buf v =
     (if of_opts f AND O_WRONLY = 0 \<and> of_opts f AND O_RDWR = 0 then Some (-1, f, v)
      else
        let n = word_of_nat (length buf); f' = f\<lparr>of_pos := of_pos f + n\<rparr>
        in case of_node f of
             MemNode i \<Rightarrow>
               (case map_of (inodes (memfs v)) i of
                  Some (FileInode dat) \<Rightarrow>
                    map_option (\<lambda>dat. (n, f', v\<lparr>memfs := (memfs v)\<lparr>inodes := assign i (FileInode dat) (inodes (memfs v))\<rparr>\<rparr>))
                      (memfs_write dat (of_pos f) buf)
                | _ \<Rightarrow> None)
           | TtyNode \<Rightarrow> Some (n, f', v\<lparr>tty_out := tty_write buf (tty_out v)\<rparr>))"

definition file_seek :: "64 word \<Rightarrow> ofile \<Rightarrow> 64 word \<times> ofile" where
  "file_seek pos f = (pos, f\<lparr>of_pos := pos\<rparr>)"

section \<open>System calls\<close>

definition set_fd :: "int \<Rightarrow> ofile \<Rightarrow> vfs \<Rightarrow> vfs" where
  "set_fd fd f v = v\<lparr>fd_files := assign fd f (fd_files v)\<rparr>"

definition syscall_open :: "string \<Rightarrow> 32 word \<Rightarrow> vfs \<Rightarrow> (int \<times> vfs) option" where
  "syscall_open pathname flags v = fdt_open (StrToPath pathname) flags v"

definition syscall_close :: "int \<Rightarrow> vfs \<Rightarrow> int \<times> vfs" where
  "syscall_close fd v = (1, fdt_close fd v)"

text \<open>The bytes that \<open>read\<close> stores in the buffer; \<open>None\<close> inside for the result -1.\<close>

definition syscall_read :: "int \<Rightarrow> 64 word \<Rightarrow> vfs \<Rightarrow> (8 word list option \<times> vfs) option" where
  "syscall_read fd len v =
     (case fdt_get fd v of
        None \<Rightarrow> Some (None, v)
      | Some f \<Rightarrow> map_option (\<lambda>(bs, f, v). (Some bs, set_fd fd f v)) (file_read f len v))"

definition syscall_write :: "int \<Rightarrow> 8 word list \<Rightarrow> vfs \<Rightarrow> (64 word \<times> vfs) option" where
  "syscall_write fd buf v =
     (case fdt_get fd v of
        None \<Rightarrow> Some (-1, v)
      | Some f \<Rightarrow> map_option (\<lambda>(n, f, v). (n, set_fd fd f v)) (file_write f buf v))"

definition syscall_lseek :: "int \<Rightarrow> 64 word \<Rightarrow> vfs \<Rightarrow> 64 word \<times> vfs" where
  "syscall_lseek fd off v =
     (case fdt_get fd v of
        None \<Rightarrow> (-1, v)
      | Some f \<Rightarrow> (case file_seek off f of (r, f) \<Rightarrow> (r, set_fd fd f v)))"

section \<open>Ordered maps\<close>

abbreviation omap_ok :: "('k :: linorder, 'v) omap \<Rightarrow> bool" where
  "omap_ok m \<equiv> sorted_wrt (<) (map fst m)"

lemma set_emplace: "fst ` set (emplace k v m) = insert k (fst ` set m)"
  by (induction k v m rule: emplace.induct) auto

lemma omap_ok_emplace: "omap_ok m \<Longrightarrow> omap_ok (emplace k v m)"
proof (induction k v m rule: emplace.induct)
  case (2 k v k' v' m)
  have "fst ` set (emplace k v m) = insert k (fst ` set m)" by (rule set_emplace)
  then have "k' < a" if "k' < k" "\<forall>x \<in> set m. k' < fst x" "(a, b) \<in> set (emplace k v m)" for a b
    using that by (metis (no_types, lifting) fst_conv imageE image_eqI insertE)
  then show ?case using 2 by (auto simp: not_less le_less)
qed simp

lemma omap_ok_erase: "omap_ok m \<Longrightarrow> omap_ok (erase k m)"
  unfolding erase_def by (induction m) auto

lemma keys_assign [simp]: "map fst (assign k v m) = map fst m"
  by (induction m) (auto simp: assign_def)

lemma map_of_assign: "map_of (assign k v m) j = (if j = k \<and> map_of m k \<noteq> None then Some v else map_of m j)"
  by (induction m) (auto simp: assign_def)

lemma emplace_last: "(\<And>x. x \<in> set m \<Longrightarrow> fst x < k) \<Longrightarrow> emplace k v m = m @ [(k, v)]"
  using emplace_between [of m k "[]" v] by simp

lemma erase_last: "(\<And>x. x \<in> set m \<Longrightarrow> fst x < k) \<Longrightarrow> erase k (m @ [(k, v)]) = m"
  using erase_between [of m k "[]" v] by simp

lemma map_of_keys: "map_of m k \<noteq> None \<longleftrightarrow> k \<in> fst ` set m"
  by (simp add: map_of_eq_None_iff)

lemma child_named_map_of: "child_named es p = map_of es p"
  by (induction es p rule: child_named.induct) auto

section \<open>The invariant\<close>

text \<open>
  The root is a directory, the entries of directories are inodes, a path is the only
  one to its inode, the numbers given out are at most \<open>top_inode\<close>; open descriptors
  are below \<open>cur_fd\<close> and refer to inodes.
\<close>

definition fs_ok :: "memfs \<Rightarrow> bool" where
  "fs_ok fs \<longleftrightarrow> omap_ok (inodes fs) \<and> (\<exists>es. map_of (inodes fs) 1 = Some (DirInode es)) \<and>
     (\<forall>d es. map_of (inodes fs) d = Some (DirInode es) \<longrightarrow>
        omap_ok es \<and> (\<forall>n i. map_of es n = Some i \<longrightarrow> map_of (inodes fs) i \<noteq> None)) \<and>
     (\<forall>i. map_of (inodes fs) i \<noteq> None \<longrightarrow> i \<le> top_inode fs) \<and>
     (\<forall>p q i. traverse fs 1 p = Some (Some i) \<longrightarrow> traverse fs 1 q = Some (Some i) \<longrightarrow> p = q)"

definition vfs_ok :: "vfs \<Rightarrow> bool" where
  "vfs_ok v \<longleftrightarrow> fs_ok (memfs v) \<and> omap_ok (fd_files v) \<and> 0 < cur_fd v \<and>
     (\<forall>fd f. map_of (fd_files v) fd = Some f \<longrightarrow>
        0 \<le> fd \<and> fd < cur_fd v \<and> (\<forall>i. of_node f = MemNode i \<longrightarrow> map_of (inodes (memfs v)) i \<noteq> None))"

lemma fs_okD:
  assumes "fs_ok fs"
  shows "omap_ok (inodes fs)" "\<exists>es. map_of (inodes fs) 1 = Some (DirInode es)"
    "map_of (inodes fs) d = Some (DirInode es) \<Longrightarrow> omap_ok es"
    "map_of (inodes fs) d = Some (DirInode es) \<Longrightarrow> map_of es n = Some i \<Longrightarrow> map_of (inodes fs) i \<noteq> None"
    "map_of (inodes fs) i \<noteq> None \<Longrightarrow> i \<le> top_inode fs"
    "traverse fs 1 p = Some (Some i) \<Longrightarrow> traverse fs 1 q = Some (Some i) \<Longrightarrow> p = q"
  using assms unfolding fs_ok_def by blast+

lemma vfs_okD:
  assumes "vfs_ok v"
  shows "fs_ok (memfs v)" "omap_ok (fd_files v)" "0 < cur_fd v"
    "map_of (fd_files v) fd = Some f \<Longrightarrow> 0 \<le> fd \<and> fd < cur_fd v"
    "map_of (fd_files v) fd = Some f \<Longrightarrow> of_node f = MemNode i \<Longrightarrow> map_of (inodes (memfs v)) i \<noteq> None"
  using assms unfolding vfs_ok_def by blast+

lemma traverse_single:
  "traverse fs i [x] =
     (case map_of (inodes fs) i of
        Some (DirInode es) \<Rightarrow>
          (case map_of es x of
             None \<Rightarrow> Some None
           | Some j \<Rightarrow> if map_of (inodes fs) j = None then None else Some (Some j))
      | Some (FileInode _) \<Rightarrow> Some None
      | None \<Rightarrow> None)"
  by (auto simp: child_named_map_of split: option.splits inode.splits)

lemma traverse_append:
  "traverse fs i (p @ q) = (case traverse fs i p of Some (Some j) \<Rightarrow> traverse fs j q | r \<Rightarrow> r)"
  by (induction p arbitrary: i) (auto split: option.splits inode.splits)

lemma traverse_ok:
  assumes "fs_ok fs" "map_of (inodes fs) i \<noteq> None"
  obtains r where "traverse fs i p = Some r" "\<And>j. r = Some j \<Longrightarrow> map_of (inodes fs) j \<noteq> None"
  using assms(2)
proof (induction p arbitrary: i thesis)
  case Nil
  then show ?case by simp
next
  case (Cons x p)
  then obtain n where n: "map_of (inodes fs) i = Some n" by auto
  show ?case
  proof (cases n)
    case (FileInode dat)
    then show ?thesis using Cons.prems(1) [of None] n by simp
  next
    case (DirInode es)
    show ?thesis
    proof (cases "map_of es x")
      case None
      then show ?thesis using Cons.prems(1) [of None] n DirInode by (simp add: child_named_map_of)
    next
      case (Some j)
      then have j: "map_of (inodes fs) j \<noteq> None" using fs_okD(4) [OF assms(1)] n DirInode by blast
      obtain r where "traverse fs j p = Some r" "\<And>k. r = Some k \<Longrightarrow> map_of (inodes fs) k \<noteq> None"
        using Cons.IH [OF _ j] by blast
      then show ?thesis using Cons.prems(1) [of r] n DirInode Some j by (simp add: child_named_map_of)
    qed
  qed
qed

declare traverse.simps(2) [simp del]

lemma traverse_root_eq: "fs_ok fs \<Longrightarrow> traverse_root fs p = traverse fs 1 p"
  using fs_okD(2) [of fs] by (auto simp: traverse_root_def)

lemma traverse_root_ok:
  assumes "fs_ok fs"
  obtains r where "traverse_root fs p = Some r" "\<And>j. r = Some j \<Longrightarrow> map_of (inodes fs) j \<noteq> None"
proof -
  have "map_of (inodes fs) 1 \<noteq> None" using fs_okD(2) [OF assms] by auto
  then show ?thesis using traverse_ok [OF assms, of 1 p] that traverse_root_eq [OF assms] by metis
qed

lemma traverse_new: "map_of (inodes memfs_new) 1 = Some (DirInode []) \<and> (traverse memfs_new 1 p = Some (Some i) \<longrightarrow> p = [])"
  by (cases p) (auto simp: memfs_new_def traverse.simps)

lemma vfs_new_ok: "vfs_ok (vfs_new input)"
proof -
  have "fs_ok memfs_new"
    unfolding fs_ok_def using traverse_new by (auto simp: memfs_new_def split: if_splits)
  then show ?thesis by (auto simp: vfs_ok_def vfs_new_def new_file_def split: if_splits)
qed

section \<open>Creating an inode\<close>

lemma fresh_inode: "i \<le> top \<Longrightarrow> top \<noteq> -1 \<Longrightarrow> i < top + 1" for i top :: ino
proof -
  assume i: "i \<le> top" and t: "top \<noteq> -1"
  have "1 + top \<noteq> 0" using t by (metis add_eq_0_iff)
  then have "unat (top + 1) = Suc (unat top)" using unatSuc [of top] by (simp add: add.commute)
  then show "i < top + 1" using i by (simp add: word_le_nat_alt word_less_nat_alt)
qed

definition created :: "memfs \<Rightarrow> memfs \<Rightarrow> ino \<Rightarrow> ino \<Rightarrow> (string, ino) omap \<Rightarrow> string \<Rightarrow> inode \<Rightarrow> bool" where
  "created fs fs' d new es name node \<longleftrightarrow>
     fs_ok fs \<and> map_of (inodes fs) d = Some (DirInode es) \<and> (node = FileInode [] \<or> node = DirInode []) \<and>
     (\<forall>i. map_of (inodes fs) i \<noteq> None \<longrightarrow> i < new) \<and> top_inode fs' = new \<and> omap_ok (inodes fs') \<and>
     (\<forall>i. map_of (inodes fs') i =
        (if i = new then Some node else if i = d then Some (DirInode (emplace name new es)) else map_of (inodes fs) i))"

lemma createdD:
  assumes "created fs fs' d new es name node"
  shows "fs_ok fs" "map_of (inodes fs) d = Some (DirInode es)" "node = FileInode [] \<or> node = DirInode []"
    "map_of (inodes fs) i \<noteq> None \<Longrightarrow> i < new" "top_inode fs' = new" "omap_ok (inodes fs')"
    "map_of (inodes fs') i =
      (if i = new then Some node else if i = d then Some (DirInode (emplace name new es)) else map_of (inodes fs) i)"
  using assms unfolding created_def by auto

lemma created_neq:
  assumes c: "created fs fs' d new es name node"
  shows "new \<noteq> d" "new \<noteq> 1" "map_of (inodes fs) new = None"
proof -
  have "map_of (inodes fs) 1 \<noteq> None" using fs_okD(2) [OF createdD(1) [OF c]] by auto
  then show "new \<noteq> d" "new \<noteq> 1" "map_of (inodes fs) new = None"
    using createdD(4) [OF c, of d] createdD(4) [OF c, of new] createdD(4) [OF c, of 1] createdD(2) [OF c] by fastforce+
qed

lemma created_entries:
  assumes c: "created fs fs' d new es name node"
  shows "map_of (emplace name new es) x = (if x = name \<and> map_of es name = None then Some new else map_of es x)"
  by (rule map_of_emplace) (rule fs_okD(3) [OF createdD(1) [OF c] createdD(2) [OF c]])

lemma created_step_new:
  assumes c: "created fs fs' d new es name node"
  shows "traverse fs' new [x] = Some None"
  using createdD(3) [OF c] by (auto simp: traverse_single createdD(7) [OF c])

lemma created_step:
  assumes c: "created fs fs' d new es name node"
    and "map_of (inodes fs) j \<noteq> None"
  shows "traverse fs' j [x] = (if j = d \<and> x = name \<and> map_of es name = None then Some (Some new) else traverse fs j [x])"
proof -
  obtain m where m: "map_of (inodes fs) j = Some m" using assms by auto
  have [simp]: "j \<noteq> new" using assms created_neq [OF c] by auto
  show ?thesis
  proof (cases m)
    case (FileInode dat)
    then show ?thesis using m createdD(2) [OF c] by (auto simp: traverse_single createdD(7) [OF c])
  next
    case (DirInode ds)
    have t: "traverse fs j [x] = Some (map_of ds x)"
      using m DirInode fs_okD(4) [OF createdD(1) [OF c] m [unfolded DirInode], of x] by (auto simp: traverse_single split: option.split)
    have "map_of (inodes fs') k \<noteq> None" if "map_of ds x = Some k" for k
      using fs_okD(4) [OF createdD(1) [OF c] m [unfolded DirInode] that] by (auto simp: createdD(7) [OF c])
    then have t': "traverse fs' j [x] = Some (map_of ds' x)"
      if "map_of (inodes fs') j = Some (DirInode ds')" "map_of ds' x = map_of ds x \<or> map_of ds' x = Some new" for ds'
      using that by (auto simp: traverse_single createdD(7) [OF c] split: option.split)
    show ?thesis
    proof (cases "j = d")
      case True
      then have "ds = es" "map_of (inodes fs') j = Some (DirInode (emplace name new es))" using m DirInode createdD(2) [OF c] by (auto simp: createdD(7) [OF c])
      then show ?thesis using t t' True by (auto simp: created_entries [OF c])
    next
      case False
      then have "map_of (inodes fs') j = Some (DirInode ds)" using m DirInode by (auto simp: createdD(7) [OF c])
      then show ?thesis using t t' False by simp
    qed
  qed
qed

lemma traverse_created:
  assumes c: "created fs fs' d new es name node"
    and p: "traverse fs 1 p = Some (Some d)"
  shows "traverse fs' 1 q = (if q = p @ [name] \<and> map_of es name = None then Some (Some new) else traverse fs 1 q)"
proof (induction q rule: rev_induct)
  case Nil
  then show ?case by simp
next
  case (snoc x q)
  obtain r where r: "traverse fs 1 q = Some r" "\<And>j. r = Some j \<Longrightarrow> map_of (inodes fs) j \<noteq> None"
    using traverse_ok [OF createdD(1) [OF c], of 1 q] fs_okD(2) [OF createdD(1) [OF c]] by (metis option.distinct(1))
  show ?case
  proof (cases "q = p @ [name] \<and> map_of es name = None")
    case True
    have "traverse fs 1 q = Some None" using True p createdD(2) [OF c] by (simp add: traverse_append traverse_single)
    moreover have "traverse fs' 1 q = Some (Some new)" "q @ [x] \<noteq> p @ [name]" using True snoc by auto
    ultimately show ?thesis by (auto simp: traverse_append [of _ _ q] created_step_new [OF c])
  next
    case False
    then have e: "traverse fs' 1 q = Some r" using snoc r by auto
    have uq: "r = Some d \<longleftrightarrow> q = p" using fs_okD(6) [OF createdD(1) [OF c], of q d p] p r by auto
    show ?thesis
    proof (cases r)
      case None
      then have "q \<noteq> p" using r p by auto
      then show ?thesis using None r e by (simp add: traverse_append)
    next
      case (Some j)
      then show ?thesis using r e created_step [OF c, of j x] uq by (auto simp: traverse_append)
    qed
  qed
qed

lemma traverse_lost:
  assumes c: "created fs fs' d new es name node"
    and lost: "\<And>p. traverse fs 1 p \<noteq> Some (Some d)"
  shows "traverse fs' 1 q = traverse fs 1 q"
proof (induction q rule: rev_induct)
  case (snoc x q)
  obtain r where r: "traverse fs 1 q = Some r" "\<And>j. r = Some j \<Longrightarrow> map_of (inodes fs) j \<noteq> None"
    using traverse_ok [OF createdD(1) [OF c], of 1 q] fs_okD(2) [OF createdD(1) [OF c]] by (metis option.distinct(1))
  have "r \<noteq> Some d" using lost [of q] r by simp
  then show ?case using snoc r created_step [OF c, of _ x] by (cases r) (auto simp: traverse_append)
qed simp

lemma created_ok:
  assumes c: "created fs fs' d new es name node"
  shows "fs_ok fs'"
proof -
  have root: "\<exists>es. map_of (inodes fs') 1 = Some (DirInode es)"
    using fs_okD(2) [OF createdD(1) [OF c]] created_neq [OF c] by (auto simp: createdD(7) [OF c])
  have dom: "map_of (inodes fs') i \<noteq> None" if "map_of (inodes fs) i \<noteq> None" for i
    using that by (auto simp: createdD(7) [OF c])
  have dirs: "omap_ok ds \<and> (\<forall>n i. map_of ds n = Some i \<longrightarrow> map_of (inodes fs') i \<noteq> None)"
    if k: "map_of (inodes fs') k = Some (DirInode ds)" for k ds
  proof (cases "k = new \<or> k = d")
    case True
    then show ?thesis
      using k createdD(3) [OF c] createdD(2) [OF c] fs_okD(3) [OF createdD(1) [OF c] createdD(2) [OF c]] fs_okD(4) [OF createdD(1) [OF c] createdD(2) [OF c]] created_neq [OF c] dom
      by (auto simp: createdD(7) [OF c] created_entries [OF c] omap_ok_emplace split: if_splits)
  next
    case False
    then have "map_of (inodes fs) k = Some (DirInode ds)" using k by (simp add: createdD(7) [OF c])
    then show ?thesis using fs_okD(3,4) [OF createdD(1) [OF c]] dom by blast
  qed
  have tops: "i \<le> top_inode fs'" if "map_of (inodes fs') i \<noteq> None" for i
    using that createdD(4) [OF c, of i] createdD(2) [OF c] createdD(4) [OF c, of d] by (auto simp: createdD(7) [OF c] createdD(5) [OF c] split: if_splits)
  have paths: "p = q" if "traverse fs' 1 p = Some (Some i)" "traverse fs' 1 q = Some (Some i)" for p q i
  proof (cases "\<exists>r. traverse fs 1 r = Some (Some d)")
    case True
    then obtain r where r: "traverse fs 1 r = Some (Some d)" by blast
    have nn: "traverse fs 1 s \<noteq> Some (Some new)" for s
      using traverse_ok [OF createdD(1) [OF c], of 1 s] fs_okD(2) [OF createdD(1) [OF c]] created_neq(3) [OF c] by (metis option.distinct(1) option.inject)
    show ?thesis
      using that nn fs_okD(6) [OF createdD(1) [OF c], of p i q] unfolding traverse_created [OF c r] by (auto split: if_splits)
  next
    case False
    then have "traverse fs' 1 s = traverse fs 1 s" for s by (intro traverse_lost [OF c]) blast
    then show ?thesis using fs_okD(6) [OF createdD(1) [OF c], of p i q] that by simp
  qed
  show ?thesis unfolding fs_ok_def using createdD(6) [OF c] root dirs tops paths by blast
qed

lemma mk_inode_created:
  assumes ok: "fs_ok fs" and d: "map_of (inodes fs) d = Some (DirInode es)" and top: "top_inode fs \<noteq> -1"
    and node: "node = FileInode [] \<or> node = DirInode []"
  obtains fs' where "mk_inode node d name fs = Some (top_inode fs + 1, fs')"
    "created fs fs' d (top_inode fs + 1) es name node"
proof -
  let ?new = "top_inode fs + 1"
  have fresh: "i < ?new" if "map_of (inodes fs) i \<noteq> None" for i
    using fresh_inode [OF fs_okD(5) [OF ok that] top] .
  then have none: "map_of (inodes fs) ?new = None" by blast
  then have look: "map_of (emplace ?new node (inodes fs)) i = (if i = ?new then Some node else map_of (inodes fs) i)" for i
    by (simp add: map_of_emplace [OF fs_okD(1) [OF ok]])
  have nd: "d \<noteq> ?new" using none d by auto
  define fs' where "fs' = fs\<lparr>top_inode := ?new, inodes := assign d (DirInode (emplace name ?new es)) (emplace ?new node (inodes fs))\<rparr>"
  have mk: "mk_inode node d name fs = Some (?new, fs')"
    unfolding mk_inode_def Let_def fs'_def using d nd by (simp add: look)
  have "created fs fs' d ?new es name node"
    unfolding created_def fs'_def using ok d node fresh nd
    by (auto simp: look map_of_assign omap_ok_emplace fs_okD(1))
  then show ?thesis using that mk by blast
qed

section \<open>The abstract file system\<close>

text \<open>What a path names: a directory, or a file with its contents.\<close>

datatype entry = DirE | FileE "8 word list"

fun entry_of :: "inode \<Rightarrow> entry" where
  "entry_of (FileInode dat) = FileE dat"
| "entry_of (DirInode es) = DirE"

definition view :: "vfs \<Rightarrow> path \<Rightarrow> entry option" where
  "view v p =
     (case traverse_root (memfs v) p of
        Some (Some i) \<Rightarrow> map_option entry_of (map_of (inodes (memfs v)) i)
      | _ \<Rightarrow> None)"

lemma view_fds: "memfs v' = memfs v \<Longrightarrow> view v' = view v"
  by (intro ext) (simp add: view_def cong: option.case_cong)

lemma view_cases:
  assumes "fs_ok (memfs v)"
  obtains "traverse_root (memfs v) p = Some None" "view v p = None"
  | i n where "traverse_root (memfs v) p = Some (Some i)" "map_of (inodes (memfs v)) i = Some n" "view v p = Some (entry_of n)"
proof -
  obtain r where r: "traverse_root (memfs v) p = Some r" "\<And>j. r = Some j \<Longrightarrow> map_of (inodes (memfs v)) j \<noteq> None"
    using traverse_root_ok [OF assms] by blast
  then show ?thesis using that unfolding view_def by (cases r) auto
qed

lemma view_created:
  assumes c: "created (memfs v) fs' d new es name node" and p: "traverse_root (memfs v) p = Some (Some d)"
  shows "view (v\<lparr>memfs := fs', cur_fd := n\<rparr>) =
    (if view v (p @ [name]) = None then (view v)(p @ [name] \<mapsto> entry_of node) else view v)"
proof -
  note ok = createdD(1) [OF c] created_ok [OF c]
  have p': "traverse (memfs v) 1 p = Some (Some d)" using p traverse_root_eq ok by simp
  have "traverse (memfs v) 1 (p @ [name]) = Some (map_of es name)"
    using p' createdD(2) [OF c] fs_okD(4) [OF ok(1) createdD(2) [OF c], of name]
    by (auto simp: traverse_append traverse_single split: option.split)
  then have n: "view v (p @ [name]) = None \<longleftrightarrow> map_of es name = None"
    using fs_okD(4) [OF ok(1) createdD(2) [OF c], of name]
    by (auto simp: view_def traverse_root_eq [OF ok(1)] split: option.split)
  have "view (v\<lparr>memfs := fs', cur_fd := n\<rparr>) q = view v q" if q: "q \<noteq> p @ [name] \<or> map_of es name \<noteq> None" for q
  proof (cases rule: view_cases [OF ok(1), of q])
    case 1
    then show ?thesis using q by (auto simp: view_def traverse_root_eq ok traverse_created [OF c p'])
  next
    case (2 i m)
    then have "i \<noteq> new" using created_neq [OF c] by auto
    then show ?thesis using 2 q createdD(2) [OF c]
      by (auto simp: view_def traverse_root_eq ok traverse_created [OF c p'] createdD(7) [OF c])
  qed
  moreover have "view (v\<lparr>memfs := fs', cur_fd := n\<rparr>) (p @ [name]) = Some (entry_of node)" if "map_of es name = None"
    using that by (simp add: view_def traverse_root_eq ok traverse_created [OF c p'] createdD(7) [OF c])
  ultimately show ?thesis unfolding n by (intro ext) auto
qed

section \<open>Opening\<close>

lemma fds_below: "vfs_ok v \<Longrightarrow> x \<in> set (fd_files v) \<Longrightarrow> fst x < cur_fd v"
  using vfs_okD(4) [of v "fst x" "snd x"] vfs_okD(2) [of v]
  by (metis map_of_eq_Some_iff prod.collapse strict_sorted_iff)

lemma fdt_emplace_eq:
  assumes "vfs_ok v"
  shows "fdt_emplace n opts v =
    (cur_fd v, v\<lparr>fd_files := fd_files v @ [(cur_fd v, new_file (MemNode n) opts)], cur_fd := cur_fd v + 1\<rparr>)"
  by (simp add: fdt_emplace_def emplace_last fds_below [OF assms])

lemma fdt_emplace_ok:
  assumes ok: "vfs_ok v" and n: "map_of (inodes (memfs v)) n \<noteq> None"
  shows "vfs_ok (v\<lparr>fd_files := fd_files v @ [(cur_fd v, new_file (MemNode n) opts)], cur_fd := cur_fd v + 1\<rparr>)"
  using ok n fds_below [OF ok]
  by (fastforce simp: vfs_ok_def new_file_def sorted_wrt_append map_add_def split: option.splits if_splits)

lemma open_plain:
  assumes "vfs_ok v" "opts AND O_CREAT = 0"
  shows "fdt_open p opts v =
    (case traverse_root (memfs v) p of None \<Rightarrow> None | Some None \<Rightarrow> Some (-1, v) | Some (Some n) \<Rightarrow>
      Some (cur_fd v, v\<lparr>fd_files := fd_files v @ [(cur_fd v, new_file (MemNode n) opts)], cur_fd := cur_fd v + 1\<rparr>))"
  using assms by (simp add: fdt_open.simps fdt_emplace_eq split: option.split)

lemma subvector_butlast: "subvector 0 (length p - Suc 0) p = butlast p"
  by (auto simp: subvector_def butlast_conv_take)

lemma no_fd: "vfs_ok v \<Longrightarrow> fd < 0 \<or> cur_fd v \<le> fd \<Longrightarrow> map_of (fd_files v) fd = None"
  using vfs_okD(4) [of v fd] by (cases "map_of (fd_files v) fd") auto

lemma close_new:
  assumes "vfs_ok v"
  shows "fdt_close (cur_fd v) (v\<lparr>memfs := fs, fd_files := fd_files v @ [(cur_fd v, f)], cur_fd := k\<rparr>) = v\<lparr>memfs := fs, cur_fd := k\<rparr>"
proof -
  have "map_of (fd_files v @ [(cur_fd v, f)]) (cur_fd v) = Some f" by (simp add: map_add_def no_fd [OF assms])
  moreover have "erase (cur_fd v) (fd_files v @ [(cur_fd v, f)]) = fd_files v" by (rule erase_last) (rule fds_below [OF assms])
  ultimately show ?thesis unfolding fdt_close_def by (cases v) simp
qed

lemma in_dir:
  assumes ok: "vfs_ok v" and p: "p \<noteq> []"
  shows "Option.bind (fdt_open (subvector 0 (length p - 1) p) O_RDWR v) (\<lambda>(fd, v). vfs_in_dir mk p fd v) =
    (case traverse_root (memfs v) (butlast p) of
       None \<Rightarrow> None
     | Some None \<Rightarrow> Some (False, v)
     | Some (Some d) \<Rightarrow>
        (case map_of (inodes (memfs v)) d of
           Some (DirInode es) \<Rightarrow> map_option (\<lambda>(i, fs). (True, v\<lparr>memfs := fs, cur_fd := cur_fd v + 1\<rparr>)) (mk d (last p) (memfs v))
         | _ \<Rightarrow> Some (False, v\<lparr>cur_fd := cur_fd v + 1\<rparr>)))"
proof (cases "traverse_root (memfs v) (butlast p)")
  case None
  then show ?thesis by (simp add: subvector_butlast open_plain [OF ok rdwr_creat])
next
  case (Some r)
  show ?thesis
  proof (cases r)
    case None
    then show ?thesis using Some no_fd [OF ok, of "-1"]
      by (simp add: subvector_butlast open_plain [OF ok rdwr_creat] vfs_in_dir_def fdt_close_def)
  next
    case r: (Some d)
    define v1 where "v1 = v\<lparr>fd_files := fd_files v @ [(cur_fd v, new_file (MemNode d) O_RDWR)], cur_fd := cur_fd v + 1\<rparr>"
    have o: "fdt_open (subvector 0 (length p - Suc 0) p) O_RDWR v = Some (cur_fd v, v1)"
      using Some r by (simp add: subvector_butlast open_plain [OF ok rdwr_creat] v1_def)
    have g: "fdt_get (cur_fd v) v1 = Some (new_file (MemNode d) O_RDWR)"
      by (simp add: fdt_get_def v1_def map_add_def no_fd [OF ok])
    have m: "memfs v1 = memfs v" by (simp add: v1_def)
    have cl: "fdt_close (cur_fd v) (v1\<lparr>memfs := fs\<rparr>) = v\<lparr>memfs := fs, cur_fd := cur_fd v + 1\<rparr>" for fs
      using close_new [OF ok, where fs = fs and f = "new_file (MemNode d) O_RDWR" and k = "cur_fd v + 1"] by (cases v) (simp add: v1_def)
    have cl0: "fdt_close (cur_fd v) v1 = v\<lparr>cur_fd := cur_fd v + 1\<rparr>"
      using cl [of "memfs v"] by (cases v) (simp add: v1_def)
    have "cur_fd v \<noteq> -1" using vfs_okD(3) [OF ok] by simp
    then show ?thesis
      using Some r p g m by (auto simp: o vfs_in_dir_def file_dir_def new_file_def cl cl0 split: option.splits inode.splits)
  qed
qed

lemma vfs_ok_update:
  assumes "vfs_ok v" "fs_ok fs" "cur_fd v \<le> k"
    and "\<And>i. map_of (inodes (memfs v)) i \<noteq> None \<Longrightarrow> map_of (inodes fs) i \<noteq> None"
  shows "vfs_ok (v\<lparr>memfs := fs, cur_fd := k\<rparr>)"
  using assms by (fastforce simp: vfs_ok_def)

lemma created_dom: "created fs fs' d new es name node \<Longrightarrow> map_of (inodes fs) i \<noteq> None \<Longrightarrow> map_of (inodes fs') i \<noteq> None"
  by (simp add: createdD(7))

text \<open>What \<open>touch\<close> and \<open>mkdir\<close> do in terms of paths.\<close>

lemma in_dir_view:
  assumes ok: "vfs_ok v" and p: "p \<noteq> []" and top: "top_inode (memfs v) \<noteq> -1"
    and node: "node = FileInode [] \<or> node = DirInode []"
  obtains b fs k where
    "Option.bind (fdt_open (subvector 0 (length p - 1) p) O_RDWR v) (\<lambda>(fd, v). vfs_in_dir (mk_inode node) p fd v)
       = Some (b, v\<lparr>memfs := fs, cur_fd := k\<rparr>)"
    "b \<longleftrightarrow> view v (butlast p) = Some DirE" "vfs_ok (v\<lparr>memfs := fs, cur_fd := k\<rparr>)"
    "cur_fd v \<le> k" "k \<le> cur_fd v + 1" "b \<Longrightarrow> k = cur_fd v + 1"
    "view (v\<lparr>memfs := fs, cur_fd := k\<rparr>) = (if b \<and> view v p = None then (view v)(p \<mapsto> entry_of node) else view v)"
proof -
  let ?bind = "Option.bind (fdt_open (subvector 0 (length p - 1) p) O_RDWR v) (\<lambda>(fd, v). vfs_in_dir (mk_inode node) p fd v)"
  note fs = vfs_okD(1) [OF ok]
  have same: "v\<lparr>memfs := memfs v, cur_fd := k\<rparr> = v\<lparr>cur_fd := k\<rparr>" "v\<lparr>cur_fd := cur_fd v\<rparr> = v" for k by simp_all
  have sv: "view (v\<lparr>memfs := memfs v, cur_fd := k\<rparr>) = view v" for k by (rule view_fds) simp
  have up: "vfs_ok (v\<lparr>memfs := memfs v, cur_fd := k\<rparr>)" if "cur_fd v \<le> k" for k
    using vfs_ok_update [OF ok fs that] by blast
  show ?thesis
  proof (cases rule: view_cases [OF fs, of "butlast p"])
    case 1
    then have "?bind = Some (False, v\<lparr>memfs := memfs v, cur_fd := cur_fd v\<rparr>)" by (subst in_dir [OF ok p]) simp
    then show ?thesis using that [of False "cur_fd v" "memfs v"] 1 sv ok by simp
  next
    case (2 d n)
    show ?thesis
    proof (cases n)
      case (FileInode dat)
      then have "?bind = Some (False, v\<lparr>memfs := memfs v, cur_fd := cur_fd v + 1\<rparr>)"
        using 2 by (subst in_dir [OF ok p]) simp
      then show ?thesis using that [of False "cur_fd v + 1" "memfs v"] 2 FileInode sv up by simp
    next
      case (DirInode es)
      obtain fs' where c: "mk_inode node d (last p) (memfs v) = Some (top_inode (memfs v) + 1, fs')"
        "created (memfs v) fs' d (top_inode (memfs v) + 1) es (last p) node"
        using mk_inode_created [OF fs _ top node] 2(2) DirInode by metis
      have "?bind = Some (True, v\<lparr>memfs := fs', cur_fd := cur_fd v + 1\<rparr>)"
        using 2 DirInode c by (subst in_dir [OF ok p]) simp
      moreover have "vfs_ok (v\<lparr>memfs := fs', cur_fd := cur_fd v + 1\<rparr>)"
        using vfs_ok_update [OF ok created_ok [OF c(2)]] created_dom [OF c(2)] by simp
      moreover have "view (v\<lparr>memfs := fs', cur_fd := cur_fd v + 1\<rparr>) =
          (if view v p = None then (view v)(p \<mapsto> entry_of node) else view v)"
        using view_created [OF c(2) 2(1)] p by simp
      ultimately show ?thesis using that 2 DirInode by simp
    qed
  qed
qed

text \<open>The descriptor \<open>fd\<close> is open on the file that the path \<open>p\<close> names.\<close>

definition fd_names :: "vfs \<Rightarrow> int \<Rightarrow> path \<Rightarrow> bool" where
  "fd_names v fd p \<longleftrightarrow>
     (case map_of (fd_files v) fd of
        Some f \<Rightarrow> (case of_node f of MemNode i \<Rightarrow> traverse_root (memfs v) p = Some (Some i) | TtyNode \<Rightarrow> False)
      | None \<Rightarrow> False)"

lemma open_found:
  assumes ok: "vfs_ok v" and t: "traverse_root (memfs v) p = Some (Some i)"
  obtains v' where "fdt_open p opts v = Some (cur_fd v, v')" "vfs_ok v'" "view v' = view v"
    "fd_files v' = fd_files v @ [(cur_fd v, new_file (MemNode i) opts)]" "fd_names v' (cur_fd v) p"
proof -
  let ?v = "v\<lparr>fd_files := fd_files v @ [(cur_fd v, new_file (MemNode i) opts)], cur_fd := cur_fd v + 1\<rparr>"
  have "map_of (inodes (memfs v)) i \<noteq> None"
    by (rule view_cases [OF vfs_okD(1) [OF ok], of p]) (use t in auto)
  then have "vfs_ok ?v" by (rule fdt_emplace_ok [OF ok])
  moreover have "fdt_open p opts v = Some (cur_fd v, ?v)" using t by (simp add: fdt_open.simps fdt_emplace_eq [OF ok])
  moreover have "fd_names ?v (cur_fd v) p" using t by (simp add: fd_names_def map_add_def no_fd [OF ok] new_file_def)
  moreover have "view ?v = view v" by (rule view_fds) simp
  ultimately show ?thesis using that [of ?v] by simp
qed

lemma open_view:
  assumes ok: "vfs_ok v" and top: "top_inode (memfs v) \<noteq> -1"
  obtains
    (found) v' f where "view v p \<noteq> None" "fdt_open p opts v = Some (cur_fd v, v')" "vfs_ok v'" "view v' = view v"
      "fd_files v' = fd_files v @ [(cur_fd v, f)]" "fd_names v' (cur_fd v) p" "of_pos f = 0" "of_opts f = opts"
  | (creates) v' f where "view v p = None" "opts AND O_CREAT \<noteq> 0" "view v (butlast p) = Some DirE"
      "fdt_open p opts v = Some (cur_fd v + 1, v')" "vfs_ok v'" "view v' = (view v)(p \<mapsto> FileE [])"
      "fd_files v' = fd_files v @ [(cur_fd v + 1, f)]" "fd_names v' (cur_fd v + 1) p" "of_pos f = 0" "of_opts f = opts XOR O_CREAT"
  | (fails) v' where "view v p = None" "opts AND O_CREAT = 0 \<or> view v (butlast p) \<noteq> Some DirE"
      "fdt_open p opts v = Some (-1, v')" "vfs_ok v'" "view v' = view v" "fd_files v' = fd_files v"
proof (cases rule: view_cases [OF vfs_okD(1) [OF ok], of p])
  case (2 i n)
  obtain v' where "fdt_open p opts v = Some (cur_fd v, v')" "vfs_ok v'" "view v' = view v"
    "fd_files v' = fd_files v @ [(cur_fd v, new_file (MemNode i) opts)]" "fd_names v' (cur_fd v) p"
    using open_found [OF ok 2(1)] by blast
  then show ?thesis using found [of v' "new_file (MemNode i) opts"] 2 by (simp add: new_file_def)
next
  case 1
  show ?thesis
  proof (cases "opts AND O_CREAT = 0")
    case True
    then show ?thesis using fails [OF _ _ _ ok] 1 by (simp add: fdt_open.simps)
  next
    case False
    have p: "p \<noteq> []"
      using 1 fs_okD(2) [OF vfs_okD(1) [OF ok]] by (auto simp: traverse_root_def split: if_splits)
    obtain b fs k where t: "Option.bind (fdt_open (subvector 0 (length p - 1) p) O_RDWR v)
        (\<lambda>(fd, v). vfs_in_dir (mk_inode (FileInode [])) p fd v) = Some (b, v\<lparr>memfs := fs, cur_fd := k\<rparr>)"
      and b: "b \<longleftrightarrow> view v (butlast p) = Some DirE" "vfs_ok (v\<lparr>memfs := fs, cur_fd := k\<rparr>)" "b \<Longrightarrow> k = cur_fd v + 1"
        "view (v\<lparr>memfs := fs, cur_fd := k\<rparr>) = (if b \<and> view v p = None then (view v)(p \<mapsto> entry_of (FileInode [])) else view v)"
      by (rule in_dir_view [OF ok p top, of "FileInode []"]) (simp, blast)
    have touch: "vfs_touch p v = Some (b, v\<lparr>memfs := fs, cur_fd := k\<rparr>)"
      using t unfolding vfs_touch.simps memfs_mkfile_def .
    let ?w = "v\<lparr>memfs := fs, cur_fd := k\<rparr>"
    show ?thesis
    proof (cases b)
      case False
      then have "fdt_open p opts v = Some (-1, ?w)" using touch 1 \<open>opts AND O_CREAT \<noteq> 0\<close> by (simp add: fdt_open.simps [of p opts v])
      then show ?thesis using fails [of ?w] b False 1 by simp
    next
      case True
      have o: "fdt_open p opts v = fdt_open p (opts XOR O_CREAT) ?w"
        using touch 1 True False by (simp add: fdt_open.simps [of p opts v])
      have "view ?w p = Some (FileE [])" using b True 1 by simp
      then obtain i where i: "traverse_root (memfs ?w) p = Some (Some i)"
        by (auto simp: view_def split: option.splits)
      obtain v' where "fdt_open p (opts XOR O_CREAT) ?w = Some (cur_fd ?w, v')" "vfs_ok v'" "view v' = view ?w"
        "fd_files v' = fd_files ?w @ [(cur_fd ?w, new_file (MemNode i) (opts XOR O_CREAT))]" "fd_names v' (cur_fd ?w) p"
        using open_found [OF b(2) i] by blast
      then show ?thesis
        using creates [of v' "new_file (MemNode i) (opts XOR O_CREAT)"] b True 1 False o by (simp add: new_file_def)
    qed
  qed
qed

section \<open>Reading and writing\<close>

lemma unat_pos_Suc: "unat pos < n \<Longrightarrow> n < 2 ^ 64 \<Longrightarrow> unat (pos + 1) = Suc (unat pos)" for pos :: "64 word"
  by (simp add: unat_word_ariths(1) word_size)

lemma read_loop_take:
  "unat pos + n \<le> length dat \<Longrightarrow> length dat < 2 ^ 64 \<Longrightarrow> read_loop dat pos n = Some (take n (drop (unat pos) dat))"
proof (induction n arbitrary: pos)
  case (Suc n)
  then have "unat (pos + 1) = Suc (unat pos)" using unat_pos_Suc [of pos "length dat"] by simp
  then show ?case using Suc by (simp add: Cons_nth_drop_Suc [symmetric])
qed simp

lemma memfs_read_take:
  assumes "unat pos \<le> length dat" "length dat < 2 ^ 64"
  shows "memfs_read dat pos num = Some (take (unat num) (drop (unat pos) dat))"
proof -
  have "unat (word_of_nat (length dat) - pos) = length dat - unat pos"
    using assms by (simp add: unat_sub word_le_nat_alt unat_of_nat take_bit_nat_eq_self)
  then have "unat (min num (word_of_nat (length dat) - pos)) = min (unat num) (length dat - unat pos)"
    by (simp add: min_def word_le_nat_alt)
  then show ?thesis using assms
    by (simp add: memfs_read_def read_loop_take min_def)
qed

lemma memfs_read_past_end:
  assumes "length dat < unat pos" "num \<noteq> 0"
  shows "memfs_read dat pos num = None"
proof -
  have "unat pos < 2 ^ 64" by (rule order_less_le_trans [OF unsigned_less]) simp
  then have "length dat < 2 ^ 64" using assms(1) by simp
  then have "word_of_nat (length dat) < pos" using assms(1) by (simp add: word_less_nat_alt unat_of_nat take_bit_nat_eq_self)
  then have "word_of_nat (length dat) - pos \<noteq> 0" by auto
  then have "min num (word_of_nat (length dat) - pos) \<noteq> 0" using assms(2) by (simp add: min_def)
  then obtain n where "unat (min num (word_of_nat (length dat) - pos)) = Suc n"
    by (metis not0_implies_Suc unat_eq_zero)
  then show ?thesis using assms(1) by (simp add: memfs_read_def)
qed

lemma pad_loop_eq: "pad_loop lim dat = dat @ replicate (Suc lim - length dat) 0"
proof (induction lim dat rule: pad_loop.induct)
  case (1 lim dat)
  show ?case
  proof (cases "length dat \<le> lim")
    case True
    then have "Suc lim - length dat = Suc (Suc lim - length (dat @ [0 :: 8 word]))" by simp
    then show ?thesis using True 1 by (subst pad_loop.simps) (simp add: replicate_append_same [symmetric])
  qed (simp add: pad_loop.simps)
qed

lemma write_loop_eq:
  "unat pos + length bs < length dat \<Longrightarrow> unat pos + length bs < 2 ^ 64 \<Longrightarrow>
     write_loop dat pos bs = Some (take (unat pos) dat @ bs @ drop (unat pos + length bs) dat)"
proof (induction dat pos bs rule: write_loop.induct)
  case (2 dat pos b bs)
  then have "unat (pos + 1) = Suc (unat pos)" using unat_pos_Suc [of pos "unat pos + length (b # bs)"] by simp
  then show ?case using 2 by (simp add: take_Suc_conv_app_nth)
qed simp

definition written :: "8 word list \<Rightarrow> nat \<Rightarrow> 8 word list \<Rightarrow> 8 word list" where
  "written dat pos buf =
     (let dat = dat @ replicate (Suc (pos + length buf) - length dat) 0
      in take pos dat @ buf @ drop (pos + length buf) dat)"

lemma memfs_write_written:
  assumes "unat pos + length buf < 2 ^ 64"
  shows "memfs_write dat pos buf = Some (written dat (unat pos) buf)"
proof -
  have "unat (pos + word_of_nat (length buf)) = unat pos + length buf"
    using assms by (simp add: unat_word_ariths(1) unat_of_nat take_bit_nat_eq_self)
  then show ?thesis using assms by (simp add: memfs_write_def written_def Let_def pad_loop_eq write_loop_eq)
qed

lemma traverse_assign_file:
  assumes "map_of (inodes fs) i = Some (FileInode dat)"
  shows "traverse (fs\<lparr>inodes := assign i (FileInode dat') (inodes fs)\<rparr>) j p = traverse fs j p"
  using assms by (induction p arbitrary: j) (auto simp: traverse.simps map_of_assign split: option.splits inode.splits)

lemma assign_file_ok:
  assumes ok: "fs_ok fs" and i: "map_of (inodes fs) i = Some (FileInode dat)"
  shows "fs_ok (fs\<lparr>inodes := assign i (FileInode dat') (inodes fs)\<rparr>)"
proof -
  have "\<exists>es. map_of (inodes fs) 1 = Some (DirInode es)" by (rule fs_okD(2) [OF ok])
  then show ?thesis
    using ok i unfolding fs_ok_def traverse_assign_file [OF i]
    by (auto simp: map_of_assign split: if_splits)
qed

lemma set_fd_ok:
  assumes "vfs_ok v" "map_of (fd_files v) fd = Some f" "of_node f' = of_node f"
  shows "vfs_ok (set_fd fd f' v)"
  using assms by (fastforce simp: vfs_ok_def set_fd_def map_of_assign split: if_splits)

lemma write_step:
  assumes ok: "vfs_ok v" and f: "map_of (fd_files v) fd = Some f" "of_node f = MemNode i"
    and p: "traverse_root (memfs v) p = Some (Some i)"
    and dat: "map_of (inodes (memfs v)) i = Some (FileInode dat)"
    and w: "of_opts f AND O_WRONLY \<noteq> 0 \<or> of_opts f AND O_RDWR \<noteq> 0" and len: "unat (of_pos f) + length buf < 2 ^ 64"
  obtains v' where "syscall_write fd buf v = Some (word_of_nat (length buf), v')" "vfs_ok v'"
    "view v' = (view v)(p \<mapsto> FileE (written dat (unat (of_pos f)) buf))"
    "fd_files v' = assign fd (f\<lparr>of_pos := of_pos f + word_of_nat (length buf)\<rparr>) (fd_files v)"
    "map_of (inodes (memfs v')) i = Some (FileInode (written dat (unat (of_pos f)) buf))"
    "\<And>q. traverse_root (memfs v') q = traverse_root (memfs v) q" "tty_in v' = tty_in v" "tty_out v' = tty_out v" "cur_fd v' = cur_fd v"
proof -
  let ?dat = "written dat (unat (of_pos f)) buf" and ?f = "f\<lparr>of_pos := of_pos f + word_of_nat (length buf)\<rparr>"
  let ?fs = "(memfs v)\<lparr>inodes := assign i (FileInode ?dat) (inodes (memfs v))\<rparr>"
  define v' where "v' = set_fd fd ?f (v\<lparr>memfs := ?fs\<rparr>)"
  note fs = vfs_okD(1) [OF ok]
  have fs': "fs_ok ?fs" by (rule assign_file_ok [OF fs dat])
  have "syscall_write fd buf v = Some (word_of_nat (length buf), v')"
    using f dat w memfs_write_written [OF len]
    by (auto simp: syscall_write_def fdt_get_def file_write_def v'_def Let_def)
  moreover have "vfs_ok (v\<lparr>memfs := ?fs, cur_fd := cur_fd v\<rparr>)" by (rule vfs_ok_update [OF ok fs']) (auto simp: map_of_assign)
  then have "vfs_ok v'" unfolding v'_def by (intro set_fd_ok [of _ fd f]) (use f in auto)
  moreover have t: "traverse_root (memfs v') q = traverse_root (memfs v) q" for q
    using fs fs' traverse_assign_file [OF dat] by (simp add: v'_def set_fd_def traverse_root_eq)
  moreover have "view v' q = ((view v)(p \<mapsto> FileE ?dat)) q" for q
  proof (cases "q = p")
    case True
    then show ?thesis using p dat t by (simp add: view_def) (simp add: v'_def set_fd_def map_of_assign)
  next
    case False
    then have "traverse_root (memfs v) q \<noteq> Some (Some i)"
      using fs_okD(6) [OF fs, of p i q] p by (auto simp: traverse_root_eq [OF fs])
    then show ?thesis using False t [of q]
      by (simp add: view_def split: option.split) (auto simp: v'_def set_fd_def map_of_assign)
  qed
  then have "view v' = (view v)(p \<mapsto> FileE ?dat)" by (rule ext)
  ultimately show ?thesis using that [of v'] dat by (simp add: v'_def set_fd_def map_of_assign)
qed

lemma read_step:
  fixes num :: "64 word"
  assumes ok: "vfs_ok v" and f: "map_of (fd_files v) fd = Some f" "of_node f = MemNode i"
    and dat: "map_of (inodes (memfs v)) i = Some (FileInode dat)" "length dat < 2 ^ 64" and pos: "unat (of_pos f) \<le> length dat"
  defines "bs \<equiv> take (unat num) (drop (unat (of_pos f)) dat)"
  shows "syscall_read fd num v = Some (Some bs, set_fd fd (f\<lparr>of_pos := of_pos f + word_of_nat (length bs)\<rparr>) v)"
    "vfs_ok (set_fd fd (f\<lparr>of_pos := of_pos f + word_of_nat (length bs)\<rparr>) v)"
  using f dat memfs_read_take [OF pos dat(2), of num] set_fd_ok [OF ok f(1)]
  by (simp_all add: syscall_read_def fdt_get_def file_read_def bs_def)

lemma take_drop_written:
  "take (length buf) (drop pos (written dat pos buf)) = buf"
  by (simp add: written_def Let_def)

lemma length_written: "length (written dat pos buf) = max (length dat) (Suc (pos + length buf))"
  by (simp add: written_def Let_def)

lemma fd_file:
  assumes "fdt_get fd v = Some f" "fd_names v fd p" "view v p = Some (FileE dat)"
  obtains i where "map_of (fd_files v) fd = Some f" "of_node f = MemNode i" "traverse_root (memfs v) p = Some (Some i)"
    "map_of (inodes (memfs v)) i = Some (FileInode dat)"
  using assms that by (auto simp: fd_names_def fdt_get_def view_def elim: entry_of.elims split: vnode.splits)

section \<open>Sequences of system calls\<close>

lemma close_ok: "vfs_ok v \<Longrightarrow> vfs_ok (fdt_close fd v)"
  by (auto simp: vfs_ok_def fdt_close_def map_of_erase omap_ok_erase split: if_splits)

lemma lseek_ok: "vfs_ok v \<Longrightarrow> vfs_ok (snd (syscall_lseek fd off v))"
  using set_fd_ok [of v fd] by (auto simp: syscall_lseek_def file_seek_def fdt_get_def split: option.splits)

lemma file_read_ok:
  assumes "vfs_ok v" "file_read f num v = Some (bs, f', v')"
  shows "vfs_ok v'" "fd_files v' = fd_files v" "of_node f' = of_node f"
  using assms by (auto simp: file_read_def vfs_ok_def split: vnode.splits option.splits inode.splits)

lemma file_write_cases:
  assumes "file_write f buf v = Some (n, f', v')"
  obtains "v' = v" "of_node f' = of_node f" | out where "v' = v\<lparr>tty_out := out\<rparr>" "of_node f' = of_node f"
  | i dat dat' where "map_of (inodes (memfs v)) i = Some (FileInode dat)" "of_node f' = of_node f"
      "v' = v\<lparr>memfs := (memfs v)\<lparr>inodes := assign i (FileInode dat') (inodes (memfs v))\<rparr>\<rparr>"
proof (cases "of_opts f AND O_WRONLY = 0 \<and> of_opts f AND O_RDWR = 0")
  case True
  then show ?thesis using assms that(1) by (simp add: file_write_def)
next
  case w: False
  show ?thesis
  proof (cases "of_node f")
    case TtyNode
    then show ?thesis using assms w that(2) [of "tty_write buf (tty_out v)"] by (auto simp: file_write_def Let_def)
  next
    case (MemNode i)
    then show ?thesis using assms w that(3) [of i]
      by (simp add: file_write_def Let_def split: option.splits inode.splits if_splits) auto
  qed
qed

lemma file_write_ok:
  assumes ok: "vfs_ok v" and w: "file_write f buf v = Some (n, f', v')"
  shows "vfs_ok v' \<and> fd_files v' = fd_files v \<and> of_node f' = of_node f"
proof (cases rule: file_write_cases [OF w])
  case (3 i dat dat')
  then have "vfs_ok (v\<lparr>memfs := (memfs v)\<lparr>inodes := assign i (FileInode dat') (inodes (memfs v))\<rparr>, cur_fd := cur_fd v\<rparr>)"
    by (intro vfs_ok_update [OF ok] assign_file_ok [OF vfs_okD(1) [OF ok]]) (auto simp: map_of_assign)
  then show ?thesis using 3 by simp
qed (use ok in \<open>auto simp: vfs_ok_def\<close>)

lemma read_ok:
  assumes ok: "vfs_ok v" and r: "syscall_read fd num v = Some (r, v')"
  shows "vfs_ok v'"
proof (cases "map_of (fd_files v) fd")
  case None
  then show ?thesis using ok r by (simp add: syscall_read_def fdt_get_def)
next
  case (Some f)
  then obtain bs f' w where w: "file_read f num v = Some (bs, f', w)" "v' = set_fd fd f' w"
    using r by (auto simp: syscall_read_def fdt_get_def)
  then show ?thesis using set_fd_ok [of w fd f f'] file_read_ok [OF ok w(1)] Some by simp
qed

lemma write_ok:
  assumes ok: "vfs_ok v" and r: "syscall_write fd buf v = Some (n, v')"
  shows "vfs_ok v'"
proof (cases "map_of (fd_files v) fd")
  case None
  then show ?thesis using ok r by (simp add: syscall_write_def fdt_get_def)
next
  case (Some f)
  then obtain f' w where w: "file_write f buf v = Some (n, f', w)" "v' = set_fd fd f' w"
    using r by (auto simp: syscall_write_def fdt_get_def)
  then show ?thesis using set_fd_ok [of w fd f f'] file_write_ok [OF ok w(1)] Some by simp
qed

lemma open_ok:
  assumes "vfs_ok v" "top_inode (memfs v) \<noteq> -1"
  obtains fd v' where "fdt_open p opts v = Some (fd, v')" "vfs_ok v'"
  by (rule open_view [OF assms, of p opts]) (rule that; assumption)+

lemma mkdir_root: "vfs_ok v \<Longrightarrow> vfs_mkdir [] v = None"
proof -
  assume ok: "vfs_ok v"
  obtain es where es: "map_of (inodes (memfs v)) 1 = Some (DirInode es)" using fs_okD(2) [OF vfs_okD(1) [OF ok]] by blast
  moreover have "cur_fd v \<noteq> -1" using vfs_okD(3) [OF ok] by simp
  ultimately show ?thesis
    by (simp add: vfs_mkdir_def subvector_def open_plain [OF ok rdwr_creat] traverse_root_def vfs_in_dir_def
        fdt_get_def file_dir_def new_file_def map_add_def no_fd [OF ok])
qed

lemma mkdir_view:
  assumes "vfs_ok v" "p \<noteq> []" "top_inode (memfs v) \<noteq> -1"
  obtains b v' where "vfs_mkdir p v = Some (b, v')" "b \<longleftrightarrow> view v (butlast p) = Some DirE" "vfs_ok v'"
    "fd_files v' = fd_files v" "view v' = (if b \<and> view v p = None then (view v)(p \<mapsto> DirE) else view v)"
proof (rule in_dir_view [OF assms, of "DirInode []"], goal_cases)
  case 1
  show ?case by simp
next
  case (2 b fs k)
  then show ?case using that [of b "v\<lparr>memfs := fs, cur_fd := k\<rparr>"] unfolding vfs_mkdir_def memfs_mkdir_def by simp
qed

inductive vfs_reach :: "8 word list \<Rightarrow> vfs \<Rightarrow> bool" for input where
  reach_start: "vfs_reach input (vfs_new input)"
| reach_open: "vfs_reach input v \<Longrightarrow> top_inode (memfs v) \<noteq> -1 \<Longrightarrow> syscall_open s flags v = Some (fd, v') \<Longrightarrow> vfs_reach input v'"
| reach_mkdir: "vfs_reach input v \<Longrightarrow> top_inode (memfs v) \<noteq> -1 \<Longrightarrow> vfs_mkdir p v = Some (b, v') \<Longrightarrow> vfs_reach input v'"
| reach_close: "vfs_reach input v \<Longrightarrow> syscall_close fd v = (r, v') \<Longrightarrow> vfs_reach input v'"
| reach_read: "vfs_reach input v \<Longrightarrow> syscall_read fd num v = Some (bs, v') \<Longrightarrow> vfs_reach input v'"
| reach_write: "vfs_reach input v \<Longrightarrow> syscall_write fd buf v = Some (n, v') \<Longrightarrow> vfs_reach input v'"
| reach_lseek: "vfs_reach input v \<Longrightarrow> syscall_lseek fd off v = (n, v') \<Longrightarrow> vfs_reach input v'"

lemma reach_ok: "vfs_reach input v \<Longrightarrow> vfs_ok v"
proof (induction rule: vfs_reach.induct)
  case (reach_open v s flags fd v')
  then show ?case using open_ok [of v "StrToPath s" flags] by (auto simp: syscall_open_def)
next
  case (reach_mkdir v p b v')
  then show ?case using mkdir_root [of v] by (cases "p = []") (auto elim: mkdir_view [of v p])
next
  case (reach_lseek v fd off n v')
  then show ?case using lseek_ok [of v fd off] by simp
next
  case (reach_close v fd r v')
  then show ?case using close_ok [of v fd] by (simp add: syscall_close_def)
qed (rule vfs_new_ok read_ok write_ok; assumption)+

section \<open>Path names\<close>

lemma str_to_path_append: "CHR ''/'' \<notin> set c \<Longrightarrow> str_to_path (c @ s) buf out = str_to_path s (buf @ c) out"
  by (induction c arbitrary: buf) auto

lemma str_to_path_flush: "str_to_path (CHR ''/'' # s) buf out = str_to_path s [] (if buf = [] then out else out @ [buf])"
  by simp

lemma str_to_path_slashes: "str_to_path (replicate n (CHR ''/'') @ s) [] out = str_to_path s [] out"
  by (induction n) auto

fun path_string :: "(nat \<times> string) list \<Rightarrow> string" where
  "path_string [] = []"
| "path_string ((n, c) # cs) = replicate (Suc n) (CHR ''/'') @ c @ path_string cs"

lemma str_to_path_string:
  "(\<forall>(n, c) \<in> set cs. c \<noteq> [] \<and> CHR ''/'' \<notin> set c) \<Longrightarrow>
     str_to_path (path_string cs @ replicate k (CHR ''/'')) buf out = (if buf = [] then out else out @ [buf]) @ map snd cs"
proof (induction cs arbitrary: buf out)
  case Nil
  then show ?case using str_to_path_slashes [of _ "[]"] by (cases k) auto
next
  case (Cons nc cs)
  obtain n c where nc: "nc = (n, c)" by (cases nc)
  then show ?case using Cons by (simp add: str_to_path_slashes str_to_path_append)
qed

section \<open>Example\<close>

definition example_vfs :: vfs where
  "example_vfs = snd (the (syscall_open ''/a'' (O_CREAT OR O_RDWR) (vfs_new [])))"

lemma example_open: "syscall_open ''/a'' (O_CREAT OR O_RDWR) (vfs_new []) = Some (11, example_vfs)"
proof -
  have "map_option fst (syscall_open ''/a'' (O_CREAT OR O_RDWR) (vfs_new [])) = Some 11" by code_simp
  then show ?thesis by (auto simp: example_vfs_def)
qed

lemma example_reach: "vfs_reach [] example_vfs"
  by (rule reach_open [OF reach_start _ example_open]) (simp add: vfs_new_def memfs_new_def)

lemma example_facts:
  "fdt_get 11 example_vfs = Some \<lparr>of_node = MemNode 3, of_pos = 0, of_opts = O_RDWR\<rparr>"
  "view example_vfs [''a''] = Some (FileE [])" "fd_names example_vfs 11 [''a'']"
  "top_inode (memfs example_vfs) = 3" "view example_vfs [''b''] = None" "view example_vfs [] = Some DirE"
  by code_simp+

section \<open>Properties\<close>



text \<open>
  C6: \<open>open\<close> implements the abstract file system, a partial map from paths to entries.  An
  existing path is opened; with \<open>O_CREAT\<close> a missing path in an existing directory becomes an
  empty file and nothing else changes; otherwise the result is -1 and nothing changes.  A
  successful \<open>open\<close> adds one new descriptor, at position 0, for the file of that path, and
  leaves the other descriptors alone.
\<close>

theorem open_refines:
  assumes "vfs_ok v" "top_inode (memfs v) \<noteq> -1"
  shows "\<exists>fd v'. syscall_open s flags v = Some (fd, v') \<and> vfs_ok v' \<and>
    (let p = StrToPath s;
         creates = (view v p = None \<and> flags AND O_CREAT \<noteq> 0 \<and> view v (butlast p) = Some DirE)
     in view v' = (if creates then (view v)(p \<mapsto> FileE []) else view v) \<and>
        (if view v p \<noteq> None \<or> creates
         then fd \<ge> cur_fd v \<and> fd_names v' fd p \<and>
              (\<exists>f. fd_files v' = fd_files v @ [(fd, f)] \<and> of_pos f = 0 \<and>
                   of_opts f = (if creates then flags XOR O_CREAT else flags))
         else fd = -1 \<and> fd_files v' = fd_files v))"
proof (cases rule: open_view [OF assms, of "StrToPath s" flags])
  case (1 v' f)
  then show ?thesis by (intro exI [of _ "cur_fd v"] exI [of _ v']) (auto simp: syscall_open_def Let_def)
next
  case (2 v' f)
  then show ?thesis by (intro exI [of _ "cur_fd v + 1"] exI [of _ v']) (auto simp: syscall_open_def Let_def)
next
  case (3 v')
  then show ?thesis by (intro exI [of _ "-1"] exI [of _ v']) (auto simp: syscall_open_def Let_def)
qed

theorem open_refines_witness:
  "\<exists>fd v'. syscall_open ''//b/'' O_CREAT example_vfs = Some (fd, v') \<and> vfs_ok v' \<and>
     view v' = (view example_vfs)([''b''] \<mapsto> FileE []) \<and> fd_names v' fd [''b'']"
proof -
  have "StrToPath ''//b/'' = [''b'']" by code_simp
  then show ?thesis
    using open_refines [of example_vfs "''//b/''" O_CREAT] reach_ok [OF example_reach]
    by (auto simp: example_facts O_CREAT_def Let_def)
qed

text \<open>
  \<open>mkdir\<close> of a path below the root succeeds exactly when its parent is a directory.  It adds
  an empty directory at a path that is missing, and changes no path otherwise and no descriptor.
\<close>

theorem mkdir_refines:
  assumes "vfs_ok v" "top_inode (memfs v) \<noteq> -1" "p \<noteq> []"
  shows "\<exists>v'. vfs_mkdir p v = Some (view v (butlast p) = Some DirE, v') \<and> vfs_ok v' \<and> fd_files v' = fd_files v \<and>
     view v' = (if view v (butlast p) = Some DirE \<and> view v p = None then (view v)(p \<mapsto> DirE) else view v)"
  by (rule mkdir_view [OF assms(1,3,2)]) auto

theorem mkdir_refines_witness:
  "\<exists>v'. vfs_mkdir [''b''] example_vfs = Some (True, v') \<and> view v' = (view example_vfs)([''b''] \<mapsto> DirE)"
  using mkdir_refines [of example_vfs "[''b'']"] reach_ok [OF example_reach] by (auto simp: example_facts)

text \<open>
  C18: Bytes written through a descriptor are read back: \<open>write\<close> takes all of the buffer, and after
  \<open>lseek\<close> to the old position \<open>read\<close> returns exactly these bytes.  The file is changed at the
  written positions only, save that it grows with zeros to one byte more than the last one
  written; no other path and no other descriptor changes.
\<close>

theorem write_read:
  assumes "vfs_ok v" "fdt_get fd v = Some f" "fd_names v fd p" "view v p = Some (FileE dat)"
    "of_opts f AND O_WRONLY \<noteq> 0 \<or> of_opts f AND O_RDWR \<noteq> 0"
    "Suc (unat (of_pos f) + length buf) < 2 ^ 64" "length dat < 2 ^ 64"
  shows "\<exists>v1 v2 v3. syscall_write fd buf v = Some (word_of_nat (length buf), v1) \<and>
     syscall_lseek fd (of_pos f) v1 = (of_pos f, v2) \<and>
     syscall_read fd (word_of_nat (length buf)) v2 = Some (Some buf, v3) \<and> vfs_ok v3 \<and>
     view v3 = (view v)(p \<mapsto> FileE (written dat (unat (of_pos f)) buf)) \<and>
     (\<forall>g. g \<noteq> fd \<longrightarrow> fdt_get g v3 = fdt_get g v)"
proof -
  obtain i where f: "map_of (fd_files v) fd = Some f" "of_node f = MemNode i" "traverse_root (memfs v) p = Some (Some i)"
    and d: "map_of (inodes (memfs v)) i = Some (FileInode dat)"
    using fd_file [OF assms(2,3,4)] by blast
  let ?dat = "written dat (unat (of_pos f)) buf" and ?n = "word_of_nat (length buf) :: 64 word"
  obtain v1 where v1: "syscall_write fd buf v = Some (?n, v1)" "vfs_ok v1" "view v1 = (view v)(p \<mapsto> FileE ?dat)"
    "fd_files v1 = assign fd (f\<lparr>of_pos := of_pos f + ?n\<rparr>) (fd_files v)" "map_of (inodes (memfs v1)) i = Some (FileInode ?dat)"
    by (rule write_step [OF assms(1) f d assms(5), of buf]) (use assms(6) in auto)
  define v2 where "v2 = set_fd fd f v1"
  have fd1: "map_of (fd_files v1) fd = Some (f\<lparr>of_pos := of_pos f + ?n\<rparr>)" using f by (simp add: v1 map_of_assign)
  then have l: "syscall_lseek fd (of_pos f) v1 = (of_pos f, v2)"
    by (simp add: syscall_lseek_def fdt_get_def file_seek_def v2_def)
  have ok2: "vfs_ok v2" unfolding v2_def by (rule set_fd_ok [OF v1(2) fd1]) simp
  have fd2: "map_of (fd_files v2) fd = Some f" using fd1 by (simp add: v2_def set_fd_def map_of_assign)
  have d2: "map_of (inodes (memfs v2)) i = Some (FileInode ?dat)" using v1(5) by (simp add: v2_def set_fd_def)
  have n: "unat ?n = length buf" using assms(6) by (simp add: unat_of_nat take_bit_nat_eq_self)
  have len: "length ?dat < 2 ^ 64" "unat (of_pos f) \<le> length ?dat" using assms(6,7) by (auto simp: length_written)
  note r = read_step [OF ok2 fd2 f(2) d2 len, of ?n, unfolded n take_drop_written]
  let ?v3 = "set_fd fd (f\<lparr>of_pos := of_pos f + ?n\<rparr>) v2"
  have "view ?v3 = view v1" by (rule view_fds) (simp add: v2_def set_fd_def)
  moreover have "fdt_get g ?v3 = fdt_get g v" if "g \<noteq> fd" for g
    using that by (simp add: fdt_get_def v2_def set_fd_def v1 map_of_assign)
  ultimately show ?thesis using v1 l r by (intro exI [of _ v1] exI [of _ v2] exI [of _ ?v3]) simp
qed

theorem write_read_witness:
  "\<exists>v1 v2 v3. syscall_write 11 [1, 2, 3] example_vfs = Some (3, v1) \<and> syscall_lseek 11 0 v1 = (0, v2) \<and>
     syscall_read 11 3 v2 = Some (Some [1, 2, 3], v3) \<and> view v3 [''a''] = Some (FileE [1, 2, 3, 0])"
proof -
  let ?f = "\<lparr>of_node = MemNode 3, of_pos = 0, of_opts = O_RDWR\<rparr>"
  have w: "written [] 0 [1, 2, 3] = [1, 2, 3, 0]" by (simp add: written_def)
  have "\<exists>v1 v2 v3. syscall_write 11 [1, 2, 3] example_vfs = Some (word_of_nat (length [1, 2, 3 :: 8 word]), v1) \<and>
      syscall_lseek 11 (of_pos ?f) v1 = (of_pos ?f, v2) \<and>
      syscall_read 11 (word_of_nat (length [1, 2, 3 :: 8 word])) v2 = Some (Some [1, 2, 3], v3) \<and> vfs_ok v3 \<and>
      view v3 = (view example_vfs)([''a''] \<mapsto> FileE (written [] (unat (of_pos ?f)) [1, 2, 3])) \<and>
      (\<forall>g. g \<noteq> 11 \<longrightarrow> fdt_get g v3 = fdt_get g example_vfs)"
    by (rule write_read [OF reach_ok [OF example_reach] example_facts(1,3,2)]) (simp_all add: O_RDWR_def)
  then obtain v1 v2 v3 where "syscall_write 11 [1, 2, 3] example_vfs = Some (3, v1)" "syscall_lseek 11 0 v1 = (0, v2)"
      "syscall_read 11 3 v2 = Some (Some [1, 2, 3], v3)" "view v3 = (view example_vfs)([''a''] \<mapsto> FileE [1, 2, 3, 0])"
    by (auto simp: w)
  then show ?thesis by (intro exI [of _ v1] exI [of _ v2] exI [of _ v3]) simp
qed

text \<open>
  C39: Appending to a file leaves one zero byte behind the bytes written: \<open>write\<close> grows the
  file while its size is at most, and not only less than, the end of the write.
\<close>

theorem append_adds_zero:
  assumes "vfs_ok v" "fdt_get fd v = Some f" "fd_names v fd p" "view v p = Some (FileE dat)"
    "of_opts f AND O_WRONLY \<noteq> 0 \<or> of_opts f AND O_RDWR \<noteq> 0"
    "unat (of_pos f) = length dat" "length dat + length buf < 2 ^ 64"
  shows "\<exists>v'. syscall_write fd buf v = Some (word_of_nat (length buf), v') \<and> view v' p = Some (FileE (dat @ buf @ [0]))"
proof -
  obtain i where f: "map_of (fd_files v) fd = Some f" "of_node f = MemNode i" "traverse_root (memfs v) p = Some (Some i)"
    and d: "map_of (inodes (memfs v)) i = Some (FileInode dat)"
    using fd_file [OF assms(2,3,4)] by blast
  have "written dat (length dat) buf = dat @ buf @ [0]"
    by (simp add: written_def Let_def del: replicate.simps) (simp add: Suc_diff_le drop_replicate)
  moreover obtain v' where "syscall_write fd buf v = Some (word_of_nat (length buf), v')"
    "view v' = (view v)(p \<mapsto> FileE (written dat (unat (of_pos f)) buf))"
    by (rule write_step [OF assms(1) f d assms(5), of buf]) (use assms(6,7) in auto)
  ultimately show ?thesis using assms(6) by simp
qed

theorem append_adds_zero_witness:
  "\<exists>v'. syscall_write 11 [7] example_vfs = Some (1, v') \<and> view v' [''a''] = Some (FileE [7, 0])"
  using append_adds_zero [of example_vfs 11 "\<lparr>of_node = MemNode 3, of_pos = 0, of_opts = O_RDWR\<rparr>" "[''a'']" "[]" "[7]"]
    reach_ok [OF example_reach]
  by (simp add: example_facts O_RDWR_def)

text \<open>
  C40: Reading behind the end of a file is not caught: once \<open>lseek\<close> has moved the position past
  the size, the number of bytes left wraps around and a \<open>read\<close> of at least one byte accesses
  the data out of its bounds.
\<close>

theorem read_past_end:
  assumes "fdt_get fd v = Some f" "fd_names v fd p" "view v p = Some (FileE dat)"
    "length dat < unat off" "num \<noteq> 0"
  shows "syscall_read fd num (snd (syscall_lseek fd off v)) = None"
proof -
  obtain i where f: "map_of (fd_files v) fd = Some f" "of_node f = MemNode i" "traverse_root (memfs v) p = Some (Some i)"
    and d: "map_of (inodes (memfs v)) i = Some (FileInode dat)"
    using fd_file [OF assms(1,2,3)] by blast
  show ?thesis using f d memfs_read_past_end [OF assms(4,5)]
    by (simp add: syscall_lseek_def syscall_read_def file_seek_def fdt_get_def set_fd_def map_of_assign file_read_def)
qed

theorem read_past_end_witness: "syscall_read 11 1 (snd (syscall_lseek 11 5 example_vfs)) = None"
  by (rule read_past_end [of _ _ _ "[''a'']" "[]"]) (simp_all add: example_facts)

text \<open>
  A path name is taken apart into its components, whatever the number of slashes before
  each of them and at the end.
\<close>

theorem StrToPath_string:
  assumes "\<forall>(n, c) \<in> set cs. c \<noteq> [] \<and> CHR ''/'' \<notin> set c"
  shows "StrToPath (path_string cs @ replicate k (CHR ''/'')) = map snd cs"
  using str_to_path_string [OF assms, of k "[]" "[]"] by (cases cs) (auto simp: StrToPath_def)

theorem StrToPath_string_witness: "StrToPath ''/usr//bin/'' = [''usr'', ''bin'']"
  using StrToPath_string [of "[(0, ''usr''), (1, ''bin'')]" 1] by (simp add: numeral_2_eq_2)

end
