(* ===== verification/Kernel_TarFs.thy ===== *)
theory Kernel_TarFs
  imports Ficus_Base Kernel_Vfs "HOL-Library.Monad_Syntax"
begin

text \<open>
  The read-only file system on a tar archive (\<open>kernel/vfs/TarFs.cpp\<close>), from which the system starts its programs.

  The archive is the list of bytes that the boot loader has put in memory; a pointer to a header is an offset in it.
  \<open>None\<close> is a read outside the archive, a failed assertion, an iterator at the end of a map, or a constructor that does
  not return.  A node is its inode number, and directories and offsets are kept in the ordered map of the skip list, as in
  the theory of the in-memory file system.  The message about a skipped entry is not modelled.
\<close>

section \<open>Headers\<close>

record tarfs =
  tar_backing :: "byte list"
  off_map :: "(ino, nat) omap"
  tar_dirs :: "(ino, (string \<times> ino) list) omap"

text \<open>\<open>j\<close> and \<open>count\<close> of the loop over the octal digits; the sum is kept in an \<open>int\<close>.\<close>

fun header_size_loop :: "byte list \<Rightarrow> nat \<Rightarrow> nat \<Rightarrow> 64 word \<Rightarrow> 32 word \<Rightarrow> 32 word" where
  "header_size_loop b hdr 0 count sz = sz"
| "header_size_loop b hdr (Suc j) count sz =
     header_size_loop b hdr j (count * 8) (ucast (scast sz + (scast (b ! (hdr + 124 + j)) - 48) * count :: 64 word))"

definition header_size :: "byte list \<Rightarrow> nat \<Rightarrow> 64 word option" where
  "header_size b hdr = (if hdr + 135 \<le> length b then Some (scast (header_size_loop b hdr 11 1 0)) else None)"

text \<open>The string that starts at an address.\<close>

definition c_str :: "byte list \<Rightarrow> nat \<Rightarrow> string option" where
  "c_str b a =
     (if 0 \<in> set (drop a b) then Some (map (\<lambda>c. char_of (unat c)) (takeWhile (\<lambda>c. c \<noteq> 0) (drop a b))) else None)"

section \<open>Reading the archive\<close>

text \<open>The variables of the constructor: \<open>i\<close>, the local \<open>dir_map\<close>, and the object.\<close>

record tar_scan =
  next_ino :: nat
  dir_inos :: "(string, ino) omap"
  scan_fs :: tarfs

definition tar_pref :: "path \<Rightarrow> string" where
  "tar_pref p = (if length p > 1 then foldl (\<lambda>s c. s @ ''/'' @ c) (hd p) (subvector 1 (length p - 1) p) else [])"

definition tar_fullname :: "string \<Rightarrow> string \<Rightarrow> string" where
  "tar_fullname pref name = (if length pref > 0 then pref @ ''/'' else []) @ name"

definition add_dir :: "string \<Rightarrow> ino \<Rightarrow> tar_scan \<Rightarrow> tar_scan" where
  "add_dir name i s =
     s\<lparr>dir_inos := emplace name i (dir_inos s), scan_fs := (scan_fs s)\<lparr>tar_dirs := emplace i [] (tar_dirs (scan_fs s))\<rparr>\<rparr>"

text \<open>The entry is added to the directory \<open>pref\<close>, which is created when it is not known.\<close>

definition add_child :: "string \<Rightarrow> string \<Rightarrow> ino \<Rightarrow> tar_scan \<Rightarrow> tar_scan option" where
  "add_child pref name ino s =
     (let s = (if map_of (dir_inos s) pref = None
               then add_dir pref (word_of_nat (next_ino s)) (s\<lparr>next_ino := next_ino s + 1\<rparr>) else s)
      in do {
           p \<leftarrow> map_of (dir_inos s) pref;
           d \<leftarrow> map_of (tar_dirs (scan_fs s)) p;
           Some (s\<lparr>scan_fs := (scan_fs s)\<lparr>tar_dirs := assign p (d @ [(name, ino)]) (tar_dirs (scan_fs s))\<rparr>\<rparr>)
         })"

text \<open>A directory is made known and listed in its directory, a file is listed, other entries are skipped.\<close>

definition tar_add :: "byte \<Rightarrow> path \<Rightarrow> ino \<Rightarrow> tar_scan \<Rightarrow> tar_scan option" where
  "tar_add flag p ino s =
     (let pref = tar_pref p; name = last p
      in if flag = 0x35 then
           let full = tar_fullname pref name;
               s = (if map_of (dir_inos s) full = None then add_dir full ino s else s)
           in add_child pref name ino s
         else if flag = 0 \<or> flag = 0x30 then add_child pref name ino s
         else Some s)"

text \<open>The body of the loop: the next header and the state behind it.\<close>

definition tar_header :: "byte list \<Rightarrow> nat \<Rightarrow> tar_scan \<Rightarrow> (nat \<times> tar_scan) option" where
  "tar_header b hdr s = do {
     sz \<leftarrow> map_option ucast (header_size b hdr);
     let ino = word_of_nat (next_ino s);
     let s = s\<lparr>next_ino := next_ino s + 1, scan_fs := (scan_fs s)\<lparr>off_map := emplace ino hdr (off_map (scan_fs s))\<rparr>\<rparr>;
     p \<leftarrow> map_option StrToPath (c_str b hdr);
     if p = [] \<or> length b \<le> hdr + 156 then None
     else do {
       s \<leftarrow> tar_add (b ! (hdr + 156)) p ino s;
       Some (hdr + unat ((sz div 512 + 1) * 512 :: 32 word) + (if sz mod 512 \<noteq> 0 then 512 else 0), s)
     }
   }"

partial_function (option) tar_loop :: "byte list \<Rightarrow> nat \<Rightarrow> tar_scan \<Rightarrow> tarfs option" where
  "tar_loop b hdr s =
     (if length b \<le> hdr then None
      else if b ! hdr = 0 then Some (scan_fs s)
      else Option.bind (tar_header b hdr s) (\<lambda>(hdr, s). tar_loop b hdr s))"

definition TarFs :: "byte list \<Rightarrow> tarfs option" where
  "TarFs b =
     tar_loop b 0 \<lparr>next_ino = 2, dir_inos = emplace [] 1 [],
       scan_fs = \<lparr>tar_backing = b, off_map = [], tar_dirs = emplace 1 [] []\<rparr>\<rparr>"

section \<open>Nodes\<close>

text \<open>A node is a directory when its inode is in \<open>_dir_map\<close>; \<open>None\<close> is \<open>nullptr\<close>.\<close>

fun tar_traverse :: "tarfs \<Rightarrow> ino \<Rightarrow> path \<Rightarrow> ino option" where
  "tar_traverse t i [] = Some i"
| "tar_traverse t i (p # ps) =
     (case map_of (tar_dirs t) i of
        None \<Rightarrow> None
      | Some es \<Rightarrow> (case child_named es p of None \<Rightarrow> None | Some j \<Rightarrow> tar_traverse t j ps))"

definition tar_children :: "tarfs \<Rightarrow> ino \<Rightarrow> (string \<times> ino) list option" where
  "tar_children t i = map_of (tar_dirs t) i"

definition tar_size :: "tarfs \<Rightarrow> ino \<Rightarrow> 64 word option" where
  "tar_size t i = do { hdr \<leftarrow> map_of (off_map t) i; header_size (tar_backing t) hdr }"

definition tar_read :: "tarfs \<Rightarrow> ino \<Rightarrow> 64 word \<Rightarrow> 64 word \<Rightarrow> byte list option" where
  "tar_read t i start num = do {
     hdr \<leftarrow> map_of (off_map t) i;
     sz \<leftarrow> tar_size t i;
     read_loop (drop (hdr + 512) (tar_backing t)) start (unat (min num (sz - start)))
   }"

text \<open>The operations that would change the archive do nothing.\<close>

definition tar_mkdir :: "ino \<Rightarrow> string \<Rightarrow> tarfs \<Rightarrow> ino \<times> tarfs" where
  "tar_mkdir d name t = (-1, t)"

definition tar_mkfile :: "ino \<Rightarrow> string \<Rightarrow> tarfs \<Rightarrow> ino \<times> tarfs" where
  "tar_mkfile d name t = (-1, t)"

definition tar_write :: "ino \<Rightarrow> byte list \<Rightarrow> 64 word \<Rightarrow> tarfs \<Rightarrow> 64 word \<times> tarfs" where
  "tar_write i buf start t = (-1, t)"

section \<open>The size of an entry\<close>

definition octal :: "byte list \<Rightarrow> nat" where
  "octal = foldl (\<lambda>n c. n * 8 + (unat c - 48)) 0"

lemma ucast_int: "(ucast (word_of_int k :: 64 word) :: 32 word) = word_of_int k"
  by (simp add: unsigned_of_int) (transfer, simp add: min_def)

lemma ucast_nat: "(ucast (word_of_nat k :: 64 word) :: 32 word) = word_of_nat k"
  using ucast_int [of "int k"] by simp

lemma ucast_ring:
  fixes x y :: "64 word"
  shows "(ucast (x + y) :: 32 word) = ucast x + ucast y" "(ucast (x * y) :: 32 word) = ucast x * ucast y"
  using ucast_int [of "uint x + uint y"] ucast_int [of "uint x * uint y"] ucast_int [of "uint x"] ucast_int [of "uint y"]
  by simp_all

lemma scast_int:
  "- (2 ^ 31) \<le> k \<Longrightarrow> k < 2 ^ 31 \<Longrightarrow> (scast (word_of_int k :: 32 word) :: 64 word) = word_of_int k"
  "- (2 ^ 7) \<le> k \<Longrightarrow> k < 2 ^ 7 \<Longrightarrow> (scast (word_of_int k :: byte) :: 64 word) = word_of_int k"
  by (simp_all add: scast_eq signed_of_int signed_take_bit_int_eq_self)

lemma scast_digit:
  assumes "48 \<le> c" "c \<le> (0x37 :: byte)"
  shows "(scast c :: 64 word) - 48 = word_of_nat (unat c - 48)"
proof -
  have u: "48 \<le> unat c" "unat c \<le> 55" using assms by (simp_all add: word_le_nat_alt)
  then have "uint c < 128" "- 128 \<le> uint c" unfolding uint_nat by linarith+
  then have "(scast c :: 64 word) = word_of_nat (unat c)" using scast_int(2) [of "uint c"] by simp
  then show ?thesis using u by (simp add: of_nat_diff)
qed

lemma ucast_scast: "(ucast (scast (w :: 32 word) :: 64 word) :: 32 word) = w"
  unfolding scast_eq ucast_int by simp

lemma header_size_loop:
  assumes "hdr + 124 + j \<le> length b" "list_all (\<lambda>c. 48 \<le> c \<and> c \<le> 0x37) (take j (drop (hdr + 124) b))"
  shows "header_size_loop b hdr j count sz = sz + ucast count * word_of_nat (octal (take j (drop (hdr + 124) b)))"
  using assms
proof (induction j arbitrary: count sz)
  case (Suc j)
  let ?c = "b ! (hdr + 124 + j)"
  have t: "take (Suc j) (drop (hdr + 124) b) = take j (drop (hdr + 124) b) @ [?c]"
    using Suc.prems(1) by (simp add: take_Suc_conv_app_nth)
  have c: "(scast ?c :: 64 word) - 48 = word_of_nat (unat ?c - 48)" using Suc.prems(2) t by (intro scast_digit) auto
  have w: "(ucast (scast sz + (scast ?c - 48) * count :: 64 word) :: 32 word) = sz + word_of_nat (unat ?c - 48) * ucast count"
    unfolding c ucast_ring ucast_nat ucast_scast ..
  have o: "octal (take (Suc j) (drop (hdr + 124) b)) = octal (take j (drop (hdr + 124) b)) * 8 + (unat ?c - 48)"
    unfolding t octal_def by simp
  have e: "(ucast (count * 8) :: 32 word) = ucast count * 8" unfolding ucast_ring by simp
  have "header_size_loop b hdr j (count * 8) s = s + ucast (count * 8) * word_of_nat (octal (take j (drop (hdr + 124) b)))" for s
    using Suc.prems t by (intro Suc.IH) auto
  then show ?case unfolding header_size_loop.simps w o e of_nat_add of_nat_mult by (simp add: ring_distribs mult_ac add_ac)
qed (simp add: octal_def)

lemma header_size_octal:
  assumes "hdr + 135 \<le> length b" "list_all (\<lambda>c. 48 \<le> c \<and> c \<le> 0x37) (take 11 (drop (hdr + 124) b))"
    and "octal (take 11 (drop (hdr + 124) b)) < 2 ^ 31"
  shows "header_size b hdr = Some (word_of_nat (octal (take 11 (drop (hdr + 124) b))))"
proof -
  let ?n = "octal (take 11 (drop (hdr + 124) b))"
  have "header_size_loop b hdr 11 1 0 = word_of_int (int ?n)" using header_size_loop [of hdr 11 b 1 0] assms(1,2) by simp
  moreover have "(scast (word_of_int (int ?n) :: 32 word) :: 64 word) = word_of_int (int ?n)"
    using assms(3) by (intro scast_int(1)) simp_all
  ultimately show ?thesis using assms(1) unfolding header_size_def by simp
qed


section \<open>Archives\<close>

text \<open>An entry: its path, the type flag and the data.  Directories and regular files are listed, other entries are not.\<close>

type_synonym tar_entry = "path \<times> byte \<times> byte list"

definition is_dir :: "tar_entry \<Rightarrow> bool" where
  "is_dir e \<longleftrightarrow> fst (snd e) = 0x35"

definition listed :: "tar_entry \<Rightarrow> bool" where
  "listed e \<longleftrightarrow> fst (snd e) \<in> {0x35, 0, 0x30}"

text \<open>
  The archive \<open>b\<close> has the entries from \<open>off\<close> on: a header of 512 bytes with the name in the first 100, the size in 11 octal
  digits and the type flag, then the data in blocks of 512 bytes; a zero byte follows the last entry.
\<close>

definition entry_at :: "byte list \<Rightarrow> nat \<Rightarrow> tar_entry \<Rightarrow> bool" where
  "entry_at b off e \<longleftrightarrow> (case e of (p, flag, dat) \<Rightarrow>
     off + 512 + length dat \<le> length b \<and>
     0 \<in> set (take 100 (drop off b)) \<and>
     StrToPath (map (\<lambda>c. char_of (unat c)) (takeWhile (\<lambda>c. c \<noteq> 0) (take 100 (drop off b)))) = p \<and>
     list_all (\<lambda>c. 48 \<le> c \<and> c \<le> 0x37) (take 11 (drop (off + 124) b)) \<and>
     octal (take 11 (drop (off + 124) b)) = length dat \<and>
     b ! (off + 156) = flag \<and>
     take (length dat) (drop (off + 512) b) = dat)"

fun tar_archive :: "byte list \<Rightarrow> nat \<Rightarrow> tar_entry list \<Rightarrow> bool" where
  "tar_archive b off [] \<longleftrightarrow> off < length b \<and> b ! off = 0"
| "tar_archive b off (e # es) \<longleftrightarrow>
     entry_at b off e \<and> b ! off \<noteq> 0 \<and> tar_archive b (off + 512 + 512 * ((length (snd (snd e)) + 511) div 512)) es"

text \<open>
  The entries are a tree: paths occur once and are not empty, and the directory of an entry comes before it.  The inode
  numbers and the sizes do not overflow.
\<close>

definition entries_ok :: "tar_entry list \<Rightarrow> bool" where
  "entries_ok es \<longleftrightarrow> length es \<le> 65533 \<and> distinct (map fst es) \<and>
     (\<forall>k < length es. fst (es ! k) \<noteq> [] \<and> length (snd (snd (es ! k))) < 2 ^ 31 \<and>
        (butlast (fst (es ! k)) = [] \<or> (\<exists>j < k. fst (es ! j) = butlast (fst (es ! k)) \<and> is_dir (es ! j))))"

lemma entry_at_header:
  assumes "entry_at b off e" "length (snd (snd e)) < 2 ^ 31"
  shows "header_size b off = Some (word_of_nat (length (snd (snd e))))"
    and "map_option StrToPath (c_str b off) = Some (fst e)" "b ! (off + 156) = fst (snd e)" "off + 156 < length b"
proof -
  obtain p flag dat where e: "e = (p, flag, dat)" by (cases e)
  note a = assms(1) [unfolded entry_at_def e prod.case]
  show "header_size b off = Some (word_of_nat (length (snd (snd e))))"
    using header_size_octal [of off b] a assms(2) by (simp add: e)
  have "drop off b = take 100 (drop off b) @ drop 100 (drop off b)" by (rule append_take_drop_id [symmetric])
  then have "takeWhile (\<lambda>c. c \<noteq> 0) (drop off b) = takeWhile (\<lambda>c. c \<noteq> 0) (take 100 (drop off b))" "0 \<in> set (drop off b)"
    using a takeWhile_append1 [of 0 "take 100 (drop off b)" "\<lambda>c. c \<noteq> 0" "drop 100 (drop off b)"] by (simp, metis in_set_takeD)
  then show "map_option StrToPath (c_str b off) = Some (fst e)" using a by (simp add: c_str_def e)
  show "b ! (off + 156) = fst (snd e)" "off + 156 < length b" using a by (simp_all add: e)
qed

lemma next_header:
  fixes sz :: "32 word"
  assumes "n < 2 ^ 31" "sz = word_of_nat n"
  shows "unat ((sz div 512 + 1) * 512) + (if sz mod 512 \<noteq> 0 then 512 else 0) = 512 + 512 * ((n + 511) div 512)"
proof -
  have u: "unat sz = n" using assms by (simp add: unat_of_nat)
  have d: "unat (sz div 512 + 1) = n div 512 + 1" by (subst unat_add_lem [THEN iffD1]) (use u assms in \<open>simp_all add: unat_div\<close>)
  then have "unat ((sz div 512 + 1) * 512) = (n div 512 + 1) * 512"
    by (subst unat_mult_lem [THEN iffD1]) (use assms in simp_all)
  moreover have "unat (sz mod 512) = n mod 512" using u by (simp add: unat_mod)
  then have "sz mod 512 = 0 \<longleftrightarrow> n mod 512 = 0" by (metis unat_eq_zero)
  moreover have "(n + 511) div 512 = n div 512 + (if n mod 512 = 0 then 0 else 1)"
  proof -
    have "(n + 511) div 512 = (n mod 512 + 511 + 512 * (n div 512)) div 512" by (metis add.assoc add.commute mod_mult_div_eq)
    also have "\<dots> = n div 512 + (n mod 512 + 511) div 512" by (rule div_mult_self2) simp
    also have "(n mod 512 + 511) div 512 = (if n mod 512 = 0 then 0 else 1)"
      using mod_less_divisor [of 512 n] by (auto intro!: div_nat_eqI)
    finally show ?thesis .
  qed
  ultimately show ?thesis by simp
qed

section \<open>Names of directories\<close>

definition path_join :: "path \<Rightarrow> string" where
  "path_join p = (case p of [] \<Rightarrow> [] | c # cs \<Rightarrow> foldl (\<lambda>s c. s @ ''/'' @ c) c cs)"

definition names_ok :: "path \<Rightarrow> bool" where
  "names_ok p \<longleftrightarrow> (\<forall>c \<in> set p. c \<noteq> [] \<and> CHR ''/'' \<notin> set c)"

lemma names_ok_simps [simp]:
  "names_ok []" "names_ok (c # p) \<longleftrightarrow> c \<noteq> [] \<and> CHR ''/'' \<notin> set c \<and> names_ok p" "names_ok (p @ q) \<longleftrightarrow> names_ok p \<and> names_ok q"
  by (auto simp: names_ok_def)

lemma names_ok_butlast: "names_ok p \<Longrightarrow> names_ok (butlast p)"
  unfolding names_ok_def by (blast dest: in_set_butlastD)

lemma names_ok_last: "names_ok p \<Longrightarrow> p \<noteq> [] \<Longrightarrow> last p \<noteq> []"
  unfolding names_ok_def by (meson last_in_set)

lemma str_to_path_names:
  "names_ok out \<Longrightarrow> CHR ''/'' \<notin> set buf \<Longrightarrow> names_ok (str_to_path s buf out)"
proof (induction s arbitrary: buf out)
  case (Cons c s)
  then show ?case by (cases "c = CHR ''/''"; cases "buf = []") simp_all
qed simp

lemma StrToPath_names: "names_ok (StrToPath s)"
  using str_to_path_names [of "[]" "[]" s] by (simp add: StrToPath_def)

lemma path_join_snoc: "p \<noteq> [] \<Longrightarrow> path_join (p @ [c]) = path_join p @ ''/'' @ c"
  by (auto simp: path_join_def split: list.splits)

lemma path_join_Nil: "names_ok p \<Longrightarrow> path_join p = [] \<longleftrightarrow> p = []"
  by (induction p rule: rev_induct) (auto simp: path_join_def split: list.splits)

lemma str_to_path_join:
  "names_ok p \<Longrightarrow> p \<noteq> [] \<Longrightarrow> str_to_path (path_join p @ s) [] out = str_to_path s (last p) (out @ butlast p)"
proof (induction p arbitrary: s rule: rev_induct)
  case (snoc c p)
  show ?case
  proof (cases "p = []")
    case True
    then show ?thesis using snoc.prems str_to_path_append [of c s "[]" out] by (simp add: path_join_def)
  next
    case False
    then show ?thesis using snoc str_to_path_append [of c s "[]" "out @ p"] names_ok_last [of p] by (simp add: path_join_snoc)
  qed
qed simp

lemma StrToPath_join: "names_ok p \<Longrightarrow> StrToPath (path_join p) = p"
  using str_to_path_join [of p "[]" "[]"] path_join_Nil [of p] names_ok_last [of p] by (cases "p = []") (auto simp: StrToPath_def)

lemma path_join_inj: "names_ok p \<Longrightarrow> names_ok q \<Longrightarrow> path_join p = path_join q \<longleftrightarrow> p = q"
  using StrToPath_join by metis

lemma tar_pref_join: "tar_pref p = path_join (butlast p)"
proof (cases "length p > 1")
  case True
  then obtain a q x where p: "p = a # q @ [x]" by (metis Suc_lessE butlast.simps(2) length_0_conv length_Suc_conv less_Suc0 list.exhaust rev_exhaust zero_less_Suc One_nat_def append_butlast_last_id less_irrefl_nat)
  then show ?thesis by (simp add: tar_pref_def path_join_def subvector_def)
next
  case False
  then show ?thesis by (cases p) (simp_all add: tar_pref_def path_join_def)
qed

lemma tar_fullname_join: "names_ok p \<Longrightarrow> p \<noteq> [] \<Longrightarrow> tar_fullname (path_join (butlast p)) (last p) = path_join p"
proof (induction p rule: rev_induct)
  case (snoc c p)
  then show ?case using path_join_Nil [of p] by (cases "p = []") (simp_all add: tar_fullname_def path_join_snoc, simp add: path_join_def)
qed simp

section \<open>The invariant of the constructor\<close>

text \<open>
  The entries \<open>ds\<close> have been read; the entry with index \<open>k\<close> has the inode \<open>k + 2\<close>.  \<open>dir_nodes\<close> are the directories with
  their paths, \<open>kids\<close> the entries of a directory.
\<close>

definition entry_ino :: "nat \<Rightarrow> ino" where
  "entry_ino k = word_of_nat (k + 2)"

definition dir_nodes :: "tar_entry list \<Rightarrow> (ino \<times> path) set" where
  "dir_nodes ds = insert (1, []) ((\<lambda>k. (entry_ino k, fst (ds ! k))) ` {k. k < length ds \<and> is_dir (ds ! k)})"

definition kids :: "tar_entry list \<Rightarrow> path \<Rightarrow> (string \<times> ino) list" where
  "kids ds q =
     map (\<lambda>k. (last (fst (ds ! k)), entry_ino k)) (filter (\<lambda>k. listed (ds ! k) \<and> butlast (fst (ds ! k)) = q) [0..<length ds])"

definition scan_inv :: "byte list \<Rightarrow> tar_entry list \<Rightarrow> tar_scan \<Rightarrow> bool" where
  "scan_inv b ds s \<longleftrightarrow>
     next_ino s = length ds + 2 \<and> tar_backing (scan_fs s) = b \<and>
     omap_ok (dir_inos s) \<and> omap_ok (tar_dirs (scan_fs s)) \<and> omap_ok (off_map (scan_fs s)) \<and>
     (\<forall>p i. names_ok p \<longrightarrow> (map_of (dir_inos s) (path_join p) = Some i \<longleftrightarrow> (i, p) \<in> dir_nodes ds)) \<and>
     (\<forall>i c. map_of (tar_dirs (scan_fs s)) i = Some c \<longleftrightarrow> (\<exists>p. (i, p) \<in> dir_nodes ds \<and> c = kids ds p)) \<and>
     (\<forall>i. map_of (off_map (scan_fs s)) i \<noteq> None \<longrightarrow> i \<in> entry_ino ` {..<length ds}) \<and>
     (\<forall>k < length ds. \<exists>h. map_of (off_map (scan_fs s)) (entry_ino k) = Some h \<and> entry_at b h (ds ! k))"

lemma unat_entry_ino: "k < 65534 \<Longrightarrow> unat (entry_ino k) = k + 2"
  unfolding entry_ino_def unat_of_nat by (simp add: take_bit_nat_eq_self)

lemma entry_ino_inj: "j < 65534 \<Longrightarrow> k < 65534 \<Longrightarrow> entry_ino j = entry_ino k \<longleftrightarrow> j = k"
  by (metis unat_entry_ino add_right_cancel)

lemma entry_ino_root: "k < 65534 \<Longrightarrow> entry_ino k \<noteq> 1"
  using unat_entry_ino [of k] by auto

lemma dir_nodes_snoc: "dir_nodes (ds @ [e]) = dir_nodes ds \<union> (if is_dir e then {(entry_ino (length ds), fst e)} else {})"
proof -
  have "{k. k < length (ds @ [e]) \<and> is_dir ((ds @ [e]) ! k)} =
      {k. k < length ds \<and> is_dir (ds ! k)} \<union> (if is_dir e then {length ds} else {})"
    by (auto simp: nth_append less_Suc_eq)
  moreover have "(\<lambda>k. (entry_ino k, fst ((ds @ [e]) ! k))) ` {k. k < length ds \<and> is_dir (ds ! k)} =
      (\<lambda>k. (entry_ino k, fst (ds ! k))) ` {k. k < length ds \<and> is_dir (ds ! k)}"
    by (rule image_cong) (auto simp: nth_append)
  ultimately show ?thesis unfolding dir_nodes_def by (simp add: image_Un)
qed

lemma kids_snoc:
  "kids (ds @ [e]) q = kids ds q @ (if listed e \<and> butlast (fst e) = q then [(last (fst e), entry_ino (length ds))] else [])"
  unfolding kids_def by (auto simp: nth_append intro!: map_cong filter_cong)

lemma dir_nodesI: "(1, []) \<in> dir_nodes ds" "k < length ds \<Longrightarrow> is_dir (ds ! k) \<Longrightarrow> (entry_ino k, fst (ds ! k)) \<in> dir_nodes ds"
  unfolding dir_nodes_def by auto

lemma dir_nodes_bound: "(i, p) \<in> dir_nodes ds \<Longrightarrow> i = 1 \<and> p = [] \<or> (\<exists>k < length ds. i = entry_ino k \<and> p = fst (ds ! k) \<and> is_dir (ds ! k))"
  unfolding dir_nodes_def by auto

lemma entries_okD:
  assumes "entries_ok es" "k < length es"
  shows "k < 65533" "fst (es ! k) \<noteq> []" "length (snd (snd (es ! k))) < 2 ^ 31"
    "butlast (fst (es ! k)) = [] \<or> (\<exists>j < k. fst (es ! j) = butlast (fst (es ! k)) \<and> is_dir (es ! j))"
    "j < length es \<Longrightarrow> fst (es ! j) = fst (es ! k) \<Longrightarrow> j = k"
proof -
  note ok = assms(1) [unfolded entries_ok_def]
  show "k < 65533" "fst (es ! k) \<noteq> []" "length (snd (snd (es ! k))) < 2 ^ 31"
    "butlast (fst (es ! k)) = [] \<or> (\<exists>j < k. fst (es ! j) = butlast (fst (es ! k)) \<and> is_dir (es ! j))" using ok assms(2) by auto
  show "j < length es \<Longrightarrow> fst (es ! j) = fst (es ! k) \<Longrightarrow> j = k"
    using ok assms(2) nth_eq_iff_index_eq [of "map fst es" j k] by simp
qed

lemma entries_ok_prefix: "entries_ok (ds @ es) \<Longrightarrow> entries_ok ds"
proof -
  assume ok: "entries_ok (ds @ es)"
  have "fst (ds ! k) \<noteq> [] \<and> length (snd (snd (ds ! k))) < 2 ^ 31 \<and>
      (butlast (fst (ds ! k)) = [] \<or> (\<exists>j < k. fst (ds ! j) = butlast (fst (ds ! k)) \<and> is_dir (ds ! j)))" if k: "k < length ds" for k
  proof -
    have e: "(ds @ es) ! j = ds ! j" if "j \<le> k" for j using that k by (simp add: nth_append)
    have "k < length (ds @ es)" using k by simp
    from entries_okD(2-4) [OF ok this] show ?thesis unfolding e [OF order_refl] using e by (metis less_imp_le)
  qed
  then show ?thesis using ok unfolding entries_ok_def by simp
qed

lemma dir_nodes_fun:
  assumes "entries_ok ds" "(i, p) \<in> dir_nodes ds" "(j, q) \<in> dir_nodes ds"
  shows "i = j \<longleftrightarrow> p = q"
proof -
  have root: "entry_ino k \<noteq> 1" "fst (ds ! k) \<noteq> []" if "k < length ds" for k
    using entries_okD(1,2) [OF assms(1) that] entry_ino_root [of k] by auto
  have "entry_ino k = entry_ino l \<longleftrightarrow> fst (ds ! k) = fst (ds ! l)" if "k < length ds" "l < length ds" for k l
    using entry_ino_inj [of k l] entries_okD(1) [OF assms(1) that(1)] entries_okD(1,5) [OF assms(1) that(2)] that(1) by auto
  then show ?thesis using dir_nodes_bound [OF assms(2)] dir_nodes_bound [OF assms(3)] root by metis
qed

lemma fresh_entry:
  assumes ok: "entries_ok (ds @ [e])"
  shows "fst e \<noteq> []" "length (snd (snd e)) < 2 ^ 31" "\<exists>i. (i, butlast (fst e)) \<in> dir_nodes ds"
    "(i, fst e) \<notin> dir_nodes ds" "(entry_ino (length ds), p) \<notin> dir_nodes ds" "kids (ds @ [e]) (fst e) = []"
    "entry_ino (length ds) \<notin> entry_ino ` {..<length ds}"
proof -
  have n: "length ds < length (ds @ [e])" "(ds @ [e]) ! length ds = e" by simp_all
  have b: "k < 65533" if "k \<le> length ds" for k using entries_okD(1) [OF ok n(1)] that by simp
  have u: "fst (ds ! k) \<noteq> fst e" if "k < length ds" for k
    using entries_okD(5) [OF ok n(1), of k] that by (auto simp: nth_append)
  show ne: "fst e \<noteq> []" "length (snd (snd e)) < 2 ^ 31" using entries_okD(2,3) [OF ok n(1)] by simp_all
  have "butlast (fst e) = [] \<or> (\<exists>j < length ds. fst (ds ! j) = butlast (fst e) \<and> is_dir (ds ! j))"
    using entries_okD(4) [OF ok n(1)] by (auto simp: nth_append)
  then show "\<exists>i. (i, butlast (fst e)) \<in> dir_nodes ds" using dir_nodesI by metis
  show "(i, fst e) \<notin> dir_nodes ds" using dir_nodes_bound [of i "fst e" ds] u ne by metis
  have i: "entry_ino (length ds) \<noteq> entry_ino k" if "k < length ds" for k
    using entry_ino_inj [of "length ds" k] b [of k] b [of "length ds"] that by simp
  then show "entry_ino (length ds) \<notin> entry_ino ` {..<length ds}" by auto
  show "(entry_ino (length ds), p) \<notin> dir_nodes ds"
    using dir_nodes_bound [of "entry_ino (length ds)" p ds] i entry_ino_root [of "length ds"] b [of "length ds"] by auto
  have "butlast (fst ((ds @ [e]) ! k)) \<noteq> fst e" if k: "k < length (ds @ [e])" for k
  proof
    assume e: "butlast (fst ((ds @ [e]) ! k)) = fst e"
    then obtain j where j: "j < k" "fst ((ds @ [e]) ! j) = fst e" using entries_okD(4) [OF ok k] ne by auto
    then have "j < length ds" using k by simp
    then show False using u [of j] j(2) by (simp add: nth_append)
  qed
  then show "kids (ds @ [e]) (fst e) = []" unfolding kids_def map_is_Nil_conv filter_empty_conv by (metis atLeastLessThan_iff set_upt)
qed

lemma scan_invD:
  assumes "scan_inv b ds s"
  shows "next_ino s = length ds + 2" "tar_backing (scan_fs s) = b"
    "omap_ok (dir_inos s)" "omap_ok (tar_dirs (scan_fs s))" "omap_ok (off_map (scan_fs s))"
    "names_ok p \<Longrightarrow> map_of (dir_inos s) (path_join p) = Some i \<longleftrightarrow> (i, p) \<in> dir_nodes ds"
    "map_of (tar_dirs (scan_fs s)) i = Some c \<longleftrightarrow> (\<exists>p. (i, p) \<in> dir_nodes ds \<and> c = kids ds p)"
    "map_of (off_map (scan_fs s)) i \<noteq> None \<Longrightarrow> i \<in> entry_ino ` {..<length ds}"
    "k < length ds \<Longrightarrow> \<exists>h. map_of (off_map (scan_fs s)) (entry_ino k) = Some h \<and> entry_at b h (ds ! k)"
  using assms unfolding scan_inv_def by blast+

text \<open>The effect of an entry on each of the maps.\<close>

lemma off_map_step:
  assumes inv: "scan_inv b ds s" and ok: "entries_ok (ds @ [e])" and at: "entry_at b hdr e"
    and m: "m = emplace (entry_ino (length ds)) hdr (off_map (scan_fs s))"
  shows "omap_ok m" "map_of m i \<noteq> None \<Longrightarrow> i \<in> entry_ino ` {..<length (ds @ [e])}"
    "k < length (ds @ [e]) \<Longrightarrow> \<exists>h. map_of m (entry_ino k) = Some h \<and> entry_at b h ((ds @ [e]) ! k)"
proof -
  note old = scan_invD(5,8,9) [OF inv]
  show "omap_ok m" unfolding m by (rule omap_ok_emplace [OF old(1)])
  have new: "map_of (off_map (scan_fs s)) (entry_ino (length ds)) = None" using old(2) fresh_entry(7) [OF ok] by blast
  have m': "map_of m = (map_of (off_map (scan_fs s)))(entry_ino (length ds) \<mapsto> hdr)"
    unfolding m by (rule ext) (simp add: map_of_emplace [OF old(1)] new)
  show "map_of m i \<noteq> None \<Longrightarrow> i \<in> entry_ino ` {..<length (ds @ [e])}"
    using old(2) [of i] unfolding m' by (auto split: if_splits)
  show "\<exists>h. map_of m (entry_ino k) = Some h \<and> entry_at b h ((ds @ [e]) ! k)" if "k < length (ds @ [e])"
  proof (cases "k = length ds")
    case True
    then show ?thesis unfolding m' using at by simp
  next
    case False
    then have "k < length ds" using that by simp
    moreover from this have "entry_ino k \<noteq> entry_ino (length ds)" using fresh_entry(7) [OF ok] by (metis imageI lessThan_iff)
    ultimately show ?thesis unfolding m' using old(3) [of k] by (simp add: nth_append)
  qed
qed

lemma dir_inos_step:
  assumes inv: "scan_inv b ds s" and ok: "entries_ok (ds @ [e])" and p: "names_ok (fst e)"
    and m: "m = (if is_dir e then emplace (path_join (fst e)) (entry_ino (length ds)) (dir_inos s) else dir_inos s)"
  shows "omap_ok m" "names_ok q \<Longrightarrow> map_of m (path_join q) = Some i \<longleftrightarrow> (i, q) \<in> dir_nodes (ds @ [e])"
proof -
  note old = scan_invD(3,6) [OF inv]
  show "omap_ok m" unfolding m using old(1) by (simp add: omap_ok_emplace)
  have new: "map_of (dir_inos s) (path_join (fst e)) = None" using old(2) [OF p] fresh_entry(4) [OF ok] by (cases "map_of (dir_inos s) (path_join (fst e))") auto
  show "map_of m (path_join q) = Some i \<longleftrightarrow> (i, q) \<in> dir_nodes (ds @ [e])" if q: "names_ok q"
    using old(2) [OF q] fresh_entry(4) [OF ok] unfolding m dir_nodes_snoc
    by (cases "q = fst e") (auto simp: map_of_emplace [OF old(1)] new path_join_inj [OF q p])
qed

lemma tar_dirs_step:
  assumes inv: "scan_inv b ds s" and ok: "entries_ok (ds @ [e])" and d: "(d, butlast (fst e)) \<in> dir_nodes ds"
    and m: "m = (if is_dir e then emplace (entry_ino (length ds)) [] (tar_dirs (scan_fs s)) else tar_dirs (scan_fs s))"
    and m': "m' = (if listed e then assign d (kids ds (butlast (fst e)) @ [(last (fst e), entry_ino (length ds))]) m else m)"
    and l: "is_dir e \<Longrightarrow> listed e"
  shows "omap_ok m'" "map_of m d = Some (kids ds (butlast (fst e)))"
    "map_of m' i = Some c \<longleftrightarrow> (\<exists>p. (i, p) \<in> dir_nodes (ds @ [e]) \<and> c = kids (ds @ [e]) p)"
proof -
  let ?n = "entry_ino (length ds)" and ?q = "butlast (fst e)"
  note old = scan_invD(4,7) [OF inv] and f = dir_nodes_fun [OF entries_ok_prefix [OF ok]]
  have n: "?n \<noteq> d" "map_of (tar_dirs (scan_fs s)) ?n = None"
    using d fresh_entry(5) [OF ok] old(2) [of ?n] by (blast, metis option.exhaust)
  have em: "map_of m i = (if is_dir e \<and> i = ?n then Some [] else map_of (tar_dirs (scan_fs s)) i)" for i
    unfolding m by (simp add: map_of_emplace [OF old(1)] n(2))
  show md: "map_of m d = Some (kids ds ?q)" using old(2) [of d] d n(1) by (auto simp: em)
  show "omap_ok m'" unfolding m' m using old(1) by (simp add: omap_ok_emplace)
  have m'i: "map_of m' i = (if listed e \<and> i = d then Some (kids ds ?q @ [(last (fst e), ?n)]) else map_of m i)"
    unfolding m' using md by (simp add: map_of_assign)
  show "map_of m' i = Some c \<longleftrightarrow> (\<exists>p. (i, p) \<in> dir_nodes (ds @ [e]) \<and> c = kids (ds @ [e]) p)"
  proof (cases "i = ?n")
    case True
    then show ?thesis using n fresh_entry(5,6) [OF ok] unfolding m'i em dir_nodes_snoc by auto
  next
    case False
    have kid: "kids (ds @ [e]) p = (if listed e \<and> i = d then kids ds ?q @ [(last (fst e), ?n)] else kids ds p)"
      if "(i, p) \<in> dir_nodes ds" for p unfolding kids_snoc using f [OF d that] by auto
    have "(\<exists>p. (i, p) \<in> dir_nodes ds \<and> c = kids (ds @ [e]) p) \<longleftrightarrow> map_of m' i = Some c"
    proof (cases "listed e \<and> i = d")
      case True
      then show ?thesis unfolding m'i using d kid by auto
    next
      case other: False
      then show ?thesis unfolding m'i em using old(2) [of i c] False kid by (metis (no_types, lifting))
    qed
    then show ?thesis using False unfolding dir_nodes_snoc by auto
  qed
qed

lemma add_child_known:
  assumes "map_of (dir_inos s) pref = Some i" "map_of (tar_dirs (scan_fs s)) i = Some c"
  shows "add_child pref name n s = Some (s\<lparr>scan_fs := (scan_fs s)\<lparr>tar_dirs := assign i (c @ [(name, n)]) (tar_dirs (scan_fs s))\<rparr>\<rparr>)"
  using assms by (simp add: add_child_def)

lemma scan_step:
  assumes inv: "scan_inv b ds s" and ok: "entries_ok (ds @ [e])" and at: "entry_at b hdr e"
  obtains s' where "tar_header b hdr s = Some (hdr + 512 + 512 * ((length (snd (snd e)) + 511) div 512), s')"
    "scan_inv b (ds @ [e]) s'"
proof -
  let ?n = "entry_ino (length ds)" and ?p = "fst e" and ?q = "butlast (fst e)"
  note new = fresh_entry [OF ok] and hd = entry_at_header [OF at fresh_entry(2) [OF ok]]
  have p: "names_ok ?p" using at StrToPath_names by (cases e) (auto simp: entry_at_def)
  note q = names_ok_butlast [OF p]
  obtain d where d: "(d, ?q) \<in> dir_nodes ds" using new(3) by blast
  define om where "om = emplace ?n hdr (off_map (scan_fs s))"
  define di where "di = (if is_dir e then emplace (path_join ?p) ?n (dir_inos s) else dir_inos s)"
  define m where "m = (if is_dir e then emplace ?n [] (tar_dirs (scan_fs s)) else tar_dirs (scan_fs s))"
  define m' where "m' = (if listed e then assign d (kids ds ?q @ [(last ?p, ?n)]) m else m)"
  define s' where "s' = s\<lparr>next_ino := length ds + 2 + 1, dir_inos := di, scan_fs := (scan_fs s)\<lparr>off_map := om, tar_dirs := m'\<rparr>\<rparr>"
  have l: "is_dir e \<Longrightarrow> listed e" by (simp add: is_dir_def listed_def)
  note t = tar_dirs_step [OF inv ok d m_def m'_def l] and o = off_map_step [OF inv ok at om_def] and i = dir_inos_step [OF inv ok p di_def]
  have inv': "scan_inv b (ds @ [e]) s'"
    unfolding scan_inv_def s'_def using t(1,3) o i scan_invD(2) [OF inv] by simp
  have pq: "map_of di (path_join ?q) = Some d" using i(2) [OF q] d unfolding dir_nodes_snoc by blast
  have fresh: "map_of (dir_inos s) (path_join ?p) = None"
    using scan_invD(6) [OF inv p] new(4) by (metis option.exhaust)
  have full: "tar_fullname (path_join ?q) (last ?p) = path_join ?p" by (rule tar_fullname_join [OF p new(1)])
  have ino: "word_of_nat (length ds + 2) = ?n" by (simp add: entry_ino_def)
  have nx: "unat ((ucast (word_of_nat (length (snd (snd e))) :: 64 word) div 512 + 1) * 512 :: 32 word) +
      (if (ucast (word_of_nat (length (snd (snd e))) :: 64 word) mod 512 :: 32 word) \<noteq> 0 then 512 else 0) =
      512 + 512 * ((length (snd (snd e)) + 511) div 512)"
    by (rule next_header [OF new(2)]) (rule ucast_nat)
  define s1 where "s1 = s\<lparr>next_ino := length ds + 2 + 1, scan_fs := (scan_fs s)\<lparr>off_map := om\<rparr>\<rparr>"
  define s2 where "s2 = (if is_dir e then add_dir (path_join ?p) ?n s1 else s1)"
  have s2: "dir_inos s2 = di" "tar_dirs (scan_fs s2) = m" by (simp_all add: s2_def s1_def add_dir_def di_def m_def)
  have s': "(if listed e then add_child (path_join ?q) (last ?p) ?n s2 else Some s2) = Some s'"
    using add_child_known [of s2 "path_join ?q" d "kids ds ?q" "last ?p" ?n] pq t(2) s2 l
    by (auto simp: s'_def s2_def s1_def add_dir_def di_def m'_def m_def)
  have "map_of (dir_inos s1) (path_join ?p) = None" using fresh by (simp add: s1_def)
  then have "tar_add (fst (snd e)) ?p ?n s1 = Some s'"
    using s' unfolding tar_add_def tar_pref_join full Let_def by (auto simp: s2_def is_dir_def listed_def split: if_splits)
  then have "tar_header b hdr s = Some (hdr + 512 + 512 * ((length (snd (snd e)) + 511) div 512), s')"
    using new(1) hd(4) nx unfolding tar_header_def scan_invD(1) [OF inv] ino hd(1-3) Let_def om_def [symmetric] s1_def [symmetric]
    by simp
  then show ?thesis using that inv' by blast
qed

lemma scan_start:
  "scan_inv b [] \<lparr>next_ino = 2, dir_inos = emplace [] 1 [], scan_fs = \<lparr>tar_backing = b, off_map = [], tar_dirs = emplace 1 [] []\<rparr>\<rparr>"
  using path_join_Nil by (auto simp: scan_inv_def dir_nodes_def kids_def split: if_splits)

lemma tar_loop_archive:
  "scan_inv b ds s \<Longrightarrow> entries_ok (ds @ es) \<Longrightarrow> tar_archive b off es \<Longrightarrow>
     \<exists>s'. tar_loop b off s = Some (scan_fs s') \<and> scan_inv b (ds @ es) s'"
proof (induction es arbitrary: ds s off)
  case Nil
  then show ?case by (auto simp: tar_loop.simps [of b off])
next
  case (Cons e es)
  then have at: "entry_at b off e" "b ! off \<noteq> 0" "off < length b" by (auto simp: entry_at_def)
  have ok: "entries_ok (ds @ [e])" using Cons.prems(2) entries_ok_prefix [of "ds @ [e]" es] by simp
  obtain s' where s': "tar_header b off s = Some (off + 512 + 512 * ((length (snd (snd e)) + 511) div 512), s')"
    "scan_inv b (ds @ [e]) s'" using scan_step [OF Cons.prems(1) ok at(1)] .
  from Cons.IH [OF s'(2)] show ?case using Cons.prems(2,3) at s'(1) by (simp add: tar_loop.simps [of b off])
qed

section \<open>Looking up a path\<close>

lemma kids_lookup:
  assumes "entries_ok es"
  shows "map_of (kids es q) x = Some i \<longleftrightarrow> (\<exists>k < length es. listed (es ! k) \<and> fst (es ! k) = q @ [x] \<and> i = entry_ino k)"
proof -
  have path: "butlast (fst (es ! k)) = q \<and> last (fst (es ! k)) = y \<longleftrightarrow> fst (es ! k) = q @ [y]" if "k < length es" for k y
    using entries_okD(2) [OF assms that] by (metis append_butlast_last_id butlast_snoc last_snoc)
  have "distinct (map fst (kids es q))"
    unfolding kids_def map_map comp_def fst_conv distinct_map
    using path entries_okD(5) [OF assms] by (auto intro!: inj_onI) metis
  then show ?thesis unfolding map_of_eq_Some_iff kids_def using path by (auto simp: image_iff)
qed

lemma ancestor:
  assumes ok: "entries_ok es"
  shows "k < length es \<Longrightarrow> fst (es ! k) = r @ x # s \<Longrightarrow> \<exists>i. (i, r) \<in> dir_nodes es"
proof (induction s arbitrary: k x rule: rev_induct)
  case Nil
  then have b: "butlast (fst (es ! k)) = r" by simp
  show ?case
  proof (cases "r = []")
    case True
    then show ?thesis using dir_nodesI(1) by blast
  next
    case False
    then obtain j where "j < k" "fst (es ! j) = r" "is_dir (es ! j)" using entries_okD(4) [OF ok Nil(1)] b by auto
    then show ?thesis using dir_nodesI(2) [of j es] Nil(1) by auto
  qed
next
  case (snoc y s)
  then have "butlast (fst (es ! k)) = r @ x # s" by (simp add: butlast_append)
  then obtain j where "j < k" "fst (es ! j) = r @ x # s" using entries_okD(4) [OF ok snoc(2)] by auto
  then show ?case using snoc.IH [of j x] snoc(2) by simp
qed

lemma dir_entry:
  assumes ok: "entries_ok es" and k: "k < length es"
  shows "(i, fst (es ! k)) \<in> dir_nodes es \<longleftrightarrow> is_dir (es ! k) \<and> i = entry_ino k"
    "(entry_ino k, p) \<in> dir_nodes es \<longleftrightarrow> is_dir (es ! k) \<and> p = fst (es ! k)"
proof -
  have "is_dir (es ! k) \<and> p = fst (es ! k) \<and> i = entry_ino k" if d: "(i, p) \<in> dir_nodes es" "p = fst (es ! k) \<or> i = entry_ino k" for i p
  proof -
    have "\<not> (i = 1 \<and> p = [])" using d(2) entries_okD(1,2) [OF ok k] entry_ino_root [of k] by auto
    then obtain l where l: "l < length es" "i = entry_ino l" "p = fst (es ! l)" "is_dir (es ! l)" using dir_nodes_bound [OF d(1)] by blast
    have "l = k" using d(2)
    proof
      show ?thesis if "p = fst (es ! k)" using entries_okD(5) [OF ok k l(1)] l(3) that by simp
      show ?thesis if "i = entry_ino k" using entry_ino_inj [of l k] entries_okD(1) [OF ok k] entries_okD(1) [OF ok l(1)] l(2) that by simp
    qed
    then show ?thesis using l by simp
  qed
  then show "(i, fst (es ! k)) \<in> dir_nodes es \<longleftrightarrow> is_dir (es ! k) \<and> i = entry_ino k"
    "(entry_ino k, p) \<in> dir_nodes es \<longleftrightarrow> is_dir (es ! k) \<and> p = fst (es ! k)"
    using dir_nodesI(2) [OF k] by blast+
qed

lemma tar_traverse_entry:
  assumes ok: "entries_ok es" and t: "\<And>i c. map_of (tar_dirs t) i = Some c \<longleftrightarrow> (\<exists>p. (i, p) \<in> dir_nodes es \<and> c = kids es p)"
  shows "(i, q) \<in> dir_nodes es \<Longrightarrow>
    tar_traverse t i p = Some j \<longleftrightarrow> (if p = [] then j = i else \<exists>k < length es. listed (es ! k) \<and> fst (es ! k) = q @ p \<and> j = entry_ino k)"
proof (induction p arbitrary: i q)
  case (Cons x p)
  have d: "map_of (tar_dirs t) i = Some (kids es q)" using t Cons.prems by blast
  have dl: "is_dir e \<Longrightarrow> listed e" for e by (simp add: is_dir_def listed_def)
  show ?case
  proof (cases "map_of (kids es q) x")
    case None
    have no: "fst (es ! k) \<noteq> q @ [x]" if "k < length es" "listed (es ! k)" for k using None kids_lookup [OF ok, of q x] that by auto
    have "(l, q @ [x]) \<notin> dir_nodes es" for l using dir_nodes_bound [of l "q @ [x]" es] no dl by fastforce
    then have "fst (es ! k) \<noteq> q @ x # p" if "k < length es" "listed (es ! k)" for k
      using no [OF that] ancestor [OF ok that(1), of "q @ [x]"] by (cases p) auto
    then show ?thesis using d None by (auto simp: child_named_map_of)
  next
    case (Some c)
    then obtain k where k: "k < length es" "listed (es ! k)" "fst (es ! k) = q @ [x]" "c = entry_ino k" using kids_lookup [OF ok] by blast
    have tr: "tar_traverse t i (x # p) = tar_traverse t c p" using d Some by (simp add: child_named_map_of)
    show ?thesis
    proof (cases "p = []")
      case True
      have "l = k" if "l < length es" "fst (es ! l) = q @ [x]" for l using entries_okD(5) [OF ok k(1) that(1)] that(2) k(3) by simp
      then have "(\<exists>l < length es. listed (es ! l) \<and> fst (es ! l) = q @ [x] \<and> j = entry_ino l) \<longleftrightarrow> j = c" using k by blast
      then show ?thesis unfolding tr using True by auto
    next
      case p: False
      show ?thesis
      proof (cases "is_dir (es ! k)")
        case True
        then show ?thesis using Cons.IH [of c "q @ [x]"] dir_nodesI(2) [OF k(1)] k p tr by simp
      next
        case False
        have "map_of (tar_dirs t) c = None" using t [of c] dir_entry(2) [OF ok k(1)] False k(4) by (metis option.exhaust)
        then have "tar_traverse t c p = None" using p by (cases p) simp_all
        moreover have "fst (es ! l) \<noteq> q @ x # p" if "l < length es" for l
          using ancestor [OF ok that, of "q @ [x]"] dir_entry(1) [OF ok k(1)] k(3) False p by (cases p) auto
        ultimately show ?thesis using tr by auto
      qed
    qed
  qed
qed auto

section \<open>What the file system shows\<close>

text \<open>A directory with the names of its entries, or a file with its data.\<close>

datatype tar_node = TarDir "string list" | TarFile "byte list"

definition tar_view :: "tarfs \<Rightarrow> path \<Rightarrow> tar_node option" where
  "tar_view t p =
     (case tar_traverse t 1 p of None \<Rightarrow> None | Some i \<Rightarrow>
        (case tar_children t i of
           Some c \<Rightarrow> Some (TarDir (map fst c))
         | None \<Rightarrow> (case tar_size t i of None \<Rightarrow> None | Some n \<Rightarrow> map_option TarFile (tar_read t i 0 n))))"

definition names_in :: "tar_entry list \<Rightarrow> path \<Rightarrow> string list" where
  "names_in es q = map (\<lambda>e. last (fst e)) (filter (\<lambda>e. listed e \<and> butlast (fst e) = q) es)"

definition archive_view :: "tar_entry list \<Rightarrow> path \<Rightarrow> tar_node option" where
  "archive_view es p =
     (if p = [] then Some (TarDir (names_in es []))
      else case find (\<lambda>e. listed e \<and> fst e = p) es of
             None \<Rightarrow> None
           | Some e \<Rightarrow> Some (if is_dir e then TarDir (names_in es p) else TarFile (snd (snd e))))"

lemma kids_names: "map fst (kids es q) = names_in es q"
proof -
  have "filter P es = map ((!) es) (filter (\<lambda>k. P (es ! k)) [0..<length es])" for P
    using filter_map [of P "(!) es" "[0..<length es]"] map_nth [of es] by (simp add: comp_def)
  then show ?thesis unfolding kids_def names_in_def by simp
qed

lemma entry_read:
  assumes at: "entry_at (tar_backing t) h e" and off: "map_of (off_map t) i = Some h"
    and small: "length (snd (snd e)) < 2 ^ 31" "length (tar_backing t) < 2 ^ 64"
  shows "tar_size t i = Some (word_of_nat (length (snd (snd e))))"
    "unat start \<le> length (snd (snd e)) \<Longrightarrow> tar_read t i start num = Some (take (unat num) (drop (unat start) (snd (snd e))))"
proof -
  let ?dat = "snd (snd e)" and ?b = "drop (h + 512) (tar_backing t)"
  show sz: "tar_size t i = Some (word_of_nat (length ?dat))" using entry_at_header(1) [OF at small(1)] off by (simp add: tar_size_def)
  assume start: "unat start \<le> length ?dat"
  have dat: "?dat = take (length ?dat) ?b" "length ?dat \<le> length ?b" using at by (cases e; auto simp: entry_at_def)+
  have "unat (word_of_nat (length ?dat) :: 64 word) = length ?dat" using small(1) by (simp add: unat_of_nat take_bit_nat_eq_self)
  then have n: "unat (min num (word_of_nat (length ?dat) - start)) = min (unat num) (length ?dat - unat start)"
    using start by (simp add: unat_sub word_le_nat_alt min_def)
  have "read_loop ?b start (min (unat num) (length ?dat - unat start)) = Some (take (min (unat num) (length ?dat - unat start)) (drop (unat start) ?b))"
    using start dat(2) small(2) by (intro read_loop_take) simp_all
  also have "take (min (unat num) (length ?dat - unat start)) (drop (unat start) ?b) = take (unat num) (drop (unat start) (take (length ?dat) ?b))"
    by (simp add: drop_take)
  finally show "tar_read t i start num = Some (take (unat num) (drop (unat start) ?dat))"
    using off sz n dat(1) by (simp add: tar_read_def)
qed

lemma find_entry:
  assumes "entries_ok es" "k < length es" "listed (es ! k)"
  shows "find (\<lambda>e. listed e \<and> fst e = fst (es ! k)) es = Some (es ! k)"
proof -
  have "\<not> fst (es ! j) = fst (es ! k)" if "j < k" for j using entries_okD(5) [OF assms(1,2), of j] assms(2) that by auto
  then show ?thesis unfolding find_Some_iff using assms by (intro exI [of _ k]) auto
qed

lemma scan_view:
  assumes inv: "scan_inv b es s" and ok: "entries_ok es" and b: "length b < 2 ^ 64"
  shows "tar_view (scan_fs s) p = archive_view es p"
    "tar_traverse (scan_fs s) 1 p = Some i \<Longrightarrow> archive_view es p = Some (TarFile dat) \<Longrightarrow> unat start \<le> length dat \<Longrightarrow>
       tar_read (scan_fs s) i start num = Some (take (unat num) (drop (unat start) dat))"
proof -
  let ?t = "scan_fs s"
  note t = scan_invD(7) [OF inv] and tr = tar_traverse_entry [OF ok scan_invD(7) [OF inv] dir_nodesI(1), simplified]
  have "map_of (tar_dirs ?t) 1 = Some (kids es [])" using t dir_nodesI(1) by blast
  then have root: "tar_view ?t [] = archive_view es []" "archive_view es [] \<noteq> Some (TarFile dat)"
    by (simp_all add: tar_view_def archive_view_def tar_children_def kids_names)
  have rd: "tar_size ?t (entry_ino k) = Some (word_of_nat (length (snd (snd (es ! k)))))"
    "unat start \<le> length (snd (snd (es ! k))) \<Longrightarrow>
       tar_read ?t (entry_ino k) start num = Some (take (unat num) (drop (unat start) (snd (snd (es ! k)))))" if k: "k < length es" for k start num
  proof -
    obtain h where "map_of (off_map ?t) (entry_ino k) = Some h" "entry_at b h (es ! k)" using scan_invD(9) [OF inv k] by blast
    then show "tar_size ?t (entry_ino k) = Some (word_of_nat (length (snd (snd (es ! k)))))"
      "unat start \<le> length (snd (snd (es ! k))) \<Longrightarrow>
         tar_read ?t (entry_ino k) start num = Some (take (unat num) (drop (unat start) (snd (snd (es ! k)))))"
      using entry_read [of ?t h "es ! k" "entry_ino k"] scan_invD(2) [OF inv] entries_okD(3) [OF ok k] b by auto
  qed
  show "tar_view ?t p = archive_view es p"
  proof (cases "\<exists>k < length es. listed (es ! k) \<and> fst (es ! k) = p")
    case True
    then obtain k where k: "k < length es" "listed (es ! k)" "fst (es ! k) = p" by blast
    have p: "p \<noteq> []" using entries_okD(2) [OF ok k(1)] k(3) by simp
    have tk: "tar_traverse ?t 1 p = Some (entry_ino k)" using tr [of p "entry_ino k"] k p by auto
    have av: "archive_view es p = Some (if is_dir (es ! k) then TarDir (names_in es p) else TarFile (snd (snd (es ! k))))"
      using find_entry [OF ok k(1,2)] k(3) p by (simp add: archive_view_def)
    have c: "tar_children ?t (entry_ino k) = (if is_dir (es ! k) then Some (kids es p) else None)"
      unfolding tar_children_def using t [of "entry_ino k"] dir_entry(2) [OF ok k(1)] k(3) by (auto) (metis option.exhaust)
    have "unat (word_of_nat (length (snd (snd (es ! k)))) :: 64 word) = length (snd (snd (es ! k)))"
      using entries_okD(3) [OF ok k(1)] by (simp add: unat_of_nat take_bit_nat_eq_self)
    then show ?thesis unfolding tar_view_def tk av using c rd [OF k(1)] by (simp add: kids_names)
  next
    case False
    show ?thesis
    proof (cases "p = []")
      case True
      then show ?thesis using root by simp
    next
      case p: False
      then have "tar_traverse ?t 1 p \<noteq> Some j" for j using tr [of p j] False by simp blast
      then have "tar_traverse ?t 1 p = None" by (cases "tar_traverse ?t 1 p") auto
      moreover have "find (\<lambda>e. listed e \<and> fst e = p) es = None" unfolding find_None_iff using False by (metis in_set_conv_nth)
      ultimately show ?thesis using p by (simp add: tar_view_def archive_view_def)
    qed
  qed
  assume a: "tar_traverse ?t 1 p = Some i" "archive_view es p = Some (TarFile dat)" "unat start \<le> length dat"
  then have "p \<noteq> []" using root(2) by auto
  then obtain k where k: "k < length es" "listed (es ! k)" "fst (es ! k) = p" "i = entry_ino k" using a(1) tr [of p i] by auto
  have "dat = snd (snd (es ! k))" using a(2) find_entry [OF ok k(1,2)] k(3) \<open>p \<noteq> []\<close> by (simp add: archive_view_def split: if_splits)
  then show "tar_read ?t i start num = Some (take (unat num) (drop (unat start) dat))" using rd(2) [OF k(1)] a(3) k(4) by simp
qed

section \<open>Writing an archive\<close>

text \<open>A header with a name, the digits of the size and a type flag; the other fields are zero.\<close>

definition tar_hdr :: "byte list \<Rightarrow> byte list \<Rightarrow> byte \<Rightarrow> byte list" where
  "tar_hdr name digits flag = name @ replicate (124 - length name) 0 @ digits @ replicate 21 0 @ [flag] @ replicate 355 0"

lemma length_tar_hdr: "length name \<le> 124 \<Longrightarrow> length digits = 11 \<Longrightarrow> length (tar_hdr name digits flag) = 512"
  by (simp add: tar_hdr_def)

lemma tar_hdr_entry:
  assumes "length name < 100" "0 \<notin> set name" "length digits = 11" "list_all (\<lambda>c. 48 \<le> c \<and> c \<le> 0x37) digits"
    and "octal digits = length dat" "StrToPath (map (\<lambda>c. char_of (unat c)) name) = p"
  shows "entry_at (pre @ tar_hdr name digits flag @ dat @ rest) (length pre) (p, flag, dat)"
proof -
  let ?b = "pre @ tar_hdr name digits flag @ dat @ rest"
  have l: "length (tar_hdr name digits flag) = 512" using assms(1,3) by (simp add: length_tar_hdr)
  have name: "take 100 (drop (length pre) ?b) = name @ replicate (100 - length name) 0" using assms(1) by (simp add: tar_hdr_def)
  then have "takeWhile (\<lambda>c. c \<noteq> 0) (take 100 (drop (length pre) ?b)) = name" using assms(1,2)
    by (simp add: takeWhile_append)
  moreover have "0 \<in> set (take 100 (drop (length pre) ?b))" unfolding name using assms(1) by simp
  moreover have "take 11 (drop (length pre + 124) ?b) = digits" using assms(1,3) by (simp add: tar_hdr_def)
  moreover have "?b ! (length pre + 156) = flag" using assms(1,3) by (auto simp: tar_hdr_def nth_append)
  ultimately show ?thesis using assms(4-6) l by (simp add: entry_at_def)
qed

section \<open>Properties\<close>

text \<open>
  C17: On an archive whose entries are a tree in which directories come before what they contain, the constructor of TarFs
  returns, and the file system shows exactly the archive: looking up a path and listing or reading the node gives the
  directory with its names in the order of the archive, the file with its data, or nothing when the archive has no such
  entry; a read from any position in a file gives the bytes there, up to the end of the file.
\<close>

theorem tarfs_correct:
  assumes "tar_archive b 0 es" "entries_ok es" "length b < 2 ^ 64"
  shows "\<exists>t. TarFs b = Some t \<and> (\<forall>p. tar_view t p = archive_view es p) \<and>
    (\<forall>p i dat start num. tar_traverse t 1 p = Some i \<longrightarrow> archive_view es p = Some (TarFile dat) \<longrightarrow> unat start \<le> length dat \<longrightarrow>
       tar_read t i start num = Some (take (unat num) (drop (unat start) dat)))"
proof -
  obtain s where s: "TarFs b = Some (scan_fs s)" "scan_inv b es s"
    using tar_loop_archive [OF scan_start, of es b 0] assms(1,2) unfolding TarFs_def by auto
  then show ?thesis using scan_view [OF s(2) assms(2,3)] by blast
qed

text \<open>An archive with the directory \<open>a/\<close> and the file \<open>a/b\<close> of two bytes.\<close>

definition example_entries :: "tar_entry list" where
  "example_entries = [([''a''], 0x35, []), ([''a'', ''b''], 0x30, [104, 105])]"

definition example_tar :: "byte list" where
  "example_tar = tar_hdr [97, 47] [48, 48, 48, 48, 48, 48, 48, 48, 48, 48, 48] 0x35 @
     tar_hdr [97, 47, 98] [48, 48, 48, 48, 48, 48, 48, 48, 48, 48, 50] 0x30 @ [104, 105] @ replicate 511 0"

lemma example_paths: "StrToPath (map (\<lambda>c. char_of (unat c)) [97, 47 :: byte]) = [''a'']"
  "StrToPath (map (\<lambda>c. char_of (unat c)) [97, 47, 98 :: byte]) = [''a'', ''b'']"
  by code_simp+

lemma example_archive: "tar_archive example_tar 0 example_entries" "length example_tar = 1537"
proof -
  let ?h = "tar_hdr [97, 47] [48, 48, 48, 48, 48, 48, 48, 48, 48, 48, 48] 0x35"
    and ?g = "tar_hdr [97, 47, 98] [48, 48, 48, 48, 48, 48, 48, 48, 48, 48, 50] 0x30"
  have l: "length ?h = 512" "length ?g = 512" by (simp_all add: length_tar_hdr)
  have "entry_at ([] @ ?h @ [] @ ?g @ [104, 105] @ replicate 511 0) (length ([] :: byte list)) ([''a''], 0x35, [])"
    by (intro tar_hdr_entry example_paths) (simp_all add: octal_def)
  then have "entry_at example_tar 0 ([''a''], 0x35, [])" by (simp add: example_tar_def)
  moreover have "entry_at (?h @ ?g @ [104, 105] @ replicate 511 0) (length ?h) ([''a'', ''b''], 0x30, [104, 105])"
    by (intro tar_hdr_entry example_paths) (simp_all add: octal_def)
  then have "entry_at example_tar 512 ([''a'', ''b''], 0x30, [104, 105])" by (simp add: example_tar_def l)
  moreover show len: "length example_tar = 1537" using l by (simp add: example_tar_def)
  moreover have "example_tar ! 0 \<noteq> 0" by (simp add: example_tar_def tar_hdr_def)
  moreover have "example_tar ! 512 \<noteq> 0" using l(1) by (simp add: example_tar_def nth_append) (simp add: tar_hdr_def)
  moreover have "example_tar ! 1536 = 0" using l by (simp add: example_tar_def nth_append)
  ultimately show "tar_archive example_tar 0 example_entries" by (simp add: example_entries_def)
qed

lemma example_entries_ok: "entries_ok example_entries"
  by (auto simp: entries_ok_def example_entries_def is_dir_def less_Suc_eq nth_Cons')

theorem tarfs_correct_witness:
  "\<exists>t. TarFs example_tar = Some t \<and> tar_view t [''a''] = Some (TarDir [''b'']) \<and> tar_view t [''a'', ''b''] = Some (TarFile [104, 105]) \<and>
     tar_view t [''b''] = None"
proof -
  obtain t where "TarFs example_tar = Some t" "\<forall>p. tar_view t p = archive_view example_entries p"
    using tarfs_correct [OF example_archive(1) example_entries_ok] example_archive(2) by auto
  then show ?thesis by (auto simp: archive_view_def names_in_def example_entries_def listed_def is_dir_def)
qed

end
