(* ===== verification/Kernel_Elf.thy ===== *)
theory Kernel_Elf
  imports Ficus_Base "HOL-Library.Monad_Syntax"
begin

text \<open>
  The parser of program files (\<open>kernel/elf/ElfParser.cpp\<close>) on the deserialisation of integers
  (\<open>kernel/templates/Serialize.hpp\<close>).

  The file is a list of bytes, an iterator is a position in it.  \<open>None\<close> is undefined behaviour: an iterator that is
  advanced past the end of the file, or a member of an optional that has no value.  The fields of the parser that an early
  return leaves uninitialised are those of the argument.  Loading the segments (\<open>copy_to\<close>) is not modelled.
\<close>

section \<open>Deserialising integers\<close>

text \<open>An integer of one or more bytes, and the position behind it.\<close>

definition deserialize :: "byte list \<Rightarrow> nat \<Rightarrow> 'w::len word option \<times> nat" where
  "deserialize data it =
     (if it \<ge> length data then (None, it)
      else if length data - it < LENGTH('w) div 8 then (None, it)
      else (Some (word_of_nat (le_val (take (LENGTH('w) div 8) (drop it data)))), it + LENGTH('w) div 8))"

text \<open>\<open>if (deserialize(it, end) != v) return;\<close> and \<open>if (auto val = deserialize(it, end)) field = *val; else return;\<close>\<close>

definition expect :: "'v option \<times> nat \<Rightarrow> 'v \<Rightarrow> 'r \<Rightarrow> (nat \<Rightarrow> 'r) \<Rightarrow> 'r" where
  "expect r v ret go = (if fst r \<noteq> Some v then ret else go (snd r))"

definition field :: "'v option \<times> nat \<Rightarrow> 'r \<Rightarrow> ('v \<Rightarrow> nat \<Rightarrow> 'r) \<Rightarrow> 'r" where
  "field r ret go = (case fst r of None \<Rightarrow> ret | Some v \<Rightarrow> go v (snd r))"

section \<open>Program headers\<close>

record phdr =
  p_type :: "32 word"
  p_flags :: "32 word"
  p_offset :: "64 word"
  p_vaddr :: "64 word"
  p_paddr :: "64 word"
  p_filesz :: "64 word"
  p_memsz :: "64 word"
  p_align :: "64 word"

text \<open>The constructor: \<open>None\<close> is a header whose \<open>valid\<close> stays false.\<close>

definition Elf64_Phdr :: "byte list \<Rightarrow> nat \<Rightarrow> (phdr \<times> nat) option" where
  "Elf64_Phdr data it =
     field (deserialize data it) None (\<lambda>ty it.
     field (deserialize data it) None (\<lambda>fl it.
     field (deserialize data it) None (\<lambda>off it.
     field (deserialize data it) None (\<lambda>va it.
     field (deserialize data it) None (\<lambda>pa it.
     field (deserialize data it) None (\<lambda>fs it.
     field (deserialize data it) None (\<lambda>ms it.
     field (deserialize data it) None (\<lambda>al it.
       Some (\<lparr>p_type = ty, p_flags = fl, p_offset = off, p_vaddr = va, p_paddr = pa, p_filesz = fs, p_memsz = ms, p_align = al\<rparr>, it)))))))))"

section \<open>The parser\<close>

record elf =
  el_valid :: bool
  elf_hdr_ver :: "8 word"
  el_abi :: "8 word"
  entrypoint :: "64 word"
  phdrs_pos :: "64 word"
  sects_pos :: "64 word"
  el_flags :: "32 word"
  hdr_size :: "16 word"
  hdrs_entry_size :: "16 word"
  hdrs_num :: "16 word"
  sects_entry_size :: "16 word"
  sects_num :: "16 word"
  sects_name_idx :: "16 word"
  el_headers :: "phdr list"
  el_data :: "byte list"

text \<open>The loop over the program headers: \<open>None\<close> is the member access on an optional without a value.\<close>

fun read_headers :: "nat \<Rightarrow> byte list \<Rightarrow> nat \<Rightarrow> elf \<Rightarrow> elf option" where
  "read_headers 0 data it e = Some (e\<lparr>el_data := data, el_valid := True\<rparr>)"
| "read_headers (Suc n) data it e =
     (if it \<ge> length data then None
      else case Elf64_Phdr data it of None \<Rightarrow> Some e
           | Some (h, it) \<Rightarrow> read_headers n data it (e\<lparr>el_headers := el_headers e @ [h]\<rparr>))"

text \<open>The part of the header behind the identification; \<open>it\<close> is the position.\<close>

definition read_rest :: "byte list \<Rightarrow> nat \<Rightarrow> elf \<Rightarrow> elf option" where
  "read_rest data it e =
     field (deserialize data it) (Some e) (\<lambda>v :: 32 word. \<lambda>it. let e = e\<lparr>elf_hdr_ver := ucast v\<rparr> in
     field (deserialize data it) (Some e) (\<lambda>v it. let e = e\<lparr>entrypoint := v\<rparr> in
     field (deserialize data it) (Some e) (\<lambda>v it. let e = e\<lparr>phdrs_pos := v\<rparr> in
     field (deserialize data it) (Some e) (\<lambda>v it. let e = e\<lparr>sects_pos := v\<rparr> in
     field (deserialize data it) (Some e) (\<lambda>v it. let e = e\<lparr>el_flags := v\<rparr> in
     field (deserialize data it) (Some e) (\<lambda>v it. let e = e\<lparr>hdr_size := v\<rparr> in
     field (deserialize data it) (Some e) (\<lambda>v it. let e = e\<lparr>hdrs_entry_size := v\<rparr> in
     field (deserialize data it) (Some e) (\<lambda>v it. let e = e\<lparr>hdrs_num := v\<rparr> in
     field (deserialize data it) (Some e) (\<lambda>v it. let e = e\<lparr>sects_entry_size := v\<rparr> in
     field (deserialize data it) (Some e) (\<lambda>v it. let e = e\<lparr>sects_num := v\<rparr> in
     field (deserialize data it) (Some e) (\<lambda>v it. let e = e\<lparr>sects_name_idx := v\<rparr> in
       if unat (phdrs_pos e) > length data then None
       else read_headers (unat (hdrs_num e)) data (unat (phdrs_pos e)) e)))))))))))"

definition ElfParser :: "byte list \<Rightarrow> elf \<Rightarrow> elf option" where
  "ElfParser data e =
     (let e = e\<lparr>el_valid := False, el_headers := [], el_data := []\<rparr> in
     expect (deserialize data 0) (0x7F :: 8 word) (Some e) (\<lambda>it.
     expect (deserialize data it) (0x45 :: 8 word) (Some e) (\<lambda>it.
     expect (deserialize data it) (0x4C :: 8 word) (Some e) (\<lambda>it.
     expect (deserialize data it) (0x46 :: 8 word) (Some e) (\<lambda>it.
     expect (deserialize data it) (2 :: 8 word) (Some e) (\<lambda>it.
     expect (deserialize data it) (1 :: 8 word) (Some e) (\<lambda>it.
     field (deserialize data it) (Some e) (\<lambda>v it. let e = e\<lparr>elf_hdr_ver := v\<rparr> in
     field (deserialize data it) (Some e) (\<lambda>v it. let e = e\<lparr>el_abi := v\<rparr> in
       if length data - it < 8 then Some e
       else let it = it + 8 in
         expect (deserialize data it) (2 :: 16 word) (Some e) (\<lambda>it.
         expect (deserialize data it) (0x3E :: 16 word) (Some e) (\<lambda>it. read_rest data it e)))))))))))"

section \<open>Reading at fixed positions\<close>

definition val_at :: "byte list \<Rightarrow> nat \<Rightarrow> 'w::len word" where
  "val_at data i = word_of_nat (le_val (take (LENGTH('w) div 8) (drop i data)))"

lemma deserialize_in:
  "it + LENGTH('w::len) div 8 \<le> length data \<Longrightarrow> LENGTH('w) \<ge> 8 \<Longrightarrow> deserialize data it = (Some (val_at data it :: 'w word), it + LENGTH('w) div 8)"
  by (auto simp: deserialize_def val_at_def)

lemma deserialize_out: "\<not> it + LENGTH('w::len) div 8 \<le> length data \<Longrightarrow> deserialize data it = (None :: 'w word option, it)"
  by (auto simp: deserialize_def)

lemma field_simps [simp]: "field (Some v, it) ret go = go v it" "field (None, it) ret go = ret"
  by (simp_all add: field_def)

lemma expect_simps [simp]: "expect (Some w, it) v ret go = (if w = v then go it else ret)" "expect (None, it) v ret go = ret"
  by (simp_all add: expect_def)

lemma deserialize_widths:
  "deserialize data it = (if it + 1 \<le> length data then (Some (val_at data it :: 8 word), it + 1) else (None, it))"
  "deserialize data it = (if it + 2 \<le> length data then (Some (val_at data it :: 16 word), it + 2) else (None, it))"
  "deserialize data it = (if it + 4 \<le> length data then (Some (val_at data it :: 32 word), it + 4) else (None, it))"
  "deserialize data it = (if it + 8 \<le> length data then (Some (val_at data it :: 64 word), it + 8) else (None, it))"
  using deserialize_in [of it data] deserialize_out [of it data]
  by (auto simp: deserialize_def val_at_def)

definition phdr_at :: "byte list \<Rightarrow> nat \<Rightarrow> phdr" where
  "phdr_at data i = \<lparr>p_type = val_at data i, p_flags = val_at data (i + 4), p_offset = val_at data (i + 8), p_vaddr = val_at data (i + 16),
     p_paddr = val_at data (i + 24), p_filesz = val_at data (i + 32), p_memsz = val_at data (i + 40), p_align = val_at data (i + 48)\<rparr>"

lemma Elf64_Phdr_at: "Elf64_Phdr data it = (if it + 56 \<le> length data then Some (phdr_at data it, it + 56) else None)"
  by (simp add: Elf64_Phdr_def deserialize_widths phdr_at_def add.assoc)

lemma read_headers_at:
  "it \<le> length data \<Longrightarrow> read_headers n data it e =
     (if it + 56 * n \<le> length data
      then Some (e\<lparr>el_headers := el_headers e @ map (\<lambda>i. phdr_at data (it + 56 * i)) [0 ..< n], el_data := data, el_valid := True\<rparr>)
      else if (length data - it) mod 56 = 0 then None
      else Some (e\<lparr>el_headers := el_headers e @ map (\<lambda>i. phdr_at data (it + 56 * i)) [0 ..< (length data - it) div 56]\<rparr>))"
proof (induction n arbitrary: it e)
  case 0
  then show ?case by simp
next
  case (Suc n)
  have m: "[0 ..< Suc k] = 0 # map Suc [0 ..< k]" for k by (simp add: map_Suc_upt upt_conv_Cons del: upt_Suc)
  have h: "map (\<lambda>i. phdr_at data (it + 56 * i)) [0 ..< Suc k] = phdr_at data it # map (\<lambda>i. phdr_at data (it + 56 + 56 * i)) [0 ..< k]" for k
    unfolding m by (simp add: add.assoc)
  show ?case
  proof (cases "it + 56 \<le> length data")
    case True
    then have d: "(length data - it) div 56 = Suc ((length data - (it + 56)) div 56)" "(length data - it) mod 56 = (length data - (it + 56)) mod 56"
      by (simp_all add: le_div_geq le_mod_geq)
    have "read_headers (Suc n) data it e = read_headers n data (it + 56) (e\<lparr>el_headers := el_headers e @ [phdr_at data it]\<rparr>)"
      using True by (simp add: Elf64_Phdr_at)
    also note Suc.IH [OF True]
    finally show ?thesis unfolding d h by (simp add: add.assoc)
  next
    case False
    have "read_headers (Suc n) data it e = (if it \<ge> length data then None else Some e)" using False by (simp add: Elf64_Phdr_at)
    moreover have "(length data - it) div 56 = 0" "(length data - it) mod 56 = length data - it" using False by simp_all
    ultimately show ?thesis using False Suc.prems by simp
  qed
qed

text \<open>The header of an executable for this machine.\<close>

definition elf_ident :: "byte list \<Rightarrow> bool" where
  "elf_ident data \<longleftrightarrow> 64 \<le> length data \<and> take 6 data = [0x7F, 0x45, 0x4C, 0x46, 2, 1] \<and>
     val_at data 16 = (2 :: 16 word) \<and> val_at data 18 = (0x3E :: 16 word)"

lemma val_at_byte: "i < length data \<Longrightarrow> (val_at data i :: 8 word) = data ! i"
  using Cons_nth_drop_Suc [of i data, symmetric] by (simp add: val_at_def)

lemma take6: "6 \<le> length xs \<Longrightarrow> take 6 xs = [a, b, c, d, e, f] \<longleftrightarrow>
    xs ! 0 = a \<and> xs ! 1 = b \<and> xs ! 2 = c \<and> xs ! 3 = d \<and> xs ! 4 = e \<and> xs ! 5 = f"
  by (cases xs; cases "tl xs"; cases "tl (tl xs)"; cases "tl (tl (tl xs))"; cases "tl (tl (tl (tl xs)))"; cases "tl (tl (tl (tl (tl xs))))")
    (auto simp: eval_nat_numeral)

lemma magic_at:
  assumes "6 \<le> length data"
  shows "take 6 data = [0x7F, 0x45, 0x4C, 0x46, 2, 1] \<longleftrightarrow> (val_at data 0 :: 8 word) = 0x7F \<and> (val_at data 1 :: 8 word) = 0x45 \<and>
    (val_at data 2 :: 8 word) = 0x4C \<and> (val_at data 3 :: 8 word) = 0x46 \<and> (val_at data 4 :: 8 word) = 2 \<and> (val_at data 5 :: 8 word) = 1"
proof -
  have "(val_at data 0 :: 8 word) = data ! 0" by (rule val_at_byte) (use assms in linarith)
  then show ?thesis unfolding take6 [OF assms] using assms val_at_byte [of _ data] by simp
qed

lemma read_rest_at:
  assumes "\<not> el_valid e" "el_headers e = []"
  shows "if length data < 64 then \<exists>e'. read_rest data 20 e = Some e' \<and> \<not> el_valid e'
    else \<exists>e'. \<not> el_valid e' \<and> el_headers e' = [] \<and> entrypoint e' = val_at data 24 \<and>
      read_rest data 20 e = (if unat (val_at data 32 :: 64 word) > length data then None
        else read_headers (unat (val_at data 56 :: 16 word)) data (unat (val_at data 32 :: 64 word)) e')"
proof (cases "length data < 64")
  case True
  then show ?thesis using assms(1) by (simp add: read_rest_def deserialize_widths Let_def)
next
  case False
  let ?e = "e\<lparr>elf_hdr_ver := ucast (val_at data 20 :: 32 word), entrypoint := val_at data 24, phdrs_pos := val_at data 32,
    sects_pos := val_at data 40, el_flags := val_at data 48, hdr_size := val_at data 52, hdrs_entry_size := val_at data 54,
    hdrs_num := val_at data 56, sects_entry_size := val_at data 58, sects_num := val_at data 60, sects_name_idx := val_at data 62\<rparr>"
  have "read_rest data 20 e = (if unat (val_at data 32 :: 64 word) > length data then None
      else read_headers (unat (val_at data 56 :: 16 word)) data (unat (val_at data 32 :: 64 word)) ?e)"
    using False by (simp add: read_rest_def deserialize_widths Let_def)
  then show ?thesis using False assms by (intro if_not_P [THEN iffD2] exI [of _ ?e]) simp_all
qed

lemma ElfParser_at:
  "\<exists>e1. \<not> el_valid e1 \<and> el_headers e1 = [] \<and>
     (if 20 \<le> length data \<and> take 6 data = [0x7F, 0x45, 0x4C, 0x46, 2, 1] \<and> val_at data 16 = (2 :: 16 word) \<and> val_at data 18 = (0x3E :: 16 word)
      then ElfParser data e = read_rest data 20 e1 else ElfParser data e = Some e1)"
proof (cases "20 \<le> length data \<and> take 6 data = [0x7F, 0x45, 0x4C, 0x46, 2, 1] \<and> val_at data 16 = (2 :: 16 word) \<and> val_at data 18 = (0x3E :: 16 word)")
  case True
  let ?e = "e\<lparr>el_valid := False, el_headers := [], el_data := [], elf_hdr_ver := val_at data 6, el_abi := val_at data 7\<rparr>"
  have "\<not> length data - 8 < 8" using True by linarith
  then have "ElfParser data e = read_rest data 20 ?e"
    using True magic_at [of data] by (simp add: ElfParser_def deserialize_widths Let_def del: One_nat_def)
  then show ?thesis unfolding if_P [OF True] by (intro exI [of _ ?e]) simp
next
  case False
  then have "\<exists>e1. \<not> el_valid e1 \<and> el_headers e1 = [] \<and> ElfParser data e = Some e1"
    using magic_at [of data] by (auto simp: ElfParser_def deserialize_widths Let_def simp del: One_nat_def)
  then show ?thesis unfolding if_not_P [OF False] .
qed

section \<open>Properties\<close>

text \<open>
  C33: What the parser does on every file.  It rejects a file that is shorter than the header or is not an executable for this machine.
  Otherwise, when all program headers lie in the file it accepts it with the entry point and exactly these headers; when the
  table begins outside the file, or the file ends exactly between two of its headers, the behaviour is undefined; when the file ends
  inside a header, it rejects it.
\<close>

theorem elf_parser_correct:
  fixes data :: "byte list"
  defines "pos \<equiv> unat (val_at data 32 :: 64 word)" and "n \<equiv> unat (val_at data 56 :: 16 word)"
  shows "if \<not> elf_ident data then \<exists>e'. ElfParser data e = Some e' \<and> \<not> el_valid e'
    else if pos > length data \<or> pos + 56 * n > length data \<and> (length data - pos) mod 56 = 0 then ElfParser data e = None
    else \<exists>e'. ElfParser data e = Some e' \<and> (el_valid e' \<longleftrightarrow> pos + 56 * n \<le> length data) \<and>
      (pos + 56 * n \<le> length data \<longrightarrow> entrypoint e' = val_at data 24 \<and> el_data e' = data \<and>
         el_headers e' = map (\<lambda>i. phdr_at data (pos + 56 * i)) [0 ..< n])"
proof -
  obtain e1 where e1: "\<not> el_valid e1" "el_headers e1 = []"
     "if 20 \<le> length data \<and> take 6 data = [0x7F, 0x45, 0x4C, 0x46, 2, 1] \<and> val_at data 16 = (2 :: 16 word) \<and> val_at data 18 = (0x3E :: 16 word)
      then ElfParser data e = read_rest data 20 e1 else ElfParser data e = Some e1"
    using ElfParser_at [of data e] by blast
  note r = read_rest_at [OF e1(1,2), of data]
  show ?thesis
  proof (cases "elf_ident data")
    case False
    then have "\<exists>e'. ElfParser data e = Some e' \<and> \<not> el_valid e'"
      using e1 r unfolding elf_ident_def by (cases "length data < 64") (auto split: if_splits)
    then show ?thesis using False by simp
  next
    case True
    then obtain e2 where e2: "\<not> el_valid e2" "el_headers e2 = []" "entrypoint e2 = val_at data 24"
        "ElfParser data e = (if pos > length data then None else read_headers n data pos e2)"
      using e1(3) r unfolding elf_ident_def pos_def n_def by (auto split: if_splits)
    show ?thesis using True e2 read_headers_at [of pos data n e2] by auto
  qed
qed

text \<open>A file that consists of the header only and announces \<open>n\<close> program headers behind it.\<close>

definition example_elf :: "byte \<Rightarrow> byte list" where
  "example_elf n = [0x7F, 0x45, 0x4C, 0x46, 2, 1, 1, 0, 0, 0, 0, 0, 0, 0, 0, 0, 2, 0, 0x3E, 0, 1, 0, 0, 0, 0, 0, 0x40, 0, 0, 0, 0, 0,
     64, 0, 0, 0, 0, 0, 0, 0, 0, 0, 0, 0, 0, 0, 0, 0, 0, 0, 0, 0, 64, 0, 56, 0, n, 0, 64, 0, 0, 0, 0, 0]"

theorem elf_parser_correct_witness:
  "(\<forall>e. ElfParser (example_elf 1) e = None) \<and>
   (\<forall>e. \<exists>e'. ElfParser (example_elf 0) e = Some e' \<and> el_valid e' \<and> entrypoint e' = 0x400000)"
proof -
  have i: "elf_ident (example_elf n)" for n by (simp add: elf_ident_def example_elf_def val_at_def)
  have v: "length (example_elf n) = 64" "(val_at (example_elf n) 32 :: 64 word) = 64" "(val_at (example_elf n) 24 :: 64 word) = 0x400000"
      "(val_at (example_elf n) 56 :: 16 word) = ucast n" for n
    by (simp_all add: example_elf_def val_at_def)
  have "ElfParser (example_elf 1) e = None" for e using elf_parser_correct [of "example_elf 1" e] i v by simp
  moreover have "\<exists>e'. ElfParser (example_elf 0) e = Some e' \<and> el_valid e' \<and> entrypoint e' = 0x400000" for e
    using elf_parser_correct [of "example_elf 0" e] i v by auto
  ultimately show ?thesis by blast
qed

end
