(* ===== verification/Spec2Isabelle.thy ===== *)
theory Spec2Isabelle
  imports Newlib_Strcmp Newlib_Strto Newlib_Mprec Newlib_Sort Newlib_Time
    Kernel_Queues Kernel_Pointers Kernel_Heap Kernel_Mmap Kernel_Mutex Kernel_TarFs Kernel_Elf
begin

text \<open>
  A verification library for \<^bold>\<open>ficus\<close>, an operating system for x86-64: a kernel in C++
  (\<open>src/src/kernel\<close>, \<open>src/src/arch/x86\<close>) and the C library its programs are linked
  with, a port of newlib (\<open>src/ficus-toolchain/newlib/source/newlib\<close>, below
  \<open>newlib\<close>).  The definitions are translated from these sources, function by
  function, and are executable; the lemmas state what the functions compute, on
  every branch, and that their loops end.

  \<^bold>\<open>The parts and the theories.\<close>

  \<^item> \<open>Ficus_Base\<close>: the memory, a function from addresses to bytes, and the machine
    words read from and written to it in little-endian order; the test for a zero
    byte in a word that newlib's loops use; C strings in memory.
  \<^item> \<open>Newlib_Memsearch\<close>: \<open>newlib/libc/string\<close>: \<open>memchr\<close>, \<open>memrchr\<close>, \<open>rawmemchr\<close>, \<open>strlen\<close>,
    \<open>strnlen\<close>, \<open>strchr\<close>, \<open>strrchr\<close>, \<open>strchrnul\<close> and their relatives.
  \<^item> \<open>Newlib_Memcopy\<close>: \<open>memcpy\<close>, \<open>memmove\<close>, \<open>memset\<close>, \<open>memccpy\<close>, \<open>strcpy\<close>, \<open>strncpy\<close>,
    \<open>stpcpy\<close>, \<open>stpncpy\<close>, \<open>strcat\<close>, \<open>strncat\<close>, \<open>strlcpy\<close>, \<open>strlcat\<close> and others.
  \<^item> \<open>Newlib_Strcmp\<close>: \<open>strcmp\<close>, \<open>strncmp\<close>, \<open>memcmp\<close>, \<open>strspn\<close>, \<open>strcspn\<close>, \<open>strpbrk\<close>, \<open>strtok_r\<close>,
    \<open>strsep\<close> and others.
  \<^item> \<open>Newlib_Ctype\<close>: the character table and the functions of \<open>newlib/libc/ctype\<close>.
  \<^item> \<open>Newlib_Strto\<close>: the \<open>strtol\<close> family, byte and wide, in twelve functions over one
    engine, \<open>atoi\<close>, \<open>atol\<close>, \<open>atoll\<close>, \<open>itoa\<close>, \<open>utoa\<close>.
  \<^item> \<open>Newlib_Mprec\<close>: the multiple-precision integers of \<open>mprec.c\<close>, on which the
    conversion of floating-point numbers rests.
  \<^item> \<open>Newlib_Sort\<close>: \<open>qsort\<close> and \<open>bsearch\<close> of \<open>newlib/libc/search\<close>.
  \<^item> \<open>Newlib_Time\<close>: \<open>gmtime_r\<close>, \<open>mktime\<close>, \<open>localtime_r\<close> of \<open>newlib/libc/time\<close>.
  \<^item> \<open>Kernel_Queues\<close>: \<open>CircularBuffer.hpp\<close>, the buffer of the terminals, and \<open>List.hpp\<close>,
    the queue of the scheduler and of the waiting tasks.
  \<^item> \<open>Kernel_Memman\<close>: \<open>memman.cpp\<close>, the allocator of physical pages.
  \<^item> \<open>Kernel_Paging\<close>: \<open>paging.cpp\<close>, the page tables of an address space.
  \<^item> \<open>Kernel_Region\<close> and \<open>Kernel_Heap\<close>: \<open>kmem.cpp\<close>, the heap of the kernel: blocks with headers and
    a free list, on pages that are mapped behind its end and unmapped again.
  \<^item> \<open>Kernel_SkipList\<close>: \<open>SkipList.hpp\<close>, the ordered map of the kernel, on nodes in a
    heap, with the random levels of \<open>rand.cpp\<close>.
  \<^item> \<open>Kernel_Vma\<close>: \<open>VMA.cpp\<close>, the regions of an address space, kept in that map.
  \<^item> \<open>Kernel_Mmap\<close>: \<open>VMA::mmap_mem\<close> over its three parts, the regions, the page allocator and the
    page tables.
  \<^item> \<open>Kernel_Pointers\<close>: \<open>PointersCollection.hpp\<close>, the shared, weak and copy-on-write pointers.
  \<^item> \<open>Kernel_Mutex\<close>: \<open>mutex.cpp\<close>, \<open>cv.hpp\<close>, \<open>Spinlock.hpp\<close> and the run queue of
    \<open>task.cpp\<close>, as a state machine of tasks that the timer preempts.
  \<^item> \<open>Kernel_Vfs\<close>: \<open>vfs/MemFs.cpp\<close>, \<open>Node.cpp\<close>, \<open>FDT.cpp\<close>, \<open>File.cpp\<close>, \<open>VFSApi.cpp\<close>, \<open>TtyPipe.cpp\<close>:
    the files in memory, the descriptors, and the system calls on them.
  \<^item> \<open>Kernel_TarFs\<close>: \<open>vfs/TarFs.cpp\<close>, the files of the tar archive that is loaded at boot.
  \<^item> \<open>Kernel_Elf\<close>: \<open>elf/ElfParser.cpp\<close> on \<open>Serialize.hpp\<close>, the parser of program files.

  \<^bold>\<open>How the code is translated.\<close>  A pointer is an address (\<open>nat\<close>), \<open>NULL\<close> is 0; memory
  is passed in and returned.  A struct is a record with the fields of the source,
  an enum a datatype.  Integers have the width they have in C on this target
  (\<open>8 word\<close>, \<open>32 word\<close>, \<open>64 word\<close>) where wrap-around matters, and are \<open>int\<close> or \<open>nat\<close> where
  the code cannot overflow; \<open>char\<close> is signed and \<open>long\<close> has 64 bits.  A loop over a
  counter is a total function with its measure; a loop that ends only because of
  what is in memory (the terminator of a string, a structure of pointers) is a
  \<open>partial_function (option)\<close>, and the theorems prove that it returns.  A failed
  assertion, an access outside an array and other behaviour the code leaves
  undefined is \<open>None\<close>; an error the code reports is a value of the result.  No
  definition takes fuel.

  \<^bold>\<open>What the lemmas show.\<close>  For the string functions: the result in terms of the
  list of bytes that is in memory, for all sizes and alignments, so that the
  loops by machine word agree with the loops by byte.  For the conversions: the
  value of the subject sequence clamped to the type, with the error number and the
  end pointer, and that reading what was printed gives the number back.  For
  \<open>mprec.c\<close>: exact products, powers, shifts and differences, with the free lists and
  the cache of powers kept well-formed.  For \<open>qsort\<close>: that it sorts, with its
  partition, its parameter stack and its recursion.  For the calendar: agreement
  with the Gregorian calendar and \<open>mktime\<close> as the inverse of \<open>localtime_r\<close>.  For the
  kernel: the queues refine the abstract queue of the locale \<open>fifo\<close>, the skip list the
  ordered map of \<open>ordered_map\<close>; the allocator hands out each free page once; mapping
  and unmapping a page changes the translation of exactly that page, and an address space
  gives back all its frames; the heap hands out blocks that do not overlap and keep
  their contents until they are freed, while blocks are split and merged and pages come and go; the regions always tile the address space and taking and freeing a region changes
  the use of exactly its addresses, and mapping memory gives every page of the region a frame of
  its own; objects and control blocks of shared pointers live exactly as long as there are
  pointers to them; the mutex excludes, no task is lost or queued
  twice, and no assertion on the way fails; the system calls on files implement a
  map from paths to directories and files, and what is written is read back; the archive file system
  shows exactly the entries of a well-formed archive; the parser of
  program files accepts exactly the files whose headers lie in them.  Where
  the code does not do what it means to, a theorem says what it does
  (\<open>parse_entry_above_limit\<close>, \<open>get_entry_cut_length\<close>, \<open>mutex_lost_wakeup\<close>,
  \<open>append_adds_zero\<close>, \<open>read_past_end\<close>; the second cases of \<open>kmalloc_correct\<close>,
  \<open>kfree_correct\<close> and \<open>elf_parser_correct\<close>).

  \<^bold>\<open>Interfaces.\<close>  Each locale states what a client relies on and is interpreted on
  the model: \<open>fifo\<close> (a queue) on both queues of the kernel; \<open>frame_pool\<close> (an allocator of
  page frames) on \<open>get4k\<close> and \<open>free4k\<close>, on which the page tables and the heap rely;
  \<open>allocator\<close> (allocating and freeing blocks) on \<open>kmalloc\<close> and \<open>kfree\<close>; \<open>ordered_map\<close> on the
  skip list; \<open>char_type\<close> (reading the
  characters of a string) on the bytes and the wide characters of the \<open>strtol\<close>
  family.

  \<^bold>\<open>Not modelled.\<close>  Floating point and formatted input and output; the other
  allocators and the hash tables of newlib; locales and multibyte characters,
  which this build does not enable; drivers, interrupts, context switches and the page
  tables built at boot, whose effect is on the hardware; the creation, sleeping and
  waiting of tasks beyond the run queue and the mutex; mounting and the cache
  of nodes; loading the segments of a program; the vendored bootloader.
\<close>

end
